(* ===== verification/PT_Prelude.thy ===== *)
theory PT_Prelude imports Main "HOL-Library.Word" "HOL-Library.Signed_Division" begin

text \<open>
  What every component of the development shares: the names of the machine types, the ways a
  C function can stop the process, and the generic facts on words and lists the component
  proofs rest on.  The named collections: \<open>pac_simps\<close> rewrites signing, stripping and
  authenticating of pointers; \<open>mem_simps\<close> rewrites loads after stores; \<open>result_simps\<close>
  rewrites the sequencing of fallible operations.
\<close>

unbundle bit_operations_syntax

section \<open>Types of the machine\<close>

text \<open>
  The target is AArch64 Linux (LP64): pointers, \<open>size_t\<close>, \<open>unsigned long\<close>,
  \<open>unsigned long long\<close> and \<open>uint64_t\<close> are 64 bits, \<open>int\<close> is 32 bits.
\<close>

type_synonym addr = "64 word"
type_synonym u64 = "64 word"
type_synonym u32 = "32 word"
type_synonym byte = "8 word"

text \<open>
  How a call ends when it does not return: \<open>exit(n)\<close>, \<open>abort()\<close>, an access to
  unmapped memory, or an operation on which C puts no requirement.
\<close>

datatype stop = Exit int | Abort | Segv | Undefined

section \<open>Collections\<close>

named_theorems pac_simps \<open>signing, stripping and authenticating pointers\<close>
named_theorems mem_simps \<open>loads and stores\<close>
named_theorems result_simps \<open>sequencing of fallible operations\<close>

section \<open>Sequencing of fallible operations\<close>

text \<open>
  A result is \<open>Inl e\<close> when the process stopped and \<open>Inr v\<close> when the call returned;
  \<open>then_do\<close> goes on with the value of a call that returned.
\<close>

definition then_do :: "'e + 'a \<Rightarrow> ('a \<Rightarrow> 'e + 'b) \<Rightarrow> 'e + 'b" where
  "then_do r f = (case r of Inl e \<Rightarrow> Inl e | Inr v \<Rightarrow> f v)"

lemma then_do_Inl [simp, result_simps]: "then_do (Inl e) f = Inl e"
  by (simp add: then_do_def)

lemma then_do_Inr [simp, result_simps]: "then_do (Inr v) f = f v"
  by (simp add: then_do_def)

lemma then_do_eq_Inr [result_simps]:
  "then_do r f = Inr w \<longleftrightarrow> (\<exists>v. r = Inr v \<and> f v = Inr w)"
  by (cases r) auto

lemma then_do_eq_Inl [result_simps]:
  "then_do r f = Inl e \<longleftrightarrow> r = Inl e \<or> (\<exists>v. r = Inr v \<and> f v = Inl e)"
  by (cases r) auto

lemma then_do_assoc: "then_do (then_do r f) g = then_do r (\<lambda>v. then_do (f v) g)"
  by (cases r) auto

text \<open>The same for calls that may not return: a result is \<open>None\<close> when the call runs for ever.\<close>

definition run_then :: "(stop + 'a) option \<Rightarrow> ('a \<Rightarrow> (stop + 'b) option) \<Rightarrow> (stop + 'b) option" where
  "run_then r f = (case r of None \<Rightarrow> None | Some (Inl e) \<Rightarrow> Some (Inl e) | Some (Inr v) \<Rightarrow> f v)"

lemma run_then_simps [simp, result_simps]:
  "run_then None f = None" "run_then (Some (Inl e)) f = Some (Inl e)" "run_then (Some (Inr v)) f = f v"
  by (simp_all add: run_then_def)

section \<open>Words\<close>

lemma bit64_bound: "bit (w :: u64) n \<Longrightarrow> n < 64"
  using bit_imp_le_length [of w n] by simp

lemma unat64_bound: "unat (w :: u64) < 2 ^ 64"
proof -
  have "unat w < 2 ^ LENGTH(64)" by (rule unsigned_less)
  then show ?thesis by simp
qed

lemma bit8_bound: "bit (w :: byte) n \<Longrightarrow> n < 8"
  using bit_imp_le_length [of w n] by simp

text \<open>A word is below \<open>2 ^ n\<close> exactly when no bit at \<open>n\<close> or above is set.\<close>

lemma unat_less_exp_iff:
  assumes "n < LENGTH('a)"
  shows "unat (w :: 'a::len word) < 2 ^ n \<longleftrightarrow> (\<forall>k. bit w k \<longrightarrow> k < n)"
proof -
  have "unat w < 2 ^ n \<longleftrightarrow> take_bit n (unat w) = unat w"
    by (simp add: take_bit_nat_eq_self_iff)
  also have "\<dots> \<longleftrightarrow> take_bit n w = w"
    by (metis unsigned_take_bit_eq word_unat_eq_iff)
  also have "\<dots> \<longleftrightarrow> (\<forall>k. bit w k \<longrightarrow> k < n)"
    by (auto simp: bit_eq_iff bit_take_bit_iff dest: bit_imp_le_length)
  finally show ?thesis .
qed

text \<open>Reading a word as an integer.\<close>

lemma unat_less_iff_uint: "unat (w :: u64) < 2 ^ n \<longleftrightarrow> uint w < 2 ^ n"
proof -
  have "unat w < 2 ^ n \<longleftrightarrow> int (unat w) < int (2 ^ n)" by (rule of_nat_less_iff [symmetric])
  then show ?thesis by simp
qed

lemma uint_of_int64: "0 \<le> k \<Longrightarrow> k < 2 ^ 64 \<Longrightarrow> uint (of_int k :: u64) = k"
  by (simp add: unsigned_of_int take_bit_int_eq_self)

lemma uint_diff_of_int: "0 \<le> i \<Longrightarrow> i \<le> uint (p :: u64) \<Longrightarrow> uint (p - of_int i) = uint p - i"
proof -
  assume i: "0 \<le> i" "i \<le> uint p"
  have "uint (of_int (uint p - i) :: u64) = uint p - i"
    using i uint_lt2p [of p] by (intro uint_of_int64) simp_all
  then show ?thesis by simp
qed

lemma and_mask_eq_take_bit: "w AND mask n = take_bit n (w :: 'a::len word)"
  by (simp add: take_bit_eq_mask)

lemma unat_add_small:
  "unat (x :: 'a::len word) + unat y < 2 ^ LENGTH('a) \<Longrightarrow> unat (x + y) = unat x + unat y"
  by (simp add: unat_word_ariths)

text \<open>Reducing a summand to its low bits does not change the low bits of the sum.\<close>

lemma word_take_bit_add:
  assumes "n \<le> LENGTH('a)"
  shows "take_bit n (take_bit n a + b) = take_bit n (a + b :: 'a::len word)"
proof -
  have dvd: "(2::nat) ^ n dvd 2 ^ LENGTH('a)" using assms by (rule le_imp_power_dvd)
  have "unat (take_bit n (take_bit n a + b)) = unat (take_bit n (a + b))"
    using dvd by (simp add: unsigned_take_bit_eq unat_word_ariths take_bit_eq_mod [where 'a = nat]
        mod_mod_cancel mod_add_left_eq)
  then show ?thesis by (simp only: word_unat_eq_iff)
qed

lemma unat_diff_small: "(y :: 'a::len word) \<le> x \<Longrightarrow> unat (x - y) = unat x - unat y"
  by (simp add: unat_sub)

end
