(* ===== verification/PT_Config.thy ===== *)
theory PT_Config imports PT_Prelude begin

text \<open>
  The build-time configuration: \<open>config.h\<close> and the masks at the head of
  \<open>ptauth-rtlib.c\<close>.  A preprocessor flag the runtime library branches on is a field of a
  record; \<open>config_h\<close> is the configuration as shipped.  Three flags are fixed at their
  shipped values: \<open>PACENABLED\<close> is 0 (the PAC instructions are replaced by the software
  functions of \<open>pacinst.c\<close>), \<open>RETURN\<close> is 0 (with 1 the library does not compile:
  \<open>__ptauth_calloc\<close> then names an undeclared \<open>size\<close>), and \<open>DEBUG\<close> is 0, so
  that \<open>DEBUG_PRT\<close> expands to nothing.
\<close>

record config =
  TOPBYTEIGNORE :: bool
  BKTHREASHOLDENABLED :: bool
  ENABLELOG :: bool

definition config_h :: config where
  "config_h = \<lparr>TOPBYTEIGNORE = True, BKTHREASHOLDENABLED = True, ENABLELOG = True\<rparr>"

definition PR_TAGGED_ADDR_ENABLE :: u64 where
  "PR_TAGGED_ADDR_ENABLE = push_bit 0 1"

definition SHIFT :: "config \<Rightarrow> nat" where
  "SHIFT cfg = (if TOPBYTEIGNORE cfg then 56 else 48)"

definition MASKHIGHBIT :: "config \<Rightarrow> u64" where
  "MASKHIGHBIT cfg = (if TOPBYTEIGNORE cfg
     then 0b1111111111111111000000000000000000000000000000000000000000000000
     else 0b1111111111111111000000000000000000000000000000000000000000000000)"

definition MASKLOWBIT :: "config \<Rightarrow> u64" where
  "MASKLOWBIT cfg = (if TOPBYTEIGNORE cfg
     then 0b0000000000000000111111111111111111111111111111111111111111111111
     else 0b0000000000000000111111111111111111111111111111111111111111111111)"

definition MASK7BITS :: "config \<Rightarrow> u64" where
  "MASK7BITS cfg = (if TOPBYTEIGNORE cfg
     then 0b0000000000000000000000000000000000000000000000000000000011111111
     else 0b0000000000000000000000000000000000000000000000000000000001111111)"

text \<open>The number of signature bits: the set bits of \<open>MASK7BITS\<close>.\<close>

definition sig_bits :: "config \<Rightarrow> nat" where
  "sig_bits cfg = (if TOPBYTEIGNORE cfg then 8 else 7)"

lemma config_h_simps [simp]:
  "TOPBYTEIGNORE config_h" "BKTHREASHOLDENABLED config_h" "ENABLELOG config_h"
  by (simp_all add: config_h_def)

lemma MASKLOWBIT_eq_mask [pac_simps]: "MASKLOWBIT cfg = mask 48"
  by (simp add: MASKLOWBIT_def mask_eq_exp_minus_1)

lemma MASKHIGHBIT_eq [pac_simps]: "MASKHIGHBIT cfg = NOT (mask 48)"
  by (simp add: MASKHIGHBIT_def mask_eq_exp_minus_1)

lemma MASK7BITS_eq_mask [pac_simps]: "MASK7BITS cfg = mask (sig_bits cfg)"
  by (simp add: MASK7BITS_def sig_bits_def mask_eq_exp_minus_1)

lemma MASKHIGHBIT_complement: "NOT (MASKHIGHBIT cfg) = MASKLOWBIT cfg"
  by (simp add: MASKHIGHBIT_eq MASKLOWBIT_eq_mask)

text \<open>The signature field lies above the 48 address bits and inside the word.\<close>

lemma SHIFT_bounds: "48 \<le> SHIFT cfg" "SHIFT cfg + sig_bits cfg \<le> 64" "sig_bits cfg \<le> 8" "SHIFT cfg < 64"
  by (simp_all add: SHIFT_def sig_bits_def)

end
