(* ===== verification/PT_Pacinst.thy ===== *)
theory PT_Pacinst imports PT_Config begin

text \<open>
  \<open>pacinst.c\<close>: the software replacement of the ARMv8.3 pointer-authentication instructions.
  \<open>pacia\<close> puts a signature of a pointer and an object identifier above the 48 address
  bits, \<open>xpac\<close> strips it, \<open>autia\<close> recomputes and compares it.  A pointer is a 64-bit
  word and \<open>NULL\<close> is 0.  The functions' names lose their leading underscores.
\<close>

section \<open>The functions\<close>

definition xpac :: "config \<Rightarrow> addr \<Rightarrow> addr" where
  "xpac cfg ptr = ptr AND MASKLOWBIT cfg"

text \<open>
  \<open>__pacga\<close> returns \<open>(int)(val ^ sizeid)\<close>: the low 32 bits.  Its four inline \<open>eor\<close>
  instructions burn cycles and have no operands the compiler knows of.
\<close>

definition pacga :: "u64 \<Rightarrow> u64 \<Rightarrow> u32" where
  "pacga val sizeid = ucast (val XOR sizeid)"

definition pacia :: "config \<Rightarrow> addr \<Rightarrow> u64 \<Rightarrow> addr" where
  "pacia cfg ptr ident =
     (let ptrbits7 = ptr AND MASK7BITS cfg;
          idbits7 = ident AND MASK7BITS cfg;
          signature = ptrbits7 XOR idbits7;
          signature = push_bit (SHIFT cfg) signature
      in ptr OR signature)"

text \<open>
  The character says which check failed; it selects a debug message and nothing else, and is
  kept as the argument it is.
\<close>

definition autia :: "config \<Rightarrow> addr \<Rightarrow> u64 \<Rightarrow> char \<Rightarrow> addr" where
  "autia cfg ptr ident type =
     (let signature = ptr AND NOT (MASKLOWBIT cfg);
          signature = drop_bit (SHIFT cfg) signature;
          xpacedPtr = xpac cfg ptr;
          ptrWithSign = pacia cfg xpacedPtr ident;
          signatureptrWithSign = ptrWithSign AND NOT (MASKLOWBIT cfg);
          shiftedSignature = drop_bit (SHIFT cfg) signatureptrWithSign
      in if shiftedSignature = signature then xpacedPtr else 0)"

section \<open>Canonical pointers and signatures\<close>

text \<open>A user-space address has no bit above bit 47.\<close>

definition canonical :: "addr \<Rightarrow> bool" where
  "canonical p \<longleftrightarrow> unat p < 2 ^ 48"

text \<open>
  The signature of a word as the comparison of \<open>autia\<close> sees it (what \<open>>> SHIFT\<close> leaves),
  and the signature an address and an identifier call for.
\<close>

definition signature_of :: "config \<Rightarrow> addr \<Rightarrow> u64" where
  "signature_of cfg ptr = drop_bit (SHIFT cfg) ptr"

definition expected_signature :: "config \<Rightarrow> addr \<Rightarrow> u64 \<Rightarrow> u64" where
  "expected_signature cfg ptr ident = take_bit (sig_bits cfg) (ptr XOR ident)"

lemma xpac_take_bit [pac_simps]: "xpac cfg p = take_bit 48 p"
  by (simp add: xpac_def MASKLOWBIT_eq_mask take_bit_eq_mask)

lemma canonical_iff_bits: "canonical p \<longleftrightarrow> (\<forall>k. bit p k \<longrightarrow> k < 48)"
  using unat_less_exp_iff [of 48 p] by (simp add: canonical_def)

lemma canonical_iff_xpac: "canonical p \<longleftrightarrow> xpac cfg p = p"
  by (auto simp: canonical_iff_bits xpac_take_bit bit_eq_iff bit_take_bit_iff dest: bit64_bound)

lemma canonical_xpac [simp]: "canonical (xpac cfg p)"
  by (simp add: canonical_iff_bits xpac_take_bit bit_take_bit_iff)

lemma canonical_0 [simp]: "canonical 0"
  by (simp add: canonical_def)

lemma xpac_canonical [simp]: "canonical p \<Longrightarrow> xpac cfg p = p"
  using canonical_iff_xpac by blast

lemma xpac_idem [simp]: "xpac cfg (xpac cfg p) = xpac cfg p"
  by simp

text \<open>Stripping commutes with pointer arithmetic inside the address space.\<close>

lemma xpac_add: "xpac cfg (q + k) = xpac cfg (xpac cfg q + k)"
  by (simp add: xpac_take_bit word_take_bit_add)

lemma xpac_diff: "xpac cfg (q - k) = xpac cfg (xpac cfg q - k)"
  using xpac_add [of cfg q "- k"] by simp

lemma canonical_add:
  "canonical p \<Longrightarrow> unat p + unat k < 2 ^ 48 \<Longrightarrow> canonical (p + k) \<and> unat (p + k) = unat p + unat k"
  by (simp add: canonical_def unat_add_small)

lemma canonical_diff: "canonical p \<Longrightarrow> k \<le> p \<Longrightarrow> canonical (p - k)"
  by (simp add: canonical_def unat_diff_small)

text \<open>Stripping with \<open>MASKHIGHBIT\<close>, as the allocation functions do it, is \<open>xpac\<close>.\<close>

lemma strip_is_xpac: "p AND NOT (MASKHIGHBIT cfg) = xpac cfg p"
  by (simp add: xpac_def MASKHIGHBIT_complement)

lemma bit_pacia: "bit (pacia cfg p ident) k \<longleftrightarrow> bit p k \<or>
    SHIFT cfg \<le> k \<and> k < 64 \<and> k - SHIFT cfg < sig_bits cfg \<and>
    bit p (k - SHIFT cfg) \<noteq> bit ident (k - SHIFT cfg)"
  by (auto simp: pacia_def Let_def MASK7BITS_eq_mask bit_simps dest: bit64_bound)

lemma xpac_pacia [simp]: "xpac cfg (pacia cfg p ident) = xpac cfg p"
  by (rule bit_word_eqI) (use SHIFT_bounds(1) [of cfg] in \<open>auto simp: xpac_take_bit bit_take_bit_iff bit_pacia\<close>)

lemma signature_pacia [pac_simps]:
  "canonical p \<Longrightarrow> signature_of cfg (pacia cfg p ident) = expected_signature cfg p ident"
  by (rule bit_word_eqI) (use SHIFT_bounds [of cfg] in
    \<open>auto simp: signature_of_def expected_signature_def canonical_iff_bits bit_drop_bit_eq bit_pacia
       bit_take_bit_iff bit_xor_iff\<close>)

lemma signature_high_part: "drop_bit (SHIFT cfg) (p AND NOT (MASKLOWBIT cfg)) = signature_of cfg p"
  by (rule bit_word_eqI) (use SHIFT_bounds(1) [of cfg] in
    \<open>auto simp: signature_of_def MASKLOWBIT_eq_mask bit_simps dest: bit64_bound\<close>)

lemma expected_signature_xpac [simp]:
  "expected_signature cfg (xpac cfg p) ident = expected_signature cfg p ident"
  by (rule bit_word_eqI) (use SHIFT_bounds(3) [of cfg] in
    \<open>auto simp: expected_signature_def xpac_take_bit bit_simps\<close>)

lemma expected_signature_pacia [simp]:
  "expected_signature cfg (pacia cfg p i) j = expected_signature cfg p j"
  using expected_signature_xpac [of cfg "pacia cfg p i" j] by simp

lemma canonical_high_part: "canonical p \<longleftrightarrow> p AND NOT (MASKLOWBIT cfg) = 0"
  by (auto simp: canonical_iff_bits MASKLOWBIT_eq_mask bit_eq_iff bit_simps not_less dest: bit64_bound)

text \<open>Pointer arithmetic that stays inside the 48 address bits keeps the signature.\<close>

lemma signature_of_add:
  assumes "canonical (xpac cfg q + d)"
  shows "signature_of cfg (q + d) = signature_of cfg q" "xpac cfg (q + d) = xpac cfg q + d"
proof -
  let ?H = "q AND NOT (mask 48)"
  have "?H AND xpac cfg q = 0"
    by (rule bit_word_eqI) (auto simp: xpac_take_bit bit_simps)
  then have "?H + xpac cfg q = ?H OR xpac cfg q" by (rule disjunctive_add_eq_or)
  also have "\<dots> = q" by (rule bit_word_eqI) (auto simp: xpac_take_bit bit_simps)
  finally have q: "q + d = ?H + (xpac cfg q + d)" by (simp add: ac_simps)
  have "?H AND (xpac cfg q + d) = 0"
    using assms by (intro bit_word_eqI) (auto simp: canonical_iff_bits bit_and_iff bit_not_iff bit_mask_iff)
  then have "q + d = ?H OR (xpac cfg q + d)" unfolding q by (rule disjunctive_add_eq_or)
  moreover have "signature_of cfg (?H OR (xpac cfg q + d)) = signature_of cfg q"
    using assms SHIFT_bounds(1) [of cfg]
    by (intro bit_word_eqI) (auto simp: signature_of_def canonical_iff_bits bit_drop_bit_eq bit_or_iff
        bit_and_iff bit_not_iff bit_mask_iff not_less dest: bit64_bound)
  ultimately show "signature_of cfg (q + d) = signature_of cfg q" by simp
  show "xpac cfg (q + d) = xpac cfg q + d"
    using assms by (subst xpac_add) simp
qed

text \<open>What \<open>autia\<close> computes: the stripped pointer if the signatures agree, else \<open>NULL\<close>.\<close>

lemma autia_eq [pac_simps]:
  "autia cfg p ident t = (if signature_of cfg p = expected_signature cfg p ident then xpac cfg p else 0)"
  by (auto simp: autia_def Let_def signature_high_part signature_pacia simp del: drop_bit_and)

lemma xor_take_bit_eq_iff:
  "take_bit n ((p :: u64) XOR i) = take_bit n (p XOR j) \<longleftrightarrow> take_bit n i = take_bit n j"
  by (auto simp: bit_eq_iff bit_simps)

lemma expected_signature_eq_iff:
  "expected_signature cfg p i = expected_signature cfg p j \<longleftrightarrow>
   unat i mod 2 ^ sig_bits cfg = unat j mod 2 ^ sig_bits cfg"
proof -
  have "take_bit n i = take_bit n j \<longleftrightarrow> unat (take_bit n i) = unat (take_bit n j)" for n
    by (simp only: word_unat_eq_iff)
  then show ?thesis
    by (simp add: expected_signature_def xor_take_bit_eq_iff unsigned_take_bit_eq
        take_bit_eq_mod [where 'a = nat] del: take_bit_xor)
qed

section \<open>Properties\<close>

text \<open>
  C3. Signing then authenticating.  A canonical pointer signed with an identifier
  authenticates, and comes back stripped, under exactly the identifiers that agree with the
  signing one in the low \<open>sig_bits\<close> bits (8 under Top-Byte Ignore, else 7); under every
  other identifier the result is \<open>NULL\<close>.  With the same identifier this is the round trip.
\<close>

theorem autia_pacia:
  assumes "canonical p"
  shows "autia cfg (pacia cfg p i) j t =
    (if unat i mod 2 ^ sig_bits cfg = unat j mod 2 ^ sig_bits cfg then p else 0)"
proof -
  have "expected_signature cfg (pacia cfg p i) j = expected_signature cfg p j"
    using expected_signature_xpac [of cfg "pacia cfg p i" j] assms by simp
  with assms show ?thesis
    by (simp add: autia_eq signature_pacia expected_signature_eq_iff)
qed

theorem autia_pacia_witness:
  "canonical 0x5008 \<and> autia config_h (pacia config_h 0x5008 123456789) 123456789 CHR ''L'' = 0x5008
   \<and> autia config_h (pacia config_h 0x5008 123456789) 123456790 CHR ''L'' = 0"
proof -
  have c: "canonical 0x5008" by (simp add: canonical_def)
  show ?thesis
    using c autia_pacia [OF c, of config_h 123456789 123456789] autia_pacia [OF c, of config_h 123456789 123456790]
    by (simp add: sig_bits_def)
qed

text \<open>
  The bits an authentication looks at.  Under Top-Byte Ignore the signature is the top
  byte only: changing bits 48 to 55 of a pointer never changes the outcome of \<open>__autia\<close>,
  although \<open>MASKLOWBIT\<close> counts those bits as part of the signature field.
\<close>

theorem autia_ignores_bits_48_to_55:
  assumes "TOPBYTEIGNORE cfg"
  shows "autia cfg (p XOR push_bit 48 (ucast (x :: byte))) ident t = autia cfg p ident t"
proof -
  let ?q = "p XOR push_bit 48 (ucast x)"
  have "xpac cfg ?q = xpac cfg p"
    by (rule bit_word_eqI) (auto simp: xpac_take_bit bit_simps)
  moreover from this have "expected_signature cfg ?q ident = expected_signature cfg p ident"
    by (metis expected_signature_xpac)
  moreover have "signature_of cfg ?q = signature_of cfg p"
    by (rule bit_word_eqI) (use assms in \<open>auto simp: signature_of_def SHIFT_def bit_simps dest: bit8_bound\<close>)
  ultimately show ?thesis
    by (simp add: autia_eq)
qed

theorem autia_ignores_bits_48_to_55_witness:
  "autia config_h (0xB400000000005008 XOR push_bit 48 (ucast (0x5A :: byte))) 0xBC CHR ''S'' = 0x5008"
  by (subst autia_ignores_bits_48_to_55) (simp_all add: autia_def xpac_def pacia_def Let_def
    MASKLOWBIT_def MASK7BITS_def SHIFT_def)

end
