(* ===== verification/PT_Memory.thy ===== *)
theory PT_Memory imports PT_Prelude begin

text \<open>
  The memory the runtime library reads and writes: a map from addresses to bytes, undefined
  where nothing is mapped.  An \<open>unsigned long\<close> is eight bytes, least significant first; a
  load or store that touches an unmapped byte faults.  The interface the library needs of it,
  a 64-bit load and store, is the locale \<open>word_memory\<close>, interpreted here on the byte memory.
\<close>

type_synonym memory = "addr \<rightharpoonup> byte"

section \<open>Bytes\<close>

fun load_bytes :: "memory \<Rightarrow> addr \<Rightarrow> nat \<Rightarrow> byte list option" where
  "load_bytes m a 0 = Some []"
| "load_bytes m a (Suc n) =
     (case m a of None \<Rightarrow> None | Some b \<Rightarrow> map_option (Cons b) (load_bytes m (a + 1) n))"

fun store_bytes :: "memory \<Rightarrow> addr \<Rightarrow> byte list \<Rightarrow> memory" where
  "store_bytes m a [] = m"
| "store_bytes m a (b # bs) = store_bytes (m(a \<mapsto> b)) (a + 1) bs"

fun word_of_bytes :: "byte list \<Rightarrow> u64" where
  "word_of_bytes [] = 0"
| "word_of_bytes (b # bs) = ucast b OR push_bit 8 (word_of_bytes bs)"

fun bytes_of_word :: "nat \<Rightarrow> u64 \<Rightarrow> byte list" where
  "bytes_of_word 0 w = []"
| "bytes_of_word (Suc n) w = ucast w # bytes_of_word n (drop_bit 8 w)"

lemma length_bytes_of_word [simp]: "length (bytes_of_word n w) = n"
  by (induction n arbitrary: w) auto

lemma word_of_bytes_of_word: "word_of_bytes (bytes_of_word n w) = take_bit (8 * n) w"
proof (induction n arbitrary: w)
  case 0
  then show ?case by simp
next
  case (Suc n)
  show ?case
    by (rule bit_word_eqI) (auto simp: Suc bit_simps)
qed

lemma store_bytes_apply:
  "length bs \<le> 2 ^ 64 \<Longrightarrow>
   store_bytes m a bs c = (if unat (c - a) < length bs then Some (bs ! unat (c - a)) else m c)"
proof (induction bs arbitrary: m a)
  case Nil
  then show ?case by simp
next
  case (Cons b bs)
  have IH: "store_bytes (m(a \<mapsto> b)) (a + 1) bs c =
    (if unat (c - (a + 1)) < length bs then Some (bs ! unat (c - (a + 1))) else (m(a \<mapsto> b)) c)"
    using Cons by simp
  show ?case
  proof (cases "c = a")
    case True
    have "unat (-1 :: addr) = 2 ^ 64 - 1" by (simp add: unsigned_minus_1_eq_mask mask_eq_exp_minus_1)
    with True Cons.prems IH show ?thesis by simp
  next
    case False
    have "c - (a + 1) = (c - a) - 1" by simp
    with False have "unat (c - a) = Suc (unat (c - (a + 1)))"
      by (metis Suc_pred' eq_iff_diff_eq_0 unat_gt_0 unat_minus_one)
    with False show ?thesis by (simp add: IH)
  qed
qed

lemma load_bytes_eq_Some:
  "load_bytes m a n = Some bs \<longleftrightarrow> length bs = n \<and> (\<forall>i<n. m (a + of_nat i) = Some (bs ! i))"
proof (induction n arbitrary: a bs)
  case 0
  then show ?case by auto
next
  case (Suc n)
  show ?case
    by (cases bs) (auto simp: Suc All_less_Suc2 ac_simps split: option.splits)
qed

lemma load_bytes_eq_None: "load_bytes m a n = None \<longleftrightarrow> (\<exists>i<n. m (a + of_nat i) = None)"
proof (induction n arbitrary: a)
  case 0
  then show ?case by auto
next
  case (Suc n)
  show ?case
    by (auto simp: Suc Ex_less_Suc2 ac_simps split: option.splits)
qed

section \<open>64-bit loads and stores\<close>

definition load64 :: "memory \<Rightarrow> addr \<Rightarrow> u64 option" where
  "load64 m a = map_option word_of_bytes (load_bytes m a 8)"

definition store64 :: "memory \<Rightarrow> addr \<Rightarrow> u64 \<Rightarrow> memory option" where
  "store64 m a w =
     (case load_bytes m a 8 of None \<Rightarrow> None | Some _ \<Rightarrow> Some (store_bytes m a (bytes_of_word 8 w)))"

text \<open>The \<open>n\<close> addresses from \<open>a\<close> on; the eight bytes of a word.\<close>

definition region :: "addr \<Rightarrow> nat \<Rightarrow> addr set" where
  "region a n = {c. unat (c - a) < n}"

abbreviation word_range :: "addr \<Rightarrow> addr set" where
  "word_range a \<equiv> region a 8"

lemma region_mono: "n \<le> k \<Longrightarrow> region a n \<subseteq> region a k"
  by (auto simp: region_def)

lemma region_iff:
  "unat b + n \<le> 2 ^ 64 \<Longrightarrow> c \<in> region b n \<longleftrightarrow> unat b \<le> unat c \<and> unat c < unat b + n"
  by (auto simp: region_def unat_sub_if' word_le_nat_alt split: if_splits)

lemma region_uint:
  assumes "c \<in> region b n" and "uint b + int n \<le> 2 ^ 64"
  shows "uint b \<le> uint c \<and> uint c < uint b + int n"
proof -
  have u: "uint b = int (unat b)" "uint c = int (unat c)" by simp_all
  have "int (unat b + n) \<le> int (2 ^ 64)" using assms(2) by simp
  then have "unat b + n \<le> 2 ^ 64" by (simp only: of_nat_le_iff)
  with assms(1) have "unat b \<le> unat c" "unat c < unat b + n" by (simp_all add: region_iff)
  then show ?thesis unfolding u of_nat_add [symmetric] of_nat_le_iff of_nat_less_iff ..
qed

lemma unat_add_of_nat:
  "unat (q :: addr) + n \<le> 2 ^ 64 \<Longrightarrow> i < n \<Longrightarrow> unat (q + of_nat i) = unat q + i"
  by (subst unat_add_small) (auto simp: unat_of_nat)

lemma region_disjointI:
  "unat a + i \<le> unat b \<Longrightarrow> unat b + j \<le> 2 ^ 64 \<Longrightarrow> region a i \<inter> region b j = {}"
  by (auto simp: region_iff)

lemma region_0 [simp]: "region a 0 = {}"
  by (simp add: region_def)

lemma region_word_iff: "c \<in> word_range a \<longleftrightarrow> (\<exists>i<8. c = a + of_nat i)"
proof
  assume "c \<in> word_range a"
  then have "unat (c - a) < 8" and "c = a + of_nat (unat (c - a))"
    by (simp_all add: region_def)
  then show "\<exists>i<8. c = a + of_nat i" by blast
next
  assume "\<exists>i<8. c = a + of_nat i"
  then obtain i where "i < 8" and "c = a + of_nat i" by blast
  then show "c \<in> word_range a"
    by (simp add: region_def unat_of_nat)
qed

lemma load64_None_iff: "load64 m a = None \<longleftrightarrow> \<not> word_range a \<subseteq> dom m"
  by (auto simp: load64_def load_bytes_eq_None subset_iff region_word_iff dom_def)

lemma store64_None_iff: "store64 m a w = None \<longleftrightarrow> load64 m a = None"
  by (auto simp: store64_def load64_def split: option.splits)

lemma store64_apply:
  "store64 m a w = Some m' \<Longrightarrow>
   m' c = (if c \<in> word_range a then Some (bytes_of_word 8 w ! unat (c - a)) else m c)"
  by (auto simp: store64_def region_def store_bytes_apply split: option.splits)

lemma store64_dom: "store64 m a w = Some m' \<Longrightarrow> dom m' = dom m"
proof -
  assume s: "store64 m a w = Some m'"
  then have "word_range a \<subseteq> dom m"
    using store64_None_iff [of m a w] load64_None_iff [of m a] by auto
  with s show "dom m' = dom m"
    by (auto simp: dom_def store64_apply [OF s] split: if_splits)
qed

lemma load_bytes_cong:
  "(\<And>i. i < n \<Longrightarrow> m (a + of_nat i) = m' (a + of_nat i)) \<Longrightarrow> load_bytes m a n = load_bytes m' a n"
proof (induction n arbitrary: a)
  case 0
  then show ?case by simp
next
  case (Suc n)
  have "m a = m' a" using Suc.prems [of 0] by simp
  moreover have "load_bytes m (a + 1) n = load_bytes m' (a + 1) n"
    using Suc.prems [of "Suc i" for i] by (intro Suc.IH) (simp add: ac_simps)
  ultimately show ?case by (auto split: option.split)
qed

lemma load64_cong: "(\<And>c. c \<in> word_range a \<Longrightarrow> m c = m' c) \<Longrightarrow> load64 m a = load64 m' a"
  by (auto simp: load64_def region_word_iff intro!: arg_cong [of _ _ "map_option word_of_bytes"] load_bytes_cong)

lemma load64_store64_same: "store64 m a w = Some m' \<Longrightarrow> load64 m' a = Some w"
proof -
  assume s: "store64 m a w = Some m'"
  have "m' (a + of_nat i) = Some (bytes_of_word 8 w ! i)" if "i < 8" for i
    using store64_apply [OF s, of "a + of_nat i"] that by (simp add: region_def unat_of_nat)
  then have "load_bytes m' a 8 = Some (bytes_of_word 8 w)"
    by (simp add: load_bytes_eq_Some)
  moreover have "take_bit 64 w = w" by (simp add: take_bit_word_eq_self)
  ultimately show ?thesis
    by (simp add: load64_def word_of_bytes_of_word del: bytes_of_word.simps)
qed

lemma load64_store64_other:
  "store64 m a w = Some m' \<Longrightarrow> word_range a \<inter> word_range b = {} \<Longrightarrow> load64 m' b = load64 m b"
  by (rule load64_cong) (auto simp: store64_apply)

section \<open>The interface of a word memory\<close>

text \<open>
  What the runtime library relies on: a store succeeds where a load does, a load returns the
  last value stored at its address, and a store leaves words elsewhere alone.
\<close>

locale word_memory =
  fixes load :: "'m \<Rightarrow> addr \<Rightarrow> u64 option"
    and store :: "'m \<Rightarrow> addr \<Rightarrow> u64 \<Rightarrow> 'm option"
  assumes store_defined: "store m a w = None \<longleftrightarrow> load m a = None"
    and load_same: "store m a w = Some m' \<Longrightarrow> load m' a = Some w"
    and load_other: "store m a w = Some m' \<Longrightarrow> word_range a \<inter> word_range b = {} \<Longrightarrow> load m' b = load m b"
begin

lemma store_exists: "load m a = Some v \<Longrightarrow> \<exists>m'. store m a w = Some m'"
  using store_defined [of m a w] by (cases "store m a w") auto

lemma store_twice:
  "store m a v = Some m1 \<Longrightarrow> store m1 a w = Some m2 \<Longrightarrow> load m2 a = Some w"
  by (rule load_same)

lemma swap_headers:
  assumes "store m a v = Some m1" and "store m1 b w = Some m2"
    and "word_range a \<inter> word_range b = {}"
  shows "load m2 a = Some v \<and> load m2 b = Some w"
  using assms load_other [OF assms(2), of a] load_same by (metis inf_commute)

end

interpretation ram: word_memory load64 store64
  by unfold_locales (simp_all add: store64_None_iff load64_store64_same load64_store64_other)

lemmas memory_laws [mem_simps] = load64_store64_same load64_store64_other store64_dom

end
