(* ===== verification/PT_Libc.thy ===== *)
theory PT_Libc imports PT_Memory begin

text \<open>
  What the runtime library uses of the C library and the kernel.  The process state is a
  record: memory, the allocator's own data, the wall clock, the state of \<open>rand\<close> and what has
  been printed.  The C library is a record of functions, an argument of every definition that
  calls it; what ISO C and the manual pages document of \<open>malloc\<close>, \<open>calloc\<close>,
  \<open>realloc\<close> and \<open>free\<close> is the locale \<open>allocator\<close>.
\<close>

section \<open>The process and its C library\<close>

record 'h machine =
  mem :: memory
  heap :: 'h
  clock :: u64
  rng :: "u32 \<times> nat"
  stdout :: "string list"

text \<open>
  \<open>l_rand seed n\<close> is the value of the \<open>n\<close>-th call of \<open>rand()\<close> after \<open>srand(seed)\<close>.
  \<open>l_prctl opt arg2\<close> is what \<open>prctl(opt, arg2, 0, 0, 0)\<close> returns.  An allocation
  function gets the memory and the allocator's data; \<open>realloc\<close> and \<open>free\<close> may stop the
  process when their argument is no allocated block.
\<close>

record 'h libc =
  l_prctl :: "u32 \<Rightarrow> u64 \<Rightarrow> u32"
  l_rand :: "u32 \<Rightarrow> nat \<Rightarrow> u32"
  l_malloc :: "u64 \<Rightarrow> memory \<times> 'h \<Rightarrow> addr \<times> memory \<times> 'h"
  l_calloc :: "u64 \<Rightarrow> u64 \<Rightarrow> memory \<times> 'h \<Rightarrow> addr \<times> memory \<times> 'h"
  l_realloc :: "addr \<Rightarrow> u64 \<Rightarrow> memory \<times> 'h \<Rightarrow> stop + addr \<times> memory \<times> 'h"
  l_free :: "addr \<Rightarrow> memory \<times> 'h \<Rightarrow> stop + memory \<times> 'h"

type_synonym ('h, 'a) result = "(stop \<times> 'h machine) + ('a \<times> 'h machine)"

definition call_srand :: "u32 \<Rightarrow> 'h machine \<Rightarrow> 'h machine" where
  "call_srand seed s = s\<lparr>rng := (seed, 0)\<rparr>"

definition call_rand :: "'h libc \<Rightarrow> 'h machine \<Rightarrow> u32 \<times> 'h machine" where
  "call_rand L s = (case rng s of (seed, n) \<Rightarrow> (l_rand L seed n, s\<lparr>rng := (seed, Suc n)\<rparr>))"

definition call_printf :: "string \<Rightarrow> 'h machine \<Rightarrow> 'h machine" where
  "call_printf msg s = s\<lparr>stdout := stdout s @ [msg]\<rparr>"

definition call_malloc :: "'h libc \<Rightarrow> u64 \<Rightarrow> 'h machine \<Rightarrow> addr \<times> 'h machine" where
  "call_malloc L n s =
     (case l_malloc L n (mem s, heap s) of (p, m, h) \<Rightarrow> (p, s\<lparr>mem := m, heap := h\<rparr>))"

definition call_calloc :: "'h libc \<Rightarrow> u64 \<Rightarrow> u64 \<Rightarrow> 'h machine \<Rightarrow> addr \<times> 'h machine" where
  "call_calloc L k n s =
     (case l_calloc L k n (mem s, heap s) of (p, m, h) \<Rightarrow> (p, s\<lparr>mem := m, heap := h\<rparr>))"

definition call_realloc :: "'h libc \<Rightarrow> addr \<Rightarrow> u64 \<Rightarrow> 'h machine \<Rightarrow> ('h, addr) result" where
  "call_realloc L p n s =
     (case l_realloc L p n (mem s, heap s) of
        Inl e \<Rightarrow> Inl (e, s)
      | Inr (q, m, h) \<Rightarrow> Inr (q, s\<lparr>mem := m, heap := h\<rparr>))"

definition call_free :: "'h libc \<Rightarrow> addr \<Rightarrow> 'h machine \<Rightarrow> ('h, unit) result" where
  "call_free L p s =
     (case l_free L p (mem s, heap s) of
        Inl e \<Rightarrow> Inl (e, s)
      | Inr (m, h) \<Rightarrow> Inr ((), s\<lparr>mem := m, heap := h\<rparr>))"

text \<open>Reading and writing an \<open>unsigned long\<close> in memory.\<close>

definition read_ulong :: "addr \<Rightarrow> 'h machine \<Rightarrow> ('h, u64) result" where
  "read_ulong a s = (case load64 (mem s) a of None \<Rightarrow> Inl (Segv, s) | Some w \<Rightarrow> Inr (w, s))"

definition write_ulong :: "addr \<Rightarrow> u64 \<Rightarrow> 'h machine \<Rightarrow> ('h, unit) result" where
  "write_ulong a w s =
     (case store64 (mem s) a w of None \<Rightarrow> Inl (Segv, s) | Some m \<Rightarrow> Inr ((), s\<lparr>mem := m\<rparr>))"

section \<open>What an allocator promises\<close>

text \<open>
  Two memories agree on the live blocks of \<open>lv\<close>.
\<close>

definition agree_on :: "(addr \<rightharpoonup> nat) \<Rightarrow> memory \<Rightarrow> memory \<Rightarrow> bool" where
  "agree_on lv m m' \<longleftrightarrow> (\<forall>b n. lv b = Some n \<longrightarrow> (\<forall>c \<in> region b n. m' c = m c))"

lemma agree_on_refl [simp]: "agree_on lv m m"
  by (simp add: agree_on_def)

lemma agree_outside:
  assumes "\<And>c. c \<notin> region p k \<Longrightarrow> m' c = m c"
    and "\<And>b n. lv b = Some n \<Longrightarrow> region b n \<inter> region p k = {}"
  shows "agree_on lv m m'"
  using assms by (fastforce simp: agree_on_def)

lemma agree_on_trans: "agree_on lv m m1 \<Longrightarrow> agree_on lv m1 m2 \<Longrightarrow> agree_on lv m m2"
  by (simp add: agree_on_def)

lemma agree_on_subset: "agree_on lv m m' \<Longrightarrow> (\<And>b n. lv' b = Some n \<Longrightarrow> lv b = Some n) \<Longrightarrow> agree_on lv' m m'"
  by (auto simp: agree_on_def)

text \<open>
  \<open>live h\<close> gives the blocks handed out and not yet freed, with the size asked for;
  \<open>ok\<close> is the allocator's own invariant, kept by every write that stays inside live blocks.
  The rules say what the documentation of the four functions says: blocks are mapped, 16-byte
  aligned user-space memory, disjoint from each other; an allocation leaves the contents of the
  other blocks alone; \<open>calloc\<close> zeroes its block and fails when the product overflows;
  \<open>realloc\<close> keeps the contents up to the smaller size; \<open>free(NULL)\<close> does nothing.  Nothing
  is said of \<open>free\<close> or \<open>realloc\<close> of anything else, nor of the contents of freed memory.
\<close>

locale allocator =
  fixes L :: "'h libc"
    and live :: "'h \<Rightarrow> addr \<rightharpoonup> nat"
    and ok :: "memory \<times> 'h \<Rightarrow> bool"
  assumes live_block: "ok (m, h) \<Longrightarrow> live h b = Some n \<Longrightarrow>
      b \<noteq> 0 \<and> unat b mod 16 = 0 \<and> unat b + n \<le> 2 ^ 47 \<and> region b n \<subseteq> dom m"
    and live_disjoint: "ok (m, h) \<Longrightarrow> live h a = Some i \<Longrightarrow> live h b = Some j \<Longrightarrow> a \<noteq> b \<Longrightarrow>
      region a i \<inter> region b j = {}"
    and ok_write: "ok (m, h) \<Longrightarrow> dom m' = dom m \<Longrightarrow>
      (\<And>c. (\<And>b n. live h b = Some n \<Longrightarrow> c \<notin> region b n) \<Longrightarrow> m' c = m c) \<Longrightarrow> ok (m', h)"
    and malloc_law: "ok (m, h) \<Longrightarrow> l_malloc L sz (m, h) = (p, m', h') \<Longrightarrow>
      ok (m', h') \<and> agree_on (live h) m m' \<and>
      (if p = 0 then live h' = live h
       else live h p = None \<and> live h' = (live h)(p \<mapsto> unat sz))"
    and calloc_law: "ok (m, h) \<Longrightarrow> l_calloc L cnt sz (m, h) = (p, m', h') \<Longrightarrow>
      ok (m', h') \<and> agree_on (live h) m m' \<and>
      (if p = 0 then live h' = live h
       else unat cnt * unat sz < 2 ^ 64 \<and> live h p = None \<and> live h' = (live h)(p \<mapsto> unat cnt * unat sz) \<and>
         (\<forall>c \<in> region p (unat cnt * unat sz). m' c = Some 0))"
    and realloc_law: "ok (m, h) \<Longrightarrow> live h p = Some k \<Longrightarrow> sz \<noteq> 0 \<Longrightarrow>
      \<exists>q m' h'. l_realloc L p sz (m, h) = Inr (q, m', h') \<and> ok (m', h') \<and>
        agree_on ((live h)(p := None)) m m' \<and>
        (if q = 0 then live h' = live h \<and> agree_on (live h) m m'
         else (q = p \<or> live h q = None) \<and> live h' = (live h)(p := None, q \<mapsto> unat sz) \<and>
           (\<forall>i < min k (unat sz). m' (q + of_nat i) = m (p + of_nat i)))"
    and free_null: "l_free L 0 (m, h) = Inr (m, h)"
    and free_law: "ok (m, h) \<Longrightarrow> live h p = Some k \<Longrightarrow>
      \<exists>m' h'. l_free L p (m, h) = Inr (m', h') \<and> ok (m', h') \<and>
        live h' = (live h)(p := None) \<and> agree_on ((live h)(p := None)) m m'"

end
