(* ===== verification/PT_Heap.thy ===== *)
theory PT_Heap imports PT_Libc begin

text \<open>
  A first-fit allocator, the concrete instance of the locale \<open>allocator\<close>: chunks lie side by
  side from \<open>heap_base\<close> on, an allocation reuses the first free chunk that is large enough or
  extends the heap, and freed memory keeps its contents until it is handed out again.  It is
  what the witnesses of the development run on; no property rests on its choices.
\<close>

section \<open>Chunks\<close>

record chunk =
  cap :: nat
  used :: "nat option"

definition heap_base :: nat where "heap_base = 65536"
definition heap_limit :: nat where "heap_limit = 2 ^ 47"

definition chunk_cap :: "nat \<Rightarrow> nat" where
  "chunk_cap n = max 16 ((n + 15) div 16 * 16)"

fun ff_end :: "nat \<Rightarrow> chunk list \<Rightarrow> nat" where
  "ff_end base [] = base"
| "ff_end base (c # cs) = ff_end (base + cap c) cs"

fun ff_find :: "nat \<Rightarrow> chunk list \<Rightarrow> nat \<Rightarrow> chunk option" where
  "ff_find base [] b = None"
| "ff_find base (c # cs) b = (if b = base then Some c else ff_find (base + cap c) cs b)"

fun ff_fit :: "nat \<Rightarrow> nat \<Rightarrow> chunk list \<Rightarrow> nat option" where
  "ff_fit base n [] = None"
| "ff_fit base n (c # cs) = (if used c = None \<and> n \<le> cap c then Some base else ff_fit (base + cap c) n cs)"

fun ff_set :: "nat \<Rightarrow> nat \<Rightarrow> nat option \<Rightarrow> chunk list \<Rightarrow> chunk list" where
  "ff_set base b u [] = []"
| "ff_set base b u (c # cs) =
     (if b = base then c\<lparr>used := u\<rparr> # cs else c # ff_set (base + cap c) b u cs)"

definition fill_zero :: "nat \<Rightarrow> nat \<Rightarrow> memory \<Rightarrow> memory" where
  "fill_zero b n m = (\<lambda>a. if b \<le> unat a \<and> unat a < b + n then Some 0 else m a)"

definition copy_bytes :: "nat \<Rightarrow> nat \<Rightarrow> nat \<Rightarrow> memory \<Rightarrow> memory" where
  "copy_bytes dst src n m =
     (\<lambda>a. if dst \<le> unat a \<and> unat a < dst + n then m (of_nat (src + (unat a - dst))) else m a)"

definition ff_live :: "chunk list \<Rightarrow> addr \<rightharpoonup> nat" where
  "ff_live cs b = (case ff_find heap_base cs (unat b) of None \<Rightarrow> None | Some c \<Rightarrow> used c)"

definition ff_malloc :: "u64 \<Rightarrow> memory \<times> chunk list \<Rightarrow> addr \<times> memory \<times> chunk list" where
  "ff_malloc n = (\<lambda>(m, cs).
     case ff_fit heap_base (unat n) cs of
       Some b \<Rightarrow> (of_nat b, m, ff_set heap_base b (Some (unat n)) cs)
     | None \<Rightarrow>
         (let e = ff_end heap_base cs; k = chunk_cap (unat n)
          in if e + k \<le> heap_limit
             then (of_nat e, fill_zero e k m, cs @ [\<lparr>cap = k, used = Some (unat n)\<rparr>])
             else (0, m, cs)))"

definition ff_calloc :: "u64 \<Rightarrow> u64 \<Rightarrow> memory \<times> chunk list \<Rightarrow> addr \<times> memory \<times> chunk list" where
  "ff_calloc k n = (\<lambda>(m, cs).
     if unat k * unat n < 2 ^ 64 then
       (case ff_malloc (k * n) (m, cs) of (p, m', cs') \<Rightarrow>
          (if p = 0 then (0, m', cs') else (p, fill_zero (unat p) (unat k * unat n) m', cs')))
     else (0, m, cs))"

definition ff_free :: "addr \<Rightarrow> memory \<times> chunk list \<Rightarrow> stop + memory \<times> chunk list" where
  "ff_free p = (\<lambda>(m, cs).
     if p = 0 then Inr (m, cs)
     else case ff_live cs p of None \<Rightarrow> Inl Abort | Some _ \<Rightarrow> Inr (m, ff_set heap_base (unat p) None cs))"

definition ff_realloc :: "addr \<Rightarrow> u64 \<Rightarrow> memory \<times> chunk list \<Rightarrow> stop + addr \<times> memory \<times> chunk list" where
  "ff_realloc p n = (\<lambda>(m, cs).
     if p = 0 then Inr (ff_malloc n (m, cs))
     else case ff_find heap_base cs (unat p) of
       None \<Rightarrow> Inl Abort
     | Some c \<Rightarrow>
         (case used c of
            None \<Rightarrow> Inl Abort
          | Some old \<Rightarrow>
              (if unat n \<le> cap c then Inr (p, m, ff_set heap_base (unat p) (Some (unat n)) cs)
               else case ff_malloc n (m, cs) of (q, m', cs') \<Rightarrow>
                 (if q = 0 then Inr (0, m', cs')
                  else Inr (q, copy_bytes (unat q) (unat p) old m', ff_set heap_base (unat p) None cs')))))"

section \<open>Chunk lists\<close>

definition chunks_ok :: "chunk list \<Rightarrow> bool" where
  "chunks_ok cs \<longleftrightarrow>
     (\<forall>c \<in> set cs. 0 < cap c \<and> 16 dvd cap c \<and> (\<forall>n. used c = Some n \<longrightarrow> n \<le> cap c))"

lemma chunks_ok_simps [simp]:
  "chunks_ok []"
  "chunks_ok (c # cs) \<longleftrightarrow> 0 < cap c \<and> 16 dvd cap c \<and> (\<forall>n. used c = Some n \<longrightarrow> n \<le> cap c) \<and> chunks_ok cs"
  by (auto simp: chunks_ok_def)

lemma ff_end_ge: "base \<le> ff_end base cs"
  by (induction base cs rule: ff_end.induct) auto

lemma ff_find_range:
  "ff_find base cs b = Some c \<Longrightarrow> c \<in> set cs \<and> base \<le> b \<and> b + cap c \<le> ff_end base cs"
  by (induction base cs b rule: ff_find.induct) (auto simp: ff_end_ge split: if_splits)

lemma ff_find_ok:
  "chunks_ok cs \<Longrightarrow> ff_find base cs b = Some c \<Longrightarrow>
   0 < cap c \<and> 16 dvd cap c \<and> (\<forall>n. used c = Some n \<longrightarrow> n \<le> cap c)"
  using ff_find_range [of base cs b c] by (auto simp: chunks_ok_def)

lemma ff_find_aligned:
  "chunks_ok cs \<Longrightarrow> 16 dvd base \<Longrightarrow> ff_find base cs b = Some c \<Longrightarrow> 16 dvd b"
  by (induction base cs b rule: ff_find.induct) (auto split: if_splits)

lemma ff_find_disjoint:
  "ff_find base cs a = Some c \<Longrightarrow> ff_find base cs b = Some d \<Longrightarrow> a < b \<Longrightarrow> a + cap c \<le> b"
proof (induction base cs a rule: ff_find.induct)
  case (1 base b)
  then show ?case by simp
next
  case (2 base c' cs a)
  show ?case
  proof (cases "a = base")
    case True
    with "2.prems" have "ff_find (base + cap c') cs b = Some d" by auto
    then have "base + cap c' \<le> b" using ff_find_range by blast
    with True "2.prems" show ?thesis by simp
  next
    case False
    then have a: "ff_find (base + cap c') cs a = Some c" using "2.prems" by simp
    then have "base < b" using ff_find_range [OF a] "2.prems"(3) by linarith
    with False "2.prems" show ?thesis using "2.IH" by simp
  qed
qed

lemma ff_find_set:
  "chunks_ok cs \<Longrightarrow> ff_find base (ff_set base b u cs) x =
   (if x = b then map_option (\<lambda>c. c\<lparr>used := u\<rparr>) (ff_find base cs b) else ff_find base cs x)"
  by (induction base b u cs rule: ff_set.induct) auto

lemma ff_set_end [simp]: "ff_end base (ff_set base b u cs) = ff_end base cs"
  by (induction base b u cs rule: ff_set.induct) auto

lemma ff_set_ok:
  "chunks_ok cs \<Longrightarrow> (\<And>c n. ff_find base cs b = Some c \<Longrightarrow> u = Some n \<Longrightarrow> n \<le> cap c) \<Longrightarrow>
   chunks_ok (ff_set base b u cs)"
  by (induction base b u cs rule: ff_set.induct) (auto split: if_splits)

lemma ff_find_append:
  "chunks_ok cs \<Longrightarrow> ff_find base (cs @ [d]) x =
   (if x = ff_end base cs then Some d else ff_find base cs x)"
proof (induction base cs x rule: ff_find.induct)
  case (1 base b)
  then show ?case by simp
next
  case (2 base c cs b)
  moreover have "base + cap c \<le> ff_end (base + cap c) cs" by (rule ff_end_ge)
  ultimately show ?case by auto
qed

lemma ff_end_append [simp]: "ff_end base (cs @ [d]) = ff_end base cs + cap d"
  by (induction base cs rule: ff_end.induct) auto

lemma chunks_ok_append [simp]: "chunks_ok (cs @ ds) \<longleftrightarrow> chunks_ok cs \<and> chunks_ok ds"
  by (auto simp: chunks_ok_def)

lemma ff_fit_find:
  "chunks_ok cs \<Longrightarrow> ff_fit base n cs = Some b \<Longrightarrow>
   \<exists>c. ff_find base cs b = Some c \<and> used c = None \<and> n \<le> cap c"
proof (induction base n cs rule: ff_fit.induct)
  case (1 base n)
  then show ?case by simp
next
  case (2 base n c cs)
  show ?case
  proof (cases "used c = None \<and> n \<le> cap c")
    case True
    with "2.prems" show ?thesis by auto
  next
    case False
    with "2.prems" obtain d where d: "ff_find (base + cap c) cs b = Some d" "used d = None" "n \<le> cap d"
      using "2.IH" by auto
    with ff_find_range [OF d(1)] "2.prems"(1) show ?thesis by auto
  qed
qed

lemma chunk_cap_props: "0 < chunk_cap n" "16 dvd chunk_cap n" "n \<le> chunk_cap n"
proof -
  have "n \<le> (n + 15) div 16 * 16" by presburger
  then show "n \<le> chunk_cap n" by (simp add: chunk_cap_def)
  show "0 < chunk_cap n" by (simp add: chunk_cap_def)
  show "16 dvd chunk_cap n" by (simp add: chunk_cap_def max_def)
qed

section \<open>The allocator's invariant\<close>

definition ff_ok :: "memory \<times> chunk list \<Rightarrow> bool" where
  "ff_ok = (\<lambda>(m, cs). chunks_ok cs \<and> ff_end heap_base cs \<le> heap_limit \<and>
     (\<forall>a. heap_base \<le> unat a \<and> unat a < ff_end heap_base cs \<longrightarrow> m a \<noteq> None))"

lemma heap_consts: "16 dvd heap_base" "0 < heap_base" "heap_limit = 2 ^ 47"
  by (simp_all add: heap_base_def heap_limit_def)

lemma ff_live_find:
  "ff_live cs b = Some n \<longleftrightarrow> (\<exists>c. ff_find heap_base cs (unat b) = Some c \<and> used c = Some n)"
  by (auto simp: ff_live_def split: option.splits)

lemma ff_live_block:
  assumes "ff_ok (m, cs)" and "ff_live cs b = Some n"
  shows "heap_base \<le> unat b" "unat b + n \<le> ff_end heap_base cs" "ff_end heap_base cs \<le> 2 ^ 47"
    "16 dvd unat b" "region b n \<subseteq> dom m"
proof -
  obtain c where c: "ff_find heap_base cs (unat b) = Some c" "used c = Some n"
    using assms(2) by (auto simp: ff_live_find)
  have ok: "chunks_ok cs" "ff_end heap_base cs \<le> 2 ^ 47"
    using assms(1) by (simp_all add: ff_ok_def heap_consts)
  have "n \<le> cap c" using ff_find_ok [OF ok(1) c(1)] c(2) by simp
  with ff_find_range [OF c(1)] show bounds: "heap_base \<le> unat b" "unat b + n \<le> ff_end heap_base cs"
    by auto
  show "ff_end heap_base cs \<le> 2 ^ 47" by (rule ok(2))
  show "16 dvd unat b" using ff_find_aligned [OF ok(1) heap_consts(1) c(1)] .
  have "c \<in> region b n \<longleftrightarrow> unat b \<le> unat c \<and> unat c < unat b + n" for c
    using bounds ok(2) by (intro region_iff) simp
  then show "region b n \<subseteq> dom m"
    using assms(1) bounds by (fastforce simp: ff_ok_def dom_def)
qed

lemma ff_live_disjoint:
  assumes ok: "ff_ok (m, cs)" and a: "ff_live cs a = Some i" and b: "ff_live cs b = Some j" and "a \<noteq> b"
  shows "region a i \<inter> region b j = {}"
proof -
  have below: "region x k \<inter> region y l = {}"
    if x: "ff_live cs x = Some k" and y: "ff_live cs y = Some l" and lt: "unat x < unat y" for x y k l
  proof -
    obtain c where c: "ff_find heap_base cs (unat x) = Some c" "used c = Some k"
      using x by (auto simp: ff_live_find)
    obtain d where d: "ff_find heap_base cs (unat y) = Some d"
      using y by (auto simp: ff_live_find)
    have "k \<le> cap c" using ff_find_ok [OF _ c(1)] c(2) ok by (auto simp: ff_ok_def)
    with ff_find_disjoint [OF c(1) d lt] have "unat x + k \<le> unat y" by simp
    then show ?thesis
      using ff_live_block(2,3) [OF ok y] by (intro region_disjointI) auto
  qed
  consider "unat a < unat b" | "unat b < unat a"
    using \<open>a \<noteq> b\<close> by (metis linorder_neqE_nat word_unat_eq_iff)
  then show ?thesis
    using below [OF a b] below [OF b a] by (cases) (auto simp: Int_commute)
qed

lemma ff_live_set:
  assumes "chunks_ok cs" and "ff_find heap_base cs (unat p) = Some c"
  shows "ff_live (ff_set heap_base (unat p) u cs) = (ff_live cs)(p := u)"
  using assms by (auto simp: fun_eq_iff ff_live_def ff_find_set word_unat_eq_iff split: option.splits)

lemma ff_ok_set:
  assumes "ff_ok (m, cs)" and "\<And>c n. ff_find heap_base cs b = Some c \<Longrightarrow> u = Some n \<Longrightarrow> n \<le> cap c"
  shows "ff_ok (m, ff_set heap_base b u cs)"
  using assms ff_set_ok [of cs heap_base b u] by (auto simp: ff_ok_def)

lemma ff_find_end: "chunks_ok cs \<Longrightarrow> ff_find base cs (ff_end base cs) = None"
  using ff_find_range [of base cs "ff_end base cs"] ff_find_ok [of cs base "ff_end base cs"]
  by (cases "ff_find base cs (ff_end base cs)") fastforce+

lemma ff_malloc_law:
  assumes ok: "ff_ok (m, cs)" and call: "ff_malloc sz (m, cs) = (p, m', cs')"
  shows "ff_ok (m', cs') \<and> agree_on (ff_live cs) m m' \<and> dom m \<subseteq> dom m' \<and>
    (if p = 0 then ff_live cs' = ff_live cs
     else ff_live cs p = None \<and> ff_live cs' = (ff_live cs)(p \<mapsto> unat sz))"
proof (cases "ff_fit heap_base (unat sz) cs")
  case (Some b)
  have cs: "chunks_ok cs" using ok by (simp add: ff_ok_def)
  obtain c where c: "ff_find heap_base cs b = Some c" "used c = None" "unat sz \<le> cap c"
    using ff_fit_find [OF cs Some] by blast
  have b: "heap_base \<le> b" "b < 2 ^ 64"
    using ff_find_range [OF c(1)] ff_find_ok [OF cs c(1)] ok by (auto simp: ff_ok_def heap_consts)
  then have ub: "unat (of_nat b :: addr) = b" by (simp add: unat_of_nat)
  have res: "p = of_nat b" "m' = m" "cs' = ff_set heap_base b (Some (unat sz)) cs"
    using call Some by (simp_all add: ff_malloc_def)
  have "p \<noteq> 0" using b heap_consts ub res by (metis unat_0 not_le)
  moreover have "ff_live cs' = (ff_live cs)(p \<mapsto> unat sz)"
    using ff_live_set [of cs p c] cs c ub res by simp
  moreover have "ff_live cs p = None" using c ub res by (simp add: ff_live_def)
  moreover have "ff_ok (m', cs')"
    using ff_ok_set [OF ok, of b "Some (unat sz)"] c res by auto
  ultimately show ?thesis
    using res by simp
next
  case None
  have cs: "chunks_ok cs" using ok by (simp add: ff_ok_def)
  let ?e = "ff_end heap_base cs" and ?k = "chunk_cap (unat sz)"
  show ?thesis
  proof (cases "?e + ?k \<le> heap_limit")
    case False
    with None call ok show ?thesis by (auto simp: ff_malloc_def Let_def)
  next
    case True
    with None call have res: "p = of_nat ?e" "m' = fill_zero ?e ?k m"
      "cs' = cs @ [\<lparr>cap = ?k, used = Some (unat sz)\<rparr>]"
      by (simp_all add: ff_malloc_def Let_def)
    have e: "heap_base \<le> ?e" "?e < 2 ^ 64"
      using True ff_end_ge [of heap_base cs] by (auto simp: heap_consts)
    then have ub: "unat (of_nat ?e :: addr) = ?e" by (simp add: unat_of_nat)
    then have p: "p \<noteq> 0" "ff_live cs p = None"
      using e heap_consts(2) res ff_find_end [OF cs, of heap_base] by (auto simp: ff_live_def)
    have "ff_live cs' = (ff_live cs)(p \<mapsto> unat sz)"
      using ub res by (auto simp: fun_eq_iff ff_live_def ff_find_append cs word_unat_eq_iff)
    moreover have "ff_ok (m', cs')"
      using ok True chunk_cap_props [of "unat sz"] res
      by (auto simp: ff_ok_def fill_zero_def)
    moreover have "agree_on (ff_live cs) m m'"
    proof -
      have "fill_zero ?e ?k m c = m c" if "ff_live cs b = Some n" "c \<in> region b n" for b n c
        using that ff_live_block [OF ok that(1)] by (auto simp: fill_zero_def region_iff)
      with res show ?thesis by (simp add: agree_on_def)
    qed
    moreover have "dom m \<subseteq> dom m'" using res by (auto simp: fill_zero_def)
    ultimately show ?thesis using p by simp
  qed
qed

lemma fill_zero_in: "unat p + n \<le> 2 ^ 64 \<Longrightarrow> c \<in> region p n \<Longrightarrow> fill_zero (unat p) n m c = Some 0"
  by (simp add: fill_zero_def region_iff)

lemma fill_zero_out: "unat p + n \<le> 2 ^ 64 \<Longrightarrow> c \<notin> region p n \<Longrightarrow> fill_zero (unat p) n m c = m c"
  by (auto simp: fill_zero_def region_iff)

lemma copy_bytes_in:
  "unat q + n \<le> 2 ^ 64 \<Longrightarrow> i < n \<Longrightarrow> copy_bytes (unat q) (unat p) n m (q + of_nat i) = m (p + of_nat i)"
proof -
  assume "unat q + n \<le> 2 ^ 64" and i: "i < n"
  then have "unat (q + of_nat i) = unat q + i"
    by (rule unat_add_of_nat)
  with i show ?thesis by (simp add: copy_bytes_def)
qed

lemma copy_bytes_out: "unat q + n \<le> 2 ^ 64 \<Longrightarrow> c \<notin> region q n \<Longrightarrow> copy_bytes (unat q) k n m c = m c"
  by (auto simp: copy_bytes_def region_iff)

lemma dom_fill_zero: "dom m \<subseteq> dom (fill_zero b n m)"
  by (auto simp: fill_zero_def)

lemma dom_copy_bytes:
  assumes "region p n \<subseteq> dom m" and "unat p + n \<le> 2 ^ 64"
  shows "dom m \<subseteq> dom (copy_bytes q (unat p) n m)"
proof -
  have mapped: "m (of_nat (unat p + i)) \<noteq> None" if "i < n" for i
  proof -
    have "unat (of_nat (unat p + i) :: addr) = unat p + i"
      using unat_add_of_nat [OF assms(2) that] by simp
    then have "of_nat (unat p + i) \<in> region p n"
      using that assms(2) by (simp add: region_iff)
    with assms(1) show ?thesis by (auto simp: dom_def)
  qed
  show ?thesis
  proof
    fix a assume "a \<in> dom m"
    then show "a \<in> dom (copy_bytes q (unat p) n m)"
      using mapped [of "unat a - q"] by (auto simp: copy_bytes_def algebra_simps)
  qed
qed

text \<open>A write that stays inside one live block keeps the invariant and the other blocks.\<close>

lemma ff_ok_dom: "ff_ok (m, cs) \<Longrightarrow> dom m \<subseteq> dom m' \<Longrightarrow> ff_ok (m', cs)"
  by (force simp: ff_ok_def dom_def)

lemma ff_calloc_law:
  assumes ok: "ff_ok (m, cs)" and call: "ff_calloc cnt sz (m, cs) = (p, m', cs')"
  shows "ff_ok (m', cs') \<and> agree_on (ff_live cs) m m' \<and>
    (if p = 0 then ff_live cs' = ff_live cs
     else unat cnt * unat sz < 2 ^ 64 \<and> ff_live cs p = None \<and>
       ff_live cs' = (ff_live cs)(p \<mapsto> unat cnt * unat sz) \<and>
       (\<forall>c \<in> region p (unat cnt * unat sz). m' c = Some 0))"
proof (cases "unat cnt * unat sz < 2 ^ 64")
  case False
  with call ok show ?thesis by (simp add: ff_calloc_def)
next
  case True
  then have prod: "unat (cnt * sz) = unat cnt * unat sz" by (simp add: unat_word_ariths)
  obtain q m1 cs1 where mal: "ff_malloc (cnt * sz) (m, cs) = (q, m1, cs1)"
    by (metis prod_cases3)
  note law = ff_malloc_law [OF ok mal]
  show ?thesis
  proof (cases "q = 0")
    case True
    with mal call prod \<open>unat cnt * unat sz < 2 ^ 64\<close> law show ?thesis by (simp add: ff_calloc_def)
  next
    case False
    with mal call prod True have res: "p = q" "m' = fill_zero (unat q) (unat cnt * unat sz) m1" "cs' = cs1"
      by (auto simp: ff_calloc_def)
    have live: "ff_live cs1 q = Some (unat cnt * unat sz)" "ff_ok (m1, cs1)" "ff_live cs q = None"
      using law False prod by simp_all
    have fits: "unat q + unat cnt * unat sz \<le> 2 ^ 64"
      using ff_live_block(2,3) [OF live(2,1)] by simp
    have "agree_on (ff_live cs) m1 m'"
    proof (rule agree_outside)
      show "m' c = m1 c" if "c \<notin> region q (unat cnt * unat sz)" for c
        using fill_zero_out [OF fits that] res by simp
      show "region b n \<inter> region q (unat cnt * unat sz) = {}" if "ff_live cs b = Some n" for b n
        using ff_live_disjoint [OF live(2) _ live(1), of b n] that live(3) law False by (cases "b = q") auto
    qed
    with law res have "agree_on (ff_live cs) m m'" by (blast intro: agree_on_trans)
    moreover have "ff_ok (m', cs')"
      using ff_ok_dom [OF live(2) dom_fill_zero] res by simp
    ultimately show ?thesis
      using law res False True prod fill_zero_in [OF fits] by simp
  qed
qed

lemma ff_free_law:
  assumes ok: "ff_ok (m, cs)" and p: "ff_live cs p = Some k"
  shows "\<exists>m' cs'. ff_free p (m, cs) = Inr (m', cs') \<and> ff_ok (m', cs') \<and>
    ff_live cs' = (ff_live cs)(p := None) \<and> agree_on ((ff_live cs)(p := None)) m m'"
proof -
  obtain c where c: "ff_find heap_base cs (unat p) = Some c" using p by (auto simp: ff_live_find)
  have "p \<noteq> 0" using ff_live_block(1) [OF ok p] heap_consts(2) by auto
  moreover have "chunks_ok cs" using ok by (simp add: ff_ok_def)
  ultimately show ?thesis
    using p c ff_live_set [of cs p c None] ff_ok_set [OF ok, of "unat p" None]
    by (simp add: ff_free_def)
qed

lemma ff_realloc_law:
  assumes ok: "ff_ok (m, cs)" and p: "ff_live cs p = Some k"
  shows "\<exists>q m' cs'. ff_realloc p sz (m, cs) = Inr (q, m', cs') \<and> ff_ok (m', cs') \<and>
    agree_on ((ff_live cs)(p := None)) m m' \<and>
    (if q = 0 then ff_live cs' = ff_live cs \<and> agree_on (ff_live cs) m m'
     else (q = p \<or> ff_live cs q = None) \<and> ff_live cs' = (ff_live cs)(p := None, q \<mapsto> unat sz) \<and>
       (\<forall>i < min k (unat sz). m' (q + of_nat i) = m (p + of_nat i)))"
proof -
  have cs: "chunks_ok cs" using ok by (simp add: ff_ok_def)
  have p0: "p \<noteq> 0" using ff_live_block(1) [OF ok p] heap_consts(2) by auto
  obtain c where c: "ff_find heap_base cs (unat p) = Some c" "used c = Some k"
    using p by (auto simp: ff_live_find)
  show ?thesis
  proof (cases "unat sz \<le> cap c")
    case True
    then show ?thesis
      using p0 c ff_live_set [OF cs c(1)] ff_ok_set [OF ok, of "unat p" "Some (unat sz)"]
      by (auto simp: ff_realloc_def)
  next
    case False
    obtain q m1 cs1 where mal: "ff_malloc sz (m, cs) = (q, m1, cs1)" by (metis prod_cases3)
    note law = ff_malloc_law [OF ok mal]
    show ?thesis
    proof (cases "q = 0")
      case True
      with False mal p0 c law show ?thesis
        by (auto simp: ff_realloc_def intro: agree_on_subset [of "ff_live cs"] split: if_splits)
    next
      case q0: False
      let ?m = "copy_bytes (unat q) (unat p) k m1"
      let ?cs = "ff_set heap_base (unat p) None cs1"
      have res: "ff_realloc p sz (m, cs) = Inr (q, ?m, ?cs)"
        using False mal p0 c q0 by (simp add: ff_realloc_def)
      have ok1: "ff_ok (m1, cs1)" and agr: "agree_on (ff_live cs) m m1"
        and lq: "ff_live cs q = None" and lv: "ff_live cs1 = (ff_live cs)(q \<mapsto> unat sz)"
        using law q0 by simp_all
      have pq: "p \<noteq> q" using lq p by auto
      have kle: "k \<le> unat sz" using ff_find_ok [OF cs c(1)] c(2) False by simp
      have p1: "ff_live cs1 p = Some k" and q1: "ff_live cs1 q = Some (unat sz)"
        using lv p pq by simp_all
      have fits: "unat q + k \<le> 2 ^ 64" "unat p + k \<le> 2 ^ 64"
        using ff_live_block(2,3) [OF ok1 q1] ff_live_block(2,3) [OF ok1 p1] kle by auto
      have "ff_ok (?m, cs1)"
        using ff_ok_dom [OF ok1 dom_copy_bytes [OF ff_live_block(5) [OF ok1 p1] fits(2)]] .
      then have "ff_ok (?m, ?cs)" by (rule ff_ok_set) simp
      moreover have "ff_live ?cs = (ff_live cs)(p := None, q \<mapsto> unat sz)"
      proof -
        obtain d where "ff_find heap_base cs1 (unat p) = Some d" using p1 by (auto simp: ff_live_find)
        then have "ff_live ?cs = (ff_live cs1)(p := None)"
          using ok1 by (intro ff_live_set) (auto simp: ff_ok_def)
        with lv pq show ?thesis by (auto simp: fun_eq_iff)
      qed
      moreover have "agree_on ((ff_live cs)(p := None)) m ?m"
      proof (rule agree_on_trans)
        show "agree_on ((ff_live cs)(p := None)) m m1"
          using agr by (rule agree_on_subset) (auto split: if_splits)
        show "agree_on ((ff_live cs)(p := None)) m1 ?m"
        proof (rule agree_outside)
          show "?m c = m1 c" if "c \<notin> region q k" for c by (rule copy_bytes_out [OF fits(1) that])
          fix b n assume "((ff_live cs)(p := None)) b = Some n"
          then have "ff_live cs1 b = Some n" "b \<noteq> q" using lv lq by (auto split: if_splits)
          then have "region b n \<inter> region q (unat sz) = {}" by (rule ff_live_disjoint [OF ok1 _ q1])
          with region_mono [OF kle, of q] show "region b n \<inter> region q k = {}" by blast
        qed
      qed
      moreover have "?m (q + of_nat i) = m (p + of_nat i)" if "i < k" for i
      proof -
        have "unat (of_nat i :: addr) < k"
          using that fits(2) by (simp add: unat_of_nat)
        then have "p + of_nat i \<in> region p k"
          using that by (simp add: region_def)
        with agr p have "m1 (p + of_nat i) = m (p + of_nat i)" by (auto simp: agree_on_def)
        with copy_bytes_in [OF fits(1) that] show ?thesis by simp
      qed
      ultimately show ?thesis
        using res q0 lq by (intro exI [of _ q] exI [of _ ?m] exI [of _ ?cs]) auto
    qed
  qed
qed

section \<open>The C library over the first-fit heap\<close>

text \<open>
  \<open>rand\<close> is the sample implementation in the C standard (7.22.2.2), with values up to
  32767; \<open>prctl\<close> succeeds.
\<close>

fun sample_rand_state :: "u32 \<Rightarrow> nat \<Rightarrow> u32" where
  "sample_rand_state seed 0 = seed * 1103515245 + 12345"
| "sample_rand_state seed (Suc n) = sample_rand_state (seed * 1103515245 + 12345) n"

definition sample_rand :: "u32 \<Rightarrow> nat \<Rightarrow> u32" where
  "sample_rand seed n = (sample_rand_state seed n div 65536) mod 32768"

definition sample_libc :: "chunk list libc" where
  "sample_libc = \<lparr>l_prctl = (\<lambda>_ _. 0), l_rand = sample_rand, l_malloc = ff_malloc,
     l_calloc = ff_calloc, l_realloc = ff_realloc, l_free = ff_free\<rparr>"

interpretation ff: allocator sample_libc ff_live ff_ok
proof unfold_locales
  fix m m' :: memory and cs cs' :: "chunk list" and a b p :: addr and sz cnt :: u64 and i j k n :: nat
  show "b \<noteq> 0 \<and> unat b mod 16 = 0 \<and> unat b + n \<le> 2 ^ 47 \<and> region b n \<subseteq> dom m"
    if "ff_ok (m, cs)" "ff_live cs b = Some n"
    using ff_live_block [OF that] heap_consts(2) by auto
  show "region a i \<inter> region b j = {}"
    if "ff_ok (m, cs)" "ff_live cs a = Some i" "ff_live cs b = Some j" "a \<noteq> b"
    using that by (rule ff_live_disjoint)
  show "ff_ok (m', cs)" if "ff_ok (m, cs)" "dom m' = dom m"
    using ff_ok_dom [OF that(1)] that(2) by simp
  show "l_free sample_libc 0 (m, cs) = Inr (m, cs)"
    by (simp add: sample_libc_def ff_free_def)
  show "ff_ok (m', cs') \<and> agree_on (ff_live cs) m m' \<and>
      (if p = 0 then ff_live cs' = ff_live cs
       else ff_live cs p = None \<and> ff_live cs' = (ff_live cs)(p \<mapsto> unat sz))"
    if "ff_ok (m, cs)" "l_malloc sample_libc sz (m, cs) = (p, m', cs')"
    using ff_malloc_law [OF that(1), of sz p m' cs'] that(2) by (simp add: sample_libc_def)
  show "ff_ok (m', cs') \<and> agree_on (ff_live cs) m m' \<and>
      (if p = 0 then ff_live cs' = ff_live cs
       else unat cnt * unat sz < 2 ^ 64 \<and> ff_live cs p = None \<and>
         ff_live cs' = (ff_live cs)(p \<mapsto> unat cnt * unat sz) \<and>
         (\<forall>c \<in> region p (unat cnt * unat sz). m' c = Some 0))"
    if "ff_ok (m, cs)" "l_calloc sample_libc cnt sz (m, cs) = (p, m', cs')"
    using ff_calloc_law [OF that(1), of cnt sz p m' cs'] that(2)
    by (cases "p = 0") (simp_all add: sample_libc_def)
  show "\<exists>q m' cs'. l_realloc sample_libc p sz (m, cs) = Inr (q, m', cs') \<and> ff_ok (m', cs') \<and>
      agree_on ((ff_live cs)(p := None)) m m' \<and>
      (if q = 0 then ff_live cs' = ff_live cs \<and> agree_on (ff_live cs) m m'
       else (q = p \<or> ff_live cs q = None) \<and> ff_live cs' = (ff_live cs)(p := None, q \<mapsto> unat sz) \<and>
         (\<forall>i < min k (unat sz). m' (q + of_nat i) = m (p + of_nat i)))"
    if "ff_ok (m, cs)" "ff_live cs p = Some k"
    using ff_realloc_law [OF that, of sz] by (simp add: sample_libc_def)
  show "\<exists>m' cs'. l_free sample_libc p (m, cs) = Inr (m', cs') \<and> ff_ok (m', cs') \<and>
      ff_live cs' = (ff_live cs)(p := None) \<and> agree_on ((ff_live cs)(p := None)) m m'"
    if "ff_ok (m, cs)" "ff_live cs p = Some k"
    using ff_free_law [OF that] by (simp add: sample_libc_def)
qed

end
