(* ===== verification/PT_Alloc.thy ===== *)
theory PT_Alloc imports PT_Pacinst PT_Heap begin

text \<open>
  The allocation half of \<open>ptauth-rtlib.c\<close>: \<open>initMD\<close> and the replacements of
  \<open>malloc\<close>, \<open>calloc\<close>, \<open>free\<close> and \<open>realloc\<close>.  An object carries an 8-byte
  identifier (the field \<open>id\<close> of \<open>struct Metadata\<close>) in front of its data; the pointer
  handed out points behind it and is signed with it.  A call takes the process state and returns
  a value with the new state, or the reason why the process stopped.
\<close>

section \<open>Metadata\<close>

text \<open>\<open>struct Metadata\<close> is one \<open>unsigned long\<close> at offset 0.\<close>

definition metadata_id_offset :: addr where "metadata_id_offset = 0"
definition sizeof_Metadata :: u64 where "sizeof_Metadata = 8"

definition read_meta_id :: "addr \<Rightarrow> 'h machine \<Rightarrow> ('h, u64) result" where
  "read_meta_id meta = read_ulong (meta + metadata_id_offset)"

definition write_meta_id :: "addr \<Rightarrow> u64 \<Rightarrow> 'h machine \<Rightarrow> ('h, unit) result" where
  "write_meta_id meta v = write_ulong (meta + metadata_id_offset) v"

text \<open>
  \<open>checkTBI\<close>: \<open>prctl\<close> returns 0 when the kernel accepts tagged addresses.
\<close>

definition checkTBI :: "'h libc \<Rightarrow> bool" where
  "checkTBI L = (l_prctl L 55 PR_TAGGED_ADDR_ENABLE = 0)"

text \<open>
  \<open>rand()\<close> is an \<open>int\<close>: in the expression with \<open>num\<close> it is sign-extended to
  \<open>unsigned long\<close>.
\<close>

definition draw_id :: "u32 \<Rightarrow> u32 \<Rightarrow> u64" where
  "draw_id r1 r2 =
     (let num = scast r1 :: u64;
          num = push_bit 32 num OR scast r2;
          num = (num mod (999999999 - 100000000)) + 100000000
      in num)"

definition initMD :: "'h libc \<Rightarrow> addr \<Rightarrow> u32 \<Rightarrow> 'h machine \<Rightarrow> ('h, unit) result" where
  "initMD L meta sz s =
     (let s = call_srand (ucast (clock s)) s;
          (r1, s) = call_rand L s;
          (r2, s) = call_rand L s
      in write_meta_id meta (draw_id r1 r2) s)"

section \<open>The allocation functions\<close>

definition tbi_message :: string where
  "tbi_message = ''Your OS does not support Top-Byte Ignore.'' @ [CHR 0x0A]"

definition ptauth_malloc :: "config \<Rightarrow> 'h libc \<Rightarrow> u64 \<Rightarrow> 'h machine \<Rightarrow> ('h, addr) result" where
  "ptauth_malloc cfg L sz s =
     (if \<not> checkTBI L then Inl (Exit 1, call_printf tbi_message s)
      else
        let alloc_size = sz + 8;
            (meta, s) = call_malloc L alloc_size s
        in then_do (initMD L meta (ucast sz) s) (\<lambda>(_, s).
           then_do (read_meta_id meta s) (\<lambda>(ident, s).
           let retPtr = meta + 8
           in Inr (pacia cfg retPtr ident, s))))"

definition ptauth_calloc :: "config \<Rightarrow> 'h libc \<Rightarrow> u64 \<Rightarrow> u64 \<Rightarrow> 'h machine \<Rightarrow> ('h, addr) result" where
  "ptauth_calloc cfg L item sizeBlock s =
     (if \<not> checkTBI L then Inl (Exit 1, call_printf tbi_message s)
      else
        let (meta, s) = call_calloc L item (sizeBlock + 8) s
        in then_do (initMD L meta (ucast sizeBlock) s) (\<lambda>(_, s).
           then_do (read_meta_id meta s) (\<lambda>(ident, s).
           let retPtr = meta + 8
           in Inr (pacia cfg retPtr ident, s))))"

definition violation_messages :: "string list" where
  "violation_messages =
     [''Pointer is 0x20000000000000 !'' @ [CHR 0x0A],
      [CHR 0x09] @ ''****** __ptauth_free! Pointer is not Valid! ****** '' @ [CHR 0x0A]]"

definition ptauth_free :: "config \<Rightarrow> 'h libc \<Rightarrow> addr \<Rightarrow> 'h machine \<Rightarrow> ('h, unit) result" where
  "ptauth_free cfg L ptr s =
     (if ptr = 0 then Inr ((), s)
      else
        let meta = ptr - 8;
            meta = meta AND NOT (MASKHIGHBIT cfg)
        in then_do (read_meta_id meta s) (\<lambda>(ident, s).
           let ptr = autia cfg ptr ident (CHR ''F'');
               ptrViolation = ptr AND NOT (MASKLOWBIT cfg)
           in if ptrViolation \<noteq> 0
              then Inl (Exit 0, call_printf (violation_messages ! 1) (call_printf (violation_messages ! 0) s))
              else then_do (write_meta_id meta 2 s) (\<lambda>(_, s). call_free L (ptr - 8) s)))"

definition ptauth_realloc :: "config \<Rightarrow> 'h libc \<Rightarrow> addr \<Rightarrow> u64 \<Rightarrow> 'h machine \<Rightarrow> ('h, addr) result" where
  "ptauth_realloc cfg L ptr sz s =
     (if \<not> checkTBI L then Inl (Exit 1, call_printf tbi_message s)
      else
        let placeholderptr = ptr;
            ptr = ptr AND NOT (MASKHIGHBIT cfg)
        in then_do (call_realloc L (ptr - 8) sz s) (\<lambda>(tmpptr, s).
           if ptr - 8 \<noteq> tmpptr then
             let meta = tmpptr
             in then_do (initMD L meta (ucast sz) s) (\<lambda>(_, s).
                then_do (read_meta_id meta s) (\<lambda>(ident, s).
                let retPtr = meta + 8
                in Inr (pacia cfg retPtr ident, s)))
           else Inr (placeholderptr, s)))"

section \<open>Identifiers\<close>

text \<open>The identifier \<open>initMD\<close> writes at time \<open>t\<close>.\<close>

definition fresh_id :: "'h libc \<Rightarrow> u64 \<Rightarrow> u64" where
  "fresh_id L t = draw_id (l_rand L (ucast t) 0) (l_rand L (ucast t) 1)"

lemma unat_draw_id: "100000000 \<le> unat (draw_id r1 r2)" "unat (draw_id r1 r2) < 999999999"
proof -
  let ?x = "push_bit 32 (scast r1 :: u64) OR scast r2"
  have m: "unat (?x mod 899999999) < 899999999" by (simp add: unat_mod)
  then have "unat (?x mod 899999999 + 100000000) = unat (?x mod 899999999) + 100000000"
    by (subst unat_add_small) simp_all
  with m show "100000000 \<le> unat (draw_id r1 r2)" "unat (draw_id r1 r2) < 999999999"
    by (simp_all add: draw_id_def)
qed

lemma initMD_eq:
  "initMD L meta sz s =
     (let s1 = s\<lparr>rng := (ucast (clock s), 2)\<rparr>
      in case store64 (mem s) meta (fresh_id L (clock s)) of
           None \<Rightarrow> Inl (Segv, s1)
         | Some m \<Rightarrow> Inr ((), s1\<lparr>mem := m\<rparr>))"
  by (simp add: initMD_def call_srand_def call_rand_def write_meta_id_def write_ulong_def
      metadata_id_offset_def fresh_id_def numeral_2_eq_2 split: option.split)

text \<open>
  The end that \<open>malloc\<close>, \<open>calloc\<close> and a moving \<open>realloc\<close> share: identifier written,
  read back, pointer signed.
\<close>

lemma tag_object_eq [result_simps]:
  "then_do (initMD L meta sz s) (\<lambda>(_, s).
     then_do (read_meta_id meta s) (\<lambda>(ident, s). Inr (pacia cfg (meta + 8) ident, s))) =
   (let s1 = s\<lparr>rng := (ucast (clock s), 2)\<rparr>; i = fresh_id L (clock s)
    in case store64 (mem s) meta i of
         None \<Rightarrow> Inl (Segv, s1)
       | Some m \<Rightarrow> Inr (pacia cfg (meta + 8) i, s1\<lparr>mem := m\<rparr>))"
  by (simp add: initMD_eq read_meta_id_def read_ulong_def metadata_id_offset_def ram.load_same
      Let_def split: option.split)

section \<open>Objects\<close>

text \<open>
  A signed object: \<open>q\<close> points to the \<open>n\<close> bytes of data behind a live block's header,
  and carries the signature of the header's identifier.
\<close>

definition signed_object ::
  "config \<Rightarrow> ('h \<Rightarrow> addr \<rightharpoonup> nat) \<Rightarrow> 'h machine \<Rightarrow> addr \<Rightarrow> addr \<Rightarrow> nat \<Rightarrow> u64 \<Rightarrow> bool" where
  "signed_object cfg live s q b n i \<longleftrightarrow>
     live (heap s) b = Some (n + 8) \<and> load64 (mem s) b = Some i \<and> q = pacia cfg (b + 8) i"

abbreviation heap_ok :: "(memory \<times> 'h \<Rightarrow> bool) \<Rightarrow> 'h machine \<Rightarrow> bool" where
  "heap_ok ok s \<equiv> ok (mem s, heap s)"

lemma xpac_header:
  assumes "unat b + 8 \<le> 2 ^ 47"
  shows "xpac cfg (pacia cfg (b + 8) i - 8) = b" "canonical (b + 8)"
proof -
  have "unat (b + 8) = unat b + 8" using assms by (subst unat_add_small) simp_all
  with assms show c: "canonical (b + 8)" by (simp add: canonical_def)
  have "canonical b" using assms by (simp add: canonical_def)
  with c show "xpac cfg (pacia cfg (b + 8) i - 8) = b"
    by (simp add: xpac_diff [of _ "pacia cfg (b + 8) i"])
qed

lemma agree_on_load64:
  "agree_on lv m m' \<Longrightarrow> lv b = Some n \<Longrightarrow> 8 \<le> n \<Longrightarrow> load64 m' b = load64 m b"
  using region_mono [of 8 n b] by (intro load64_cong) (auto simp: agree_on_def)

section \<open>The allocation functions over an allocator\<close>

context allocator
begin

lemma live_blockD:
  "ok (m, h) \<Longrightarrow> live h b = Some n \<Longrightarrow> unat b + n \<le> 2 ^ 47"
  "ok (m, h) \<Longrightarrow> live h b = Some n \<Longrightarrow> region b n \<subseteq> dom m"
  "ok (m, h) \<Longrightarrow> live h b = Some n \<Longrightarrow> b \<noteq> 0"
  using live_block by blast+

text \<open>Writing the header of a live block keeps the allocator's invariant.\<close>

lemma header_store:
  assumes ok: "ok (m, h)" and b: "live h b = Some n" and n: "8 \<le> n"
  shows "\<exists>m'. store64 m b w = Some m' \<and> ok (m', h) \<and> load64 m' b = Some w \<and>
    agree_on ((live h)(b := None)) m m' \<and> (\<forall>c. c \<notin> region b 8 \<longrightarrow> m' c = m c)"
proof -
  have sub: "region b 8 \<subseteq> region b n" using n by (rule region_mono)
  then have "load64 m b \<noteq> None"
    using live_blockD(2) [OF ok b] by (auto simp: load64_None_iff)
  then obtain m' where m': "store64 m b w = Some m'"
    using ram.store_exists by blast
  have out: "m' c = m c" if "c \<notin> region b 8" for c
    using that store64_apply [OF m', of c] by simp
  have "ok (m', h)"
    using ok_write [OF ok store64_dom [OF m']] out sub b by blast
  moreover have "agree_on ((live h)(b := None)) m m'"
  proof (rule agree_outside [OF out])
    fix a k assume "((live h)(b := None)) a = Some k"
    then have "live h a = Some k" "a \<noteq> b" by (auto split: if_splits)
    with live_disjoint [OF ok _ b] sub show "region a k \<inter> region b 8 = {}" by blast
  qed
  ultimately show ?thesis using m' out ram.load_same by blast
qed

text \<open>What the shared end does to a freshly allocated block.\<close>

lemma tag_fresh_block:
  assumes "heap_ok ok s" and "live (heap s) b = Some n" and "8 \<le> n"
  shows "\<exists>s'. then_do (initMD L b sz s) (\<lambda>(_, s).
      then_do (read_meta_id b s) (\<lambda>(ident, s). Inr (pacia cfg (b + 8) ident, s))) =
        Inr (pacia cfg (b + 8) (fresh_id L (clock s)), s') \<and>
    load64 (mem s') b = Some (fresh_id L (clock s)) \<and>
    heap_ok ok s' \<and> heap s' = heap s \<and> agree_on ((live (heap s))(b := None)) (mem s) (mem s') \<and>
    (\<forall>c. c \<notin> region b 8 \<longrightarrow> mem s' c = mem s c)"
proof -
  obtain m' where m': "store64 (mem s) b (fresh_id L (clock s)) = Some m'" "ok (m', heap s)"
      "load64 m' b = Some (fresh_id L (clock s))" "agree_on ((live (heap s))(b := None)) (mem s) m'"
      "\<forall>c. c \<notin> region b 8 \<longrightarrow> m' c = mem s c"
    using header_store [OF assms] by blast
  then show ?thesis by (auto simp: tag_object_eq)
qed

lemma malloc_spec:
  assumes ok: "heap_ok ok s" and tbi: "checkTBI L" and fits: "unat sz + 8 < 2 ^ 64"
    and mal: "l_malloc L (sz + 8) (mem s, heap s) = (b, m, h)" and b0: "b \<noteq> 0"
  shows "\<exists>s'. ptauth_malloc cfg L sz s = Inr (pacia cfg (b + 8) (fresh_id L (clock s)), s') \<and>
    signed_object cfg live s' (pacia cfg (b + 8) (fresh_id L (clock s))) b (unat sz) (fresh_id L (clock s)) \<and>
    live (heap s) b = None \<and> live (heap s') = (live (heap s))(b \<mapsto> unat sz + 8) \<and>
    heap_ok ok s' \<and> agree_on (live (heap s)) (mem s) (mem s')"
proof -
  let ?s = "s\<lparr>mem := m, heap := h\<rparr>"
  have cm: "call_malloc L (sz + 8) s = (b, ?s)" by (simp add: call_malloc_def mal)
  have n: "unat (sz + 8) = unat sz + 8" using fits by (subst unat_add_small) simp_all
  have b: "live (heap s) b = None" "live h = (live (heap s))(b \<mapsto> unat sz + 8)"
      "ok (m, h)" "agree_on (live (heap s)) (mem s) m"
    using malloc_law [OF ok mal] n b0 by simp_all
  obtain s' where t: "then_do (initMD L b (ucast sz) ?s) (\<lambda>(_, s).
        then_do (read_meta_id b s) (\<lambda>(ident, s). Inr (pacia cfg (b + 8) ident, s))) =
        Inr (pacia cfg (b + 8) (fresh_id L (clock s)), s')"
      "load64 (mem s') b = Some (fresh_id L (clock s))"
      "heap_ok ok s'" "heap s' = h" "agree_on ((live h)(b := None)) m (mem s')"
    using tag_fresh_block [of ?s b "unat sz + 8" "ucast sz" cfg] b by auto
  have "(live h)(b := None) = live (heap s)" using b by (auto simp: fun_eq_iff)
  with t b have "agree_on (live (heap s)) (mem s) (mem s')"
    by (metis agree_on_trans)
  with t b tbi show ?thesis by (auto simp: signed_object_def ptauth_malloc_def cm)
qed

text \<open>A request of the last eight sizes wraps around: the block is shorter than its header.\<close>

lemma malloc_wraps:
  assumes ok: "heap_ok ok s" and tbi: "checkTBI L" and big: "2 ^ 64 - 8 \<le> unat sz"
    and mal: "l_malloc L (sz + 8) (mem s, heap s) = (b, m, h)" and b0: "b \<noteq> 0"
    and mapped: "load64 m b \<noteq> None"
  shows "\<exists>s'. ptauth_malloc cfg L sz s = Inr (pacia cfg (b + 8) (fresh_id L (clock s)), s') \<and>
    live (heap s') b = Some (unat sz + 8 - 2 ^ 64) \<and> unat sz + 8 - 2 ^ 64 < 8 \<and>
    load64 (mem s') b = Some (fresh_id L (clock s))"
proof -
  have cm: "call_malloc L (sz + 8) s = (b, s\<lparr>mem := m, heap := h\<rparr>)" by (simp add: call_malloc_def mal)
  have lt: "unat sz < 2 ^ 64" by (rule unat64_bound)
  have n: "unat (sz + 8) = unat sz + 8 - 2 ^ 64"
    using big lt by (simp add: unat_word_ariths mod_if)
  have live: "live h b = Some (unat sz + 8 - 2 ^ 64)"
    using malloc_law [OF ok mal] n b0 by simp
  obtain m' where m': "store64 m b (fresh_id L (clock s)) = Some m'"
    using mapped ram.store_exists by blast
  then have "load64 m' b = Some (fresh_id L (clock s))" by (rule ram.load_same)
  with m' live lt tbi show ?thesis
    by (simp add: ptauth_malloc_def cm tag_object_eq)
qed

text \<open>The result of a failed allocation is used as a header at address 0.\<close>

lemma malloc_fails:
  assumes ok: "heap_ok ok s" and tbi: "checkTBI L"
    and mal: "l_malloc L (sz + 8) (mem s, heap s) = (0, m, h)" and null: "load64 m 0 = None"
  shows "\<exists>s'. ptauth_malloc cfg L sz s = Inl (Segv, s') \<and> live (heap s') = live (heap s)"
proof -
  have cm: "call_malloc L (sz + 8) s = (0, s\<lparr>mem := m, heap := h\<rparr>)" by (simp add: call_malloc_def mal)
  have "store64 m 0 w = None" for w using null by (simp add: store64_None_iff)
  moreover have "live h = live (heap s)" using malloc_law [OF ok mal] by simp
  ultimately show ?thesis using tbi tag_object_eq [of L 0 "ucast sz" "s\<lparr>mem := m, heap := h\<rparr>" cfg]
    by (simp add: ptauth_malloc_def cm)
qed

lemma calloc_spec:
  fixes cfg :: config
  assumes ok: "heap_ok ok s" and tbi: "checkTBI L" and item: "item \<noteq> 0" and fits: "unat sizeBlock + 8 < 2 ^ 64"
    and cal: "l_calloc L item (sizeBlock + 8) (mem s, heap s) = (b, m, h)" and b0: "b \<noteq> 0"
  defines "n \<equiv> unat item * (unat sizeBlock + 8) - 8" and "q \<equiv> pacia cfg (b + 8) (fresh_id L (clock s))"
  shows "\<exists>s'. ptauth_calloc cfg L item sizeBlock s = Inr (q, s') \<and>
    signed_object cfg live s' q b n (fresh_id L (clock s)) \<and>
    unat item * unat sizeBlock \<le> n \<and> (\<forall>c \<in> region (b + 8) n. mem s' c = Some 0) \<and>
    live (heap s) b = None \<and> live (heap s') = (live (heap s))(b \<mapsto> n + 8) \<and>
    heap_ok ok s' \<and> agree_on (live (heap s)) (mem s) (mem s')"
proof -
  let ?s = "s\<lparr>mem := m, heap := h\<rparr>"
  have cc: "call_calloc L item (sizeBlock + 8) s = (b, ?s)" by (simp add: call_calloc_def cal)
  have sz: "unat (sizeBlock + 8) = unat sizeBlock + 8" using fits by (subst unat_add_small) simp_all
  have "1 \<le> unat item" using item by (simp add: Suc_leI unat_gt_0)
  then have "unat item * unat sizeBlock + 8 \<le> unat item * (unat sizeBlock + 8)"
    by (simp add: distrib_left)
  then have n8: "unat item * (unat sizeBlock + 8) = n + 8" and nle: "unat item * unat sizeBlock \<le> n"
    unfolding n_def by linarith+
  have b: "live (heap s) b = None" "live h = (live (heap s))(b \<mapsto> n + 8)" "ok (m, h)"
      "agree_on (live (heap s)) (mem s) m" "\<forall>c \<in> region b (n + 8). m c = Some 0"
    using calloc_law [OF ok cal] b0 sz n8 by simp_all
  obtain s' where t: "then_do (initMD L b (ucast sizeBlock) ?s) (\<lambda>(_, s).
        then_do (read_meta_id b s) (\<lambda>(ident, s). Inr (pacia cfg (b + 8) ident, s))) = Inr (q, s')"
      "load64 (mem s') b = Some (fresh_id L (clock s))"
      "heap_ok ok s'" "heap s' = h" "agree_on ((live h)(b := None)) m (mem s')"
      "\<forall>c. c \<notin> region b 8 \<longrightarrow> mem s' c = m c"
    using tag_fresh_block [of ?s b "n + 8" "ucast sizeBlock" cfg] b unfolding q_def by auto
  have "(live h)(b := None) = live (heap s)" using b by (auto simp: fun_eq_iff)
  with t b have agree: "agree_on (live (heap s)) (mem s) (mem s')" by (metis agree_on_trans)
  have top: "unat b + (n + 8) \<le> 2 ^ 47" using live_blockD(1) [OF b(3), of b] b(2) by simp
  have "c \<in> region b (n + 8) \<and> c \<notin> region b 8" if "c \<in> region (b + 8) n" for c
  proof -
    have "unat (b + 8) = unat b + 8" using top by (subst unat_add_small) simp_all
    with that top show ?thesis by (simp add: region_iff)
  qed
  with t b have "\<forall>c \<in> region (b + 8) n. mem s' c = Some 0" by simp
  moreover have "ptauth_calloc cfg L item sizeBlock s = Inr (q, s')"
    using t(1) tbi by (simp add: ptauth_calloc_def cc)
  ultimately show ?thesis using t b agree nle q_def unfolding signed_object_def by auto
qed

lemma free_spec:
  assumes ok: "heap_ok ok s" and obj: "signed_object cfg live s q b n i"
  shows "\<exists>s'. ptauth_free cfg L q s = Inr ((), s') \<and> heap_ok ok s' \<and>
    live (heap s') = (live (heap s))(b := None) \<and>
    agree_on ((live (heap s))(b := None)) (mem s) (mem s')"
proof -
  have b: "live (heap s) b = Some (n + 8)" "load64 (mem s) b = Some i" "q = pacia cfg (b + 8) i"
    using obj by (simp_all add: signed_object_def)
  have top: "unat b + 8 \<le> 2 ^ 47" using live_blockD(1) [OF ok b(1)] by simp
  have "unat (b + 8) = unat b + 8" using top by (subst unat_add_small) simp_all
  then have nz: "b + 8 \<noteq> 0" by (metis add_is_0 unat_0 zero_neq_numeral)
  have q0: "q \<noteq> 0"
    using nz xpac_header(2) [OF top] b(3) by (metis xpac_pacia xpac_canonical canonical_0)
  obtain m1 where m1: "store64 (mem s) b 2 = Some m1" "ok (m1, heap s)"
      "agree_on ((live (heap s))(b := None)) (mem s) m1"
    using header_store [OF ok b(1), of 2] by auto
  obtain m2 h2 where fr: "l_free L b (m1, heap s) = Inr (m2, h2)" "ok (m2, h2)"
      "live h2 = (live (heap s))(b := None)" "agree_on ((live (heap s))(b := None)) m1 m2"
    using free_law [OF m1(2) b(1)] by blast
  have "autia cfg q i (CHR ''F'') = b + 8"
    using xpac_header(2) [OF top] b(3) by (simp add: autia_eq signature_pacia expected_signature_pacia)
  moreover have "(b + 8) AND NOT (MASKLOWBIT cfg) = 0"
    using xpac_header(2) [OF top] canonical_high_part by blast
  ultimately have "ptauth_free cfg L q s = Inr ((), s\<lparr>mem := m2, heap := h2\<rparr>)"
    using q0 b m1(1) fr(1) xpac_header(1) [OF top, of cfg i]
    by (simp add: ptauth_free_def strip_is_xpac read_meta_id_def write_meta_id_def metadata_id_offset_def
        read_ulong_def write_ulong_def call_free_def Let_def)
  then show ?thesis
    using fr m1(3) by (auto intro: agree_on_trans)
qed

lemma realloc_spec:
  assumes ok: "heap_ok ok s" and tbi: "checkTBI L" and obj: "signed_object cfg live s q b n i"
    and sz: "8 \<le> unat sz" and call: "l_realloc L b sz (mem s, heap s) = Inr (p, m, h)" and p0: "p \<noteq> 0"
  shows "\<exists>q' s' i'. ptauth_realloc cfg L q sz s = Inr (q', s') \<and>
    signed_object cfg live s' q' p (unat sz - 8) i' \<and>
    (if p = b then q' = q \<and> i' = i else live (heap s) p = None \<and> i' = fresh_id L (clock s)) \<and>
    live (heap s') = (live (heap s))(b := None, p \<mapsto> unat sz) \<and> heap_ok ok s' \<and>
    agree_on ((live (heap s))(b := None)) (mem s) (mem s') \<and>
    (\<forall>k < min n (unat sz - 8). mem s' (p + 8 + of_nat k) = mem s (b + 8 + of_nat k))"
proof -
  have b: "live (heap s) b = Some (n + 8)" "load64 (mem s) b = Some i" "q = pacia cfg (b + 8) i"
    using obj by (simp_all add: signed_object_def)
  have top: "unat b + 8 \<le> 2 ^ 47" using live_blockD(1) [OF ok b(1)] by simp
  have strip: "xpac cfg q - 8 = b" using xpac_header(2) [OF top, of] b(3) by simp
  have re: "ok (m, h)" "agree_on ((live (heap s))(b := None)) (mem s) m"
      and res: "p = b \<or> live (heap s) p = None" "live h = (live (heap s))(b := None, p \<mapsto> unat sz)"
        "\<forall>k < min (n + 8) (unat sz). m (p + of_nat k) = mem s (b + of_nat k)"
  proof -
    have "sz \<noteq> 0" using sz by (metis le_zero_eq unat_0 zero_neq_numeral)
    then show "ok (m, h)" "agree_on ((live (heap s))(b := None)) (mem s) m" "p = b \<or> live (heap s) p = None"
        "live h = (live (heap s))(b := None, p \<mapsto> unat sz)"
        "\<forall>k < min (n + 8) (unat sz). m (p + of_nat k) = mem s (b + of_nat k)"
      using realloc_law [OF ok b(1), of sz] call p0 by auto
  qed
  let ?s = "s\<lparr>mem := m, heap := h\<rparr>"
  have data: "m (p + 8 + of_nat k) = mem s (b + 8 + of_nat k)" if "k < min n (unat sz - 8)" for k
    using res(3) that spec [of "\<lambda>k. k < min (n + 8) (unat sz) \<longrightarrow> m (p + of_nat k) = mem s (b + of_nat k)" "8 + k"]
    by (auto simp: ac_simps)
  show ?thesis
  proof (cases "p = b")
    case True
    then have fin: "ptauth_realloc cfg L q sz s = Inr (q, ?s)"
      using call strip tbi by (simp add: ptauth_realloc_def call_realloc_def strip_is_xpac Let_def)
    have "load64 m b = load64 (mem s) b"
      using res True sz by (intro load64_cong) (auto simp: region_word_iff)
    then show ?thesis
      using fin True re res b sz data
      by (intro exI [of _ q] exI [of _ ?s] exI [of _ i]) (auto simp: signed_object_def)
  next
    case False
    then have p: "live (heap s) p = None" using res(1) by simp
    have hp: "live (heap ?s) p = Some (unat sz)" using res(2) by simp
    let ?q = "pacia cfg (p + 8) (fresh_id L (clock s))"
    obtain s' where t: "then_do (initMD L p (ucast sz) ?s) (\<lambda>(_, s).
          then_do (read_meta_id p s) (\<lambda>(ident, s). Inr (pacia cfg (p + 8) ident, s))) = Inr (?q, s')"
        "load64 (mem s') p = Some (fresh_id L (clock s))"
        "heap_ok ok s'" "heap s' = h" "agree_on ((live h)(p := None)) m (mem s')"
        "\<forall>c. c \<notin> region p 8 \<longrightarrow> mem s' c = m c"
      using tag_fresh_block [OF _ hp sz, of "ucast sz" cfg] re(1) by auto
    have "(live h)(p := None) = (live (heap s))(b := None)" using p res(2) by (auto simp: fun_eq_iff)
    then have agree: "agree_on ((live (heap s))(b := None)) (mem s) (mem s')"
      using t(5) re(2) by (metis agree_on_trans)
    have keep: "mem s' (p + 8 + of_nat k) = m (p + 8 + of_nat k)" if "k < unat sz - 8" for k
    proof -
      have "unat p + unat sz \<le> 2 ^ 64" using live_blockD(1) [OF re(1)] hp by fastforce
      then have "p + 8 + of_nat k \<notin> region p 8"
        using unat_add_of_nat [of p "unat sz" "8 + k"] that sz by (simp add: region_iff ac_simps)
      with t(6) show ?thesis by blast
    qed
    have "ptauth_realloc cfg L q sz s = Inr (?q, s')"
      using t(1) call strip False tbi by (simp add: ptauth_realloc_def call_realloc_def strip_is_xpac Let_def)
    then show ?thesis
      using False p t agree sz keep data res(2)
      by (intro exI [of _ ?q] exI [of _ s'] exI [of _ "fresh_id L (clock s)"]) (auto simp: signed_object_def)
  qed
qed

end

section \<open>free and realloc, whatever the allocator\<close>

text \<open>
  \<open>__autia\<close> returns \<open>NULL\<close> or a stripped pointer, neither of which has a bit above bit 47:
  the test for a violation never succeeds, and \<open>free\<close> is called with \<open>NULL - 8\<close> instead.
\<close>

lemma autia_high_part [pac_simps]: "autia cfg p ident t AND NOT (MASKLOWBIT cfg) = 0"
  using canonical_high_part [of "xpac cfg p" cfg] by (simp add: autia_eq)

lemma ptauth_free_eq:
  "ptauth_free cfg L q s =
     (if q = 0 then Inr ((), s)
      else case load64 (mem s) (xpac cfg (q - 8)) of
        None \<Rightarrow> Inl (Segv, s)
      | Some i \<Rightarrow>
          (case store64 (mem s) (xpac cfg (q - 8)) 2 of
             None \<Rightarrow> Inl (Segv, s)
           | Some m \<Rightarrow> call_free L (autia cfg q i (CHR ''F'') - 8) (s\<lparr>mem := m\<rparr>)))"
  by (simp add: ptauth_free_def strip_is_xpac autia_high_part read_meta_id_def write_meta_id_def
      metadata_id_offset_def read_ulong_def write_ulong_def Let_def split: option.split)

end
