(* ===== verification/PT_Checks.thy ===== *)
theory PT_Checks imports PT_Pacinst PT_Memory begin

text \<open>
  The checking half of \<open>ptauth-rtlib.c\<close>: \<open>validatePointer\<close>, \<open>backward_search\<close> and the
  checks the pass inserts.  They read memory and write nothing, so they take the memory and
  return a value or a stop.  The loop of \<open>backward_search\<close> may run forever: the result type is
  an option, \<open>None\<close> where the call does not return.
\<close>

section \<open>The functions\<close>

text \<open>Storing a \<open>long\<close> into an \<open>int\<close> keeps the low 32 bits.\<close>

definition to_int32 :: "int \<Rightarrow> int" where
  "to_int32 z = sint (of_int z :: u32)"

definition INT_MAX :: int where "INT_MAX = 2147483647"
definition LONG_MAX :: u64 where "LONG_MAX = 9223372036854775807"

text \<open>
  One unfolding is one round of the \<open>for\<close> loop from the test of its condition; \<open>i\<close> is
  compared as an \<open>unsigned long\<close>, the remainder is C's (the sign of the dividend), and the
  increment \<open>i = i + 1\<close> overflows at \<open>INT_MAX\<close>.  The result is \<open>Some p\<close> where the loop
  returns \<open>p\<close>, \<open>None\<close> where it runs to its end.
\<close>

partial_function (option) bs_loop ::
  "config \<Rightarrow> memory \<Rightarrow> addr \<Rightarrow> addr \<Rightarrow> char \<Rightarrow> u64 \<Rightarrow> int \<Rightarrow> (stop + addr option) option" where
  "bs_loop cfg m ptr xpacedPtr type threshold i =
     (if \<not> (of_int i :: u64) < threshold then Some (Inr None)
      else if (sint xpacedPtr - i) smod 16 \<noteq> 0 then
        (let i = to_int32 (i + ((sint xpacedPtr - i) smod 16 - 1))
         in if i = INT_MAX then Some (Inl Undefined)
            else bs_loop cfg m ptr xpacedPtr type threshold (i + 1))
      else
        (let tempPtr = ptr - of_int i + 8;
             meta = xpacedPtr - of_int i
         in case load64 m meta of
              None \<Rightarrow> Some (Inl Segv)
            | Some ident \<Rightarrow>
                (let p = autia cfg tempPtr ident type
                 in if ident \<noteq> 0 \<and> p \<noteq> 0 then Some (Inr (Some xpacedPtr))
                    else if i = INT_MAX then Some (Inl Undefined)
                    else bs_loop cfg m ptr xpacedPtr type threshold (i + 1))))"

definition backward_search :: "config \<Rightarrow> memory \<Rightarrow> addr \<Rightarrow> addr \<Rightarrow> char \<Rightarrow> (stop + addr) option" where
  "backward_search cfg m ptr meta type =
     (let xpacedPtr = xpac cfg ptr;
          threshold = LONG_MAX;
          threshold = (if BKTHREASHOLDENABLED cfg then 1024 else threshold)
      in map_option (\<lambda>r. then_do r (\<lambda>found.
           case found of
             Some p \<Rightarrow> Inr p
           | None \<Rightarrow> if ENABLELOG cfg then Inr ptr else Inl Abort))
         (bs_loop cfg m ptr xpacedPtr type threshold 1))"

definition noCheck :: "config \<Rightarrow> addr \<Rightarrow> addr" where
  "noCheck cfg ptr = (if TOPBYTEIGNORE cfg then ptr else xpac cfg ptr)"

definition validatePointer :: "config \<Rightarrow> memory \<Rightarrow> addr \<Rightarrow> char \<Rightarrow> (stop + addr) option" where
  "validatePointer cfg m ptr type =
     (if ptr = 0 then Some (Inr ptr)
      else
        let meta = ptr - 8;
            meta = meta AND NOT (MASKHIGHBIT cfg);
            xpacedPtr = xpac cfg ptr
        in case load64 m meta of
             None \<Rightarrow> Some (Inl Segv)
           | Some ident \<Rightarrow>
               if ident \<noteq> 0 \<and> autia cfg ptr ident type = xpacedPtr
               then Some (Inr (if TOPBYTEIGNORE cfg then ptr else xpacedPtr))
               else map_option (\<lambda>r. then_do r (\<lambda>q. Inr (if TOPBYTEIGNORE cfg then ptr else q)))
                      (backward_search cfg m ptr meta type))"

definition GEPCheck :: "config \<Rightarrow> memory \<Rightarrow> addr \<Rightarrow> (stop + addr) option" where
  "GEPCheck cfg m ptr =
     (let signature = ptr AND NOT (MASKLOWBIT cfg)
      in if signature \<noteq> 0
         then map_option (\<lambda>r. then_do r (\<lambda>q. Inr (if TOPBYTEIGNORE cfg then ptr else q)))
                (validatePointer cfg m ptr (CHR ''L''))
         else Some (Inr ptr))"

definition nestedGEPCheck :: "config \<Rightarrow> memory \<Rightarrow> addr \<Rightarrow> (stop + addr) option" where
  "nestedGEPCheck cfg m ptr =
     (let signature = ptr AND NOT (MASKLOWBIT cfg)
      in if signature \<noteq> 0
         then map_option (\<lambda>r. then_do r (\<lambda>q. Inr (if TOPBYTEIGNORE cfg then ptr else q)))
                (validatePointer cfg m ptr (CHR ''L''))
         else Some (Inr ptr))"

definition loadCheck :: "config \<Rightarrow> memory \<Rightarrow> addr \<Rightarrow> (stop + addr) option" where
  "loadCheck cfg m ptr =
     (let signature = ptr AND NOT (MASKLOWBIT cfg)
      in if signature \<noteq> 0
         then map_option (\<lambda>r. then_do r (\<lambda>q. Inr (if TOPBYTEIGNORE cfg then ptr else q)))
                (validatePointer cfg m ptr (CHR ''L''))
         else Some (Inr ptr))"

definition storeCheck :: "config \<Rightarrow> memory \<Rightarrow> addr \<Rightarrow> (stop + addr) option" where
  "storeCheck cfg m ptr =
     (let signature = ptr AND NOT (MASKLOWBIT cfg)
      in if signature \<noteq> 0 then validatePointer cfg m ptr (CHR ''S'') else Some (Inr ptr))"

section \<open>The search as a scan of a window\<close>

text \<open>
  What the loop visits: the offsets that lead to a multiple of 16 below the pointer, nearest
  first, up to 1023 bytes away and never past address 0.
\<close>

definition bs_offsets :: "int \<Rightarrow> int \<Rightarrow> int list" where
  "bs_offsets x i = filter (\<lambda>j. (x - j) mod 16 = 0) [i..min 1023 x]"

text \<open>What a visit decides: the header at the offset is readable and vouches for the pointer.\<close>

definition vouches :: "config \<Rightarrow> addr \<Rightarrow> addr \<Rightarrow> u64 \<Rightarrow> bool" where
  "vouches cfg ptr meta ident \<longleftrightarrow> ident \<noteq> 0 \<and> meta + 8 \<noteq> 0 \<and>
     signature_of cfg ptr = expected_signature cfg (meta + 8) ident"

fun bs_scan :: "config \<Rightarrow> memory \<Rightarrow> addr \<Rightarrow> int list \<Rightarrow> (stop + addr option)" where
  "bs_scan cfg m ptr [] = Inr None"
| "bs_scan cfg m ptr (i # is) =
     (case load64 m (xpac cfg ptr - of_int i) of
        None \<Rightarrow> Inl Segv
      | Some ident \<Rightarrow>
          if vouches cfg ptr (xpac cfg ptr - of_int i) ident then Inr (Some (xpac cfg ptr))
          else bs_scan cfg m ptr is)"

lemma canonical_uint: "canonical p \<longleftrightarrow> uint p < 2 ^ 48"
  unfolding canonical_def by (rule unat_less_iff_uint)

lemma sint_canonical: "canonical p \<Longrightarrow> sint p = uint p \<and> uint p < 2 ^ 48"
proof -
  assume "canonical p"
  then have "uint p < 2 ^ 48" by (simp add: canonical_uint)
  moreover have "- (2 ^ 63) \<le> uint p" using order_trans [OF _ uint_ge_0, of "- (2 ^ 63)" p] by simp
  moreover from calculation have "signed_take_bit 63 (uint p) = uint p"
    by (intro signed_take_bit_int_eq_self) simp_all
  ultimately show ?thesis by (simp add: sint_uint)
qed

lemma to_int32_small: "- 2147483648 \<le> z \<Longrightarrow> z < 2147483648 \<Longrightarrow> to_int32 z = z"
  by (simp add: to_int32_def signed_of_int signed_take_bit_int_eq_self)

lemma smod_16: "0 \<le> a \<Longrightarrow> (a :: int) smod 16 = a mod 16"
  by (cases "a = 0") (simp_all add: signed_modulo_int_def)

lemma aligned_room: "(u :: int) < 2 ^ 48 \<Longrightarrow> u mod 16 = 0 \<Longrightarrow> u + 8 < 2 ^ 48"
proof -
  assume u: "u < 2 ^ 48" "u mod 16 = 0"
  then have e: "u = 16 * (u div 16)" by (simp add: minus_mod_eq_mult_div [symmetric])
  with u(1) have "u div 16 < 2 ^ 44" by simp
  with e show ?thesis by simp
qed

lemma uint_mod_16: "uint (c :: addr) mod 16 = 0 \<longleftrightarrow> unat c mod 16 = 0"
proof -
  have "uint c mod 16 = int (unat c mod 16)" by (simp add: zmod_int)
  then show ?thesis by simp
qed

text \<open>On an aligned header below the pointer, authenticating the shifted pointer is \<open>vouches\<close>.\<close>

lemma autia_candidate:
  assumes i: "1 \<le> i" "i \<le> uint (xpac cfg ptr)" and al: "(uint (xpac cfg ptr) - i) mod 16 = 0"
  shows "ident \<noteq> 0 \<and> autia cfg (ptr - of_int i + 8) ident t \<noteq> 0 \<longleftrightarrow>
    vouches cfg ptr (xpac cfg ptr - of_int i) ident"
proof -
  let ?h = "xpac cfg ptr - of_int i"
  have h: "uint ?h = uint (xpac cfg ptr) - i" using i by (intro uint_diff_of_int) simp_all
  have "uint ?h < 2 ^ 48" "uint ?h mod 16 = 0"
    using h i al canonical_xpac [of cfg ptr] by (auto simp: canonical_uint)
  then have lt: "uint ?h + 8 < 2 ^ 48" by (rule aligned_room)
  have "uint (?h + 8) = uint ?h + 8"
    using lt by (simp add: uint_word_ariths take_bit_int_eq_self)
  with lt have can: "canonical (?h + 8)" by (simp add: canonical_uint)
  have e: "ptr - of_int i + 8 = ptr + (8 - of_int i)" "?h + 8 = xpac cfg ptr + (8 - of_int i)"
    by simp_all
  have "signature_of cfg (ptr - of_int i + 8) = signature_of cfg ptr"
      "xpac cfg (ptr - of_int i + 8) = ?h + 8"
    using signature_of_add [of cfg ptr "8 - of_int i"] can unfolding e by simp_all
  moreover from this(2) have "expected_signature cfg (ptr - of_int i + 8) ident = expected_signature cfg (?h + 8) ident"
    by (metis expected_signature_xpac)
  ultimately show ?thesis by (auto simp: autia_eq vouches_def)
qed

lemma mod_16_between:
  "(x - i) mod 16 = (r :: int) \<Longrightarrow> 0 \<le> k \<Longrightarrow> k < r \<Longrightarrow> (x - (i + k)) mod 16 \<noteq> 0"
proof -
  assume r: "(x - i) mod 16 = r" "0 \<le> k" "k < r"
  have "(x - (i + k)) mod 16 = (r - k) mod 16"
    using mod_diff_left_eq [of "x - i" 16 k] r(1) by (simp add: algebra_simps)
  moreover have "r < 16" using r(1) by (metis pos_mod_bound zero_less_numeral)
  ultimately show ?thesis using r by simp
qed

lemma filter_upto_skip: "\<not> P i \<Longrightarrow> filter P [i..n] = filter P [i + 1..n]"
  by (cases "i \<le> n") (simp_all add: upto_rec1)

lemma bs_offsets_skip:
  assumes "1 \<le> i" "i \<le> x" "(x - i) mod 16 \<noteq> 0"
  shows "bs_offsets x i = bs_offsets x (i + (x - i) mod 16)"
proof -
  let ?r = "(x - i) mod 16"
  have "i + ?r \<le> x" using assms by (smt (verit) zmod_le_nonneg_dividend)
  have skip: "bs_offsets x (i + k) = bs_offsets x (i + ?r)" if "0 \<le> k" "k \<le> ?r" for k
    using that
  proof (induction "nat (?r - k)" arbitrary: k)
    case 0
    then show ?case by simp
  next
    case (Suc d)
    then have "0 \<le> k" "k < ?r" by simp_all
    then have "(x - (i + k)) mod 16 \<noteq> 0" by (rule mod_16_between [OF refl])
    then have "bs_offsets x (i + k) = bs_offsets x (i + (k + 1))"
      unfolding bs_offsets_def using filter_upto_skip [of "\<lambda>j. (x - j) mod 16 = 0" "i + k"]
      by (simp only: add.assoc) blast
    also have "\<dots> = bs_offsets x (i + ?r)"
      using Suc \<open>k < ?r\<close> by (intro Suc.hyps(1)) simp_all
    finally show ?case .
  qed
  from skip [of 0] show ?thesis by simp
qed

lemma bs_offsets_hit:
  "1 \<le> i \<Longrightarrow> i \<le> 1023 \<Longrightarrow> i \<le> x \<Longrightarrow> (x - i) mod 16 = 0 \<Longrightarrow> bs_offsets x i = i # bs_offsets x (i + 1)"
  unfolding bs_offsets_def by (subst upto.simps) auto

text \<open>
  The loop, started at an offset inside the window, returns what the scan of the rest of the
  window decides.  The bound 1039 covers the jump past the end of the window; below 1024 bytes
  of address space the scan ends at address 0, which must not be mapped.
\<close>

lemma bs_loop_scan:
  assumes "1 \<le> i" "i \<le> 1039" and "i \<le> uint (xpac cfg ptr) \<or> 1023 < uint (xpac cfg ptr)"
    and "uint (xpac cfg ptr) \<le> 1023 \<Longrightarrow> load64 m 0 = None"
  shows "bs_loop cfg m ptr (xpac cfg ptr) t 1024 i =
    Some (bs_scan cfg m ptr (bs_offsets (uint (xpac cfg ptr)) i))"
  using assms(1-3)
proof (induction "nat (1039 - i)" arbitrary: i rule: less_induct)
  case less
  let ?p = "xpac cfg ptr"
  let ?x = "uint ?p"
  have sx: "sint ?p = ?x" using sint_canonical [of ?p] by simp
  have cond: "(of_int i :: u64) < 1024 \<longleftrightarrow> i < 1024"
    using less.prems by (simp add: word_less_def unsigned_of_int take_bit_int_eq_self)
  show ?case
  proof (cases "i < 1024")
    case False
    then have "bs_offsets ?x i = []" by (simp add: bs_offsets_def)
    with False cond show ?thesis by (subst bs_loop.simps) simp
  next
    case True
    then have ix: "i \<le> ?x" using less.prems by linarith
    then have rem: "(sint ?p - i) smod 16 = (?x - i) mod 16" by (simp add: sx smod_16)
    have r: "0 \<le> (?x - i) mod 16" "(?x - i) mod 16 \<le> ?x - i" "(?x - i) mod 16 < 16"
      using ix zmod_le_nonneg_dividend by auto
    show ?thesis
    proof (cases "(?x - i) mod 16 = 0")
      case False
      let ?i = "i + (?x - i) mod 16"
      have to: "to_int32 (i + ((?x - i) mod 16 - 1)) = ?i - 1"
        using less.prems True r by (subst to_int32_small) linarith+
      have "?i - 1 \<noteq> INT_MAX" using True r by (simp add: INT_MAX_def)
      then have "bs_loop cfg m ptr ?p t 1024 i = bs_loop cfg m ptr ?p t 1024 ?i"
        using True cond False by (subst bs_loop.simps) (simp add: rem to Let_def)
      also have "\<dots> = Some (bs_scan cfg m ptr (bs_offsets ?x ?i))"
        using less.prems True False r by (intro less.hyps) linarith+
      finally show ?thesis
        using bs_offsets_skip [of i ?x] less.prems ix False by simp
    next
      case hit: True
      let ?h = "?p - of_int i"
      have offs: "bs_offsets ?x i = i # bs_offsets ?x (i + 1)"
        using less.prems True ix hit by (intro bs_offsets_hit) simp_all
      show ?thesis
      proof (cases "load64 m ?h")
        case None
        with True cond hit show ?thesis
          by (subst bs_loop.simps) (simp add: rem offs)
      next
        case (Some ident)
        have v: "ident \<noteq> 0 \<and> autia cfg (ptr - of_int i + 8) ident t \<noteq> 0 \<longleftrightarrow> vouches cfg ptr ?h ident"
          using less.prems ix hit by (intro autia_candidate) simp_all
        show ?thesis
        proof (cases "vouches cfg ptr ?h ident")
          case True
          with \<open>i < 1024\<close> cond hit Some v show ?thesis
            by (subst bs_loop.simps) (simp add: rem offs Let_def)
        next
          case False
          have "i \<noteq> ?x \<or> 1023 < ?x"
            using Some assms(4) by (cases "i = ?x"; cases "?x \<le> 1023") auto
          then have "bs_loop cfg m ptr ?p t 1024 (i + 1) = Some (bs_scan cfg m ptr (bs_offsets ?x (i + 1)))"
            using less.prems ix \<open>i < 1024\<close> by (intro less.hyps) linarith+
          moreover have "i \<noteq> INT_MAX" using \<open>i < 1024\<close> by (simp add: INT_MAX_def)
          ultimately show ?thesis
            using False \<open>i < 1024\<close> cond hit Some v by (subst bs_loop.simps) (auto simp: rem offs Let_def)
        qed
      qed
    qed
  qed
qed

text \<open>A pointer whose stripped part is \<open>NULL\<close>: the first jump goes back to offset 0.\<close>

lemma bs_loop_null:
  assumes "xpac cfg ptr = 0" and "load64 m 0 = None"
  shows "bs_loop cfg m ptr (xpac cfg ptr) t 1024 1 = Some (Inl Segv)"
proof -
  have jump: "to_int32 (- 1) = - 1" by (rule to_int32_small) simp_all
  have rem: "(1 :: int) smod 16 = 1" by (simp add: signed_modulo_int_def)
  have "bs_loop cfg m ptr 0 t 1024 0 = Some (Inl Segv)"
    using assms(2) by (subst bs_loop.simps) (simp add: signed_modulo_int_def)
  then have "bs_loop cfg m ptr 0 t 1024 1 = Some (Inl Segv)"
    by (subst bs_loop.simps) (simp add: rem jump INT_MAX_def Let_def)
  then show ?thesis using assms(1) by simp
qed

text \<open>What the search makes of the scan's result.\<close>

definition search_result :: "config \<Rightarrow> addr \<Rightarrow> stop + addr option \<Rightarrow> stop + addr" where
  "search_result cfg ptr r = then_do r (\<lambda>found.
     case found of Some p \<Rightarrow> Inr p | None \<Rightarrow> if ENABLELOG cfg then Inr ptr else Inl Abort)"

abbreviation bs_window :: "config \<Rightarrow> addr \<Rightarrow> int list" where
  "bs_window cfg ptr \<equiv> bs_offsets (uint (xpac cfg ptr)) 1"

lemma backward_search_scan:
  assumes "BKTHREASHOLDENABLED cfg" and "xpac cfg ptr \<noteq> 0" and "load64 m 0 = None"
  shows "backward_search cfg m ptr meta t = Some (search_result cfg ptr (bs_scan cfg m ptr (bs_window cfg ptr)))"
proof -
  have "0 < uint (xpac cfg ptr)" using assms(2) by (simp add: uint_0_iff order_le_neq_trans)
  then have "bs_loop cfg m ptr (xpac cfg ptr) t 1024 1 = Some (bs_scan cfg m ptr (bs_window cfg ptr))"
    using assms(3) by (intro bs_loop_scan) linarith+
  then show ?thesis using assms(1) by (simp add: backward_search_def search_result_def)
qed

text \<open>What the loop finds below a threshold it finds below every larger one.\<close>

lemma bs_loop_threshold:
  assumes "bs_loop cfg m ptr x t T i = Some (Inr (Some p))" "T \<le> T'"
  shows "bs_loop cfg m ptr x t T' i = Some (Inr (Some p))"
proof -
  let ?P = "\<lambda>cfg m ptr x t T i r. \<forall>T' p. r = Inr (Some p) \<longrightarrow> T \<le> T' \<longrightarrow> bs_loop cfg m ptr x t T' i = Some r"
  have "?P cfg m ptr x t T i (Inr (Some p))"
  proof (rule bs_loop.raw_induct [where P = ?P, OF _ assms(1)])
    fix loop cfg m ptr x t T i r
    assume IH: "\<And>cfg m ptr x t T i r. loop cfg m ptr x t T i = Some r \<Longrightarrow> ?P cfg m ptr x t T i r"
      and eq: "(if \<not> of_int i < T then Some (Inr None)
        else if (sint x - i) smod 16 \<noteq> 0
             then let i = to_int32 (i + ((sint x - i) smod 16 - 1))
                  in if i = INT_MAX then Some (Inl Undefined) else loop cfg m ptr x t T (i + 1)
             else let tempPtr = ptr - of_int i + 8; meta = x - of_int i
                  in case load64 m meta of None \<Rightarrow> Some (Inl Segv)
                     | Some ident \<Rightarrow>
                         let p = autia cfg tempPtr ident t
                         in if ident \<noteq> 0 \<and> p \<noteq> 0 then Some (Inr (Some x))
                            else if i = INT_MAX then Some (Inl Undefined)
                                 else loop cfg m ptr x t T (i + 1)) = Some r"
    show "?P cfg m ptr x t T i r"
    proof (intro allI impI)
      fix T' p assume r: "r = Inr (Some p)" and T: "T \<le> T'"
      have i: "(of_int i :: u64) < T'" using eq r T by (auto split: if_splits)
      have go: "loop cfg m ptr x t T k = Some (Inr (Some p)) \<Longrightarrow> bs_loop cfg m ptr x t T' k = Some (Inr (Some p))" for k
        using IH T by blast
      show "bs_loop cfg m ptr x t T' i = Some r"
        using eq i unfolding r by (subst bs_loop.simps) (auto simp: Let_def intro: go split: if_splits option.splits)
    qed
  qed
  then show ?thesis using assms(2) by blast
qed

lemma backward_search_found:
  assumes "xpac cfg ptr \<noteq> 0" and "load64 m 0 = None" and "bs_scan cfg m ptr (bs_window cfg ptr) = Inr (Some p)"
  shows "backward_search cfg m ptr meta t = Some (Inr p)"
proof -
  have "0 < uint (xpac cfg ptr)" using assms(1) by (simp add: uint_0_iff order_le_neq_trans)
  then have "bs_loop cfg m ptr (xpac cfg ptr) t 1024 1 = Some (Inr (Some p))"
    using assms(2,3) by (subst bs_loop_scan) (linarith | simp)+
  moreover from this have "bs_loop cfg m ptr (xpac cfg ptr) t LONG_MAX 1 = Some (Inr (Some p))"
    by (rule bs_loop_threshold) (simp add: LONG_MAX_def)
  ultimately show ?thesis by (simp add: backward_search_def)
qed

lemma backward_search_null:
  assumes "BKTHREASHOLDENABLED cfg" and "xpac cfg ptr = 0" and "load64 m 0 = None"
  shows "backward_search cfg m ptr meta t = Some (Inl Segv)"
  using bs_loop_null [OF assms(2,3), of t] assms(1) by (simp add: backward_search_def)

lemma bs_scan_cases: "bs_scan cfg m ptr js \<in> {Inl Segv, Inr None, Inr (Some (xpac cfg ptr))}"
  by (induction js) (auto split: option.splits)

lemma bs_scan_found:
  assumes "\<And>j. j \<in> set js \<Longrightarrow> load64 m (xpac cfg ptr - of_int j) \<noteq> None"
    and "load64 m (xpac cfg ptr - of_int k) = Some ident" and "vouches cfg ptr (xpac cfg ptr - of_int k) ident"
  shows "bs_scan cfg m ptr (js @ k # ks) = Inr (Some (xpac cfg ptr))"
  using assms by (induction js) (auto split: option.splits)

lemma bs_scan_None_iff:
  "bs_scan cfg m ptr js = Inr None \<longleftrightarrow>
   (\<forall>j \<in> set js. \<exists>i. load64 m (xpac cfg ptr - of_int j) = Some i \<and> \<not> vouches cfg ptr (xpac cfg ptr - of_int j) i)"
  by (induction js) (auto split: option.splits)

section \<open>What the checks return\<close>

lemma validatePointer_cases:
  assumes "BKTHREASHOLDENABLED cfg" and "load64 m 0 = None"
  shows "validatePointer cfg m ptr t \<in>
    {Some (Inr ptr), Some (Inr (xpac cfg ptr)), Some (Inl Segv), Some (Inl Abort)}"
proof (cases "xpac cfg ptr = 0")
  case True
  with backward_search_null [OF assms(1) True assms(2)] show ?thesis
    by (auto simp: validatePointer_def Let_def split: option.splits)
next
  case False
  then show ?thesis
    using backward_search_scan [OF assms(1) False assms(2)] bs_scan_cases [of cfg m ptr "bs_window cfg ptr"]
    by (auto simp: validatePointer_def Let_def search_result_def split: option.splits)
qed

text \<open>The direct test of \<open>validatePointer\<close>: the header right in front of the pointer vouches.\<close>

definition direct_ok :: "config \<Rightarrow> addr \<Rightarrow> u64 \<Rightarrow> bool" where
  "direct_ok cfg ptr ident \<longleftrightarrow> ident \<noteq> 0 \<and> (xpac cfg ptr = 0 \<or> signature_of cfg ptr = expected_signature cfg ptr ident)"

definition validated :: "config \<Rightarrow> addr \<Rightarrow> addr" where
  "validated cfg ptr = (if TOPBYTEIGNORE cfg then ptr else xpac cfg ptr)"

lemma validatePointer_eq:
  assumes "BKTHREASHOLDENABLED cfg" and "load64 m 0 = None" and "xpac cfg ptr \<noteq> 0"
  shows "validatePointer cfg m ptr t = Some
    (case load64 m (xpac cfg (ptr - 8)) of
       None \<Rightarrow> Inl Segv
     | Some ident \<Rightarrow>
         if direct_ok cfg ptr ident then Inr (validated cfg ptr)
         else case bs_scan cfg m ptr (bs_window cfg ptr) of
           Inl e \<Rightarrow> Inl e
         | Inr (Some p) \<Rightarrow> Inr (validated cfg ptr)
         | Inr None \<Rightarrow> if ENABLELOG cfg then Inr ptr else Inl Abort)"
proof -
  have "ptr \<noteq> 0" using assms(3) by auto
  then show ?thesis
    using backward_search_scan [OF assms(1,3,2)] bs_scan_cases [of cfg m ptr "bs_window cfg ptr"] assms(3)
    by (auto simp: validatePointer_def strip_is_xpac direct_ok_def validated_def search_result_def autia_eq
        split: option.splits)
qed

lemma check_functions_agree:
  "GEPCheck cfg m ptr = loadCheck cfg m ptr" "nestedGEPCheck cfg m ptr = loadCheck cfg m ptr"
  by (simp_all add: GEPCheck_def nestedGEPCheck_def loadCheck_def)

text \<open>The letter a check passes on selects debug output only.\<close>

lemma validatePointer_type:
  assumes "BKTHREASHOLDENABLED cfg" and "load64 m 0 = None"
  shows "validatePointer cfg m ptr t = validatePointer cfg m ptr t'"
proof (cases "xpac cfg ptr = 0")
  case True
  have "autia cfg ptr i t = autia cfg ptr i t'" for i by (simp add: autia_def)
  with backward_search_null [OF assms(1) True assms(2)] show ?thesis
    by (simp add: validatePointer_def Let_def split: option.split)
next
  case False
  with validatePointer_eq [OF assms False] show ?thesis by simp
qed

lemma storeCheck_loadCheck:
  assumes "BKTHREASHOLDENABLED cfg" and "load64 m 0 = None"
  shows "storeCheck cfg m ptr = loadCheck cfg m ptr"
proof -
  have type: "validatePointer cfg m ptr (CHR ''S'') = validatePointer cfg m ptr (CHR ''L'')"
    by (rule validatePointer_type [OF assms])
  show ?thesis
  proof (cases "TOPBYTEIGNORE cfg")
    case False
    have "map_option (\<lambda>r. then_do r Inr) x = x" for x :: "(stop + addr) option"
      by (cases x) (auto simp: then_do_def split: sum.split)
    with False type show ?thesis by (simp add: storeCheck_def loadCheck_def)
  next
    case True
    show ?thesis
    proof (cases "xpac cfg ptr = 0")
      case True
      with \<open>TOPBYTEIGNORE cfg\<close> backward_search_null [OF assms(1) True assms(2)] type show ?thesis
        by (auto simp: storeCheck_def loadCheck_def validatePointer_def Let_def split: option.splits)
    next
      case False
      with True validatePointer_eq [OF assms False] bs_scan_cases [of cfg m ptr "bs_window cfg ptr"] show ?thesis
        by (auto simp: storeCheck_def loadCheck_def validated_def split: option.splits)
    qed
  qed
qed

section \<open>Interior pointers of an object\<close>

text \<open>
  Memory is mapped in pages, so a 16-byte aligned word one byte of which is mapped is readable.
\<close>

definition granular :: "memory \<Rightarrow> bool" where
  "granular m \<longleftrightarrow> (\<forall>c. unat c mod 16 = 0 \<longrightarrow> (\<exists>d \<in> region c 16. d \<in> dom m) \<longrightarrow> region c 8 \<subseteq> dom m)"

lemma granularD:
  assumes "granular m" "unat c mod 16 = 0" "c \<in> dom m"
  shows "load64 m c \<noteq> None"
proof -
  have "c \<in> region c 16" by (simp add: region_def)
  with assms(3) have "\<exists>d \<in> region c 16. d \<in> dom m" by (rule bexI)
  with assms(1,2) have "region c 8 \<subseteq> dom m" unfolding granular_def by metis
  then show ?thesis by (simp add: load64_None_iff)
qed

lemma bs_offsets_split:
  assumes "1 \<le> k" "k \<le> 1023" "k \<le> x" "(x - k) mod 16 = 0"
  shows "\<exists>js ks. bs_offsets x 1 = js @ k # ks \<and> (\<forall>j \<in> set js. 1 \<le> j \<and> j < k \<and> (x - j) mod 16 = 0)"
proof -
  have "[1..min 1023 x] = [1..k - 1] @ k # [k + 1..min 1023 x]"
    using assms upto_split3 [of 1 k "min 1023 x"] by simp
  then show ?thesis
    using assms(4) unfolding bs_offsets_def
    by (intro exI [of _ "filter (\<lambda>j. (x - j) mod 16 = 0) [1..k - 1]"]
      exI [of _ "filter (\<lambda>j. (x - j) mod 16 = 0) [k + 1..min 1023 x]"]) auto
qed

lemma interior_pointer_found:
  fixes cfg :: config
  assumes b: "unat b mod 16 = 0" "b \<noteq> 0" and i: "load64 m b = Some i" "i \<noteq> 0"
    and k: "k < n" "k + 8 \<le> 1023" and top: "unat b + (n + 8) \<le> 2 ^ 47"
    and m: "region b (n + 8) \<subseteq> dom m" "granular m"
  defines "p \<equiv> pacia cfg (b + 8) i + of_nat k"
  shows "xpac cfg p = b + 8 + of_nat k"
    "bs_scan cfg m p (bs_window cfg p) = Inr (Some (xpac cfg p))"
proof -
  have bk: "unat (b + of_nat j) = unat b + j" if "j < n + 8" for j
    using top that by (intro unat_add_of_nat [of b "n + 8"]) simp_all
  have ub: "unat (b + 8 + of_nat k) = unat b + 8 + k"
    using bk [of "8 + k"] k by (simp add: ac_simps)
  have can: "canonical (b + 8)" "canonical (b + 8 + of_nat k)"
    using bk [of 8] ub top k by (simp_all add: canonical_def)
  then show x: "xpac cfg p = b + 8 + of_nat k"
    unfolding p_def by (subst signature_of_add(2)) simp_all
  have sig: "signature_of cfg p = signature_of cfg (pacia cfg (b + 8) i)"
    unfolding p_def using can by (intro signature_of_add(1)) simp
  have ux: "uint (xpac cfg p) = int (unat b + 8 + k)" by (simp only: x uint_nat ub)
  let ?x = "uint (xpac cfg p)"
  have "int (unat b) mod 16 = 0" using b(1) uint_mod_16 [of b] by simp
  then have hit: "(?x - int (8 + k)) mod 16 = 0" by (simp add: ux)
  obtain js ks where split: "bs_window cfg p = js @ int (8 + k) # ks"
      and js: "\<forall>j \<in> set js. 1 \<le> j \<and> j < int (8 + k) \<and> (?x - j) mod 16 = 0"
    using bs_offsets_split [of "int (8 + k)" ?x] k hit ux by auto
  show "bs_scan cfg m p (bs_window cfg p) = Inr (Some (xpac cfg p))"
    unfolding split
  proof (rule bs_scan_found)
    have h: "xpac cfg p - of_int (int (8 + k)) = b" by (simp add: x)
    show "load64 m (xpac cfg p - of_int (int (8 + k))) = Some i" using i h by simp
    have "unat (b + 8) \<noteq> 0" using bk [of 8] k by simp
    then have "b + 8 \<noteq> 0" by auto
    then show "vouches cfg p (xpac cfg p - of_int (int (8 + k))) i"
      using h i sig can by (simp add: vouches_def signature_pacia)
  next
    fix j assume "j \<in> set js"
    with js have j: "1 \<le> j" "j < int (8 + k)" "(?x - j) mod 16 = 0" by auto
    let ?c = "xpac cfg p - of_int j"
    have uc: "uint ?c = ?x - j" using j ux by (intro uint_diff_of_int) linarith+
    have "int (unat ?c) = uint ?c" by simp
    also have "\<dots> = int (unat b + 8 + k) - j" unfolding uc ux ..
    finally have "int (unat ?c) = int (unat b + 8 + k) - j" .
    then have nc: "unat ?c = unat b + 8 + k - nat j" using j by linarith
    have al: "unat ?c mod 16 = 0"
      using uc j(3) uint_mod_16 [of ?c] by simp
    have "?c \<in> region b (n + 8)"
    proof -
      have "1 \<le> nat j" "nat j \<le> 8 + k" using j by linarith+
      then have "unat b \<le> unat ?c \<and> unat ?c < unat b + (n + 8)" using nc k by linarith
      then show ?thesis using region_iff [of b "n + 8"] top by simp
    qed
    with m(1) have "?c \<in> dom m" by (rule subsetD)
    with m(2) al show "load64 m ?c \<noteq> None" by (intro granularD)
  qed
qed

lemma interior_nonzero:
  assumes "k < n" and "unat (b :: addr) + (n + 8) \<le> 2 ^ 47"
  shows "b + 8 + of_nat k \<noteq> 0"
proof -
  have "unat (b + of_nat (8 + k)) = unat b + (8 + k)"
    using assms by (intro unat_add_of_nat [of b "n + 8"]) simp_all
  moreover have "b + of_nat (8 + k) = b + 8 + of_nat k" by (simp add: ac_simps)
  ultimately have "unat (b + 8 + of_nat k) = unat b + (8 + k)" by argo
  then have "unat (b + 8 + of_nat k) \<noteq> 0" by linarith
  then show ?thesis by (metis unat_0)
qed

lemma interior_header_readable:
  fixes cfg :: config
  assumes "k < n" and "unat b + (n + 8) \<le> 2 ^ 47" and "region b (n + 8) \<subseteq> dom m"
  shows "load64 m (xpac cfg (pacia cfg (b + 8) i + of_nat k - 8)) \<noteq> None"
proof -
  have u: "unat (b + of_nat k) = unat b + k" "unat (b + 8) = unat b + 8"
    using assms unat_add_of_nat [of b "n + 8" k] unat_add_of_nat [of b "n + 8" 8] by simp_all
  then have can: "canonical (b + of_nat k)" "canonical (b + 8)"
    using assms(1,2) by (simp_all add: canonical_def)
  have "xpac cfg (pacia cfg (b + 8) i + (of_nat k - 8)) = b + of_nat k"
    using can xpac_add [of cfg "pacia cfg (b + 8) i" "of_nat k - 8"] by simp
  moreover have "region (b + of_nat k) 8 \<subseteq> region b (n + 8)"
    using u assms(1,2) by (auto simp: region_iff)
  ultimately show ?thesis using assms(3) by (auto simp: load64_None_iff algebra_simps)
qed

lemma loadCheck_found:
  assumes "load64 m 0 = None" and "xpac cfg p \<noteq> 0"
    and "bs_scan cfg m p (bs_window cfg p) = Inr (Some (xpac cfg p))"
    and "load64 m (xpac cfg (p - 8)) \<noteq> None"
  shows "loadCheck cfg m p = Some (Inr (validated cfg p))"
proof (cases "canonical p")
  case True
  then show ?thesis by (simp add: loadCheck_def validated_def canonical_high_part [of p cfg, symmetric])
next
  case False
  have "p \<noteq> 0" using assms(2) by auto
  then have "validatePointer cfg m p t = Some (Inr (validated cfg p))" for t
    using backward_search_found [OF assms(2,1,3)] assms(4)
    by (auto simp: validatePointer_def strip_is_xpac validated_def Let_def)
  then show ?thesis
    using False by (simp add: loadCheck_def validated_def canonical_high_part [of p cfg])
qed

text \<open>With every header of the window readable, the search finds one exactly when one vouches.\<close>

lemma bs_scan_readable:
  "\<forall>j \<in> set js. load64 m (xpac cfg ptr - of_int j) \<noteq> None \<Longrightarrow>
    bs_scan cfg m ptr js = Inr (if \<exists>j \<in> set js. \<exists>w. load64 m (xpac cfg ptr - of_int j) = Some w \<and>
      vouches cfg ptr (xpac cfg ptr - of_int j) w then Some (xpac cfg ptr) else None)"
  by (induction js) (auto split: option.splits)

text \<open>Signing leaves the word canonical exactly when the signature is zero.\<close>

lemma pacia_canonical_iff:
  assumes "canonical p"
  shows "canonical (pacia cfg p i) \<longleftrightarrow> expected_signature cfg p i = 0"
proof
  assume "canonical (pacia cfg p i)"
  then have "signature_of cfg (pacia cfg p i) = 0"
    using SHIFT_bounds(1) [of cfg]
    by (auto simp: signature_of_def canonical_iff_bits bit_eq_iff bit_drop_bit_eq)
  with assms show "expected_signature cfg p i = 0" by (simp add: signature_pacia)
next
  assume z: "expected_signature cfg p i = 0"
  then have "bit (take_bit (sig_bits cfg) (p XOR i)) k = bit (0 :: u64) k" for k
    by (simp only: expected_signature_def)
  then have "\<not> (k < sig_bits cfg \<and> bit p k \<noteq> bit i k)" for k
    by (auto simp: bit_take_bit_iff bit_xor_iff)
  with assms show "canonical (pacia cfg p i)"
    unfolding canonical_iff_bits bit_pacia by blast
qed

lemma signature_mismatch:
  assumes "canonical p" and "unat i mod 2 ^ sig_bits cfg \<noteq> unat j mod 2 ^ sig_bits cfg"
  shows "signature_of cfg (pacia cfg p i) \<noteq> expected_signature cfg (pacia cfg p i) j"
  using assms by (simp add: signature_pacia expected_signature_eq_iff)

lemma expected_signature_zero_iff:
  "expected_signature cfg p i = 0 \<longleftrightarrow> unat i mod 2 ^ sig_bits cfg = unat p mod 2 ^ sig_bits cfg"
proof -
  have "expected_signature cfg p p = 0" by (simp add: expected_signature_def)
  then have "expected_signature cfg p i = 0 \<longleftrightarrow> expected_signature cfg p i = expected_signature cfg p p"
    by simp
  then show ?thesis unfolding expected_signature_eq_iff .
qed

lemma two_mod_sig: "unat (2 :: u64) mod 2 ^ sig_bits cfg = 2"
  by (simp add: sig_bits_def)

lemma load64_zero:
  assumes "\<And>c. c \<in> region a 8 \<Longrightarrow> m c = Some 0"
  shows "load64 m a = Some 0"
proof -
  have "m (a + of_nat k) = Some 0" if "k < 8" for k
    using that by (intro assms) (auto simp: region_word_iff)
  then have "load_bytes m a 8 = Some [0, 0, 0, 0, 0, 0, 0, 0]"
    by (simp add: load_bytes_eq_Some nth_Cons split: nat.split)
  then show ?thesis by (simp add: load64_def)
qed

lemma deep_interior_unfound:
  fixes cfg :: config and i :: u64
  assumes b: "unat b mod 16 = 0" and top: "unat b + (n + 8) \<le> 2 ^ 47"
    and zero: "\<forall>c \<in> region (b + 8) n. m c = Some 0" and k: "1016 \<le> k" "k + 8 \<le> n"
  defines "p \<equiv> pacia cfg (b + 8) i + of_nat k"
  shows "load64 m (xpac cfg (p - 8)) = Some 0"
    "bs_scan cfg m p (bs_window cfg p) = Inr None"
    "canonical p \<longleftrightarrow> expected_signature cfg (b + 8) i = 0"
    "xpac cfg p = b + 8 + of_nat k"
proof -
  have u: "unat (b + of_nat j) = unat b + j" if "j < n + 8" for j
    using that top by (intro unat_add_of_nat [of b "n + 8"]) simp_all
  have u8: "unat (b + 8) = unat b + 8" using u [of 8] k by simp
  have uk: "unat (b + 8 + of_nat k) = unat b + 8 + k" using u [of "8 + k"] k by (simp add: ac_simps)
  have can: "canonical (b + 8)" "canonical (b + 8 + of_nat k)" "canonical (b + of_nat k)"
    using u8 uk u [of k] top k by (simp_all add: canonical_def)
  have word0: "load64 m a = Some 0" if "unat b + 8 \<le> unat a" "unat a + 8 \<le> unat b + 8 + n" for a
    using that zero u8 top by (intro load64_zero) (simp add: region_iff)
  show x: "xpac cfg p = b + 8 + of_nat k"
    unfolding p_def using can by (subst signature_of_add(2)) simp_all
  have "xpac cfg (p - 8) = b + of_nat k"
    using xpac_diff [of cfg p 8] x can(3) by (simp add: algebra_simps)
  then show "load64 m (xpac cfg (p - 8)) = Some 0"
    using u [of k] k by (simp add: word0)
  show "canonical p \<longleftrightarrow> expected_signature cfg (b + 8) i = 0"
  proof -
    have "canonical p \<longleftrightarrow> xpac cfg p = p" by (rule canonical_iff_xpac)
    also have "\<dots> \<longleftrightarrow> b + 8 = pacia cfg (b + 8) i" unfolding x by (simp only: p_def add_right_cancel)
    also have "\<dots> \<longleftrightarrow> canonical (pacia cfg (b + 8) i)"
      using canonical_iff_xpac [of "pacia cfg (b + 8) i" cfg] can(1) by simp
    finally show ?thesis by (simp add: pacia_canonical_iff [OF can(1)])
  qed
  have ux: "uint (xpac cfg p) = int (unat b + 8 + k)" by (simp only: x uint_nat uk)
  show "bs_scan cfg m p (bs_window cfg p) = Inr None"
    unfolding bs_scan_None_iff
  proof
    fix j assume "j \<in> set (bs_window cfg p)"
    then have j: "1 \<le> j" "j \<le> 1023" "(uint (xpac cfg p) - j) mod 16 = 0" by (auto simp: bs_offsets_def)
    let ?a = "xpac cfg p - of_int j"
    have "uint ?a = uint (xpac cfg p) - j" using j ux k by (intro uint_diff_of_int) linarith+
    then have ua: "int (unat ?a) = int (unat b + 8 + k) - j" unfolding ux by simp
    have "int (unat b) mod 16 = 0" using b uint_mod_16 [of b] by simp
    moreover have "(int (unat b + 8 + k) - j) mod 16 = 0" using j(3) unfolding ux .
    ultimately have "unat b + 16 \<le> unat ?a" using ua j k by presburger
    moreover have "unat ?a + 8 \<le> unat b + 8 + n" using ua j k by linarith
    ultimately have "load64 m ?a = Some 0" by (intro word0) simp_all
    then show "\<exists>w. load64 m ?a = Some w \<and> \<not> vouches cfg p ?a w" by (simp add: vouches_def)
  qed
qed

text \<open>The header of a signed object, seen from its pointer.\<close>

lemma freed_header:
  assumes b: "b \<noteq> 0" "unat b mod 16 = 0" "unat b + (n + 8) \<le> 2 ^ 47" and q: "q = pacia cfg (b + 8) i"
  shows "xpac cfg q = b + 8" "b + 8 \<noteq> 0" "canonical q \<longleftrightarrow> signature_of cfg q = 0" "xpac cfg (q - 8) = b"
    "8 \<in> set (bs_offsets (uint (b + 8)) 1)" "autia cfg q i t = b + 8"
    "vouches cfg q b 2 \<longleftrightarrow> unat i mod 2 ^ sig_bits cfg = 2"
proof -
  have u: "unat (b + 8) = unat b + 8" using b(3) by (subst unat_add_small) simp_all
  have can: "canonical (b + 8)" "canonical b" using b(3) u by (simp_all add: canonical_def)
  show x: "xpac cfg q = b + 8" using can(1) q by simp
  have "unat (b + 8) \<noteq> 0" unfolding u by simp
  then show nz: "b + 8 \<noteq> 0" by (simp only: unat_eq_0 not_False_eq_True)
  show "canonical q \<longleftrightarrow> signature_of cfg q = 0"
    using can(1) by (simp add: q pacia_canonical_iff signature_pacia)
  show "xpac cfg (q - 8) = b" using xpac_diff [of cfg q 8] x can(2) by simp
  have "uint (b + 8) = int (unat b) + 8" by (simp only: uint_nat u of_nat_add of_nat_numeral)
  moreover have "int (unat b) mod 16 = 0" using b(2) by presburger
  ultimately show "8 \<in> set (bs_offsets (uint (b + 8)) 1)" by (simp add: bs_offsets_def)
  show "autia cfg q i t = b + 8"
    using x can(1) by (simp add: q autia_eq signature_pacia expected_signature_pacia)
  show "vouches cfg q b 2 \<longleftrightarrow> unat i mod 2 ^ sig_bits cfg = 2"
    using can(1) nz two_mod_sig [of cfg] by (simp add: vouches_def q signature_pacia expected_signature_eq_iff)
qed

end
