(* ===== verification/PT_Sample.thy ===== *)
theory PT_Sample imports PT_Alloc PT_Checks begin

text \<open>
  A process the witnesses of the development run on: the first-fit heap, empty, at a fixed
  time, and what one \<open>ptauth_malloc(24)\<close> makes of it.
\<close>

definition sample_start :: "chunk list machine" where
  "sample_start = \<lparr>mem = Map.empty, heap = [], clock = 1700000000, rng = (0, 0), stdout = []\<rparr>"

definition sample_id :: u64 where "sample_id = fresh_id sample_libc 1700000000"

text \<open>The state after \<open>ptauth_malloc(24)\<close>, and the pointer it returns.\<close>

definition sample_heap :: "chunk list" where
  "sample_heap = [\<lparr>cap = 32, used = Some 32\<rparr>]"

definition sample_block :: memory where
  "sample_block = fill_zero 65536 32 Map.empty"

definition sample_mem :: memory where
  "sample_mem = store_bytes sample_block 65536 (bytes_of_word 8 sample_id)"

definition sample_state :: "chunk list machine" where
  "sample_state = \<lparr>mem = sample_mem, heap = sample_heap, clock = 1700000000,
     rng = (ucast (1700000000 :: u64), 2), stdout = []\<rparr>"

definition sample_ptr :: "config \<Rightarrow> addr" where
  "sample_ptr cfg = pacia cfg 65544 sample_id"


lemma sample_id_val: "sample_id = 632489530"
  by (simp add: sample_id_def fresh_id_def sample_libc_def sample_rand_def draw_id_def)

lemma sample_start_ok: "heap_ok ff_ok sample_start"
  by (simp add: sample_start_def ff_ok_def heap_base_def heap_limit_def)

lemma sample_malloc_block:
  "l_malloc sample_libc 32 (mem sample_start, heap sample_start) = (65536, sample_block, sample_heap)"
  by (simp add: sample_libc_def ff_malloc_def sample_start_def heap_base_def heap_limit_def
      chunk_cap_def sample_block_def sample_heap_def Let_def)

lemma sample_block_apply: "sample_block c = (if c \<in> region 65536 32 then Some 0 else None)"
  by (simp add: sample_block_def fill_zero_def region_iff)

lemma sample_block_dom: "dom sample_block = region 65536 32"
  by (auto simp: dom_def sample_block_apply)

lemma sample_store: "store64 sample_block 65536 sample_id = Some sample_mem"
proof -
  have "region 65536 8 \<subseteq> dom sample_block" by (simp add: sample_block_dom region_mono)
  then have "load64 sample_block 65536 \<noteq> None" by (simp add: load64_None_iff)
  then show ?thesis
    by (auto simp: store64_def load64_def sample_mem_def simp del: bytes_of_word.simps split: option.splits)
qed

lemma sample_mem_dom: "dom sample_mem = region 65536 32"
  using store64_dom [OF sample_store] sample_block_dom by simp

lemma sample_header: "load64 sample_mem 65536 = Some sample_id"
  by (rule ram.load_same [OF sample_store])

lemma sample_data: "c \<in> region 65544 24 \<Longrightarrow> sample_mem c = Some 0"
  using store64_apply [OF sample_store, of c] by (auto simp: sample_block_apply region_iff)

lemma sample_null: "load64 sample_mem 0 = None"
proof -
  have "0 \<in> region 0 8" "0 \<notin> region 65536 32" by (simp_all add: region_iff)
  then show ?thesis unfolding load64_None_iff sample_mem_dom by blast
qed

lemma granular_region:
  assumes "unat a mod 16 = 0" and "16 dvd n" and "unat a + n \<le> 2 ^ 63"
    and "dom m = region a n"
  shows "granular m"
  unfolding granular_def assms(4)
proof (intro allI impI)
  fix c :: addr
  assume al: "unat c mod 16 = 0" and "\<exists>d \<in> region c 16. d \<in> region a n"
  then obtain d where d: "unat (d - c) < 16" "unat a \<le> unat d" "unat d < unat a + n"
    using assms(3) by (auto simp: region_iff) (auto simp: region_def)
  have c: "unat c \<le> unat d \<and> unat d < unat c + 16"
  proof -
    have "16 dvd unat c" using al by auto
    then obtain k where k: "unat c = 16 * k" by blast
    have "unat c + 16 \<le> 2 ^ 64" using unat64_bound [of c] unfolding k by simp
    with d(1) region_iff [of c 16 d] show ?thesis by (auto simp: region_def)
  qed
  obtain i j k where e: "unat a = 16 * i" "n = 16 * j" "unat c = 16 * k"
    using assms(1,2) al by (auto elim!: dvdE simp: mod_eq_0_iff_dvd)
  have "unat a \<le> unat c \<and> unat c + 16 \<le> unat a + n"
  proof -
    have "16 * k < 16 * i + 16 * j" using conjunct1 [OF c] d(3) unfolding e by (rule le_less_trans)
    moreover have "16 * i < 16 * k + 16" using d(2) conjunct2 [OF c] unfolding e by (rule le_less_trans)
    ultimately have "k < i + j" "i < k + 1" by simp_all
    then show ?thesis unfolding e by simp
  qed
  then show "region c 8 \<subseteq> region a n"
    using assms(3) by (auto simp: region_iff)
qed

lemma sample_granular: "granular sample_mem"
  by (rule granular_region [OF _ _ _ sample_mem_dom]) simp_all

lemma sample_ok: "heap_ok ff_ok sample_state"
  using sample_mem_dom
  by (auto simp: sample_state_def ff_ok_def sample_heap_def heap_base_def heap_limit_def region_iff)

lemma sample_tbi: "checkTBI sample_libc"
  by (simp add: checkTBI_def sample_libc_def)

lemma sample_fresh:
  "fresh_id sample_libc (clock sample_start) = sample_id" "fresh_id sample_libc (clock sample_state) = sample_id"
  by (simp_all add: sample_start_def sample_state_def sample_id_def)

lemma sample_malloc: "ptauth_malloc cfg sample_libc 24 sample_start = Inr (sample_ptr cfg, sample_state)"
proof -
  note sample_tbi
  moreover have "call_malloc sample_libc 32 sample_start =
      (65536, sample_start\<lparr>mem := sample_block, heap := sample_heap\<rparr>)"
    using sample_malloc_block by (simp add: call_malloc_def)
  moreover note sample_fresh(1)
  ultimately show ?thesis
    using sample_store
    by (simp add: ptauth_malloc_def tag_object_eq sample_ptr_def sample_state_def sample_start_def)
qed

lemma sample_live: "ff_live sample_heap 65536 = Some 32"
  by (simp add: ff_live_def sample_heap_def heap_base_def)

lemma sample_object:
  "signed_object cfg ff_live sample_state (sample_ptr cfg) 65536 24 sample_id"
  by (simp add: signed_object_def sample_state_def sample_live sample_header sample_ptr_def)

text \<open>The state after freeing the object again.\<close>

lemma sample_free:
  "\<exists>m. ptauth_free cfg sample_libc (sample_ptr cfg) sample_state =
    Inr ((), sample_state\<lparr>mem := m, heap := [\<lparr>cap = 32, used = None\<rparr>]\<rparr>)"
proof -
  have can: "canonical (65544 :: addr)" "canonical (65536 :: addr)" by (simp_all add: canonical_def)
  have hdr: "xpac cfg (sample_ptr cfg - 8) = 65536"
    using xpac_diff [of cfg "sample_ptr cfg" 8] can by (simp add: sample_ptr_def)
  have nz: "sample_ptr cfg \<noteq> 0"
    using can(1) xpac_pacia [of cfg 65544 sample_id] by (auto simp: sample_ptr_def simp del: xpac_pacia)
  have aut: "autia cfg (sample_ptr cfg) sample_id t = 65544" for t
    using can(1) by (simp add: autia_eq sample_ptr_def signature_pacia)
  obtain m where "store64 sample_mem 65536 2 = Some m"
    using sample_header ram.store_exists by blast
  then show ?thesis
    using hdr nz aut sample_header
    by (simp add: ptauth_free_eq sample_state_def call_free_def sample_libc_def ff_free_def ff_live_def
        sample_heap_def heap_base_def)
qed

text \<open>
  A second memory, with room below the object for a whole search: 2 KiB of zeros and one header
  in the middle.
\<close>

definition wide_mem :: "u64 \<Rightarrow> memory" where
  "wide_mem i = store_bytes (fill_zero 65536 2048 Map.empty) 67072 (bytes_of_word 8 i)"

lemma wide_base: "fill_zero 65536 2048 Map.empty c = (if c \<in> region 65536 2048 then Some 0 else None)"
  by (simp add: fill_zero_def region_iff)

lemma wide_store: "store64 (fill_zero 65536 2048 Map.empty) 67072 i = Some (wide_mem i)"
proof -
  have "region 67072 8 \<subseteq> region 65536 2048" by (auto simp: region_iff)
  then have "load64 (fill_zero 65536 2048 Map.empty) 67072 \<noteq> None"
    by (auto simp: load64_None_iff dom_def wide_base)
  then show ?thesis
    by (auto simp: store64_def load64_def wide_mem_def simp del: bytes_of_word.simps split: option.splits)
qed

lemma wide_dom: "dom (wide_mem i) = region 65536 2048"
  using store64_dom [OF wide_store, of i] by (auto simp: dom_def wide_base split: if_splits)

lemma wide_header: "load64 (wide_mem i) 67072 = Some i"
  by (rule ram.load_same [OF wide_store])

lemma wide_zero:
  assumes "region c 8 \<subseteq> region 65536 2048" "region c 8 \<inter> region 67072 8 = {}"
  shows "load64 (wide_mem i) c = Some 0"
proof -
  have "wide_mem i (c + of_nat k) = Some 0" if "k < 8" for k
  proof -
    have "c + of_nat k \<in> region c 8" using that by (auto simp: region_word_iff)
    with assms store64_apply [OF wide_store, of i "c + of_nat k"] show ?thesis
      by (auto simp: wide_base)
  qed
  then have "load_bytes (wide_mem i) c 8 = Some [0, 0, 0, 0, 0, 0, 0, 0]"
    by (simp add: load_bytes_eq_Some nth_Cons split: nat.split)
  then show ?thesis by (simp add: load64_def)
qed

lemma wide_null: "load64 (wide_mem i) 0 = None"
proof -
  have "0 \<in> region 0 8" "0 \<notin> region 65536 2048" by (simp_all add: region_iff)
  then show ?thesis unfolding load64_None_iff wide_dom by blast
qed

lemma wide_granular: "granular (wide_mem i)"
  by (rule granular_region [OF _ _ _ wide_dom]) simp_all

text \<open>What a search from the object's start sees in it.\<close>

lemma wide_window:
  assumes "j \<in> set (bs_offsets 67080 1)"
  shows "load64 (wide_mem i) (67080 - of_int j) = Some (if j = 8 then i else 0)"
proof -
  have j: "1 \<le> j" "j \<le> 1023" "(67080 - j) mod 16 = 0" using assms by (auto simp: bs_offsets_def)
  show ?thesis
  proof (cases "j = 8")
    case True
    then show ?thesis by (simp add: wide_header)
  next
    case False
    let ?c = "67080 - of_int j :: addr"
    have "uint ?c = 67080 - j" using uint_diff_of_int [of j 67080] j by simp
    then have u: "unat ?c = nat (67080 - j)" by (simp only: unat_eq_nat_uint)
    have "67080 - j \<noteq> 67072" using False by simp
    moreover from j(3) obtain k where "67080 - j = 16 * k" by auto
    ultimately have "67080 - j \<le> 67056 \<or> 67088 \<le> 67080 - j" by presburger
    with j have "unat ?c + 8 \<le> 67072" "65536 \<le> unat ?c" unfolding u by linarith+
    then show ?thesis
      using False by (subst wide_zero) (auto simp: region_iff)
  qed
qed

text \<open>A third one: a live object of 2040 zero bytes.\<close>

definition big_mem :: memory where
  "big_mem = store_bytes (fill_zero 65536 2048 Map.empty) 65536 (bytes_of_word 8 sample_id)"

definition big_state :: "chunk list machine" where
  "big_state = \<lparr>mem = big_mem, heap = [\<lparr>cap = 2048, used = Some 2048\<rparr>], clock = 1700000000,
     rng = (0, 0), stdout = []\<rparr>"

lemma big_store: "store64 (fill_zero 65536 2048 Map.empty) 65536 sample_id = Some big_mem"
proof -
  have "region 65536 8 \<subseteq> region 65536 2048" by (rule region_mono) simp
  then have "load64 (fill_zero 65536 2048 Map.empty) 65536 \<noteq> None"
    by (auto simp: load64_None_iff dom_def wide_base)
  then show ?thesis
    by (auto simp: store64_def load64_def big_mem_def simp del: bytes_of_word.simps split: option.splits)
qed

lemma big_facts:
  "heap_ok ff_ok big_state" "signed_object cfg ff_live big_state (sample_ptr cfg) 65536 2040 sample_id"
  "load64 big_mem 0 = None" "c \<in> region 65544 2040 \<Longrightarrow> big_mem c = Some 0"
proof -
  have dom: "dom big_mem = region 65536 2048"
    using store64_dom [OF big_store] by (auto simp: dom_def wide_base split: if_splits)
  then show "heap_ok ff_ok big_state"
    by (auto simp: big_state_def ff_ok_def heap_base_def heap_limit_def region_iff)
  show "signed_object cfg ff_live big_state (sample_ptr cfg) 65536 2040 sample_id"
    using ram.load_same [OF big_store]
    by (simp add: signed_object_def big_state_def ff_live_def heap_base_def sample_ptr_def)
  have "0 \<in> region 0 8" "0 \<notin> region 65536 2048" by (simp_all add: region_iff)
  then show "load64 big_mem 0 = None" unfolding load64_None_iff dom by blast
  show "big_mem c = Some 0" if "c \<in> region 65544 2040"
    using that store64_apply [OF big_store, of c] by (auto simp: wide_base region_iff)
qed

text \<open>The object of 24 bytes at 67072, in a heap whose first chunk is free.\<close>

definition wide_state :: "chunk list machine" where
  "wide_state = \<lparr>mem = wide_mem sample_id, heap = [\<lparr>cap = 1536, used = None\<rparr>, \<lparr>cap = 512, used = Some 32\<rparr>],
     clock = 1700000000, rng = (0, 0), stdout = []\<rparr>"

lemma wide_state_ok: "heap_ok ff_ok wide_state"
  using wide_dom [of sample_id] by (auto simp: wide_state_def ff_ok_def heap_base_def heap_limit_def region_iff)

lemma wide_object: "signed_object cfg ff_live wide_state (pacia cfg (67072 + 8) sample_id) 67072 24 sample_id"
  by (simp add: signed_object_def wide_state_def ff_live_def heap_base_def wide_header)

lemma wide_store_again: "store64 (wide_mem i) 67072 w = Some (wide_mem w)"
proof -
  obtain m where m: "store64 (wide_mem i) 67072 w = Some m"
    using wide_header [of i] ram.store_exists by (metis option.distinct(1))
  have "m = wide_mem w"
    using store64_apply [OF m] store64_apply [OF wide_store, of i] store64_apply [OF wide_store, of w]
    by (simp add: fun_eq_iff)
  then show ?thesis using m by simp
qed

lemma wide_free:
  "\<exists>s'. ptauth_free cfg sample_libc (pacia cfg (67072 + 8) sample_id) wide_state = Inr ((), s') \<and> mem s' = wide_mem 2"
proof -
  let ?q = "pacia cfg (67072 + 8) sample_id"
  have can: "canonical (67072 + 8)" "canonical 67072" by (simp_all add: canonical_def)
  then have x: "xpac cfg ?q = 67072 + 8" by simp
  have h: "xpac cfg (?q - 8) = 67072" using xpac_diff [of cfg ?q 8] x can(2) by simp
  have "?q \<noteq> 0"
  proof
    assume "?q = 0"
    then have "xpac cfg 0 = 67072 + 8" using x by (simp only:)
    then show False by simp
  qed
  moreover have "autia cfg ?q sample_id t = 67072 + 8" for t
    using x can(1) by (simp add: autia_eq signature_pacia expected_signature_pacia)
  ultimately show ?thesis
    by (simp add: ptauth_free_eq h [simplified] wide_header wide_store_again wide_state_def call_free_def sample_libc_def ff_free_def
        ff_live_def heap_base_def)
qed

end
