(* ===== verification/PT_Runtime_Props.thy ===== *)
theory PT_Runtime_Props imports PT_Sample begin

text \<open>
  What the runtime library guarantees, for any C library whose allocator keeps the laws of the
  locale \<open>allocator\<close>, and where the guarantee ends.  Each property comes with a run of it on
  the sample process of \<open>PT_Sample\<close>.
\<close>

section \<open>Allocation\<close>

text \<open>
  C1. \<open>__ptauth_malloc\<close>.  When the allocator has a block for \<open>size + 8\<close> bytes, the call
  returns the signed pointer to the \<open>size\<close> bytes behind the header of a block that was not
  live before; the header holds the identifier, every other live block keeps its contents and
  the allocator's invariant is kept.
\<close>

theorem malloc_correct:
  assumes "allocator L live ok" and "heap_ok ok s" and "checkTBI L" and "unat sz + 8 < 2 ^ 64"
    and "l_malloc L (sz + 8) (mem s, heap s) = (b, m, h)" and "b \<noteq> 0"
  shows "\<exists>s'. ptauth_malloc cfg L sz s = Inr (pacia cfg (b + 8) (fresh_id L (clock s)), s') \<and>
    signed_object cfg live s' (pacia cfg (b + 8) (fresh_id L (clock s))) b (unat sz) (fresh_id L (clock s)) \<and>
    live (heap s) b = None \<and> live (heap s') = (live (heap s))(b \<mapsto> unat sz + 8) \<and>
    heap_ok ok s' \<and> agree_on (live (heap s)) (mem s) (mem s')"
  using allocator.malloc_spec [OF assms] .

theorem malloc_correct_witness:
  "\<exists>s'. ptauth_malloc config_h sample_libc 24 sample_start = Inr (pacia config_h 65544 sample_id, s') \<and>
     ff_live (heap s') = [65536 \<mapsto> 32] \<and> heap_ok ff_ok s'"
proof -
  have "unat (24 :: u64) = 24" by simp
  moreover have "ff_live (heap sample_start) = Map.empty"
    by (simp add: fun_eq_iff ff_live_def sample_start_def)
  ultimately show ?thesis
    using malloc_correct [OF ff.allocator_axioms sample_start_ok sample_tbi, of 24 65536 sample_block sample_heap config_h]
      sample_malloc_block by (auto simp: sample_fresh)
qed

text \<open>
  C8. \<open>__ptauth_calloc\<close>.  The same for \<open>item\<close> blocks of \<open>sizeBlock + 8\<close> bytes each:
  the object has room for the \<open>item * sizeBlock\<close> bytes asked for, and all of them are zero,
  the header that was written in front of them notwithstanding.
\<close>

theorem calloc_correct:
  fixes cfg :: config
  assumes "allocator L live ok" and "heap_ok ok s" and "checkTBI L" and "item \<noteq> 0" and "unat sizeBlock + 8 < 2 ^ 64"
    and "l_calloc L item (sizeBlock + 8) (mem s, heap s) = (b, m, h)" and "b \<noteq> 0"
  defines "n \<equiv> unat item * (unat sizeBlock + 8) - 8" and "q \<equiv> pacia cfg (b + 8) (fresh_id L (clock s))"
  shows "\<exists>s'. ptauth_calloc cfg L item sizeBlock s = Inr (q, s') \<and>
    signed_object cfg live s' q b n (fresh_id L (clock s)) \<and>
    unat item * unat sizeBlock \<le> n \<and> (\<forall>c \<in> region (b + 8) n. mem s' c = Some 0) \<and>
    live (heap s) b = None \<and> live (heap s') = (live (heap s))(b \<mapsto> n + 8) \<and>
    heap_ok ok s' \<and> agree_on (live (heap s)) (mem s) (mem s')"
  using allocator.calloc_spec [OF assms(1-7)] unfolding n_def q_def .

theorem calloc_correct_witness:
  "\<exists>s'. ptauth_calloc config_h sample_libc 3 8 sample_start = Inr (pacia config_h 65544 sample_id, s') \<and>
     heap_ok ff_ok s' \<and> (\<forall>c \<in> region 65544 40. mem s' c = Some 0)"
proof -
  have "l_calloc sample_libc 3 (8 + 8) (mem sample_start, heap sample_start) =
      (65536, fill_zero 65536 48 (fill_zero 65536 48 Map.empty), [\<lparr>cap = 48, used = Some 48\<rparr>])"
    by (simp add: sample_libc_def ff_calloc_def ff_malloc_def sample_start_def heap_base_def heap_limit_def
        chunk_cap_def Let_def)
  then show ?thesis
    using calloc_correct [OF ff.allocator_axioms sample_start_ok sample_tbi, of 3 8 65536 _ _ config_h]
    by (auto simp: sample_fresh)
qed

text \<open>
  C6. \<open>__ptauth_free\<close> of a live object returns, with the block given back to the allocator
  and all other live blocks untouched.
\<close>

theorem free_correct:
  assumes "allocator L live ok" and "heap_ok ok s" and "signed_object cfg live s q b n i"
  shows "\<exists>s'. ptauth_free cfg L q s = Inr ((), s') \<and> heap_ok ok s' \<and>
    live (heap s') = (live (heap s))(b := None) \<and>
    agree_on ((live (heap s))(b := None)) (mem s) (mem s')"
  using allocator.free_spec [OF assms] .

theorem free_correct_witness:
  "\<exists>s'. ptauth_free config_h sample_libc (sample_ptr config_h) sample_state = Inr ((), s') \<and>
     ff_live (heap s') 65536 = None"
  using free_correct [OF ff.allocator_axioms sample_ok sample_object [of config_h]] by auto

text \<open>
  C7. \<open>__ptauth_realloc\<close> of a live object.  The result is a signed object whose block is the
  one \<open>realloc\<close> returned for \<open>size\<close> bytes, so that only \<open>size - 8\<close> bytes of data fit behind
  the header; the old contents are kept up to that size.  When the block stays in place the
  pointer and the identifier stay, otherwise the new block carries a fresh identifier.
\<close>

theorem realloc_correct:
  assumes "allocator L live ok" and "heap_ok ok s" and "checkTBI L" and "signed_object cfg live s q b n i"
    and "8 \<le> unat sz" and "l_realloc L b sz (mem s, heap s) = Inr (p, m, h)" and "p \<noteq> 0"
  shows "\<exists>q' s' i'. ptauth_realloc cfg L q sz s = Inr (q', s') \<and>
    signed_object cfg live s' q' p (unat sz - 8) i' \<and>
    (if p = b then q' = q \<and> i' = i else live (heap s) p = None \<and> i' = fresh_id L (clock s)) \<and>
    live (heap s') = (live (heap s))(b := None, p \<mapsto> unat sz) \<and> heap_ok ok s' \<and>
    agree_on ((live (heap s))(b := None)) (mem s) (mem s') \<and>
    (\<forall>k < min n (unat sz - 8). mem s' (p + 8 + of_nat k) = mem s (b + 8 + of_nat k))"
  using allocator.realloc_spec [OF assms] .

theorem realloc_correct_witness:
  "\<exists>q' s' i'. ptauth_realloc config_h sample_libc (sample_ptr config_h) 64 sample_state = Inr (q', s') \<and>
     signed_object config_h ff_live s' q' 65568 56 i' \<and> i' = sample_id"
proof -
  have "\<exists>m h. l_realloc sample_libc 65536 64 (mem sample_state, heap sample_state) = Inr (65568, m, h)"
    by (simp add: sample_libc_def ff_realloc_def ff_malloc_def sample_state_def sample_heap_def
        heap_base_def heap_limit_def chunk_cap_def Let_def)
  then obtain m h where "l_realloc sample_libc 65536 64 (mem sample_state, heap sample_state) = Inr (65568, m, h)"
    by blast
  moreover have "(8 :: nat) \<le> unat (64 :: u64)" "(65568 :: addr) \<noteq> 0" by simp_all
  ultimately show ?thesis
    using realloc_correct [OF ff.allocator_axioms sample_ok sample_tbi sample_object [of config_h], of 64 65568 m h]
    by (auto simp: sample_fresh)
qed

section \<open>Validation\<close>

text \<open>
  C9. \<open>validatePointer\<close> returns.  With the threshold of \<open>config.h\<close> and address 0 unmapped,
  every call ends (the loop of \<open>backward_search\<close> included, also below 1024 bytes of address
  space, where its index runs past the pointer): it returns the pointer, stripped or not, or the
  process faults or aborts.
\<close>

theorem validatePointer_returns:
  assumes "BKTHREASHOLDENABLED cfg" and "load64 m 0 = None"
  shows "\<exists>r. validatePointer cfg m ptr t = Some r \<and>
    r \<in> {Inr ptr, Inr (xpac cfg ptr), Inl Segv, Inl Abort}"
  using validatePointer_cases [OF assms, of ptr t] by auto

theorem validatePointer_returns_witness:
  "\<exists>r. validatePointer config_h sample_mem 0x3200000000010008 (CHR ''L'') = Some r \<and>
    r \<in> {Inr 0x3200000000010008, Inr 0x10008, Inl Segv, Inl Abort}"
proof -
  have "xpac config_h 0x3200000000010008 = 0x10008" by (simp add: xpac_def MASKLOWBIT_def)
  then show ?thesis
    using validatePointer_returns [of config_h sample_mem "0x3200000000010008" "CHR ''L''"] sample_null by simp
qed

text \<open>
  C2. \<open>backward_search\<close> against its specification: it scans the 16-byte aligned words below
  the pointer, nearest first, up to 1023 bytes away and not past address 0, and accepts on the
  first one whose non-zero identifier matches the pointer's signature.  Neither the letter nor
  the header passed in matters.
\<close>

theorem backward_search_refines_scan:
  assumes "BKTHREASHOLDENABLED cfg" and "xpac cfg ptr \<noteq> 0" and "load64 m 0 = None"
  shows "backward_search cfg m ptr meta t =
    Some (search_result cfg ptr (bs_scan cfg m ptr (bs_offsets (uint (xpac cfg ptr)) 1)))"
  using backward_search_scan [OF assms] .

theorem backward_search_refines_scan_witness:
  "backward_search config_h (wide_mem 58) 0x3200000000010618 0 (CHR ''L'') =
     Some (search_result config_h 0x3200000000010618
       (bs_scan config_h (wide_mem 58) 0x3200000000010618 (bs_offsets 67096 1)))"
proof -
  have "xpac config_h 0x3200000000010618 = 67096" by (simp add: xpac_def MASKLOWBIT_def)
  then show ?thesis
    using backward_search_refines_scan [of config_h "0x3200000000010618" "wide_mem 58" 0 "CHR ''L''"] wide_null
    by simp
qed

text \<open>
  C4. No false alarm.  A pointer into a live signed object with an identifier other than zero, less
  than 1016 bytes from its start, passes \<open>__loadCheck\<close> whatever the flags of \<open>config.h\<close> are, the
  threshold of the search included: it comes back as it is under Top-Byte Ignore and stripped
  otherwise.  Memory is mapped in pages, the first of which is not mapped.
\<close>

theorem interior_pointer_passes:
  assumes "allocator L live ok" and "heap_ok ok s" and "signed_object cfg live s q b n i"
    and "i \<noteq> 0" and "k < n" and "k + 8 \<le> 1023" and "granular (mem s)"
    and "load64 (mem s) 0 = None"
  shows "loadCheck cfg (mem s) (q + of_nat k) =
    Some (Inr (if TOPBYTEIGNORE cfg then q + of_nat k else b + 8 + of_nat k))"
proof -
  have obj: "live (heap s) b = Some (n + 8)" "load64 (mem s) b = Some i" "q = pacia cfg (b + 8) i"
    using assms(3) by (simp_all add: signed_object_def)
  have blk: "b \<noteq> 0" "unat b mod 16 = 0" "unat b + (n + 8) \<le> 2 ^ 47" "region b (n + 8) \<subseteq> dom (mem s)"
    using allocator.live_block [OF assms(1,2) obj(1)] by auto
  note found = interior_pointer_found [OF blk(2,1) obj(2) assms(4,5,6) blk(3,4) assms(7), of cfg, folded obj(3)]
  have rd: "load64 (mem s) (xpac cfg (q + of_nat k - 8)) \<noteq> None"
    by (rule interior_header_readable [OF assms(5) blk(3,4), of cfg i, folded obj(3)])
  have nz: "xpac cfg (q + of_nat k) \<noteq> 0"
    using interior_nonzero [OF assms(5) blk(3)] unfolding found(1) .
  show ?thesis
    using loadCheck_found [OF assms(8) nz found(2) rd] found(1) by (simp add: validated_def)
qed

theorem interior_pointer_passes_witness:
  "loadCheck config_h sample_mem (sample_ptr config_h + 5) = Some (Inr (sample_ptr config_h + 5))"
proof -
  have m: "mem sample_state = sample_mem" by (simp add: sample_state_def)
  have "sample_id \<noteq> 0" by (simp add: sample_id_val)
  then show ?thesis
    using interior_pointer_passes [OF ff.allocator_axioms sample_ok sample_object [of config_h], of 5]
      sample_granular sample_null unfolding m by simp
qed

text \<open>
  C10. The checks under \<open>config.h\<close> never reject.  With Top-Byte Ignore and \<open>ENABLELOG\<close>, as
  shipped, a check returns the pointer it was given whatever the signature says, unless reading
  a candidate header faults.
\<close>

theorem shipped_checks_never_reject:
  assumes "load64 m 0 = None"
  shows "loadCheck config_h m ptr = Some (Inr ptr) \<or> loadCheck config_h m ptr = Some (Inl Segv)"
proof (cases "xpac config_h ptr = 0")
  case True
  with backward_search_null [OF _ True assms] show ?thesis
    by (auto simp: loadCheck_def validatePointer_def Let_def split: option.splits)
next
  case False
  with validatePointer_eq [OF _ assms False] bs_scan_cases [of config_h m ptr "bs_window config_h ptr"] show ?thesis
    by (auto simp: loadCheck_def validated_def split: option.splits)
qed

theorem shipped_checks_never_reject_witness:
  "loadCheck config_h (wide_mem 58) 0x7700000000010608 = Some (Inr 0x7700000000010608) \<or>
   loadCheck config_h (wide_mem 58) 0x7700000000010608 = Some (Inl Segv)"
  by (rule shipped_checks_never_reject [OF wide_null])

text \<open>
  C5. Use after free.  After \<open>__ptauth_free\<close> of a live signed object the old pointer passes the
  check exactly when its signature is zero or some identifier in the window of the search vouches
  for it in the memory that \<open>free\<close> left; otherwise the check aborts, or with \<open>ENABLELOG\<close>, as
  shipped, lets the pointer through.  Under a \<open>free\<close> that leaves the header alone the header holds
  the 2 that \<open>__ptauth_free\<close> put there, which vouches only for an identifier that agrees with 2 in
  the bits of the signature.  The headers of the window are readable.
\<close>

theorem dangling_pointer_check:
  assumes "allocator L live ok" and "heap_ok ok s" and "signed_object cfg live s q b n i"
    and "ptauth_free cfg L q s = Inr ((), s')" and "BKTHREASHOLDENABLED cfg" and "load64 (mem s') 0 = None"
    and "\<forall>j \<in> set (bs_offsets (uint (b + 8)) 1). load64 (mem s') (b + 8 - of_int j) \<noteq> None"
  shows "loadCheck cfg (mem s') q = Some
      (if signature_of cfg q = 0 \<or>
         (\<exists>j \<in> set (bs_offsets (uint (b + 8)) 1). \<exists>w. load64 (mem s') (b + 8 - of_int j) = Some w \<and>
            vouches cfg q (b + 8 - of_int j) w)
       then Inr (validated cfg q) else if ENABLELOG cfg then Inr q else Inl Abort) \<and>
    ((\<forall>m h m' h'. l_free L b (m, h) = Inr (m', h') \<longrightarrow> load64 m' b = load64 m b) \<longrightarrow>
      load64 (mem s') b = Some 2 \<and> (vouches cfg q b 2 \<longleftrightarrow> unat i mod 2 ^ sig_bits cfg = 2))"
proof -
  have obj: "live (heap s) b = Some (n + 8)" "load64 (mem s) b = Some i" "q = pacia cfg (b + 8) i"
    using assms(3) by (simp_all add: signed_object_def)
  have blk: "b \<noteq> 0" "unat b mod 16 = 0" "unat b + (n + 8) \<le> 2 ^ 47"
    using allocator.live_block [OF assms(1,2) obj(1)] by auto
  note F = freed_header [OF blk obj(3)]
  have near: "load64 (mem s') b \<noteq> None" using assms(7) F(5) by force
  have scan: "bs_scan cfg (mem s') q (bs_window cfg q) = Inr (if \<exists>j \<in> set (bs_offsets (uint (b + 8)) 1). \<exists>w.
      load64 (mem s') (b + 8 - of_int j) = Some w \<and> vouches cfg q (b + 8 - of_int j) w then Some (b + 8) else None)"
    using bs_scan_readable [of "bs_window cfg q" "mem s'" cfg q] assms(7) unfolding F(1) by blast
  have direct: "direct_ok cfg q w \<Longrightarrow> vouches cfg q b w" for w
    using F(1,2) expected_signature_xpac [of cfg q w] by (simp add: direct_ok_def vouches_def)
  have check: "loadCheck cfg (mem s') q = Some
      (if signature_of cfg q = 0 \<or>
         (\<exists>j \<in> set (bs_offsets (uint (b + 8)) 1). \<exists>w. load64 (mem s') (b + 8 - of_int j) = Some w \<and>
            vouches cfg q (b + 8 - of_int j) w)
       then Inr (validated cfg q) else if ENABLELOG cfg then Inr q else Inl Abort)"
  proof (cases "signature_of cfg q = 0")
    case True
    then show ?thesis using F(3) by (simp add: loadCheck_def validated_def canonical_high_part [of q cfg, symmetric])
  next
    case False
    have x0: "xpac cfg q \<noteq> 0" using F(1,2) by simp
    obtain w where w: "load64 (mem s') b = Some w" using near by blast
    have "q AND NOT (MASKLOWBIT cfg) \<noteq> 0" using False F(3) by (simp add: canonical_high_part [of q cfg])
    moreover have "direct_ok cfg q w \<Longrightarrow> \<exists>j \<in> set (bs_offsets (uint (b + 8)) 1). \<exists>w. load64 (mem s') (b + 8 - of_int j) = Some w \<and>
        vouches cfg q (b + 8 - of_int j) w"
      using direct w F(5) by force
    ultimately show ?thesis
      using validatePointer_eq [OF assms(5,6) x0] False
      by (auto simp: loadCheck_def F(4) w scan validated_def)
  qed
  have "load64 (mem s') b = Some 2" if keep: "\<forall>m h m' h'. l_free L b (m, h) = Inr (m', h') \<longrightarrow> load64 m' b = load64 m b"
  proof -
    obtain m1 where m1: "store64 (mem s) b 2 = Some m1" using obj(2) ram.store_exists by (metis option.distinct(1))
    have "q \<noteq> 0" using F(1,2) by auto
    then have "call_free L b (s\<lparr>mem := m1\<rparr>) = Inr ((), s')"
      using assms(4) m1 F(4,6) obj(2) by (simp add: ptauth_free_eq)
    then obtain m2 h2 where "l_free L b (m1, heap s) = Inr (m2, h2)" "mem s' = m2"
      by (auto simp: call_free_def split: sum.splits)
    then show ?thesis using keep ram.load_same [OF m1] by metis
  qed
  then show ?thesis using check F(7) by blast
qed

text \<open>
  The witness frees the object at 67072 of a heap with room in front of it; the first-fit \<open>free\<close>
  leaves the header alone.
\<close>

theorem dangling_pointer_check_witness:
  "\<exists>s'. ptauth_free (config_h\<lparr>ENABLELOG := False\<rparr>) sample_libc (pacia (config_h\<lparr>ENABLELOG := False\<rparr>) 67080 sample_id) wide_state =
      Inr ((), s') \<and>
    loadCheck (config_h\<lparr>ENABLELOG := False\<rparr>) (mem s') (pacia (config_h\<lparr>ENABLELOG := False\<rparr>) 67080 sample_id) = Some (Inl Abort)"
proof -
  let ?c = "config_h\<lparr>ENABLELOG := False\<rparr>"
  let ?q = "pacia ?c (67072 + 8) sample_id"
  have sb: "sig_bits ?c = 8" by (simp add: sig_bits_def)
  have can: "canonical (67072 + 8)" by (simp add: canonical_def)
  obtain s' where s': "ptauth_free ?c sample_libc ?q wide_state = Inr ((), s')" "mem s' = wide_mem 2"
    using wide_free by blast
  have ids: "unat sample_id mod 2 ^ sig_bits ?c \<noteq> 2"
      "unat sample_id mod 2 ^ sig_bits ?c \<noteq> unat (67072 + 8 :: addr) mod 2 ^ sig_bits ?c"
    by (simp_all add: sb sample_id_val)
  have sig: "signature_of ?c ?q \<noteq> 0"
    unfolding signature_pacia [OF can] expected_signature_zero_iff by (rule ids(2))
  have no: "\<not> vouches ?c ?q 67072 2"
    using signature_mismatch [OF can, of sample_id ?c 2] ids(1) two_mod_sig [of ?c] can by (simp add: vouches_def)
  have win: "load64 (wide_mem 2) (67072 + 8 - of_int j) = Some (if j = 8 then 2 else 0)"
    if "j \<in> set (bs_offsets (uint (67072 + 8 :: addr)) 1)" for j
    using wide_window [of j 2] that by simp
  have un: "\<not> vouches ?c ?q (67072 + 8 - of_int j) (if j = 8 then 2 else 0)" for j
    using no by (simp add: vouches_def)
  have "loadCheck ?c (mem s') ?q = Some
      (if signature_of ?c ?q = 0 \<or>
         (\<exists>j \<in> set (bs_offsets (uint (67072 + 8 :: addr)) 1). \<exists>w. load64 (mem s') (67072 + 8 - of_int j) = Some w \<and>
            vouches ?c ?q (67072 + 8 - of_int j) w)
       then Inr (validated ?c ?q) else if ENABLELOG ?c then Inr ?q else Inl Abort)"
    by (rule dangling_pointer_check [OF ff.allocator_axioms wide_state_ok wide_object s'(1), THEN conjunct1])
      (use win wide_null in \<open>simp_all add: s'(2)\<close>)
  also have "\<dots> = Some (Inl Abort)" using sig un win by (auto simp: s'(2))
  finally show ?thesis using s'(1) by auto
qed

text \<open>
  C13. A signature of zero.  A pointer that agrees with its identifier in the bits of the signature
  is signed with zero; it is taken for an unsigned one and comes back from each of the four checks
  the pass inserts, with memory of whatever contents and none of it read.
\<close>

theorem zero_signature_unchecked:
  assumes "canonical p" and "unat i mod 2 ^ sig_bits cfg = unat p mod 2 ^ sig_bits cfg"
  shows "loadCheck cfg m (pacia cfg p i) = Some (Inr (pacia cfg p i)) \<and>
    storeCheck cfg m (pacia cfg p i) = Some (Inr (pacia cfg p i)) \<and>
    GEPCheck cfg m (pacia cfg p i) = Some (Inr (pacia cfg p i)) \<and>
    nestedGEPCheck cfg m (pacia cfg p i) = Some (Inr (pacia cfg p i))"
proof -
  have "canonical (pacia cfg p i)"
    using assms by (simp add: pacia_canonical_iff expected_signature_zero_iff)
  then have "pacia cfg p i AND NOT (MASKLOWBIT cfg) = 0" using canonical_high_part by blast
  then show ?thesis by (simp add: loadCheck_def storeCheck_def GEPCheck_def nestedGEPCheck_def)
qed

theorem zero_signature_unchecked_witness:
  "loadCheck (config_h\<lparr>ENABLELOG := False\<rparr>) Map.empty (pacia (config_h\<lparr>ENABLELOG := False\<rparr>) 0x1063A sample_id) =
     Some (Inr (pacia (config_h\<lparr>ENABLELOG := False\<rparr>) 0x1063A sample_id))"
proof -
  have "canonical 0x1063A" by (simp add: canonical_def)
  moreover have "unat sample_id mod 2 ^ sig_bits (config_h\<lparr>ENABLELOG := False\<rparr>) =
      unat (0x1063A :: addr) mod 2 ^ sig_bits (config_h\<lparr>ENABLELOG := False\<rparr>)"
    by (simp add: sig_bits_def sample_id_val)
  ultimately show ?thesis by (rule zero_signature_unchecked [THEN conjunct1])
qed

text \<open>
  The four checks the pass inserts decide alike: the store check, which passes on the
  result of \<open>validatePointer\<close> itself, returns what the load check and both GEP checks return.
\<close>

theorem checks_agree:
  assumes "BKTHREASHOLDENABLED cfg" and "load64 m 0 = None"
  shows "storeCheck cfg m ptr = loadCheck cfg m ptr \<and> GEPCheck cfg m ptr = loadCheck cfg m ptr \<and>
    nestedGEPCheck cfg m ptr = loadCheck cfg m ptr"
  using storeCheck_loadCheck [OF assms] check_functions_agree by simp

theorem checks_agree_witness:
  "storeCheck (config_h\<lparr>TOPBYTEIGNORE := False\<rparr>) sample_mem 0x0032000000010008 =
   loadCheck (config_h\<lparr>TOPBYTEIGNORE := False\<rparr>) sample_mem 0x0032000000010008"
  using checks_agree [of "config_h\<lparr>TOPBYTEIGNORE := False\<rparr>" sample_mem "0x0032000000010008"] sample_null
  by simp

text \<open>
  C15. How far a search looks.  A check reads nothing outside the eight bytes in front of the
  pointer and the aligned words that start in the 1023 bytes below it: two memories that agree
  on the 1024 bytes up to the pointer and on the next seven give the same outcome.
\<close>

theorem checks_read_window:
  assumes "BKTHREASHOLDENABLED cfg" and "load64 m 0 = None" and "load64 m' 0 = None"
    and "xpac cfg ptr \<noteq> 0" and "8 \<le> unat (xpac cfg ptr)"
    and "\<And>c. uint (xpac cfg ptr) - 1024 \<le> uint c \<Longrightarrow> uint c < uint (xpac cfg ptr) + 7 \<Longrightarrow> m c = m' c"
  shows "loadCheck cfg m ptr = loadCheck cfg m' ptr"
proof -
  let ?p = "xpac cfg ptr"
  have word: "load64 m (?p - of_int j) = load64 m' (?p - of_int j)" if "1 \<le> j" "j \<le> 1023" "j \<le> uint ?p" for j
  proof (rule load64_cong)
    fix c assume c: "c \<in> region (?p - of_int j) 8"
    have uc: "uint (?p - of_int j) = uint ?p - j" using that by (intro uint_diff_of_int) simp_all
    have "uint ?p < 2 ^ 48" using canonical_xpac [of cfg ptr] by (simp add: canonical_uint)
    with that uc have "uint ?p - j \<le> uint c \<and> uint c < uint ?p - j + 8"
      using region_uint [OF c] by simp
    with that show "m c = m' c" by (intro assms(6)) linarith+
  qed
  have scan: "bs_scan cfg m ptr js = bs_scan cfg m' ptr js"
    if "\<forall>j \<in> set js. 1 \<le> j \<and> j \<le> 1023 \<and> j \<le> uint ?p" for js
    using that by (induction js) (simp_all add: word split: option.split)
  have "bs_scan cfg m ptr (bs_window cfg ptr) = bs_scan cfg m' ptr (bs_window cfg ptr)"
    by (rule scan) (auto simp: bs_offsets_def)
  moreover have "load64 m (xpac cfg (ptr - 8)) = load64 m' (xpac cfg (ptr - 8))"
  proof -
    have "int 8 \<le> int (unat ?p)" using assms(5) by (simp only: of_nat_le_iff)
    then have u8: "8 \<le> uint ?p" by simp
    have "canonical (?p - 8)" using assms(5) canonical_diff [of ?p 8] by (simp add: word_le_nat_alt)
    then have "xpac cfg (ptr - 8) = ?p - of_int 8" using xpac_diff [of cfg ptr 8] by simp
    with word [of 8] u8 show ?thesis by simp
  qed
  ultimately have "validatePointer cfg m ptr t = validatePointer cfg m' ptr t" for t
    by (simp only: validatePointer_eq [OF assms(1,2,4)] validatePointer_eq [OF assms(1,3,4)])
  then show ?thesis by (simp add: loadCheck_def)
qed

theorem checks_read_window_witness:
  "loadCheck config_h (wide_mem 58) 0x3200000000010618 =
   loadCheck config_h ((wide_mem 58)(0x20000 \<mapsto> 7)) 0x3200000000010618"
proof -
  have x: "xpac config_h 0x3200000000010618 = 0x10618" by (simp add: xpac_def MASKLOWBIT_def)
  have "load64 ((wide_mem 58)(0x20000 \<mapsto> 7)) 0 = load64 (wide_mem 58) 0"
    by (rule load64_cong) (auto simp: region_iff)
  then show ?thesis
    by (intro checks_read_window) (auto simp: x wide_null)
qed

text \<open>
  C14. A limit of the search.  With the threshold enabled, a pointer 1016 bytes or more into an
  object, and eight or more before its end, is out of reach of the header: when the object's data is
  zero, as \<open>__ptauth_calloc\<close> leaves it, and the signature is not, the search finds no identifier.
  The check then aborts on the live, correctly signed pointer, or with \<open>ENABLELOG\<close>, as shipped,
  lets it through without having authenticated it.
\<close>

theorem deep_interior_pointer_not_found:
  assumes "allocator L live ok" and "heap_ok ok s" and "signed_object cfg live s q b n i"
    and "\<forall>c \<in> region (b + 8) n. mem s c = Some 0" and "1016 \<le> k" and "k + 8 \<le> n"
    and "BKTHREASHOLDENABLED cfg" and "load64 (mem s) 0 = None"
    and "unat i mod 2 ^ sig_bits cfg \<noteq> unat (b + 8) mod 2 ^ sig_bits cfg"
  shows "loadCheck cfg (mem s) (q + of_nat k) = Some (if ENABLELOG cfg then Inr (q + of_nat k) else Inl Abort)"
proof -
  have obj: "live (heap s) b = Some (n + 8)" "q = pacia cfg (b + 8) i"
    using assms(3) by (simp_all add: signed_object_def)
  have blk: "unat b mod 16 = 0" "unat b + (n + 8) \<le> 2 ^ 47"
    using allocator.live_block [OF assms(1,2) obj(1)] by auto
  note far = deep_interior_unfound [OF blk assms(4-6), of cfg i, folded obj(2)]
  have "\<not> canonical (q + of_nat k)"
    using far(3) assms(9) by (simp add: expected_signature_zero_iff)
  then have "(q + of_nat k) AND NOT (MASKLOWBIT cfg) \<noteq> 0" by (simp add: canonical_high_part [of _ cfg])
  moreover have "xpac cfg (q + of_nat k) \<noteq> 0"
    unfolding far(4) using assms(6) by (intro interior_nonzero [OF _ blk(2)]) simp
  ultimately show ?thesis
    using validatePointer_eq [OF assms(7,8)] far(1,2) by (simp add: loadCheck_def direct_ok_def)
qed

theorem deep_interior_pointer_not_found_witness:
  "loadCheck (config_h\<lparr>ENABLELOG := False\<rparr>) big_mem (sample_ptr (config_h\<lparr>ENABLELOG := False\<rparr>) + 1500) =
     Some (Inl Abort)"
proof -
  let ?c = "config_h\<lparr>ENABLELOG := False\<rparr>"
  have m: "mem big_state = big_mem" by (simp add: big_state_def)
  have "unat sample_id mod 2 ^ sig_bits ?c \<noteq> unat (65536 + 8 :: addr) mod 2 ^ sig_bits ?c"
    by (simp add: sig_bits_def sample_id_val)
  then show ?thesis
    using deep_interior_pointer_not_found [OF ff.allocator_axioms big_facts(1,2), of 1500 ?c] big_facts(3,4)
    unfolding m by simp
qed

section \<open>Deallocation and reallocation of other pointers\<close>

text \<open>
  \<open>__ptauth_free\<close>, every argument.  Its violation branch is never taken, whatever the
  pointer: the header found by stripping the pointer is overwritten with 2 before anything is
  decided, and a failed authentication only turns the argument of \<open>free\<close> into \<open>NULL - 8\<close>.
\<close>

theorem free_never_reports:
  "ptauth_free cfg L q s =
     (if q = 0 then Inr ((), s)
      else case load64 (mem s) (xpac cfg (q - 8)) of
        None \<Rightarrow> Inl (Segv, s)
      | Some i \<Rightarrow>
          (case store64 (mem s) (xpac cfg (q - 8)) 2 of
             None \<Rightarrow> Inl (Segv, s)
           | Some m \<Rightarrow> call_free L (autia cfg q i (CHR ''F'') - 8) (s\<lparr>mem := m\<rparr>)))"
  using ptauth_free_eq .



text \<open>
  \<open>__ptauth_realloc\<close> does not authenticate.  Two pointers that differ in their signatures
  only (a live one and a forged or dangling one) have the same effect on the process; they
  differ at most in that a block resized in place gives each caller its own pointer back.
\<close>

theorem realloc_ignores_signature:
  assumes "xpac cfg q = xpac cfg q'"
  shows "ptauth_realloc cfg L q sz s = ptauth_realloc cfg L q' sz s \<or>
    (\<exists>s'. ptauth_realloc cfg L q sz s = Inr (q, s') \<and> ptauth_realloc cfg L q' sz s = Inr (q', s'))"
proof (cases "call_realloc L (xpac cfg q - 8) sz s")
  case (Inl e)
  with assms show ?thesis by (auto simp: ptauth_realloc_def strip_is_xpac Let_def)
next
  case (Inr r)
  then obtain p s1 where "call_realloc L (xpac cfg q' - 8) sz s = Inr (p, s1)"
    using assms by (cases r) auto
  with assms show ?thesis
    by (cases "xpac cfg q' - 8 = p"; cases "checkTBI L") (simp_all add: ptauth_realloc_def strip_is_xpac Let_def)
qed

theorem realloc_ignores_signature_witness:
  "ptauth_realloc config_h sample_libc (sample_ptr config_h) 16 sample_state =
     ptauth_realloc config_h sample_libc 65544 16 sample_state \<or>
   (\<exists>s'. ptauth_realloc config_h sample_libc (sample_ptr config_h) 16 sample_state = Inr (sample_ptr config_h, s') \<and>
     ptauth_realloc config_h sample_libc 65544 16 sample_state = Inr (65544, s'))"
proof -
  have "canonical 65544" by (simp add: canonical_def)
  then have "xpac config_h (sample_ptr config_h) = xpac config_h 65544"
    by (simp add: sample_ptr_def)
  then show ?thesis by (rule realloc_ignores_signature)
qed

section \<open>Identifiers and sizes\<close>

text \<open>
  The range of identifiers: from 100000000 to 999999998, whatever \<open>rand\<close> returns, the
  negative values an \<open>int\<close> could hold included.  So no identifier is 0, which the checks take
  for "no header", or 2, which \<open>__ptauth_free\<close> leaves behind.
\<close>

theorem identifier_range:
  "100000000 \<le> unat (fresh_id L t) \<and> unat (fresh_id L t) < 999999999 \<and> fresh_id L t \<noteq> 0 \<and> fresh_id L t \<noteq> 2"
proof -
  have r: "100000000 \<le> unat (fresh_id L t)" "unat (fresh_id L t) < 999999999"
    unfolding fresh_id_def by (rule unat_draw_id)+
  then have "unat (fresh_id L t) \<noteq> 0" "unat (fresh_id L t) \<noteq> unat (2 :: u64)" by simp_all
  then have "fresh_id L t \<noteq> 0" "fresh_id L t \<noteq> 2" by force+
  with r show ?thesis by simp
qed

text \<open>
  C12. Identifiers within a second.  \<open>initMD\<close> seeds \<open>rand\<close> with the time in seconds on every
  call, so two allocations in the same second get the same identifier; when the allocator also
  hands out the same block, the new pointer equals the old one bit for bit, and a dangling
  pointer to the old object cannot be told from a pointer to the new one.
\<close>

theorem same_second_same_pointer:
  assumes "ptauth_malloc cfg L n1 s1 = Inr (q1, s1')" and "ptauth_malloc cfg L n2 s2 = Inr (q2, s2')"
    and "clock s1 = clock s2"
    and "fst (l_malloc L (n1 + 8) (mem s1, heap s1)) = fst (l_malloc L (n2 + 8) (mem s2, heap s2))"
  shows "q1 = q2"
proof -
  have ptr: "q = pacia cfg (fst (l_malloc L (n + 8) (mem s, heap s)) + 8) (fresh_id L (clock s))"
    if call: "ptauth_malloc cfg L n s = Inr (q, s')" for n s q s'
  proof -
    obtain b m h where mal: "l_malloc L (n + 8) (mem s, heap s) = (b, m, h)" by (metis prod_cases3)
    then have "call_malloc L (n + 8) s = (b, s\<lparr>mem := m, heap := h\<rparr>)" by (simp add: call_malloc_def)
    with call mal show ?thesis
      by (auto simp: ptauth_malloc_def tag_object_eq Let_def split: if_splits option.splits)
  qed
  show ?thesis unfolding ptr [OF assms(1)] ptr [OF assms(2)] assms(3,4) ..
qed

theorem same_second_same_pointer_witness:
  "\<exists>s2 s3. ptauth_free config_h sample_libc (sample_ptr config_h) sample_state = Inr ((), s2) \<and>
     ptauth_malloc config_h sample_libc 24 s2 = Inr (sample_ptr config_h, s3)"
proof -
  obtain m where fr: "ptauth_free config_h sample_libc (sample_ptr config_h) sample_state =
      Inr ((), sample_state\<lparr>mem := m, heap := [\<lparr>cap = 32, used = None\<rparr>]\<rparr>)"
    using sample_free by blast
  let ?s2 = "sample_state\<lparr>mem := m, heap := [\<lparr>cap = 32, used = None\<rparr>]\<rparr>"
  have mal: "l_malloc sample_libc 32 (mem ?s2, heap ?s2) = (65536, m, sample_heap)"
    by (simp add: sample_libc_def ff_malloc_def heap_base_def sample_heap_def)
  have ok: "heap_ok ff_ok ?s2"
    using ff.free_spec [OF sample_ok sample_object [of config_h]] fr by auto
  obtain q2 s3 where again: "ptauth_malloc config_h sample_libc 24 ?s2 = Inr (q2, s3)"
    using ff.malloc_spec [OF ok sample_tbi, of 24 65536 m sample_heap config_h] mal by auto
  have "sample_ptr config_h = q2"
    using same_second_same_pointer [OF sample_malloc again] sample_malloc_block mal
    by (simp add: sample_start_def sample_state_def)
  with fr again show ?thesis by blast
qed

text \<open>
  A request of the last eight sizes wraps around: \<open>size + 8\<close> overflows, the block is
  smaller than its own header, and \<open>__ptauth_malloc\<close> still returns a signed pointer to it.
\<close>

theorem malloc_size_wraps:
  assumes "allocator L live ok" and "heap_ok ok s" and "checkTBI L" and "2 ^ 64 - 8 \<le> unat sz"
    and "l_malloc L (sz + 8) (mem s, heap s) = (b, m, h)" and "b \<noteq> 0" and "load64 m b \<noteq> None"
  shows "\<exists>s'. ptauth_malloc cfg L sz s = Inr (pacia cfg (b + 8) (fresh_id L (clock s)), s') \<and>
    live (heap s') b = Some (unat sz + 8 - 2 ^ 64) \<and> unat sz + 8 - 2 ^ 64 < 8 \<and>
    load64 (mem s') b = Some (fresh_id L (clock s))"
  using allocator.malloc_wraps [OF assms] .

theorem malloc_size_wraps_witness:
  "\<exists>s'. ptauth_malloc config_h sample_libc (- 5) sample_start = Inr (pacia config_h 65544 sample_id, s') \<and>
     ff_live (heap s') 65536 = Some 3"
proof -
  have u: "unat (- 5 :: u64) = 2 ^ 64 - 5" by simp
  have mal: "l_malloc sample_libc (- 5 + 8) (mem sample_start, heap sample_start) =
      (65536, fill_zero 65536 16 Map.empty, [\<lparr>cap = 16, used = Some 3\<rparr>])"
    by (simp add: sample_libc_def ff_malloc_def sample_start_def heap_base_def heap_limit_def
        chunk_cap_def Let_def)
  have "load64 (fill_zero 65536 16 Map.empty) 65536 = Some 0"
    by (rule load64_zero) (simp add: fill_zero_def region_iff)
  then show ?thesis
    using malloc_size_wraps [OF ff.allocator_axioms sample_start_ok sample_tbi _ mal, of config_h]
    by (auto simp: u sample_fresh)
qed

text \<open>
  Running out of memory.  The result of \<open>malloc\<close> is not tested: when it is \<open>NULL\<close>, the
  identifier is written to address 0 and the process faults.
\<close>

theorem malloc_failure_faults:
  assumes "allocator L live ok" and "heap_ok ok s" and "checkTBI L"
    and "l_malloc L (sz + 8) (mem s, heap s) = (0, m, h)" and "load64 m 0 = None"
  shows "\<exists>s'. ptauth_malloc cfg L sz s = Inl (Segv, s') \<and> live (heap s') = live (heap s)"
  using allocator.malloc_fails [OF assms] .

theorem malloc_failure_faults_witness:
  "\<exists>s'. ptauth_malloc config_h sample_libc (2 ^ 60) sample_start = Inl (Segv, s') \<and> ff_live (heap s') = Map.empty"
proof -
  have mal: "l_malloc sample_libc (2 ^ 60 + 8) (mem sample_start, heap sample_start) = (0, Map.empty, [])"
    by (simp add: sample_libc_def ff_malloc_def sample_start_def heap_base_def heap_limit_def
        chunk_cap_def Let_def)
  moreover have "load64 Map.empty 0 = None" by (simp add: load64_None_iff region_def exI [of _ 0])
  moreover have "ff_live (heap sample_start) = Map.empty"
    by (simp add: fun_eq_iff ff_live_def sample_start_def)
  ultimately show ?thesis
    using malloc_failure_faults [OF ff.allocator_axioms sample_start_ok sample_tbi, of "2 ^ 60" Map.empty "[]" config_h]
    by simp
qed

end
