(* ===== verification/PT_Format.thy ===== *)
theory PT_Format imports PT_Prelude "HOL-Library.Sublist" begin

text \<open>
  The conversions of \<open>printf\<close> and the string functions the tools of the repository use:
  decimal and hexadecimal numbers, \<open>fgets\<close>, \<open>strstr\<close>, \<open>strtok\<close> and
  \<open>strtoul\<close> to base 16, after ISO C.  A C string is its list of characters without the
  final NUL.
\<close>

section \<open>Printing numbers\<close>

fun digits :: "nat \<Rightarrow> nat \<Rightarrow> nat list" where
  "digits b n = (if b < 2 \<or> n < b then [n] else digits b (n div b) @ [n mod b])"

declare digits.simps [simp del]

definition digit_char :: "nat \<Rightarrow> char" where
  "digit_char d = (if d < 10 then char_of (48 + d) else char_of (87 + d))"

definition decimal_digits :: "nat \<Rightarrow> string" where
  "decimal_digits n = map digit_char (digits 10 n)"

definition hexadecimal :: "nat \<Rightarrow> string" where
  "hexadecimal n = map digit_char (digits 16 n)"

definition signed_decimal :: "int \<Rightarrow> string" where
  "signed_decimal z = (if z < 0 then CHR ''-'' # decimal_digits (nat (- z)) else decimal_digits (nat z))"

definition pad_zero :: "nat \<Rightarrow> string \<Rightarrow> string" where
  "pad_zero n s = replicate (n - length s) (CHR ''0'') @ s"

definition pad_right :: "nat \<Rightarrow> string \<Rightarrow> string" where
  "pad_right n s = s @ replicate (n - length s) (CHR '' '')"

definition newline :: string where "newline = [CHR 0x0A]"

section \<open>Reading lines and tokens\<close>

text \<open>
  \<open>fgets\<close> with room for \<open>n + 1\<close> characters: up to \<open>n\<close> characters, ending early
  behind a newline; nothing is left to read where it returns \<open>NULL\<close>.
\<close>

fun fgets_split :: "nat \<Rightarrow> string \<Rightarrow> string \<times> string" where
  "fgets_split 0 s = ([], s)"
| "fgets_split (Suc n) [] = ([], [])"
| "fgets_split (Suc n) (c # s) =
     (if c = CHR 0x0A then ([c], s) else case fgets_split n s of (l, r) \<Rightarrow> (c # l, r))"

definition fgets :: "nat \<Rightarrow> string \<Rightarrow> (string \<times> string) option" where
  "fgets room s = (if s = [] then None else Some (fgets_split (room - 1) s))"

definition strstr :: "string \<Rightarrow> string \<Rightarrow> bool" where
  "strstr s pat = (\<exists>t \<in> set (suffixes s). prefix pat t)"

text \<open>
  \<open>strtok\<close>: the next token, and what a later call with \<open>NULL\<close> goes on with (behind the
  delimiter that ended the token).
\<close>

definition strtok :: "string \<Rightarrow> char list \<Rightarrow> string option \<times> string" where
  "strtok s delims =
     (let s = dropWhile (\<lambda>c. c \<in> set delims) s
      in if s = [] then (None, [])
         else (Some (takeWhile (\<lambda>c. c \<notin> set delims) s), drop 1 (dropWhile (\<lambda>c. c \<notin> set delims) s)))"

definition isspace :: "char \<Rightarrow> bool" where
  "isspace c \<longleftrightarrow> of_char c = (32 :: nat) \<or> (9 \<le> (of_char c :: nat) \<and> (of_char c :: nat) \<le> 13)"

definition hex_value :: "char \<Rightarrow> nat option" where
  "hex_value c = (let k = of_char c :: nat in
     if 48 \<le> k \<and> k \<le> 57 then Some (k - 48)
     else if 97 \<le> k \<and> k \<le> 102 then Some (k - 87)
     else if 65 \<le> k \<and> k \<le> 70 then Some (k - 55)
     else None)"

definition value_of_digits :: "nat \<Rightarrow> nat list \<Rightarrow> nat" where
  "value_of_digits b ds = foldl (\<lambda>v d. v * b + d) 0 ds"

text \<open>
  \<open>strtoul(s, _, 16)\<close>: white space, a sign, an optional \<open>0x\<close>, digits.  A value that does not
  fit is \<open>ULONG_MAX\<close>; a negative one is negated in the type; no digits at all give 0.
\<close>

definition strtoul16 :: "string \<Rightarrow> u64" where
  "strtoul16 s =
     (let s = dropWhile isspace s;
          neg = (s \<noteq> [] \<and> hd s = CHR ''-'');
          s = (if s \<noteq> [] \<and> hd s \<in> {CHR ''-'', CHR ''+''} then tl s else s);
          s = (if 2 < length s \<and> hd s = CHR ''0'' \<and> s ! 1 \<in> {CHR ''x'', CHR ''X''} \<and> hex_value (s ! 2) \<noteq> None
               then drop 2 s else s);
          v = value_of_digits 16 (map (the \<circ> hex_value) (takeWhile (\<lambda>c. hex_value c \<noteq> None) s))
      in if 2 ^ 64 \<le> v then - 1 else if neg then - of_nat v else of_nat v)"

section \<open>Numbers come back\<close>

lemma digits_nonempty [simp]: "digits b n \<noteq> []"
  by (subst digits.simps) simp

lemma digits_bound: "2 \<le> b \<Longrightarrow> d \<in> set (digits b n) \<Longrightarrow> d < b"
proof (induction b n rule: digits.induct)
  case (1 b n)
  then show ?case by (subst (asm) (2) digits.simps) (auto split: if_splits)
qed

lemma value_of_digits: "value_of_digits b (digits b n) = n"
proof (induction b n rule: digits.induct)
  case (1 b n)
  show ?case
  proof (cases "b < 2 \<or> n < b")
    case True
    then show ?thesis by (subst digits.simps) (auto simp: value_of_digits_def)
  next
    case False
    with 1 have "value_of_digits b (digits b (n div b)) = n div b" by simp
    with False show ?thesis by (subst digits.simps) (simp add: value_of_digits_def)
  qed
qed

lemma of_char_digit_char: "d < 16 \<Longrightarrow> of_char (digit_char d) = (if d < 10 then 48 + d else 87 + d :: nat)"
  by (simp add: digit_char_def)

lemma hex_value_digit_char [simp]: "d < 16 \<Longrightarrow> hex_value (digit_char d) = Some d"
  by (auto simp: hex_value_def of_char_digit_char Let_def)

lemma digit_char_neq:
  assumes "d < 16" and "(of_char c :: nat) < 48 \<or> (of_char c :: nat) \<in> {88, 120}"
  shows "digit_char d \<noteq> c"
proof
  assume "digit_char d = c"
  with of_char_digit_char [OF assms(1)] assms show False by (auto split: if_splits)
qed

lemma hexadecimal_chars:
  assumes "c \<in> set (hexadecimal n)"
  obtains d where "d < 16" "c = digit_char d"
  using assms digits_bound [of 16 _ n] by (auto simp: hexadecimal_def)

text \<open>What is printed with \<open>%lx\<close> is read back by \<open>strtoul\<close>.\<close>

theorem strtoul16_hexadecimal:
  assumes "n < 2 ^ 64"
  shows "strtoul16 (hexadecimal n) = of_nat n"
proof -
  let ?h = "hexadecimal n"
  have ne: "?h \<noteq> []" by (simp add: hexadecimal_def)
  have plain: "c \<in> set ?h \<Longrightarrow> \<not> isspace c \<and> c \<notin> {CHR ''-'', CHR ''+'', CHR ''x'', CHR ''X''}" for c
  proof -
    assume "c \<in> set ?h"
    then obtain d where d: "d < 16" "c = digit_char d" by (rule hexadecimal_chars)
    then show ?thesis
      using digit_char_neq [of d] by (auto simp: isspace_def of_char_digit_char)
  qed
  have hd: "hd ?h \<in> set ?h" using ne by simp
  have ws: "dropWhile isspace ?h = ?h" using ne plain [OF hd] by (cases ?h) auto
  have x: "?h ! 1 \<notin> {CHR ''x'', CHR ''X''}" if "2 < length ?h"
    using that plain [OF nth_mem, of 1] by auto
  have sg: "hd ?h \<notin> {CHR ''-'', CHR ''+''}" using plain [OF hd] by auto
  have tk: "takeWhile (\<lambda>c. \<exists>d. hex_value c = Some d) ?h = ?h"
    by (auto simp: takeWhile_eq_all_conv elim!: hexadecimal_chars)
  have "map (the \<circ> hex_value) ?h = digits 16 n"
    using digits_bound [of 16 _ n] by (auto simp: hexadecimal_def intro: map_idI)
  then have v: "value_of_digits 16 (map (the \<circ> hex_value) ?h) = n" by (simp add: value_of_digits)
  show ?thesis
    using assms x sg by (auto simp: strtoul16_def Let_def ws tk v)
qed

end
