(* ===== verification/PT_Toy.thy ===== *)
theory PT_Toy imports PT_Sample PT_Format begin

text \<open>
  \<open>Test/toyexample.c\<close>, the demonstration program, over the functions it is linked with.  A
  build gives the allocation functions the program calls and the check the pass puts in front of
  address computations: the C library's and none for the plain program, the runtime library's
  after the pass.  In unoptimised code the pass puts that check in two places, where the
  address is computed from a local pointer that was passed to a function before: in front of the
  access to the field in \<open>use_after_free\<close> and in front of \<open>p + 1\<close> in \<open>invalid_free\<close>.
  \<open>set_info\<close> and \<open>print_person\<close> pass their pointer to nothing before they use it and get no
  check.  In front of a call the pass checks the address of the local variable
  (\<open>call_argument_check_takes_the_slot\<close>), an address without signature that comes back as it
  is (\<open>zero_signature_unchecked\<close>); these checks are left out.  A result is \<open>None\<close> where a check
  does not return.
\<close>

section \<open>Builds\<close>

type_synonym ('h, 'a) run = "('h, 'a) result option"

record 'h build =
  b_malloc :: "u64 \<Rightarrow> 'h machine \<Rightarrow> ('h, addr) result"
  b_free :: "addr \<Rightarrow> 'h machine \<Rightarrow> ('h, unit) result"
  b_check :: "memory \<Rightarrow> addr \<Rightarrow> (stop + addr) option"

definition plain_build :: "'h libc \<Rightarrow> 'h build" where
  "plain_build L = \<lparr>b_malloc = (\<lambda>n s. Inr (call_malloc L n s)), b_free = call_free L,
     b_check = (\<lambda>m p. Some (Inr p))\<rparr>"

definition ptauth_build :: "config \<Rightarrow> 'h libc \<Rightarrow> 'h build" where
  "ptauth_build cfg L = \<lparr>b_malloc = ptauth_malloc cfg L, b_free = ptauth_free cfg L, b_check = GEPCheck cfg\<rparr>"

definition and_then :: "('h, 'a) run \<Rightarrow> ('a \<Rightarrow> 'h machine \<Rightarrow> ('h, 'b) run) \<Rightarrow> ('h, 'b) run" where
  "and_then r f = (case r of None \<Rightarrow> None | Some (Inl e) \<Rightarrow> Some (Inl e) | Some (Inr (v, s)) \<Rightarrow> f v s)"

lemma and_then_simps [simp]:
  "and_then None f = None" "and_then (Some (Inl e)) f = Some (Inl e)" "and_then (Some (Inr (v, s))) f = f v s"
  by (simp_all add: and_then_def)

lemma and_then_assoc: "and_then (and_then r f) g = and_then r (\<lambda>v s. and_then (f v s) g)"
  by (auto simp: and_then_def split: option.split sum.split)

lemma and_then_returns:
  "and_then r f = Some (Inr w) \<Longrightarrow> \<exists>v s. r = Some (Inr (v, s)) \<and> f v s = Some (Inr w)"
  by (auto simp: and_then_def split: option.splits sum.splits)

definition checked :: "'h build \<Rightarrow> addr \<Rightarrow> 'h machine \<Rightarrow> ('h, addr) run" where
  "checked B p s =
     (case b_check B (mem s) p of
        None \<Rightarrow> None
      | Some (Inl e) \<Rightarrow> Some (Inl (e, s))
      | Some (Inr q) \<Rightarrow> Some (Inr (q, s)))"

text \<open>An access goes to the address without its top byte, which the processor ignores.\<close>

definition untag :: "addr \<Rightarrow> addr" where
  "untag p = p AND mask 56"

definition field :: "addr \<Rightarrow> u64 \<Rightarrow> addr" where
  "field p off = untag (p + off)"

section \<open>The structure\<close>

text \<open>\<open>struct person\<close>: a pointer, an \<open>unsigned int\<close> and an \<open>unsigned long\<close>, naturally aligned.\<close>

definition offset_age :: u64 where "offset_age = 8"
definition offset_ID :: u64 where "offset_ID = 16"
definition sizeof_person :: u64 where "sizeof_person = 24"

definition load32 :: "memory \<Rightarrow> addr \<Rightarrow> u32 option" where
  "load32 m a = map_option (\<lambda>bs. ucast (word_of_bytes bs)) (load_bytes m a 4)"

definition store32 :: "memory \<Rightarrow> addr \<Rightarrow> u32 \<Rightarrow> memory option" where
  "store32 m a w =
     (case load_bytes m a 4 of None \<Rightarrow> None | Some _ \<Rightarrow> Some (store_bytes m a (bytes_of_word 4 (ucast w))))"

definition write_uint :: "addr \<Rightarrow> u32 \<Rightarrow> 'h machine \<Rightarrow> ('h, unit) result" where
  "write_uint a w s =
     (case store32 (mem s) a w of None \<Rightarrow> Inl (Segv, s) | Some m \<Rightarrow> Inr ((), s\<lparr>mem := m\<rparr>))"

definition read_uint :: "addr \<Rightarrow> 'h machine \<Rightarrow> ('h, u32) result" where
  "read_uint a s = (case load32 (mem s) a of None \<Rightarrow> Inl (Segv, s) | Some w \<Rightarrow> Inr (w, s))"

text \<open>\<open>%ld\<close> and \<open>%d\<close> print the argument as a signed number.\<close>

definition ID_message :: "u64 \<Rightarrow> string" where
  "ID_message ID = ''Person ID is = '' @ signed_decimal (sint ID) @ '' '' @ newline"

definition age_message :: "u32 \<Rightarrow> string" where
  "age_message age = ''Person age is = '' @ signed_decimal (sint age) @ '' '' @ newline"

definition set_info :: "addr \<Rightarrow> u32 \<Rightarrow> u64 \<Rightarrow> 'h machine \<Rightarrow> ('h, unit) result" where
  "set_info p age ID s =
     then_do (write_uint (field p offset_age) age s) (\<lambda>(_, s).
     write_ulong (field p offset_ID) ID s)"

definition print_person :: "'h build \<Rightarrow> addr \<Rightarrow> 'h machine \<Rightarrow> ('h, unit) result" where
  "print_person B p s =
     then_do (read_ulong (field p offset_ID) s) (\<lambda>(ID, s).
     let s = call_printf (ID_message ID) s in
     then_do (read_uint (field p offset_age) s) (\<lambda>(age, s).
     let s = call_printf (age_message age) s in
     b_free B p s))"

section \<open>The three bugs\<close>

definition uaf_message :: string where
  "uaf_message = ''Dereferencing p dangling pointer. PTAuth should terminate the program at this point.'' @ newline"

definition df_message :: string where
  "df_message = ''Free a freed pointer. PTAuth should terminate the program at this point.'' @ newline"

definition if_message :: string where
  "if_message = ''Invalid free of a pointer. PTAuth should terminate the program at this point.'' @ newline"

definition toy_use_after_free :: "'h build \<Rightarrow> 'h machine \<Rightarrow> ('h, unit) run" where
  "toy_use_after_free B s =
     and_then (Some (b_malloc B sizeof_person s)) (\<lambda>p s.
     and_then (Some (set_info p 25 50 s)) (\<lambda>_ s.
     and_then (Some (print_person B p s)) (\<lambda>_ s.
     let s = call_printf uaf_message s in
     and_then (checked B p s) (\<lambda>p s.
     and_then (Some (read_ulong (field p offset_ID) s)) (\<lambda>ID s.
     Some (Inr ((), s)))))))"

definition toy_double_free :: "'h build \<Rightarrow> 'h machine \<Rightarrow> ('h, unit) run" where
  "toy_double_free B s =
     and_then (Some (b_malloc B sizeof_person s)) (\<lambda>p s.
     and_then (Some (set_info p 25 50 s)) (\<lambda>_ s.
     and_then (Some (print_person B p s)) (\<lambda>_ s.
     let s = call_printf df_message s in
     Some (b_free B p s))))"

definition toy_invalid_free :: "'h build \<Rightarrow> 'h machine \<Rightarrow> ('h, unit) run" where
  "toy_invalid_free B s =
     and_then (Some (b_malloc B sizeof_person s)) (\<lambda>p s.
     and_then (Some (set_info p 25 50 s)) (\<lambda>_ s.
     and_then (checked B p s) (\<lambda>p s.
     let p = p + 1 * sizeof_person;
         s = call_printf if_message s in
     Some (b_free B p s))))"

definition usage_lines :: "string list" where
  "usage_lines =
     [''Usage: ./stest.arm.elf [OPTIONS]'' @ newline,
      ''./stest.arm.elf uaf     Trigger the Use-After-Free bug'' @ newline,
      ''./stest.arm.elf df      Trigger the Double-Free bug'' @ newline,
      ''./stest.arm.elf if      Trigger the Invalid-Free bug'' @ newline]"

definition print_usage :: "'h machine \<Rightarrow> ('h, unit) run" where
  "print_usage s = (let s = fold call_printf usage_lines s in Some (Inl (Exit 0, s)))"

text \<open>The \<open>else\<close> belongs to the third comparison only.\<close>

definition toy_main :: "'h build \<Rightarrow> string list \<Rightarrow> 'h machine \<Rightarrow> ('h, int) run" where
  "toy_main B argv s =
     and_then (if length argv < 2 then print_usage s else Some (Inr ((), s))) (\<lambda>_ s.
     and_then (if argv ! 1 = ''uaf'' then toy_use_after_free B s else Some (Inr ((), s))) (\<lambda>_ s.
     and_then (if argv ! 1 = ''df'' then toy_double_free B s else Some (Inr ((), s))) (\<lambda>_ s.
     and_then (if argv ! 1 = ''if'' then toy_invalid_free B s else print_usage s) (\<lambda>_ s.
     Some (Inr (0, s))))))"

section \<open>The command line\<close>

lemma print_usage_exits: "print_usage s = Some (Inl (Exit 0, s\<lparr>stdout := stdout s @ usage_lines\<rparr>))"
  by (simp add: print_usage_def usage_lines_def call_printf_def)

lemma toy_main_no_argument:
  "length argv < 2 \<Longrightarrow> toy_main B argv s = Some (Inl (Exit 0, s\<lparr>stdout := stdout s @ usage_lines\<rparr>))"
  by (simp add: toy_main_def print_usage_exits)

lemma toy_main_uaf:
  "toy_main B [prog, ''uaf''] s = and_then (toy_use_after_free B s) (\<lambda>_ s.
     Some (Inl (Exit 0, s\<lparr>stdout := stdout s @ usage_lines\<rparr>)))"
  by (simp add: toy_main_def print_usage_exits)

lemma toy_main_df:
  "toy_main B [prog, ''df''] s = and_then (toy_double_free B s) (\<lambda>_ s.
     Some (Inl (Exit 0, s\<lparr>stdout := stdout s @ usage_lines\<rparr>)))"
  by (simp add: toy_main_def print_usage_exits)

text \<open>Only the third demonstration lets \<open>main\<close> return.\<close>

lemma toy_main_returns:
  assumes "toy_main B argv s = Some (Inr (r, s'))"
  shows "2 \<le> length argv \<and> argv ! 1 = ''if'' \<and> r = 0 \<and> toy_invalid_free B s = Some (Inr ((), s'))"
  using assms by (auto simp: toy_main_def print_usage_exits dest!: and_then_returns split: if_splits)

section \<open>Stores into the object\<close>

lemma load32_None_iff: "load_bytes m a 4 = None \<longleftrightarrow> \<not> region a 4 \<subseteq> dom m"
proof -
  have "c \<in> region a 4 \<longleftrightarrow> (\<exists>i<4. c = a + of_nat i)" for c
  proof
    assume "c \<in> region a 4"
    then show "\<exists>i<4. c = a + of_nat i" by (intro exI [of _ "unat (c - a)"]) (simp add: region_def)
  qed (auto simp: region_def unat_of_nat)
  then show ?thesis by (auto simp: load_bytes_eq_None subset_iff dom_def)
qed

lemma store32_apply:
  assumes "store32 m a w = Some m'" and "c \<notin> region a 4"
  shows "m' c = m c"
  using assms by (auto simp: store32_def region_def store_bytes_apply split: option.splits)

lemma store32_dom:
  assumes "store32 m a w = Some m'"
  shows "dom m' = dom m"
proof -
  have "region a 4 \<subseteq> dom m" using assms load32_None_iff [of m a] by (auto simp: store32_def split: option.splits)
  moreover have "c \<in> dom m'" if "c \<in> region a 4" for c
    using assms that by (auto simp: store32_def region_def store_bytes_apply split: option.splits)
  moreover have "c \<in> dom m' \<longleftrightarrow> c \<in> dom m" if "c \<notin> region a 4" for c
    using store32_apply [OF assms that] by (simp add: dom_def)
  ultimately show ?thesis by (intro set_eqI) blast
qed

lemma load32_store32:
  assumes "store32 m a w = Some m'" shows "load32 m' a = Some w"
proof -
  have "m' (a + of_nat i) = Some (bytes_of_word 4 (ucast w) ! i)" if "i < 4" for i
    using assms that by (auto simp: store32_def store_bytes_apply unat_of_nat simp del: bytes_of_word.simps split: option.splits)
  then have "load_bytes m' a 4 = Some (bytes_of_word 4 (ucast w))" by (simp add: load_bytes_eq_Some del: bytes_of_word.simps)
  moreover have "ucast (take_bit 32 (ucast w :: u64)) = w" by (intro bit_word_eqI) (auto simp: bit_simps dest: bit_imp_le_length)
  ultimately show ?thesis by (simp add: load32_def word_of_bytes_of_word del: bytes_of_word.simps)
qed

lemma load32_cong:
  assumes "\<And>c. c \<in> region a 4 \<Longrightarrow> m c = m' c" shows "load32 m a = load32 m' a"
proof -
  have "load_bytes m a 4 = load_bytes m' a 4"
    by (rule load_bytes_cong, rule assms) (simp add: region_def unat_of_nat)
  then show ?thesis by (simp add: load32_def)
qed

lemma malloc_stdout: "ptauth_malloc cfg L n s = Inr (q, s') \<Longrightarrow> stdout s' = stdout s"
  by (auto simp: ptauth_malloc_def initMD_def write_meta_id_def read_meta_id_def write_ulong_def read_ulong_def
      call_malloc_def call_srand_def call_rand_def then_do_def Let_def split: if_splits option.splits prod.splits sum.splits)

text \<open>What the program holds after its allocation: the live, signed object of 24 bytes.\<close>

definition holds_person ::
  "('h \<Rightarrow> addr \<rightharpoonup> nat) \<Rightarrow> (memory \<times> 'h \<Rightarrow> bool) \<Rightarrow> config \<Rightarrow> 'h machine \<Rightarrow> addr \<Rightarrow> addr \<Rightarrow> u64 \<Rightarrow> bool" where
  "holds_person live ok cfg s q b i \<longleftrightarrow> heap_ok ok s \<and> signed_object cfg live s q b 24 i \<and> i \<noteq> 0"

text \<open>
  The second release of the same pointer depends on what is left of the header: without one it
  faults; a word that gives the pointer its signature lets it free the block again; with any
  other the C library is asked to free address -8.
\<close>

definition second_release :: "config \<Rightarrow> 'h libc \<Rightarrow> addr \<Rightarrow> u64 \<Rightarrow> 'h machine \<Rightarrow> ('h, unit) result" where
  "second_release cfg L b i s =
     (case (load64 (mem s) b, store64 (mem s) b 2) of
        (Some j, Some m) \<Rightarrow>
          call_free L (if expected_signature cfg (b + 8) j = expected_signature cfg (b + 8) i then b else - 8)
            (s\<lparr>mem := m\<rparr>)
      | _ \<Rightarrow> Inl (Segv, s))"

context allocator
begin

abbreviation "person \<equiv> holds_person live ok"
lemmas person_def = holds_person_def [of live ok]

lemma personD:
  assumes "person cfg s q b i"
  shows "heap_ok ok s" "live (heap s) b = Some 32" "load64 (mem s) b = Some i" "q = pacia cfg (b + 8) i"
    "i \<noteq> 0" "unat b + 32 \<le> 2 ^ 47" "region b 32 \<subseteq> dom (mem s)"
  using assms live_blockD(1,2) [of "mem s" "heap s" b 32] by (auto simp: person_def signed_object_def)

lemma person_stdout [simp]: "person cfg (s\<lparr>stdout := x\<rparr>) q b i = person cfg s q b i"
  by (simp add: person_def signed_object_def)

lemma person_fits:
  assumes "person cfg s q b i" and "k + n \<le> 32"
  shows "region (b + of_nat k) n \<subseteq> region b 32" "8 \<le> k \<Longrightarrow> region (b + of_nat k) n \<inter> region b 8 = {}"
proof -
  have top: "unat b + 32 \<le> 2 ^ 64" using personD(6) [OF assms(1)] by simp
  show "region (b + of_nat k) n \<subseteq> region b 32"
  proof (cases "k < 32")
    case True
    then have "unat (b + of_nat k) = unat b + k" using top by (intro unat_add_of_nat) simp_all
    with top assms(2) show ?thesis by (auto simp: region_iff)
  next
    case False
    then have "n = 0" using assms(2) by simp
    then show ?thesis by simp
  qed
  show "region (b + of_nat k) n \<inter> region b 8 = {}" if "8 \<le> k"
  proof (cases "k < 32")
    case True
    then have "unat (b + of_nat k) = unat b + k" using top by (intro unat_add_of_nat) simp_all
    with top assms(2) that show ?thesis by (auto simp: region_iff)
  next
    case False
    then have "n = 0" using assms(2) by simp
    then show ?thesis by simp
  qed
qed

text \<open>A store that stays inside the data keeps the object.\<close>

lemma person_store:
  assumes "person cfg s q b i" and "8 \<le> k" "k + n \<le> 32"
    and "dom m' = dom (mem s)" and "\<And>c. c \<notin> region (b + of_nat k) n \<Longrightarrow> m' c = mem s c"
  shows "person cfg (s\<lparr>mem := m'\<rparr>) q b i"
proof -
  note p = personD [OF assms(1)] and f = person_fits [OF assms(1,3)]
  have "ok (m', heap s)"
  proof (rule ok_write [OF p(1) assms(4)])
    fix c assume "\<And>b n. live (heap s) b = Some n \<Longrightarrow> c \<notin> region b n"
    then have "c \<notin> region b 32" using p(2) by blast
    with f(1) show "m' c = mem s c" by (intro assms(5)) blast
  qed
  moreover have "load64 m' b = load64 (mem s) b"
    using f(2) assms(2,5) by (intro load64_cong) blast
  ultimately show ?thesis using p by (simp add: person_def signed_object_def)
qed

lemma person_write_uint:
  assumes "person cfg s q b i" and "8 \<le> k" "k + 4 \<le> 32"
  shows "\<exists>m'. write_uint (b + of_nat k) w s = Inr ((), s\<lparr>mem := m'\<rparr>) \<and> person cfg (s\<lparr>mem := m'\<rparr>) q b i \<and>
    load32 m' (b + of_nat k) = Some w"
proof -
  have "load_bytes (mem s) (b + of_nat k) 4 \<noteq> None"
    using person_fits(1) [OF assms(1,3)] personD(7) [OF assms(1)] unfolding load32_None_iff by blast
  then obtain m' where m': "store32 (mem s) (b + of_nat k) w = Some m'" by (auto simp: store32_def)
  have "person cfg (s\<lparr>mem := m'\<rparr>) q b i"
    using store32_dom [OF m'] store32_apply [OF m'] by (intro person_store [OF assms]) simp_all
  with m' show ?thesis by (intro exI [of _ m']) (simp add: write_uint_def load32_store32)
qed

lemma person_write_ulong:
  assumes "person cfg s q b i" and "8 \<le> k" "k + 8 \<le> 32"
  shows "\<exists>m'. write_ulong (b + of_nat k) w s = Inr ((), s\<lparr>mem := m'\<rparr>) \<and> person cfg (s\<lparr>mem := m'\<rparr>) q b i \<and>
    load64 m' (b + of_nat k) = Some w \<and> (\<forall>c. c \<notin> region (b + of_nat k) 8 \<longrightarrow> m' c = mem s c)"
proof -
  have "load64 (mem s) (b + of_nat k) \<noteq> None"
    using person_fits(1) [OF assms(1,3)] personD(7) [OF assms(1)] unfolding load64_None_iff by blast
  then obtain m' where m': "store64 (mem s) (b + of_nat k) w = Some m'" using ram.store_exists by blast
  have "person cfg (s\<lparr>mem := m'\<rparr>) q b i"
    using store64_dom [OF m'] store64_apply [OF m'] by (intro person_store [OF assms]) simp_all
  with m' show ?thesis
    using ram.load_same [OF m'] store64_apply [OF m'] by (intro exI [of _ m']) (simp add: write_ulong_def)
qed

text \<open>The object's own pointer passes the check and addresses its field.\<close>

lemma untag_object:
  assumes "unat b + 32 \<le> 2 ^ 47" and "j < 24" and "TOPBYTEIGNORE cfg"
  shows "untag (pacia cfg (b + 8) i + of_nat j) = b + of_nat (8 + j)"
proof -
  let ?q = "pacia cfg (b + 8) i"
  have u: "unat (b + of_nat (8 + j)) = unat b + (8 + j)"
    using assms(1,2) by (intro unat_add_of_nat [where n = 32]) simp_all
  have b8: "unat (b + 8) = unat b + 8" using assms(1) by (subst unat_add_small) simp_all
  have can: "canonical (b + 8)" using assms(1) b8 by (simp add: canonical_def)
  have "take_bit 56 ?q = take_bit 56 (b + 8)"
    using assms(3) can by (intro bit_word_eqI) (auto simp: bit_take_bit_iff bit_pacia SHIFT_def canonical_iff_bits)
  then have "take_bit 56 (?q + of_nat j) = take_bit 56 (b + 8 + of_nat j)"
    using word_take_bit_add [of 56 ?q "of_nat j"] word_take_bit_add [of 56 "b + 8" "of_nat j"] by simp
  also have "\<dots> = take_bit 56 (b + of_nat (8 + j))" by (simp add: add.assoc)
  also have "\<dots> = b + of_nat (8 + j)"
  proof -
    have "unat (b + of_nat (8 + j)) < 2 ^ 56" using u assms(1,2) by simp
    then show ?thesis by (simp only: word_unat_eq_iff unsigned_take_bit_eq take_bit_nat_eq_self_iff)
  qed
  finally show ?thesis by (simp add: untag_def and_mask_eq_take_bit)
qed

lemma person_fields:
  assumes "person cfg s q b i" and "TOPBYTEIGNORE cfg"
  shows "field q offset_age = b + 16" "field q offset_ID = b + 24"
  using untag_object [OF personD(6) [OF assms(1)] _ assms(2), of 8 i]
    untag_object [OF personD(6) [OF assms(1)] _ assms(2), of 16 i] personD(4) [OF assms(1)]
  by (simp_all add: field_def offset_age_def offset_ID_def)

lemma person_checked:
  assumes "person cfg s q b i" and "TOPBYTEIGNORE cfg"
  shows "checked (ptauth_build cfg L) q s = Some (Inr (q, s))"
proof -
  note p = personD [OF assms(1)]
  have top: "unat b + 8 \<le> 2 ^ 47" using p(6) by simp
  have can: "canonical (b + 8)" by (rule xpac_header(2) [OF top])
  have hdr: "(q - 8) AND NOT (MASKHIGHBIT cfg) = b"
    using xpac_header(1) [OF top] p(4) by (simp add: strip_is_xpac)
  have aut: "autia cfg q i t = xpac cfg q" for t
    using can p(4) by (simp add: autia_eq signature_pacia)
  have xq: "xpac cfg q = b + 8" using can p(4) by simp
  have "GEPCheck cfg (mem s) q = Some (Inr q)"
  proof (cases "canonical q")
    case True
    then show ?thesis using canonical_high_part [of q cfg] by (simp add: GEPCheck_def)
  next
    case False
    then have "q \<noteq> 0" by auto
    with False show ?thesis
      using canonical_high_part [of q cfg] hdr p(3,5) aut xq assms(2)
      by (simp add: GEPCheck_def validatePointer_def)
  qed
  then show ?thesis by (simp add: checked_def ptauth_build_def)
qed

lemma person_malloc:
  fixes cfg :: config
  assumes ok: "heap_ok ok s" and tbi: "checkTBI L"
    and mal: "l_malloc L 32 (mem s, heap s) = (b, m, h)" and b0: "b \<noteq> 0"
  defines "i \<equiv> fresh_id L (clock s)" and "q \<equiv> pacia cfg (b + 8) (fresh_id L (clock s))"
  shows "\<exists>s'. ptauth_malloc cfg L sizeof_person s = Inr (q, s') \<and> person cfg s' q b i \<and> stdout s' = stdout s"
proof -
  obtain s' where "ptauth_malloc cfg L 24 s = Inr (q, s')" "signed_object cfg live s' q b 24 i" "heap_ok ok s'"
    using malloc_spec [OF ok tbi, of 24 b m h cfg] mal b0 unfolding i_def q_def by auto
  moreover have "i \<noteq> 0" using unat_draw_id(1) unfolding i_def fresh_id_def by (metis unat_0 not_numeral_le_zero)
  ultimately show ?thesis
    using malloc_stdout [of cfg L 24 s q s'] tbi by (auto simp: sizeof_person_def person_def)
qed

lemma person_set_info:
  assumes "person cfg s q b i" and "TOPBYTEIGNORE cfg"
  shows "\<exists>s'. set_info q age ID s = Inr ((), s') \<and> person cfg s' q b i \<and> stdout s' = stdout s \<and>
    load64 (mem s') (b + 24) = Some ID \<and> load32 (mem s') (b + 16) = Some age"
proof -
  obtain m1 where m1: "write_uint (b + 16) age s = Inr ((), s\<lparr>mem := m1\<rparr>)" "person cfg (s\<lparr>mem := m1\<rparr>) q b i"
      "load32 m1 (b + 16) = Some age"
    using person_write_uint [OF assms(1), of 16 age] by auto
  obtain m2 where m2: "write_ulong (b + 24) ID (s\<lparr>mem := m1\<rparr>) = Inr ((), s\<lparr>mem := m1, mem := m2\<rparr>)"
      "person cfg (s\<lparr>mem := m1, mem := m2\<rparr>) q b i" "load64 m2 (b + 24) = Some ID"
      "\<And>c. c \<notin> region (b + 24) 8 \<Longrightarrow> m2 c = m1 c"
    using person_write_ulong [OF m1(2), of 24 ID] by auto
  have "load32 m2 (b + 16) = load32 m1 (b + 16)"
  proof (intro load32_cong)
    fix c assume c: "c \<in> region (b + 16) 4"
    have "unat (b + 16) = unat b + 16" "unat (b + 24) = unat b + 24"
      using personD(6) [OF assms(1)] by (subst unat_add_small; simp)+
    then have "c \<notin> region (b + 24) 8" using c personD(6) [OF assms(1)] by (auto simp: region_iff)
    then show "m2 c = m1 c" by (rule m2(4))
  qed
  with m1 m2 show ?thesis
    by (intro exI [of _ "s\<lparr>mem := m1, mem := m2\<rparr>"]) (simp add: set_info_def person_fields [OF assms])
qed

text \<open>Printing the object ends in its release.\<close>

lemma person_print:
  assumes "person cfg s q b i" and "TOPBYTEIGNORE cfg"
    and "load64 (mem s) (b + 24) = Some ID" and "load32 (mem s) (b + 16) = Some age"
  shows "print_person (ptauth_build cfg L) q s =
    ptauth_free cfg L q (call_printf (age_message age) (call_printf (ID_message ID) s))"
proof -
  have "print_person (ptauth_build cfg L) q s =
      b_free (ptauth_build cfg L) q (call_printf (age_message age) (call_printf (ID_message ID) s))"
    using assms(3,4)
    by (simp add: print_person_def person_fields [OF assms(1,2)] read_ulong_def read_uint_def call_printf_def Let_def)
  then show ?thesis by (simp add: ptauth_build_def)
qed

text \<open>The release marks the header and gives the block back.\<close>

lemma person_free:
  assumes "person cfg s q b i"
  shows "\<exists>m m' h'. store64 (mem s) b 2 = Some m \<and> load64 m b = Some 2 \<and> l_free L b (m, heap s) = Inr (m', h') \<and>
    ptauth_free cfg L q s = Inr ((), s\<lparr>mem := m', heap := h'\<rparr>) \<and> live h' b = None"
proof -
  note p = personD [OF assms]
  have top: "unat b + 8 \<le> 2 ^ 47" using p(6) by simp
  note can = xpac_header(2) [OF top]
  obtain m where m: "store64 (mem s) b 2 = Some m" "ok (m, heap s)"
    using header_store [OF p(1,2), of 2] by auto
  obtain m' h' where f: "l_free L b (m, heap s) = Inr (m', h')" "live h' = (live (heap s))(b := None)"
    using free_law [OF m(2) p(2)] by blast
  have "q \<noteq> 0"
  proof
    assume "q = 0"
    then have "xpac cfg (pacia cfg (b + 8) i) = 0" using p(4) by simp
    then have "b + 8 = 0" using can by simp
    moreover have "unat (b + 8) = unat b + 8" using top by (subst unat_add_small) simp_all
    ultimately show False by simp
  qed
  moreover have "autia cfg q i t = b + 8" for t using can p(4) by (simp add: autia_eq signature_pacia)
  ultimately have "ptauth_free cfg L q s = Inr ((), s\<lparr>mem := m', heap := h'\<rparr>)"
    using p(3,4) xpac_header(1) [OF top, of cfg i] m(1) f(1) by (simp add: ptauth_free_eq call_free_def)
  with m f ram.load_same [OF m(1)] show ?thesis by auto
qed

lemma second_free:
  assumes "unat b + 8 \<le> 2 ^ 47"
  shows "ptauth_free cfg L (pacia cfg (b + 8) i) s = second_release cfg L b i s"
proof -
  note can = xpac_header(2) [OF assms]
  have "pacia cfg (b + 8) i \<noteq> 0"
  proof
    assume "pacia cfg (b + 8) i = 0"
    then have "xpac cfg (pacia cfg (b + 8) i) = 0" by simp
    then have "b + 8 = 0" using can by simp
    moreover have "unat (b + 8) = unat b + 8" using assms(1) by (subst unat_add_small) simp_all
    ultimately show False by simp
  qed
  moreover have "autia cfg (pacia cfg (b + 8) i) j t =
      (if expected_signature cfg (b + 8) j = expected_signature cfg (b + 8) i then b + 8 else 0)" for j t
    using can by (auto simp: autia_eq signature_pacia expected_signature_pacia)
  ultimately show ?thesis
    using xpac_header(1) [OF assms, of cfg i]
    by (auto simp: ptauth_free_eq second_release_def split: option.split)
qed

lemma toy_double_free_result:
  assumes ok: "heap_ok ok s" and tbi: "checkTBI L" and top: "TOPBYTEIGNORE cfg"
    and mal: "l_malloc L 32 (mem s, heap s) = (b, m, h)" and b0: "b \<noteq> 0"
  shows "\<exists>m0 h0 t. live h0 b = Some 32 \<and> load64 m0 b = Some 2 \<and> l_free L b (m0, h0) = Inr (mem t, heap t) \<and>
    stdout t = stdout s @ [ID_message 50, age_message 25, df_message] \<and>
    toy_double_free (ptauth_build cfg L) s = Some (second_release cfg L b (fresh_id L (clock s)) t)"
proof -
  let ?i = "fresh_id L (clock s)" let ?B = "ptauth_build cfg L"
  let ?q = "pacia cfg (b + 8) ?i"
  obtain s1 where s1: "ptauth_malloc cfg L sizeof_person s = Inr (?q, s1)" "person cfg s1 ?q b ?i" "stdout s1 = stdout s"
    using person_malloc [where cfg = cfg, OF ok tbi mal b0] by blast
  obtain s2 where s2: "set_info ?q 25 50 s1 = Inr ((), s2)" "person cfg s2 ?q b ?i" "stdout s2 = stdout s1"
      "load64 (mem s2) (b + 24) = Some 50" "load32 (mem s2) (b + 16) = Some 25"
    using person_set_info [OF s1(2) top] by blast
  let ?s3 = "call_printf (age_message 25) (call_printf (ID_message 50) s2)"
  have s3: "person cfg ?s3 ?q b ?i" using s2(2) by (simp add: call_printf_def)
  obtain m1 m' h' where f: "load64 m1 b = Some 2" "l_free L b (m1, heap ?s3) = Inr (m', h')"
      "ptauth_free cfg L ?q ?s3 = Inr ((), ?s3\<lparr>mem := m', heap := h'\<rparr>)"
    using person_free [OF s3] by blast
  let ?t = "call_printf df_message (?s3\<lparr>mem := m', heap := h'\<rparr>)"
  have below: "unat b + 8 \<le> 2 ^ 47" using personD(6) [OF s1(2)] by simp
  have "toy_double_free ?B s = Some (second_release cfg L b ?i ?t)"
    using s1(1) s2(1) person_print [OF s2(2) top s2(4,5)] f(3) second_free [OF below, of cfg ?i ?t]
    by (simp add: toy_double_free_def Let_def) (simp add: ptauth_build_def)
  moreover have "l_free L b (m1, heap ?s3) = Inr (mem ?t, heap ?t)"
    using f(2) by (simp add: call_printf_def)
  moreover have "stdout ?t = stdout s @ [ID_message 50, age_message 25, df_message]"
    using s1(3) s2(3) by (simp add: call_printf_def)
  ultimately show ?thesis using f(1) personD(2) [OF s3] by blast
qed

text \<open>
  Freeing \<open>p + 1\<close> takes the field \<open>ID\<close> for the header.
\<close>

lemma toy_invalid_free_result:
  assumes ok: "heap_ok ok s" and tbi: "checkTBI L" and tpb: "TOPBYTEIGNORE cfg"
    and mal: "l_malloc L 32 (mem s, heap s) = (b, m, h)" and b0: "b \<noteq> 0"
    and sig: "expected_signature cfg (b + 32) 50 \<noteq> expected_signature cfg (b + 8) (fresh_id L (clock s))"
    and room: "canonical (b + 32)"
  shows "\<exists>s'. toy_invalid_free (ptauth_build cfg L) s = Some (call_free L (- 8) s')"
proof -
  let ?i = "fresh_id L (clock s)" let ?B = "ptauth_build cfg L"
  let ?q = "pacia cfg (b + 8) ?i"
  obtain s1 where s1: "ptauth_malloc cfg L sizeof_person s = Inr (?q, s1)" "person cfg s1 ?q b ?i"
    using person_malloc [where cfg = cfg, OF ok tbi mal b0] by blast
  obtain s2 where s2: "set_info ?q 25 50 s1 = Inr ((), s2)" "person cfg s2 ?q b ?i"
      "load64 (mem s2) (b + 24) = Some 50"
    using person_set_info [OF s1(2) tpb, of 25 50] by blast
  note p = personD [OF s2(2)]
  have top: "unat b + 8 \<le> 2 ^ 47" using p(6) by simp
  have xq: "xpac cfg ?q = b + 8" using xpac_header(2) [OF top] by simp
  have u: "unat (b + 24) = unat b + 24" "unat (b + 8) = unat b + 8" "unat (b + 32) = unat b + 32"
    using p(6) by (subst unat_add_small; simp)+
  have c24: "canonical (b + 24)" using u p(6) by (simp add: canonical_def)
  have e: "?q + 24 - 8 = ?q + 16" "b + 8 + 24 = b + 32" "b + 8 + 16 = b + 24" by simp_all
  have x: "xpac cfg (?q + 24) = b + 32" "xpac cfg (?q + 24 - 8) = b + 24"
    using xpac_add [of cfg ?q 24] xpac_add [of cfg ?q 16] room c24 unfolding e(1) xq e(2,3) by (simp_all only: xpac_canonical)
  have sg: "signature_of cfg (?q + 24) = expected_signature cfg (b + 8) ?i"
  proof -
    have "signature_of cfg (?q + 24) = signature_of cfg ?q"
      using room xq by (intro signature_of_add) (simp add: add.assoc)
    then show ?thesis using xpac_header(2) [OF top] by (simp add: signature_pacia)
  qed
  have "?q + 24 \<noteq> 0" using x(1) u(3) by (metis canonical_0 xpac_canonical add_is_0 unat_0 zero_neq_numeral)
  moreover have "autia cfg (?q + 24) 50 t = 0" for t
    using sig sg x(1) by (metis autia_eq expected_signature_xpac)
  moreover obtain m2 where "store64 (mem s2) (b + 24) 2 = Some m2" using s2(3) ram.store_exists by blast
  ultimately have "ptauth_free cfg L (?q + 24) (call_printf if_message s2) =
      call_free L (- 8) ((call_printf if_message s2)\<lparr>mem := m2\<rparr>)"
    using s2(3) x(2) by (simp add: ptauth_free_eq call_printf_def)
  then have "toy_invalid_free ?B s = Some (call_free L (- 8) ((call_printf if_message s2)\<lparr>mem := m2\<rparr>))"
    using s1(1) s2(1) person_checked [OF s2(2) tpb]
    by (simp add: toy_invalid_free_def sizeof_person_def Let_def) (simp add: ptauth_build_def sizeof_person_def)
  then show ?thesis by blast
qed

end

section \<open>What the demonstration shows\<close>

text \<open>
  C31. The demonstration of a double free, with the top byte ignored as shipped.  Linked with the
  runtime library over any C library that keeps the laws of \<open>allocator\<close>, when the allocation
  succeeds, the program run with \<open>df\<close> fills its object, prints 50 and 25, frees it and frees it
  again.  The runtime library itself reports nothing: what happens depends on the word \<open>free\<close>
  left where the header was (a 2 before).  Where the word is unmapped the access faults; where it
  gives the pointer its signature the block goes to \<open>free\<close> a second time; with any other word
  \<open>free\<close> is called with the address -8.  If that call returns, the usage is printed and the process
  exits with 0.
\<close>

theorem toy_double_free_ends:
  assumes "allocator L live ok" and "heap_ok ok s" and "checkTBI L" and "TOPBYTEIGNORE cfg"
    and "l_malloc L 32 (mem s, heap s) = (b, m, h)" and "b \<noteq> 0"
  shows "\<exists>m0 h0 t. live h0 b = Some 32 \<and> load64 m0 b = Some 2 \<and> l_free L b (m0, h0) = Inr (mem t, heap t) \<and>
    stdout t = stdout s @ [ID_message 50, age_message 25, df_message] \<and>
    toy_main (ptauth_build cfg L) [prog, ''df''] s =
      (case case load64 (mem t) b of
              None \<Rightarrow> Inl (Segv, t)
            | Some j \<Rightarrow>
                call_free L (if expected_signature cfg (b + 8) j = expected_signature cfg (b + 8) (fresh_id L (clock s))
                             then b else - 8)
                  (t\<lparr>mem := the (store64 (mem t) b 2)\<rparr>) of
         Inl e \<Rightarrow> Some (Inl e)
       | Inr (_, t) \<Rightarrow> Some (Inl (Exit 0, t\<lparr>stdout := stdout t @ usage_lines\<rparr>)))"
proof -
  let ?i = "fresh_id L (clock s)"
  obtain m0 h0 t where t: "live h0 b = Some 32" "load64 m0 b = Some 2" "l_free L b (m0, h0) = Inr (mem t, heap t)"
      "stdout t = stdout s @ [ID_message 50, age_message 25, df_message]"
      "toy_double_free (ptauth_build cfg L) s = Some (second_release cfg L b ?i t)"
    using allocator.toy_double_free_result [OF assms] by blast
  have "second_release cfg L b ?i t = (case load64 (mem t) b of None \<Rightarrow> Inl (Segv, t)
      | Some j \<Rightarrow> call_free L (if expected_signature cfg (b + 8) j = expected_signature cfg (b + 8) ?i then b else - 8)
          (t\<lparr>mem := the (store64 (mem t) b 2)\<rparr>))"
  proof (cases "load64 (mem t) b")
    case (Some j)
    then obtain m where "store64 (mem t) b 2 = Some m" using ram.store_exists by blast
    with Some show ?thesis by (simp add: second_release_def)
  qed (simp add: second_release_def)
  with t show ?thesis
    by (intro exI [of _ m0] exI [of _ h0] exI [of _ t]) (simp add: toy_main_df and_then_def split: sum.split)
qed

theorem toy_double_free_ends_witness:
  "\<exists>m0 h0 t. ff_live h0 65536 = Some 32 \<and> load64 m0 65536 = Some 2 \<and>
    l_free sample_libc 65536 (m0, h0) = Inr (mem t, heap t) \<and>
    toy_main (ptauth_build config_h sample_libc) [''stest'', ''df''] sample_start =
      (case call_free sample_libc (- 8) (t\<lparr>mem := the (store64 (mem t) 65536 2)\<rparr>) of
         Inl e \<Rightarrow> Some (Inl e)
       | Inr (_, t) \<Rightarrow> Some (Inl (Exit 0, t\<lparr>stdout := stdout t @ usage_lines\<rparr>)))"
proof -
  let ?i = "fresh_id sample_libc (clock sample_start)"
  have "l_malloc sample_libc 32 (mem sample_start, heap sample_start) = (65536, sample_block, sample_heap)"
    by (rule sample_malloc_block)
  from toy_double_free_ends [OF ff.allocator_axioms sample_start_ok sample_tbi _ this, of config_h "''stest''"]
  obtain m0 h0 t where t: "ff_live h0 65536 = Some 32" "load64 m0 65536 = Some 2"
      "l_free sample_libc 65536 (m0, h0) = Inr (mem t, heap t)"
      "toy_main (ptauth_build config_h sample_libc) [''stest'', ''df''] sample_start =
      (case case load64 (mem t) 65536 of
              None \<Rightarrow> Inl (Segv, t)
            | Some j \<Rightarrow>
                call_free sample_libc (if expected_signature config_h (65536 + 8) j = expected_signature config_h (65536 + 8) ?i
                             then 65536 else - 8)
                  (t\<lparr>mem := the (store64 (mem t) 65536 2)\<rparr>) of
         Inl e \<Rightarrow> Some (Inl e)
       | Inr (_, t) \<Rightarrow> Some (Inl (Exit 0, t\<lparr>stdout := stdout t @ usage_lines\<rparr>)))"
    by (auto simp del: toy_main_df)
  have "mem t = m0"
    using t(3) by (auto simp: sample_libc_def ff_free_def split: if_splits option.splits)
  then have "load64 (mem t) 65536 = Some 2" using t(2) by simp
  moreover have "expected_signature config_h (65536 + 8) 2 \<noteq> expected_signature config_h (65536 + 8) ?i"
    by (auto simp: sample_fresh expected_signature_eq_iff sig_bits_def sample_id_val)
  ultimately show ?thesis
    using t by (intro exI [of _ m0] exI [of _ h0] exI [of _ t]) simp
qed

end
