(* ===== verification/PT_Utils.thy ===== *)
theory PT_Utils imports PT_Format begin

text \<open>
  \<open>utils.c\<close>: \<open>checkPointstoHeap\<close>, which reads the address ranges of the heap from the
  process's memory map.  The file system is a function from a path to the text of the file,
  \<open>None\<close> where \<open>fopen\<close> returns \<open>NULL\<close>.  The text holds no NUL.  The local array
  \<open>previousLine\<close> is written and never read, and the globals \<open>arrayStartAddress\<close>,
  \<open>arrayEndAddress\<close>, \<open>arrayAddressLength\<close>, \<open>initialized_address\<close>, \<open>readonly\<close> and
  \<open>globalVar\<close> are used by no code: they are left out.
\<close>

section \<open>The globals\<close>

record probe =
  arrayAddress :: "u64 list"
  address_start :: u64
  address_end :: u64
  filename :: string
  cnt :: nat
  printed :: "string list"

definition ARRAY_SIZE :: nat where "ARRAY_SIZE = 100"

definition probe_init :: probe where
  "probe_init = \<lparr>arrayAddress = replicate ARRAY_SIZE 0, address_start = 0, address_end = 0,
     filename = [], cnt = 0, printed = []\<rparr>"

definition print_line :: "string \<Rightarrow> probe \<Rightarrow> probe" where
  "print_line t s = s\<lparr>printed := printed s @ [t]\<rparr>"

section \<open>One line\<close>

text \<open>A write past the end of the array is no defined behaviour.\<close>

definition push_address :: "u64 \<Rightarrow> probe \<Rightarrow> stop + probe" where
  "push_address a s =
     (if cnt s < length (arrayAddress s)
      then Inr (s\<lparr>arrayAddress := (arrayAddress s)[cnt s := a], cnt := cnt s + 1\<rparr>)
      else Inl Undefined)"

text \<open>\<open>strtoul\<close> of a token that is not there reads through \<open>NULL\<close>.\<close>

definition strtoul_token :: "string option \<Rightarrow> stop + u64" where
  "strtoul_token t = (case t of None \<Rightarrow> Inl Segv | Some t \<Rightarrow> Inr (strtoul16 t))"

definition record_range :: "string \<Rightarrow> probe \<Rightarrow> stop + probe" where
  "record_range line s =
     (let (Token, rest) = strtok line [CHR ''-''] in
      then_do (strtoul_token Token) (\<lambda>a.
      let s = s\<lparr>address_start := a\<rparr>;
          (Token, rest) = strtok rest [CHR '' ''] in
      then_do (strtoul_token Token) (\<lambda>a.
      let s = s\<lparr>address_end := a\<rparr>;
          (Token, rest) = strtok rest [CHR '' ''] in
      then_do (push_address (address_start s) s) (\<lambda>s.
      push_address (address_end s) s))))"

text \<open>
  The line with the heap and the line behind it are recorded; \<open>heapfound\<close> is a local of the
  call.
\<close>

definition read_line :: "string \<Rightarrow> bool \<Rightarrow> probe \<Rightarrow> stop + bool \<times> probe" where
  "read_line line heapfound s =
     (let s = print_line (''Lineeee is = '' @ line @ '' '' @ newline) s in
      if strstr line ''heap'' then then_do (record_range line s) (\<lambda>s. Inr (True, s))
      else if heapfound then then_do (record_range line s) (\<lambda>s. Inr (False, s))
      else Inr (heapfound, s))"

section \<open>The function\<close>

lemma fgets_split_length: "fgets_split n s = (l, r) \<Longrightarrow> length l + length r = length s"
proof (induction n s arbitrary: l r rule: fgets_split.induct)
  case (3 n c s)
  then show ?case by (cases "fgets_split n s") (auto split: if_splits)
qed simp_all

lemma fgets_decreases: "2 \<le> room \<Longrightarrow> fgets room s = Some (l, r) \<Longrightarrow> length r < length s"
proof -
  assume room: "2 \<le> room" and g: "fgets room s = Some (l, r)"
  then obtain c t where s: "s = c # t" by (cases s) (auto simp: fgets_def)
  from room obtain k where k: "room = Suc (Suc k)" by (metis add_2_eq_Suc less_eqE)
  from g show ?thesis
    using fgets_split_length [of k t] by (auto simp: fgets_def s k split: if_splits prod.splits)
qed

function read_loop :: "string \<Rightarrow> bool \<Rightarrow> probe \<Rightarrow> stop + probe" where
  "read_loop tx heapfound s =
     (case fgets 512 tx of
        None \<Rightarrow> Inr s
      | Some (line, rest) \<Rightarrow> then_do (read_line line heapfound s) (\<lambda>(heapfound, s). read_loop rest heapfound s))"
  by pat_completeness auto
termination
  by (relation "measure (\<lambda>(tx, _). length tx)") (auto dest: fgets_decreases [rotated])

declare read_loop.simps [simp del]

text \<open>The final loop reads \<open>arrayAddress[0]\<close> to \<open>arrayAddress[cnt - 1]\<close>.\<close>

definition print_addresses :: "probe \<Rightarrow> stop + probe" where
  "print_addresses s =
     (if cnt s \<le> length (arrayAddress s)
      then Inr (fold (\<lambda>a. print_line (hexadecimal (unat a) @ newline @ '' '')) (take (cnt s) (arrayAddress s)) s)
      else Inl Undefined)"

definition checkPointstoHeap :: "(string \<Rightarrow> string option) \<Rightarrow> int \<Rightarrow> probe \<Rightarrow> stop + probe" where
  "checkPointstoHeap fopen pid s =
     (let s = s\<lparr>filename := ''/proc/'' @ signed_decimal pid @ ''/maps''\<rparr> in
      case fopen (filename s) of
        None \<Rightarrow> Inl Segv
      | Some tx \<Rightarrow> then_do (read_loop tx False s) print_addresses)"

section \<open>The bounds of the array\<close>

definition probe_ok :: "probe \<Rightarrow> bool" where
  "probe_ok s \<longleftrightarrow> length (arrayAddress s) = ARRAY_SIZE \<and> cnt s \<le> ARRAY_SIZE \<and> even (cnt s)"

lemma record_range_eq:
  "record_range line s =
    (case strtok line [CHR ''-''] of (Token, rest) \<Rightarrow>
     case Token of None \<Rightarrow> Inl Segv
     | Some lo \<Rightarrow>
       (case fst (strtok rest [CHR '' '']) of None \<Rightarrow> Inl Segv
        | Some hi \<Rightarrow>
          if cnt s + 1 < length (arrayAddress s)
          then Inr (s\<lparr>address_start := strtoul16 lo, address_end := strtoul16 hi, cnt := cnt s + 2,
            arrayAddress := (arrayAddress s)[cnt s := strtoul16 lo, cnt s + 1 := strtoul16 hi]\<rparr>)
          else Inl Undefined))"
  by (auto simp: record_range_def strtoul_token_def push_address_def Let_def split: prod.split option.split)

lemma record_range_ok:
  assumes "record_range line s = Inr s'" and "probe_ok s"
  shows "probe_ok s'" "cnt s' = cnt s + 2" "cnt s + 2 \<le> ARRAY_SIZE"
  using assms by (auto simp: record_range_eq probe_ok_def split: prod.splits option.splits if_splits)

lemma read_line_ok:
  assumes "read_line line h s = Inr (h', s')" and "probe_ok s"
  shows "probe_ok s'"
  using assms record_range_ok(1) [of line "print_line (''Lineeee is = '' @ line @ '' '' @ newline) s"]
  by (auto simp: read_line_def then_do_eq_Inr probe_ok_def print_line_def Let_def split: if_splits)

lemma read_loop_ok: "read_loop tx h s = Inr s' \<Longrightarrow> probe_ok s \<Longrightarrow> probe_ok s'"
proof (induction tx h s rule: read_loop.induct)
  case (1 tx h s)
  show ?case
  proof (cases "fgets 512 tx")
    case None
    then show ?thesis using 1 by (subst (asm) (2) read_loop.simps) simp
  next
    case (Some lr)
    obtain line rest where lr: "lr = (line, rest)" by (cases lr)
    note got = Some [unfolded lr]
    from 1(2) obtain h1 s1 where "read_line line h s = Inr (h1, s1)" "read_loop rest h1 s1 = Inr s'"
      by (subst (asm) read_loop.simps) (auto simp: got then_do_eq_Inr)
    with 1(1) [OF got refl] 1(3) read_line_ok show ?thesis by blast
  qed
qed

text \<open>A call that returns leaves the array within its bounds.\<close>

lemma checkPointstoHeap_ok:
  assumes "checkPointstoHeap fopen pid s = Inr s'" and "probe_ok s"
  shows "probe_ok s'"
proof -
  have fold_ok: "probe_ok (fold (\<lambda>a. print_line (f a)) as t) = probe_ok t" for f :: "u64 \<Rightarrow> string" and as t
    by (induction as arbitrary: t) (simp_all add: print_line_def probe_ok_def)
  from assms(1) obtain tx t where "read_loop tx False (s\<lparr>filename := filename t\<rparr>) = Inr t \<or>
      read_loop tx False (s\<lparr>filename := ''/proc/'' @ signed_decimal pid @ ''/maps''\<rparr>) = Inr t"
      "print_addresses t = Inr s'"
    by (auto simp: checkPointstoHeap_def then_do_eq_Inr Let_def split: option.splits)
  then have "probe_ok t" "print_addresses t = Inr s'"
    using read_loop_ok assms(2) by (auto simp: probe_ok_def)
  with fold_ok show ?thesis by (auto simp: print_addresses_def split: if_splits)
qed

text \<open>The fifty-first range a process records is written past the end of the array.\<close>

lemma record_range_full:
  assumes "cnt s = ARRAY_SIZE" and "probe_ok s" and "strtok line [CHR ''-''] = (Some lo, rest)"
    and "fst (strtok rest [CHR '' '']) \<noteq> None"
  shows "record_range line s = Inl Undefined"
  using assms by (auto simp: record_range_eq probe_ok_def)

text \<open>Without \<open>/proc\<close> the unchecked \<open>fopen\<close> is a read through \<open>NULL\<close>.\<close>

lemma checkPointstoHeap_no_file:
  assumes "fopen (''/proc/'' @ signed_decimal pid @ ''/maps'') = None"
  shows "checkPointstoHeap fopen pid s = Inl Segv"
  using assms by (simp add: checkPointstoHeap_def)

section \<open>What is recorded\<close>

text \<open>A line of the memory map: the two addresses in hexadecimal, and the rest of the line.\<close>

definition map_line :: "u64 \<Rightarrow> u64 \<Rightarrow> string \<Rightarrow> string" where
  "map_line lo hi rest = hexadecimal (unat lo) @ ''-'' @ hexadecimal (unat hi) @ '' '' @ rest"

lemma hexadecimal_no:
  assumes "c \<in> {CHR ''-'', CHR '' ''}"
  shows "c \<notin> set (hexadecimal n)"
proof
  assume "c \<in> set (hexadecimal n)"
  then obtain d where "d < 16" "c = digit_char d" by (rule hexadecimal_chars)
  then show False using digit_char_neq [of d c] assms by auto
qed

lemma strtok_plain:
  assumes "t \<noteq> []" "c \<notin> set t"
  shows "strtok (t @ c # r) [c] = (Some t, r)"
proof -
  have "dropWhile (\<lambda>x. x \<in> set [c]) (t @ c # r) = t @ c # r"
    using assms by (cases t) auto
  moreover have "takeWhile (\<lambda>x. x \<noteq> c) (t @ c # r) = t" "dropWhile (\<lambda>x. x \<noteq> c) (t @ c # r) = c # r"
    using assms(2) by (auto simp: takeWhile_append dropWhile_append)
  ultimately show ?thesis by (simp add: strtok_def)
qed

lemma record_range_map_line:
  assumes "probe_ok s" and "cnt s + 2 \<le> ARRAY_SIZE"
  shows "record_range (map_line lo hi rest) s =
    Inr (s\<lparr>address_start := lo, address_end := hi, cnt := cnt s + 2,
      arrayAddress := (arrayAddress s)[cnt s := lo, Suc (cnt s) := hi]\<rparr>)"
proof -
  have ne: "hexadecimal n \<noteq> []" for n by (simp add: hexadecimal_def)
  have t: "strtok (map_line lo hi rest) [CHR ''-''] =
        (Some (hexadecimal (unat lo)), hexadecimal (unat hi) @ CHR '' '' # rest)"
      "strtok (hexadecimal (unat hi) @ CHR '' '' # rest) [CHR '' ''] = (Some (hexadecimal (unat hi)), rest)"
    using strtok_plain [OF ne hexadecimal_no] by (simp_all add: map_line_def)
  have v: "strtoul16 (hexadecimal (unat (w :: u64))) = w" for w
    using strtoul16_hexadecimal [OF unat64_bound] by simp
  show ?thesis
    using assms by (simp add: record_range_eq t v probe_ok_def)
qed

end
