(* ===== verification/PT_Backtrace.thy ===== *)
theory PT_Backtrace imports PT_Format begin

text \<open>
  \<open>backtrace/backtrace.c\<close>: two stack walks over libunwind and a recursive test function.
  libunwind is a record of functions on its cursors: the cursor at the current frame,
  \<open>unw_step\<close>, the registers \<open>UNW_REG_IP\<close> and \<open>UNW_REG_SP\<close> of a frame (\<open>None\<close> where
  \<open>unw_get_reg\<close> fails and leaves the variable as it was), and \<open>unw_get_proc_name\<close> with
  a buffer of the given size: its return value, and what it leaves in the buffer and in the
  offset (\<open>None\<close> where it leaves them alone).  The program state is what has been printed;
  a walk that does not return keeps what it printed before.  Using a variable no call has written
  is no defined behaviour.
\<close>

section \<open>The library\<close>

record 'c unwinder =
  unw_init_local :: 'c
  unw_step :: "'c \<Rightarrow> int \<times> 'c"
  unw_reg_ip :: "'c \<Rightarrow> u64 option"
  unw_reg_sp :: "'c \<Rightarrow> u64 option"
  unw_get_proc_name :: "'c \<Rightarrow> nat \<Rightarrow> int \<times> string option \<times> u64 option"

type_synonym lines = "string list"

text \<open>How a walk ends: the process stops, having printed some lines, or the call returns.\<close>

type_synonym 'a walk_result = "stop \<times> lines + 'a"

definition fprintf :: "string \<Rightarrow> lines \<Rightarrow> lines" where
  "fprintf t out = out @ [t]"

definition tab :: string where "tab = [CHR 0x09]"

section \<open>backtrace1\<close>

text \<open>What the loop prints for a frame with a program counter.\<close>

definition frame1 :: "'c unwinder \<Rightarrow> 'c \<Rightarrow> u64 \<Rightarrow> lines \<Rightarrow> lines walk_result" where
  "frame1 U cursor pc out =
     (let out = fprintf (tab @ '' 0x'' @ hexadecimal (unat pc) @ '':'') out in
      case unw_get_proc_name U cursor 256 of (code, name, offset) \<Rightarrow>
        if code = 0 then
          (case (name, offset) of
             (Some name, Some offset) \<Rightarrow>
               Inr (fprintf (tab @ '' ('' @ name @ ''+0x'' @ hexadecimal (unat offset) @ '')'' @ newline) out)
           | _ \<Rightarrow> Inl (Undefined, out))
        else Inr (fprintf ('' -- error: unable to obtain symbol name for this frame'' @ newline) out))"

partial_function (option) walk1 :: "'c unwinder \<Rightarrow> 'c \<Rightarrow> lines \<Rightarrow> lines walk_result option" where
  "walk1 U cursor out =
     (case unw_step U cursor of (code, cursor) \<Rightarrow>
        if \<not> 0 < code then Some (Inr out)
        else case unw_reg_ip U cursor of
            None \<Rightarrow> Some (Inl (Undefined, out))
          | Some pc \<Rightarrow>
              if pc = 0 then Some (Inr out)
              else case frame1 U cursor pc out of
                  Inl e \<Rightarrow> Some (Inl e)
                | Inr out \<Rightarrow> walk1 U cursor out)"

definition backtrace1 :: "'c unwinder \<Rightarrow> lines \<Rightarrow> lines walk_result option" where
  "backtrace1 U out = walk1 U (unw_init_local U) (fprintf ('' Backtrace ...'' @ newline) out)"

section \<open>backtrace2\<close>

text \<open>
  The loop goes on while \<open>unw_step\<close> returns anything but 0, its error codes included.
  \<open>name\<close> always is \<open>symbol\<close>, so nothing is freed.  \<open>unsigned\<close> conversions print the
  pointers with 16 digits.
\<close>

definition frame2 :: "'c unwinder \<Rightarrow> 'c \<Rightarrow> int \<Rightarrow> lines \<Rightarrow> (int \<times> lines) walk_result" where
  "frame2 U cursor n out =
     (let symbol = ''<unknown>'';
          out = fprintf (''symbol and name = '' @ symbol @ newline) out in
      case unw_get_proc_name U cursor 256 of (code, name, off) \<Rightarrow>
      let symbol = (case name of None \<Rightarrow> symbol | Some name \<Rightarrow> name);
          out = (if code = 0 then fprintf (''symbol = '' @ symbol @ newline) out else out);
          n = n + 1 in
      case (unw_reg_ip U cursor, unw_reg_sp U cursor, off) of
        (Some ip, Some sp, Some off) \<Rightarrow>
          if n = 2147483648 then Inl (Undefined, out)
          else Inr (n, fprintf (''#'' @ pad_right 2 (signed_decimal n) @
            '' 0x'' @ pad_zero 16 (hexadecimal (unat ip)) @ '' sp=0x'' @ pad_zero 16 (hexadecimal (unat sp)) @
            '' '' @ symbol @ '' + 0x'' @ hexadecimal (unat off) @ newline) out)
      | _ \<Rightarrow> Inl (Undefined, out))"

partial_function (option) walk2 :: "'c unwinder \<Rightarrow> 'c \<Rightarrow> int \<Rightarrow> lines \<Rightarrow> lines walk_result option" where
  "walk2 U cursor n out =
     (case unw_step U cursor of (code, cursor) \<Rightarrow>
        if code = 0 then Some (Inr out)
        else case frame2 U cursor n out of
            Inl e \<Rightarrow> Some (Inl e)
          | Inr (n, out) \<Rightarrow> walk2 U cursor n out)"

definition backtrace2 :: "'c unwinder \<Rightarrow> lines \<Rightarrow> lines walk_result option" where
  "backtrace2 U out = walk2 U (unw_init_local U) 0 (fprintf (''Let's go backtrace!'' @ newline) out)"

section \<open>fac\<close>

text \<open>The recursion ends at 0; from a negative number it goes down to \<open>INT_MIN\<close>, where \<open>n - 1\<close> overflows.\<close>

definition int_ok :: "int \<Rightarrow> bool" where
  "int_ok z \<longleftrightarrow> - 2147483648 \<le> z \<and> z \<le> 2147483647"

function fac :: "'c unwinder \<Rightarrow> int \<Rightarrow> lines \<Rightarrow> (int \<times> lines) walk_result option" where
  "fac U n out =
     (if n = 0 then map_option (\<lambda>r. then_do r (\<lambda>out. Inr (1, out))) (backtrace1 U out)
      else if \<not> int_ok (n - 1) then Some (Inl (Undefined, out))
      else case fac U (n - 1) out of
          None \<Rightarrow> None
        | Some (Inl e) \<Rightarrow> Some (Inl e)
        | Some (Inr (r, out)) \<Rightarrow> if int_ok (n * r) then Some (Inr (n * r, out)) else Some (Inl (Undefined, out)))"
  by pat_completeness auto
termination
  by (relation "measure (\<lambda>(U, n, out). nat (n + 2147483648))") (auto simp: int_ok_def)

declare fac.simps [simp del]

section \<open>Walks that end\<close>

text \<open>The frames of a walk: the cursors \<open>unw_step\<close> leads to while it returns a positive number.\<close>

fun steps :: "'c unwinder \<Rightarrow> nat \<Rightarrow> 'c \<Rightarrow> 'c" where
  "steps U 0 c = c"
| "steps U (Suc k) c = steps U k (snd (unw_step U c))"

text \<open>The walk stops behind \<open>k\<close> frames: no frame is left, or the unwinder reports an error.\<close>

definition walk_ends :: "'c unwinder \<Rightarrow> 'c \<Rightarrow> nat \<Rightarrow> bool" where
  "walk_ends U c k \<longleftrightarrow> fst (unw_step U (steps U k c)) \<le> 0"

lemma walk1_returns: "walk_ends U c k \<Longrightarrow> \<exists>r. walk1 U c out = Some r"
proof (induction k arbitrary: c out)
  case 0
  then show ?case by (subst walk1.simps) (auto simp: walk_ends_def split: prod.split)
next
  case (Suc k)
  then have "walk_ends U (snd (unw_step U c)) k" by (simp add: walk_ends_def)
  then have "\<exists>r. walk1 U (snd (unw_step U c)) out = Some r" for out by (rule Suc.IH)
  then show ?case by (subst walk1.simps) (auto split: prod.split option.split sum.split)
qed

lemma steps_Suc: "steps U (Suc i) c = snd (unw_step U (steps U i c))"
  by (induction i arbitrary: c) auto

text \<open>The lines the two walks print for a frame whose values are all there.\<close>

definition lines1 :: "'c unwinder \<Rightarrow> 'c \<Rightarrow> lines" where
  "lines1 U c = (case unw_get_proc_name U c 256 of (code, name, offset) \<Rightarrow>
     [tab @ '' 0x'' @ hexadecimal (unat (the (unw_reg_ip U c))) @ '':'',
      if code = 0 then tab @ '' ('' @ the name @ ''+0x'' @ hexadecimal (unat (the offset)) @ '')'' @ newline
      else '' -- error: unable to obtain symbol name for this frame'' @ newline])"

definition symbol_lines :: "'c unwinder \<Rightarrow> 'c \<Rightarrow> lines" where
  "symbol_lines U c = (case unw_get_proc_name U c 256 of (code, name, off) \<Rightarrow>
     (''symbol and name = <unknown>'' @ newline) #
     (if code = 0 then [''symbol = '' @ (case name of None \<Rightarrow> ''<unknown>'' | Some s \<Rightarrow> s) @ newline] else []))"

definition frame_line :: "'c unwinder \<Rightarrow> 'c \<Rightarrow> int \<Rightarrow> string" where
  "frame_line U c n = (case unw_get_proc_name U c 256 of (code, name, off) \<Rightarrow>
     ''#'' @ pad_right 2 (signed_decimal n) @
     '' 0x'' @ pad_zero 16 (hexadecimal (unat (the (unw_reg_ip U c)))) @
     '' sp=0x'' @ pad_zero 16 (hexadecimal (unat (the (unw_reg_sp U c)))) @
     '' '' @ (case name of None \<Rightarrow> ''<unknown>'' | Some s \<Rightarrow> s) @ '' + 0x'' @ hexadecimal (unat (the off)) @ newline)"

abbreviation lines2 :: "'c unwinder \<Rightarrow> 'c \<Rightarrow> int \<Rightarrow> lines" where
  "lines2 U c n \<equiv> symbol_lines U c @ [frame_line U c n]"

text \<open>A frame \<open>backtrace2\<close> can print, and one both walks can.\<close>

definition printable :: "'c unwinder \<Rightarrow> 'c \<Rightarrow> bool" where
  "printable U c \<longleftrightarrow> unw_reg_ip U c \<noteq> None \<and> unw_reg_sp U c \<noteq> None \<and> snd (snd (unw_get_proc_name U c 256)) \<noteq> None"

definition readable :: "'c unwinder \<Rightarrow> 'c \<Rightarrow> bool" where
  "readable U c \<longleftrightarrow> printable U c \<and> unw_reg_ip U c \<noteq> Some 0 \<and> fst (snd (unw_get_proc_name U c 256)) \<noteq> None"

lemma frame1_lines: "readable U c \<Longrightarrow> unw_reg_ip U c = Some pc \<Longrightarrow> frame1 U c pc out = Inr (out @ lines1 U c)"
  by (auto simp: readable_def printable_def frame1_def lines1_def fprintf_def Let_def split: prod.splits)

lemma frame2_lines:
  "printable U c \<Longrightarrow> frame2 U c n out =
     (if n = 2147483647 then Inl (Undefined, out @ symbol_lines U c) else Inr (n + 1, out @ lines2 U c (n + 1)))"
  by (auto simp: printable_def frame2_def symbol_lines_def frame_line_def fprintf_def Let_def split: prod.splits)

text \<open>A step to a frame both walks print, and a state in which the same error is reported for ever.\<close>

definition steps_to :: "'c unwinder \<Rightarrow> 'c \<Rightarrow> 'c \<Rightarrow> bool" where
  "steps_to U c c' \<longleftrightarrow> snd (unw_step U c) = c' \<and> 0 < fst (unw_step U c) \<and> readable U c'"

definition stuck :: "'c unwinder \<Rightarrow> 'c \<Rightarrow> bool" where
  "stuck U c \<longleftrightarrow> fst (unw_step U c) < 0 \<and> snd (unw_step U c) = c \<and> printable U c"

lemma steps_stuck: "stuck U (steps U k c) \<Longrightarrow> steps U i c = steps U (min i k) c"
proof (induction i)
  case (Suc i)
  then have i: "steps U i c = steps U (min i k) c" by simp
  show ?case
  proof (cases "i < k")
    case False
    then have "steps U (Suc i) c = snd (unw_step U (steps U k c))"
      unfolding steps_Suc i by (simp add: min_def)
    with False Suc.prems show ?thesis by (simp add: stuck_def min_def)
  qed (simp add: min_def)
qed simp

lemma walk1_error:
  "(\<And>j. j < k \<Longrightarrow> steps_to U (steps U j c) (steps U (Suc j) c)) \<Longrightarrow> fst (unw_step U (steps U k c)) \<le> 0 \<Longrightarrow>
    walk1 U c out = Some (Inr (out @ concat (map (\<lambda>i. lines1 U (steps U (Suc i) c)) [0..<k])))"
proof (induction k arbitrary: c out)
  case 0
  then show ?case by (subst walk1.simps) (auto split: prod.split)
next
  case (Suc k)
  obtain e c' where st: "unw_step U c = (e, c')" by (cases "unw_step U c")
  have "steps_to U c c'" using Suc.prems(1) [of 0] by (simp add: st)
  then have e: "0 < e" and r: "readable U c'" by (auto simp: steps_to_def st)
  obtain pc where pc: "unw_reg_ip U c' = Some pc" "pc \<noteq> 0" using r by (auto simp: readable_def printable_def)
  have m: "map (\<lambda>i. lines1 U (steps U (Suc i) c)) [0..<Suc k] =
      lines1 U c' # map (\<lambda>i. lines1 U (steps U (Suc i) c')) [0..<k]"
    by (simp only: map_upt_Suc) (simp add: st)
  have "walk1 U c out = walk1 U c' (out @ lines1 U c')"
    using frame1_lines [OF r pc(1), of out] pc e by (subst walk1.simps) (simp add: st)
  also have "\<dots> = Some (Inr ((out @ lines1 U c') @ concat (map (\<lambda>i. lines1 U (steps U (Suc i) c')) [0..<k])))"
  proof (rule Suc.IH)
    show "steps_to U (steps U j c') (steps U (Suc j) c')" if "j < k" for j
      using Suc.prems(1) [of "Suc j"] that by (simp add: st)
  qed (use Suc.prems(2) in \<open>simp add: st\<close>)
  finally show ?case unfolding m by simp
qed

lemma walk2_overflows:
  "n + int m = 2147483647 \<Longrightarrow> (\<And>i. fst (unw_step U (steps U i c)) \<noteq> 0) \<Longrightarrow> (\<And>i. printable U (steps U (Suc i) c)) \<Longrightarrow>
   walk2 U c n out = Some (Inl (Undefined,
     out @ concat (map (\<lambda>i. lines2 U (steps U (Suc i) c) (n + int (Suc i))) [0..<m]) @
     symbol_lines U (steps U (Suc m) c)))"
proof (induction m arbitrary: c n out)
  case 0
  obtain e c' where st: "unw_step U c = (e, c')" by (cases "unw_step U c")
  have "e \<noteq> 0" "printable U c'" using "0.prems"(2,3) [of 0] by (simp_all add: st)
  then show ?case using "0.prems"(1) by (subst walk2.simps) (simp add: st frame2_lines)
next
  case (Suc m)
  obtain e c' where st: "unw_step U c = (e, c')" by (cases "unw_step U c")
  have e: "e \<noteq> 0" and p: "printable U c'" using Suc.prems(2,3) [of 0] by (simp_all add: st)
  have m: "map (\<lambda>i. lines2 U (steps U (Suc i) c) (n + int (Suc i))) [0..<Suc m] =
      lines2 U c' (n + 1) # map (\<lambda>i. lines2 U (steps U (Suc i) c') (n + 1 + int (Suc i))) [0..<m]"
    by (simp only: map_upt_Suc) (simp add: st add.commute add.left_commute)
  have "walk2 U c n out = walk2 U c' (n + 1) (out @ lines2 U c' (n + 1))"
    using e Suc.prems(1) frame2_lines [OF p, of n out] by (subst walk2.simps) (simp add: st)
  also have "\<dots> = Some (Inl (Undefined, (out @ lines2 U c' (n + 1)) @
      concat (map (\<lambda>i. lines2 U (steps U (Suc i) c') (n + 1 + int (Suc i))) [0..<m]) @
      symbol_lines U (steps U (Suc m) c')))"
  proof (rule Suc.IH)
    show "fst (unw_step U (steps U i c')) \<noteq> 0" for i using Suc.prems(2) [of "Suc i"] by (simp add: st)
    show "printable U (steps U (Suc i) c')" for i using Suc.prems(3) [of "Suc i"] by (simp add: st)
  qed (use Suc.prems(1) in simp)
  finally show ?case unfolding m by (simp add: st)
qed

section \<open>The factorial\<close>

lemma fac_value:
  "k \<le> 12 \<Longrightarrow> backtrace1 U out = Some (Inr out') \<Longrightarrow> fac U (int k) out = Some (Inr (fact k, out'))"
proof (induction k)
  case 0
  then show ?case by (simp add: fac.simps)
next
  case (Suc k)
  then have "fac U (int k) out = Some (Inr (fact k, out'))" by simp
  moreover have "int_ok (int k)" "int_ok (fact (Suc k))"
  proof -
    show "int_ok (int k)" using Suc.prems(1) by (simp add: int_ok_def)
    have "fact (Suc k) \<le> (fact 12 :: int)" by (rule fact_mono) (use Suc.prems(1) in simp)
    moreover have "(fact 12 :: int) = 479001600" by (simp add: fact_numeral)
    moreover have "0 \<le> (fact (Suc k) :: int)" by (rule fact_ge_zero)
    ultimately show "int_ok (fact (Suc k))" unfolding int_ok_def by linarith
  qed
  moreover have "int (Suc k) * fact k = (fact (Suc k) :: int)" by simp
  moreover have e: "int (Suc k) - 1 = int k" "int (Suc k) \<noteq> 0" by simp_all
  ultimately show ?case unfolding fac.simps [of U "int (Suc k)"] e(1) by (simp only: e(2)) simp
qed

lemma fac_overflows:
  assumes "13 \<le> k" "int_ok (int k)" and b: "backtrace1 U out = Some (Inr out')"
  shows "fac U (int k) out = Some (Inl (Undefined, out'))"
  using assms(1,2)
proof (induction k rule: dec_induct)
  case base
  have "fac U 12 out = Some (Inr (fact 12, out'))" using fac_value [OF _ b, of 12] by simp
  moreover have "(fact 12 :: int) = 479001600" by (simp add: fact_numeral)
  ultimately show ?case by (subst fac.simps) (simp add: int_ok_def)
next
  case (step k)
  then have "fac U (int k) out = Some (Inl (Undefined, out'))" by (simp add: int_ok_def)
  then show ?case using step by (subst fac.simps) (simp add: int_ok_def)
qed

lemma fac_negative: "n < 0 \<Longrightarrow> fac U n out = Some (Inl (Undefined, out))"
proof (induction "nat (n + 2147483648)" arbitrary: n)
  case 0
  then show ?case by (subst fac.simps) (simp add: int_ok_def)
next
  case (Suc k)
  then have "fac U (n - 1) out = Some (Inl (Undefined, out))" by simp
  with Suc.prems show ?case by (subst fac.simps) simp
qed

section \<open>An error in the middle of a walk\<close>

text \<open>
  C32. \<open>backtrace1\<close> returns where \<open>backtrace2\<close> does not.  When the unwinder finds \<open>k\<close> readable
  frames and then keeps reporting an error without moving on, the walk that tests for a positive
  result prints the two lines of each of these frames and returns.  The walk that tests for a
  result other than 0 prints the frames with the counter 1, 2 and so on, then the last one again
  and again with the counter going on up to \<open>INT_MAX\<close>; after the lines with the symbol that
  follow, the increment of the counter overflows.
\<close>

theorem error_ends_backtrace1_only:
  assumes "\<And>j. j < k \<Longrightarrow> steps_to U (steps U j (unw_init_local U)) (steps U (Suc j) (unw_init_local U))"
    and "stuck U (steps U k (unw_init_local U))"
  shows "backtrace1 U out = Some (Inr (out @ ('' Backtrace ...'' @ newline) #
      concat (map (\<lambda>i. lines1 U (steps U (Suc i) (unw_init_local U))) [0..<k]))) \<and>
    backtrace2 U out = Some (Inl (Undefined, out @ (''Let's go backtrace!'' @ newline) #
      concat (map (\<lambda>i. lines2 U (steps U (min (Suc i) k) (unw_init_local U)) (int (Suc i))) [0..<2147483647]) @
      symbol_lines U (steps U (min 2147483648 k) (unw_init_local U))))"
proof -
  let ?c = "unw_init_local U" and ?m = "2147483647 :: nat"
  note min_steps = steps_stuck [OF assms(2)]
  have one: "backtrace1 U out = Some (Inr (out @ ('' Backtrace ...'' @ newline) #
      concat (map (\<lambda>i. lines1 U (steps U (Suc i) ?c)) [0..<k])))"
    unfolding backtrace1_def using assms(2)
    by (subst walk1_error [OF assms(1)]) (simp_all add: stuck_def fprintf_def)
  have go: "fst (unw_step U (steps U i ?c)) \<noteq> 0" for i
  proof (cases "i < k")
    case True
    then show ?thesis using assms(1) [of i] by (simp add: steps_to_def)
  next
    case False
    then show ?thesis using assms(2) min_steps [of i] by (simp add: stuck_def min_def split: if_splits)
  qed
  have pr: "printable U (steps U (Suc i) ?c)" for i
  proof (cases "i < k")
    case True
    then show ?thesis using assms(1) [of i] by (simp add: steps_to_def readable_def)
  next
    case False
    then have "steps U (Suc i) ?c = steps U k ?c" using min_steps [of "Suc i"] by (simp add: min_def)
    then show ?thesis using assms(2) by (simp add: stuck_def)
  qed
  have "backtrace2 U out = Some (Inl (Undefined, fprintf (''Let's go backtrace!'' @ newline) out @
      concat (map (\<lambda>i. lines2 U (steps U (Suc i) ?c) (0 + int (Suc i))) [0..<?m]) @
      symbol_lines U (steps U (Suc ?m) ?c)))"
    unfolding backtrace2_def by (rule walk2_overflows [OF _ go pr]) simp
  moreover have "lines2 U (steps U (Suc i) ?c) (0 + int (Suc i)) =
      lines2 U (steps U (min (Suc i) k) ?c) (int (Suc i))" for i
    unfolding add_0 min_steps [of "Suc i"] ..
  moreover have "steps U (Suc ?m) ?c = steps U (min 2147483648 k) ?c"
    using min_steps [of "Suc ?m"] by simp
  ultimately have "backtrace2 U out = Some (Inl (Undefined, out @ (''Let's go backtrace!'' @ newline) #
      concat (map (\<lambda>i. lines2 U (steps U (min (Suc i) k) ?c) (int (Suc i))) [0..<?m]) @
      symbol_lines U (steps U (min 2147483648 k) ?c)))"
    by (simp only: fprintf_def append_assoc append.simps)
  with one show ?thesis ..
qed

text \<open>Two frames, then an error.\<close>

definition sample_unwinder :: "nat unwinder" where
  "sample_unwinder = \<lparr>unw_init_local = 0, unw_step = (\<lambda>c. if c < 2 then (1, c + 1) else (- 8, c)),
     unw_reg_ip = (\<lambda>c. Some (4096 + of_nat c)), unw_reg_sp = (\<lambda>c. Some 65536),
     unw_get_proc_name = (\<lambda>c size. (0, Some ''main'', Some 16))\<rparr>"

theorem error_ends_backtrace1_only_witness:
  "backtrace1 sample_unwinder [] = Some (Inr (['' Backtrace ...'' @ newline] @ lines1 sample_unwinder 1 @ lines1 sample_unwinder 2)) \<and>
   backtrace2 sample_unwinder [] = Some (Inl (Undefined, (''Let's go backtrace!'' @ newline) #
     concat (map (\<lambda>i. lines2 sample_unwinder (min (Suc i) 2) (int (Suc i))) [0..<2147483647]) @
     symbol_lines sample_unwinder 2))"
proof -
  have s: "unw_step sample_unwinder c = (if c < 2 then (1, c + 1) else (- 8, c))" for c
    by (simp add: sample_unwinder_def)
  have i: "unw_init_local sample_unwinder = 0" by (simp add: sample_unwinder_def)
  have st: "steps sample_unwinder (min k 2) 0 = min k 2" for k
  proof -
    have "min k 2 = 0 \<or> min k 2 = 1 \<or> min k 2 = 2" by linarith
    then show ?thesis by (elim disjE) (simp_all add: s numeral_2_eq_2)
  qed
  have "steps_to sample_unwinder (steps sample_unwinder j (unw_init_local sample_unwinder))
      (steps sample_unwinder (Suc j) (unw_init_local sample_unwinder))" if "j < 2" for j
    using that by (auto simp: less_2_cases_iff steps_to_def readable_def printable_def s) (simp_all add: sample_unwinder_def)
  moreover have "stuck sample_unwinder (steps sample_unwinder 2 (unw_init_local sample_unwinder))"
    by (simp add: numeral_2_eq_2 stuck_def printable_def s) (simp add: sample_unwinder_def)
  ultimately have "backtrace1 sample_unwinder [] = Some (Inr ([] @ ('' Backtrace ...'' @ newline) #
      concat (map (\<lambda>i. lines1 sample_unwinder (steps sample_unwinder (Suc i) (unw_init_local sample_unwinder))) [0..<2]))) \<and>
    backtrace2 sample_unwinder [] = Some (Inl (Undefined, [] @ (''Let's go backtrace!'' @ newline) #
      concat (map (\<lambda>i. lines2 sample_unwinder (steps sample_unwinder (min (Suc i) 2) (unw_init_local sample_unwinder)) (int (Suc i))) [0..<2147483647]) @
      symbol_lines sample_unwinder (steps sample_unwinder (min 2147483648 2) (unw_init_local sample_unwinder))))"
    by (rule error_ends_backtrace1_only)
  moreover have "[0..<2] = [0, 1 :: nat]" by (simp add: numeral_2_eq_2)
  moreover have "min (2147483648 :: nat) 2 = 2" by simp
  moreover have "steps sample_unwinder (Suc 0) 0 = 1" "steps sample_unwinder (Suc 1) 0 = 2"
    using st [of 1] st [of 2] by (simp_all add: numeral_2_eq_2 min_def)
  ultimately show ?thesis
    unfolding i st by (simp only: list.map concat.simps append.simps append_Nil2)
qed

end
