(* ===== verification/LL_Uses.thy ===== *)
theory LL_Uses imports PT_Prelude begin

text \<open>
  Use lists of LLVM (\<open>llvm/IR/Use.h\<close>, \<open>llvm/IR/Value.h\<close>): what the pass's loops over the uses
  of a function or a load run on.  First the intrusive doubly linked list as the headers have
  it, with its \<open>Next\<close> and \<open>Prev\<close> pointers, then lists of uses as its abstraction, and the
  lemma that every operation implements the operation on lists.
\<close>

section \<open>The linked lists\<close>

text \<open>
  A value is a number; a use is a user with an operand number (what \<open>getUser\<close> and
  \<open>getOperandNo\<close> return).  \<open>Prev\<close> points to the pointer that points to the use: the
  \<open>UseList\<close> of a value or the \<open>Next\<close> of another use.
\<close>

type_synonym vid = nat

datatype use = Use (getUser: vid) (getOperandNo: nat)

datatype slot = UseListOf vid | NextOf use

record use_heap =
  UseList :: "vid \<Rightarrow> use option"
  Val :: "use \<Rightarrow> vid option"
  Next :: "use \<Rightarrow> use option"
  Prev :: "use \<Rightarrow> slot"

fun read_slot :: "use_heap \<Rightarrow> slot \<Rightarrow> use option" where
  "read_slot h (UseListOf v) = UseList h v"
| "read_slot h (NextOf u) = Next h u"

fun write_slot :: "slot \<Rightarrow> use option \<Rightarrow> use_heap \<Rightarrow> use_heap" where
  "write_slot (UseListOf v) x h = h\<lparr>UseList := (UseList h)(v := x)\<rparr>"
| "write_slot (NextOf u) x h = h\<lparr>Next := (Next h)(u := x)\<rparr>"

definition setPrev :: "use \<Rightarrow> slot \<Rightarrow> use_heap \<Rightarrow> use_heap" where
  "setPrev u NewPrev h = h\<lparr>Prev := (Prev h)(u := NewPrev)\<rparr>"

definition addToList :: "use \<Rightarrow> slot \<Rightarrow> use_heap \<Rightarrow> use_heap" where
  "addToList this List h =
     (let h = write_slot (NextOf this) (read_slot h List) h;
          h = (case Next h this of None \<Rightarrow> h | Some n \<Rightarrow> setPrev n (NextOf this) h);
          h = setPrev this List h
      in write_slot List (Some this) h)"

definition removeFromList :: "use \<Rightarrow> use_heap \<Rightarrow> use_heap" where
  "removeFromList this h =
     (let StrippedPrev = Prev h this;
          h = write_slot StrippedPrev (Next h this) h
      in case Next h this of None \<Rightarrow> h | Some n \<Rightarrow> setPrev n StrippedPrev h)"

definition addUse :: "vid \<Rightarrow> use \<Rightarrow> use_heap \<Rightarrow> use_heap" where
  "addUse v U h = addToList U (UseListOf v) h"

definition use_set :: "use \<Rightarrow> vid option \<Rightarrow> use_heap \<Rightarrow> use_heap" where
  "use_set this V h =
     (let h = (if Val h this \<noteq> None then removeFromList this h else h);
          h = h\<lparr>Val := (Val h)(this := V)\<rparr>
      in case V of None \<Rightarrow> h | Some v \<Rightarrow> addUse v this h)"

definition use_empty :: "use_heap \<Rightarrow> vid \<Rightarrow> bool" where
  "use_empty h v = (UseList h v = None)"

definition user_back :: "use_heap \<Rightarrow> vid \<Rightarrow> vid option" where
  "user_back h v = map_option getUser (UseList h v)"

definition hasOneUse :: "use_heap \<Rightarrow> vid \<Rightarrow> bool" where
  "hasOneUse h v = (case UseList h v of None \<Rightarrow> False | Some u \<Rightarrow> Next h u = None)"

section \<open>The lists they stand for\<close>

fun chain :: "use_heap \<Rightarrow> slot \<Rightarrow> use list \<Rightarrow> bool" where
  "chain h s [] = (read_slot h s = None)"
| "chain h s (u # us) = (read_slot h s = Some u \<and> Prev h u = s \<and> chain h (NextOf u) us)"

definition use_lists :: "use_heap \<Rightarrow> (vid \<Rightarrow> use list) \<Rightarrow> bool" where
  "use_lists h U \<longleftrightarrow> (\<forall>v. chain h (UseListOf v) (U v) \<and> distinct (U v) \<and>
     (\<forall>u. u \<in> set (U v) \<longleftrightarrow> Val h u = Some v))"

text \<open>What \<open>set\<close> does to the lists: the use leaves its old list and heads the new one.\<close>

definition drop_use :: "use \<Rightarrow> (vid \<Rightarrow> use list) \<Rightarrow> vid \<Rightarrow> use list" where
  "drop_use u U = (\<lambda>v. remove1 u (U v))"

definition push_use :: "use \<Rightarrow> vid option \<Rightarrow> (vid \<Rightarrow> use list) \<Rightarrow> vid \<Rightarrow> use list" where
  "push_use u V U = (case V of None \<Rightarrow> U | Some v \<Rightarrow> U(v := u # U v))"

definition move_use :: "use \<Rightarrow> vid option \<Rightarrow> (vid \<Rightarrow> use list) \<Rightarrow> vid \<Rightarrow> use list" where
  "move_use u V U = push_use u V (drop_use u U)"

lemma use_listsD:
  assumes "use_lists h U"
  shows "chain h (UseListOf v) (U v)" "distinct (U v)" "u \<in> set (U v) \<longleftrightarrow> Val h u = Some v"
  using assms by (auto simp: use_lists_def)

text \<open>A chain only depends on its own pointers.\<close>

lemma chain_cong:
  assumes "read_slot h s = read_slot h' s" and "\<And>u. u \<in> set us \<Longrightarrow> Next h u = Next h' u"
    and "\<And>u. u \<in> set us \<Longrightarrow> Prev h u = Prev h' u"
  shows "chain h s us = chain h' s us"
  using assms by (induction us arbitrary: s) auto

lemma chain_head: "chain h s us \<Longrightarrow> read_slot h s = (case us of [] \<Rightarrow> None | u # _ \<Rightarrow> Some u)"
  by (cases us) auto

lemma addToList_fields:
  assumes "u \<noteq> n"
  shows "Next (addToList u (UseListOf v) h) n = Next h n"
    and "UseList (addToList u (UseListOf v) h) v' = (if v' = v then Some u else UseList h v')"
    and "Next (addToList u (UseListOf v) h) u = UseList h v"
    and "Prev (addToList u (UseListOf v) h) u = UseListOf v"
    and "Val (addToList u (UseListOf v) h) = Val h"
    and "Prev (addToList u (UseListOf v) h) n = (if UseList h v = Some n then NextOf u else Prev h n)"
  using assms by (auto simp: addToList_def setPrev_def Let_def split: option.split)

lemma removeFromList_fields:
  "Val (removeFromList u h) = Val h"
  "Next (removeFromList u h) x = (if Prev h u = NextOf x then Next h u else Next h x)"
  "UseList (removeFromList u h) v = (if Prev h u = UseListOf v then Next h u else UseList h v)"
  "Prev h u \<noteq> NextOf u \<Longrightarrow>
   Prev (removeFromList u h) x = (if Next h u = Some x then Prev h u else Prev h x)"
  by (cases "Prev h u"; auto simp: removeFromList_def setPrev_def Let_def split: option.split)+

lemma addToList_chain:
  assumes ok: "use_lists h U" and u: "Val h u = None"
  shows "use_lists ((addUse v u h)\<lparr>Val := (Val h)(u := Some v)\<rparr>) (push_use u (Some v) U)"
proof -
  let ?h = "(addUse v u h)\<lparr>Val := (Val h)(u := Some v)\<rparr>"
  have fresh: "u \<notin> set (U w)" for w using use_listsD(3) [OF ok, of u w] u by simp
  have fields: "Next (addUse v u h) n = Next h n" "Prev (addUse v u h) n = (if UseList h v = Some n then NextOf u else Prev h n)"
    if "n \<noteq> u" for n
    using addToList_fields(1,6) [of u n v h] that by (auto simp: addUse_def)
  have own: "Next (addUse v u h) u = UseList h v" "Prev (addUse v u h) u = UseListOf v" "UseList (addUse v u h) w = (if w = v then Some u else UseList h w)" for w
    using addToList_fields(2-4) [of u "Use (Suc (getUser u)) 0" v h] by (cases u; auto simp: addUse_def)+
  have tail: "chain ?h s us" if "chain h s us" "\<forall>n \<in> set us. n \<noteq> u" "s = UseListOf w \<and> w \<noteq> v \<or> (\<exists>n. s = NextOf n \<and> n \<noteq> u)"
    "\<forall>n \<in> set us. UseList h v \<noteq> Some n" for s us w
    using that by (intro chain_cong [THEN iffD1, OF _ _ _ that(1)]) (auto simp: fields own)
  have hd: "UseList h v = (case U v of [] \<Rightarrow> None | n # _ \<Rightarrow> Some n)"
    using chain_head [OF use_listsD(1) [OF ok, of v]] by simp
  have "chain ?h (UseListOf w) (push_use u (Some v) U w)" for w
  proof (cases "w = v")
    case False
    have "\<forall>n \<in> set (U w). UseList h v \<noteq> Some n"
    proof (intro ballI notI)
      fix n assume n: "n \<in> set (U w)" "UseList h v = Some n"
      then have "n \<in> set (U v)" using hd by (cases "U v") auto
      then show False using n(1) False use_listsD(3) [OF ok, of n] by simp
    qed
    moreover have "\<forall>n \<in> set (U w). n \<noteq> u" using fresh [of w] by blast
    ultimately have "chain ?h (UseListOf w) (U w)"
      using False use_listsD(1) [OF ok, of w] by (intro tail) auto
    with False show ?thesis by (simp add: push_use_def)
  next
    case True
    have "chain ?h (NextOf u) (U v)"
    proof (cases "U v")
      case Nil
      then show ?thesis using own(1) hd by simp
    next
      case (Cons n ns)
      then have c: "chain h (NextOf n) ns" "distinct (n # ns)" "n \<noteq> u" "u \<notin> set ns" "UseList h v = Some n"
        using use_listsD(1,2) [OF ok, of v] fresh [of v] hd by auto
      then have "chain ?h (NextOf n) ns"
        by (intro tail [of _ _ v]) auto
      with Cons c show ?thesis using own(1) fields [of n] by simp
    qed
    with True own show ?thesis by (simp add: push_use_def)
  qed
  moreover have "distinct (push_use u (Some v) U w)" for w
    using use_listsD(2) [OF ok] fresh by (simp add: push_use_def)
  moreover have "x \<in> set (push_use u (Some v) U w) \<longleftrightarrow> Val ?h x = Some w" for x w
    using use_listsD(3) [OF ok, of x w] fresh [of w] by (auto simp: push_use_def)
  ultimately show ?thesis by (simp add: use_lists_def)
qed

lemma chain_Prev: "chain h s us \<Longrightarrow> u \<in> set us \<Longrightarrow> Prev h u = s \<or> (\<exists>n \<in> set us. Prev h u = NextOf n)"
  by (induction us arbitrary: s) auto

lemma chain_Next: "chain h s us \<Longrightarrow> u \<in> set us \<Longrightarrow> Next h u = Some n \<Longrightarrow> n \<in> set us"
  by (induction us arbitrary: s) (auto dest: chain_head split: list.splits)

lemma chain_not_self:
  "chain h s us \<Longrightarrow> distinct us \<Longrightarrow> u \<in> set us \<Longrightarrow> \<forall>n. s \<noteq> NextOf n \<or> n \<notin> set us \<Longrightarrow> Prev h u \<noteq> NextOf u"
  by (induction us arbitrary: s) auto

lemma removeFromList_self:
  assumes "chain h s us" and "u \<in> set us" and "distinct us" and "\<forall>n \<in> set us. s \<noteq> NextOf n"
    and "Prev h u \<noteq> NextOf u"
  shows "chain (removeFromList u h) s (remove1 u us)"
  using assms
proof (induction us arbitrary: s)
  case Nil
  then show ?case by simp
next
  case (Cons a as)
  note F = removeFromList_fields
  show ?case
  proof (cases "a = u")
    case True
    with Cons.prems have c: "Prev h u = s" "chain h (NextOf u) as" "u \<notin> set as" by auto
    have rd: "read_slot (removeFromList u h) s = Next h u"
      using c(1) by (cases s) (simp_all add: F(2,3))
    show ?thesis
    proof (cases as)
      case Nil
      with True rd c show ?thesis by simp
    next
      case (Cons b bs)
      with c have b: "Next h u = Some b" "chain h (NextOf b) bs" "b \<notin> set bs"
        using \<open>distinct (a # as)\<close> by auto
      have "\<forall>n \<in> set as. Prev h u \<noteq> NextOf n" using Cons.prems(4) c(1) by simp
      with b Cons.prems(5) Cons have "chain (removeFromList u h) (NextOf b) bs"
        by (intro chain_cong [THEN iffD1, OF _ _ _ b(2)]) (auto simp: F)
      with True Cons rd b Cons.prems(5) c(1) show ?thesis by (simp add: F(4))
    qed
  next
    case False
    with Cons.prems have c: "read_slot h s = Some a" "Prev h a = s" "chain h (NextOf a) as" "u \<in> set as"
        "distinct as" "a \<notin> set as" by auto
    have pu: "Prev h u \<noteq> s" using chain_Prev [OF c(3,4)] Cons.prems(4) by auto
    have "Next h u \<noteq> Some a" using chain_Next [OF c(3,4)] c(6) by auto
    moreover have "read_slot (removeFromList u h) s = Some a"
      using pu c(1) by (cases s) (auto simp: F(2,3))
    moreover have "chain (removeFromList u h) (NextOf a) (remove1 u as)"
      using c Cons.prems(5) by (intro Cons.IH) auto
    ultimately show ?thesis using False c(2) Cons.prems(5) by (simp add: F(4))
  qed
qed

lemma removeFromList_chain:
  assumes ok: "use_lists h U" and u: "Val h u = Some v"
  shows "use_lists ((removeFromList u h)\<lparr>Val := (Val h)(u := None)\<rparr>) (drop_use u U)"
proof -
  let ?h = "(removeFromList u h)\<lparr>Val := (Val h)(u := None)\<rparr>"
  have cV: "chain ?h s us = chain (removeFromList u h) s us" for s us
    by (rule chain_cong; cases s; simp)
  have uv: "u \<in> set (U v)" using use_listsD(3) [OF ok, of u v] u by simp
  have other: "u \<notin> set (U w)" if "w \<noteq> v" for w using use_listsD(3) [OF ok, of u w] u that by simp
  have apart: "n \<notin> set (U v)" if "n \<in> set (U w)" "w \<noteq> v" for n w
    using use_listsD(3) [OF ok, of n] that by simp
  note prev = chain_Prev [OF use_listsD(1) [OF ok, of v] uv]
  note nxt = chain_Next [OF use_listsD(1) [OF ok, of v] uv]
  have self: "Prev h u \<noteq> NextOf u"
    using chain_not_self [OF use_listsD(1,2) [OF ok, of v] uv] by simp
  have "chain ?h (UseListOf w) (remove1 u (U w))" for w
  proof (cases "w = v")
    case True
    then show ?thesis
      unfolding cV using use_listsD(1,2) [OF ok, of v] uv self by (auto intro: removeFromList_self)
  next
    case False
    have "chain (removeFromList u h) (UseListOf w) (U w)"
    proof (rule chain_cong [THEN iffD1, OF _ _ _ use_listsD(1) [OF ok, of w]])
      show "read_slot h (UseListOf w) = read_slot (removeFromList u h) (UseListOf w)"
        using prev False by (auto simp: removeFromList_fields(3))
      fix n assume n: "n \<in> set (U w)"
      show "Next h n = Next (removeFromList u h) n"
        using prev apart [OF n False] by (auto simp: removeFromList_fields(2))
      show "Prev h n = Prev (removeFromList u h) n"
        using nxt apart [OF n False] self by (auto simp: removeFromList_fields(4))
    qed
    then show ?thesis unfolding cV using other [OF False] by (simp add: remove1_idem)
  qed
  moreover have "distinct (remove1 u (U w))" for w using use_listsD(2) [OF ok, of w] by simp
  moreover have "x \<in> set (remove1 u (U w)) \<longleftrightarrow> Val ?h x = Some w" for x w
    using use_listsD(2) [OF ok, of w] use_listsD(3) [OF ok, of x w] by auto
  ultimately show ?thesis by (simp add: use_lists_def drop_use_def)
qed

section \<open>The operations on lists\<close>

lemma drop_use_unused: "use_lists h U \<Longrightarrow> Val h u = None \<Longrightarrow> drop_use u U = U"
  using use_listsD(3) [of h U u] by (auto simp: drop_use_def fun_eq_iff remove1_idem)

lemma addUse_Val: "addUse v u (h\<lparr>Val := X\<rparr>) = (addUse v u h)\<lparr>Val := X\<rparr>"
  by (auto simp: addUse_def addToList_def setPrev_def Let_def split: option.split)

lemma use_set_implements:
  assumes ok: "use_lists h U"
  shows "use_lists (use_set u V h) (move_use u V U)"
proof -
  define h1 where "h1 = (if Val h u \<noteq> None then removeFromList u h else h)\<lparr>Val := (Val h)(u := None)\<rparr>"
  have h1: "use_lists h1 (drop_use u U)"
  proof (cases "Val h u")
    case None
    then have "h1 = h" by (simp add: h1_def fun_upd_idem)
    with None ok show ?thesis by (simp add: drop_use_unused)
  next
    case (Some v)
    with removeFromList_chain [OF ok Some] show ?thesis by (simp add: h1_def)
  qed
  have v1: "Val h1 = (Val h)(u := None)" by (simp add: h1_def)
  let ?h = "if Val h u \<noteq> None then removeFromList u h else h"
  have add: "(addUse v u h1)\<lparr>Val := (Val h1)(u := Some v)\<rparr> = addUse v u (?h\<lparr>Val := (Val ?h)(u := Some v)\<rparr>)" for v
    unfolding v1 by (simp add: h1_def addUse_Val removeFromList_fields(1))
  show ?thesis
  proof (cases V)
    case None
    then have "use_set u V h = h1"
      by (simp add: use_set_def h1_def removeFromList_fields(1) Let_def)
    with None h1 show ?thesis by (simp add: move_use_def push_use_def)
  next
    case (Some v)
    have "use_lists ((addUse v u h1)\<lparr>Val := (Val h1)(u := Some v)\<rparr>) (push_use u (Some v) (drop_use u U))"
      using addToList_chain [OF h1, of u v] v1 by simp
    moreover have "use_set u V h = (addUse v u h1)\<lparr>Val := (Val h1)(u := Some v)\<rparr>"
      unfolding add using Some by (simp add: use_set_def removeFromList_fields(1) Let_def)
    ultimately show ?thesis using Some by (simp add: move_use_def)
  qed
qed

lemma user_back_list: "use_lists h U \<Longrightarrow> user_back h v = (case U v of [] \<Rightarrow> None | u # _ \<Rightarrow> Some (getUser u))"
  using chain_head [OF use_listsD(1), of h U v] by (auto simp: user_back_def split: list.split)

lemma use_empty_list: "use_lists h U \<Longrightarrow> use_empty h v \<longleftrightarrow> U v = []"
  using chain_head [OF use_listsD(1), of h U v] by (auto simp: use_empty_def split: list.splits)

lemma hasOneUse_list:
  assumes "use_lists h U" shows "hasOneUse h v \<longleftrightarrow> length (U v) = 1"
proof (cases "U v")
  case Nil
  then show ?thesis using use_listsD(1) [OF assms, of v] by (simp add: hasOneUse_def)
next
  case (Cons u us)
  then show ?thesis using use_listsD(1) [OF assms, of v] chain_head [of h "NextOf u" us]
    by (auto simp: hasOneUse_def split: list.splits)
qed

section \<open>Properties\<close>

text \<open>
  C24. \<open>Use::set\<close> keeps the linked lists and the operands in step: when the pointers represent
  the lists \<open>U\<close>, with every use on the list of the value it holds and no other, then after
  \<open>set\<close> they represent \<open>U\<close> with the use moved to the head of its new value's list.
\<close>

theorem use_set_refines_lists:
  assumes "use_lists h U"
  shows "use_lists (use_set u V h) (move_use u V U)"
  using use_set_implements [OF assms] .

theorem use_set_refines_lists_witness:
  "use_lists (use_set (Use 7 0) (Some 3) \<lparr>UseList = (\<lambda>_. None), Val = (\<lambda>_. None), Next = (\<lambda>_. None), Prev = UseListOf\<circ>getUser\<rparr>)
     ((\<lambda>_. [])(3 := [Use 7 0]))"
proof -
  let ?h = "\<lparr>UseList = (\<lambda>_. None), Val = (\<lambda>_. None), Next = (\<lambda>_. None), Prev = UseListOf\<circ>getUser\<rparr>"
  have "use_lists ?h (\<lambda>_. [])" by (simp add: use_lists_def)
  from use_set_refines_lists [OF this, of "Use 7 0" "Some 3"] show ?thesis
    by (simp add: move_use_def push_use_def drop_use_def fun_upd_def)
qed

end
