(* ===== verification/PT_IR.thy ===== *)
theory PT_IR imports LL_Uses begin

text \<open>
  The part of LLVM's intermediate representation the pass reads and rewrites: values with their
  operands and use lists, functions as lists of blocks of instructions, and the operations on
  them the headers define (\<open>User::setOperand\<close>, the inserting of new instructions, \<open>IRBuilder\<close>).
  Use lists are the lists of \<open>LL_Uses\<close>, the abstraction of the linked ones.  What lives in
  LLVM's libraries (printing of types, constant folding, stripping of casts, replacing all uses,
  declaring functions) is a record of functions, an argument of the operations that use it.
\<close>

section \<open>Types and values\<close>

datatype ty =
    VoidTy | IntTy nat | FloatTy | PointerTy ty | StructTy string
  | ArrayTy nat ty | VectorTy nat ty | FunctionTy ty "ty list"

fun isPointerTy :: "ty \<Rightarrow> bool" where
  "isPointerTy (PointerTy _) = True"
| "isPointerTy _ = False"

fun getContainedType :: "ty \<Rightarrow> ty" where
  "getContainedType (PointerTy t) = t"
| "getContainedType (ArrayTy _ t) = t"
| "getContainedType (VectorTy _ t) = t"
| "getContainedType (FunctionTy r _) = r"
| "getContainedType t = t"

text \<open>
  The classes the pass asks for with \<open>isa\<close> and \<open>dyn_cast\<close>; \<open>NullVal\<close> is the class of a null
  pointer, which is in none of them.
\<close>

datatype kind =
    NullVal | Argument | GlobalVariable | Function bool | ConstantVal
  | Alloca ty | Load | Store | GetElementPtr | Call | BitCast | Ret | Cmp | OtherInst

fun isConstant :: "kind \<Rightarrow> bool" where
  "isConstant GlobalVariable = True"
| "isConstant (Function _) = True"
| "isConstant ConstantVal = True"
| "isConstant _ = False"

fun isAlloca :: "kind \<Rightarrow> bool" where
  "isAlloca (Alloca _) = True"
| "isAlloca _ = False"

fun isFunction :: "kind \<Rightarrow> bool" where
  "isFunction (Function _) = True"
| "isFunction _ = False"

definition isGlobalObject :: "kind \<Rightarrow> bool" where
  "isGlobalObject k = (isFunction k \<or> k = GlobalVariable)"

record val_info =
  kind_of :: kind
  type_of :: ty
  name_of :: string
  ops_of :: "vid list"

definition null_info :: val_info where
  "null_info = \<lparr>kind_of = NullVal, type_of = VoidTy, name_of = [], ops_of = []\<rparr>"

record ir =
  vals :: "vid \<Rightarrow> val_info option"
  uses :: "vid \<Rightarrow> use list"
  blocks :: "vid \<Rightarrow> vid list list"
  getFunctionList :: "vid list"
  next_vid :: vid

definition info :: "ir \<Rightarrow> vid \<Rightarrow> val_info" where
  "info m v = (case vals m v of None \<Rightarrow> null_info | Some x \<Rightarrow> x)"

abbreviation kind :: "ir \<Rightarrow> vid \<Rightarrow> kind" where "kind m v \<equiv> kind_of (info m v)"
abbreviation getType :: "ir \<Rightarrow> vid \<Rightarrow> ty" where "getType m v \<equiv> type_of (info m v)"
abbreviation getName :: "ir \<Rightarrow> vid \<Rightarrow> string" where "getName m v \<equiv> name_of (info m v)"
abbreviation operands :: "ir \<Rightarrow> vid \<Rightarrow> vid list" where "operands m v \<equiv> ops_of (info m v)"

definition getOperand :: "ir \<Rightarrow> vid \<Rightarrow> nat \<Rightarrow> vid" where
  "getOperand m u i = (if i < length (operands m u) then operands m u ! i else 0)"

text \<open>A call's operands are its arguments and then the called value.\<close>

definition getNumArgOperands :: "ir \<Rightarrow> vid \<Rightarrow> nat" where
  "getNumArgOperands m c = length (operands m c) - 1"

definition getCalledFunction :: "ir \<Rightarrow> vid \<Rightarrow> vid option" where
  "getCalledFunction m c =
     (let f = getOperand m c (length (operands m c) - 1) in if isFunction (kind m f) then Some f else None)"

definition isDeclaration :: "ir \<Rightarrow> vid \<Rightarrow> bool" where
  "isDeclaration m f = (kind m f = Function True)"

definition list_user_back :: "ir \<Rightarrow> vid \<Rightarrow> vid" where
  "list_user_back m v = (case uses m v of [] \<Rightarrow> 0 | u # _ \<Rightarrow> getUser u)"

definition hasNUsesOrMore :: "ir \<Rightarrow> vid \<Rightarrow> nat \<Rightarrow> bool" where
  "hasNUsesOrMore m v n = (n \<le> length (uses m v))"

text \<open>\<open>Constant\<close>s and functions outside the headers.\<close>

record llvm_lib =
  ll_print :: "ty \<Rightarrow> string"
  ll_stripPointerCasts :: "ir \<Rightarrow> vid \<Rightarrow> vid"
  ll_fold_cast :: "vid \<Rightarrow> ty \<Rightarrow> ir \<Rightarrow> vid \<times> ir"
  ll_replaceAllUsesWith :: "vid \<Rightarrow> vid \<Rightarrow> ir \<Rightarrow> ir"
  ll_getOrInsertFunction :: "string \<Rightarrow> ty \<Rightarrow> ir \<Rightarrow> vid \<times> ir"

section \<open>Rewriting\<close>

definition setOperand :: "vid \<Rightarrow> nat \<Rightarrow> vid \<Rightarrow> ir \<Rightarrow> ir" where
  "setOperand u i v m =
     (if i < length (operands m u) then
        m\<lparr>vals := (vals m)(u \<mapsto> (info m u)\<lparr>ops_of := (operands m u)[i := v]\<rparr>),
          uses := move_use (Use u i) (Some v) (uses m)\<rparr>
      else m)"

text \<open>A new value: every operand is set, which puts its use on the list of its value.\<close>

fun push_uses :: "vid \<Rightarrow> nat \<Rightarrow> vid list \<Rightarrow> (vid \<Rightarrow> use list) \<Rightarrow> vid \<Rightarrow> use list" where
  "push_uses n i [] U = U"
| "push_uses n i (v # vs) U = push_uses n (Suc i) vs (push_use (Use n i) (Some v) U)"

definition new_value :: "kind \<Rightarrow> ty \<Rightarrow> string \<Rightarrow> vid list \<Rightarrow> ir \<Rightarrow> vid \<times> ir" where
  "new_value k t nm vs m =
     (let n = next_vid m
      in (n, m\<lparr>vals := (vals m)(n \<mapsto> \<lparr>kind_of = k, type_of = t, name_of = nm, ops_of = vs\<rparr>),
               uses := push_uses n 0 vs (uses m), next_vid := n + 1\<rparr>))"

fun insert_before :: "vid \<Rightarrow> vid \<Rightarrow> vid list \<Rightarrow> vid list" where
  "insert_before pos n [] = []"
| "insert_before pos n (x # xs) = (if x = pos then n # x # xs else x # insert_before pos n xs)"

text \<open>\<open>InsertHelper\<close>: into the block of the insertion point, in front of it.\<close>

definition InsertHelper :: "vid \<Rightarrow> vid \<Rightarrow> ir \<Rightarrow> ir" where
  "InsertHelper n pos m = m\<lparr>blocks := (\<lambda>f. map (insert_before pos n) (blocks m f))\<rparr>"

definition CreateBitCast :: "llvm_lib \<Rightarrow> vid \<Rightarrow> vid \<Rightarrow> ty \<Rightarrow> ir \<Rightarrow> vid \<times> ir" where
  "CreateBitCast LL pos V DestTy m =
     (if getType m V = DestTy then (V, m)
      else if isConstant (kind m V) then ll_fold_cast LL V DestTy m
      else let (I, m) = new_value BitCast DestTy [] [V] m in (I, InsertHelper I pos m))"

fun return_type :: "ty \<Rightarrow> ty" where
  "return_type (PointerTy (FunctionTy r _)) = r"
| "return_type t = t"

definition CreateCall :: "vid \<Rightarrow> vid \<Rightarrow> vid list \<Rightarrow> ir \<Rightarrow> vid \<times> ir" where
  "CreateCall pos Callee Args m =
     (let (CI, m) = new_value Call (return_type (getType m Callee)) [] (Args @ [Callee]) m
      in (CI, InsertHelper CI pos m))"

section \<open>Well-formedness\<close>

text \<open>
  Use lists are exact: the uses on the list of \<open>v\<close> are the operands that are \<open>v\<close>, each once.
  Operands and instructions are values of the module, values are below \<open>next_vid\<close>, 0 is the null
  pointer, no instruction is twice in a block, and an instruction has the number of operands
  its class asks for.
\<close>

fun arity_ok :: "kind \<Rightarrow> nat \<Rightarrow> bool" where
  "arity_ok Load n = (n = 1)"
| "arity_ok Store n = (n = 2)"
| "arity_ok BitCast n = (n = 1)"
| "arity_ok GetElementPtr n = (1 \<le> n)"
| "arity_ok Call n = (1 \<le> n)"
| "arity_ok _ n = True"

definition use_of :: "ir \<Rightarrow> use \<Rightarrow> vid \<Rightarrow> bool" where
  "use_of m u v \<longleftrightarrow> getOperandNo u < length (operands m (getUser u)) \<and>
     operands m (getUser u) ! getOperandNo u = v"

definition ir_wf :: "ir \<Rightarrow> bool" where
  "ir_wf m \<longleftrightarrow>
     (\<forall>v u. u \<in> set (uses m v) \<longleftrightarrow> use_of m u v) \<and> (\<forall>v. distinct (uses m v)) \<and>
     (\<forall>v x. vals m v = Some x \<longrightarrow> v \<noteq> 0 \<and> v < next_vid m) \<and>
     (\<forall>v. \<forall>x \<in> set (operands m v). vals m x \<noteq> None) \<and> 0 < next_vid m \<and>
     (\<forall>f. \<forall>B \<in> set (blocks m f). distinct B \<and> (\<forall>x \<in> set B. vals m x \<noteq> None)) \<and>
     (\<forall>v. arity_ok (kind m v) (length (operands m v)))"

lemma ir_wfD:
  assumes "ir_wf m"
  shows "u \<in> set (uses m v) \<longleftrightarrow> use_of m u v" "distinct (uses m v)"
    "vals m v = Some y \<Longrightarrow> v \<noteq> 0" "vals m v = Some y \<Longrightarrow> v < next_vid m"
    "x \<in> set (operands m v) \<Longrightarrow> vals m x \<noteq> None" "0 < next_vid m"
    "B \<in> set (blocks m f) \<Longrightarrow> x \<in> set B \<Longrightarrow> x < next_vid m"
    "B \<in> set (blocks m f) \<Longrightarrow> x \<in> set B \<Longrightarrow> vals m x \<noteq> None" "B \<in> set (blocks m f) \<Longrightarrow> distinct B"
    "arity_ok (kind m v) (length (operands m v))"
  using assms by (auto simp: ir_wf_def)

lemma fresh_unused: "ir_wf m \<Longrightarrow> vals m (next_vid m) = None" "ir_wf m \<Longrightarrow> uses m (next_vid m) = []"
proof -
  assume wf: "ir_wf m"
  then show n: "vals m (next_vid m) = None" using ir_wfD(4) by fastforce
  have "u \<notin> set (uses m (next_vid m))" for u
  proof
    assume "u \<in> set (uses m (next_vid m))"
    then have "use_of m u (next_vid m)" using ir_wfD(1) [OF wf] by blast
    then have "next_vid m \<in> set (operands m (getUser u))" by (auto simp: use_of_def in_set_conv_nth)
    with ir_wfD(5) [OF wf] n show False by blast
  qed
  then show "uses m (next_vid m) = []" by (metis last_in_set)
qed

lemma operands_None: "vals m v = None \<Longrightarrow> operands m v = []"
  by (simp add: info_def null_info_def)

lemma getOperand_defined: "ir_wf m \<Longrightarrow> i < length (operands m u) \<Longrightarrow> vals m (getOperand m u i) \<noteq> None"
  using ir_wfD(5) [of m "operands m u ! i" u] by (simp add: getOperand_def)

lemma info_upd: "info (m\<lparr>vals := (vals m)(n \<mapsto> x)\<rparr>) v = (if v = n then x else info m v)"
  by (simp add: info_def)

text \<open>Setting an operand keeps the use lists exact.\<close>

lemma set_move_use:
  assumes "\<And>w. distinct (U w)"
  shows "x \<in> set (move_use u (Some v) U w) \<longleftrightarrow> (if x = u then w = v else x \<in> set (U w))"
  using assms by (auto simp: move_use_def push_use_def drop_use_def)

lemma distinct_move_use: "(\<And>w. distinct (U w)) \<Longrightarrow> distinct (move_use u (Some v) U w)"
  by (auto simp: move_use_def push_use_def drop_use_def)

lemma info_setOperand:
  "info (setOperand u i v m) w =
     (if w = u \<and> i < length (operands m u) then (info m u)\<lparr>ops_of := (operands m u)[i := v]\<rparr> else info m w)"
  by (simp add: setOperand_def info_def)

lemma setOperand_simps [simp]:
  "blocks (setOperand u i v m) = blocks m" "getFunctionList (setOperand u i v m) = getFunctionList m"
  "next_vid (setOperand u i v m) = next_vid m"
  by (simp_all add: setOperand_def)

lemma vals_setOperand_None: "ir_wf m \<Longrightarrow> vals (setOperand u i v m) w = None \<longleftrightarrow> vals m w = None"
  by (cases "vals m u") (auto simp: setOperand_def operands_None)

lemma ir_wf_setOperand:
  assumes wf: "ir_wf m" and v: "vals m v \<noteq> None"
  shows "ir_wf (setOperand u i v m)"
proof (cases "i < length (operands m u)")
  case False
  then show ?thesis using wf by (simp add: setOperand_def)
next
  case True
  let ?m = "setOperand u i v m"
  have U: "uses ?m = move_use (Use u i) (Some v) (uses m)" using True by (simp add: setOperand_def)
  have dist: "distinct (uses m w)" for w by (rule ir_wfD(2) [OF wf])
  have "x \<in> set (uses ?m w) \<longleftrightarrow> use_of ?m x w" for x w
    unfolding U set_move_use [OF dist] using ir_wfD(1) [OF wf, of x w] True
    by (cases x) (auto simp: use_of_def info_setOperand nth_list_update)
  moreover have "distinct (uses ?m w)" for w unfolding U using dist by (rule distinct_move_use)
  moreover have "w \<noteq> 0 \<and> w < next_vid ?m" if "vals ?m w = Some y" for w y
  proof -
    have "vals m w \<noteq> None" using that vals_setOperand_None [OF wf, of u i v w] by simp
    then show ?thesis using ir_wfD(3,4) [OF wf] by auto
  qed
  moreover have "vals ?m x \<noteq> None" if "x \<in> set (operands ?m w)" for x w
  proof -
    have "x = v \<or> x \<in> set (operands m w)"
      using that True by (auto simp: info_setOperand dest!: set_update_subset_insert [THEN subsetD] split: if_splits)
    then have "vals m x \<noteq> None" using v ir_wfD(5) [OF wf, of x w] by blast
    then show ?thesis using vals_setOperand_None [OF wf, of u i v x] by simp
  qed
  moreover have "vals ?m x \<noteq> None" if "B \<in> set (blocks ?m f)" "x \<in> set B" for B f x
    using that ir_wfD(8) [OF wf, of B f x] vals_setOperand_None [OF wf, of u i v x] by simp
  moreover have "arity_ok (kind ?m w) (length (operands ?m w))" for w
    using ir_wfD(10) [OF wf, of w] by (auto simp: info_setOperand)
  ultimately show ?thesis using wf unfolding ir_wf_def by auto
qed

text \<open>Creating a value keeps them exact, too.\<close>

lemma set_push_uses: "x \<in> set (push_uses n i vs U w) \<longleftrightarrow>
    x \<in> set (U w) \<or> (\<exists>j < length vs. x = Use n (i + j) \<and> vs ! j = w)"
proof (induction vs arbitrary: i U)
  case Nil
  then show ?case by simp
next
  case (Cons v vs)
  show ?case
    by (auto simp: Cons push_use_def Ex_less_Suc2)
qed

lemma distinct_push_uses:
  "(\<And>w. distinct (U w)) \<Longrightarrow> (\<And>w j. i \<le> j \<Longrightarrow> Use n j \<notin> set (U w)) \<Longrightarrow> distinct (push_uses n i vs U w)"
proof (induction vs arbitrary: i U)
  case Nil
  then show ?case by simp
next
  case (Cons v vs)
  then show ?case by (auto simp: push_use_def intro!: Cons.IH)
qed

lemma new_value_simps [simp]:
  "fst (new_value k t nm vs m) = next_vid m" "next_vid (snd (new_value k t nm vs m)) = Suc (next_vid m)"
  "blocks (snd (new_value k t nm vs m)) = blocks m"
  "getFunctionList (snd (new_value k t nm vs m)) = getFunctionList m"
  by (simp_all add: new_value_def Let_def)

lemma vals_new_value:
  "vals (snd (new_value k t nm vs m)) v =
     (if v = next_vid m then Some \<lparr>kind_of = k, type_of = t, name_of = nm, ops_of = vs\<rparr> else vals m v)"
  by (simp add: new_value_def Let_def)

lemma info_new_value:
  "info (snd (new_value k t nm vs m)) v =
     (if v = next_vid m then \<lparr>kind_of = k, type_of = t, name_of = nm, ops_of = vs\<rparr> else info m v)"
  by (simp add: info_def vals_new_value)

lemma ir_wf_new_value:
  assumes wf: "ir_wf m" and vs: "\<forall>v \<in> set vs. vals m v \<noteq> None" and ar: "arity_ok k (length vs)"
  shows "ir_wf (snd (new_value k t nm vs m))"
proof -
  let ?m = "snd (new_value k t nm vs m)" and ?n = "next_vid m"
  have U: "uses ?m = push_uses ?n 0 vs (uses m)" by (simp add: new_value_def Let_def)
  have fresh: "Use ?n j \<notin> set (uses m w)" for j w
    using ir_wfD(1) [OF wf] operands_None [OF fresh_unused(1) [OF wf]] by (simp add: use_of_def)
  have "x \<in> set (uses ?m w) \<longleftrightarrow> use_of ?m x w" for x w
    unfolding U set_push_uses using ir_wfD(1) [OF wf, of x w] fresh [of "getOperandNo x" w]
    by (cases x) (auto simp: use_of_def info_new_value)
  moreover have "distinct (uses ?m w)" for w
    unfolding U using ir_wfD(2) [OF wf] fresh by (intro distinct_push_uses) auto
  moreover have "w \<noteq> 0 \<and> w < next_vid ?m" if "vals ?m w = Some y" for w y
    using that ir_wfD(3,4,6) [OF wf] by (auto simp: vals_new_value less_Suc_eq split: if_splits)
  moreover have "vals ?m x \<noteq> None" if "x \<in> set (operands ?m w)" for x w
    using that vs ir_wfD(5) [OF wf, of x w] by (auto simp: info_new_value vals_new_value split: if_splits)
  moreover have "vals ?m x \<noteq> None" if "B \<in> set (blocks ?m f)" "x \<in> set B" for B f x
    using that ir_wfD(8) [OF wf, of B f x] by (simp add: vals_new_value)
  moreover have "arity_ok (kind ?m w) (length (operands ?m w))" for w
    using ir_wfD(10) [OF wf, of w] ar by (simp add: info_new_value)
  ultimately show ?thesis using wf unfolding ir_wf_def by (auto simp: less_Suc_eq)
qed

lemma set_insert_before: "set (insert_before p n xs) \<subseteq> insert n (set xs)"
  by (induction xs) auto

lemma InsertHelper_simps [simp]:
  "vals (InsertHelper n p m) = vals m" "uses (InsertHelper n p m) = uses m" "info (InsertHelper n p m) = info m"
  "next_vid (InsertHelper n p m) = next_vid m" "getFunctionList (InsertHelper n p m) = getFunctionList m"
  by (simp_all add: InsertHelper_def info_def fun_eq_iff)

lemma distinct_insert_before: "distinct xs \<Longrightarrow> n \<notin> set xs \<Longrightarrow> distinct (insert_before p n xs)"
proof (induction xs)
  case (Cons x xs)
  then show ?case using set_insert_before [of p n xs] by auto
qed simp

lemma ir_wf_InsertHelper:
  assumes wf: "ir_wf m" and n: "vals m n \<noteq> None" "\<And>f B. B \<in> set (blocks m f) \<Longrightarrow> n \<notin> set B"
  shows "ir_wf (InsertHelper n p m)"
proof -
  have "distinct B \<and> (\<forall>x \<in> set B. vals m x \<noteq> None)" if B: "B \<in> set (blocks (InsertHelper n p m) f)" for B f
  proof -
    obtain C where C: "C \<in> set (blocks m f)" "B = insert_before p n C"
      using B by (auto simp: InsertHelper_def)
    have "distinct C" "\<forall>x \<in> set C. vals m x \<noteq> None" "n \<notin> set C"
      using ir_wfD(8,9) [OF wf C(1)] n(2) [OF C(1)] by blast+
    then show ?thesis
      using C(2) distinct_insert_before [of C n p] n(1) set_insert_before [of p n C] by auto
  qed
  then show ?thesis using wf unfolding ir_wf_def use_of_def by simp
qed

section \<open>What instrumenting keeps\<close>

text \<open>
  What instrumentation may do to a module: values keep their class, type, name, called function
  and the types of their operands; blocks keep their instructions in order, with new ones in
  between.  \<open>I\<close> is the instruction being visited; the new instructions behind it are casts and
  calls of functions in \<open>K\<close>.
\<close>

definition same_value :: "ir \<Rightarrow> ir \<Rightarrow> vid \<Rightarrow> bool" where
  "same_value m m' v \<longleftrightarrow> vals m' v \<noteq> None \<and> kind m' v = kind m v \<and> getType m' v = getType m v \<and>
     getName m' v = getName m v \<and> length (operands m' v) = length (operands m v) \<and>
     (\<forall>i < length (operands m v). getType m' (operands m' v ! i) = getType m (operands m v ! i)) \<and>
     (kind m v = Call \<longrightarrow> operands m v \<noteq> [] \<longrightarrow> last (operands m' v) = last (operands m v))"

definition inert :: "vid set \<Rightarrow> ir \<Rightarrow> vid \<Rightarrow> bool" where
  "inert K m x \<longleftrightarrow> kind m x = BitCast \<or> kind m x = Call \<and> operands m x \<noteq> [] \<and> last (operands m x) \<in> K"

fun tail_of :: "vid \<Rightarrow> vid list \<Rightarrow> vid list" where
  "tail_of I xs = (if I \<in> set xs then tl (dropWhile (\<lambda>x. x \<noteq> I) xs) else xs)"

definition block_grows :: "vid set \<Rightarrow> vid \<Rightarrow> ir \<Rightarrow> ir \<Rightarrow> vid list \<Rightarrow> vid list \<Rightarrow> bool" where
  "block_grows K I m m' B B' \<longleftrightarrow> filter (\<lambda>x. x < next_vid m) B' = B \<and>
     (\<forall>x \<in> set (tail_of I B'). next_vid m \<le> x \<longrightarrow> inert K m' x)"

definition keeps :: "vid set \<Rightarrow> vid \<Rightarrow> ir \<Rightarrow> ir \<Rightarrow> bool" where
  "keeps K I m m' \<longleftrightarrow> ir_wf m' \<and> next_vid m \<le> next_vid m' \<and> getFunctionList m' = getFunctionList m \<and>
     (\<forall>v. vals m v \<noteq> None \<longrightarrow> same_value m m' v) \<and>
     (\<forall>f. list_all2 (block_grows K I m m') (blocks m f) (blocks m' f))"

lemma keepsD:
  assumes "keeps K I m m'"
  shows "ir_wf m'" "next_vid m \<le> next_vid m'" "vals m v \<noteq> None \<Longrightarrow> same_value m m' v"
    "list_all2 (block_grows K I m m') (blocks m f) (blocks m' f)"
    "getFunctionList m' = getFunctionList m"
  using assms by (auto simp: keeps_def)

lemma same_value_refl: "vals m v \<noteq> None \<Longrightarrow> same_value m m v"
  by (simp add: same_value_def)

lemma dropWhile_filter: "P I \<Longrightarrow> dropWhile (\<lambda>x. x \<noteq> I) (filter P xs) = filter P (dropWhile (\<lambda>x. x \<noteq> I) xs)"
  by (induction xs) auto

lemma tail_of_filter: "P I \<Longrightarrow> tail_of I (filter P xs) = filter P (tail_of I xs)"
proof (cases "I \<in> set xs")
  case True
  assume P: "P I"
  obtain r where "dropWhile (\<lambda>x. x \<noteq> I) xs = I # r"
    using True by (metis (mono_tags, lifting) hd_Cons_tl hd_dropWhile dropWhile_eq_Nil_conv)
  with True P show ?thesis by (simp add: dropWhile_filter tail_of.simps)
qed (auto simp: tail_of.simps)

lemma set_tail_of: "set (tail_of I xs) \<subseteq> set xs"
proof -
  have "set (tl (dropWhile P xs)) \<subseteq> set xs" for P
    by (metis list.set_sel(2) list.sel(2) set_dropWhileD subsetI)
  then show ?thesis by (simp add: tail_of.simps)
qed

declare tail_of.simps [simp del]

lemma inert_vals: "inert K m x \<Longrightarrow> vals m x \<noteq> None"
  by (cases "vals m x") (auto simp: inert_def info_def null_info_def)

lemma inert_same_value: "inert K m x \<Longrightarrow> same_value m m' x \<Longrightarrow> inert K m' x"
  by (auto simp: inert_def same_value_def)

lemma same_value_trans:
  assumes "same_value m m1 v" and "\<And>w. vals m1 w \<noteq> None \<Longrightarrow> same_value m1 m2 w"
    and "ir_wf m1"
  shows "same_value m m2 v"
proof -
  have "same_value m1 m2 v" using assms(1,2) by (simp add: same_value_def)
  then show ?thesis using assms(1) unfolding same_value_def by auto
qed

lemma block_grows_refl: "ir_wf m \<Longrightarrow> B \<in> set (blocks m f) \<Longrightarrow> block_grows K I m m B B"
  using ir_wfD(7) [of m B f] set_tail_of [of I B] by (fastforce simp: block_grows_def filter_id_conv)

lemma keeps_refl: "ir_wf m \<Longrightarrow> keeps K I m m"
  by (auto simp: keeps_def same_value_refl block_grows_refl list_all2_same)

lemma keeps_trans:
  assumes 1: "keeps K I m m1" and 2: "keeps K I m1 m2" and I: "I < next_vid m"
  shows "keeps K I m m2"
proof -
  note n = keepsD(2) [OF 1]
  have "block_grows K I m m2 B B2" if b: "block_grows K I m m1 B B1" "block_grows K I m1 m2 B1 B2" for B B1 B2
  proof -
    have e: "filter (\<lambda>x. x < next_vid m1) B2 = B1" using b(2) by (simp add: block_grows_def)
    have "filter (\<lambda>x. x < next_vid m) B2 = filter (\<lambda>x. x < next_vid m) (filter (\<lambda>x. x < next_vid m1) B2)"
      using n by (auto intro: filter_cong)
    then have "filter (\<lambda>x. x < next_vid m) B2 = B" using e b(1) by (simp add: block_grows_def)
    moreover have "inert K m2 x" if x: "x \<in> set (tail_of I B2)" "next_vid m \<le> x" for x
    proof (cases "next_vid m1 \<le> x")
      case True
      with b(2) x(1) show ?thesis by (simp add: block_grows_def)
    next
      case False
      then have "x \<in> set (tail_of I B1)"
        using x(1) e tail_of_filter [of "\<lambda>x. x < next_vid m1" I B2] I n by auto
      with b(1) x(2) have "inert K m1 x" by (simp add: block_grows_def)
      then show ?thesis using keepsD(3) [OF 2 inert_vals] inert_same_value by blast
    qed
    ultimately show ?thesis by (simp add: block_grows_def)
  qed
  then have "list_all2 (block_grows K I m m2) (blocks m f) (blocks m2 f)" for f
    using list_all2_trans [OF _ keepsD(4) [OF 1, of f] keepsD(4) [OF 2, of f]] by blast
  moreover have "same_value m m2 v" if "vals m v \<noteq> None" for v
    using same_value_trans [OF keepsD(3) [OF 1 that]] keepsD(3) [OF 2] keepsD(1) [OF 1] by blast
  ultimately show ?thesis
    using keepsD(1,2) [OF 2] n keepsD(5) [OF 1] keepsD(5) [OF 2] by (simp add: keeps_def)
qed

lemma keeps_setOperand:
  assumes wf: "ir_wf m" and v: "vals m v \<noteq> None" and i: "i < length (operands m u)"
    and t: "getType m v = getType m (getOperand m u i)" and c: "kind m u = Call \<Longrightarrow> Suc i < length (operands m u)"
  shows "keeps K I m (setOperand u i v m)"
proof -
  have "same_value m (setOperand u i v m) w" if "vals m w \<noteq> None" for w
  proof -
    have "last ((operands m u)[i := v]) = last (operands m u)" if "kind m u = Call"
    proof -
      have "operands m u \<noteq> []" "Suc i < length (operands m u)" using c [OF that] by auto
      then show ?thesis by (simp add: last_conv_nth nth_list_update)
    qed
    then show ?thesis
      using that t i vals_setOperand_None [OF wf, of u i v w]
      by (auto simp: same_value_def info_setOperand nth_list_update getOperand_def)
  qed
  moreover have "block_grows K I m (setOperand u i v m) B B" if "B \<in> set (blocks m f)" for B f
    using block_grows_refl [OF wf that, of K I] set_tail_of [of I B] ir_wfD(7) [OF wf that]
    by (fastforce simp: block_grows_def)
  ultimately show ?thesis
    using ir_wf_setOperand [OF wf v] by (simp add: keeps_def list_all2_same)
qed

lemma insert_before_filter: "\<forall>x \<in> set xs. x < n \<Longrightarrow> filter (\<lambda>x. x < n) (insert_before p n xs) = xs"
  by (induction xs) (auto simp: filter_id_conv)

lemma tail_insert_same: "n \<noteq> I \<Longrightarrow> tail_of I (insert_before I n xs) = tail_of I xs"
proof -
  assume n: "n \<noteq> I"
  have "dropWhile (\<lambda>x. x \<noteq> I) (insert_before I n xs) = dropWhile (\<lambda>x. x \<noteq> I) xs"
    using n by (induction xs) auto
  moreover have "I \<in> set (insert_before I n xs) \<longleftrightarrow> I \<in> set xs"
    using n by (induction xs) auto
  moreover have "I \<notin> set xs \<Longrightarrow> insert_before I n xs = xs"
    by (induction xs) auto
  ultimately show ?thesis by (auto simp: tail_of.simps)
qed

text \<open>A new instruction: inserted in front of the current one, or harmless.\<close>

lemma keeps_new_inst:
  fixes t :: ty and nm :: string
  assumes wf: "ir_wf m" and vs: "\<forall>v \<in> set vs. vals m v \<noteq> None" and I: "I < next_vid m"
    and ar: "arity_ok k (length vs)" and harmless: "pos = I \<or> k = BitCast \<or> k = Call \<and> vs \<noteq> [] \<and> last vs \<in> K"
  defines "m' \<equiv> InsertHelper (next_vid m) pos (snd (new_value k t nm vs m))"
  shows "keeps K I m m'"
proof -
  have wf': "ir_wf m'"
    unfolding m'_def
    by (intro ir_wf_InsertHelper ir_wf_new_value wf vs ar) (auto simp: vals_new_value dest: ir_wfD(7) [OF wf])
  have old: "info m' v = info m v" "vals m' v = vals m v" if "v \<noteq> next_vid m" for v
    using that by (simp_all add: m'_def info_new_value vals_new_value)
  have "same_value m m' v" if "vals m v \<noteq> None" for v
  proof -
    have v: "v \<noteq> next_vid m" using ir_wfD(4) [OF wf, of v] that by auto
    moreover have "operands m v ! i \<noteq> next_vid m" if "i < length (operands m v)" for i
      using ir_wfD(5) [OF wf nth_mem [OF that]] ir_wfD(4) [OF wf, of "operands m v ! i"] by auto
    ultimately show ?thesis using that old by (simp add: same_value_def)
  qed
  moreover have "block_grows K I m m' B (insert_before pos (next_vid m) B)" if B: "B \<in> set (blocks m f)" for B f
  proof -
    have lt: "\<forall>x \<in> set B. x < next_vid m" using ir_wfD(7) [OF wf B] by blast
    have "inert K m' x" if x: "x \<in> set (tail_of I (insert_before pos (next_vid m) B))" "next_vid m \<le> x" for x
    proof (cases "pos = I")
      case True
      then have "x \<in> set (tail_of I B)" using x(1) I by (simp add: tail_insert_same)
      then show ?thesis using set_tail_of lt x(2) by fastforce
    next
      case False
      have "x = next_vid m"
        using x lt set_tail_of set_insert_before by (metis insertE leD subsetD)
      then show ?thesis using harmless False by (auto simp: inert_def m'_def info_new_value)
    qed
    then show ?thesis unfolding block_grows_def using insert_before_filter [OF lt] by simp
  qed
  ultimately show ?thesis
    using wf' by (simp add: keeps_def m'_def list_all2_map2 list_all2_same InsertHelper_def)
qed

section \<open>Growing modules\<close>

text \<open>
  Where the operands come from.  The pass puts in an operand's place what a new cast or a new call
  of a runtime function makes of it: from the new operand, through casts and first arguments of
  calls of functions in \<open>runtime K\<close>, all numbered from \<open>n\<close> on, and through constants that are
  casts of constants (\<open>cast_of K\<close>), one comes back to the old operand.
\<close>

record growth =
  checks :: "vid set"
  runtime :: "vid set"
  cast_of :: "vid \<Rightarrow> vid \<Rightarrow> bool"

inductive leads :: "growth \<Rightarrow> vid \<Rightarrow> ir \<Rightarrow> vid \<Rightarrow> vid \<Rightarrow> bool" for K n m where
  leads_refl: "leads K n m v v"
| leads_fold: "cast_of K w x \<Longrightarrow> leads K n m x v \<Longrightarrow> leads K n m w v"
| leads_cast: "n \<le> w \<Longrightarrow> kind m w = BitCast \<Longrightarrow> operands m w = [x] \<Longrightarrow> leads K n m x v \<Longrightarrow> leads K n m w v"
| leads_call: "n \<le> w \<Longrightarrow> kind m w = Call \<Longrightarrow> operands m w = [x, h] \<Longrightarrow> h \<in> runtime K \<Longrightarrow>
    leads K n m x v \<Longrightarrow> leads K n m w v"

definition inserted :: "growth \<Rightarrow> ir \<Rightarrow> vid \<Rightarrow> bool" where
  "inserted K m x \<longleftrightarrow> kind m x = BitCast \<or>
     kind m x = Call \<and> length (operands m x) = 2 \<and> last (operands m x) \<in> runtime K"

definition traces :: "growth \<Rightarrow> ir \<Rightarrow> ir \<Rightarrow> bool" where
  "traces K m m' \<longleftrightarrow>
     (\<forall>v i. vals m v \<noteq> None \<longrightarrow> i < length (operands m v) \<longrightarrow>
        leads K (next_vid m) m' (operands m' v ! i) (operands m v ! i)) \<and>
     (\<forall>f. \<forall>B \<in> set (blocks m' f). \<forall>x \<in> set B. next_vid m \<le> x \<longrightarrow> inserted K m' x)"

definition grows :: "growth \<Rightarrow> vid \<Rightarrow> ir \<Rightarrow> ir \<Rightarrow> bool" where
  "grows K I m m' \<longleftrightarrow> keeps (checks K) I m m' \<and> traces K m m'"

lemma growsD:
  assumes "grows K I m m'"
  shows "ir_wf m'" "next_vid m \<le> next_vid m'" "vals m v \<noteq> None \<Longrightarrow> same_value m m' v"
    "list_all2 (block_grows (checks K) I m m') (blocks m f) (blocks m' f)"
    "getFunctionList m' = getFunctionList m" "traces K m m'" "keeps (checks K) I m m'"
  using assms keepsD [of "checks K" I m m'] by (auto simp: grows_def)

lemma tracesD:
  assumes "traces K m m'"
  shows "vals m v \<noteq> None \<Longrightarrow> i < length (operands m v) \<Longrightarrow>
      leads K (next_vid m) m' (operands m' v ! i) (operands m v ! i)"
    and "B \<in> set (blocks m' f) \<Longrightarrow> x \<in> set B \<Longrightarrow> next_vid m \<le> x \<Longrightarrow> inserted K m' x"
  using assms unfolding traces_def by blast+

lemma leads_trans: "leads K n m w x \<Longrightarrow> leads K n m x v \<Longrightarrow> leads K n m w v"
  by (induction rule: leads.induct) (auto intro: leads.intros)

lemma leads_mono: "leads K n' m w v \<Longrightarrow> n \<le> n' \<Longrightarrow> leads K n m w v"
  by (induction rule: leads.induct) (auto intro: leads.intros)

lemma kind_defined: "kind m v \<noteq> NullVal \<Longrightarrow> vals m v \<noteq> None"
  by (auto simp: info_def null_info_def split: option.splits)

text \<open>The way back stays when the module grows further.\<close>

lemma leads_step:
  assumes "leads K n m1 w v" and tr: "traces K m1 m2" and n: "n \<le> next_vid m1"
    and same: "\<And>v. vals m1 v \<noteq> None \<Longrightarrow> same_value m1 m2 v"
  shows "leads K n m2 w v"
  using assms(1)
proof (induction rule: leads.induct)
  case (leads_cast w x v)
  have w: "same_value m1 m2 w" using leads_cast.hyps(2) by (intro same kind_defined) simp
  then obtain x' where x': "operands m2 w = [x']"
    using leads_cast.hyps(3) by (auto simp: same_value_def length_Suc_conv)
  have "leads K (next_vid m1) m2 (operands m2 w ! 0) (operands m1 w ! 0)"
    using leads_cast.hyps(2,3) kind_defined [of m1 w] by (intro tracesD(1) [OF tr]) simp_all
  then have "leads K n m2 x' x" using n x' leads_cast.hyps(3) by (simp add: leads_mono)
  then have "leads K n m2 x' v" using leads_cast.IH by (rule leads_trans)
  then show ?case
    using leads_cast.hyps(1,2) w x' by (intro leads.leads_cast [of n w m2 x']) (simp_all add: same_value_def)
next
  case (leads_call w x h v)
  have w: "same_value m1 m2 w" using leads_call.hyps(2) by (intro same kind_defined) simp
  then obtain x' h' where x': "operands m2 w = [x', h']"
    using leads_call.hyps(3) by (auto simp: same_value_def length_Suc_conv)
  have "leads K (next_vid m1) m2 (operands m2 w ! 0) (operands m1 w ! 0)"
    using leads_call.hyps(2,3) kind_defined [of m1 w] by (intro tracesD(1) [OF tr]) simp_all
  then have "leads K n m2 x' x" using n x' leads_call.hyps(3) by (simp add: leads_mono)
  then have "leads K n m2 x' v" using leads_call.IH by (rule leads_trans)
  moreover have "h' = h" using w x' leads_call.hyps(2,3) by (simp add: same_value_def)
  ultimately show ?case
    using leads_call.hyps(1,2,4) w x' by (intro leads.leads_call [of n w m2 x' h']) (simp_all add: same_value_def)
qed (auto intro: leads.intros)

lemma inserted_same_value: "inserted K m x \<Longrightarrow> same_value m m' x \<Longrightarrow> inserted K m' x"
  by (auto simp: inserted_def same_value_def)

lemma inserted_defined: "inserted K m x \<Longrightarrow> vals m x \<noteq> None"
  by (rule kind_defined) (auto simp: inserted_def)

lemma traces_refl: "ir_wf m \<Longrightarrow> traces K m m"
  using ir_wfD(7) [of m] by (fastforce simp: traces_def intro: leads_refl)

lemma traces_trans:
  assumes 1: "traces K m m1" and 2: "traces K m1 m2" and n: "next_vid m \<le> next_vid m1"
    and s1: "\<And>v. vals m v \<noteq> None \<Longrightarrow> same_value m m1 v" and s2: "\<And>v. vals m1 v \<noteq> None \<Longrightarrow> same_value m1 m2 v"
    and bl: "\<And>f. list_all2 (\<lambda>B B'. filter (\<lambda>x. x < next_vid m1) B' = B) (blocks m1 f) (blocks m2 f)"
  shows "traces K m m2"
proof -
  have "leads K (next_vid m) m2 (operands m2 v ! i) (operands m v ! i)"
    if v: "vals m v \<noteq> None" and i: "i < length (operands m v)" for v i
  proof -
    have v1: "vals m1 v \<noteq> None" "i < length (operands m1 v)" using s1 [OF v] i by (simp_all add: same_value_def)
    have "leads K (next_vid m1) m2 (operands m2 v ! i) (operands m1 v ! i)" using 2 v1 by (simp add: traces_def)
    then have "leads K (next_vid m) m2 (operands m2 v ! i) (operands m1 v ! i)" using n by (rule leads_mono)
    moreover have "leads K (next_vid m) m1 (operands m1 v ! i) (operands m v ! i)" using 1 v i by (simp add: traces_def)
    then have "leads K (next_vid m) m2 (operands m1 v ! i) (operands m v ! i)" using 2 n s2 by (rule leads_step)
    ultimately show ?thesis by (rule leads_trans)
  qed
  moreover have "inserted K m2 x" if B: "B \<in> set (blocks m2 f)" "x \<in> set B" "next_vid m \<le> x" for f B x
  proof (cases "next_vid m1 \<le> x")
    case True
    then show ?thesis using 2 B by (simp add: traces_def)
  next
    case False
    obtain j where j: "j < length (blocks m2 f)" "B = blocks m2 f ! j" using B(1) by (auto simp: in_set_conv_nth)
    then have "j < length (blocks m1 f)" "filter (\<lambda>x. x < next_vid m1) B = blocks m1 f ! j"
      using bl [of f] by (auto simp: list_all2_conv_all_nth)
    moreover have "x \<in> set (filter (\<lambda>x. x < next_vid m1) B)" using False B(2) by simp
    ultimately have "inserted K m1 x" using 1 B(3) by (auto simp: traces_def dest: nth_mem)
    then show ?thesis using s2 [OF inserted_defined] inserted_same_value by blast
  qed
  ultimately show ?thesis by (auto simp: traces_def)
qed

lemma grows_refl: "ir_wf m \<Longrightarrow> grows K I m m"
  by (simp add: grows_def keeps_refl traces_refl)

lemma keeps_blocks:
  "keeps C I m m' \<Longrightarrow> list_all2 (\<lambda>B B'. filter (\<lambda>x. x < next_vid m) B' = B) (blocks m f) (blocks m' f)"
  by (rule list_all2_mono [OF keepsD(4)]) (simp_all add: block_grows_def)

lemma grows_trans:
  assumes 1: "grows K I m m1" and 2: "grows K I m1 m2" and I: "I < next_vid m"
  shows "grows K I m m2"
  unfolding grows_def
proof
  show "keeps (checks K) I m m2" using growsD(7) [OF 1] growsD(7) [OF 2] I by (rule keeps_trans)
  show "traces K m m2"
    by (rule traces_trans [OF growsD(6) [OF 1] growsD(6) [OF 2] growsD(2) [OF 1] growsD(3) [OF 1] growsD(3) [OF 2]
        keeps_blocks [OF growsD(7) [OF 2]]])
qed

text \<open>
  Setting an operand of an instruction of \<open>m\<close>, after the new instructions that lead back to the
  old operand.
\<close>

lemma leads_setOperand:
  "leads K n m w v \<Longrightarrow> u < n \<Longrightarrow> leads K n (setOperand u i x m) w v"
  by (induction rule: leads.induct) (auto intro: leads.intros simp: info_setOperand)

lemma grows_setOperand:
  assumes g: "grows K I m m1" and wf: "ir_wf m" and I: "I < next_vid m" and i: "i < length (operands m u)"
    and v: "vals m1 v \<noteq> None" and t: "getType m1 v = getType m1 (getOperand m1 u i)"
    and c: "kind m u = Call \<Longrightarrow> Suc i < length (operands m u)"
    and l: "leads K (next_vid m) m1 v (getOperand m u i)"
  shows "grows K I m (setOperand u i v m1)"
proof -
  let ?m2 = "setOperand u i v m1"
  have u: "vals m u \<noteq> None" using i by (cases "vals m u") (auto simp: operands_None)
  then have un: "u < next_vid m" using ir_wfD(4) [OF wf, of u] by auto
  have s: "same_value m m1 u" by (rule growsD(3) [OF g u])
  then have i1: "i < length (operands m1 u)" using i by (simp add: same_value_def)
  have "keeps (checks K) I m1 ?m2"
    using i1 s c by (intro keeps_setOperand [OF growsD(1) [OF g] v _ t]) (auto simp: same_value_def)
  then have "keeps (checks K) I m ?m2" using growsD(7) [OF g] I by (blast intro: keeps_trans)
  moreover have "traces K m ?m2"
    unfolding traces_def
  proof (intro conjI allI ballI impI)
    fix w j assume w: "vals m w \<noteq> None" "j < length (operands m w)"
    show "leads K (next_vid m) ?m2 (operands ?m2 w ! j) (operands m w ! j)"
    proof (cases "w = u \<and> j = i")
      case True
      then show ?thesis
        using leads_setOperand [OF l un, of i v] i i1 by (simp add: info_setOperand getOperand_def)
    next
      case False
      have "leads K (next_vid m) m1 (operands m1 w ! j) (operands m w ! j)"
        using growsD(6) [OF g] w by (simp add: traces_def)
      moreover have "operands ?m2 w ! j = operands m1 w ! j" using False by (auto simp: info_setOperand nth_list_update)
      ultimately show ?thesis using leads_setOperand un by simp
    qed
  next
    fix f B x assume x: "B \<in> set (blocks ?m2 f)" "x \<in> set B" "next_vid m \<le> x"
    then have "inserted K m1 x" using growsD(6) [OF g] by (auto simp: traces_def)
    moreover have "x \<noteq> u" using x(3) un by simp
    ultimately show "inserted K ?m2 x" by (simp add: inserted_def info_setOperand)
  qed
  ultimately show ?thesis by (simp add: grows_def)
qed

lemma grows_new_inst:
  fixes t :: ty and nm :: string
  assumes wf: "ir_wf m" and vs: "\<forall>v \<in> set vs. vals m v \<noteq> None" and I: "I < next_vid m"
    and ar: "arity_ok k (length vs)" and harmless: "pos = I \<or> k = BitCast \<or> k = Call \<and> vs \<noteq> [] \<and> last vs \<in> checks K"
    and new: "k = BitCast \<or> k = Call \<and> length vs = 2 \<and> last vs \<in> runtime K"
  defines "m' \<equiv> InsertHelper (next_vid m) pos (snd (new_value k t nm vs m))"
  shows "grows K I m m'"
proof -
  have info: "info m' v = (if v = next_vid m then \<lparr>kind_of = k, type_of = t, name_of = nm, ops_of = vs\<rparr> else info m v)" for v
    by (simp add: m'_def info_new_value)
  have old: "info m' v = info m v" if "vals m v \<noteq> None" for v
    using that fresh_unused(1) [OF wf] by (auto simp: info)
  have "traces K m m'"
    unfolding traces_def
  proof (intro conjI allI ballI impI)
    fix f B x assume x: "B \<in> set (blocks m' f)" "x \<in> set B" "next_vid m \<le> x"
    then obtain C where C: "C \<in> set (blocks m f)" "B = insert_before pos (next_vid m) C"
      by (auto simp: m'_def InsertHelper_def new_value_def Let_def)
    then have "x = next_vid m" using x(2,3) ir_wfD(7) [OF wf C(1)] set_insert_before by fastforce
    then show "inserted K m' x" using new by (auto simp: inserted_def info)
  qed (auto simp: old intro: leads_refl)
  then show ?thesis
    using keeps_new_inst [OF wf vs I ar, of pos "checks K" t nm] harmless by (simp add: grows_def m'_def)
qed

section \<open>The library functions\<close>

text \<open>
  What the documentation of LLVM's functions says and the pass relies on: a folded cast is a
  constant of the type asked for and leaves everything else alone; stripping the casts of a
  value leads to a value of the module, and to the value itself when it is no cast, GEP or
  constant; replacing all uses of a value changes the operands that were it and nothing else;
  \<open>getOrInsertFunction\<close> returns the function of that name and type, declared if need be.
\<close>

definition module_extends :: "ir \<Rightarrow> ir \<Rightarrow> bool" where
  "module_extends m m' \<longleftrightarrow> ir_wf m' \<and> next_vid m \<le> next_vid m' \<and> blocks m' = blocks m \<and>
     (\<forall>v. vals m v \<noteq> None \<longrightarrow> vals m' v = vals m v)"

text \<open>No function or global variable has the name and another type.\<close>

definition no_clash :: "ir \<Rightarrow> string \<Rightarrow> ty \<Rightarrow> bool" where
  "no_clash m nm t \<longleftrightarrow> (\<forall>g. isGlobalObject (kind m g) \<longrightarrow> getName m g = nm \<longrightarrow>
     isFunction (kind m g) \<and> getType m g = PointerTy t)"

text \<open>A constant that the library's folding made of a constant.\<close>

definition folded :: "llvm_lib \<Rightarrow> vid \<Rightarrow> vid \<Rightarrow> bool" where
  "folded LL w v \<longleftrightarrow> (\<exists>m t m'. ir_wf m \<and> vals m v \<noteq> None \<and> isConstant (kind m v) \<and> ll_fold_cast LL v t m = (w, m'))"

locale llvm =
  fixes LL :: llvm_lib
  assumes fold_cast_law: "ir_wf m \<Longrightarrow> vals m v \<noteq> None \<Longrightarrow> isConstant (kind m v) \<Longrightarrow>
      ll_fold_cast LL v t m = (c, m') \<Longrightarrow>
      module_extends m m' \<and> getFunctionList m' = getFunctionList m \<and> vals m' c \<noteq> None \<and>
      isConstant (kind m' c) \<and> getType m' c = t"
    and strip_defined: "ir_wf m \<Longrightarrow> vals m v \<noteq> None \<Longrightarrow> vals m (ll_stripPointerCasts LL m v) \<noteq> None"
    and strip_self: "ir_wf m \<Longrightarrow> vals m v \<noteq> None \<Longrightarrow> kind m v \<noteq> BitCast \<Longrightarrow> kind m v \<noteq> GetElementPtr \<Longrightarrow>
      kind m v \<noteq> Call \<Longrightarrow> \<not> isConstant (kind m v) \<Longrightarrow> ll_stripPointerCasts LL m v = v"
    and rauw_law: "ir_wf m \<Longrightarrow> vals m v \<noteq> None \<Longrightarrow> vals m w \<noteq> None \<Longrightarrow> v \<noteq> w \<Longrightarrow>
      m' = ll_replaceAllUsesWith LL v w m \<Longrightarrow>
      ir_wf m' \<and> next_vid m' = next_vid m \<and> blocks m' = blocks m \<and> getFunctionList m' = getFunctionList m \<and>
      (\<forall>x. vals m' x = map_option (\<lambda>y. y\<lparr>ops_of := map (\<lambda>z. if z = v then w else z) (ops_of y)\<rparr>) (vals m x)) \<and>
      (\<forall>x. x \<noteq> v \<longrightarrow> x \<noteq> w \<longrightarrow> uses m' x = uses m x)"
    and getOrInsert_law: "ir_wf m \<Longrightarrow> ll_getOrInsertFunction LL nm t m = (f, m') \<Longrightarrow> no_clash m nm t \<Longrightarrow>
      module_extends m m' \<and> vals m' f \<noteq> None \<and> getType m' f = PointerTy t \<and> getName m' f = nm \<and>
      isFunction (kind m' f) \<and> (\<forall>g. isGlobalObject (kind m' g) \<longrightarrow> g \<noteq> f \<longrightarrow> vals m' g = vals m g)"
begin

lemma keeps_module_extends:
  assumes wf: "ir_wf m" and e: "module_extends m m'" and fl: "getFunctionList m' = getFunctionList m"
  shows "keeps K I m m'"
proof -
  have "same_value m m' v" if "vals m v \<noteq> None" for v
  proof -
    have "info m' w = info m w" if "vals m w \<noteq> None" for w
      using e that by (simp add: module_extends_def info_def)
    moreover have "vals m (operands m v ! i) \<noteq> None" if "i < length (operands m v)" for i
      using ir_wfD(5) [OF wf nth_mem [OF that]] .
    moreover have "vals m' v \<noteq> None" using e that by (simp add: module_extends_def)
    ultimately show ?thesis using that by (simp add: same_value_def)
  qed
  moreover have "block_grows K I m m' B B" if "B \<in> set (blocks m f)" for B f
    using block_grows_refl [OF wf that, of K I] set_tail_of [of I B] ir_wfD(7) [OF wf that]
    by (fastforce simp: block_grows_def)
  ultimately show ?thesis using e fl by (simp add: keeps_def module_extends_def list_all2_same)
qed

lemma grows_module_extends:
  assumes wf: "ir_wf m" and e: "module_extends m m'" and fl: "getFunctionList m' = getFunctionList m"
  shows "grows K I m m'"
proof -
  have "info m' v = info m v" if "vals m v \<noteq> None" for v
    using e that by (simp add: module_extends_def info_def)
  moreover have "blocks m' = blocks m" using e by (simp add: module_extends_def)
  ultimately have "traces K m m'"
    using ir_wfD(7) [OF wf] by (fastforce simp: traces_def intro: leads_refl)
  with keeps_module_extends [OF assms] show ?thesis by (simp add: grows_def)
qed

lemma grows_CreateBitCast:
  assumes wf: "ir_wf m" and v: "vals m V \<noteq> None" and I: "I < next_vid m" and K: "cast_of K = folded LL"
    and c: "CreateBitCast LL pos V T m = (V', m')"
  shows "grows K I m m' \<and> vals m' V' \<noteq> None \<and> getType m' V' = T \<and> leads K (next_vid m) m' V' V"
proof (cases "getType m V = T")
  case True
  with c v wf show ?thesis by (auto simp: CreateBitCast_def intro: grows_refl leads_refl)
next
  case False
  show ?thesis
  proof (cases "isConstant (kind m V)")
    case True
    with c False have r: "ll_fold_cast LL V T m = (V', m')" by (simp add: CreateBitCast_def)
    then have "folded LL V' V" using wf v True by (auto simp: folded_def)
    then have "leads K (next_vid m) m' V' V" using K by (auto intro: leads.intros)
    with fold_cast_law [OF wf v True r] grows_module_extends [OF wf] show ?thesis by blast
  next
    case False
    with c \<open>getType m V \<noteq> T\<close> have e: "V' = next_vid m"
        "m' = InsertHelper (next_vid m) pos (snd (new_value BitCast T [] [V] m))"
      by (auto simp: CreateBitCast_def new_value_def Let_def)
    moreover have "grows K I m (InsertHelper (next_vid m) pos (snd (new_value BitCast T [] [V] m)))"
      using v by (intro grows_new_inst wf I) simp_all
    moreover have "leads K (next_vid m) m' V' V"
      by (rule leads_cast [OF _ _ _ leads_refl]) (simp_all add: e info_new_value)
    ultimately show ?thesis by (simp add: vals_new_value info_new_value)
  qed
qed

end

lemma grows_CreateCall:
  assumes wf: "ir_wf m" and v: "vals m V \<noteq> None" and f: "vals m F \<noteq> None" and I: "I < next_vid m"
    and at: "pos = I \<or> F \<in> checks K" and F: "F \<in> runtime K" and c: "CreateCall pos F [V] m = (V', m')"
  shows "grows K I m m' \<and> vals m' V' \<noteq> None \<and> getType m' V' = return_type (getType m F) \<and>
    leads K (next_vid m) m' V' V"
proof -
  let ?n = "new_value Call (return_type (getType m F)) [] [V, F] m"
  have e: "V' = next_vid m" "m' = InsertHelper (next_vid m) pos (snd ?n)"
    using c by (auto simp: CreateCall_def new_value_def Let_def)
  moreover have "grows K I m (InsertHelper (next_vid m) pos (snd ?n))"
    using v f at F by (intro grows_new_inst wf I) auto
  moreover have "leads K (next_vid m) m' V' V"
    by (rule leads_call [OF _ _ _ F leads_refl]) (simp_all add: e info_new_value)
  ultimately show ?thesis by (simp add: vals_new_value info_new_value)
qed

end
