(* ===== verification/PT_SampleIR.thy ===== *)
theory PT_SampleIR imports PT_IR begin

text \<open>
  An instance of the LLVM functions the pass calls: types are printed in LLVM's syntax, a folded
  cast is a new constant expression, all casts are stripped, the uses of a replaced value move to
  the front of the other's list one by one, and a missing function is declared at the end of the
  module.  It satisfies the laws of \<open>PT_IR\<close>, and the witnesses run the pass on it.
\<close>

fun decimal :: "nat \<Rightarrow> string" where
  "decimal n = (if n < 10 then [char_of (48 + n)] else decimal (n div 10) @ [char_of (48 + n mod 10)])"

declare decimal.simps [simp del]

fun print_ty :: "ty \<Rightarrow> string" and print_tys :: "ty list \<Rightarrow> string" where
  "print_ty VoidTy = ''void''"
| "print_ty (IntTy n) = ''i'' @ decimal n"
| "print_ty FloatTy = ''float''"
| "print_ty (PointerTy t) = print_ty t @ ''*''"
| "print_ty (StructTy s) = ''%struct.'' @ s"
| "print_ty (ArrayTy n t) = ''['' @ decimal n @ '' x '' @ print_ty t @ '']''"
| "print_ty (VectorTy n t) = ''<'' @ decimal n @ '' x '' @ print_ty t @ ''>''"
| "print_ty (FunctionTy r ts) = print_ty r @ '' ('' @ print_tys ts @ '')''"
| "print_tys [] = []"
| "print_tys [t] = print_ty t"
| "print_tys (t # ts) = print_ty t @ '', '' @ print_tys ts"

fun strip_casts :: "nat \<Rightarrow> ir \<Rightarrow> vid \<Rightarrow> vid" where
  "strip_casts 0 m v = v"
| "strip_casts (Suc n) m v = (if kind m v = BitCast then strip_casts n m (getOperand m v 0) else v)"

definition fold_cast :: "vid \<Rightarrow> ty \<Rightarrow> ir \<Rightarrow> vid \<times> ir" where
  "fold_cast v t m = new_value ConstantVal t [] [v] m"

definition replace_uses :: "vid \<Rightarrow> vid \<Rightarrow> ir \<Rightarrow> ir" where
  "replace_uses v w m =
     m\<lparr>vals := (\<lambda>x. map_option (\<lambda>y. y\<lparr>ops_of := map (\<lambda>z. if z = v then w else z) (ops_of y)\<rparr>) (vals m x)),
       uses := (uses m)(v := [], w := rev (uses m v) @ uses m w)\<rparr>"

definition get_or_insert :: "string \<Rightarrow> ty \<Rightarrow> ir \<Rightarrow> vid \<times> ir" where
  "get_or_insert nm t m =
     (case filter (\<lambda>g. isFunction (kind m g) \<and> getName m g = nm) (getFunctionList m) of
        g # _ \<Rightarrow> if getType m g = PointerTy t then (g, m) else fold_cast g (PointerTy t) m
      | [] \<Rightarrow> (let (f, m) = new_value (Function True) (PointerTy t) nm [] m
              in (f, m\<lparr>getFunctionList := getFunctionList m @ [f]\<rparr>)))"

definition sample_llvm :: llvm_lib where
  "sample_llvm = \<lparr>ll_print = print_ty, ll_stripPointerCasts = (\<lambda>m v. strip_casts (next_vid m) m v),
     ll_fold_cast = fold_cast, ll_replaceAllUsesWith = replace_uses, ll_getOrInsertFunction = get_or_insert\<rparr>"

section \<open>The laws\<close>

lemma strip_casts_defined: "ir_wf m \<Longrightarrow> vals m v \<noteq> None \<Longrightarrow> vals m (strip_casts n m v) \<noteq> None"
proof (induction n arbitrary: v)
  case (Suc n)
  have "vals m (getOperand m v 0) \<noteq> None" if "kind m v = BitCast"
  proof -
    have "0 < length (operands m v)" using ir_wfD(10) [OF Suc.prems(1), of v] that by simp
    then show ?thesis by (rule getOperand_defined [OF Suc.prems(1)])
  qed
  then show ?case using Suc by simp
qed simp

lemma strip_casts_self: "kind m v \<noteq> BitCast \<Longrightarrow> strip_casts n m v = v"
  by (cases n) simp_all

lemma new_value_extends:
  assumes "ir_wf m" and "\<forall>v \<in> set vs. vals m v \<noteq> None" and "arity_ok k (length vs)"
  shows "module_extends m (snd (new_value k t nm vs m))"
  using ir_wf_new_value [OF assms] fresh_unused(1) [OF assms(1)]
  by (auto simp: module_extends_def vals_new_value)

lemma fold_cast_ok:
  assumes "ir_wf m" and "vals m v \<noteq> None" and "fold_cast v t m = (c, m')"
  shows "module_extends m m' \<and> getFunctionList m' = getFunctionList m \<and> vals m' c \<noteq> None \<and>
      isConstant (kind m' c) \<and> getType m' c = t"
proof -
  have "m' = snd (new_value ConstantVal t [] [v] m)" "c = next_vid m"
    using assms(3) by (auto simp: fold_cast_def new_value_def Let_def)
  then show ?thesis
    using new_value_extends [OF assms(1), of "[v]" ConstantVal t "[]"] assms(2)
    by (simp add: info_new_value vals_new_value)
qed

lemma info_replace_uses:
  "info (replace_uses v w m) x = (info m x)\<lparr>ops_of := map (\<lambda>z. if z = v then w else z) (operands m x)\<rparr>"
  by (simp add: info_def replace_uses_def null_info_def split: option.splits)

lemma ir_wf_replace_uses:
  assumes wf: "ir_wf m" and w: "vals m w \<noteq> None" and ne: "v \<noteq> w"
  shows "ir_wf (replace_uses v w m)"
proof -
  let ?m = "replace_uses v w m"
  have "u \<in> set (uses ?m x) \<longleftrightarrow> use_of ?m u x" for u x
    using ir_wfD(1) [OF wf, of u x] ir_wfD(1) [OF wf, of u v] ne
    by (cases "x = w \<or> x = v") (auto simp: use_of_def info_replace_uses, auto simp: replace_uses_def use_of_def)
  moreover have "distinct (uses ?m x)" for x
  proof -
    have "set (uses m v) \<inter> set (uses m w) = {}"
      using ir_wfD(1) [OF wf] ne by (auto simp: use_of_def)
    then show ?thesis using ir_wfD(2) [OF wf] by (simp add: replace_uses_def)
  qed
  moreover have vn: "vals ?m x = None \<longleftrightarrow> vals m x = None" for x by (simp add: replace_uses_def)
  moreover have "vals ?m x \<noteq> None" if "x \<in> set (operands ?m y)" for x y
  proof -
    have "x = w \<or> x \<in> set (operands m y)" using that by (auto simp: info_replace_uses)
    then show ?thesis unfolding vn using w ir_wfD(5) [OF wf, of x y] by blast
  qed
  moreover have "arity_ok (kind ?m x) (length (operands ?m x))" for x
    using ir_wfD(10) [OF wf, of x] by (simp add: info_replace_uses)
  moreover have "x \<noteq> 0 \<and> x < next_vid ?m" if "vals ?m x = Some y" for x y
    using that ir_wfD(3,4) [OF wf, of x] by (auto simp: replace_uses_def)
  moreover have "distinct B \<and> (\<forall>x \<in> set B. vals ?m x \<noteq> None)" if "B \<in> set (blocks ?m f)" for B f
    unfolding vn using that ir_wfD(8,9) [OF wf, of B f] by (simp add: replace_uses_def)
  ultimately show ?thesis using ir_wfD(6) [OF wf] by (simp add: ir_wf_def replace_uses_def)
qed

lemma get_or_insert_ok:
  assumes wf: "ir_wf m" and r: "get_or_insert nm t m = (f, m')" and nc: "no_clash m nm t"
  shows "module_extends m m' \<and> vals m' f \<noteq> None \<and> getType m' f = PointerTy t \<and> getName m' f = nm \<and>
      isFunction (kind m' f) \<and> (\<forall>g. isGlobalObject (kind m' g) \<longrightarrow> g \<noteq> f \<longrightarrow> vals m' g = vals m g)"
proof (cases "filter (\<lambda>g. isFunction (kind m g) \<and> getName m g = nm) (getFunctionList m)")
  case Nil
  let ?n = "snd (new_value (Function True) (PointerTy t) nm [] m)"
  have m': "m' = ?n\<lparr>getFunctionList := getFunctionList ?n @ [f]\<rparr>" and f: "f = next_vid m"
    using r Nil by (auto simp: get_or_insert_def new_value_def Let_def)
  have "module_extends m ?n" by (rule new_value_extends [OF wf]) simp_all
  then have "module_extends m m'"
    unfolding m' by (simp add: module_extends_def ir_wf_def use_of_def info_def)
  then show ?thesis
    using f by (simp add: m' info_def vals_new_value)
next
  case (Cons g gs)
  then have "g \<in> set (filter (\<lambda>g. isFunction (kind m g) \<and> getName m g = nm) (getFunctionList m))" by simp
  then have g: "isFunction (kind m g)" "getName m g = nm" by simp_all
  then have t: "getType m g = PointerTy t" using nc by (simp add: no_clash_def isGlobalObject_def)
  then have "f = g" "m' = m" using r Cons by (simp_all add: get_or_insert_def)
  moreover have "vals m g \<noteq> None" using g(1) by (auto simp: info_def null_info_def split: option.splits)
  moreover have "module_extends m m" using wf by (simp add: module_extends_def)
  ultimately show ?thesis using g t by simp
qed

interpretation sample: llvm sample_llvm
proof
  fix m :: ir and v w :: vid and m' :: ir
  show "ir_wf m \<Longrightarrow> vals m v \<noteq> None \<Longrightarrow> isConstant (kind m v) \<Longrightarrow> ll_fold_cast sample_llvm v t m = (c, m') \<Longrightarrow>
      module_extends m m' \<and> getFunctionList m' = getFunctionList m \<and> vals m' c \<noteq> None \<and>
      isConstant (kind m' c) \<and> getType m' c = t" for t c
    using fold_cast_ok [of m v t c m'] by (simp add: sample_llvm_def)
  show "ir_wf m \<Longrightarrow> vals m v \<noteq> None \<Longrightarrow> vals m (ll_stripPointerCasts sample_llvm m v) \<noteq> None"
    using strip_casts_defined [of m v "next_vid m"] by (simp add: sample_llvm_def)
  show "kind m v \<noteq> BitCast \<Longrightarrow> ll_stripPointerCasts sample_llvm m v = v"
    using strip_casts_self [of m v "next_vid m"] by (simp add: sample_llvm_def)
  show "ir_wf m \<Longrightarrow> vals m v \<noteq> None \<Longrightarrow> vals m w \<noteq> None \<Longrightarrow> v \<noteq> w \<Longrightarrow>
      m' = ll_replaceAllUsesWith sample_llvm v w m \<Longrightarrow>
      ir_wf m' \<and> next_vid m' = next_vid m \<and> blocks m' = blocks m \<and> getFunctionList m' = getFunctionList m \<and>
      (\<forall>x. vals m' x = map_option (\<lambda>y. y\<lparr>ops_of := map (\<lambda>z. if z = v then w else z) (ops_of y)\<rparr>) (vals m x)) \<and>
      (\<forall>x. x \<noteq> v \<longrightarrow> x \<noteq> w \<longrightarrow> uses m' x = uses m x)"
    using ir_wf_replace_uses [of m w v] by (auto simp: sample_llvm_def) (simp_all add: replace_uses_def)
  show "ir_wf m \<Longrightarrow> ll_getOrInsertFunction sample_llvm nm t m = (f, m') \<Longrightarrow> no_clash m nm t \<Longrightarrow>
      module_extends m m' \<and> vals m' f \<noteq> None \<and> getType m' f = PointerTy t \<and> getName m' f = nm \<and>
      isFunction (kind m' f) \<and> (\<forall>g. isGlobalObject (kind m' g) \<longrightarrow> g \<noteq> f \<longrightarrow> vals m' g = vals m g)" for nm t f
    using get_or_insert_ok [of m nm t f m'] by (simp add: sample_llvm_def)
qed

end
