(* ===== verification/PT_Pass.thy ===== *)
theory PT_Pass imports PT_SampleIR PT_Config begin

text \<open>
  \<open>passutils.cpp\<close>: what the LLVM pass does to each load, store, call, alloca and return.  The
  module is the \<open>ir\<close> of \<open>PT_IR\<close>; the pass's global variables (\<open>ptauthpass.cpp\<close>,
  \<open>ptauthTypes.h\<close>) are the record \<open>pass_state\<close>; what it prints to \<open>errs()\<close> is left out.
  Names drop the prefix \<open>passutils::\<close> and leading underscores.
\<close>

section \<open>Strings\<close>

text \<open>\<open>std::string::find\<close> and \<open>substr\<close>, positions being of type \<open>size_t\<close>.\<close>

definition npos :: u64 where "npos = - 1"

fun find_from :: "string \<Rightarrow> nat \<Rightarrow> string \<Rightarrow> nat option" where
  "find_from pat i [] = (if pat = [] then Some i else None)"
| "find_from pat i (c # s) = (if take (length pat) (c # s) = pat then Some i else find_from pat (Suc i) s)"

definition string_find :: "string \<Rightarrow> string \<Rightarrow> u64" where
  "string_find s pat = (case find_from pat 0 s of None \<Rightarrow> npos | Some i \<Rightarrow> of_nat i)"

text \<open>\<open>substr\<close> throws when the position is behind the end: \<open>None\<close>.\<close>

definition string_substr :: "string \<Rightarrow> u64 \<Rightarrow> u64 \<Rightarrow> string option" where
  "string_substr s pos n = (if length s < unat pos then None else Some (take (unat n) (drop (unat pos) s)))"

section \<open>Globals\<close>

definition functionsAvoidList :: "string list" where
  "functionsAvoidList = [''__loadCheck'', ''__GEPCheck'', ''strlen'', ''__nestedGEPCheck'', ''sqrt'', ''exit'',
     ''llvm.dbg.declare'', ''fgets'', ''strstr'', ''strcpy'', ''atol'', ''__isoc99_sscanf'', ''strncmp'', ''strncpy'',
     ''fprintf'', ''fopen'', ''fclose'', ''fgetc'', ''__isoc99_fscanf'', ''printf'', ''atoi'', ''fwrite'', ''fread'',
     ''llvm.memcpy.p0i8.p0i8.i64'', ''memcpy'', ''strcmp'', ''llvm.memset.p0i8.i64'', ''sprintf'', ''strcat'',
     ''llvm.va_start'', ''llvm.va_end'']"

definition globalVarsAvoidList :: "string list" where "globalVarsAvoidList = [''perm'']"

definition typesAvoidList :: "string list" where
  "typesAvoidList = [''syntaxelement'', ''pix_pos'', ''ImageParameters'', ''SGFTree_t'', ''Hash_data'', ''storable_picture'']"

record pointerProperties =
  Numuse :: nat
  Operand0 :: vid
  Operand1 :: vid
  isPassedToFunctionBefore :: bool
  isCheckedBefore :: bool

record GEPProperties =
  gep_type :: ty
  gep_isCheckedBefore :: bool

text \<open>
  \<open>GlobalObjectsArr_end\<close> is the word behind the array of 100: \<open>instrumentReturn\<close> assigns to
  \<open>GlobalObjectsArr[100]\<close>.
\<close>

record pass_state =
  pointers :: "pointerProperties list"
  GEPS :: "GEPProperties list"
  isPrevAlloca :: bool
  prevAI :: "vid option"
  allocaFinished :: bool
  GlobalObjectsArr :: "vid list"
  GlobalObjectsArr_end :: vid
  GlobalObjectsArrSize :: nat
  FlagFreeCalled :: bool
  InternalCall :: bool
  GlobalPointer :: bool
  NestedPointer :: bool
  optimizedList :: "string list"

definition initial_state :: pass_state where
  "initial_state = \<lparr>pointers = [], GEPS = [], isPrevAlloca = False, prevAI = None, allocaFinished = False,
     GlobalObjectsArr = replicate 100 0, GlobalObjectsArr_end = 0, GlobalObjectsArrSize = 0,
     FlagFreeCalled = False, InternalCall = False, GlobalPointer = False, NestedPointer = False,
     optimizedList = [[]]\<rparr>"

record hooks =
  h_loadCheck :: vid
  h_storeCheck :: vid
  h_xpac :: vid
  h_noCheck :: vid
  h_GEPCheck :: vid
  h_nestedGEPCheck :: vid

definition VoidPtrTy :: ty where "VoidPtrTy = PointerTy (IntTy 8)"

definition getString :: "llvm_lib \<Rightarrow> ty \<Rightarrow> string" where
  "getString LL t = ll_print LL t"

definition isFILE :: "llvm_lib \<Rightarrow> ty \<Rightarrow> bool" where
  "isFILE LL t = (string_find (getString LL t) ''_IO_FILE'' \<noteq> npos)"

section \<open>Instrumentation\<close>

text \<open>
  The five lines every check is inserted with: operand \<open>i\<close> of \<open>u\<close> is cast to \<open>i8*\<close>, passed to
  the runtime function \<open>hook\<close> in front of \<open>pos\<close>, cast back and put in the operand's place.
\<close>

definition wrap_operand :: "llvm_lib \<Rightarrow> vid \<Rightarrow> vid \<Rightarrow> vid \<Rightarrow> nat \<Rightarrow> ir \<Rightarrow> ir" where
  "wrap_operand LL hook pos u i m =
     (let (V, m) = CreateBitCast LL pos (getOperand m u i) VoidPtrTy m;
          (V, m) = CreateCall pos hook [V] m;
          (ii, m) = CreateBitCast LL pos V (getType m (getOperand m u i)) m
      in setOperand u i ii m)"

text \<open>\<open>checkAlloc\<close>; its callers are behind the \<open>return\<close> of \<open>instrumentStore\<close>.\<close>

definition checkAlloc_ptr :: "llvm_lib \<Rightarrow> hooks \<Rightarrow> vid \<Rightarrow> vid \<Rightarrow> pointerProperties \<Rightarrow> ir \<Rightarrow> ir" where
  "checkAlloc_ptr LL H LI I ptr m =
     (let m = (if kind m I = GetElementPtr
               then wrap_operand LL (if isPassedToFunctionBefore ptr then h_loadCheck H else h_noCheck H) LI LI 0 m
               else m);
          m = (if kind m I = Load
               then wrap_operand LL (if isPassedToFunctionBefore ptr then h_loadCheck H else h_noCheck H) LI LI 0 m
               else m)
      in if kind m I = Store
         then wrap_operand LL (if isPassedToFunctionBefore ptr then h_storeCheck H else h_noCheck H) I I 1 m
         else m)"

definition checkAlloc :: "llvm_lib \<Rightarrow> hooks \<Rightarrow> vid \<Rightarrow> vid \<Rightarrow> ir \<times> pass_state \<Rightarrow> ir \<times> pass_state" where
  "checkAlloc LL H LI I = (\<lambda>(m, st).
     if isPointerTy (getType m LI) then
       (let AI = getOperand m LI 0
        in if isAlloca (kind m AI)
           then (fold (\<lambda>ptr m. if Operand1 ptr = AI then checkAlloc_ptr LL H LI I ptr m else m) (pointers st) m, st)
           else (if kind m I = Store then wrap_operand LL (h_noCheck H) I I 1 m else m, st))
     else (m, st))"

definition instrumentStore :: "llvm_lib \<Rightarrow> vid \<Rightarrow> ir \<times> pass_state \<Rightarrow> ir \<times> pass_state" where
  "instrumentStore LL SI = (\<lambda>(m, st).
     let AI = getOperand m SI 1; v = getOperand m SI 0
     in if isAlloca (kind m AI) \<and> isPointerTy (getType m v) \<and> \<not> isFILE LL (getType m v)
        then (m, st\<lparr>pointers := pointers st @
          [\<lparr>Numuse = length (uses m AI), Operand0 = v, Operand1 = AI, isPassedToFunctionBefore = False,
            isCheckedBefore = False\<rparr>]\<rparr>)
        else (m, st))"

text \<open>Changing the first entry that satisfies a condition (a loop that ends in \<open>break\<close>).\<close>

fun update_first :: "('a \<Rightarrow> bool) \<Rightarrow> ('a \<Rightarrow> 'a) \<Rightarrow> 'a list \<Rightarrow> 'a list" where
  "update_first P f [] = []"
| "update_first P f (x # xs) = (if P x then f x # xs else x # update_first P f xs)"

definition xpacedList :: "string list" where "xpacedList = [''read'']"

definition localAvoidList :: "string list" where
  "localAvoidList = [''llvm.dbg.declare'', ''fprintf'', ''__ptauth_free'', ''__ptauth_malloc'', ''__ptauth_realloc'',
     ''__ptauth_calloc'', ''fopen'', ''__xPAC'', ''initMD'', ''__validatePointer'', ''__loadCheck'', ''__GEPCheck'',
     ''__nestedGEPCheck'']"

text \<open>
  The first loop of \<open>instrumentCalls\<close>, over the arguments of a call of an external function:
  without Top-Byte Ignore every pointer is stripped, with it only those of \<open>read\<close>.
\<close>

definition external_arg :: "llvm_lib \<Rightarrow> config \<Rightarrow> hooks \<Rightarrow> vid \<Rightarrow> string \<Rightarrow> nat \<Rightarrow> ir \<Rightarrow> ir" where
  "external_arg LL cfg H CI name i m =
     (let p = getOperand m CI i
      in if \<not> (isPointerTy (getType m p) \<and> \<not> isFILE LL (getType m p)) then m
         else if isConstant (kind m p) then m
         else if kind m p = GetElementPtr \<and> isAlloca (kind m (getOperand m p 0)) then m
         else if \<not> TOPBYTEIGNORE cfg \<or> name \<in> set xpacedList
         then wrap_operand LL (h_xpac H) CI CI i m
         else m)"

text \<open>The second loop, over the arguments of any call that is not on the avoid list.\<close>

definition internal_arg_load :: "llvm_lib \<Rightarrow> hooks \<Rightarrow> vid \<Rightarrow> nat \<Rightarrow> ir \<times> pass_state \<Rightarrow> ir \<times> pass_state" where
  "internal_arg_load LL H CI i = (\<lambda>(m, st).
     let LI = ll_stripPointerCasts LL m (getOperand m CI i); AI = getOperand m LI 0
     in if kind m LI = Load \<and> isAlloca (kind m AI) then
          (if \<exists>ptr \<in> set (pointers st). Operand1 ptr = AI \<and> isCheckedBefore ptr then (m, st)
           else (wrap_operand LL (h_loadCheck H) LI LI 0 m,
                 st\<lparr>pointers := update_first (\<lambda>ptr. Operand1 ptr = AI)
                      (\<lambda>ptr. ptr\<lparr>isPassedToFunctionBefore := True, isCheckedBefore := False\<rparr>) (pointers st)\<rparr>))
        else (m, st))"

definition internal_arg_cast :: "llvm_lib \<Rightarrow> hooks \<Rightarrow> vid \<Rightarrow> nat \<Rightarrow> ir \<times> pass_state \<Rightarrow> ir \<times> pass_state" where
  "internal_arg_cast LL H CI i = (\<lambda>(m, st).
     let BI = getOperand m CI i; LI = getOperand m BI 0; LI2 = getOperand m LI 0; AI = getOperand m LI2 0
     in if kind m BI = BitCast \<and> kind m LI = Load \<and> kind m LI2 = Load \<and> isAlloca (kind m AI) then
          (wrap_operand LL (h_loadCheck H) LI2 LI2 0 m,
           st\<lparr>pointers := update_first (\<lambda>ptr. Operand1 ptr = AI)
                (\<lambda>ptr. ptr\<lparr>isPassedToFunctionBefore := True\<rparr>) (pointers st)\<rparr>)
        else (m, st))"

definition internal_arg :: "llvm_lib \<Rightarrow> hooks \<Rightarrow> vid \<Rightarrow> nat \<Rightarrow> ir \<times> pass_state \<Rightarrow> ir \<times> pass_state" where
  "internal_arg LL H CI i = (\<lambda>(m, st).
     let p = getOperand m CI i
     in if isPointerTy (getType m p) \<and> \<not> isFILE LL (getType m p)
        then internal_arg_cast LL H CI i (internal_arg_load LL H CI i (m, st\<lparr>InternalCall := True, GEPS := []\<rparr>))
        else (m, st))"

definition instrumentCalls :: "llvm_lib \<Rightarrow> config \<Rightarrow> hooks \<Rightarrow> vid \<Rightarrow> ir \<times> pass_state \<Rightarrow> ir \<times> pass_state" where
  "instrumentCalls LL cfg H CI = (\<lambda>(m, st).
     case getCalledFunction m CI of
       None \<Rightarrow> (m, st)
     | Some fn \<Rightarrow>
         (let name = getName m fn; numParams = getNumArgOperands m CI;
              st = (if name = ''__ptauth_free'' then st\<lparr>FlagFreeCalled := True\<rparr> else st);
              m = (if isDeclaration m fn \<and> name \<notin> set localAvoidList
                   then fold (external_arg LL cfg H CI name) [0..<numParams] m else m)
          in if name \<notin> set functionsAvoidList
             then fold (internal_arg LL H CI) [0..<numParams] (m, st) else (m, st)))"

definition getNextNode :: "ir \<Rightarrow> vid \<Rightarrow> vid list \<Rightarrow> vid" where
  "getNextNode m I B = (case tail_of I B of [] \<Rightarrow> 0 | x # _ \<Rightarrow> x)"

definition instrumentAlloc :: "vid \<Rightarrow> vid list \<Rightarrow> ir \<times> pass_state \<Rightarrow> ir \<times> pass_state" where
  "instrumentAlloc AI B = (\<lambda>(m, st).
     let st = st\<lparr>isPrevAlloca := True, prevAI := Some AI\<rparr>
     in if isAlloca (kind m (getNextNode m AI B)) then (m, st) else (m, st\<lparr>allocaFinished := True\<rparr>))"

definition instrumentReturn :: "ir \<times> pass_state \<Rightarrow> ir \<times> pass_state" where
  "instrumentReturn = (\<lambda>(m, st).
     (m, st\<lparr>isPrevAlloca := False, GlobalObjectsArrSize := 0, GlobalObjectsArr_end := 0,
            FlagFreeCalled := False, pointers := []\<rparr>))"

definition instrumentGEP :: "vid \<Rightarrow> ir \<times> pass_state \<Rightarrow> ir \<times> pass_state" where
  "instrumentGEP GEP s = s"

definition instrumentCMP :: "vid \<Rightarrow> ir \<times> pass_state \<Rightarrow> ir \<times> pass_state" where
  "instrumentCMP C s = s"

definition isPointerToPointer :: "ir \<Rightarrow> vid \<Rightarrow> bool" where
  "isPointerToPointer m V = (isPointerTy (getType m V) \<and> isPointerTy (getContainedType (getType m V)))"

text \<open>
  \<open>instrumentLoad\<close>, in the order of its parts.  The name of the struct a pointer leads to, cut
  out of the printed type between the first \<open>.\<close> and the first \<open>*\<close>.  The \<open>substr\<close> never throws: the
  position behind a character found is at most the length, and \<open>npos + 1\<close> is 0.
\<close>

lemma find_from_bound: "find_from [c] i s = Some j \<Longrightarrow> j < i + length s"
  by (induction "[c]" i s rule: find_from.induct) (auto split: if_splits)

lemma substr_behind_found: "string_substr s (string_find s [c] + 1) n \<noteq> None"
proof (cases "find_from [c] 0 s")
  case None
  then show ?thesis by (simp add: string_substr_def string_find_def npos_def)
next
  case (Some j)
  have "(of_nat j + 1 :: u64) = of_nat (Suc j)" by simp
  then have "unat (of_nat j + 1 :: u64) = Suc j mod 2 ^ LENGTH(64)" by (simp only: unat_of_nat)
  also have "\<dots> \<le> length s" using find_from_bound [OF Some] by (intro order_trans [OF mod_less_eq_dividend]) simp
  finally show ?thesis using Some by (simp add: string_substr_def string_find_def)
qed

definition structType_of :: "string \<Rightarrow> string" where
  "structType_of str =
     (if string_find str ''struct'' \<noteq> npos
      then the (string_substr str (string_find str ''.'' + 1) (string_find str ''*'' - string_find str ''.'' - 1))
      else [])"

text \<open>A load through a pointer that was itself loaded from a local variable.\<close>

definition load_nested :: "llvm_lib \<Rightarrow> hooks \<Rightarrow> vid \<Rightarrow> ir \<times> pass_state \<Rightarrow> ir" where
  "load_nested LL H LI = (\<lambda>(m, st).
     let LI2 = getOperand m LI 0; AI = getOperand m LI2 0
     in if kind m LI2 = Load \<and> isAlloca (kind m AI)
        then fold (\<lambda>ptr m. if Operand1 ptr = AI
               then wrap_operand LL (if isPassedToFunctionBefore ptr then h_loadCheck H else h_noCheck H) LI LI 0 m
               else m) (pointers st) m
        else m)"

text \<open>The address computation from a pointer loaded from a local variable.\<close>

definition load_local :: "llvm_lib \<Rightarrow> hooks \<Rightarrow> vid \<Rightarrow> vid \<Rightarrow> ir \<times> pass_state \<Rightarrow> ir \<times> pass_state" where
  "load_local LL H LI GEP = (\<lambda>(m, st).
     let AI = getOperand m LI 0
     in if isAlloca (kind m AI) \<and> (\<exists>ptr \<in> set (pointers st). Operand1 ptr = AI \<and> isPassedToFunctionBefore ptr)
        then (wrap_operand LL (h_GEPCheck H) GEP GEP 0 m,
              st\<lparr>pointers := update_first (\<lambda>ptr. Operand1 ptr = AI \<and> isPassedToFunctionBefore ptr)
                   (\<lambda>ptr. ptr\<lparr>isPassedToFunctionBefore := False, isCheckedBefore := True\<rparr>) (pointers st)\<rparr>)
        else (m, st))"

text \<open>The address computation from a pointer loaded from a field.\<close>

definition oneNestedInstrument :: "llvm_lib \<Rightarrow> ir \<Rightarrow> vid \<Rightarrow> bool" where
  "oneNestedInstrument LL m GI2 =
     (let CI = ll_stripPointerCasts LL m (getOperand m GI2 0)
      in kind m CI = Call \<and>
         (case getCalledFunction m CI of None \<Rightarrow> False | Some f \<Rightarrow> getName m f = ''__nestedGEPCheck''))"

definition load_field :: "llvm_lib \<Rightarrow> hooks \<Rightarrow> vid \<Rightarrow> vid \<Rightarrow> ir \<times> pass_state \<Rightarrow> ir \<times> pass_state" where
  "load_field LL H LI GEP = (\<lambda>(m, st).
     let GI2 = getOperand m LI 0; t = getType m (getOperand m GI2 0)
     in if kind m GI2 = GetElementPtr \<and> getName m (getOperand m GI2 0) \<notin> set globalVarsAvoidList \<and>
           \<not> oneNestedInstrument LL m GI2
        then if GEPS st = []
          then (wrap_operand LL (h_nestedGEPCheck H) GEP GEP 0 m,
                st\<lparr>GEPS := [\<lparr>gep_type = t, gep_isCheckedBefore = True\<rparr>]\<rparr>)
          else if \<not> (\<exists>g \<in> set (GEPS st). gep_type g = t)
          then (m, st\<lparr>GEPS := GEPS st @ [\<lparr>gep_type = t, gep_isCheckedBefore = True\<rparr>]\<rparr>)
          else (m, st)
        else (m, st))"

definition load_gep :: "llvm_lib \<Rightarrow> hooks \<Rightarrow> vid \<Rightarrow> ir \<times> pass_state \<Rightarrow> ir \<times> pass_state" where
  "load_gep LL H LI = (\<lambda>(m, st).
     let GEP = list_user_back m LI
     in if hasNUsesOrMore m LI 1 \<and> kind m GEP = GetElementPtr \<and> kind m (getOperand m LI 0) \<noteq> GlobalVariable
        then load_field LL H LI GEP (load_local LL H LI GEP (m, st))
        else (m, st))"

definition instrumentLoad :: "llvm_lib \<Rightarrow> hooks \<Rightarrow> vid \<Rightarrow> ir \<times> pass_state \<Rightarrow> ir \<times> pass_state" where
  "instrumentLoad LL H LI = (\<lambda>(m, st).
     let op = getOperand m LI 0;
         (m, st) =
           (if isPointerTy (getType m LI) \<and> \<not> isFILE LL (getType m op) \<and>
               getName m op \<notin> set globalVarsAvoidList \<and>
               structType_of (getString LL (getType m op)) \<notin> set typesAvoidList
            then load_gep LL H LI (load_nested LL H LI (m, st), st) else (m, st))
     in (m, st\<lparr>isPrevAlloca := False\<rparr>))"

section \<open>Replacing the allocation functions\<close>

text \<open>
  \<open>getInstList().erase\<close>: the instruction leaves its block and its operands' use lists.
\<close>

definition erase_inst :: "vid \<Rightarrow> ir \<Rightarrow> ir" where
  "erase_inst c m = m\<lparr>vals := (vals m)(c := None),
     uses := (\<lambda>v. filter (\<lambda>u. getUser u \<noteq> c) (uses m v)),
     blocks := (\<lambda>f. map (removeAll c) (blocks m f))\<rparr>"

text \<open>
  The loop over the uses of the replaced function.  The instructions of the model include no
  \<open>invoke\<close>, which the programs of the C front end do not have: of them only a call makes a
  \<open>CallSite\<close> that is not null, and the use of a null one is undefined.  The loop may run forever:
  \<open>None\<close>.
\<close>

definition replace_call :: "llvm_lib \<Rightarrow> vid \<Rightarrow> vid \<Rightarrow> ir \<Rightarrow> ir" where
  "replace_call LL NF call m =
     (let (New, m) = CreateCall call NF (take (getNumArgOperands m call) (operands m call)) m;
          m = (if uses m call \<noteq> [] then ll_replaceAllUsesWith LL call New m else m)
      in erase_inst call m)"

partial_function (option) replace_loop :: "llvm_lib \<Rightarrow> vid \<Rightarrow> vid \<Rightarrow> ir \<Rightarrow> (stop + ir) option" where
  "replace_loop LL func NF m =
     (if uses m func = [] then Some (Inr m)
      else if kind m (list_user_back m func) \<noteq> Call then Some (Inl Undefined)
      else replace_loop LL func NF (replace_call LL NF (list_user_back m func) m))"

definition replaceFuncionWith :: "llvm_lib \<Rightarrow> vid \<Rightarrow> string \<Rightarrow> ir \<Rightarrow> (stop + ir) option" where
  "replaceFuncionWith LL func replace m =
     (let (NF, m) = new_value (Function True) (getType m func) replace [] m;
          m = m\<lparr>getFunctionList := insert_before func NF (getFunctionList m)\<rparr>
      in replace_loop LL func NF m)"

end
