(* ===== verification/PT_Driver.thy ===== *)
theory PT_Driver imports PT_Pass begin

text \<open>
  The end of \<open>passutils.cpp\<close> (\<open>optimizer\<close>) and \<open>ptauthpass.cpp\<close>: the order in which the pass
  visits the functions, blocks and instructions of a module.
\<close>

section \<open>The optimizer\<close>

definition optimizer_call :: "llvm_lib \<Rightarrow> ir \<Rightarrow> vid \<Rightarrow> pass_state \<Rightarrow> pass_state" where
  "optimizer_call LL m CI st =
     (case getCalledFunction m CI of
        None \<Rightarrow> st
      | Some fn \<Rightarrow>
          (let st = (if getName m fn = ''__ptauth_free'' then st\<lparr>FlagFreeCalled := True\<rparr> else st)
           in if getName m fn \<notin> set functionsAvoidList \<and>
                 (\<exists>i \<in> set [0..<getNumArgOperands m CI].
                    isPointerTy (getType m (getOperand m CI i)) \<and> \<not> isFILE LL (getType m (getOperand m CI i)))
              then st\<lparr>InternalCall := True\<rparr> else st))"

definition optimizer_load :: "llvm_lib \<Rightarrow> ir \<Rightarrow> vid \<Rightarrow> pass_state \<Rightarrow> pass_state" where
  "optimizer_load LL m LI st =
     (let op = getOperand m LI 0;
          st = (if isPointerTy (getType m LI) \<and> \<not> isFILE LL (getType m op) \<and> kind m op = GlobalVariable
                then st\<lparr>GlobalPointer := True\<rparr> else st)
      in if hasNUsesOrMore m LI 1 \<and> kind m (list_user_back m LI) = GetElementPtr \<and> kind m op = GetElementPtr
         then st\<lparr>NestedPointer := True\<rparr> else st)"

definition optimizer_inst :: "llvm_lib \<Rightarrow> ir \<Rightarrow> vid \<Rightarrow> pass_state \<Rightarrow> pass_state" where
  "optimizer_inst LL m I st =
     (if kind m I = Call then optimizer_call LL m I st
      else if kind m I = Load then optimizer_load LL m I st else st)"

definition optimizer :: "llvm_lib \<Rightarrow> ir \<Rightarrow> vid \<Rightarrow> pass_state \<Rightarrow> pass_state" where
  "optimizer LL m F st =
     (let st = st\<lparr>InternalCall := False, GlobalPointer := False, NestedPointer := False, FlagFreeCalled := False\<rparr>;
          st = fold (\<lambda>B. fold (optimizer_inst LL m) B) (blocks m F) st
      in if \<not> InternalCall st \<and> \<not> GlobalPointer st \<and> \<not> NestedPointer st \<and> \<not> FlagFreeCalled st
         then st\<lparr>optimizedList := getName m F # optimizedList st\<rparr> else st)"

section \<open>Visiting a function\<close>

definition visit :: "llvm_lib \<Rightarrow> config \<Rightarrow> hooks \<Rightarrow> vid \<Rightarrow> vid list \<Rightarrow> ir \<times> pass_state \<Rightarrow> ir \<times> pass_state" where
  "visit LL cfg H I B = (\<lambda>(m, st).
     let st = (if isPrevAlloca st then st\<lparr>isPrevAlloca := False, prevAI := None\<rparr> else st);
         st = (if allocaFinished st then st\<lparr>allocaFinished := False\<rparr> else st)
     in if isAlloca (kind m I) then instrumentAlloc I B (m, st)
        else if kind m I = Ret then instrumentReturn (m, st)
        else if kind m I = Store then instrumentStore LL I (m, st)
        else if kind m I = Load then instrumentLoad LL H I (m, st)
        else if kind m I = GetElementPtr then instrumentGEP I (m, st)
        else if kind m I = Call then instrumentCalls LL cfg H I (m, st)
        else (m, st))"

text \<open>
  The loop over a block steps to the node behind the visited one in the list as it is by then,
  new instructions included.
\<close>

partial_function (option) walk_block ::
  "llvm_lib \<Rightarrow> config \<Rightarrow> hooks \<Rightarrow> vid \<Rightarrow> nat \<Rightarrow> vid list \<Rightarrow> ir \<times> pass_state \<Rightarrow> (ir \<times> pass_state) option" where
  "walk_block LL cfg H F b rest s =
     (case rest of
        [] \<Rightarrow> Some s
      | I # is \<Rightarrow>
          (let s = visit LL cfg H I (blocks (fst s) F ! b) s
           in walk_block LL cfg H F b (tail_of I (blocks (fst s) F ! b)) s))"

fun walk_blocks :: "llvm_lib \<Rightarrow> config \<Rightarrow> hooks \<Rightarrow> vid \<Rightarrow> nat list \<Rightarrow> ir \<times> pass_state \<Rightarrow> (ir \<times> pass_state) option" where
  "walk_blocks LL cfg H F [] s = Some s"
| "walk_blocks LL cfg H F (b # bs) s =
     (case walk_block LL cfg H F b (blocks (fst s) F ! b) s of
        None \<Rightarrow> None
      | Some s \<Rightarrow> walk_blocks LL cfg H F bs s)"

section \<open>The module pass\<close>

definition replacement :: "string \<Rightarrow> string option" where
  "replacement name =
     (if name = ''malloc'' then Some ''__ptauth_malloc''
      else if name = ''calloc'' then Some ''__ptauth_calloc''
      else if name = ''realloc'' then Some ''__ptauth_realloc''
      else if name = ''free'' then Some ''__ptauth_free''
      else None)"

fun replace_functions :: "llvm_lib \<Rightarrow> vid list \<Rightarrow> ir \<Rightarrow> (stop + ir) option" where
  "replace_functions LL [] m = Some (Inr m)"
| "replace_functions LL (f # fs) m =
     (case replacement (getName m f) of
        None \<Rightarrow> replace_functions LL fs m
      | Some r \<Rightarrow>
          (case replaceFuncionWith LL f r m of
             None \<Rightarrow> None
           | Some (Inl e) \<Rightarrow> Some (Inl e)
           | Some (Inr m) \<Rightarrow> replace_functions LL fs m))"

definition hook_type :: ty where "hook_type = FunctionTy VoidPtrTy [VoidPtrTy]"

definition declare_hooks :: "llvm_lib \<Rightarrow> ir \<Rightarrow> hooks \<times> ir" where
  "declare_hooks LL m =
     (let (lc, m) = ll_getOrInsertFunction LL ''__loadCheck'' hook_type m;
          (gc, m) = ll_getOrInsertFunction LL ''__GEPCheck'' hook_type m;
          (nc, m) = ll_getOrInsertFunction LL ''__nestedGEPCheck'' hook_type m;
          (sc, m) = ll_getOrInsertFunction LL ''__storeCheck'' hook_type m;
          (xp, m) = ll_getOrInsertFunction LL ''__xpac'' hook_type m;
          (no, m) = ll_getOrInsertFunction LL ''__noCheck'' hook_type m
      in (\<lparr>h_loadCheck = lc, h_storeCheck = sc, h_xpac = xp, h_noCheck = no, h_GEPCheck = gc, h_nestedGEPCheck = nc\<rparr>, m))"

definition avoidList :: "string list" where
  "avoidList = [''mainQSort3'', ''mainSort'', ''price_out_impl'', ''primal_bea_mpp'', ''read_min'', ''getopt_internal'',
     ''writeSyntaxElement_fixed'']"

fun run_functions :: "llvm_lib \<Rightarrow> config \<Rightarrow> hooks \<Rightarrow> vid list \<Rightarrow> ir \<times> pass_state \<Rightarrow> (ir \<times> pass_state) option" where
  "run_functions LL cfg H [] s = Some s"
| "run_functions LL cfg H (F # Fs) (m, st) =
     (if blocks m F = [] then run_functions LL cfg H Fs (m, st)
      else
        (let st = optimizer LL m F st
         in if getName m F \<in> set avoidList \<or> getName m F \<in> set (optimizedList st)
            then run_functions LL cfg H Fs (m, st)
            else case walk_blocks LL cfg H F [0..<length (blocks m F)] (m, st) of
              None \<Rightarrow> None
            | Some s \<Rightarrow> run_functions LL cfg H Fs s))"

definition runOnModule :: "llvm_lib \<Rightarrow> config \<Rightarrow> ir \<times> pass_state \<Rightarrow> (stop + ir \<times> pass_state) option" where
  "runOnModule LL cfg = (\<lambda>(m, st).
     case replace_functions LL (getFunctionList m) m of
       None \<Rightarrow> None
     | Some (Inl e) \<Rightarrow> Some (Inl e)
     | Some (Inr m) \<Rightarrow>
         (let (H, m) = declare_hooks LL m
          in map_option Inr (run_functions LL cfg H (getFunctionList m) (m, st))))"

section \<open>What the optimizer decides\<close>

text \<open>The instructions that keep a function from being skipped.\<close>

definition calls_free :: "ir \<Rightarrow> vid \<Rightarrow> bool" where
  "calls_free m I \<longleftrightarrow> kind m I = Call \<and> (\<exists>f. getCalledFunction m I = Some f \<and> getName m f = ''__ptauth_free'')"

definition passes_pointer :: "llvm_lib \<Rightarrow> ir \<Rightarrow> vid \<Rightarrow> bool" where
  "passes_pointer LL m I \<longleftrightarrow> kind m I = Call \<and>
     (\<exists>f. getCalledFunction m I = Some f \<and> getName m f \<notin> set functionsAvoidList) \<and>
     (\<exists>i < getNumArgOperands m I. isPointerTy (getType m (getOperand m I i)) \<and> \<not> isFILE LL (getType m (getOperand m I i)))"

definition loads_global :: "llvm_lib \<Rightarrow> ir \<Rightarrow> vid \<Rightarrow> bool" where
  "loads_global LL m I \<longleftrightarrow> kind m I = Load \<and> isPointerTy (getType m I) \<and>
     \<not> isFILE LL (getType m (getOperand m I 0)) \<and> kind m (getOperand m I 0) = GlobalVariable"

definition loads_nested :: "ir \<Rightarrow> vid \<Rightarrow> bool" where
  "loads_nested m I \<longleftrightarrow> kind m I = Load \<and> uses m I \<noteq> [] \<and> kind m (list_user_back m I) = GetElementPtr \<and>
     kind m (getOperand m I 0) = GetElementPtr"

definition function_insts :: "ir \<Rightarrow> vid \<Rightarrow> vid list" where
  "function_insts m F = concat (blocks m F)"

lemma optimizer_inst_flags:
  "InternalCall (optimizer_inst LL m I st) \<longleftrightarrow> InternalCall st \<or> passes_pointer LL m I"
  "GlobalPointer (optimizer_inst LL m I st) \<longleftrightarrow> GlobalPointer st \<or> loads_global LL m I"
  "NestedPointer (optimizer_inst LL m I st) \<longleftrightarrow> NestedPointer st \<or> loads_nested m I"
  "FlagFreeCalled (optimizer_inst LL m I st) \<longleftrightarrow> FlagFreeCalled st \<or> calls_free m I"
  "optimizedList (optimizer_inst LL m I st) = optimizedList st"
  by (auto simp: optimizer_inst_def optimizer_call_def optimizer_load_def passes_pointer_def loads_global_def
      loads_nested_def calls_free_def hasNUsesOrMore_def Let_def Suc_le_eq split: option.splits)

lemma fold_flag:
  assumes "\<And>x s. fl (g x s) \<longleftrightarrow> fl s \<or> P x"
  shows "fl (fold g xs s) \<longleftrightarrow> fl s \<or> (\<exists>x \<in> set xs. P x)"
  using assms by (induction xs arbitrary: s) auto

lemma optimizer_flags:
  defines "run \<equiv> \<lambda>LL m F st. fold (\<lambda>B. fold (optimizer_inst LL m) B) (blocks m F) st"
  shows "InternalCall (run LL m F st) \<longleftrightarrow> InternalCall st \<or> (\<exists>I \<in> set (function_insts m F). passes_pointer LL m I)"
    "GlobalPointer (run LL m F st) \<longleftrightarrow> GlobalPointer st \<or> (\<exists>I \<in> set (function_insts m F). loads_global LL m I)"
    "NestedPointer (run LL m F st) \<longleftrightarrow> NestedPointer st \<or> (\<exists>I \<in> set (function_insts m F). loads_nested m I)"
    "FlagFreeCalled (run LL m F st) \<longleftrightarrow> FlagFreeCalled st \<or> (\<exists>I \<in> set (function_insts m F). calls_free m I)"
    "optimizedList (run LL m F st) = optimizedList st"
proof -
  have nested: "fold (\<lambda>B. fold g B) Bs = fold g (concat Bs)" for g :: "vid \<Rightarrow> pass_state \<Rightarrow> pass_state" and Bs
    by (induction Bs) auto
  have keep: "optimizedList (fold (optimizer_inst LL m) xs st) = optimizedList st" for xs
    by (induction xs arbitrary: st) (simp_all add: optimizer_inst_flags)
  show "InternalCall (run LL m F st) \<longleftrightarrow> InternalCall st \<or> (\<exists>I \<in> set (function_insts m F). passes_pointer LL m I)"
    unfolding run_def nested function_insts_def by (rule fold_flag) (rule optimizer_inst_flags)
  show "GlobalPointer (run LL m F st) \<longleftrightarrow> GlobalPointer st \<or> (\<exists>I \<in> set (function_insts m F). loads_global LL m I)"
    unfolding run_def nested function_insts_def by (rule fold_flag) (rule optimizer_inst_flags)
  show "NestedPointer (run LL m F st) \<longleftrightarrow> NestedPointer st \<or> (\<exists>I \<in> set (function_insts m F). loads_nested m I)"
    unfolding run_def nested function_insts_def by (rule fold_flag) (rule optimizer_inst_flags)
  show "FlagFreeCalled (run LL m F st) \<longleftrightarrow> FlagFreeCalled st \<or> (\<exists>I \<in> set (function_insts m F). calls_free m I)"
    unfolding run_def nested function_insts_def by (rule fold_flag) (rule optimizer_inst_flags)
  show "optimizedList (run LL m F st) = optimizedList st"
    unfolding run_def nested by (rule keep)
qed

end
