(* ===== verification/PT_Growth.thy ===== *)
theory PT_Growth imports PT_Driver begin

text \<open>
  What instrumenting a module keeps: the relation \<open>grows\<close> for every handler of the pass, and
  from it that the loop over a block ends and the whole pass over the functions returns.
\<close>

section \<open>The runtime functions in the module\<close>

definition hook_ok :: "ir \<Rightarrow> vid \<Rightarrow> bool" where
  "hook_ok m h \<longleftrightarrow> vals m h \<noteq> None \<and> isFunction (kind m h) \<and> getType m h = PointerTy hook_type"

definition hooks_ok :: "ir \<Rightarrow> hooks \<Rightarrow> bool" where
  "hooks_ok m H \<longleftrightarrow> hook_ok m (h_loadCheck H) \<and> hook_ok m (h_storeCheck H) \<and> hook_ok m (h_xpac H) \<and>
     hook_ok m (h_noCheck H) \<and> hook_ok m (h_GEPCheck H) \<and> hook_ok m (h_nestedGEPCheck H) \<and>
     getName m (h_loadCheck H) = ''__loadCheck'' \<and> getName m (h_GEPCheck H) = ''__GEPCheck'' \<and>
     getName m (h_nestedGEPCheck H) = ''__nestedGEPCheck''"

definition check_hooks :: "hooks \<Rightarrow> vid set" where
  "check_hooks H = {h_loadCheck H, h_GEPCheck H, h_nestedGEPCheck H}"

definition all_hooks :: "hooks \<Rightarrow> vid set" where
  "all_hooks H = {h_loadCheck H, h_storeCheck H, h_xpac H, h_noCheck H, h_GEPCheck H, h_nestedGEPCheck H}"

text \<open>Growing by what the pass inserts.\<close>

definition growth_of :: "llvm_lib \<Rightarrow> hooks \<Rightarrow> growth" where
  "growth_of LL H = \<lparr>checks = check_hooks H, runtime = all_hooks H, cast_of = folded LL\<rparr>"

lemma growth_of_simps [simp]:
  "checks (growth_of LL H) = check_hooks H" "runtime (growth_of LL H) = all_hooks H"
  "cast_of (growth_of LL H) = folded LL"
  by (simp_all add: growth_of_def)

lemma hook_ok_same: "hook_ok m h \<Longrightarrow> same_value m m' h \<Longrightarrow> hook_ok m' h"
  by (simp add: hook_ok_def same_value_def)

lemma hooks_ok_grows: "hooks_ok m H \<Longrightarrow> grows K I m m' \<Longrightarrow> hooks_ok m' H"
proof -
  assume ok: "hooks_ok m H" and g: "grows K I m m'"
  have s: "same_value m m' h" if "hook_ok m h" for h
    using that growsD(3) [OF g, of h] by (simp add: hook_ok_def)
  have "getName m' h = getName m h" if "hook_ok m h" for h
    using s [OF that] by (simp add: same_value_def)
  moreover have "hook_ok m' h" if "hook_ok m h" for h using hook_ok_same [OF that s [OF that]] .
  ultimately show "hooks_ok m' H" using ok by (simp add: hooks_ok_def)
qed

lemma same_value_operand_type:
  "same_value m m' u \<Longrightarrow> i < length (operands m u) \<Longrightarrow>
   getType m' (getOperand m' u i) = getType m (getOperand m u i)"
  by (simp add: same_value_def getOperand_def)

lemma grows_vals: "grows K I m m' \<Longrightarrow> vals m v \<noteq> None \<Longrightarrow> vals m' v \<noteq> None"
  using growsD(3) by (fastforce simp: same_value_def)

lemma operand_user_defined: "i < length (operands m u) \<Longrightarrow> vals m u \<noteq> None"
  by (cases "vals m u") (auto simp: operands_None)

text \<open>A fold of growing steps grows.\<close>

lemma fold_grows:
  assumes wf: "ir_wf m" and I: "I < next_vid m"
    and step: "\<And>x m1. x \<in> set xs \<Longrightarrow> grows K I m m1 \<Longrightarrow> grows K I m1 (g x m1)"
  shows "grows K I m (fold g xs m)"
proof -
  have "grows K I m m1 \<Longrightarrow> grows K I m (fold g xs m1)" for m1
    using step
  proof (induction xs arbitrary: m1)
    case Nil
    then show ?case by simp
  next
    case (Cons x xs)
    have "grows K I m (g x m1)"
      using grows_trans [OF Cons.prems(1) _ I] Cons.prems by simp
    then show ?case using Cons by simp
  qed
  then show ?thesis using grows_refl [OF wf] by simp
qed

lemma fold_grows_state:
  assumes wf: "ir_wf m" and I: "I < next_vid m"
    and step: "\<And>x m1 st. x \<in> set xs \<Longrightarrow> grows K I m m1 \<Longrightarrow> grows K I m1 (fst (g x (m1, st)))"
  shows "grows K I m (fst (fold g xs (m, st)))"
proof -
  have "grows K I m (fst s) \<Longrightarrow> grows K I m (fst (fold g xs s))" for s
    using step
  proof (induction xs arbitrary: s)
    case Nil
    then show ?case by simp
  next
    case (Cons x xs)
    have "grows K I m (fst (g x (fst s, snd s)))"
      using grows_trans [OF Cons.prems(1) _ I] Cons.prems(1,2) by (metis list.set_intros(1))
    then show ?case using Cons by simp
  qed
  then show ?thesis using grows_refl [OF wf] by simp
qed

section \<open>The handlers\<close>

context llvm
begin

lemma wrap_operand_grows:
  assumes wf: "ir_wf m" and h: "hook_ok m hook" and I: "I < next_vid m" and i: "i < length (operands m u)"
    and K: "cast_of K = folded LL" "hook \<in> runtime K"
    and pos: "pos = I \<or> hook \<in> checks K" and c: "kind m u = Call \<Longrightarrow> Suc i < length (operands m u)"
  shows "grows K I m (wrap_operand LL hook pos u i m)"
proof -
  obtain V1 m1 where 1: "CreateBitCast LL pos (getOperand m u i) VoidPtrTy m = (V1, m1)" by fastforce
  obtain V2 m2 where 2: "CreateCall pos hook [V1] m1 = (V2, m2)" by fastforce
  obtain V3 m3 where 3: "CreateBitCast LL pos V2 (getType m2 (getOperand m2 u i)) m2 = (V3, m3)" by fastforce
  have g1: "grows K I m m1" "vals m1 V1 \<noteq> None" "leads K (next_vid m) m1 V1 (getOperand m u i)"
    using grows_CreateBitCast [OF wf getOperand_defined [OF wf i] I K(1) 1] by blast+
  have u: "vals m u \<noteq> None" using i by (rule operand_user_defined)
  have n1: "I < next_vid m1" using I growsD(2) [OF g1(1)] by simp
  have h1: "vals m1 hook \<noteq> None"
    using h growsD(3) [OF g1(1), of hook] by (auto simp: hook_ok_def same_value_def)
  have g2: "grows K I m1 m2" "vals m2 V2 \<noteq> None" "leads K (next_vid m1) m2 V2 V1"
    using grows_CreateCall [OF growsD(1) [OF g1(1)] g1(2) h1 n1 pos K(2) 2] by blast+
  have n2: "I < next_vid m2" using n1 growsD(2) [OF g2(1)] by simp
  have g3: "grows K I m2 m3" "vals m3 V3 \<noteq> None" "getType m3 V3 = getType m2 (getOperand m2 u i)"
      "leads K (next_vid m2) m3 V3 V2"
    using grows_CreateBitCast [OF growsD(1) [OF g2(1)] g2(2) n2 K(1) 3] by blast+
  have g12: "grows K I m m2" using g1(1) g2(1) I by (rule grows_trans)
  have g13: "grows K I m m3" using g12 g3(1) I by (rule grows_trans)
  have s: "same_value m m3 u" "same_value m m2 u"
    using growsD(3) [OF g13 u] growsD(3) [OF g12 u] by blast+
  have b: "next_vid m \<le> next_vid m1" "next_vid m \<le> next_vid m2"
    using growsD(2) [OF g1(1)] growsD(2) [OF g12] by simp_all
  have "leads K (next_vid m) m3 V3 V2" using g3(4) b(2) by (rule leads_mono)
  moreover have "leads K (next_vid m) m3 V2 V1"
    by (rule leads_step [OF leads_mono [OF g2(3) b(1)] growsD(6) [OF g3(1)] b(2) growsD(3) [OF g3(1)]])
  moreover have "leads K (next_vid m) m3 V1 (getOperand m u i)"
    by (rule leads_step [OF leads_step [OF g1(3) growsD(6) [OF g2(1)] b(1) growsD(3) [OF g2(1)]]
        growsD(6) [OF g3(1)] b(2) growsD(3) [OF g3(1)]])
  ultimately have l: "leads K (next_vid m) m3 V3 (getOperand m u i)" by (blast intro: leads_trans)
  have "getType m3 V3 = getType m3 (getOperand m3 u i)"
    using same_value_operand_type [OF s(1) i] same_value_operand_type [OF s(2) i] g3(3) by simp
  from grows_setOperand [OF g13 wf I i g3(2) this c l] show ?thesis
    by (simp add: wrap_operand_def 1 2 3)
qed

lemma external_arg_grows:
  assumes wf: "ir_wf m" and H: "hooks_ok m H" and CI: "vals m CI \<noteq> None" and k: "kind m CI = Call"
    and i: "i < getNumArgOperands m CI"
  shows "grows (growth_of LL H) CI m (external_arg LL cfg H CI name i m)"
proof -
  have n: "CI < next_vid m" using CI ir_wfD(4) [OF wf, of CI] by auto
  have "grows (growth_of LL H) CI m (wrap_operand LL (h_xpac H) CI CI i m)"
    using wf H n i by (intro wrap_operand_grows) (auto simp: hooks_ok_def getNumArgOperands_def all_hooks_def)
  then show ?thesis using grows_refl [OF wf] by (simp add: external_arg_def Let_def)
qed

lemma load_has_operand: "ir_wf m \<Longrightarrow> kind m L = Load \<Longrightarrow> 0 < length (operands m L)"
  using ir_wfD(10) [of m L] by simp

lemma gep_has_operand: "ir_wf m \<Longrightarrow> kind m L = GetElementPtr \<Longrightarrow> 0 < length (operands m L)"
  using ir_wfD(10) [of m L] by (cases "operands m L") auto

lemma wrap_load_grows:
  assumes "ir_wf m" and "hooks_ok m H" and "I < next_vid m" and "kind m L = Load" and "hook_ok m hook"
    and "hook \<in> all_hooks H" and "L = I \<or> hook \<in> check_hooks H"
  shows "grows (growth_of LL H) I m (wrap_operand LL hook L L 0 m)"
  using assms load_has_operand [of m L] by (intro wrap_operand_grows) auto

lemma internal_arg_grows:
  assumes wf: "ir_wf m" and H: "hooks_ok m H" and n: "I < next_vid m"
  shows "grows (growth_of LL H) I m (fst (internal_arg LL H CI i (m, st)))"
proof -
  let ?K = "growth_of LL H"
  have lc: "hook_ok m1 (h_loadCheck H)" if "hooks_ok m1 H" for m1 using that by (simp add: hooks_ok_def)
  have 1: "grows ?K I m (fst (internal_arg_load LL H CI i (m, st)))" for st
    using wrap_load_grows [OF wf H n _ lc [OF H], of "ll_stripPointerCasts LL m (getOperand m CI i)"] grows_refl [OF wf]
    by (auto simp: internal_arg_load_def Let_def check_hooks_def all_hooks_def)
  have 2: "grows ?K I m1 (fst (internal_arg_cast LL H CI i (m1, st)))" if "grows ?K I m m1" for m1 st
  proof -
    note w = growsD(1) [OF that] and h = hooks_ok_grows [OF H that]
    have "I < next_vid m1" using n growsD(2) [OF that] by simp
    from wrap_load_grows [OF w h this _ lc [OF h]] grows_refl [OF w] show ?thesis
      by (auto simp: internal_arg_cast_def Let_def check_hooks_def all_hooks_def)
  qed
  have "grows ?K I m (fst (internal_arg_cast LL H CI i (internal_arg_load LL H CI i (m, st))))" for st
    using grows_trans [OF 1 2 [OF 1] n, of st "snd (internal_arg_load LL H CI i (m, st))"] by simp
  then show ?thesis using grows_refl [OF wf] by (simp add: internal_arg_def Let_def)
qed

lemma instrumentCalls_grows:
  assumes wf: "ir_wf m" and H: "hooks_ok m H" and CI: "vals m CI \<noteq> None" and k: "kind m CI = Call"
  shows "grows (growth_of LL H) CI m (fst (instrumentCalls LL cfg H CI (m, st)))"
proof (cases "getCalledFunction m CI")
  case None
  then show ?thesis using grows_refl [OF wf] by (simp add: instrumentCalls_def)
next
  case (Some fn)
  let ?K = "growth_of LL H" and ?n = "getNumArgOperands m CI"
  have n: "CI < next_vid m" using CI ir_wfD(4) [OF wf, of CI] by auto
  have ext: "grows ?K CI m (fold (external_arg LL cfg H CI name) [0..<?n] m)" for name
  proof (rule fold_grows [OF wf n])
    fix i m1 assume i: "i \<in> set [0..<?n]" and g: "grows ?K CI m m1"
    have s: "same_value m m1 CI" using growsD(3) [OF g CI] .
    show "grows ?K CI m1 (external_arg LL cfg H CI name i m1)"
      using growsD(1) [OF g] hooks_ok_grows [OF H g] s k i
      by (intro external_arg_grows) (auto simp: same_value_def getNumArgOperands_def)
  qed
  have int: "grows ?K CI m1 (fst (fold (internal_arg LL H CI) xs (m1, st)))" if g: "grows ?K CI m m1" for m1 st xs
  proof (rule fold_grows_state)
    show "ir_wf m1" by (rule growsD(1) [OF g])
    show n1: "CI < next_vid m1" using n growsD(2) [OF g] by simp
    fix i m2 st assume "grows ?K CI m1 m2"
    then have "grows ?K CI m m2" using grows_trans [OF g _ n] by blast
    then show "grows ?K CI m2 (fst (internal_arg LL H CI i (m2, st)))"
      using growsD(1,2) [of ?K CI m m2] hooks_ok_grows [OF H] n by (intro internal_arg_grows) auto
  qed
  let ?m1 = "if isDeclaration m fn \<and> getName m fn \<notin> set localAvoidList
    then fold (external_arg LL cfg H CI (getName m fn)) [0..<?n] m else m"
  have g1: "grows ?K CI m ?m1" using ext grows_refl [OF wf] by simp
  have "grows ?K CI m (fst (if name \<notin> set functionsAvoidList then fold (internal_arg LL H CI) xs (?m1, st)
      else (?m1, st)))" for name xs st
    using g1 grows_trans [OF g1 int [OF g1] n] by (cases "name \<in> set functionsAvoidList") simp_all
  then show ?thesis unfolding instrumentCalls_def prod.case Some option.case Let_def .
qed

lemma load_nested_grows:
  assumes wf: "ir_wf m" and H: "hooks_ok m H" and LI: "vals m LI \<noteq> None" and k: "kind m LI = Load"
  shows "grows (growth_of LL H) LI m (load_nested LL H LI (m, st))"
proof -
  have n: "LI < next_vid m" using LI ir_wfD(4) [OF wf, of LI] by auto
  let ?g = "\<lambda>ptr m. if Operand1 ptr = getOperand m' 0 0 then m else m"
  have "grows (growth_of LL H) LI m (fold (\<lambda>ptr m. if Operand1 ptr = AI
      then wrap_operand LL (if isPassedToFunctionBefore ptr then h_loadCheck H else h_noCheck H) LI LI 0 m
      else m) (pointers st) m)" for AI
  proof (rule fold_grows [OF wf n])
    fix ptr m1 assume g: "grows (growth_of LL H) LI m m1"
    have s: "same_value m m1 LI" using growsD(3) [OF g LI] .
    have h: "hooks_ok m1 H" by (rule hooks_ok_grows [OF H g])
    have "grows (growth_of LL H) LI m1 (wrap_operand LL hook LI LI 0 m1)" if "hook_ok m1 hook" "hook \<in> all_hooks H" for hook
      using growsD(1,2) [OF g] h n s k that by (intro wrap_load_grows) (auto simp: same_value_def)
    then show "grows (growth_of LL H) LI m1 (if Operand1 ptr = AI
        then wrap_operand LL (if isPassedToFunctionBefore ptr then h_loadCheck H else h_noCheck H) LI LI 0 m1 else m1)"
      using h grows_refl [OF growsD(1) [OF g]] by (simp add: hooks_ok_def all_hooks_def)
  qed
  then show ?thesis using grows_refl [OF wf] by (simp add: load_nested_def Let_def)
qed

lemma wrap_gep_grows:
  assumes "ir_wf m" and "I < next_vid m" and "kind m G = GetElementPtr" and "hook_ok m hook" and "hook \<in> check_hooks H"
  shows "grows (growth_of LL H) I m (wrap_operand LL hook G G 0 m)"
  using assms gep_has_operand [of m G] by (intro wrap_operand_grows) (auto simp: check_hooks_def all_hooks_def)

lemma load_gep_grows:
  assumes wf: "ir_wf m" and H: "hooks_ok m H" and n: "I < next_vid m"
  shows "grows (growth_of LL H) I m (fst (load_gep LL H LI (m, st)))"
proof -
  let ?K = "growth_of LL H" and ?G = "list_user_back m LI"
  show ?thesis
  proof (cases "kind m ?G = GetElementPtr")
    case True
    have G: "vals m ?G \<noteq> None" using True by (cases "vals m ?G") (auto simp: info_def null_info_def)
    have 1: "grows ?K I m (fst (load_local LL H LI ?G (m, st)))"
      using wrap_gep_grows [OF wf n True, of "h_GEPCheck H" H] H grows_refl [OF wf]
      by (auto simp: load_local_def Let_def hooks_ok_def check_hooks_def)
    have 2: "grows ?K I m1 (fst (load_field LL H LI ?G (m1, st1)))" if g: "grows ?K I m m1" for m1 st1
    proof -
      have "kind m1 ?G = GetElementPtr" using growsD(3) [OF g G] True by (simp add: same_value_def)
      moreover have "I < next_vid m1" using n growsD(2) [OF g] by simp
      ultimately show ?thesis
        using wrap_gep_grows [OF growsD(1) [OF g], of I ?G "h_nestedGEPCheck H" H] hooks_ok_grows [OF H g]
          grows_refl [OF growsD(1) [OF g]]
        by (auto simp: load_field_def Let_def hooks_ok_def check_hooks_def)
    qed
    show ?thesis
      using grows_trans [OF 1 2 [OF 1] n, of "snd (load_local LL H LI ?G (m, st))"] grows_refl [OF wf]
      by (simp add: load_gep_def Let_def)
  next
    case False
    then show ?thesis using grows_refl [OF wf] by (simp add: load_gep_def Let_def)
  qed
qed

lemma instrumentLoad_grows:
  assumes wf: "ir_wf m" and H: "hooks_ok m H" and LI: "vals m LI \<noteq> None" and k: "kind m LI = Load"
  shows "grows (growth_of LL H) LI m (fst (instrumentLoad LL H LI (m, st)))"
proof -
  let ?K = "growth_of LL H"
  have n: "LI < next_vid m" using LI ir_wfD(4) [OF wf, of LI] by auto
  have g: "grows ?K LI m (load_nested LL H LI (m, st))" by (rule load_nested_grows [OF assms])
  have "grows ?K LI (load_nested LL H LI (m, st)) (fst (load_gep LL H LI (load_nested LL H LI (m, st), st)))"
    using growsD(1,2) [OF g] hooks_ok_grows [OF H g] n by (intro load_gep_grows) auto
  then have "grows ?K LI m (fst (load_gep LL H LI (load_nested LL H LI (m, st), st)))"
    using grows_trans [OF g _ n] by blast
  then show ?thesis
    using grows_refl [OF wf] by (auto simp: instrumentLoad_def Let_def split: prod.split)
qed

lemma visit_grows:
  assumes wf: "ir_wf m" and H: "hooks_ok m H" and I: "vals m I \<noteq> None"
  shows "grows (growth_of LL H) I m (fst (visit LL cfg H I B (m, st)))"
proof -
  have "grows (growth_of LL H) I m (fst (instrumentLoad LL H I (m, st1)))" if "kind m I = Load" for st1
    using that by (rule instrumentLoad_grows [OF assms])
  moreover have "grows (growth_of LL H) I m (fst (instrumentCalls LL cfg H I (m, st1)))" if "kind m I = Call" for st1
    using that by (rule instrumentCalls_grows [OF assms])
  moreover have "fst (instrumentAlloc I B (m, st1)) = m" "fst (instrumentReturn (m, st1)) = m"
      "fst (instrumentStore LL I (m, st1)) = m" "fst (instrumentGEP I (m, st1)) = m" for st1
    by (simp_all add: instrumentAlloc_def instrumentReturn_def instrumentStore_def instrumentGEP_def Let_def)
  ultimately show ?thesis
    using grows_refl [OF wf] by (simp add: visit_def Let_def)
qed

end

text \<open>Visiting an instruction the pass itself inserted changes nothing.\<close>

lemma visit_inert:
  assumes H: "hooks_ok m H" and I: "inert (check_hooks H) m I"
  shows "fst (visit LL cfg H I B (m, st)) = m"
proof (cases "kind m I = BitCast")
  case True
  then show ?thesis by (simp add: visit_def Let_def)
next
  case False
  with I have k: "kind m I = Call" and f: "operands m I \<noteq> []" "last (operands m I) \<in> check_hooks H"
    by (auto simp: inert_def)
  let ?f = "last (operands m I)"
  have "getOperand m I (length (operands m I) - 1) = ?f" using f(1) by (simp add: getOperand_def last_conv_nth)
  moreover have fn: "isFunction (kind m ?f)" "getName m ?f \<in> {''__loadCheck'', ''__GEPCheck'', ''__nestedGEPCheck''}"
    using f(2) H by (auto simp: check_hooks_def hooks_ok_def hook_ok_def)
  ultimately have "getCalledFunction m I = Some ?f" by (simp add: getCalledFunction_def)
  moreover have "getName m ?f \<in> set localAvoidList" "getName m ?f \<in> set functionsAvoidList"
    using fn(2) by (auto simp: localAvoidList_def functionsAvoidList_def)
  ultimately have "fst (instrumentCalls LL cfg H I (m, st1)) = m" for st1
    by (simp add: instrumentCalls_def Let_def)
  with k show ?thesis by (simp add: visit_def Let_def)
qed

section \<open>The loop over a block ends\<close>

text \<open>
  The invariant: what is left to visit is the end of the block, and the instructions in it that
  were not there at the start (numbers from \<open>n0\<close> on) are casts and calls of check functions.
\<close>

definition walk_inv :: "hooks \<Rightarrow> vid \<Rightarrow> nat \<Rightarrow> nat \<Rightarrow> ir \<Rightarrow> vid list \<Rightarrow> bool" where
  "walk_inv H F b n0 m rest \<longleftrightarrow> ir_wf m \<and> hooks_ok m H \<and> n0 \<le> next_vid m \<and> b < length (blocks m F) \<and>
     (\<exists>pre. blocks m F ! b = pre @ rest) \<and> (\<forall>x \<in> set rest. n0 \<le> x \<longrightarrow> inert (check_hooks H) m x)"

lemma tail_of_append: "I \<notin> set pre \<Longrightarrow> tail_of I (pre @ I # is) = is"
proof -
  assume "I \<notin> set pre"
  then have "dropWhile (\<lambda>x. x \<noteq> I) (pre @ I # is) = I # is" by (induction pre) auto
  then show ?thesis by (simp add: tail_of.simps)
qed

lemma tail_of_suffix: "I \<in> set xs \<Longrightarrow> \<exists>pre. xs = pre @ I # tail_of I xs"
  using split_list_first [of I xs] tail_of_append by metis

lemma block_grows_nth:
  assumes "grows K I m m'" and "b < length (blocks m F)"
  shows "b < length (blocks m' F)" "block_grows (checks K) I m m' (blocks m F ! b) (blocks m' F ! b)"
  using growsD(4) [OF assms(1), of F] assms(2) by (auto simp: list_all2_conv_all_nth)

lemma count_filter: "n0 \<le> n \<Longrightarrow> filter (\<lambda>x. x < n0) (filter (\<lambda>x. x < n) xs) = filter (\<lambda>x. x < (n0 :: nat)) xs"
  by (auto intro: filter_cong)

context llvm
begin

lemma walk_step:
  fixes cfg :: config and st :: pass_state
  assumes inv: "walk_inv H F b n0 m (I # is)"
  defines "m' \<equiv> fst (visit LL cfg H I (blocks m F ! b) (m, st))"
  defines "rest \<equiv> tail_of I (blocks m' F ! b)"
  shows "walk_inv H F b n0 m' rest" "grows (growth_of LL H) I m m'"
    "I < n0 \<Longrightarrow> length (filter (\<lambda>x. x < n0) rest) < length (filter (\<lambda>x. x < n0) (I # is))"
    "n0 \<le> I \<Longrightarrow> rest = is"
proof -
  let ?B = "blocks m F ! b"
  have wf: "ir_wf m" and H: "hooks_ok m H" and n0: "n0 \<le> next_vid m" and b: "b < length (blocks m F)"
      and inert: "\<forall>x \<in> set (I # is). n0 \<le> x \<longrightarrow> inert (check_hooks H) m x"
    using inv by (auto simp: walk_inv_def)
  obtain pre where pre: "?B = pre @ I # is" using inv by (auto simp: walk_inv_def)
  have B: "?B \<in> set (blocks m F)" using b by simp
  have I: "vals m I \<noteq> None" using ir_wfD(8) [OF wf B, of I] pre by simp
  have In: "I < next_vid m" using ir_wfD(7) [OF wf B, of I] pre by simp
  have "I \<notin> set pre" using ir_wfD(9) [OF wf B] pre by simp
  then have tl: "tail_of I ?B = is" unfolding pre by (rule tail_of_append)
  show g: "grows (growth_of LL H) I m m'" unfolding m'_def by (rule visit_grows [OF wf H I])
  note bg = block_grows_nth [OF g b]
  have filt: "filter (\<lambda>x. x < next_vid m) (blocks m' F ! b) = ?B"
    using bg(2) by (simp add: block_grows_def)
  have ft: "filter (\<lambda>x. x < next_vid m) rest = is"
    using tail_of_filter [of "\<lambda>x. x < next_vid m" I "blocks m' F ! b"] filt tl In by (simp add: rest_def)
  have "I \<in> set (filter (\<lambda>x. x < next_vid m) (blocks m' F ! b))" unfolding filt pre by simp
  then have "I \<in> set (blocks m' F ! b)" by simp
  then obtain pre' where "blocks m' F ! b = pre' @ I # rest" unfolding rest_def using tail_of_suffix by blast
  then have suf: "\<exists>p. blocks m' F ! b = p @ rest" by (metis append.assoc append_Cons append_Nil)
  have "inert (check_hooks H) m' x" if x: "x \<in> set rest" "n0 \<le> x" for x
  proof (cases "x < next_vid m")
    case True
    then have "x \<in> set is" using x(1) ft by auto
    then have i: "inert (check_hooks H) m x" using inert x(2) by simp
    show ?thesis using inert_same_value [OF i growsD(3) [OF g inert_vals [OF i]]] .
  next
    case False
    then show ?thesis using bg(2) x(1) by (simp add: block_grows_def rest_def)
  qed
  then show "walk_inv H F b n0 m' rest"
    using growsD(1,2) [OF g] hooks_ok_grows [OF H g] n0 bg(1) suf by (auto simp: walk_inv_def)
  show "length (filter (\<lambda>x. x < n0) rest) < length (filter (\<lambda>x. x < n0) (I # is))" if "I < n0"
    using count_filter [OF n0, of rest] ft that by simp
  show "rest = is" if "n0 \<le> I"
  proof -
    have "m' = m" unfolding m'_def using that inert by (intro visit_inert [OF H]) simp
    with tl show ?thesis by (simp add: rest_def)
  qed
qed

lemma walk_block_returns:
  assumes "walk_inv H F b n0 (fst s) rest"
  shows "\<exists>s'. walk_block LL cfg H F b rest s = Some s' \<and> ir_wf (fst s') \<and> hooks_ok (fst s') H \<and>
    traces (growth_of LL H) (fst s) (fst s') \<and>
    next_vid (fst s) \<le> next_vid (fst s') \<and> (\<forall>v. vals (fst s) v \<noteq> None \<longrightarrow> same_value (fst s) (fst s') v) \<and>
    (\<forall>f. list_all2 (\<lambda>B B'. filter (\<lambda>x. x < next_vid (fst s)) B' = B) (blocks (fst s) f) (blocks (fst s') f))"
  using assms
proof (induction "(length (filter (\<lambda>x. x < n0) rest), length rest)" arbitrary: rest s rule: wf_induct_rule
    [OF wf_lex_prod [OF wf_less wf_less]])
  case (1 rest s)
  note inv = 1(2)
  show ?case
  proof (cases rest)
    case Nil
    have wf: "ir_wf (fst s)" and H: "hooks_ok (fst s) H" using inv by (auto simp: walk_inv_def)
    have "list_all2 (\<lambda>B B'. filter (\<lambda>x. x < next_vid (fst s)) B' = B) (blocks (fst s) f) (blocks (fst s) f)" for f
      using ir_wfD(7) [OF wf] by (auto simp: list_all2_same filter_id_conv)
    then show ?thesis
      using Nil wf H by (subst walk_block.simps) (auto simp: same_value_refl traces_refl)
  next
    case (Cons I "is")
    let ?s = "visit LL cfg H I (blocks (fst s) F ! b) s"
    let ?rest = "tail_of I (blocks (fst ?s) F ! b)"
    have sp: "s = (fst s, snd s)" by simp
    note step = walk_step [OF inv [unfolded Cons], of cfg "snd s", folded sp]
    have less: "((length (filter (\<lambda>x. x < n0) ?rest), length ?rest), (length (filter (\<lambda>x. x < n0) rest), length rest))
        \<in> {(x, y). x < y} <*lex*> {(x, y). x < y}"
      using step(3,4) unfolding Cons by (cases "I < n0") auto
    obtain s' where s': "walk_block LL cfg H F b ?rest ?s = Some s'" "ir_wf (fst s')" "hooks_ok (fst s') H"
        "traces (growth_of LL H) (fst ?s) (fst s')" "next_vid (fst ?s) \<le> next_vid (fst s')"
        "\<forall>v. vals (fst ?s) v \<noteq> None \<longrightarrow> same_value (fst ?s) (fst s') v"
        "\<forall>f. list_all2 (\<lambda>B B'. filter (\<lambda>x. x < next_vid (fst ?s)) B' = B) (blocks (fst ?s) f) (blocks (fst s') f)"
      using 1(1) [OF less step(1)] by blast
    note g = step(2)
    have "same_value (fst s) (fst s') v" if "vals (fst s) v \<noteq> None" for v
      using same_value_trans [OF growsD(3) [OF g that]] s'(6) growsD(1) [OF g] by blast
    moreover have "list_all2 (\<lambda>B B'. filter (\<lambda>x. x < next_vid (fst s)) B' = B) (blocks (fst s) f) (blocks (fst s') f)" for f
    proof -
      have "list_all2 (\<lambda>B B'. filter (\<lambda>x. x < next_vid (fst s)) B' = B) (blocks (fst s) f) (blocks (fst ?s) f)"
        using growsD(4) [OF g, of f] by (rule list_all2_mono) (simp add: block_grows_def)
      then show ?thesis
      proof (rule list_all2_trans [rotated 1, OF _ s'(7) [rule_format, of f]])
        fix B B1 B2
        assume "filter (\<lambda>x. x < next_vid (fst s)) B1 = B" "filter (\<lambda>x. x < next_vid (fst ?s)) B2 = B1"
        then show "filter (\<lambda>x. x < next_vid (fst s)) B2 = B"
          using count_filter [OF growsD(2) [OF g], of B2] by simp
      qed
    qed
    moreover have "traces (growth_of LL H) (fst s) (fst s')"
      by (rule traces_trans [OF growsD(6) [OF g] s'(4) growsD(2) [OF g] growsD(3) [OF g]]) (use s'(6,7) in blast)+
    moreover have "walk_block LL cfg H F b rest s = Some s'"
      unfolding Cons using s'(1) by (subst walk_block.simps) (simp add: Let_def)
    moreover have "next_vid (fst s) \<le> next_vid (fst s')" using s'(5) growsD(2) [OF g] by (rule order_trans [rotated])
    ultimately show ?thesis using s'(2,3) by blast
  qed
qed

end

section \<open>The pass over the functions\<close>

text \<open>
  A module \<open>m'\<close> that instrumentation made of \<open>m\<close>: well-formed, every value of \<open>m\<close> as it was up to
  operands of the same types, every block the old one with new instructions in between.
\<close>

definition instrumented :: "ir \<Rightarrow> ir \<Rightarrow> bool" where
  "instrumented m m' \<longleftrightarrow> ir_wf m' \<and> next_vid m \<le> next_vid m' \<and> (\<forall>v. vals m v \<noteq> None \<longrightarrow> same_value m m' v) \<and>
     (\<forall>f. list_all2 (\<lambda>B B'. filter (\<lambda>x. x < next_vid m) B' = B) (blocks m f) (blocks m' f))"

lemma instrumented_refl: "ir_wf m \<Longrightarrow> instrumented m m"
  using ir_wfD(7) [of m] by (auto simp: instrumented_def same_value_refl list_all2_same filter_id_conv)

lemma instrumented_trans:
  assumes 1: "instrumented m m1" and 2: "instrumented m1 m2"
  shows "instrumented m m2"
proof -
  have n: "next_vid m \<le> next_vid m1" "ir_wf m1" using 1 by (simp_all add: instrumented_def)
  have "list_all2 (\<lambda>B B'. filter (\<lambda>x. x < next_vid m) B' = B) (blocks m f) (blocks m2 f)" for f
  proof (rule list_all2_trans)
    show "list_all2 (\<lambda>B B'. filter (\<lambda>x. x < next_vid m) B' = B) (blocks m f) (blocks m1 f)"
      and "list_all2 (\<lambda>B B'. filter (\<lambda>x. x < next_vid m1) B' = B) (blocks m1 f) (blocks m2 f)"
      using 1 2 by (simp_all add: instrumented_def)
    fix B B1 B2
    assume "filter (\<lambda>x. x < next_vid m) B1 = B" "filter (\<lambda>x. x < next_vid m1) B2 = B1"
    then show "filter (\<lambda>x. x < next_vid m) B2 = B" using count_filter [OF n(1), of B2] by simp
  qed
  moreover have "same_value m m2 v" if "vals m v \<noteq> None" for v
    using that 1 2 n(2) same_value_trans [of m m1 v m2] by (auto simp: instrumented_def)
  ultimately show ?thesis using 1 2 by (auto simp: instrumented_def)
qed

lemma instrumented_traces:
  assumes "instrumented m m1" and "instrumented m1 m2" and "traces K m m1" and "traces K m1 m2"
  shows "traces K m m2"
  by (rule traces_trans [OF assms(3,4)]) (use assms(1,2) in \<open>simp_all add: instrumented_def\<close>)

lemma instrumented_hooks: "hooks_ok m H \<Longrightarrow> instrumented m m' \<Longrightarrow> hooks_ok m' H"
proof -
  assume ok: "hooks_ok m H" and g: "instrumented m m'"
  have s: "same_value m m' h" if "hook_ok m h" for h
    using that g by (simp add: instrumented_def hook_ok_def)
  have "getName m' h = getName m h" if "hook_ok m h" for h
    using s [OF that] by (simp add: same_value_def)
  moreover have "hook_ok m' h" if "hook_ok m h" for h using hook_ok_same [OF that s [OF that]] .
  ultimately show "hooks_ok m' H" using ok by (simp add: hooks_ok_def)
qed

lemma instrumented_length:
  assumes "instrumented m m'" shows "length (blocks m' F) = length (blocks m F)"
proof -
  have "list_all2 (\<lambda>B B'. filter (\<lambda>x. x < next_vid m) B' = B) (blocks m F) (blocks m' F)"
    using assms by (simp add: instrumented_def)
  then show ?thesis by (simp add: list_all2_lengthD)
qed

context llvm
begin

lemma walk_blocks_returns:
  assumes "ir_wf m" and "hooks_ok m H" and "\<forall>b \<in> set bs. b < length (blocks m F)"
  shows "\<exists>m' st'. walk_blocks LL cfg H F bs (m, st) = Some (m', st') \<and> instrumented m m' \<and> traces (growth_of LL H) m m'"
  using assms
proof (induction bs arbitrary: m st)
  case Nil
  then show ?case by (simp add: instrumented_refl traces_refl)
next
  case (Cons b bs)
  have "\<forall>x \<in> set (blocks m F ! b). x < next_vid m" using ir_wfD(7) [OF Cons.prems(1), of "blocks m F ! b" F] Cons.prems(3) by simp
  then have "walk_inv H F b (next_vid m) (fst (m, st)) (blocks m F ! b)"
    using Cons.prems by (fastforce simp: walk_inv_def)
  from walk_block_returns [OF this, of cfg] obtain m1 st1 where 1:
      "walk_block LL cfg H F b (blocks m F ! b) (m, st) = Some (m1, st1)" "instrumented m m1" "hooks_ok m1 H" "traces (growth_of LL H) m m1"
    unfolding instrumented_def by auto
  have "ir_wf m1" using 1(2) by (simp add: instrumented_def)
  moreover have "\<forall>b \<in> set bs. b < length (blocks m1 F)"
    using Cons.prems(3) instrumented_length [OF 1(2), of F] by simp
  ultimately obtain m' st' where "walk_blocks LL cfg H F bs (m1, st1) = Some (m', st')" "instrumented m1 m'" "traces (growth_of LL H) m1 m'"
    using Cons.IH [OF _ 1(3)] by blast
  with 1(1) instrumented_trans [OF 1(2)] instrumented_traces [OF 1(2) _ 1(4)] show ?case by simp
qed

lemma run_functions_returns:
  assumes "ir_wf m" and "hooks_ok m H"
  shows "\<exists>m' st'. run_functions LL cfg H Fs (m, st) = Some (m', st') \<and> instrumented m m' \<and> traces (growth_of LL H) m m'"
  using assms
proof (induction Fs arbitrary: m st)
  case Nil
  then show ?case by (simp add: instrumented_refl traces_refl)
next
  case (Cons F Fs)
  let ?st = "optimizer LL m F st"
  show ?case
  proof (cases "blocks m F = [] \<or> getName m F \<in> set avoidList \<or> getName m F \<in> set (optimizedList ?st)")
    case True
    then show ?thesis using Cons.IH [OF Cons.prems] by (auto simp: Let_def)
  next
    case False
    have "\<forall>b \<in> set [0..<length (blocks m F)]. b < length (blocks m F)" by simp
    from walk_blocks_returns [OF Cons.prems this, of cfg ?st] obtain m1 st1
      where 1: "walk_blocks LL cfg H F [0..<length (blocks m F)] (m, ?st) = Some (m1, st1)" "instrumented m m1" "traces (growth_of LL H) m m1"
      by blast
    have "ir_wf m1" using 1(2) by (simp add: instrumented_def)
    then obtain m' st' where "run_functions LL cfg H Fs (m1, st1) = Some (m', st')" "instrumented m1 m'" "traces (growth_of LL H) m1 m'"
      using Cons.IH [OF _ instrumented_hooks [OF Cons.prems(2) 1(2)]] by blast
    with 1(1) False instrumented_trans [OF 1(2)] instrumented_traces [OF 1(2) _ 1(3)] show ?thesis by (simp add: Let_def)
  qed
qed

end

end
