(* ===== verification/PT_Replace.thy ===== *)
theory PT_Replace imports PT_Driver begin

text \<open>
  \<open>replaceFuncionWith\<close>: replacing \<open>malloc\<close> and its kin by the runtime library's functions.
  When a function is only ever called directly, the loop over its uses ends, no use is left and
  the instructions of the module are what they were up to the function called; when the
  function is passed as an argument, the loop never ends.
\<close>

section \<open>Erasing an instruction\<close>

lemma list_all2_cong_left:
  "list_all2 P xs ys \<Longrightarrow> (\<And>x y. x \<in> set xs \<Longrightarrow> P x y \<Longrightarrow> Q x y) \<Longrightarrow> list_all2 Q xs ys"
  by (induction xs ys rule: list_all2_induct) auto

lemma info_erase: "info (erase_inst c m) v = (if v = c then null_info else info m v)"
  by (simp add: info_def erase_inst_def)

lemma vals_erase: "vals (erase_inst c m) v = (if v = c then None else vals m v)"
  by (simp add: erase_inst_def)

lemma subst_id: "c \<notin> set xs \<Longrightarrow> map (\<lambda>z. if z = c then n else z) xs = xs"
  by (induction xs) auto

lemma no_use_no_operand:
  assumes "ir_wf m" and "uses m c = []" shows "c \<notin> set (operands m v)"
proof
  assume "c \<in> set (operands m v)"
  then obtain i where "i < length (operands m v)" "operands m v ! i = c" by (auto simp: in_set_conv_nth)
  then have "use_of m (Use v i) c" by (simp add: use_of_def)
  then show False using ir_wfD(1) [OF assms(1), of "Use v i" c] assms(2) by simp
qed

lemma ir_wf_erase:
  assumes wf: "ir_wf m" and c: "uses m c = []"
  shows "ir_wf (erase_inst c m)"
proof -
  let ?m = "erase_inst c m"
  have "u \<in> set (uses ?m v) \<longleftrightarrow> use_of ?m u v" for u v
    using ir_wfD(1) [OF wf, of u v] by (auto simp: use_of_def info_erase null_info_def) (auto simp: erase_inst_def)
  moreover have "vals ?m x \<noteq> None" if "x \<in> set (operands ?m v)" for x v
    using that ir_wfD(5) [OF wf, of x v] no_use_no_operand [OF wf c, of v]
    by (auto simp: info_erase null_info_def vals_erase split: if_splits)
  moreover have "arity_ok (kind ?m v) (length (operands ?m v))" for v
    using ir_wfD(10) [OF wf, of v] by (simp add: info_erase null_info_def)
  moreover have "distinct B \<and> (\<forall>x \<in> set B. vals ?m x \<noteq> None)" if B: "B \<in> set (blocks ?m f)" for B f
  proof -
    obtain C where C: "C \<in> set (blocks m f)" "B = removeAll c C"
      using B by (auto simp: erase_inst_def)
    then show ?thesis
      using ir_wfD(8,9) [OF wf C(1)] by (auto simp: erase_inst_def distinct_removeAll)
  qed
  ultimately show ?thesis
    using wf unfolding ir_wf_def by (auto simp: erase_inst_def)
qed

lemma insert_remove:
  "distinct B \<Longrightarrow> n \<notin> set B \<Longrightarrow> n \<noteq> c \<Longrightarrow>
   removeAll c (insert_before c n B) = map (\<lambda>x. if x = c then n else x) B"
  by (induction B) (auto simp: subst_id)

section \<open>One replaced call\<close>

lemma operand_user_defined': "i < length (operands m u) \<Longrightarrow> vals m u \<noteq> None"
  by (cases "vals m u") (auto simp: operands_None)

lemma push_uses_append:
  "push_uses n i (vs @ ws) U = push_uses n (i + length vs) ws (push_uses n i vs U)"
  by (induction vs arbitrary: i U) simp_all

lemma push_uses_other: "v \<notin> set vs \<Longrightarrow> push_uses n i vs U v = U v"
  by (induction vs arbitrary: i U) (auto simp: push_use_def)

text \<open>What is kept of an instruction: class, type, number of operands, function called.\<close>

definition shape :: "ir \<Rightarrow> vid \<Rightarrow> kind \<times> ty \<times> nat \<times> vid option" where
  "shape m x = (kind m x, getType m x, length (operands m x),
     if kind m x = Call then getCalledFunction m x else None)"

definition subst_callee :: "vid \<Rightarrow> vid \<Rightarrow> kind \<times> ty \<times> nat \<times> vid option \<Rightarrow> kind \<times> ty \<times> nat \<times> vid option" where
  "subst_callee f g = (\<lambda>(k, t, n, c). (k, t, n, if c = Some f then Some g else c))"

definition same_stream :: "vid \<Rightarrow> vid \<Rightarrow> ir \<Rightarrow> ir \<Rightarrow> bool" where
  "same_stream f g m m' \<longleftrightarrow>
     (\<forall>h. list_all2 (\<lambda>B B'. map (subst_callee f g \<circ> shape m') B' = map (subst_callee f g \<circ> shape m) B)
        (blocks m h) (blocks m' h))"

text \<open>
  A function whose every use is the called value of a call of its type.
\<close>

definition direct_calls :: "ir \<Rightarrow> vid \<Rightarrow> bool" where
  "direct_calls m f \<longleftrightarrow> (\<forall>u \<in> set (uses m f). kind m (getUser u) = Call \<and>
     getOperandNo u = getNumArgOperands m (getUser u) \<and> getType m (getUser u) = return_type (getType m f))"

lemma getCalledFunction_use:
  assumes "ir_wf m" and "direct_calls m f" and "u \<in> set (uses m f)" and "isFunction (kind m f)"
  shows "getCalledFunction m (getUser u) = Some f" "f \<notin> set (take (getNumArgOperands m (getUser u)) (operands m (getUser u)))"
proof -
  let ?c = "getUser u"
  have u: "use_of m u f" "getOperandNo u = getNumArgOperands m ?c"
    using assms by (auto simp: ir_wfD(1) direct_calls_def)
  then show "getCalledFunction m ?c = Some f"
    using assms(4) by (auto simp: getCalledFunction_def getOperand_def use_of_def getNumArgOperands_def)
  show "f \<notin> set (take (getNumArgOperands m ?c) (operands m ?c))"
  proof
    assume "f \<in> set (take (getNumArgOperands m ?c) (operands m ?c))"
    then obtain i where i: "i < getNumArgOperands m ?c" "i < length (operands m ?c)" "operands m ?c ! i = f"
      by (auto simp: in_set_conv_nth)
    then have "Use ?c i \<in> set (uses m f)" using ir_wfD(1) [OF assms(1)] by (simp add: use_of_def)
    then have "i = getNumArgOperands m ?c" using assms(2) unfolding direct_calls_def by fastforce
    with i(1) show False by simp
  qed
qed

text \<open>Without uses left, no call of the function is.\<close>

lemma no_use_no_call: "ir_wf m \<Longrightarrow> uses m f = [] \<Longrightarrow> kind m x = Call \<Longrightarrow> getCalledFunction m x \<noteq> Some f"
proof
  assume wf: "ir_wf m" and u: "uses m f = []" and k: "kind m x = Call" and c: "getCalledFunction m x = Some f"
  have "operands m x \<noteq> []" using ir_wfD(10) [OF wf, of x] k by auto
  then have "f \<in> set (operands m x)"
    using c by (auto simp: getCalledFunction_def getOperand_def Let_def split: if_splits)
  with no_use_no_operand [OF wf u] show False by blast
qed

context llvm
begin

text \<open>The three steps of a round, without and with the replacing of the call's own uses.\<close>

lemma replace_call_parts:
  assumes wf: "ir_wf m" and c: "kind m c = Call" and NF: "vals m NF \<noteq> None" and m': "m' = replace_call LL NF c m"
  defines "New \<equiv> next_vid m"
  defines "args \<equiv> take (getNumArgOperands m c) (operands m c)"
  shows "ir_wf m'" "next_vid m' = Suc New" "getFunctionList m' = getFunctionList m"
    "blocks m' = (\<lambda>h. map (map (\<lambda>x. if x = c then New else x)) (blocks m h))"
    "vals m' c = None"
    "x \<noteq> c \<Longrightarrow> x \<noteq> New \<Longrightarrow> vals m' x =
       map_option (\<lambda>y. y\<lparr>ops_of := map (\<lambda>z. if z = c then New else z) (ops_of y)\<rparr>) (vals m x)"
    "info m' New = \<lparr>kind_of = Call, type_of = return_type (getType m NF), name_of = [],
       ops_of = map (\<lambda>z. if z = c then New else z) (args @ [NF])\<rparr>"
    "f \<noteq> c \<Longrightarrow> f \<noteq> New \<Longrightarrow> uses m' f = filter (\<lambda>u. getUser u \<noteq> c) (push_uses New 0 (args @ [NF]) (uses m) f)"
proof -
  let ?nv = "snd (new_value Call (return_type (getType m NF)) [] (args @ [NF]) m)"
  define m1 where "m1 = InsertHelper New c ?nv"
  define m2 where "m2 = (if uses m1 c \<noteq> [] then ll_replaceAllUsesWith LL c New m1 else m1)"
  have rc: "m' = erase_inst c m2"
    unfolding m' m2_def m1_def New_def args_def by (simp add: replace_call_def CreateCall_def new_value_def Let_def)
  have cv: "vals m c \<noteq> None" using c by (cases "vals m c") (auto simp: info_def null_info_def)
  have cn: "c < New" using cv ir_wfD(4) [OF wf, of c] by (auto simp: New_def)
  have fresh: "\<And>h B. B \<in> set (blocks m h) \<Longrightarrow> New \<notin> set B" using ir_wfD(7) [OF wf] by (fastforce simp: New_def)
  have "\<forall>v \<in> set (args @ [NF]). vals m v \<noteq> None"
    using ir_wfD(5) [OF wf, of _ c] NF by (auto simp: args_def dest: in_set_takeD)
  then have wf1: "ir_wf m1"
    unfolding m1_def by (intro ir_wf_InsertHelper ir_wf_new_value wf) (auto simp: New_def vals_new_value dest: fresh [unfolded New_def])
  have i1: "info m1 v = (if v = New then \<lparr>kind_of = Call, type_of = return_type (getType m NF), name_of = [],
      ops_of = args @ [NF]\<rparr> else info m v)" for v
    by (simp add: m1_def info_new_value New_def)
  have v1: "vals m1 v = (if v = New then Some \<lparr>kind_of = Call, type_of = return_type (getType m NF), name_of = [],
      ops_of = args @ [NF]\<rparr> else vals m v)" for v
    by (simp add: m1_def vals_new_value New_def)
  have u1: "uses m1 = push_uses New 0 (args @ [NF]) (uses m)"
    by (simp add: m1_def new_value_def New_def Let_def)
  have b1: "blocks m1 = (\<lambda>h. map (insert_before c New) (blocks m h))" by (simp add: m1_def InsertHelper_def)
  have n1: "next_vid m1 = Suc New" "getFunctionList m1 = getFunctionList m"
    by (simp_all add: m1_def New_def)
  have 2: "ir_wf m2 \<and> next_vid m2 = Suc New \<and> blocks m2 = blocks m1 \<and> getFunctionList m2 = getFunctionList m \<and>
      (\<forall>x. vals m2 x = map_option (\<lambda>y. y\<lparr>ops_of := map (\<lambda>z. if z = c then New else z) (ops_of y)\<rparr>) (vals m1 x)) \<and>
      (\<forall>x. x \<noteq> c \<longrightarrow> x \<noteq> New \<longrightarrow> uses m2 x = uses m1 x) \<and> uses m2 c = []"
  proof (cases "uses m1 c = []")
    case True
    have id: "map (\<lambda>z. if z = c then New else z) (ops_of y) = ops_of y" if "vals m1 x = Some y" for x y
      using no_use_no_operand [OF wf1 True, of x] that by (auto simp: info_def subst_id)
    have "vals m1 x = map_option (\<lambda>y. y\<lparr>ops_of := map (\<lambda>z. if z = c then New else z) (ops_of y)\<rparr>) (vals m1 x)" for x
      using id [of x] by (cases "vals m1 x") auto
    with True wf1 n1 show ?thesis by (simp add: m2_def)
  next
    case False
    then have m2: "m2 = ll_replaceAllUsesWith LL c New m1" by (simp add: m2_def)
    have law: "ir_wf m2 \<and> next_vid m2 = next_vid m1 \<and> blocks m2 = blocks m1 \<and> getFunctionList m2 = getFunctionList m1 \<and>
      (\<forall>x. vals m2 x = map_option (\<lambda>y. y\<lparr>ops_of := map (\<lambda>z. if z = c then New else z) (ops_of y)\<rparr>) (vals m1 x)) \<and>
      (\<forall>x. x \<noteq> c \<longrightarrow> x \<noteq> New \<longrightarrow> uses m2 x = uses m1 x)"
      using cn cv by (intro rauw_law [OF wf1 _ _ _ m2]) (auto simp: v1)
    have "u \<notin> set (uses m2 c)" for u
    proof
      assume "u \<in> set (uses m2 c)"
      then have "use_of m2 u c" using law ir_wfD(1) by blast
      then have "c \<in> set (operands m2 (getUser u))" by (auto simp: use_of_def in_set_conv_nth)
      moreover have "operands m2 v = map (\<lambda>z. if z = c then New else z) (operands m1 v)" for v
        using law by (cases "vals m1 v") (auto simp: info_def null_info_def)
      ultimately show False using cn by auto
    qed
    then have "uses m2 c = []" by (metis last_in_set)
    with law n1 show ?thesis by simp
  qed
  show "ir_wf m'" unfolding rc using 2 by (intro ir_wf_erase) auto
  show "next_vid m' = Suc New" "getFunctionList m' = getFunctionList m" "vals m' c = None"
    using 2 by (simp_all add: rc erase_inst_def)
  have "removeAll c (insert_before c New B) = map (\<lambda>x. if x = c then New else x) B" if "B \<in> set (blocks m h)" for B h
    using ir_wfD(9) [OF wf that] fresh [OF that] cn by (intro insert_remove) auto
  then show "blocks m' = (\<lambda>h. map (map (\<lambda>x. if x = c then New else x)) (blocks m h))"
    using 2 b1 by (auto simp: rc erase_inst_def fun_eq_iff)
  show "vals m' x = map_option (\<lambda>y. y\<lparr>ops_of := map (\<lambda>z. if z = c then New else z) (ops_of y)\<rparr>) (vals m x)"
    if "x \<noteq> c" "x \<noteq> New" for x
    using 2 that by (simp add: rc erase_inst_def v1)
  show "info m' New = \<lparr>kind_of = Call, type_of = return_type (getType m NF), name_of = [],
       ops_of = map (\<lambda>z. if z = c then New else z) (args @ [NF])\<rparr>"
    using 2 cn by (simp add: rc erase_inst_def info_def v1)
  show "uses m' f = filter (\<lambda>u. getUser u \<noteq> c) (push_uses New 0 (args @ [NF]) (uses m) f)"
    if "f \<noteq> c" "f \<noteq> New" for f
    using 2 that u1 by (simp add: rc erase_inst_def)
qed

lemma replace_step:
  assumes wf: "ir_wf m" and dc: "direct_calls m f" "direct_calls m NF" and fs: "isFunction (kind m f)" "isFunction (kind m NF)"
    and ne: "f \<noteq> NF" and t: "getType m NF = getType m f" and u: "uses m f \<noteq> []"
  defines "c \<equiv> list_user_back m f" and "m' \<equiv> replace_call LL NF (list_user_back m f) m"
  shows "kind m c = Call" "ir_wf m'" "direct_calls m' f" "direct_calls m' NF"
    "isFunction (kind m' f)" "isFunction (kind m' NF)" "getType m' NF = getType m' f"
    "length (uses m' NF) = Suc (length (uses m NF))" "length (uses m f) = Suc (length (uses m' f))"
    "same_stream f NF m m'" "getFunctionList m' = getFunctionList m"
    "v \<noteq> c \<Longrightarrow> kind m v \<noteq> NullVal \<Longrightarrow> getName m' v = getName m v \<and> kind m' v = kind m v"
proof -
  let ?New = "next_vid m" and ?k = "getNumArgOperands m c"
  let ?args = "take ?k (operands m c)"
  obtain x xs where ux: "uses m f = x # xs" using u by (cases "uses m f") auto
  have cx: "getUser x = c" by (simp add: c_def list_user_back_def ux)
  have xin: "x \<in> set (uses m f)" using ux by simp
  then have c: "kind m c = Call" and no: "getOperandNo x = ?k" and ct: "getType m c = return_type (getType m f)"
    using dc(1) cx by (auto simp: direct_calls_def)
  show "kind m c = Call" by (rule c)
  have cf: "getCalledFunction m c = Some f" "f \<notin> set ?args"
    using getCalledFunction_use [OF wf dc(1) xin fs(1)] cx by simp_all
  have vals: "vals m f \<noteq> None" "vals m NF \<noteq> None" "vals m c \<noteq> None"
    using fs c by (auto simp: info_def null_info_def split: option.splits)
  have ne2: "f \<noteq> c" "NF \<noteq> c" using fs c by auto
  have nn: "f \<noteq> ?New" "NF \<noteq> ?New" "c \<noteq> ?New" using vals fresh_unused(1) [OF wf] by auto
  note parts = replace_call_parts [OF wf c vals(2) refl, folded c_def]
  have mm: "m' = replace_call LL NF c m" by (simp add: m'_def c_def)
  show wf': "ir_wf m'" "getFunctionList m' = getFunctionList m" using parts(1,3) by (simp_all add: mm)
  have info: "info m' v = (info m v)\<lparr>ops_of := map (\<lambda>z. if z = c then ?New else z) (operands m v)\<rparr>"
    if "v \<noteq> c" "vals m v \<noteq> None" for v
  proof -
    have "v \<noteq> ?New" using that(2) fresh_unused(1) [OF wf] by auto
    then show ?thesis using parts(6) [OF that(1)] that(2) by (auto simp: mm info_def)
  qed
  then have kt: "kind m' v = kind m v" "getType m' v = getType m v" "getName m' v = getName m v"
      "length (operands m' v) = length (operands m v)" if "v \<noteq> c" "vals m v \<noteq> None" for v
    using that by simp_all
  show fs': "isFunction (kind m' f)" "isFunction (kind m' NF)" "getType m' NF = getType m' f"
    using kt [OF ne2(1) vals(1)] kt [OF ne2(2) vals(2)] fs t by simp_all
  show "getName m' v = getName m v \<and> kind m' v = kind m v" if "v \<noteq> c" "kind m v \<noteq> NullVal"
  proof -
    have "vals m v \<noteq> None" using that(2) by (auto simp: info_def null_info_def split: option.splits)
    then show ?thesis using kt(1,3) [OF that(1)] by simp
  qed
  have kn: "?k < length (operands m c)" using xin ir_wfD(1) [OF wf] cx no by (auto simp: use_of_def)
  then have la: "length ?args = ?k" by simp
  have argNF: "NF \<notin> set ?args"
  proof
    assume "NF \<in> set ?args"
    then obtain i where i: "i < ?k" "i < length (operands m c)" "operands m c ! i = NF" by (auto simp: in_set_conv_nth)
    then have "Use c i \<in> set (uses m NF)" using ir_wfD(1) [OF wf] by (simp add: use_of_def)
    then have "i = ?k" using dc(2) unfolding direct_calls_def by fastforce
    with i(1) show False by simp
  qed
  have notc: "getUser w \<noteq> c" if "w \<in> set (uses m NF)" for w
    using getCalledFunction_use(1) [OF wf dc(2) that fs(2)] cf(1) ne by auto
  have push: "push_uses ?New 0 (?args @ [NF]) U v = (if v = NF then Use ?New ?k # U v else U v)"
    if "v \<notin> set ?args" for U v
  proof -
    have "push_uses ?New 0 (?args @ [NF]) U = push_use (Use ?New ?k) (Some NF) (push_uses ?New 0 ?args U)"
      using la by (simp only: push_uses_append push_uses.simps add_0)
    then show ?thesis using push_uses_other [OF that, of ?New 0 U] by (auto simp: push_use_def)
  qed
  have uf: "uses m' f = filter (\<lambda>w. getUser w \<noteq> c) (uses m f)"
    using parts(8) [OF ne2(1) nn(1)] push [OF cf(2)] ne by (simp add: mm)
  have uNF: "uses m' NF = Use ?New ?k # uses m NF"
    using parts(8) [OF ne2(2) nn(2)] push [OF argNF] nn(3) notc by (auto simp: mm filter_id_conv)
  show "length (uses m' NF) = Suc (length (uses m NF))" by (simp add: uNF)
  have "w = x" if "w \<in> set (uses m f)" "getUser w = c" for w
  proof (rule use.expand)
    have "getOperandNo w = ?k" using that dc(1) unfolding direct_calls_def by blast
    then show "getUser w = getUser x \<and> getOperandNo w = getOperandNo x" using that(2) cx no by simp
  qed
  then have "filter (\<lambda>w. getUser w \<noteq> c) xs = xs"
    using ux ir_wfD(2) [OF wf, of f] by (auto simp: filter_id_conv)
  then show "length (uses m f) = Suc (length (uses m' f))" using uf ux cx by simp
  have other: "kind m' (getUser w) = kind m (getUser w) \<and> getType m' (getUser w) = getType m (getUser w) \<and>
      getNumArgOperands m' (getUser w) = getNumArgOperands m (getUser w)" if "w \<in> set (uses m g)" "getUser w \<noteq> c" for w g
  proof -
    have "use_of m w g" using that(1) ir_wfD(1) [OF wf] by blast
    then have "vals m (getUser w) \<noteq> None"
      using operand_user_defined' [of "getOperandNo w" m "getUser w"] by (simp add: use_of_def)
    with that(2) show ?thesis using kt [of "getUser w"] by (simp add: getNumArgOperands_def)
  qed
  show "direct_calls m' f"
    unfolding direct_calls_def uf
    using dc(1) other [of _ f] kt(2) [OF ne2(1) vals(1)] by (auto simp: direct_calls_def)
  have new: "kind m' ?New = Call" "getType m' ?New = return_type (getType m NF)" "getNumArgOperands m' ?New = ?k"
      "operands m' ?New = map (\<lambda>z. if z = c then ?New else z) (?args @ [NF])"
    using parts(7) la by (simp_all add: mm getNumArgOperands_def)
  show "direct_calls m' NF"
    unfolding direct_calls_def uNF
    using dc(2) other [of _ NF] notc kt(2) [OF ne2(2) vals(2)] new by (auto simp: direct_calls_def)
  have shp: "shape m' v = shape m v" if "v \<noteq> c" "vals m v \<noteq> None" for v
  proof -
    have "getCalledFunction m' v = getCalledFunction m v" if call: "kind m v = Call"
    proof -
      let ?i = "length (operands m v) - 1"
      have ops: "operands m v \<noteq> []" using ir_wfD(10) [OF wf, of v] call by auto
      let ?o = "operands m v ! ?i"
      have o: "getOperand m v ?i = ?o" "getOperand m' v ?i = (if ?o = c then ?New else ?o)"
        using ops info [OF \<open>v \<noteq> c\<close> \<open>vals m v \<noteq> None\<close>] by (auto simp: getOperand_def)
      have ov: "vals m ?o \<noteq> None" using ops ir_wfD(5) [OF wf, of ?o v] by simp
      show ?thesis
      proof (cases "?o = c")
        case True
        with o c new(1) show ?thesis using kt(4) [OF \<open>v \<noteq> c\<close> \<open>vals m v \<noteq> None\<close>] by (simp add: getCalledFunction_def)
      next
        case False
        with o kt(1) [OF False ov] show ?thesis
          using kt(4) [OF \<open>v \<noteq> c\<close> \<open>vals m v \<noteq> None\<close>] by (simp add: getCalledFunction_def)
      qed
    qed
    then show ?thesis using kt [OF that] by (simp add: shape_def)
  qed
  have "getCalledFunction m' ?New = Some NF"
    using new(4) ne2(2) la fs'(2) by (simp add: getCalledFunction_def getOperand_def nth_append)
  then have "subst_callee f NF (shape m' ?New) = subst_callee f NF (shape m c)"
    using new la kn c cf(1) ct t by (simp add: shape_def subst_callee_def getNumArgOperands_def)
  moreover have "subst_callee f NF (shape m' v) = subst_callee f NF (shape m v)" if "B \<in> set (blocks m h)" "v \<in> set B" "v \<noteq> c" for v B h
    using shp [OF that(3) ir_wfD(8) [OF wf that(1,2)]] by simp
  ultimately show "same_stream f NF m m'"
    using parts(4) by (auto simp: same_stream_def mm list_all2_map2 list_all2_same)
qed

text \<open>The loop ends after one round per call.\<close>

lemma same_stream_refl: "same_stream f g m m"
  by (simp add: same_stream_def list_all2_same)

lemma same_stream_trans: "same_stream f g m m1 \<Longrightarrow> same_stream f g m1 m2 \<Longrightarrow> same_stream f g m m2"
  unfolding same_stream_def by (blast intro: list_all2_trans [rotated 1] trans)

lemma replace_loop_returns:
  assumes "ir_wf m" and "direct_calls m f" and "direct_calls m NF" and "isFunction (kind m f)" and "isFunction (kind m NF)"
    and "f \<noteq> NF" and "getType m NF = getType m f"
  shows "\<exists>m'. replace_loop LL f NF m = Some (Inr m') \<and> ir_wf m' \<and> uses m' f = [] \<and>
    length (uses m' NF) = length (uses m NF) + length (uses m f) \<and> same_stream f NF m m' \<and>
    getFunctionList m' = getFunctionList m"
  using assms
proof (induction "length (uses m f)" arbitrary: m)
  case 0
  then show ?case by (subst replace_loop.simps) (auto simp: same_stream_refl)
next
  case (Suc n)
  then have u: "uses m f \<noteq> []" by auto
  let ?m1 = "replace_call LL NF (list_user_back m f) m"
  note step = replace_step [OF Suc.prems u]
  have "n = length (uses ?m1 f)" using step(9) Suc.hyps(2) by simp
  from Suc.hyps(1) [OF this step(2-6) Suc.prems(6) step(7)] obtain m' where m':
      "replace_loop LL f NF ?m1 = Some (Inr m')" "ir_wf m'" "uses m' f = []"
      "length (uses m' NF) = length (uses ?m1 NF) + length (uses ?m1 f)" "same_stream f NF ?m1 m'"
      "getFunctionList m' = getFunctionList ?m1"
    by blast
  have "replace_loop LL f NF m = Some (Inr m')"
    using m'(1) u step(1) by (subst replace_loop.simps) simp
  moreover have "length (uses m' NF) = length (uses m NF) + length (uses m f)"
    using m'(4) step(8,9) by simp
  ultimately show ?case
    using m' step(11) same_stream_trans [OF step(10) m'(5)] by auto
qed

lemma replaceFuncionWith_returns:
  assumes wf: "ir_wf m" and dc: "direct_calls m f" and f: "isFunction (kind m f)"
  defines "NF \<equiv> next_vid m"
  shows "\<exists>m'. replaceFuncionWith LL f nm m = Some (Inr m') \<and> ir_wf m' \<and> uses m' f = [] \<and>
    length (uses m' NF) = length (uses m f) \<and> getFunctionList m' = insert_before f NF (getFunctionList m) \<and>
    (\<forall>h. list_all2 (\<lambda>B B'. map (subst_callee f NF \<circ> shape m') B' = map (subst_callee f NF \<circ> shape m) B)
      (blocks m h) (blocks m' h))"
proof -
  let ?nv = "snd (new_value (Function True) (getType m f) nm [] m)"
  define m1 where "m1 = ?nv\<lparr>getFunctionList := insert_before f NF (getFunctionList ?nv)\<rparr>"
  have fv: "vals m f \<noteq> None" using f by (auto simp: info_def null_info_def split: option.splits)
  then have fn: "f \<noteq> NF" using fresh_unused(1) [OF wf] by (auto simp: NF_def)
  have i1: "info m1 v = (if v = NF then \<lparr>kind_of = Function True, type_of = getType m f, name_of = nm, ops_of = []\<rparr>
      else info m v)" for v
    by (simp add: m1_def info_def new_value_def NF_def Let_def)
  have u1: "uses m1 = uses m" "blocks m1 = blocks m" by (simp_all add: m1_def new_value_def Let_def)
  have wn: "ir_wf ?nv" using wf by (intro ir_wf_new_value) auto
  have wf1: "ir_wf m1"
    using wn unfolding ir_wf_def m1_def by (simp add: use_of_def info_def)
  have users: "getUser u \<noteq> NF" if "u \<in> set (uses m g)" for u g
  proof -
    have "use_of m u g" using that ir_wfD(1) [OF wf] by blast
    then have "vals m (getUser u) \<noteq> None"
      using operand_user_defined' [of "getOperandNo u" m "getUser u"] by (simp add: use_of_def)
    then show ?thesis using fresh_unused(1) [OF wf] by (auto simp: NF_def)
  qed
  have "direct_calls m1 f"
    using dc users fn by (auto simp: direct_calls_def u1 i1 getNumArgOperands_def)
  moreover have "uses m1 NF = []" using fresh_unused(2) [OF wf] by (simp add: u1 NF_def)
  moreover from this have "direct_calls m1 NF" by (simp add: direct_calls_def)
  ultimately obtain m' where m': "replace_loop LL f NF m1 = Some (Inr m')" "ir_wf m'" "uses m' f = []"
      "length (uses m' NF) = length (uses m f)" "same_stream f NF m1 m'" "getFunctionList m' = getFunctionList m1"
    using replace_loop_returns [OF wf1, of f NF] f fn by (auto simp: i1 u1)
  have shp: "shape m1 x = shape m x" if x: "B \<in> set (blocks m h)" "x \<in> set B" for B h x
  proof -
    have "x \<noteq> NF" using ir_wfD(8) [OF wf x] fresh_unused(1) [OF wf] by (auto simp: NF_def)
    moreover have "getOperand m x (length (operands m x) - 1) \<noteq> NF" if "kind m x = Call"
    proof -
      have "operands m x \<noteq> []" using ir_wfD(10) [OF wf, of x] that by auto
      then have "vals m (getOperand m x (length (operands m x) - 1)) \<noteq> None" by (intro getOperand_defined [OF wf]) simp
      then show ?thesis using fresh_unused(1) [OF wf] by (auto simp: NF_def)
    qed
    ultimately show ?thesis
      by (auto simp: shape_def i1 getCalledFunction_def getOperand_def Let_def)
  qed
  have "list_all2 (\<lambda>B B'. map (subst_callee f NF \<circ> shape m') B' = map (subst_callee f NF \<circ> shape m) B) (blocks m h) (blocks m' h)" for h
  proof -
    have "list_all2 (\<lambda>B B'. map (subst_callee f NF \<circ> shape m') B' = map (subst_callee f NF \<circ> shape m1) B) (blocks m h) (blocks m' h)"
      using m'(5) by (simp add: same_stream_def u1)
    then show ?thesis
      by (rule list_all2_cong_left) (use shp in auto)
  qed
  moreover have "replaceFuncionWith LL f nm m = replace_loop LL f NF m1"
    by (simp add: replaceFuncionWith_def m1_def new_value_def NF_def Let_def)
  moreover have "getFunctionList m1 = insert_before f NF (getFunctionList m)" by (simp add: m1_def)
  ultimately show ?thesis using m' by auto
qed

end

text \<open>A function passed as an argument: there is always another use.\<close>

definition escapes :: "ir \<Rightarrow> vid \<Rightarrow> bool" where
  "escapes m f \<longleftrightarrow> (\<forall>u \<in> set (uses m f). kind m (getUser u) = Call) \<and>
     (\<exists>u \<in> set (uses m f). getOperandNo u < getNumArgOperands m (getUser u))"

context llvm
begin

lemma escape_step:
  assumes wf: "ir_wf m" and esc: "escapes m f" and fs: "isFunction (kind m f)" "isFunction (kind m NF)" and ne: "f \<noteq> NF"
  defines "m' \<equiv> replace_call LL NF (list_user_back m f) m"
  shows "ir_wf m'" "escapes m' f" "isFunction (kind m' f)" "isFunction (kind m' NF)" "uses m f \<noteq> []"
    "kind m (list_user_back m f) = Call"
proof -
  let ?New = "next_vid m"
  obtain u where u: "u \<in> set (uses m f)" "getOperandNo u < getNumArgOperands m (getUser u)"
    using esc by (auto simp: escapes_def)
  show "uses m f \<noteq> []" using u(1) by auto
  then obtain x xs where ux: "uses m f = x # xs" by (cases "uses m f") auto
  define c where "c = list_user_back m f"
  have c: "kind m c = Call" using esc ux by (simp add: escapes_def c_def list_user_back_def)
  then show "kind m (list_user_back m f) = Call" by (simp add: c_def)
  have mm: "m' = replace_call LL NF c m" by (simp add: m'_def c_def)
  have vals: "vals m f \<noteq> None" "vals m NF \<noteq> None" "vals m c \<noteq> None"
    using fs c by (auto simp: info_def null_info_def split: option.splits)
  have ne2: "f \<noteq> c" "NF \<noteq> c" using fs c by auto
  have nn: "f \<noteq> ?New" "NF \<noteq> ?New" "c \<noteq> ?New" using vals fresh_unused(1) [OF wf] by auto
  note parts = replace_call_parts [OF wf c vals(2) mm]
  let ?args = "take (getNumArgOperands m c) (operands m c)"
  have kt: "kind m' v = kind m v" "length (operands m' v) = length (operands m v)" if "v \<noteq> c" "vals m v \<noteq> None" for v
  proof -
    have "v \<noteq> ?New" using that(2) fresh_unused(1) [OF wf] by auto
    then show "kind m' v = kind m v" "length (operands m' v) = length (operands m v)"
      using parts(6) [OF that(1)] that(2) by (auto simp: info_def)
  qed
  show "ir_wf m'" by (rule parts(1))
  show "isFunction (kind m' f)" "isFunction (kind m' NF)"
    using kt(1) [OF ne2(1) vals(1)] kt(1) [OF ne2(2) vals(2)] fs by simp_all
  have la: "length ?args = getNumArgOperands m c" by (simp add: getNumArgOperands_def)
  have new: "kind m' ?New = Call" "getNumArgOperands m' ?New = getNumArgOperands m c"
    using parts(7) la by (simp_all add: getNumArgOperands_def)
  have uf: "w \<in> set (uses m' f) \<longleftrightarrow> getUser w \<noteq> c \<and>
      (w \<in> set (uses m f) \<or> (\<exists>j < getNumArgOperands m c. w = Use ?New j \<and> ?args ! j = f))" for w
  proof -
    have "(\<exists>j < length (?args @ [NF]). w = Use ?New (0 + j) \<and> (?args @ [NF]) ! j = f) \<longleftrightarrow>
        (\<exists>j < length ?args. w = Use ?New j \<and> ?args ! j = f)"
      unfolding length_append list.size add_0 One_nat_def add_Suc_right add_0_right
      using ne by (metis less_Suc_eq nth_append nth_append_length)
    then show ?thesis
      unfolding parts(8) [OF ne2(1) nn(1)] set_filter mem_Collect_eq set_push_uses la by blast
  qed
  have old: "vals m (getUser w) \<noteq> None" if "w \<in> set (uses m f)" for w
  proof -
    have "use_of m w f" using that ir_wfD(1) [OF wf] by blast
    then show ?thesis using operand_user_defined' [of "getOperandNo w" m "getUser w"] by (simp add: use_of_def)
  qed
  have "kind m' (getUser w) = Call" if "w \<in> set (uses m' f)" for w
    using that uf [of w] new(1) esc kt(1) [OF _ old] by (auto simp: escapes_def)
  moreover have "\<exists>w \<in> set (uses m' f). getOperandNo w < getNumArgOperands m' (getUser w)"
  proof (cases "getUser u = c")
    case False
    then have "u \<in> set (uses m' f)" using u(1) uf by blast
    then show ?thesis
      using u(2) kt(2) [OF False old [OF u(1)]] by (intro bexI [of _ u]) (auto simp: getNumArgOperands_def)
  next
    case True
    have "use_of m u f" using u(1) ir_wfD(1) [OF wf] by blast
    then have "?args ! getOperandNo u = f" using True u(2) by (simp add: use_of_def)
    then have "Use ?New (getOperandNo u) \<in> set (uses m' f)"
      using uf u(2) True nn(3) by auto
    then show ?thesis using new(2) u(2) True by (intro bexI [of _ "Use ?New (getOperandNo u)"]) simp_all
  qed
  ultimately show "escapes m' f" by (simp add: escapes_def)
qed

end

lemma replace_loop_diverges:
  assumes "llvm LL" and "ir_wf m" and "escapes m f" and "isFunction (kind m f)" and "isFunction (kind m NF)" and "f \<noteq> NF"
  shows "replace_loop LL f NF m = None"
proof (rule ccontr)
  assume "replace_loop LL f NF m \<noteq> None"
  then obtain r where r: "replace_loop LL f NF m = Some r" by blast
  let ?P = "\<lambda>LL f NF m (r :: stop + ir). \<not> (llvm LL \<and> ir_wf m \<and> escapes m f \<and> isFunction (kind m f) \<and>
    isFunction (kind m NF) \<and> f \<noteq> NF)"
  have "?P LL f NF m r"
  proof (rule replace_loop.raw_induct [where P = ?P, OF _ r])
    fix loop LL f NF m r
    assume IH: "\<And>L f NF m r. loop L f NF m = Some r \<Longrightarrow> ?P L f NF m r"
      and eq: "(if uses m f = [] then Some (Inr m)
         else if kind m (list_user_back m f) \<noteq> Call then Some (Inl Undefined)
         else loop LL f NF (replace_call LL NF (list_user_back m f) m)) = Some r"
    show "?P LL f NF m r"
    proof
      assume e: "llvm LL \<and> ir_wf m \<and> escapes m f \<and> isFunction (kind m f) \<and> isFunction (kind m NF) \<and> f \<noteq> NF"
      note step = llvm.escape_step [of LL m f NF]
      have "loop LL f NF (replace_call LL NF (list_user_back m f) m) = Some r"
        using eq step(5,6) e by (simp split: if_splits)
      from IH [OF this] step(1-4) e show False by simp
    qed
  qed
  with assms show False by simp
qed

end
