(* ===== verification/PT_Rename.thy ===== *)
theory PT_Rename imports PT_Replace begin

text \<open>
  What the replacing of a function does to the operands.  A replaced call is a new value; the
  values that stand for the old ones are given by a renaming \<open>\<sigma>\<close>, and up to it every operand is
  the old one, except that the replacing function stands for the replaced one.
\<close>

section \<open>One function in the middle of its replacing\<close>

text \<open>Some calls of \<open>f\<close> are calls of \<open>NF\<close> already.\<close>

definition renaming :: "(vid \<Rightarrow> vid) \<Rightarrow> vid \<Rightarrow> vid \<Rightarrow> ir \<Rightarrow> ir \<Rightarrow> bool" where
  "renaming \<sigma> f NF m m' \<longleftrightarrow>
     (\<forall>z. vals m z \<noteq> None \<longrightarrow> vals m' (\<sigma> z) \<noteq> None \<and> kind m' (\<sigma> z) = kind m z \<and> getType m' (\<sigma> z) = getType m z \<and>
        (kind m z \<noteq> Call \<longrightarrow> \<sigma> z = z) \<and>
        list_all2 (\<lambda>w w'. w' = \<sigma> w \<or> w = f \<and> w' = NF) (operands m z) (operands m' (\<sigma> z))) \<and>
     (\<forall>h. blocks m' h = map (map \<sigma>) (blocks m h))"

lemma function_no_call: "isFunction k \<Longrightarrow> k \<noteq> Call"
  by auto

lemma renamingD:
  assumes "renaming \<sigma> f NF m m'" and "vals m z \<noteq> None"
  shows "vals m' (\<sigma> z) \<noteq> None" "kind m' (\<sigma> z) = kind m z" "getType m' (\<sigma> z) = getType m z"
    "kind m z \<noteq> Call \<Longrightarrow> \<sigma> z = z"
    "list_all2 (\<lambda>w w'. w' = \<sigma> w \<or> w = f \<and> w' = NF) (operands m z) (operands m' (\<sigma> z))"
  using assms unfolding renaming_def by blast+

lemma renaming_refl: "renaming id f NF m m"
  by (simp add: renaming_def list_all2_same)

lemma renaming_trans:
  assumes 1: "renaming \<sigma> f NF m m1" and 2: "renaming \<tau> f NF m1 m2" and wf: "ir_wf m"
    and f: "isFunction (kind m1 f)" and NF: "isFunction (kind m1 NF)" and ne: "f \<noteq> NF"
  shows "renaming (\<tau> \<circ> \<sigma>) f NF m m2"
proof -
  have fun_defined: "vals m1 g \<noteq> None" if "isFunction (kind m1 g)" for g
    using that by (auto simp: info_def null_info_def split: option.splits)
  have t: "\<tau> f = f" "\<tau> NF = NF"
    using renamingD(4) [OF 2 fun_defined [OF f]] renamingD(4) [OF 2 fun_defined [OF NF]]
      function_no_call [OF f] function_no_call [OF NF] by simp_all
  have origin: "w = f" if "vals m w \<noteq> None" "\<sigma> w = f" for w
    using renamingD(2,4) [OF 1 that(1)] that(2) function_no_call [OF f] by simp
  have "list_all2 (\<lambda>w w'. w' = (\<tau> \<circ> \<sigma>) w \<or> w = f \<and> w' = NF) (operands m z) (operands m2 ((\<tau> \<circ> \<sigma>) z))"
    if z: "vals m z \<noteq> None" for z
  proof -
    have "list_all2 (\<lambda>w w'. vals m w \<noteq> None \<and> (w' = \<sigma> w \<or> w = f \<and> w' = NF)) (operands m z) (operands m1 (\<sigma> z))"
      using renamingD(5) [OF 1 z] by (rule list_all2_cong_left) (use ir_wfD(5) [OF wf] in blast)
    then show ?thesis
      using renamingD(5) [OF 2 renamingD(1) [OF 1 z]] unfolding comp_apply
      by (rule list_all2_trans [rotated]) (use t origin ne in auto)
  qed
  moreover have "(\<tau> \<circ> \<sigma>) z = z" if "vals m z \<noteq> None" "kind m z \<noteq> Call" for z
    using renamingD(1,2,4) [OF 1 that(1)] renamingD(4) [OF 2, of z] that by simp
  moreover have "vals m2 (\<tau> (\<sigma> z)) \<noteq> None" "kind m2 (\<tau> (\<sigma> z)) = kind m z" "getType m2 (\<tau> (\<sigma> z)) = getType m z"
    if "vals m z \<noteq> None" for z
    using renamingD(1-3) [OF 1 that] renamingD(1-3) [OF 2, of "\<sigma> z"] by simp_all
  moreover have "blocks m2 h = map (map (\<tau> \<circ> \<sigma>)) (blocks m h)" for h
    using 1 2 by (simp add: renaming_def)
  ultimately show ?thesis unfolding renaming_def comp_apply by blast
qed

context llvm
begin

lemma replace_step_renaming:
  assumes wf: "ir_wf m" and dc: "direct_calls m f" and fs: "isFunction (kind m f)" "isFunction (kind m NF)"
    and t: "getType m NF = getType m f" and u: "uses m f \<noteq> []"
  defines "c \<equiv> list_user_back m f"
  shows "renaming (id(c := next_vid m)) f NF m (replace_call LL NF c m)"
proof -
  let ?New = "next_vid m" and ?k = "getNumArgOperands m c" and ?m' = "replace_call LL NF c m"
  let ?s = "\<lambda>z. if z = c then ?New else z"
  obtain x xs where ux: "uses m f = x # xs" using u by (cases "uses m f") auto
  have cx: "getUser x = c" and xin: "x \<in> set (uses m f)" by (simp_all add: c_def list_user_back_def ux)
  have c: "kind m c = Call" and ct: "getType m c = return_type (getType m f)"
    and no: "getOperandNo x = ?k"
    using dc xin cx by (auto simp: direct_calls_def)
  have uo: "use_of m x f" using ir_wfD(1) [OF wf] xin by blast
  have k: "?k < length (operands m c)" "operands m c ! ?k = f" using uo cx no by (simp_all add: use_of_def)
  then have "length (operands m c) = Suc ?k" by (simp add: getNumArgOperands_def)
  then have split: "operands m c = take ?k (operands m c) @ [f]"
    using k by (metis append_take_drop_id lessI take_Suc_conv_app_nth take_all order_refl)
  have NFv: "vals m NF \<noteq> None" using fs(2) by (auto simp: info_def null_info_def split: option.splits)
  have ne: "NF \<noteq> c" using fs(2) c by auto
  note parts = replace_call_parts [OF wf c NFv refl]
  have e: "(id(c := ?New)) z = ?s z" for z by simp
  have "vals ?m' (?s z) \<noteq> None \<and> kind ?m' (?s z) = kind m z \<and> getType ?m' (?s z) = getType m z \<and>
      (kind m z \<noteq> Call \<longrightarrow> ?s z = z) \<and>
      list_all2 (\<lambda>w w'. w' = ?s w \<or> w = f \<and> w' = NF) (operands m z) (operands ?m' (?s z))" if z: "vals m z \<noteq> None" for z
  proof (cases "z = c")
    case True
    have ops: "operands ?m' ?New = map ?s (take ?k (operands m c)) @ [NF]" using parts(7) ne by simp
    have "list_all2 (\<lambda>w w'. w' = ?s w \<or> w = f \<and> w' = NF) (take ?k (operands m c) @ [f]) (map ?s (take ?k (operands m c)) @ [NF])"
      by (intro list_all2_appendI) (auto simp: list_all2_map2 list_all2_same)
    then have l: "list_all2 (\<lambda>w w'. w' = ?s w \<or> w = f \<and> w' = NF) (operands m c) (operands ?m' ?New)"
      by (simp add: ops flip: split)
    have "kind ?m' ?New = Call" "getType ?m' ?New = getType m c" using parts(7) t ct by simp_all
    moreover from this have "vals ?m' ?New \<noteq> None" by (intro kind_defined) simp
    ultimately show ?thesis using l c True by simp
  next
    case False
    moreover have "z \<noteq> ?New" using z fresh_unused(1) [OF wf] by auto
    ultimately have v: "vals ?m' z = map_option (\<lambda>y. y\<lparr>ops_of := map ?s (ops_of y)\<rparr>) (vals m z)" by (rule parts(6))
    then have i: "info ?m' z = (info m z)\<lparr>ops_of := map ?s (operands m z)\<rparr>" using z by (auto simp: info_def)
    then have "list_all2 (\<lambda>w w'. w' = ?s w \<or> w = f \<and> w' = NF) (operands m z) (operands ?m' z)"
      by (simp add: list_all2_map2 list_all2_same)
    moreover have "kind ?m' z = kind m z" "getType ?m' z = getType m z" using i by simp_all
    ultimately show ?thesis using False v z by simp
  qed
  moreover have "blocks ?m' h = map (map ?s) (blocks m h)" for h using parts(4) by simp
  ultimately show ?thesis unfolding renaming_def e by simp
qed

lemma replace_loop_renaming:
  assumes "ir_wf m" and "direct_calls m f" and "direct_calls m NF" and "isFunction (kind m f)" and "isFunction (kind m NF)"
    and "f \<noteq> NF" and "getType m NF = getType m f" and "replace_loop LL f NF m = Some (Inr m')"
  shows "\<exists>\<sigma>. renaming \<sigma> f NF m m'"
  using assms
proof (induction "length (uses m f)" arbitrary: m)
  case 0
  then have "m' = m" by (subst (asm) replace_loop.simps) simp
  then show ?case using renaming_refl by blast
next
  case (Suc n)
  then have u: "uses m f \<noteq> []" by auto
  let ?c = "list_user_back m f"
  let ?m1 = "replace_call LL NF ?c m"
  note step = replace_step [OF Suc.prems(1-7) u]
  have n: "n = length (uses ?m1 f)" using step(9) Suc.hyps(2) by simp
  have loop: "replace_loop LL f NF ?m1 = Some (Inr m')"
    using Suc.prems(8) u step(1) by (subst (asm) replace_loop.simps) simp
  obtain \<tau> where "renaming \<tau> f NF ?m1 m'"
    using Suc.hyps(1) [OF n step(2-6) Suc.prems(6) step(7) loop] by blast
  then show ?case
    using renaming_trans [OF replace_step_renaming [OF Suc.prems(1,2,4,5,7) u] _ Suc.prems(1) step(5,6) Suc.prems(6)] by blast
qed

end

section \<open>Functions that have been replaced\<close>

text \<open>
  Every instruction stands in the place of the old one; a function may stand for another function,
  any other value that is no call stands for itself; the operands are those of the old value.
\<close>

definition renamed :: "(vid \<Rightarrow> vid) \<Rightarrow> ir \<Rightarrow> ir \<Rightarrow> bool" where
  "renamed \<sigma> m m' \<longleftrightarrow>
     (\<forall>z. vals m z \<noteq> None \<longrightarrow> vals m' (\<sigma> z) \<noteq> None \<and> getType m' (\<sigma> z) = getType m z \<and>
        (if isFunction (kind m z) then isFunction (kind m' (\<sigma> z))
         else kind m' (\<sigma> z) = kind m z \<and> (kind m z \<noteq> Call \<longrightarrow> \<sigma> z = z) \<and> operands m' (\<sigma> z) = map \<sigma> (operands m z))) \<and>
     (\<forall>h. list_all2 (list_all2 (\<lambda>x y. \<not> isFunction (kind m x) \<longrightarrow> y = \<sigma> x)) (blocks m h) (blocks m' h))"

lemma renamedD:
  assumes "renamed \<sigma> m m'" and "vals m z \<noteq> None"
  shows "vals m' (\<sigma> z) \<noteq> None" "getType m' (\<sigma> z) = getType m z"
    "isFunction (kind m' (\<sigma> z)) \<longleftrightarrow> isFunction (kind m z)"
    "\<not> isFunction (kind m z) \<Longrightarrow> kind m' (\<sigma> z) = kind m z"
    "\<not> isFunction (kind m z) \<Longrightarrow> kind m z \<noteq> Call \<Longrightarrow> \<sigma> z = z"
    "\<not> isFunction (kind m z) \<Longrightarrow> operands m' (\<sigma> z) = map \<sigma> (operands m z)"
  using assms unfolding renamed_def by (smt (verit))+

lemma renamed_blocks:
  "renamed \<sigma> m m' \<Longrightarrow> list_all2 (list_all2 (\<lambda>x y. \<not> isFunction (kind m x) \<longrightarrow> y = \<sigma> x)) (blocks m h) (blocks m' h)"
  by (simp add: renamed_def)

lemma renamed_refl: "renamed id m m"
  by (simp add: renamed_def list_all2_same)

lemma renamed_trans:
  assumes 1: "renamed \<sigma> m m1" and 2: "renamed \<tau> m1 m2" and wf: "ir_wf m"
  shows "renamed (\<tau> \<circ> \<sigma>) m m2"
proof -
  note d1 = renamedD [OF 1]
  note d2 = renamedD [OF 2 d1(1)]
  have "list_all2 (list_all2 (\<lambda>x y. \<not> isFunction (kind m x) \<longrightarrow> y = (\<tau> \<circ> \<sigma>) x)) (blocks m h) (blocks m2 h)" for h
  proof -
    have "list_all2 (list_all2 (\<lambda>x y. vals m x \<noteq> None \<and> (\<not> isFunction (kind m x) \<longrightarrow> y = \<sigma> x))) (blocks m h) (blocks m1 h)"
      using renamed_blocks [OF 1] by (rule list_all2_cong_left) (erule list_all2_cong_left, use ir_wfD(8) [OF wf] in blast)
    then show ?thesis
      using renamed_blocks [OF 2, of h]
    proof (rule list_all2_trans [rotated])
      fix B B1 B2
      assume "list_all2 (\<lambda>x y. vals m x \<noteq> None \<and> (\<not> isFunction (kind m x) \<longrightarrow> y = \<sigma> x)) B B1"
        and "list_all2 (\<lambda>x y. \<not> isFunction (kind m1 x) \<longrightarrow> y = \<tau> x) B1 B2"
      then show "list_all2 (\<lambda>x y. \<not> isFunction (kind m x) \<longrightarrow> y = (\<tau> \<circ> \<sigma>) x) B B2"
        by (rule list_all2_trans [rotated]) (use d1(3) in auto)
    qed
  qed
  then show ?thesis
    using d1 d2 unfolding renamed_def by simp
qed

lemma renamed_extends:
  assumes e: "module_extends m m'" and wf: "ir_wf m"
  shows "renamed id m m'"
  using e unfolding renamed_def module_extends_def by (simp add: info_def list_all2_same)

context llvm
begin

lemma replaceFuncionWith_renamed:
  assumes wf: "ir_wf m" and dc: "direct_calls m f" and f: "isFunction (kind m f)"
    and r: "replaceFuncionWith LL f nm m = Some (Inr m')"
  defines "NF \<equiv> next_vid m"
  shows "\<exists>\<sigma>. renamed \<sigma> m m' \<and> \<sigma> f = NF \<and> (\<forall>g. isFunction (kind m g) \<longrightarrow> g \<noteq> f \<longrightarrow> \<sigma> g = g)"
proof -
  let ?nv = "snd (new_value (Function True) (getType m f) nm [] m)"
  define m1 where "m1 = ?nv\<lparr>getFunctionList := insert_before f NF (getFunctionList ?nv)\<rparr>"
  have fv: "vals m f \<noteq> None" using f by (auto simp: info_def null_info_def split: option.splits)
  then have fn: "f \<noteq> NF" using fresh_unused(1) [OF wf] by (auto simp: NF_def)
  have i1: "info m1 v = (if v = NF then \<lparr>kind_of = Function True, type_of = getType m f, name_of = nm, ops_of = []\<rparr>
      else info m v)" for v
    by (simp add: m1_def info_def new_value_def NF_def Let_def)
  have v1: "vals m1 v \<noteq> None" if "vals m v \<noteq> None" for v
    using that by (simp add: m1_def new_value_def Let_def)
  have b1: "blocks m1 = blocks m" "uses m1 = uses m" by (simp_all add: m1_def new_value_def Let_def)
  have wf1: "ir_wf m1"
    using ir_wf_new_value [OF wf, of "[]" "Function True" "getType m f" nm]
    unfolding ir_wf_def m1_def by (simp add: use_of_def info_def)
  have users: "getUser u \<noteq> NF" if "u \<in> set (uses m g)" for u g
  proof -
    have "use_of m u g" using that ir_wfD(1) [OF wf] by blast
    then have "vals m (getUser u) \<noteq> None"
      using operand_user_defined' [of "getOperandNo u" m "getUser u"] by (simp add: use_of_def)
    then show ?thesis using fresh_unused(1) [OF wf] by (auto simp: NF_def)
  qed
  have dc1: "direct_calls m1 f"
    using dc users fn by (auto simp: direct_calls_def b1 i1 getNumArgOperands_def)
  have dNF: "direct_calls m1 NF" using fresh_unused(2) [OF wf] by (simp add: direct_calls_def b1 NF_def)
  have loop: "replace_loop LL f NF m1 = Some (Inr m')"
    using r by (simp add: replaceFuncionWith_def m1_def new_value_def NF_def Let_def)
  have fs: "isFunction (kind m1 f)" "isFunction (kind m1 NF)" "getType m1 NF = getType m1 f"
    using f fn by (simp_all add: i1)
  obtain \<sigma> where s: "renaming \<sigma> f NF m1 m'"
    using replace_loop_renaming [OF wf1 dc1 dNF fs(1,2) fn fs(3) loop] by blast
  have u: "ir_wf m'" "uses m' f = []"
    using replace_loop_returns [OF wf1 dc1 dNF fs(1,2) fn fs(3)] loop by auto
  have old: "info m1 z = info m z" "vals m1 z \<noteq> None" "z \<noteq> NF" if "vals m z \<noteq> None" for z
    using that v1 fresh_unused(1) [OF wf] by (auto simp: i1 NF_def)
  note d = renamingD [OF s old(2)]
  have sf: "\<sigma> f = f" using d(4) [OF fv] function_no_call [OF f] old(1) [OF fv] by simp
  let ?t = "\<sigma>(f := NF)"
  have ops: "operands m' (\<sigma> z) = map ?t (operands m z)" if z: "vals m z \<noteq> None" for z
  proof -
    have "list_all2 (\<lambda>w w'. w' = ?t w) (operands m z) (operands m' (\<sigma> z))"
      using d(5) [OF z] unfolding old(1) [OF z]
      by (rule list.rel_mono_strong) (use no_use_no_operand [OF u, of "\<sigma> z"] sf in auto)
    then show ?thesis by (auto simp: list_all2_conv_all_nth intro: nth_equalityI)
  qed
  have NFv: "vals m1 NF \<noteq> None" "kind m1 NF = Function True" "getType m1 NF = getType m f"
    by (simp_all add: i1) (simp add: m1_def new_value_def NF_def Let_def)
  have sNF: "vals m' NF \<noteq> None" "isFunction (kind m' NF)" "getType m' NF = getType m f"
    using renamingD(1-4) [OF s NFv(1)] NFv(2,3) by simp_all
  have "list_all2 (list_all2 (\<lambda>x y. \<not> isFunction (kind m x) \<longrightarrow> y = ?t x)) (blocks m h) (blocks m' h)" for h
    using s f by (auto simp: renaming_def b1 list_all2_map2 list_all2_same)
  then have "renamed ?t m m'"
    unfolding renamed_def using d(1-4) old(1) ops sNF f sf by auto
  moreover have "?t g = g" if "isFunction (kind m g)" "g \<noteq> f" for g
  proof -
    have "vals m g \<noteq> None" using that(1) by (auto simp: info_def null_info_def split: option.splits)
    then show ?thesis using d(4) [of g] old(1) [of g] function_no_call [OF that(1)] that(2) by simp
  qed
  ultimately show ?thesis by (intro exI [of _ ?t]) simp
qed

end

end
