(* ===== verification/PT_Module.thy ===== *)
theory PT_Module imports PT_Growth PT_Rename begin

text \<open>
  The whole pass: replacing the allocation functions one after the other, declaring the runtime
  functions and instrumenting every function.
\<close>

section \<open>Replacing one function keeps the others\<close>

definition kept_functions :: "vid \<Rightarrow> vid \<Rightarrow> ir \<Rightarrow> ir \<Rightarrow> bool" where
  "kept_functions f NF m m' \<longleftrightarrow> (\<forall>g. g \<noteq> NF \<longrightarrow> isFunction (kind m g) \<longrightarrow>
     kind m' g = kind m g \<and> getName m' g = getName m g \<and> getType m' g = getType m g \<and>
     (g \<noteq> f \<longrightarrow> direct_calls m g \<longrightarrow> direct_calls m' g \<and> uses m' g = uses m g)) \<and>
   (\<forall>g. g \<noteq> NF \<longrightarrow> isGlobalObject (kind m' g) \<longrightarrow>
     kind m' g = kind m g \<and> getName m' g = getName m g \<and> getType m' g = getType m g)"

lemma kept_functionsD:
  assumes "kept_functions f NF m m'" and "isFunction (kind m g)" and "g \<noteq> NF"
  shows "kind m' g = kind m g" "getName m' g = getName m g" "getType m' g = getType m g"
    "g \<noteq> f \<Longrightarrow> direct_calls m g \<Longrightarrow> direct_calls m' g" "g \<noteq> f \<Longrightarrow> direct_calls m g \<Longrightarrow> uses m' g = uses m g"
  using assms unfolding kept_functions_def by blast+

lemma kept_functionsD2:
  "kept_functions f NF m m' \<Longrightarrow> isGlobalObject (kind m' g) \<Longrightarrow> g \<noteq> NF \<Longrightarrow>
   kind m' g = kind m g \<and> getName m' g = getName m g \<and> getType m' g = getType m g"
  unfolding kept_functions_def by blast

lemma kept_functions_refl: "kept_functions f NF m m"
  by (simp add: kept_functions_def)

lemma kept_functions_trans: "kept_functions f NF m m1 \<Longrightarrow> kept_functions f NF m1 m2 \<Longrightarrow> kept_functions f NF m m2"
  unfolding kept_functions_def by (intro conjI allI impI; metis)

lemma function_defined: "isFunction (kind m f) \<Longrightarrow> vals m f \<noteq> None"
  by (auto simp: info_def null_info_def split: option.splits)

context llvm
begin

lemma replace_step_kept:
  assumes wf: "ir_wf m" and dc: "direct_calls m f" and fs: "isFunction (kind m f)" "isFunction (kind m NF)"
    and ne: "f \<noteq> NF" and u: "uses m f \<noteq> []"
  shows "kept_functions f NF m (replace_call LL NF (list_user_back m f) m)"
proof -
  let ?New = "next_vid m" and ?c = "list_user_back m f"
  let ?m' = "replace_call LL NF ?c m"
  obtain x xs where ux: "uses m f = x # xs" using u by (cases "uses m f") auto
  have cx: "getUser x = ?c" and xin: "x \<in> set (uses m f)" by (simp_all add: list_user_back_def ux)
  then have c: "kind m ?c = Call" using dc by (auto simp: direct_calls_def)
  have cf: "getCalledFunction m ?c = Some f" using getCalledFunction_use(1) [OF wf dc xin fs(1)] cx by simp
  note parts = replace_call_parts [OF wf c function_defined [OF fs(2)] refl]
  have new: "kind ?m' ?New = Call" using parts(7) by simp
  have info: "kind ?m' v = kind m v" "getType ?m' v = getType m v" "getName ?m' v = getName m v"
      "length (operands ?m' v) = length (operands m v)" if "v \<noteq> ?c" "v \<noteq> ?New" for v
    using parts(6) [OF that] by (cases "vals m v"; simp add: info_def)+
  have gone: "kind ?m' ?c = NullVal" using parts(5) by (simp add: info_def null_info_def)
  have "direct_calls ?m' g \<and> uses ?m' g = uses m g"
    if g: "g \<noteq> NF" "isFunction (kind m g)" "g \<noteq> f" "direct_calls m g" for g
  proof -
    have ne2: "g \<noteq> ?c" "g \<noteq> ?New" using g(2) c fresh_unused(1) [OF wf] function_defined [OF g(2)] by auto
    let ?k = "getNumArgOperands m ?c"
    have notc: "getUser w \<noteq> ?c" if "w \<in> set (uses m g)" for w
      using getCalledFunction_use(1) [OF wf g(4) that g(2)] cf g(3) by auto
    have "g \<notin> set (take ?k (operands m ?c))"
    proof
      assume "g \<in> set (take ?k (operands m ?c))"
      then have "g \<in> set (operands m ?c)" by (rule in_set_takeD)
      then obtain i where "i < length (operands m ?c)" "operands m ?c ! i = g" by (auto simp: in_set_conv_nth)
      then have "Use ?c i \<in> set (uses m g)" using ir_wfD(1) [OF wf] by (simp add: use_of_def)
      from notc [OF this] show False by simp
    qed
    then have "push_uses ?New 0 (take ?k (operands m ?c) @ [NF]) (uses m) g = uses m g"
      using g(1) by (intro push_uses_other) auto
    then have ug: "uses ?m' g = uses m g"
      using parts(8) [OF ne2] notc by (auto simp: filter_id_conv)
    have "getUser w \<noteq> ?New" if "w \<in> set (uses m g)" for w
    proof -
      have "use_of m w g" using that ir_wfD(1) [OF wf] by blast
      then have "vals m (getUser w) \<noteq> None"
        using operand_user_defined' [of "getOperandNo w" m "getUser w"] by (simp add: use_of_def)
      then show ?thesis using fresh_unused(1) [OF wf] by auto
    qed
    then show ?thesis
      using g(4) notc info [OF ne2] info ug by (auto simp: direct_calls_def getNumArgOperands_def)
  qed
  moreover have "kind ?m' g = kind m g \<and> getName ?m' g = getName m g \<and> getType ?m' g = getType m g"
    if "isFunction (kind m g)" for g
  proof -
    have "g \<noteq> ?c" "g \<noteq> ?New" using that c fresh_unused(1) [OF wf] function_defined [OF that] by auto
    then show ?thesis using info by simp
  qed
  moreover have "kind ?m' g = kind m g \<and> getName ?m' g = getName m g \<and> getType ?m' g = getType m g"
    if "isGlobalObject (kind ?m' g)" for g
    using that info [of g] gone new by (cases "g = ?c \<or> g = ?New") (auto simp: isGlobalObject_def)
  ultimately show ?thesis unfolding kept_functions_def by blast
qed

lemma replace_loop_kept:
  assumes "ir_wf m" and "direct_calls m f" and "direct_calls m NF" and "isFunction (kind m f)" and "isFunction (kind m NF)"
    and "f \<noteq> NF" and "getType m NF = getType m f" and "replace_loop LL f NF m = Some (Inr m')"
  shows "kept_functions f NF m m' \<and> kind m' NF = kind m NF \<and> getName m' NF = getName m NF"
  using assms
proof (induction "length (uses m f)" arbitrary: m)
  case 0
  then have "m' = m" by (subst (asm) replace_loop.simps) simp
  then show ?case by (simp add: kept_functions_refl)
next
  case (Suc n)
  then have u: "uses m f \<noteq> []" by auto
  let ?c = "list_user_back m f"
  let ?m1 = "replace_call LL NF ?c m"
  note step = replace_step [OF Suc.prems(1-7) u]
  have n: "n = length (uses ?m1 f)" using step(9) Suc.hyps(2) by simp
  have loop: "replace_loop LL f NF ?m1 = Some (Inr m')"
    using Suc.prems(8) u step(1) by (subst (asm) replace_loop.simps) simp
  have "NF \<noteq> ?c" "kind m NF \<noteq> NullVal" using step(1) Suc.prems(5) by auto
  from step(12) [OF this] Suc.hyps(1) [OF n step(2-6) Suc.prems(6) step(7) loop]
    replace_step_kept [OF Suc.prems(1,2,4-6) u]
  show ?case using kept_functions_trans by auto
qed

lemma replaceFuncionWith_kept:
  assumes wf: "ir_wf m" and dc: "direct_calls m f" and f: "isFunction (kind m f)"
    and r: "replaceFuncionWith LL f nm m = Some (Inr m')"
  defines "NF \<equiv> next_vid m"
  shows "kept_functions f NF m m' \<and> kind m' NF = Function True \<and> getName m' NF = nm"
proof -
  let ?nv = "snd (new_value (Function True) (getType m f) nm [] m)"
  define m1 where "m1 = ?nv\<lparr>getFunctionList := insert_before f NF (getFunctionList ?nv)\<rparr>"
  have fn: "f \<noteq> NF" using function_defined [OF f] fresh_unused(1) [OF wf] by (auto simp: NF_def)
  have i1: "info m1 v = (if v = NF then \<lparr>kind_of = Function True, type_of = getType m f, name_of = nm, ops_of = []\<rparr>
      else info m v)" for v
    by (simp add: m1_def info_def new_value_def NF_def Let_def)
  have u1: "uses m1 = uses m" by (simp add: m1_def new_value_def Let_def)
  have wf1: "ir_wf m1"
    using ir_wf_new_value [OF wf, of "[]" "Function True" "getType m f" nm]
    unfolding ir_wf_def m1_def by (simp add: use_of_def info_def)
  have users: "getUser u \<noteq> NF" if "u \<in> set (uses m g)" for u g
  proof -
    have "use_of m u g" using that ir_wfD(1) [OF wf] by blast
    then have "vals m (getUser u) \<noteq> None"
      using operand_user_defined' [of "getOperandNo u" m "getUser u"] by (simp add: use_of_def)
    then show ?thesis using fresh_unused(1) [OF wf] by (auto simp: NF_def)
  qed
  have dc1: "direct_calls m1 g" if "direct_calls m g" "g \<noteq> NF" for g
    using that users by (auto simp: direct_calls_def u1 i1 getNumArgOperands_def)
  have dNF: "direct_calls m1 NF" using fresh_unused(2) [OF wf] by (simp add: direct_calls_def u1 NF_def)
  have "replace_loop LL f NF m1 = Some (Inr m')"
    using r by (simp add: replaceFuncionWith_def m1_def new_value_def NF_def Let_def)
  from replace_loop_kept [OF wf1 dc1 [OF dc fn] dNF _ _ fn _ this] f fn
  have k: "kept_functions f NF m1 m'" "kind m' NF = Function True" "getName m' NF = nm" by (simp_all add: i1)
  have "kept_functions f NF m m1" unfolding kept_functions_def using dc1 by (simp add: i1 u1)
  from kept_functions_trans [OF this k(1)] k(2,3) show ?thesis by simp
qed

section \<open>The calls after the replacing\<close>

end

text \<open>
  What a block does: class and type of each instruction, its number of operands and the name of
  the function it calls.
\<close>

definition callee_name :: "ir \<Rightarrow> vid \<Rightarrow> string option" where
  "callee_name m x = (if kind m x = Call then map_option (getName m) (getCalledFunction m x) else None)"

definition signature :: "ir \<Rightarrow> vid \<Rightarrow> kind \<times> ty \<times> nat \<times> string option" where
  "signature m x = (kind m x, getType m x, length (operands m x), callee_name m x)"

definition rename_in :: "string set \<Rightarrow> string \<Rightarrow> string" where
  "rename_in S n = (if n \<in> S then (case replacement n of None \<Rightarrow> n | Some r \<Rightarrow> r) else n)"

definition rename_callee :: "string set \<Rightarrow> kind \<times> ty \<times> nat \<times> string option \<Rightarrow> kind \<times> ty \<times> nat \<times> string option" where
  "rename_callee S = (\<lambda>(k, t, n, c). (k, t, n, map_option (rename_in S) c))"

definition signatures :: "ir \<Rightarrow> vid \<Rightarrow> (kind \<times> ty \<times> nat \<times> string option) list list" where
  "signatures m h = map (map (signature m)) (blocks m h)"

text \<open>
  The functions to replace: distinct names, only called directly, and the names of the runtime
  functions not taken.
\<close>

definition replaceable :: "ir \<Rightarrow> vid list \<Rightarrow> bool" where
  "replaceable m fs \<longleftrightarrow> distinct (map (getName m) fs) \<and>
     (\<forall>f \<in> set fs. isFunction (kind m f) \<and> (replacement (getName m f) \<noteq> None \<longrightarrow> direct_calls m f)) \<and>
     (\<forall>g. isFunction (kind m g) \<longrightarrow> getName m g \<in> getName m ` set fs \<longrightarrow> g \<in> set fs) \<and>
     (\<forall>g. isFunction (kind m g) \<longrightarrow> (\<forall>f \<in> set fs. replacement (getName m f) \<noteq> Some (getName m g)))"

lemma shape_signature:
  assumes fn: "\<And>g. isFunction (kind m g) \<Longrightarrow> g \<noteq> f \<Longrightarrow> getName m g \<noteq> getName m f"
    and k: "kept_functions f NF m m'" and new: "getName m' NF = r" and old: "replacement (getName m f) = Some r"
    and wf: "ir_wf m" "ir_wf m'" and u: "uses m' f = []" and NF: "NF = next_vid m"
    and sh: "subst_callee f NF (shape m' y) = subst_callee f NF (shape m x)"
  shows "signature m' y = rename_callee {getName m f} (signature m x)"
proof (cases "kind m x = Call")
  case False
  with sh show ?thesis
    by (simp add: shape_def subst_callee_def signature_def rename_callee_def callee_name_def)
next
  case True
  then have y: "kind m' y = Call" using sh by (simp add: shape_def subst_callee_def)
  have "getCalledFunction m' y \<noteq> Some f" by (rule no_use_no_call [OF wf(2) u y])
  then have c: "getCalledFunction m' y = (if getCalledFunction m x = Some f then Some NF else getCalledFunction m x)"
      "getType m' y = getType m x" "length (operands m' y) = length (operands m x)"
    using sh True y by (auto simp: shape_def subst_callee_def)
  have "map_option (getName m') (getCalledFunction m' y) =
      map_option (rename_in {getName m f}) (map_option (getName m) (getCalledFunction m x))"
  proof (cases "getCalledFunction m x")
    case None
    with c(1) show ?thesis by simp
  next
    case (Some g)
    have g: "isFunction (kind m g)" using Some by (auto simp: getCalledFunction_def Let_def split: if_splits)
    have "g \<noteq> NF" using function_defined [OF g] fresh_unused(1) [OF wf(1)] by (auto simp: NF)
    then have "getName m' g = getName m g" by (rule kept_functionsD(2) [OF k g])
    with c(1) Some new old fn [OF g] show ?thesis by (auto simp: rename_in_def)
  qed
  with True y c show ?thesis by (simp add: signature_def rename_callee_def callee_name_def)
qed

lemma rename_in_insert:
  assumes "n \<notin> S" and "\<And>k r. replacement k = Some r \<Longrightarrow> replacement r = None"
  shows "rename_in S (rename_in {n} x) = rename_in (insert n S) x"
  using assms by (auto simp: rename_in_def split: option.splits)

lemma replacement_None: "replacement k = Some r \<Longrightarrow> replacement r = None"
  by (auto simp: replacement_def split: if_splits)

lemma rename_callee_insert:
  "n \<notin> S \<Longrightarrow> rename_callee S (rename_callee {n} x) = rename_callee (insert n S) x"
  using rename_in_insert [OF _ replacement_None, of n S]
  by (auto simp: rename_callee_def option.map_comp comp_def split: prod.splits)

lemma rename_in_idle: "replacement n = None \<Longrightarrow> rename_in (insert n S) = rename_in S"
  by (auto simp: rename_in_def fun_eq_iff)

lemma rename_callee_idle: "replacement n = None \<Longrightarrow> rename_callee (insert n S) = rename_callee S"
  by (auto simp: rename_callee_def fun_eq_iff rename_in_def cong: map_option_cong intro!: map_option_cong)

lemma rename_callee_empty: "rename_callee {} x = x"
proof -
  have "rename_in {} = id" by (simp add: rename_in_def fun_eq_iff)
  then show ?thesis by (simp add: rename_callee_def option.map_id split: prod.splits)
qed


lemma replacement_inj: "replacement a = Some r \<Longrightarrow> replacement b = Some r \<Longrightarrow> a = b"
  by (auto simp: replacement_def split: if_splits)

lemma replaceableD:
  assumes "replaceable m fs"
  shows "distinct (map (getName m) fs)" "f \<in> set fs \<Longrightarrow> isFunction (kind m f)"
    "f \<in> set fs \<Longrightarrow> replacement (getName m f) \<noteq> None \<Longrightarrow> direct_calls m f"
    "isFunction (kind m g) \<Longrightarrow> getName m g \<in> getName m ` set fs \<Longrightarrow> g \<in> set fs"
    "isFunction (kind m g) \<Longrightarrow> f \<in> set fs \<Longrightarrow> replacement (getName m f) \<noteq> Some (getName m g)"
  using assms unfolding replaceable_def by blast+

lemma replaceable_step:
  assumes r: "replaceable m (f # fs)" and k: "kept_functions f NF m m'" and rf: "replacement (getName m f) = Some r"
    and new: "getName m' NF = r" and fresh: "vals m NF = None"
  shows "replaceable m' fs" "getName m' ` set fs = getName m ` set fs"
proof -
  note rD = replaceableD [OF r]
  have fs: "isFunction (kind m g)" "g \<noteq> NF" "g \<noteq> f" if "g \<in> set fs" for g
    using rD(1) rD(2) [of g] that fresh function_defined [of m g] by auto
  have nm: "getName m' g = getName m g" if "g \<in> set fs" for g
    using kept_functionsD(2) [OF k fs(1,2)] that by simp
  then show im: "getName m' ` set fs = getName m ` set fs" by (intro image_cong) simp_all
  have nms: "map (getName m') fs = map (getName m) fs" using nm by simp
  have rn: "r \<notin> getName m ` set fs" using rD(5) [OF fs(1), of _ f] rf by auto
  have inF: "isFunction (kind m g)" "getName m' g = getName m g" if "isFunction (kind m' g)" "g \<noteq> NF" for g
    using kept_functionsD2 [OF k _ that(2)] that(1) by (simp_all add: isGlobalObject_def)
  have "g \<in> set fs" if g: "isFunction (kind m' g)" "getName m' g \<in> getName m' ` set fs" for g
  proof -
    have "g \<noteq> NF" using g(2) new rn im by auto
    from inF [OF g(1) this] g(2) im have *: "isFunction (kind m g)" "getName m g \<in> getName m ` set fs" by auto
    then have "g \<in> set (f # fs)" by (intro rD(4)) auto
    moreover have "g \<noteq> f" using *(2) rD(1) by auto
    ultimately show ?thesis by simp
  qed
  moreover have "isFunction (kind m' g)" if "g \<in> set fs" for g
    using kept_functionsD(1) [OF k fs(1,2)] fs(1) that by simp
  moreover have "direct_calls m' g" if g: "g \<in> set fs" and "replacement (getName m' g) \<noteq> None" for g
  proof -
    have "direct_calls m g" using rD(3) [of g] that nm [OF g] by simp
    then show ?thesis by (rule kept_functionsD(4) [OF k fs(1,2,3) [OF g]])
  qed
  moreover have "replacement (getName m' h) \<noteq> Some (getName m' g)" if g: "isFunction (kind m' g)" and h: "h \<in> set fs" for g h
  proof (cases "g = NF")
    case True
    have "getName m f \<notin> getName m ` set fs" using rD(1) by simp
    then have "getName m h \<noteq> getName m f" using h by (metis imageI)
    then show ?thesis using True new rf replacement_inj nm [OF h] by auto
  next
    case False
    then show ?thesis using inF [OF g] rD(5) [of g h] h nm [OF h] by simp
  qed
  moreover have "distinct (map (getName m') fs)" using rD(1) by (simp add: nms)
  ultimately show "replaceable m' fs" unfolding replaceable_def by blast
qed


context llvm
begin

lemma replace_functions_returns:
  assumes "ir_wf m" and "replaceable m fs"
  shows "\<exists>m'. replace_functions LL fs m = Some (Inr m') \<and> ir_wf m' \<and>
    (\<forall>h. signatures m' h = map (map (rename_callee (getName m ` set fs))) (signatures m h)) \<and>
    (\<forall>f \<in> set fs. replacement (getName m f) \<noteq> None \<longrightarrow> uses m' f = []) \<and>
    (\<forall>g. isFunction (kind m g) \<longrightarrow> g \<notin> set fs \<longrightarrow> direct_calls m g \<longrightarrow> uses m' g = uses m g) \<and>
    (\<forall>g. isGlobalObject (kind m' g) \<longrightarrow> kind m' g = kind m g \<and> getName m' g = getName m g \<and> getType m' g = getType m g \<or>
       isFunction (kind m' g) \<and> (\<exists>n. replacement n = Some (getName m' g))) \<and>
    (\<exists>\<sigma>. renamed \<sigma> m m' \<and>
       (\<forall>g. isFunction (kind m g) \<longrightarrow> getName m' (\<sigma> g) = rename_in (getName m ` set fs) (getName m g)))"
  using assms
proof (induction fs arbitrary: m)
  case Nil
  have "map (map (rename_callee {})) ss = ss" for ss by (simp add: rename_callee_empty map_idI)
  moreover have "renamed id m m \<and> (\<forall>g. isFunction (kind m g) \<longrightarrow> getName m (id g) = rename_in {} (getName m g))"
    by (simp add: renamed_refl rename_in_def)
  then have "\<exists>\<sigma>. renamed \<sigma> m m \<and> (\<forall>g. isFunction (kind m g) \<longrightarrow> getName m (\<sigma> g) = rename_in {} (getName m g))"
    by blast
  ultimately show ?case using Nil by simp
next
  case (Cons f fs)
  note rD = replaceableD [OF Cons.prems(2)]
  have f: "isFunction (kind m f)" using rD(2) by simp
  have nf: "getName m f \<notin> getName m ` set fs" using rD(1) by simp
  show ?case
  proof (cases "replacement (getName m f)")
    case None
    have "replaceable m fs"
      unfolding replaceable_def
    proof (intro conjI ballI allI impI)
      fix g assume "isFunction (kind m g)" "getName m g \<in> getName m ` set fs"
      then have "g \<in> set (f # fs)" "g \<noteq> f" using rD(4) [of g] nf by auto
      then show "g \<in> set fs" by simp
    qed (use rD in auto)
    with Cons.IH [OF Cons.prems(1) this] None rename_callee_idle [OF None, of "getName m ` set fs"]
      rename_in_idle [OF None, of "getName m ` set fs"]
    show ?thesis by auto
  next
    case (Some r)
    let ?NF = "next_vid m"
    have dc: "direct_calls m f" using rD(3) Some by simp
    obtain m1 where m1: "replaceFuncionWith LL f r m = Some (Inr m1)" "ir_wf m1" "uses m1 f = []"
        "\<forall>h. list_all2 (\<lambda>B B'. map (subst_callee f ?NF \<circ> shape m1) B' = map (subst_callee f ?NF \<circ> shape m) B)
          (blocks m h) (blocks m1 h)"
      using replaceFuncionWith_returns [OF Cons.prems(1) dc f, of r] by auto
    note k = replaceFuncionWith_kept [OF Cons.prems(1) dc f m1(1)]
    have kf: "kept_functions f ?NF m m1" "kind m1 ?NF = Function True" "getName m1 ?NF = r" using k by simp_all
    note st = replaceable_step [OF Cons.prems(2) kf(1) Some kf(3) fresh_unused(1) [OF Cons.prems(1)]]
    obtain m' where m': "replace_functions LL fs m1 = Some (Inr m')" "ir_wf m'"
        "\<forall>h. signatures m' h = map (map (rename_callee (getName m1 ` set fs))) (signatures m1 h)"
        "\<forall>g \<in> set fs. replacement (getName m1 g) \<noteq> None \<longrightarrow> uses m' g = []"
        "\<forall>g. isFunction (kind m1 g) \<longrightarrow> g \<notin> set fs \<longrightarrow> direct_calls m1 g \<longrightarrow> uses m' g = uses m1 g"
        "\<forall>g. isGlobalObject (kind m' g) \<longrightarrow> kind m' g = kind m1 g \<and> getName m' g = getName m1 g \<and> getType m' g = getType m1 g \<or>
           isFunction (kind m' g) \<and> (\<exists>n. replacement n = Some (getName m' g))"
        "\<exists>\<sigma>. renamed \<sigma> m1 m' \<and>
           (\<forall>g. isFunction (kind m1 g) \<longrightarrow> getName m' (\<sigma> g) = rename_in (getName m1 ` set fs) (getName m1 g))"
      using Cons.IH [OF m1(2) st(1)] by blast
    have fn: "getName m g \<noteq> getName m f" if "isFunction (kind m g)" "g \<noteq> f" for g
      proof
      assume "getName m g = getName m f"
      moreover from this have "g \<in> set (f # fs)" by (intro rD(4) that(1)) simp
      ultimately show False using that(2) nf by (metis imageI set_ConsD)
    qed
    have sig: "signatures m1 h = map (map (rename_callee {getName m f})) (signatures m h)" for h
    proof -
      have "list_all2 (\<lambda>B B'. map (signature m1) B' = map (rename_callee {getName m f} \<circ> signature m) B) (blocks m h) (blocks m1 h)"
        using m1(4) [rule_format, of h]
      proof (rule list_all2_mono)
        fix B B' assume e: "map (subst_callee f ?NF \<circ> shape m1) B' = map (subst_callee f ?NF \<circ> shape m) B"
        then have l: "length B' = length B" by (rule map_eq_imp_length_eq)
        show "map (signature m1) B' = map (rename_callee {getName m f} \<circ> signature m) B"
        proof (rule nth_equalityI)
          fix i assume i: "i < length (map (signature m1) B')"
          then have "subst_callee f ?NF (shape m1 (B' ! i)) = subst_callee f ?NF (shape m (B ! i))"
            using arg_cong [OF e, of "\<lambda>xs. xs ! i"] l by simp
          from shape_signature [OF fn kf(1,3) Some Cons.prems(1) m1(2,3) refl this] i l
          show "map (signature m1) B' ! i = map (rename_callee {getName m f} \<circ> signature m) B ! i" by simp
        qed (simp add: l)
      qed
      then show ?thesis
        by (auto simp: signatures_def list_all2_conv_all_nth intro: nth_equalityI)
    qed
    have "signatures m' h = map (map (rename_callee (getName m ` set (f # fs)))) (signatures m h)" for h
      using m'(3) sig st(2) rename_callee_insert [OF nf] by (simp add: comp_def)
    moreover have "uses m' f = []"
    proof -
      have "f \<notin> set fs" using nf by auto
      moreover have "f \<noteq> ?NF" using fresh_unused(1) [OF Cons.prems(1)] function_defined [OF f] by metis
      then have "isFunction (kind m1 f)" using kept_functionsD(1) [OF kf(1) f] f by simp
      moreover have "direct_calls m1 f" using m1(3) by (simp add: direct_calls_def)
      ultimately show ?thesis using m'(5) m1(3) by simp
    qed
    moreover have "uses m' g = []" if g: "g \<in> set fs" "replacement (getName m g) \<noteq> None" for g
    proof -
      have "isFunction (kind m g)" "g \<noteq> ?NF"
        using rD(2) [of g] g(1) fresh_unused(1) [OF Cons.prems(1)] function_defined [of m g] by auto
      then show ?thesis using kept_functionsD(2) [OF kf(1)] m'(4) g by simp
    qed
    moreover have "uses m' g = uses m g" if g: "isFunction (kind m g)" "g \<notin> set (f # fs)" "direct_calls m g" for g
    proof -
      have n: "g \<noteq> ?NF" using fresh_unused(1) [OF Cons.prems(1)] function_defined [OF g(1)] by auto
      have gf: "g \<noteq> f" "g \<notin> set fs" using g(2) by simp_all
      note kk = kept_functionsD [OF kf(1) g(1) n]
      have "uses m' g = uses m1 g" using m'(5) kk(1) g(1) gf(2) kk(4) [OF gf(1) g(3)] by simp
      then show ?thesis using kk(5) [OF gf(1) g(3)] by simp
    qed
    moreover have "kind m' g = kind m g \<and> getName m' g = getName m g \<and> getType m' g = getType m g \<or>
       isFunction (kind m' g) \<and> (\<exists>n. replacement n = Some (getName m' g))" if g: "isGlobalObject (kind m' g)" for g
    proof (cases "isFunction (kind m' g) \<and> (\<exists>n. replacement n = Some (getName m' g))")
      case False
      then have e: "kind m' g = kind m1 g" "getName m' g = getName m1 g" "getType m' g = getType m1 g"
        using m'(6) g by blast+
      then have "g \<noteq> ?NF" using False kf(2,3) Some by auto
      then show ?thesis using kept_functionsD2 [OF kf(1)] g e by simp
    qed simp
    moreover obtain \<sigma> where sg: "renamed \<sigma> m m1" "\<sigma> f = ?NF" "\<forall>g. isFunction (kind m g) \<longrightarrow> g \<noteq> f \<longrightarrow> \<sigma> g = g"
      using replaceFuncionWith_renamed [OF Cons.prems(1) dc f m1(1)] by blast
    obtain \<tau> where tau: "renamed \<tau> m1 m'"
        "\<forall>g. isFunction (kind m1 g) \<longrightarrow> getName m' (\<tau> g) = rename_in (getName m ` set fs) (getName m1 g)"
      using m'(7) st(2) by auto
    have "renamed (\<tau> \<circ> \<sigma>) m m'" by (rule renamed_trans [OF sg(1) tau(1) Cons.prems(1)])
    moreover have "getName m' ((\<tau> \<circ> \<sigma>) g) = rename_in (getName m ` set (f # fs)) (getName m g)"
      if g: "isFunction (kind m g)" for g
    proof -
      have "getName m1 (\<sigma> g) = rename_in {getName m f} (getName m g)"
      proof (cases "g = f")
        case True
        with sg(2) kf(3) Some show ?thesis by (simp add: rename_in_def)
      next
        case False
        have "g \<noteq> ?NF" using fresh_unused(1) [OF Cons.prems(1)] function_defined [OF g] by auto
        then show ?thesis
          using sg(3) g False kept_functionsD(2) [OF kf(1) g] fn [OF g False] by (simp add: rename_in_def)
      qed
      moreover have "isFunction (kind m1 (\<sigma> g))" using renamedD(3) [OF sg(1) function_defined [OF g]] g by simp
      ultimately show ?thesis
        using tau(2) rename_in_insert [OF nf replacement_None] by simp
    qed
    ultimately show ?thesis
      using m1(1) m'(1,2) Some by (simp del: comp_apply) blast
  qed
qed

end

section \<open>Declaring the runtime functions\<close>

definition hook_names :: "string list" where
  "hook_names = [''__loadCheck'', ''__GEPCheck'', ''__nestedGEPCheck'', ''__storeCheck'', ''__xpac'', ''__noCheck'']"

lemma signature_extends:
  assumes wf: "ir_wf m" and e: "module_extends m m'" and v: "vals m x \<noteq> None"
  shows "signature m' x = signature m x"
proof -
  have info: "info m' w = info m w" if "vals m w \<noteq> None" for w
    using e that by (simp add: module_extends_def info_def)
  have "callee_name m' x = callee_name m x" if k: "kind m x = Call"
  proof -
    let ?i = "length (operands m x) - 1"
    have "?i < length (operands m x)" using ir_wfD(10) [OF wf, of x] k by (cases "operands m x") auto
    then have o: "vals m (getOperand m x ?i) \<noteq> None" by (rule getOperand_defined [OF wf])
    have "getOperand m' x ?i = getOperand m x ?i" using info [OF v] by (simp add: getOperand_def)
    then show ?thesis
      using info [OF v] info [OF o] by (simp add: callee_name_def getCalledFunction_def Let_def)
  qed
  then show ?thesis using info [OF v] by (cases "kind m x = Call") (simp_all add: signature_def callee_name_def)
qed

lemma signatures_extends:
  assumes wf: "ir_wf m" and e: "module_extends m m'"
  shows "signatures m' h = signatures m h"
proof -
  have "blocks m' = blocks m" using e by (simp add: module_extends_def)
  then show ?thesis using signature_extends [OF wf e] ir_wfD(8) [OF wf] by (simp add: signatures_def)
qed

lemma module_extends_trans: "module_extends m m1 \<Longrightarrow> module_extends m1 m2 \<Longrightarrow> module_extends m m2"
  unfolding module_extends_def by auto

lemma hook_ok_extends:
  "hook_ok m h \<Longrightarrow> module_extends m m' \<Longrightarrow> hook_ok m' h \<and> getName m' h = getName m h"
  by (simp add: hook_ok_def module_extends_def info_def)

context llvm
begin

lemma declare_hook:
  assumes wf: "ir_wf m" and nc: "\<forall>k \<in> set (nm # ks). no_clash m k hook_type" and dist: "distinct (nm # ks)"
    and r: "ll_getOrInsertFunction LL nm hook_type m = (f, m')"
  shows "ir_wf m'" "module_extends m m'" "hook_ok m' f" "getName m' f = nm" "\<forall>k \<in> set ks. no_clash m' k hook_type"
    "distinct ks"
proof -
  have nc1: "no_clash m nm hook_type" using nc by simp
  note law = getOrInsert_law [OF wf r nc1]
  then show "ir_wf m'" "module_extends m m'" "hook_ok m' f" "getName m' f = nm" "distinct ks"
    using dist by (simp_all add: hook_ok_def module_extends_def)
  show "\<forall>k \<in> set ks. no_clash m' k hook_type"
    unfolding no_clash_def
  proof (intro ballI allI impI)
    fix k g assume k: "k \<in> set ks" and g: "isGlobalObject (kind m' g)" "getName m' g = k"
    then have "g \<noteq> f" using law dist by auto
    then have "info m' g = info m g" using law g(1) by (simp add: info_def)
    then show "isFunction (kind m' g) \<and> getType m' g = PointerTy hook_type" using g k nc by (simp add: no_clash_def)
  qed
qed

lemma declare_hooks_ok:
  assumes wf: "ir_wf m" and nc: "\<forall>nm \<in> set hook_names. no_clash m nm hook_type"
    and r: "declare_hooks LL m = (H, m')"
  shows "ir_wf m' \<and> module_extends m m' \<and> hooks_ok m' H \<and> getName m' ` all_hooks H = set hook_names"
proof -
  obtain lc m1 where 1: "ll_getOrInsertFunction LL ''__loadCheck'' hook_type m = (lc, m1)" by fastforce
  obtain gc m2 where 2: "ll_getOrInsertFunction LL ''__GEPCheck'' hook_type m1 = (gc, m2)" by fastforce
  obtain ng m3 where 3: "ll_getOrInsertFunction LL ''__nestedGEPCheck'' hook_type m2 = (ng, m3)" by fastforce
  obtain sc m4 where 4: "ll_getOrInsertFunction LL ''__storeCheck'' hook_type m3 = (sc, m4)" by fastforce
  obtain xp m5 where 5: "ll_getOrInsertFunction LL ''__xpac'' hook_type m4 = (xp, m5)" by fastforce
  obtain no m6 where 6: "ll_getOrInsertFunction LL ''__noCheck'' hook_type m5 = (no, m6)" by fastforce
  have H: "H = \<lparr>h_loadCheck = lc, h_storeCheck = sc, h_xpac = xp, h_noCheck = no, h_GEPCheck = gc, h_nestedGEPCheck = ng\<rparr>"
      "m' = m6"
    using r by (simp_all add: declare_hooks_def 1 2 3 4 5 6)
  have d: "distinct [''__loadCheck'', ''__GEPCheck'', ''__nestedGEPCheck'', ''__storeCheck'', ''__xpac'', ''__noCheck'']"
    by simp
  note s1 = declare_hook [OF wf nc [unfolded hook_names_def] d 1]
  note s2 = declare_hook [OF s1(1,5,6) 2]
  note s3 = declare_hook [OF s2(1,5,6) 3]
  note s4 = declare_hook [OF s3(1,5,6) 4]
  note s5 = declare_hook [OF s4(1,5,6) 5]
  note s6 = declare_hook [OF s5(1,5,6) 6]
  note t5 = module_extends_trans [OF s5(2) s6(2)]
  note t4 = module_extends_trans [OF s4(2) t5]
  note t3 = module_extends_trans [OF s3(2) t4]
  note t2 = module_extends_trans [OF s2(2) t3]
  note k = hook_ok_extends [OF s1(3) t2] hook_ok_extends [OF s2(3) t3] hook_ok_extends [OF s3(3) t4]
    hook_ok_extends [OF s4(3) t5] hook_ok_extends [OF s5(3) s6(2)]
  have "hooks_ok m6 H"
    using k s6(3) s1(4) s2(4) s3(4) unfolding hooks_ok_def H by simp
  moreover have "getName m6 ` all_hooks H = set hook_names"
    using k s1(4) s2(4) s3(4) s4(4) s5(4) s6(4) unfolding all_hooks_def hook_names_def H by auto
  ultimately show ?thesis
    using s6(1) module_extends_trans [OF s1(2) t2] by (simp add: H(2))
qed

end

text \<open>Instrumenting keeps what each old instruction does.\<close>

lemma instrumented_signature:
  assumes wf: "ir_wf m" and i: "instrumented m m'" and v: "vals m x \<noteq> None"
  shows "signature m' x = signature m x"
proof -
  have sv: "same_value m m' w" if "vals m w \<noteq> None" for w using i that by (simp add: instrumented_def)
  note x = sv [OF v, unfolded same_value_def]
  have "callee_name m' x = callee_name m x" if k: "kind m x = Call"
  proof -
    let ?i = "length (operands m x) - 1"
    have ne: "operands m x \<noteq> []" using ir_wfD(10) [OF wf, of x] k by (cases "operands m x") auto
    then have ne': "operands m' x \<noteq> []" using x by auto
    have "vals m (last (operands m x)) \<noteq> None" using ir_wfD(5) [OF wf, of "last (operands m x)" x] ne by simp
    from sv [OF this] x k ne have "kind m' (last (operands m' x)) = kind m (last (operands m x))"
        "getName m' (last (operands m' x)) = getName m (last (operands m x))"
      by (simp_all add: same_value_def)
    moreover have "getOperand m' x (length (operands m' x) - 1) = last (operands m' x)"
        "getOperand m x ?i = last (operands m x)"
      using ne ne' by (simp_all add: getOperand_def last_conv_nth)
    moreover have "kind m' x = kind m x" using x by simp
    ultimately show ?thesis using k by (simp add: callee_name_def getCalledFunction_def Let_def)
  qed
  then show ?thesis using x by (cases "kind m x = Call") (simp_all add: signature_def callee_name_def)
qed

lemma instrumented_signatures:
  assumes wf: "ir_wf m" and i: "instrumented m m'"
  shows "map (\<lambda>B. map (signature m') (filter (\<lambda>x. x < next_vid m) B)) (blocks m' h) = signatures m h"
proof -
  have "list_all2 (\<lambda>B B'. filter (\<lambda>x. x < next_vid m) B' = B) (blocks m h) (blocks m' h)"
    using i by (simp add: instrumented_def)
  then have "map (filter (\<lambda>x. x < next_vid m)) (blocks m' h) = blocks m h"
    by (auto simp: list_all2_conv_all_nth intro: nth_equalityI)
  then have "map (\<lambda>B. map (signature m') (filter (\<lambda>x. x < next_vid m) B)) (blocks m' h) = map (map (signature m')) (blocks m h)"
    by (metis (no_types, lifting) comp_apply list.map_comp map_eq_conv)
  then show ?thesis
    using instrumented_signature [OF wf i ir_wfD(8) [OF wf]] by (simp add: signatures_def)
qed

text \<open>
  What the pass makes of a module \<open>m\<close>, up to the renaming \<open>\<sigma>\<close>: a function stands for itself or for
  the function of the runtime library that replaces it, every other value that is no call for
  itself; every block is the old one with new values (from \<open>n\<close> on) in between, which are casts and
  calls of the runtime functions with one argument; and every operand leads back to the old one.
\<close>

definition carries :: "growth \<Rightarrow> vid \<Rightarrow> (vid \<Rightarrow> vid) \<Rightarrow> ir \<Rightarrow> ir \<Rightarrow> bool" where
  "carries K n \<sigma> m m' \<longleftrightarrow>
     (\<forall>f. isFunction (kind m f) \<longrightarrow> isFunction (kind m' (\<sigma> f)) \<and>
        getName m' (\<sigma> f) = rename_in (getName m ` set (getFunctionList m)) (getName m f)) \<and>
     (\<forall>z. vals m z \<noteq> None \<longrightarrow> \<not> isFunction (kind m z) \<longrightarrow>
        (kind m z \<noteq> Call \<longrightarrow> \<sigma> z = z) \<and>
        list_all2 (\<lambda>w w'. leads K n m' w' (\<sigma> w)) (operands m z) (operands m' (\<sigma> z))) \<and>
     (\<forall>h. list_all2 (list_all2 (\<lambda>x y. \<not> isFunction (kind m x) \<longrightarrow> y = \<sigma> x))
        (blocks m h) (map (filter (\<lambda>x. x < n)) (blocks m' h)) \<and>
        (\<forall>B \<in> set (blocks m' h). \<forall>x \<in> set B. n \<le> x \<longrightarrow> inserted K m' x))"

lemma carries_compose:
  assumes r: "renamed \<sigma> m m1" and wf: "ir_wf m1"
    and nm: "\<And>f. isFunction (kind m f) \<Longrightarrow>
      getName m1 (\<sigma> f) = rename_in (getName m ` set (getFunctionList m)) (getName m f)"
    and i: "instrumented m1 m'" and tr: "traces K m1 m'"
  shows "carries K (next_vid m1) \<sigma> m m'"
proof -
  have sv: "same_value m1 m' v" if "vals m1 v \<noteq> None" for v using i that by (simp add: instrumented_def)
  have "isFunction (kind m' (\<sigma> f)) \<and> getName m' (\<sigma> f) = rename_in (getName m ` set (getFunctionList m)) (getName m f)"
    if f: "isFunction (kind m f)" for f
  proof -
    note d = renamedD(1,3) [OF r function_defined [OF f]]
    then show ?thesis using f nm [OF f] sv [of "\<sigma> f"] by (simp add: same_value_def)
  qed
  moreover have "(kind m z \<noteq> Call \<longrightarrow> \<sigma> z = z) \<and>
      list_all2 (\<lambda>w w'. leads K (next_vid m1) m' w' (\<sigma> w)) (operands m z) (operands m' (\<sigma> z))"
    if z: "vals m z \<noteq> None" "\<not> isFunction (kind m z)" for z
  proof -
    note d = renamedD [OF r z(1)]
    have "length (operands m' (\<sigma> z)) = length (operands m z)"
      using sv [OF d(1)] d(6) [OF z(2)] by (simp add: same_value_def)
    moreover have "leads K (next_vid m1) m' (operands m' (\<sigma> z) ! i) (\<sigma> (operands m z ! i))"
      if "i < length (operands m z)" for i
      using tracesD(1) [OF tr d(1), of i] that d(6) [OF z(2)] by simp
    ultimately show ?thesis using d(5) [OF z(2)] by (simp add: list_all2_conv_all_nth)
  qed
  moreover have "list_all2 (list_all2 (\<lambda>x y. \<not> isFunction (kind m x) \<longrightarrow> y = \<sigma> x))
        (blocks m h) (map (filter (\<lambda>x. x < next_vid m1)) (blocks m' h))" for h
  proof -
    have "list_all2 (\<lambda>B B'. filter (\<lambda>x. x < next_vid m1) B' = B) (blocks m1 h) (blocks m' h)"
      using i by (simp add: instrumented_def)
    then have "map (filter (\<lambda>x. x < next_vid m1)) (blocks m' h) = blocks m1 h"
      by (auto simp: list_all2_conv_all_nth intro: nth_equalityI)
    then show ?thesis using renamed_blocks [OF r, of h] by simp
  qed
  ultimately show ?thesis using tr by (auto simp: carries_def traces_def)
qed

context llvm
begin

lemma pass_returns:
  assumes wf: "ir_wf m" and r: "replaceable m (getFunctionList m)"
    and nc: "\<forall>nm \<in> set hook_names. no_clash m nm hook_type"
  shows "\<exists>m' st' n \<sigma> H. runOnModule LL cfg (m, st) = Some (Inr (m', st')) \<and> ir_wf m' \<and>
    (\<forall>h. map (\<lambda>B. map (signature m') (filter (\<lambda>x. x < n) B)) (blocks m' h) =
       map (map (rename_callee (getName m ` set (getFunctionList m)))) (signatures m h)) \<and>
    carries (growth_of LL H) n \<sigma> m m' \<and> getName m' ` all_hooks H = set hook_names"
proof -
  obtain m1 where m1: "replace_functions LL (getFunctionList m) m = Some (Inr m1)" "ir_wf m1"
      "\<forall>h. signatures m1 h = map (map (rename_callee (getName m ` set (getFunctionList m)))) (signatures m h)"
      "\<forall>g. isGlobalObject (kind m1 g) \<longrightarrow>
         kind m1 g = kind m g \<and> getName m1 g = getName m g \<and> getType m1 g = getType m g \<or>
         isFunction (kind m1 g) \<and> (\<exists>n. replacement n = Some (getName m1 g))"
      "\<exists>\<sigma>. renamed \<sigma> m m1 \<and>
         (\<forall>g. isFunction (kind m g) \<longrightarrow> getName m1 (\<sigma> g) = rename_in (getName m ` set (getFunctionList m)) (getName m g))"
    using replace_functions_returns [OF wf r] by blast
  have "no_clash m1 nm hook_type" if nm: "nm \<in> set hook_names" for nm
    unfolding no_clash_def
  proof (intro allI impI)
    fix g assume g: "isGlobalObject (kind m1 g)" "getName m1 g = nm"
    have "replacement n \<noteq> Some nm" for n using nm by (auto simp: hook_names_def replacement_def)
    with m1(4) g have "kind m1 g = kind m g" "getName m1 g = getName m g" "getType m1 g = getType m g" by blast+
    then show "isFunction (kind m1 g) \<and> getType m1 g = PointerTy hook_type"
      using g nc nm by (auto simp: no_clash_def)
  qed
  moreover obtain H m2 where m2: "declare_hooks LL m1 = (H, m2)" by fastforce
  ultimately have 2: "ir_wf m2" "module_extends m1 m2" "hooks_ok m2 H" "getName m2 ` all_hooks H = set hook_names"
    using declare_hooks_ok [OF m1(2) _ m2] by blast+
  obtain m3 st3 where 3: "run_functions LL cfg H (getFunctionList m2) (m2, st) = Some (m3, st3)" "instrumented m2 m3"
      "traces (growth_of LL H) m2 m3"
    using run_functions_returns [OF 2(1,3)] by blast
  have ran: "runOnModule LL cfg (m, st) = Some (Inr (m3, st3))"
    by (simp add: runOnModule_def m1(1) m2 3(1))
  have wf3: "ir_wf m3" using 3(2) by (simp add: instrumented_def)
  have sigs: "map (\<lambda>B. map (signature m3) (filter (\<lambda>x. x < next_vid m2) B)) (blocks m3 h) =
       map (map (rename_callee (getName m ` set (getFunctionList m)))) (signatures m h)" for h
    using instrumented_signatures [OF 2(1) 3(2)] signatures_extends [OF m1(2) 2(2)] m1(3) by simp
  obtain \<sigma> where s: "renamed \<sigma> m m1"
      "\<And>g. isFunction (kind m g) \<Longrightarrow> getName m1 (\<sigma> g) = rename_in (getName m ` set (getFunctionList m)) (getName m g)"
    using m1(5) by blast
  have "renamed \<sigma> m m2"
    using renamed_trans [OF s(1) renamed_extends [OF 2(2) m1(2)] wf] by simp
  moreover have "getName m2 (\<sigma> g) = rename_in (getName m ` set (getFunctionList m)) (getName m g)"
    if g: "isFunction (kind m g)" for g
    using s(2) [OF g] renamedD(1) [OF s(1) function_defined [OF g]] 2(2) by (simp add: module_extends_def info_def)
  ultimately have "carries (growth_of LL H) (next_vid m2) \<sigma> m m3"
    using 2(1) 3(2,3) by (intro carries_compose)
  moreover have "getName m3 ` all_hooks H = set hook_names"
  proof -
    have "getName m3 h = getName m2 h" if "h \<in> all_hooks H" for h
      using that 2(3) 3(2) by (auto simp: all_hooks_def hooks_ok_def hook_ok_def instrumented_def same_value_def)
    then show ?thesis using 2(4) by auto
  qed
  ultimately show ?thesis using ran wf3 sigs by blast
qed

end

end
