(* ===== verification/PT_SampleModule.thy ===== *)
theory PT_SampleModule imports PT_Module begin

text \<open>Small modules the properties of the pass are instantiated at.\<close>

definition empty_module :: ir where
  "empty_module = \<lparr>vals = \<lambda>_. None, uses = \<lambda>_. [], blocks = \<lambda>_. [], getFunctionList = [], next_vid = 1\<rparr>"

lemma ir_wf_empty: "ir_wf empty_module"
  by (simp add: ir_wf_def empty_module_def use_of_def info_def null_info_def)

lemma ir_wf_layout:
  assumes "ir_wf m" and "\<forall>f. \<forall>B \<in> set (bs f). distinct B \<and> (\<forall>x \<in> set B. vals m x \<noteq> None)"
  shows "ir_wf (m\<lparr>blocks := bs, getFunctionList := fs\<rparr>)"
  using assms unfolding ir_wf_def by (simp add: use_of_def info_def)

definition add_value :: "kind \<Rightarrow> ty \<Rightarrow> string \<Rightarrow> vid list \<Rightarrow> ir \<Rightarrow> ir" where
  "add_value k t nm vs m = snd (new_value k t nm vs m)"

lemma ir_wf_add: "ir_wf m \<Longrightarrow> \<forall>v \<in> set vs. vals m v \<noteq> None \<Longrightarrow> arity_ok k (length vs) \<Longrightarrow> ir_wf (add_value k t nm vs m)"
  unfolding add_value_def by (rule ir_wf_new_value)

abbreviation "malloc_ty \<equiv> PointerTy (FunctionTy VoidPtrTy [IntTy 64])"
abbreviation "foo_ty \<equiv> PointerTy (FunctionTy VoidTy [malloc_ty])"

text \<open>
  \<open>main\<close> (3) calls \<open>malloc(8)\<close> (6), stores the pointer (7) in a local variable (5), reads it back
  (8), reads the first byte of the block (10) through the address (9), and returns (11).
\<close>

definition sample_values :: ir where
  "sample_values =
     add_value Ret VoidTy [] []
     (add_value Load (IntTy 8) [] [9]
     (add_value GetElementPtr VoidPtrTy [] [8]
     (add_value Load VoidPtrTy [] [5]
     (add_value Store VoidTy [] [6, 5]
     (add_value Call VoidPtrTy [] [4, 1]
     (add_value (Alloca VoidPtrTy) (PointerTy VoidPtrTy) ''p'' []
     (add_value ConstantVal (IntTy 64) [] []
     (add_value (Function False) (PointerTy (FunctionTy VoidTy [])) ''main'' []
     (add_value (Function True) foo_ty ''foo'' []
     (add_value (Function True) malloc_ty ''malloc'' [] empty_module))))))))))"

definition sample_module :: ir where
  "sample_module = sample_values\<lparr>blocks := (\<lambda>_. [])(3 := [[5, 6, 7, 8, 9, 10, 11]]), getFunctionList := [1, 2, 3]\<rparr>"

text \<open>\<open>main\<close> (3) passes \<open>malloc\<close> itself to \<open>foo\<close>.\<close>

definition escape_module :: ir where
  "escape_module =
     (add_value Call VoidTy [] [1, 2]
     (add_value (Function False) (PointerTy (FunctionTy VoidTy [])) ''main'' []
     (add_value (Function True) foo_ty ''foo'' []
     (add_value (Function True) malloc_ty ''malloc'' [] empty_module))))
     \<lparr>blocks := (\<lambda>_. [])(3 := [[4]]), getFunctionList := [1, 2, 3]\<rparr>"

lemma vals_add: "vals (add_value k t nm vs m) v =
    (if v = next_vid m then Some \<lparr>kind_of = k, type_of = t, name_of = nm, ops_of = vs\<rparr> else vals m v)"
  by (simp add: add_value_def vals_new_value)

lemma next_add: "next_vid (add_value k t nm vs m) = Suc (next_vid m)"
  by (simp add: add_value_def)

lemma uses_add: "uses (add_value k t nm vs m) = push_uses (next_vid m) 0 vs (uses m)"
  by (simp add: add_value_def new_value_def Let_def)

lemmas sample_simps = vals_add next_add uses_add empty_module_def push_use_def

lemma ir_wf_sample: "ir_wf sample_module"
  unfolding sample_module_def
proof (rule ir_wf_layout)
  show "ir_wf sample_values"
    unfolding sample_values_def by (intro ir_wf_add ir_wf_empty) (simp_all add: sample_simps)
qed (simp add: sample_values_def sample_simps)

lemma ir_wf_escape: "ir_wf escape_module"
  unfolding escape_module_def
  by (intro ir_wf_layout ir_wf_add ir_wf_empty) (simp_all add: sample_simps)

lemma vals_sample: "vals sample_module v = vals sample_values v"
  by (simp add: sample_module_def)

lemma info_sample: "info sample_module v =
  (if v = 1 then \<lparr>kind_of = Function True, type_of = malloc_ty, name_of = ''malloc'', ops_of = []\<rparr>
   else if v = 2 then \<lparr>kind_of = Function True, type_of = foo_ty, name_of = ''foo'', ops_of = []\<rparr>
   else if v = 3 then \<lparr>kind_of = Function False, type_of = PointerTy (FunctionTy VoidTy []), name_of = ''main'', ops_of = []\<rparr>
   else if v = 4 then \<lparr>kind_of = ConstantVal, type_of = IntTy 64, name_of = [], ops_of = []\<rparr>
   else if v = 5 then \<lparr>kind_of = Alloca VoidPtrTy, type_of = PointerTy VoidPtrTy, name_of = ''p'', ops_of = []\<rparr>
   else if v = 6 then \<lparr>kind_of = Call, type_of = VoidPtrTy, name_of = [], ops_of = [4, 1]\<rparr>
   else if v = 7 then \<lparr>kind_of = Store, type_of = VoidTy, name_of = [], ops_of = [6, 5]\<rparr>
   else if v = 8 then \<lparr>kind_of = Load, type_of = VoidPtrTy, name_of = [], ops_of = [5]\<rparr>
   else if v = 9 then \<lparr>kind_of = GetElementPtr, type_of = VoidPtrTy, name_of = [], ops_of = [8]\<rparr>
   else if v = 10 then \<lparr>kind_of = Load, type_of = IntTy 8, name_of = [], ops_of = [9]\<rparr>
   else if v = 11 then \<lparr>kind_of = Ret, type_of = VoidTy, name_of = [], ops_of = []\<rparr>
   else null_info)"
  by (simp add: info_def vals_sample sample_values_def sample_simps)

lemma uses_sample: "uses sample_module 1 = [Use 6 1]"
  by (simp add: sample_module_def sample_values_def uses_add) (simp add: sample_simps)

lemma replaceable_sample: "replaceable sample_module (getFunctionList sample_module)"
proof -
  have "isFunction (kind sample_module g) \<longleftrightarrow> g \<in> {1, 2, 3}" for g
    by (simp add: info_sample null_info_def)
  moreover have "direct_calls sample_module 1"
    unfolding direct_calls_def uses_sample by (simp add: info_sample getNumArgOperands_def)
  moreover have "getFunctionList sample_module = [1, 2, 3]" by (simp add: sample_module_def)
  ultimately show ?thesis by (simp add: replaceable_def info_sample replacement_def)
qed

lemma no_clash_sample: "\<forall>nm \<in> set hook_names. no_clash sample_module nm hook_type"
  by (simp add: hook_names_def no_clash_def info_sample isGlobalObject_def null_info_def)

end
