(* ===== verification/PT_Pass_Props.thy ===== *)
theory PT_Pass_Props imports PT_SampleModule begin

text \<open>The properties of the LLVM pass.\<close>

section \<open>One inserted check\<close>

text \<open>What inserting instructions in front of a position does to the blocks.\<close>

definition insert_all_before :: "vid \<Rightarrow> vid list \<Rightarrow> vid list list \<Rightarrow> vid list list" where
  "insert_all_before pos ns Bs = map (\<lambda>B. concat (map (\<lambda>x. if x = pos then ns @ [x] else [x]) B)) Bs"

lemma insert_before_concat:
  "distinct B \<Longrightarrow> insert_before pos n B = concat (map (\<lambda>x. if x = pos then [n, x] else [x]) B)"
proof (induction B)
  case (Cons x B)
  have "pos \<notin> set B \<Longrightarrow> concat (map (\<lambda>x. if x = pos then [n, x] else [x]) B) = B" by (induction B) auto
  with Cons show ?case by auto
qed simp

lemma insert_all_Cons:
  assumes "pos \<noteq> n" and "distinct B" and "n \<notin> set B" and "pos \<notin> set ns"
  shows "insert_before pos n (concat (map (\<lambda>x. if x = pos then ns @ [x] else [x]) B)) =
    concat (map (\<lambda>x. if x = pos then (ns @ [n]) @ [x] else [x]) B)"
  using assms
proof (induction B)
  case (Cons x B)
  have skip: "insert_before pos n (xs @ ys) = xs @ insert_before pos n ys" if "pos \<notin> set xs" for xs ys
    using that by (induction xs) auto
  have idle: "pos \<notin> set B \<Longrightarrow> concat (map (\<lambda>x. if x = pos then zs @ [x] else [x]) B) = B" for zs by (induction B) auto
  show ?case using Cons by (auto simp: skip idle)
qed simp

lemma CreateBitCast_inst:
  assumes "getType m V \<noteq> T" and "\<not> isConstant (kind m V)"
  shows "CreateBitCast LL pos V T m = (next_vid m, InsertHelper (next_vid m) pos (snd (new_value BitCast T [] [V] m)))"
  using assms by (simp add: CreateBitCast_def new_value_def Let_def)

lemma CreateCall_inst:
  "CreateCall pos F Args m =
     (next_vid m, InsertHelper (next_vid m) pos (snd (new_value Call (return_type (getType m F)) [] (Args @ [F]) m)))"
  by (simp add: CreateCall_def new_value_def Let_def)

lemma blocks_InsertHelper: "blocks (InsertHelper n p m) f = map (insert_before p n) (blocks m f)"
  by (simp add: InsertHelper_def)

lemma insert_all_blocks:
  assumes "ir_wf m" and "pos < next_vid m" and "Bs = blocks m f"
  shows "map (insert_before pos (next_vid m)) Bs = insert_all_before pos [next_vid m] Bs"
    "map (insert_before pos (Suc (next_vid m))) (insert_all_before pos [next_vid m] Bs) =
     insert_all_before pos [next_vid m, Suc (next_vid m)] Bs"
    "map (insert_before pos (Suc (Suc (next_vid m)))) (insert_all_before pos [next_vid m, Suc (next_vid m)] Bs) =
     insert_all_before pos [next_vid m, Suc (next_vid m), Suc (Suc (next_vid m))] Bs"
proof -
  have B: "distinct B" "\<forall>n \<ge> next_vid m. n \<notin> set B" if "B \<in> set Bs" for B
    using that assms(3) ir_wfD(7,9) [OF assms(1)] by (auto simp: not_le) (meson leD)
  show "map (insert_before pos (next_vid m)) Bs = insert_all_before pos [next_vid m] Bs"
    using B by (auto simp: insert_all_before_def insert_before_concat cong: if_cong)
  show "map (insert_before pos (Suc (next_vid m))) (insert_all_before pos [next_vid m] Bs) =
     insert_all_before pos [next_vid m, Suc (next_vid m)] Bs"
    unfolding insert_all_before_def map_map
  proof (rule map_cong [OF refl])
    fix B assume "B \<in> set Bs"
    with B assms(2) show "(insert_before pos (Suc (next_vid m)) \<circ> (\<lambda>B. concat (map (\<lambda>x. if x = pos then [next_vid m] @ [x] else [x]) B))) B =
        concat (map (\<lambda>x. if x = pos then [next_vid m, Suc (next_vid m)] @ [x] else [x]) B)"
      using insert_all_Cons [where pos = pos and ns = "[next_vid m]" and n = "Suc (next_vid m)" and B = B] by (simp cong: if_cong)
  qed
  show "map (insert_before pos (Suc (Suc (next_vid m)))) (insert_all_before pos [next_vid m, Suc (next_vid m)] Bs) =
     insert_all_before pos [next_vid m, Suc (next_vid m), Suc (Suc (next_vid m))] Bs"
    unfolding insert_all_before_def map_map
  proof (rule map_cong [OF refl])
    fix B assume "B \<in> set Bs"
    with B assms(2) show "(insert_before pos (Suc (Suc (next_vid m))) \<circ>
        (\<lambda>B. concat (map (\<lambda>x. if x = pos then [next_vid m, Suc (next_vid m)] @ [x] else [x]) B))) B =
        concat (map (\<lambda>x. if x = pos then [next_vid m, Suc (next_vid m), Suc (Suc (next_vid m))] @ [x] else [x]) B)"
      using insert_all_Cons [where pos = pos and ns = "[next_vid m, Suc (next_vid m)]" and n = "Suc (Suc (next_vid m))" and B = B] by (simp cong: if_cong)
  qed
qed

lemma wrap_operand_parts:
  fixes LL :: llvm_lib
  assumes "ir_wf m" and "pos < next_vid m" and "u < next_vid m" and "i < length (operands m u)"
    and "hook < next_vid m" and "getType m hook = PointerTy hook_type" and "getOperand m u i < next_vid m"
    and "\<not> isConstant (kind m (getOperand m u i))" and "getType m (getOperand m u i) \<noteq> VoidPtrTy"
  defines "m' \<equiv> wrap_operand LL hook pos u i m" and "n \<equiv> next_vid m" and "V \<equiv> getOperand m u i"
  shows "(\<forall>f. blocks m' f = insert_all_before pos [n, Suc n, Suc (Suc n)] (blocks m f)) \<and>
    info m' n = \<lparr>kind_of = BitCast, type_of = VoidPtrTy, name_of = [], ops_of = [V]\<rparr> \<and>
    info m' (Suc n) = \<lparr>kind_of = Call, type_of = VoidPtrTy, name_of = [], ops_of = [n, hook]\<rparr> \<and>
    info m' (Suc (Suc n)) = \<lparr>kind_of = BitCast, type_of = getType m V, name_of = [], ops_of = [Suc n]\<rparr> \<and>
    operands m' u = (operands m u)[i := Suc (Suc n)] \<and>
    (\<forall>v < n. v \<noteq> u \<longrightarrow> info m' v = info m v)"
proof -
  define m1 where "m1 = InsertHelper n pos (snd (new_value BitCast VoidPtrTy [] [V] m))"
  define m2 where "m2 = InsertHelper (Suc n) pos (snd (new_value Call VoidPtrTy [] [n, hook] m1))"
  define m3 where "m3 = InsertHelper (Suc (Suc n)) pos (snd (new_value BitCast (getType m V) [] [Suc n] m2))"
  have n1: "next_vid m1 = Suc n" and n2: "next_vid m2 = Suc (Suc n)" by (simp_all add: m1_def m2_def n_def)
  have c1: "CreateBitCast LL pos V VoidPtrTy m = (n, m1)"
    unfolding m1_def n_def V_def by (rule CreateBitCast_inst) (use assms in simp_all)
  have t1: "getType m1 hook = PointerTy hook_type" using assms(5,6) by (simp add: m1_def info_new_value)
  have c2: "CreateCall pos hook [n] m1 = (Suc n, m2)"
    by (simp add: CreateCall_inst n1 m2_def t1 hook_type_def)
  have i2: "info m2 v = (if v = n then \<lparr>kind_of = BitCast, type_of = VoidPtrTy, name_of = [], ops_of = [V]\<rparr>
      else if v = Suc n then \<lparr>kind_of = Call, type_of = VoidPtrTy, name_of = [], ops_of = [n, hook]\<rparr> else info m v)" for v
    using n1 by (simp add: m2_def m1_def info_new_value n_def)
  have o2: "getOperand m2 u i = V" "getType m2 V = getType m V"
    using assms(3,4,7) by (simp_all add: i2 getOperand_def n_def V_def)
  have c3: "CreateBitCast LL pos (Suc n) (getType m V) m2 = (Suc (Suc n), m3)"
    using CreateBitCast_inst [of m2 "Suc n" "getType m V" LL pos] assms(9) by (simp add: i2 n2 m3_def V_def)
  have m': "m' = setOperand u i (Suc (Suc n)) m3"
    unfolding m'_def wrap_operand_def by (simp add: V_def [symmetric] c1 c2 o2 c3)
  have i3: "info m3 v = (if v = Suc (Suc n) then \<lparr>kind_of = BitCast, type_of = getType m V, name_of = [], ops_of = [Suc n]\<rparr>
      else info m2 v)" for v
    using n2 by (simp add: m3_def info_new_value)
  have "blocks m' f = map (insert_before pos (Suc (Suc n))) (map (insert_before pos (Suc n)) (map (insert_before pos n) (blocks m f)))" for f
    by (simp add: m' m3_def m2_def m1_def blocks_InsertHelper)
  then have "blocks m' f = insert_all_before pos [n, Suc n, Suc (Suc n)] (blocks m f)" for f
    using insert_all_blocks [OF assms(1,2) refl] by (simp add: n_def)
  moreover have un: "u < n" using assms(3) by (simp add: n_def)
  ultimately show ?thesis
    using assms(4) by (simp add: m' info_setOperand i3 i2)
qed

text \<open>
  C17. The instrumentation step itself (\<open>wrap_operand\<close>, the five lines every check in
  \<open>passutils.cpp\<close> is inserted with): for an operand that is no constant and of a type other than
  \<open>i8*\<close>, exactly three instructions are inserted, in this order, directly in front of the
  position: a cast of the old operand to \<open>i8*\<close>, a call of the runtime function on it, and a cast of
  the result back to the operand's type.  The last becomes the operand; every other value of the
  module is unchanged.
\<close>

theorem wrap_operand_correct:
  fixes LL :: llvm_lib
  assumes "ir_wf m" and "pos < next_vid m" and "u < next_vid m" and "i < length (operands m u)"
    and "hook < next_vid m" and "getType m hook = PointerTy hook_type" and "getOperand m u i < next_vid m"
    and "\<not> isConstant (kind m (getOperand m u i))" and "getType m (getOperand m u i) \<noteq> VoidPtrTy"
  defines "m' \<equiv> wrap_operand LL hook pos u i m" and "n \<equiv> next_vid m" and "V \<equiv> getOperand m u i"
  shows "(\<forall>f. blocks m' f = insert_all_before pos [n, Suc n, Suc (Suc n)] (blocks m f)) \<and>
    info m' n = \<lparr>kind_of = BitCast, type_of = VoidPtrTy, name_of = [], ops_of = [V]\<rparr> \<and>
    info m' (Suc n) = \<lparr>kind_of = Call, type_of = VoidPtrTy, name_of = [], ops_of = [n, hook]\<rparr> \<and>
    info m' (Suc (Suc n)) = \<lparr>kind_of = BitCast, type_of = getType m V, name_of = [], ops_of = [Suc n]\<rparr> \<and>
    operands m' u = (operands m u)[i := Suc (Suc n)] \<and>
    (\<forall>v < n. v \<noteq> u \<longrightarrow> info m' v = info m v)"
  unfolding assms(10-12) by (rule wrap_operand_parts) (use assms in simp_all)

text \<open>The load (8) of the local variable (5) in \<open>sample_module\<close>, checked by a function declared as value 12.\<close>

definition checked_module :: ir where
  "checked_module = add_value (Function True) (PointerTy hook_type) ''__loadCheck'' [] sample_module"

lemma info_checked: "info checked_module v =
    (if v = 12 then \<lparr>kind_of = Function True, type_of = PointerTy hook_type, name_of = ''__loadCheck'', ops_of = []\<rparr>
     else info sample_module v)"
  by (simp add: info_def checked_module_def vals_add) (simp add: sample_module_def sample_values_def next_add empty_module_def)

lemma next_sample: "next_vid sample_module = 12" "next_vid checked_module = 13"
  by (simp_all add: checked_module_def sample_module_def sample_values_def next_add empty_module_def)

lemma ir_wf_checked: "ir_wf checked_module"
  unfolding checked_module_def by (rule ir_wf_add) (simp_all add: ir_wf_sample)

theorem wrap_operand_correct_witness:
  "blocks (wrap_operand sample_llvm 12 8 8 0 checked_module) 3 = [[5, 6, 7, 13, 14, 15, 8, 9, 10, 11]] \<and>
   operands (wrap_operand sample_llvm 12 8 8 0 checked_module) 8 = [15]"
proof -
  have b: "blocks checked_module 3 = [[5, 6, 7, 8, 9, 10, 11]]"
    by (simp add: checked_module_def add_value_def sample_module_def)
  have "pos < next_vid checked_module" if "pos \<le> 12" for pos using that by (simp add: next_sample)
  from wrap_operand_correct [of checked_module 8 8 0 12 sample_llvm] this [of 8] this [of 12] ir_wf_checked
  show ?thesis
    by (simp add: info_checked info_sample getOperand_def next_sample b insert_all_before_def VoidPtrTy_def)
qed


text \<open>
  C22. Where the check of a call argument goes.  When an argument is loaded from a local variable
  \<open>AI\<close> (as every pointer variable is at \<open>-O0\<close>) that was not checked before, \<open>instrumentCalls\<close>
  inserts \<open>__loadCheck\<close> in front of the load and gives it the address of the variable itself, cast
  to \<open>i8*\<close>: the pointer the callee receives is loaded through the checked address but is itself
  not an argument of any check.
\<close>

theorem call_argument_check_takes_the_slot:
  assumes "ir_wf m" and "hooks_ok m H" and "ll_stripPointerCasts LL m (getOperand m CI i) = LI"
    and "kind m LI = Load" and "kind m (getOperand m LI 0) = Alloca t"
    and "getType m (getOperand m LI 0) = PointerTy t" and "t \<noteq> IntTy 8"
    and "\<forall>ptr \<in> set (pointers st). Operand1 ptr = getOperand m LI 0 \<longrightarrow> \<not> isCheckedBefore ptr"
  defines "m' \<equiv> fst (internal_arg_load LL H CI i (m, st))" and "n \<equiv> next_vid m"
  shows "info m' n = \<lparr>kind_of = BitCast, type_of = VoidPtrTy, name_of = [], ops_of = [getOperand m LI 0]\<rparr> \<and>
    info m' (Suc n) = \<lparr>kind_of = Call, type_of = VoidPtrTy, name_of = [], ops_of = [n, h_loadCheck H]\<rparr> \<and>
    operands m' LI = [Suc (Suc n)] \<and>
    (\<forall>f. blocks m' f = insert_all_before LI [n, Suc n, Suc (Suc n)] (blocks m f))"
proof -
  have one: "length (operands m LI) = 1" using ir_wfD(10) [OF assms(1), of LI] assms(4) by simp
  have "vals m LI \<noteq> None" using one by (cases "vals m LI") (auto simp: operands_None)
  then have l: "LI < next_vid m" using ir_wfD(4) [OF assms(1)] by auto
  have "vals m (getOperand m LI 0) \<noteq> None" using one by (intro getOperand_defined [OF assms(1)]) simp
  then have a: "getOperand m LI 0 < next_vid m" using ir_wfD(4) [OF assms(1)] by auto
  have h: "hook_ok m (h_loadCheck H)" using assms(2) by (simp add: hooks_ok_def)
  then have hn: "h_loadCheck H < next_vid m" using ir_wfD(4) [OF assms(1)] by (auto simp: hook_ok_def)
  have m': "m' = wrap_operand LL (h_loadCheck H) LI LI 0 m"
    using assms(3-5,8) by (auto simp: m'_def internal_arg_load_def Let_def)
  obtain v where v: "operands m LI = [v]" using one by (auto simp: length_Suc_conv)
  have "isConstant (kind m (getOperand m LI 0)) = False" "getType m (getOperand m LI 0) \<noteq> VoidPtrTy"
    using assms(5-7) by (simp_all add: VoidPtrTy_def)
  from wrap_operand_parts [OF assms(1) l l _ hn _ a _ this(2), of LL] this(1) one h
  show ?thesis unfolding m' n_def by (simp add: hook_ok_def v)
qed

text \<open>
  \<open>sample_call_module\<close>: \<open>main\<close> passes the pointer variable (5) to \<open>foo\<close>: load 6 and call 7.
\<close>

definition sample_call_module :: ir where
  "sample_call_module =
     (add_value Call VoidTy [] [6, 1]
     (add_value Load VoidPtrTy [] [5]
     (add_value (Alloca VoidPtrTy) (PointerTy VoidPtrTy) ''p'' []
     (add_value (Function True) (PointerTy hook_type) ''__nestedGEPCheck'' []
     (add_value (Function True) (PointerTy hook_type) ''__GEPCheck'' []
     (add_value (Function True) (PointerTy hook_type) ''__loadCheck'' []
     (add_value (Function True) (PointerTy (FunctionTy VoidTy [VoidPtrTy])) ''foo'' [] empty_module)))))))
     \<lparr>blocks := (\<lambda>_. [])(8 := [[5, 6, 7]]), getFunctionList := [1, 2, 3, 4]\<rparr>"

definition sample_hooks :: hooks where
  "sample_hooks = \<lparr>h_loadCheck = 2, h_storeCheck = 2, h_xpac = 2, h_noCheck = 2, h_GEPCheck = 3, h_nestedGEPCheck = 4\<rparr>"

lemma ir_wf_sample_call: "ir_wf sample_call_module"
  unfolding sample_call_module_def
  by (intro ir_wf_layout ir_wf_add ir_wf_empty) (simp_all add: sample_simps)

lemma info_sample_call: "info sample_call_module v =
  (if v = 1 then \<lparr>kind_of = Function True, type_of = PointerTy (FunctionTy VoidTy [VoidPtrTy]), name_of = ''foo'', ops_of = []\<rparr>
   else if v = 2 then \<lparr>kind_of = Function True, type_of = PointerTy hook_type, name_of = ''__loadCheck'', ops_of = []\<rparr>
   else if v = 3 then \<lparr>kind_of = Function True, type_of = PointerTy hook_type, name_of = ''__GEPCheck'', ops_of = []\<rparr>
   else if v = 4 then \<lparr>kind_of = Function True, type_of = PointerTy hook_type, name_of = ''__nestedGEPCheck'', ops_of = []\<rparr>
   else if v = 5 then \<lparr>kind_of = Alloca VoidPtrTy, type_of = PointerTy VoidPtrTy, name_of = ''p'', ops_of = []\<rparr>
   else if v = 6 then \<lparr>kind_of = Load, type_of = VoidPtrTy, name_of = [], ops_of = [5]\<rparr>
   else if v = 7 then \<lparr>kind_of = Call, type_of = VoidTy, name_of = [], ops_of = [6, 1]\<rparr>
   else null_info)"
  by (simp add: info_def sample_call_module_def sample_simps)

lemma sample_call_values:
  "vals sample_call_module v \<noteq> None \<longleftrightarrow> v \<in> {1, 2, 3, 4, 5, 6, 7}" "next_vid sample_call_module = 8"
  by (auto simp: sample_call_module_def sample_simps)

lemma hooks_ok_sample: "hooks_ok sample_call_module sample_hooks"
  unfolding hooks_ok_def hook_ok_def sample_call_values(1) by (simp add: sample_hooks_def info_sample_call)

theorem call_argument_check_takes_the_slot_witness:
  "operands (fst (internal_arg_load sample_llvm sample_hooks 7 0 (sample_call_module, initial_state))) 8 = [5] \<and>
   operands (fst (internal_arg_load sample_llvm sample_hooks 7 0 (sample_call_module, initial_state))) 9 = [8, 2]"
proof -
  have s: "ll_stripPointerCasts sample_llvm sample_call_module (getOperand sample_call_module 7 0) = 6"
    by (simp add: sample_llvm_def getOperand_def info_sample_call strip_casts_self)
  from call_argument_check_takes_the_slot [OF ir_wf_sample_call hooks_ok_sample s, of VoidPtrTy initial_state]
  show ?thesis
    by (simp add: info_sample_call getOperand_def VoidPtrTy_def initial_state_def sample_call_values(2) sample_hooks_def)
qed

section \<open>Replacing the allocation functions\<close>

text \<open>
  C19. \<open>replaceFuncionWith\<close> is complete for a function that is only called directly: the loop
  ends, no use of the old function is left, the new function has exactly as many, it stands in
  front of the old one in the module, and every block is the old one instruction by instruction
  (class, type, number of operands, called function), up to calls of the old function being calls
  of the new one.
\<close>

theorem replaceFuncionWith_correct:
  assumes "llvm LL" and "ir_wf m" and "direct_calls m f" and "isFunction (kind m f)"
  shows "\<exists>m'. replaceFuncionWith LL f nm m = Some (Inr m') \<and> ir_wf m' \<and> uses m' f = [] \<and>
    length (uses m' (next_vid m)) = length (uses m f) \<and>
    getFunctionList m' = insert_before f (next_vid m) (getFunctionList m) \<and>
    (\<forall>h. list_all2 (\<lambda>B B'. map (subst_callee f (next_vid m) \<circ> shape m') B' = map (subst_callee f (next_vid m) \<circ> shape m) B)
      (blocks m h) (blocks m' h))"
  using assms(2-4) by (rule llvm.replaceFuncionWith_returns [OF assms(1)])

theorem replaceFuncionWith_correct_witness:
  "\<exists>m'. replaceFuncionWith sample_llvm 1 ''__ptauth_malloc'' sample_module = Some (Inr m') \<and> ir_wf m' \<and>
    uses m' 1 = [] \<and> length (uses m' 12) = 1 \<and> getFunctionList m' = [12, 1, 2, 3]"
proof -
  have d: "direct_calls sample_module 1"
    unfolding direct_calls_def uses_sample by (simp add: info_sample getNumArgOperands_def)
  have f: "isFunction (kind sample_module 1)" by (simp add: info_sample)
  have l: "getFunctionList sample_module = [1, 2, 3]" by (simp add: sample_module_def)
  from replaceFuncionWith_correct [OF sample.llvm_axioms ir_wf_sample d f, of "''__ptauth_malloc''"]
  show ?thesis unfolding next_sample uses_sample l by auto
qed

text \<open>
  C20. \<open>replaceFuncionWith\<close> does not end when the function is passed as an argument of a call: the
  call is replaced by one with the same arguments, so the function never runs out of uses.
\<close>

theorem replaceFuncionWith_diverges:
  assumes "llvm LL" and "ir_wf m" and "escapes m f" and "isFunction (kind m f)"
  shows "replaceFuncionWith LL f nm m = None"
proof -
  let ?nv = "snd (new_value (Function True) (getType m f) nm [] m)"
  define m1 where "m1 = ?nv\<lparr>getFunctionList := insert_before f (next_vid m) (getFunctionList ?nv)\<rparr>"
  have fn: "f \<noteq> next_vid m" using function_defined [OF assms(4)] fresh_unused(1) [OF assms(2)] by auto
  have i1: "info m1 v = (if v = next_vid m then \<lparr>kind_of = Function True, type_of = getType m f, name_of = nm, ops_of = []\<rparr>
      else info m v)" for v
    by (simp add: m1_def info_def new_value_def Let_def)
  have u1: "uses m1 = uses m" by (simp add: m1_def new_value_def Let_def)
  have wf1: "ir_wf m1"
    using ir_wf_new_value [OF assms(2), of "[]" "Function True" "getType m f" nm]
    unfolding ir_wf_def m1_def by (simp add: use_of_def info_def)
  have users: "getUser u \<noteq> next_vid m" if "u \<in> set (uses m f)" for u
  proof -
    have "use_of m u f" using that ir_wfD(1) [OF assms(2)] by blast
    then have "vals m (getUser u) \<noteq> None"
      using operand_user_defined' [of "getOperandNo u" m "getUser u"] by (simp add: use_of_def)
    then show ?thesis using fresh_unused(1) [OF assms(2)] by auto
  qed
  have "escapes m1 f" using assms(3) users by (auto simp: escapes_def u1 i1 getNumArgOperands_def)
  then have "replace_loop LL f (next_vid m) m1 = None"
    by (rule replace_loop_diverges [OF assms(1) wf1]) (use assms(4) fn in \<open>simp_all add: i1\<close>)
  then show ?thesis by (simp add: replaceFuncionWith_def m1_def new_value_def Let_def)
qed

theorem replaceFuncionWith_diverges_witness:
  "replaceFuncionWith sample_llvm 1 ''__ptauth_malloc'' escape_module = None"
proof (rule replaceFuncionWith_diverges [OF sample.llvm_axioms ir_wf_escape])
  have i: "info escape_module 4 = \<lparr>kind_of = Call, type_of = VoidTy, name_of = [], ops_of = [1, 2]\<rparr>"
    by (simp add: info_def escape_module_def sample_simps)
  have "uses escape_module 1 = [Use 4 0]"
    unfolding escape_module_def by (simp add: sample_simps)
  then show "escapes escape_module 1" by (simp add: escapes_def i getNumArgOperands_def)
  show "isFunction (kind escape_module 1)" by (simp add: info_def escape_module_def sample_simps)
qed

section \<open>The whole pass\<close>

text \<open>
  C16. On a well-formed module whose functions have distinct names, whose \<open>malloc\<close>, \<open>calloc\<close>,
  \<open>realloc\<close> and \<open>free\<close> are only called directly and which uses the names of the runtime functions
  for nothing else, the pass returns, and what it returns is the old program with instrumentation in
  between.  Dropping the new instructions (those numbered from some \<open>n\<close> on), every block has the
  old instructions in the old order, with class, type, number of operands and the name of the called
  function as before, except that the allocation functions have become those of the runtime library.
  The new instructions are casts and calls with one argument of a runtime function.  No operand is
  lost or exchanged: up to the renaming \<open>\<sigma>\<close> of the replaced calls and functions, each operand of an
  old instruction leads back, through the casts and checks of its value, to the operand it was.
  Which operands are checked is stated of the handlers one by one.
\<close>

theorem runOnModule_instruments:
  assumes "llvm LL" and "ir_wf m" and "replaceable m (getFunctionList m)"
    and "\<forall>nm \<in> set hook_names. no_clash m nm hook_type"
  shows "\<exists>m' st' n \<sigma> H. runOnModule LL cfg (m, st) = Some (Inr (m', st')) \<and> ir_wf m' \<and>
    (\<forall>h. map (\<lambda>B. map (signature m') (filter (\<lambda>x. x < n) B)) (blocks m' h) =
       map (map (rename_callee (getName m ` set (getFunctionList m)))) (signatures m h)) \<and>
    carries (growth_of LL H) n \<sigma> m m' \<and> getName m' ` all_hooks H = set hook_names"
  using assms(2-4) by (rule llvm.pass_returns [OF assms(1)])

theorem runOnModule_instruments_witness:
  "\<exists>m' st' n. runOnModule sample_llvm config_h (sample_module, initial_state) = Some (Inr (m', st')) \<and>
    map (\<lambda>B. map (callee_name m') (filter (\<lambda>x. x < n) B)) (blocks m' 3) =
      [[None, Some ''__ptauth_malloc'', None, None, None, None, None]]"
proof -
  from runOnModule_instruments [OF sample.llvm_axioms ir_wf_sample replaceable_sample no_clash_sample, of config_h initial_state]
  obtain m' st' n where r: "runOnModule sample_llvm config_h (sample_module, initial_state) = Some (Inr (m', st'))"
      "map (\<lambda>B. map (signature m') (filter (\<lambda>x. x < n) B)) (blocks m' 3) =
       map (map (rename_callee (getName sample_module ` set (getFunctionList sample_module)))) (signatures sample_module 3)"
    by blast
  let ?last = "\<lambda>(k :: kind, t :: ty, a :: nat, c :: string option). c"
  have "map (\<lambda>B. map (callee_name m') (filter (\<lambda>x. x < n) B)) (blocks m' 3) =
      map (map ?last) (map (\<lambda>B. map (signature m') (filter (\<lambda>x. x < n) B)) (blocks m' 3))"
    by (simp add: signature_def)
  also have "\<dots> = [[None, Some ''__ptauth_malloc'', None, None, None, None, None]]"
  proof -
    have b: "blocks sample_module 3 = [[5, 6, 7, 8, 9, 10, 11]]" by (simp add: sample_module_def)
    have "getFunctionList sample_module = [1, 2, 3]" by (simp add: sample_module_def)
    then have S: "''malloc'' \<in> getName sample_module ` set (getFunctionList sample_module)" by (simp add: info_sample)
    have "callee_name sample_module x = (if x = 6 then Some ''malloc'' else None)" for x
      by (simp add: callee_name_def info_sample getCalledFunction_def getOperand_def null_info_def Let_def)
    then show ?thesis
      unfolding r(2) using S
      by (simp add: signatures_def b signature_def rename_callee_def rename_in_def replacement_def)
  qed
  finally show ?thesis using r(1) by (intro exI conjI)
qed

text \<open>
  C18. The loop over the instructions of a block steps through a list that grows under it; it ends
  nevertheless, for every function of a module, and the result is the old module with instructions
  inserted: old values keep class, type, name, called function and operand types, and every block
  restricted to the old instructions is the old block.
\<close>

theorem run_functions_terminates:
  assumes "llvm LL" and "ir_wf m" and "hooks_ok m H"
  shows "\<exists>m' st'. run_functions LL cfg H Fs (m, st) = Some (m', st') \<and> instrumented m m'"
  using llvm.run_functions_returns [OF assms] by blast

theorem run_functions_terminates_witness:
  "\<exists>m' st'. run_functions sample_llvm config_h sample_hooks [8] (sample_call_module, initial_state) = Some (m', st') \<and>
    map (filter (\<lambda>x. x < 8)) (blocks m' 8) = [[5, 6, 7]]"
proof -
  obtain m' st' where r: "run_functions sample_llvm config_h sample_hooks [8] (sample_call_module, initial_state) = Some (m', st')"
      "instrumented sample_call_module m'"
    using run_functions_terminates [OF sample.llvm_axioms ir_wf_sample_call hooks_ok_sample, of config_h "[8]" initial_state]
    by blast
  have "blocks sample_call_module 8 = [[5, 6, 7]]" by (simp add: sample_call_module_def)
  moreover have "list_all2 (\<lambda>B B'. filter (\<lambda>x. x < next_vid sample_call_module) B' = B) (blocks sample_call_module 8) (blocks m' 8)"
    using r(2) unfolding instrumented_def by blast
  ultimately have "list_all2 (\<lambda>B B'. filter (\<lambda>x. x < 8) B' = B) [[5, 6, 7]] (blocks m' 8)"
    by (simp only: sample_call_values(2))
  then have "map (filter (\<lambda>x. x < 8)) (blocks m' 8) = [[5, 6, 7]]" by (auto simp: list_all2_Cons1)
  with r(1) show ?thesis by (intro exI conjI)
qed

section \<open>What is instrumented\<close>

text \<open>
  C21. \<open>optimizer\<close> puts a function on the list of functions to skip exactly when none of its
  instructions calls \<open>__ptauth_free\<close>, passes a pointer to a function that is not on the avoid list,
  loads a pointer from a global variable, or loads from a computed address the base of an address
  computation.
\<close>

theorem optimizer_decides:
  "optimizedList (optimizer LL m F st) =
    (if \<exists>I \<in> set (function_insts m F). calls_free m I \<or> passes_pointer LL m I \<or> loads_global LL m I \<or> loads_nested m I
     then optimizedList st else getName m F # optimizedList st)"
  unfolding optimizer_def Let_def using optimizer_flags by auto

text \<open>
  The state of the pass: the table of pointers holds local variables that pointers (not to
  \<open>FILE\<close>) were stored in.
\<close>

definition pointers_ok :: "llvm_lib \<Rightarrow> ir \<Rightarrow> pass_state \<Rightarrow> bool" where
  "pointers_ok LL m st \<longleftrightarrow> (\<forall>p \<in> set (pointers st). vals m (Operand0 p) \<noteq> None \<and> vals m (Operand1 p) \<noteq> None \<and>
     isAlloca (kind m (Operand1 p)) \<and> isPointerTy (getType m (Operand0 p)) \<and> \<not> isFILE LL (getType m (Operand0 p)))"

lemma pointers_ok_grows: "pointers_ok LL m st \<Longrightarrow> grows K I m m' \<Longrightarrow> pointers_ok LL m' st"
  using growsD(3) [of K I m m'] by (fastforce simp: pointers_ok_def same_value_def)

lemma update_first_map:
  assumes "\<And>x. g (f x) = g x" shows "map g (update_first P f xs) = map g xs"
  using assms by (induction xs) simp_all

lemma pointers_ok_cong:
  assumes "map (\<lambda>p. (Operand0 p, Operand1 p)) (pointers st') = map (\<lambda>p. (Operand0 p, Operand1 p)) (pointers st)"
  shows "pointers_ok LL m st' = pointers_ok LL m st"
proof -
  have e: "pointers_ok LL m st \<longleftrightarrow> (\<forall>(a, b) \<in> set (map (\<lambda>p. (Operand0 p, Operand1 p)) (pointers st)). vals m a \<noteq> None \<and>
      vals m b \<noteq> None \<and> isAlloca (kind m b) \<and> isPointerTy (getType m a) \<and> \<not> isFILE LL (getType m a))" for st
    by (simp add: pointers_ok_def)
  show ?thesis unfolding e assms ..
qed

abbreviation slots :: "pass_state \<Rightarrow> (vid \<times> vid) list" where
  "slots st \<equiv> map (\<lambda>p. (Operand0 p, Operand1 p)) (pointers st)"

lemma internal_arg_slots: "slots (snd (internal_arg LL H CI i (m, st))) = slots st"
proof -
  have "slots (snd (internal_arg_load LL H CI i (m, st))) = slots st" for m st
    by (simp add: internal_arg_load_def Let_def update_first_map)
  moreover have "slots (snd (internal_arg_cast LL H CI i s)) = slots (snd s)" for s
    by (cases s) (simp add: internal_arg_cast_def Let_def update_first_map)
  ultimately show ?thesis by (simp add: internal_arg_def Let_def)
qed

lemma instrumentCalls_slots: "slots (snd (instrumentCalls LL cfg H CI (m, st))) = slots st"
proof -
  have "slots (snd (fold (internal_arg LL H CI) is s)) = slots (snd s)" for "is" s
  proof (induction "is" arbitrary: s)
    case (Cons i "is")
    then show ?case using internal_arg_slots [of LL H CI i "fst s" "snd s"] by simp
  qed simp
  then show ?thesis by (simp add: instrumentCalls_def Let_def split: option.split)
qed

lemma instrumentLoad_slots: "slots (snd (instrumentLoad LL H LI (m, st))) = slots st"
proof -
  have f: "slots (snd (load_field LL H LI GEP s)) = slots (snd s)" for GEP s
    by (cases s) (simp add: load_field_def Let_def)
  have l: "slots (snd (load_local LL H LI GEP (m, st))) = slots st" for GEP m
    by (simp add: load_local_def Let_def update_first_map)
  have "slots (snd (load_gep LL H LI (m, st))) = slots st" for m
    by (simp add: load_gep_def Let_def f l)
  then have "slots st' = slots st" if "load_gep LL H LI (m, st) = (m', st')" for m m' st'
    using that by (metis snd_conv)
  then show ?thesis by (simp add: instrumentLoad_def Let_def split: prod.split)
qed

text \<open>
  C23. The table of pointers stays sound: after visiting any instruction, every entry still names a
  local variable and a pointer that was stored in it, in the module as rewritten.
\<close>

theorem visit_keeps_pointers:
  assumes "llvm LL" and "ir_wf m" and "hooks_ok m H" and "vals m I \<noteq> None" and "pointers_ok LL m st"
  shows "pointers_ok LL (fst (visit LL cfg H I B (m, st))) (snd (visit LL cfg H I B (m, st)))"
proof -
  let ?s = "visit LL cfg H I B (m, st)"
  have "pointers_ok LL m (snd ?s)"
  proof (cases "kind m I = Store")
    case True
    have "length (operands m I) = 2" using ir_wfD(10) [OF assms(2), of I] True by simp
    then have d: "vals m (getOperand m I 0) \<noteq> None" "vals m (getOperand m I 1) \<noteq> None"
      by (intro getOperand_defined [OF assms(2)]; simp)+
    with True show ?thesis using assms(5) by (auto simp: visit_def instrumentStore_def Let_def pointers_ok_def)
  next
    case False
    have "slots (snd ?s) = slots st \<or> pointers (snd ?s) = []"
      using False by (simp add: visit_def Let_def instrumentLoad_slots instrumentCalls_slots instrumentAlloc_def
          instrumentReturn_def instrumentGEP_def)
    then show ?thesis
    proof
      assume "slots (snd ?s) = slots st"
      from pointers_ok_cong [OF this] assms(5) show ?thesis by blast
    qed (simp add: pointers_ok_def)
  qed
  moreover have "grows (growth_of LL H) I m (fst ?s)"
    by (rule llvm.visit_grows [OF assms(1-4)])
  ultimately show ?thesis by (rule pointers_ok_grows)
qed

theorem visit_keeps_pointers_witness:
  "pointers_ok sample_llvm (fst (visit sample_llvm config_h sample_hooks 6 [5, 6, 7] (sample_call_module, initial_state)))
     (snd (visit sample_llvm config_h sample_hooks 6 [5, 6, 7] (sample_call_module, initial_state)))"
  by (rule visit_keeps_pointers [OF sample.llvm_axioms ir_wf_sample_call hooks_ok_sample])
    (simp_all add: sample_call_values(1) pointers_ok_def initial_state_def del: not_None_eq)

text \<open>
  After the first nested check, the checks of fields are off: while the table \<open>GEPS\<close> is not
  empty, \<open>load_field\<close> (the last part of \<open>instrumentLoad\<close>) changes no instruction whatever the type of
  the base, and the table is only emptied by a call; in particular it survives the return of the
  function and silences the next one.
\<close>

theorem nested_checks_once:
  assumes "GEPS st \<noteq> []"
  shows "fst (load_field LL H LI GEP (m, st)) = m \<and>
    (kind m I \<noteq> Call \<longrightarrow> GEPS (snd (visit LL cfg H I B (m, st))) \<noteq> [])"
proof -
  have f: "GEPS (snd (load_field LL H LI GEP (m, st))) \<noteq> []" if "GEPS st \<noteq> []" for LI GEP m st
    using that by (simp add: load_field_def Let_def)
  have l: "GEPS (snd (load_local LL H LI GEP (m, st))) = GEPS st" for LI GEP m st
    by (simp add: load_local_def Let_def)
  have g: "GEPS (snd (load_gep LL H LI (m, st))) \<noteq> []" if "GEPS st \<noteq> []" for LI m st
  proof -
    let ?s = "load_local LL H LI (list_user_back m LI) (m, st)"
    have "GEPS (snd (load_field LL H LI (list_user_back m LI) (fst ?s, snd ?s))) \<noteq> []" by (rule f) (simp add: l that)
    then show ?thesis using that by (simp add: load_gep_def Let_def)
  qed
  have "GEPS (snd (instrumentLoad LL H LI (m, st))) \<noteq> []" if "GEPS st \<noteq> []" for LI m st
    using g [OF that] that by (simp add: instrumentLoad_def Let_def split: prod.split) (metis snd_conv)
  then show ?thesis
    using assms by (auto simp: load_field_def visit_def Let_def instrumentAlloc_def instrumentReturn_def
        instrumentStore_def instrumentGEP_def)
qed

theorem nested_checks_once_witness:
  "GEPS (snd (visit sample_llvm config_h sample_hooks 6 [5, 6, 7]
     (sample_call_module, initial_state\<lparr>GEPS := [\<lparr>gep_type = VoidPtrTy, gep_isCheckedBefore = True\<rparr>]\<rparr>))) \<noteq> []"
  using nested_checks_once [of "initial_state\<lparr>GEPS := [\<lparr>gep_type = VoidPtrTy, gep_isCheckedBefore = True\<rparr>]\<rparr>"
      sample_llvm sample_hooks 6 0 sample_call_module 6 config_h "[5, 6, 7]"]
  by (simp add: info_sample_call)

text \<open>
  As configured (Top-Byte Ignore on), a call of a library function on the avoid list, such as
  \<open>strlen\<close>, \<open>memcpy\<close> or \<open>printf\<close>, is left as it is: its pointer arguments are neither checked nor
  stripped.
\<close>

theorem avoided_calls_untouched:
  assumes "getCalledFunction m CI = Some f" and "getName m f \<in> set functionsAvoidList" and "TOPBYTEIGNORE cfg"
  shows "fst (instrumentCalls LL cfg H CI (m, st)) = m"
proof -
  have "getName m f \<notin> set xpacedList" using assms(2) by (auto simp: xpacedList_def functionsAvoidList_def)
  then have "external_arg LL cfg H CI (getName m f) i m' = m'" for i m'
    using assms(3) by (simp add: external_arg_def Let_def)
  then have "fold (external_arg LL cfg H CI (getName m f)) is m' = m'" for "is" m' by (induction "is") simp_all
  with assms show ?thesis by (simp add: instrumentCalls_def Let_def)
qed

theorem avoided_calls_untouched_witness:
  "fst (instrumentCalls sample_llvm config_h sample_hooks 8
     (add_value Call VoidTy [] [4, 3] sample_call_module, initial_state)) =
   add_value Call VoidTy [] [4, 3] sample_call_module"
proof (rule avoided_calls_untouched [where f = 3])
  let ?m = "add_value Call VoidTy [] [4, 3] sample_call_module"
  have i: "info ?m v = (if v = 8 then \<lparr>kind_of = Call, type_of = VoidTy, name_of = [], ops_of = [4, 3]\<rparr>
      else info sample_call_module v)" for v
    by (simp add: info_def vals_add sample_call_values(2))
  show "getCalledFunction ?m 8 = Some 3" by (simp add: getCalledFunction_def getOperand_def i info_sample_call)
  show "getName ?m 3 \<in> set functionsAvoidList" by (simp add: i info_sample_call functionsAvoidList_def)
qed (simp add: config_h_def)

end
