(* ===== verification/LL_UseSort.thy ===== *)
theory LL_UseSort imports LL_Uses "HOL-Library.Multiset" begin

text \<open>
  \<open>Value::sortUseList\<close> (\<open>llvm/IR/Value.h\<close>): the bottom-up merge sort that works in place on
  the \<open>Next\<close> pointers of a use list and puts the \<open>Prev\<close> pointers right at the end.  The pointer
  code comes first, then the same sort on lists, the lemmas that the first implements the second,
  and how many uses the 32 slots have room for.
\<close>

section \<open>The code\<close>

text \<open>
  \<open>mergeUseLists\<close>: \<open>Merged\<close> is a local variable and \<open>Next\<close> points at it (\<open>None\<close>) or at the
  \<open>Next\<close> of the use appended last.  \<open>Merged\<close> is not initialised in C++; it is written before
  it is read.
\<close>

definition store_next :: "use option \<Rightarrow> use option \<Rightarrow> use option \<Rightarrow> use_heap \<Rightarrow> use option \<times> use_heap" where
  "store_next N x Merged h =
     (case N of None \<Rightarrow> (x, h) | Some u \<Rightarrow> (Merged, write_slot (NextOf u) x h))"

partial_function (option) merge_loop ::
  "(use \<Rightarrow> use \<Rightarrow> bool) \<Rightarrow> use option \<Rightarrow> use option \<Rightarrow> use option \<Rightarrow> use option \<Rightarrow> use_heap \<Rightarrow>
   (use option \<times> use_heap) option" where
  "merge_loop Cmp L R N Merged h =
     (case L of None \<Rightarrow> Some (store_next N R Merged h)
      | Some l \<Rightarrow>
          (case R of None \<Rightarrow> Some (store_next N L Merged h)
           | Some r \<Rightarrow>
               if Cmp r l then
                 (case store_next N R Merged h of (Merged, h) \<Rightarrow> merge_loop Cmp L (Next h r) (Some r) Merged h)
               else
                 (case store_next N L Merged h of (Merged, h) \<Rightarrow> merge_loop Cmp (Next h l) R (Some l) Merged h)))"

definition mergeUseLists ::
  "(use \<Rightarrow> use \<Rightarrow> bool) \<Rightarrow> use option \<Rightarrow> use option \<Rightarrow> use_heap \<Rightarrow> (use option \<times> use_heap) option" where
  "mergeUseLists Cmp L R h = merge_loop Cmp L R None None h"

text \<open>
  The loop over the slots, run on the slots from \<open>I\<close> on, of which there are \<open>NumSlots - I\<close>; the
  elements of the array \<open>Slots\<close> behind them are not initialised and not read.  A new slot must
  fit into the array: the assertion \<open>NumSlots <= MaxSlots\<close>.
\<close>

definition MaxSlots :: nat where "MaxSlots = 32"

fun save_slot ::
  "(use \<Rightarrow> use \<Rightarrow> bool) \<Rightarrow> nat \<Rightarrow> use option \<Rightarrow> use option list \<Rightarrow> use_heap \<Rightarrow>
   (stop + use option list \<times> use_heap) option" where
  "save_slot Cmp I Current [] h = Some (if I + 1 \<le> MaxSlots then Inr ([Current], h) else Inl Abort)"
| "save_slot Cmp I Current (None # Slots) h = Some (Inr (Current # Slots, h))"
| "save_slot Cmp I Current (Some s # Slots) h =
     (case mergeUseLists Cmp (Some s) Current h of
        None \<Rightarrow> None
      | Some (Current, h) \<Rightarrow>
          run_then (save_slot Cmp (I + 1) Current Slots h) (\<lambda>(Slots, h). Some (Inr (None # Slots, h))))"

text \<open>The loop that collects all uses but the last: the last use, the slots.\<close>

partial_function (option) collect_uses ::
  "(use \<Rightarrow> use \<Rightarrow> bool) \<Rightarrow> use \<Rightarrow> use option list \<Rightarrow> use_heap \<Rightarrow>
   (stop + use \<times> use option list \<times> use_heap) option" where
  "collect_uses Cmp N Slots h =
     (case Next h N of
        None \<Rightarrow> Some (Inr (N, Slots, h))
      | Some n \<Rightarrow>
          (case save_slot Cmp 0 (Some N) Slots (write_slot (NextOf N) None h) of
             None \<Rightarrow> None
           | Some (Inl e) \<Rightarrow> Some (Inl e)
           | Some (Inr (Slots, h)) \<Rightarrow> collect_uses Cmp n Slots h))"

fun merge_slots ::
  "(use \<Rightarrow> use \<Rightarrow> bool) \<Rightarrow> vid \<Rightarrow> use option list \<Rightarrow> use_heap \<Rightarrow> use_heap option" where
  "merge_slots Cmp v [] h = Some h"
| "merge_slots Cmp v (None # Slots) h = merge_slots Cmp v Slots h"
| "merge_slots Cmp v (Some s # Slots) h =
     (case mergeUseLists Cmp (Some s) (UseList h v) h of
        None \<Rightarrow> None
      | Some (m, h) \<Rightarrow> merge_slots Cmp v Slots (write_slot (UseListOf v) m h))"

partial_function (option) fix_prevs :: "use option \<Rightarrow> slot \<Rightarrow> use_heap \<Rightarrow> use_heap option" where
  "fix_prevs I P h =
     (case I of
        None \<Rightarrow> Some h
      | Some u \<Rightarrow> fix_prevs (Next (setPrev u P h) u) (NextOf u) (setPrev u P h))"

definition sortUseList :: "(use \<Rightarrow> use \<Rightarrow> bool) \<Rightarrow> vid \<Rightarrow> use_heap \<Rightarrow> (stop + use_heap) option" where
  "sortUseList Cmp v h =
     (case UseList h v of
        None \<Rightarrow> Some (Inr h)
      | Some u \<Rightarrow>
          (case Next h u of
             None \<Rightarrow> Some (Inr h)
           | Some n \<Rightarrow>
               run_then (collect_uses Cmp n [Some u] (write_slot (NextOf u) None h))
                 (\<lambda>(N, Slots, h).
                    case merge_slots Cmp v Slots (write_slot (UseListOf v) (Some N) h) of
                      None \<Rightarrow> None
                    | Some h \<Rightarrow> map_option Inr (fix_prevs (UseList h v) (UseListOf v) h))))"

section \<open>The same sort on lists\<close>

text \<open>
  A chain of \<open>Next\<close> pointers is the list of its uses, \<open>Slots\<close> a binary counter of sorted lists:
  slot \<open>I\<close> is empty or holds \<open>2 ^ I\<close> uses.
\<close>

fun merge_lists :: "('u \<Rightarrow> 'u \<Rightarrow> bool) \<Rightarrow> 'u list \<Rightarrow> 'u list \<Rightarrow> 'u list" where
  "merge_lists Cmp [] R = R"
| "merge_lists Cmp L [] = L"
| "merge_lists Cmp (l # L) (r # R) =
     (if Cmp r l then r # merge_lists Cmp (l # L) R else l # merge_lists Cmp L (r # R))"

fun save_list :: "('u \<Rightarrow> 'u \<Rightarrow> bool) \<Rightarrow> 'u list \<Rightarrow> 'u list option list \<Rightarrow> 'u list option list" where
  "save_list Cmp Current [] = [Some Current]"
| "save_list Cmp Current (None # Slots) = Some Current # Slots"
| "save_list Cmp Current (Some s # Slots) = None # save_list Cmp (merge_lists Cmp s Current) Slots"

fun merge_saved :: "('u \<Rightarrow> 'u \<Rightarrow> bool) \<Rightarrow> 'u list option list \<Rightarrow> 'u list \<Rightarrow> 'u list" where
  "merge_saved Cmp [] UL = UL"
| "merge_saved Cmp (None # Slots) UL = merge_saved Cmp Slots UL"
| "merge_saved Cmp (Some s # Slots) UL = merge_saved Cmp Slots (merge_lists Cmp s UL)"

abbreviation save_all :: "('u \<Rightarrow> 'u \<Rightarrow> bool) \<Rightarrow> 'u list \<Rightarrow> 'u list option list \<Rightarrow> 'u list option list" where
  "save_all Cmp us Slots \<equiv> fold (\<lambda>u. save_list Cmp [u]) us Slots"

text \<open>For at least two uses, as \<open>a # n # ns\<close>.\<close>

definition sort_list :: "('u \<Rightarrow> 'u \<Rightarrow> bool) \<Rightarrow> 'u \<Rightarrow> 'u list \<Rightarrow> 'u list" where
  "sort_list Cmp a us = merge_saved Cmp (save_all Cmp (butlast us) [Some [a]]) [last us]"

lemma set_merge: "set (merge_lists Cmp L R) = set L \<union> set R"
  by (induction Cmp L R rule: merge_lists.induct) auto

lemma sorted_merge:
  "sorted (map f L) \<Longrightarrow> sorted (map f R) \<Longrightarrow> sorted (map f (merge_lists (\<lambda>x y. f x < f y) L R))"
  for f :: "'u \<Rightarrow> 'k::linorder"
proof (induction "\<lambda>x y. f x < f y" L R rule: merge_lists.induct)
  case (3 l L r R)
  then show ?case by (cases "f r < f l") (force simp: set_merge)+
qed simp_all

text \<open>Merging is stable: equal uses of the left list come first.\<close>

lemma filter_merge:
  "sorted (map f L) \<Longrightarrow> sorted (map f R) \<Longrightarrow>
   filter (\<lambda>u. f u = k) (merge_lists (\<lambda>x y. f x < f y) L R) = filter (\<lambda>u. f u = k) L @ filter (\<lambda>u. f u = k) R"
  for f :: "'u \<Rightarrow> 'k::linorder"
proof (induction "\<lambda>x y. f x < f y" L R rule: merge_lists.induct)
  case (3 l L r R)
  show ?case
  proof (cases "f r < f l")
    case True
    have "filter (\<lambda>u. f u = f r) (l # L) = []"
      using 3(3) True by (auto simp: filter_empty_conv)
    with 3 True show ?thesis by (cases "f r = k") auto
  next
    case False
    with 3 show ?thesis by simp
  qed
qed simp_all

text \<open>The uses saved in the slots, in the order in which they came.\<close>

definition saved :: "'u list option list \<Rightarrow> 'u list" where
  "saved Slots = concat (rev (map (case_option [] id) Slots))"

lemma saved_simps [simp]:
  "saved [] = []" "saved (None # Slots) = saved Slots" "saved (Some s # Slots) = saved Slots @ s"
  by (simp_all add: saved_def)

abbreviation slots_sorted :: "('u \<Rightarrow> 'k::linorder) \<Rightarrow> 'u list option list \<Rightarrow> bool" where
  "slots_sorted f Slots \<equiv> \<forall>s. Some s \<in> set Slots \<longrightarrow> sorted (map f s)"

lemma save_list_sorted:
  "slots_sorted f Slots \<Longrightarrow> sorted (map f C) \<Longrightarrow> slots_sorted f (save_list (\<lambda>x y. f x < f y) C Slots)"
  by (induction "\<lambda>x y. f x < f y" C Slots rule: save_list.induct) (auto simp: sorted_merge)

lemma save_list_filter:
  "slots_sorted f Slots \<Longrightarrow> sorted (map f C) \<Longrightarrow>
   filter (\<lambda>u. f u = k) (saved (save_list (\<lambda>x y. f x < f y) C Slots)) =
   filter (\<lambda>u. f u = k) (saved Slots) @ filter (\<lambda>u. f u = k) C"
  by (induction "\<lambda>x y. f x < f y" C Slots rule: save_list.induct) (simp_all add: sorted_merge filter_merge)

lemma merge_saved_sorted:
  "slots_sorted f Slots \<Longrightarrow> sorted (map f UL) \<Longrightarrow> sorted (map f (merge_saved (\<lambda>x y. f x < f y) Slots UL))"
  by (induction "\<lambda>x y. f x < f y" Slots UL rule: merge_saved.induct) (simp_all add: sorted_merge)

lemma merge_saved_filter:
  "slots_sorted f Slots \<Longrightarrow> sorted (map f UL) \<Longrightarrow>
   filter (\<lambda>u. f u = k) (merge_saved (\<lambda>x y. f x < f y) Slots UL) =
   filter (\<lambda>u. f u = k) (saved Slots) @ filter (\<lambda>u. f u = k) UL"
  by (induction "\<lambda>x y. f x < f y" Slots UL rule: merge_saved.induct) (simp_all add: sorted_merge filter_merge)

lemma fold_save_lists:
  "slots_sorted f Slots \<Longrightarrow>
   slots_sorted f (fold (\<lambda>u. save_list (\<lambda>x y. f x < f y) [u]) us Slots) \<and>
   filter (\<lambda>u. f u = k) (saved (fold (\<lambda>u. save_list (\<lambda>x y. f x < f y) [u]) us Slots)) =
   filter (\<lambda>u. f u = k) (saved Slots) @ filter (\<lambda>u. f u = k) us"
proof (induction us arbitrary: Slots)
  case Nil
  then show ?case by simp
next
  case (Cons u us)
  have "slots_sorted f (save_list (\<lambda>x y. f x < f y) [u] Slots)"
    using Cons.prems by (intro save_list_sorted) auto
  then show ?case
    using Cons.IH [of "save_list (\<lambda>x y. f x < f y) [u] Slots"] save_list_filter [OF Cons.prems, of "[u]" k]
    by simp
qed

lemma mset_of_filters:
  assumes "\<And>k. filter (\<lambda>u. f u = k) xs = filter (\<lambda>u. f u = k) ys"
  shows "mset xs = mset ys"
proof (rule multiset_eqI)
  fix a
  have "count (mset zs) a = count (mset (filter (\<lambda>u. f u = f a) zs)) a" for zs
    by simp
  then show "count (mset xs) a = count (mset ys) a" using assms by metis
qed

lemma sort_list_stable:
  fixes f :: "'u \<Rightarrow> 'k::linorder"
  assumes "us \<noteq> []"
  shows "sort_list (\<lambda>x y. f x < f y) a us = sort_key f (a # us)"
proof -
  let ?slots = "save_all (\<lambda>x y. f x < f y) (butlast us) [Some [a]]"
  have s: "slots_sorted f [Some [a]]" by simp
  have srt: "slots_sorted f ?slots" using fold_save_lists [OF s] by blast
  have val: "sort_list (\<lambda>x y. f x < f y) a us = merge_saved (\<lambda>x y. f x < f y) ?slots [last us]"
    by (simp add: sort_list_def)
  have filt: "filter (\<lambda>u. f u = k) (sort_list (\<lambda>x y. f x < f y) a us) = filter (\<lambda>u. f u = k) (a # us)" for k
  proof -
    have "filter (\<lambda>u. f u = k) (saved ?slots) = filter (\<lambda>u. f u = k) (a # butlast us)"
      using fold_save_lists [OF s, of "butlast us" k] by (simp only: saved_simps append.simps filter_append) simp
    then have "filter (\<lambda>u. f u = k) (sort_list (\<lambda>x y. f x < f y) a us) =
        filter (\<lambda>u. f u = k) ((a # butlast us) @ [last us])"
      unfolding val using merge_saved_filter [OF srt, of "[last us]" k] by (simp only: filter_append) simp
    moreover have "(a # butlast us) @ [last us] = a # us"
      unfolding append_Cons append_butlast_last_id [OF assms] ..
    ultimately show ?thesis by (simp only:)
  qed
  have "sorted (map f (sort_list (\<lambda>x y. f x < f y) a us))"
    unfolding val using srt by (intro merge_saved_sorted) simp_all
  then show ?thesis
  proof (intro properties_for_sort_key [symmetric])
    show "mset (sort_list (\<lambda>x y. f x < f y) a us) = mset (a # us)" using filt by (rule mset_of_filters)
    show "filter (\<lambda>x. f k = f x) (sort_list (\<lambda>x y. f x < f y) a us) = filter (\<lambda>x. f k = f x) (a # us)" for k
      using filt [of "f k"] by (simp only: eq_commute [of "f k"])
  qed
qed

text \<open>What the lists hold does not depend on the comparison.\<close>

lemma mset_merge_lists [simp]: "mset (merge_lists Cmp L R) = mset L + mset R"
  by (induction Cmp L R rule: merge_lists.induct) auto

lemma mset_save_list [simp]: "mset (saved (save_list Cmp C Slots)) = mset (saved Slots) + mset C"
  by (induction Cmp C Slots rule: save_list.induct) auto

lemma mset_save_all [simp]: "mset (saved (save_all Cmp us Slots)) = mset (saved Slots) + mset us"
  by (induction us arbitrary: Slots) auto

section \<open>Room in the slots\<close>

fun counts :: "nat \<Rightarrow> 'u list option list \<Rightarrow> bool" where
  "counts k [] = True"
| "counts k (None # Slots) = counts (Suc k) Slots"
| "counts k (Some s # Slots) = (length s = 2 ^ k \<and> counts (Suc k) Slots)"

lemma length_merge_lists [simp]: "length (merge_lists Cmp L R) = length L + length R"
  using mset_merge_lists [of Cmp L R] by (metis size_mset size_union)

lemma counts_save_list: "counts k Slots \<Longrightarrow> length C = 2 ^ k \<Longrightarrow> counts k (save_list Cmp C Slots)"
  by (induction Cmp C Slots arbitrary: k rule: save_list.induct) auto

lemma save_list_not_Nil [simp]: "save_list Cmp C Slots \<noteq> []"
  by (induction Cmp C Slots rule: save_list.induct) auto

lemma last_save_list:
  "Slots \<noteq> [] \<longrightarrow> last Slots \<noteq> None \<Longrightarrow> last (save_list Cmp C Slots) \<noteq> None"
  by (induction Cmp C Slots rule: save_list.induct) (auto split: if_splits)

lemma counts_save_all:
  "counts 0 Slots \<Longrightarrow> Slots \<noteq> [] \<Longrightarrow> last Slots \<noteq> None \<Longrightarrow>
   counts 0 (save_all Cmp us Slots) \<and> save_all Cmp us Slots \<noteq> [] \<and> last (save_all Cmp us Slots) \<noteq> None"
proof (induction us arbitrary: Slots)
  case (Cons u us)
  then show ?case
    using last_save_list [of Slots Cmp "[u]"] by (auto simp: counts_save_list)
qed auto

lemma counts_upper: "counts k Slots \<Longrightarrow> length (saved Slots) + 2 ^ k \<le> 2 ^ (k + length Slots)"
  by (induction k Slots rule: counts.induct) auto

lemma counts_lower:
  "counts k Slots \<Longrightarrow> Slots \<noteq> [] \<Longrightarrow> last Slots \<noteq> None \<Longrightarrow> 2 ^ (k + length Slots) \<le> 2 * length (saved Slots)"
  by (induction k Slots rule: counts.induct) (auto split: if_splits)

lemma length_save_list: "length Slots \<le> length (save_list Cmp C Slots)"
  by (induction Cmp C Slots rule: save_list.induct) auto

lemma length_save_all: "length Slots \<le> length (save_all Cmp us Slots)"
  by (induction us arbitrary: Slots) (auto intro: order_trans [OF length_save_list])

lemma mset_merge_saved: "mset (merge_saved Cmp Slots UL) = mset (saved Slots) + mset UL"
  by (induction Cmp Slots UL rule: merge_saved.induct) auto

text \<open>A list of \<open>n\<close> uses fits when \<open>n - 1\<close>, the uses saved, is below \<open>2 ^ MaxSlots\<close>.\<close>

lemma slots_suffice:
  "length (save_all Cmp us [Some [a]]) \<le> MaxSlots \<longleftrightarrow> length us < 2 ^ MaxSlots - 1"
proof -
  let ?S = "save_all Cmp us [Some [a]]"
  have "mset (saved ?S) = mset (a # us)" by simp
  then have len: "length (saved ?S) = Suc (length us)"
    by (metis length_Cons size_mset)
  have c: "counts 0 ?S" "?S \<noteq> []" "last ?S \<noteq> None"
    using counts_save_all [of "[Some [a]]" Cmp us] by auto
  note up = counts_upper [OF c(1)] and lo = counts_lower [OF c]
  have "Suc (length us) < 2 ^ length ?S" using up len by simp
  moreover have "2 ^ length ?S \<le> 2 * Suc (length us)" using lo len by simp
  ultimately show ?thesis
  proof (cases "length ?S \<le> MaxSlots")
    case True
    then have "(2::nat) ^ length ?S \<le> 2 ^ MaxSlots" by (rule power_increasing) simp
    with \<open>Suc (length us) < 2 ^ length ?S\<close> True show ?thesis by linarith
  next
    case False
    then have "(2::nat) ^ Suc MaxSlots \<le> 2 ^ length ?S" by (intro power_increasing) simp_all
    with \<open>2 ^ length ?S \<le> 2 * Suc (length us)\<close> False show ?thesis by simp
  qed
qed

section \<open>The pointers implement the lists\<close>

fun nexts :: "use_heap \<Rightarrow> use option \<Rightarrow> use list \<Rightarrow> bool" where
  "nexts h p [] = (p = None)"
| "nexts h p (u # us) = (p = Some u \<and> nexts h (Next h u) us)"

text \<open>Only the \<open>Next\<close> pointers of the uses in \<open>A\<close> change.\<close>

definition next_frame :: "use set \<Rightarrow> use_heap \<Rightarrow> use_heap \<Rightarrow> bool" where
  "next_frame A h h' \<longleftrightarrow> UseList h' = UseList h \<and> Val h' = Val h \<and> Prev h' = Prev h \<and>
     (\<forall>u. u \<notin> A \<longrightarrow> Next h' u = Next h u)"

lemma next_frame_refl [simp]: "next_frame A h h"
  by (simp add: next_frame_def)

lemma next_frame_trans: "next_frame A h h' \<Longrightarrow> next_frame B h' h'' \<Longrightarrow> A \<union> B \<subseteq> C \<Longrightarrow> next_frame C h h''"
  unfolding next_frame_def by (metis Un_iff subsetD)

lemma next_frame_write: "u \<in> A \<Longrightarrow> next_frame A h (write_slot (NextOf u) x h)"
  by (simp add: next_frame_def)

lemma nexts_cong: "(\<And>u. u \<in> set us \<Longrightarrow> Next h' u = Next h u) \<Longrightarrow> nexts h' p us = nexts h p us"
  by (induction us arbitrary: p) auto

lemma nexts_frame: "next_frame A h h' \<Longrightarrow> A \<inter> set us = {} \<Longrightarrow> nexts h p us \<Longrightarrow> nexts h' p us"
  by (subst nexts_cong [of us h' h]) (auto simp: next_frame_def)

lemma nexts_write [simp]: "u \<notin> set us \<Longrightarrow> nexts (write_slot (NextOf u) x h) p us = nexts h p us"
  by (rule nexts_cong) auto

lemma nexts_fun_upd [simp]: "u \<notin> set us \<Longrightarrow> nexts (h\<lparr>Next := (Next h)(u := x)\<rparr>) p us = nexts h p us"
  by (rule nexts_cong) auto

lemma merge_loop_append:
  "nexts h L ls \<Longrightarrow> nexts h R rs \<Longrightarrow> distinct (ls @ rs) \<Longrightarrow> p \<notin> set ls \<union> set rs \<Longrightarrow>
   \<exists>h'. merge_loop Cmp L R (Some p) M h = Some (M, h') \<and> nexts h' (Next h' p) (merge_lists Cmp ls rs) \<and>
        next_frame (insert p (set ls \<union> set rs)) h h'"
proof (induction Cmp ls rs arbitrary: L R p h rule: merge_lists.induct)
  case (1 Cmp rs)
  then show ?case
    by (subst merge_loop.simps) (auto simp: store_next_def next_frame_def)
next
  case (2 Cmp l ls)
  then show ?case
    by (subst merge_loop.simps) (auto simp: store_next_def next_frame_def)
next
  case (3 Cmp l ls r rs)
  have L: "L = Some l" "R = Some r" using 3 by auto
  show ?case
  proof (cases "Cmp r l")
    case True
    let ?h = "write_slot (NextOf p) R h"
    have "\<exists>h'. merge_loop Cmp L (Next ?h r) (Some r) M ?h = Some (M, h') \<and>
        nexts h' (Next h' r) (merge_lists Cmp (l # ls) rs) \<and> next_frame (insert r (set (l # ls) \<union> set rs)) ?h h'"
      using 3 True by (intro "3.IH"(1)) auto
    then obtain h' where h': "merge_loop Cmp L (Next ?h r) (Some r) M ?h = Some (M, h')"
        "nexts h' (Next h' r) (merge_lists Cmp (l # ls) rs)" "next_frame (insert r (set (l # ls) \<union> set rs)) ?h h'"
      by blast
    have "Next h' p = Some r" using h'(3) "3.prems"(4) L by (auto simp: next_frame_def)
    moreover have "next_frame (insert p (set (l # ls) \<union> set (r # rs))) h h'"
      by (rule next_frame_trans [OF next_frame_write h'(3)]) auto
    moreover have "merge_loop Cmp L R (Some p) M h = Some (M, h')"
      by (subst merge_loop.simps) (use L True h'(1) in \<open>simp add: store_next_def\<close>)
    ultimately show ?thesis using h'(2) True by auto
  next
    case False
    let ?h = "write_slot (NextOf p) L h"
    have "\<exists>h'. merge_loop Cmp (Next ?h l) R (Some l) M ?h = Some (M, h') \<and>
        nexts h' (Next h' l) (merge_lists Cmp ls (r # rs)) \<and> next_frame (insert l (set ls \<union> set (r # rs))) ?h h'"
      using 3 False by (intro "3.IH"(2)) auto
    then obtain h' where h': "merge_loop Cmp (Next ?h l) R (Some l) M ?h = Some (M, h')"
        "nexts h' (Next h' l) (merge_lists Cmp ls (r # rs))" "next_frame (insert l (set ls \<union> set (r # rs))) ?h h'"
      by blast
    have "Next h' p = Some l" using h'(3) "3.prems"(4) L by (auto simp: next_frame_def)
    moreover have "next_frame (insert p (set (l # ls) \<union> set (r # rs))) h h'"
      by (rule next_frame_trans [OF next_frame_write h'(3)]) auto
    moreover have "merge_loop Cmp L R (Some p) M h = Some (M, h')"
      by (subst merge_loop.simps) (use L False h'(1) in \<open>simp add: store_next_def\<close>)
    ultimately show ?thesis using h'(2) False by auto
  qed
qed

lemma mergeUseLists_implements:
  assumes "nexts h L ls" and "nexts h R rs" and "distinct (ls @ rs)"
  obtains m h' where "mergeUseLists Cmp L R h = Some (m, h')" "nexts h' m (merge_lists Cmp ls rs)"
    "next_frame (set ls \<union> set rs) h h'"
proof (cases ls)
  case Nil
  have "merge_loop Cmp L R None None h = Some (R, h)"
    using assms Nil by (subst merge_loop.simps) (simp add: store_next_def)
  then show ?thesis using that [of R h] assms Nil by (simp add: mergeUseLists_def)
next
  case l: (Cons l ls')
  show ?thesis
  proof (cases rs)
    case Nil
    have "merge_loop Cmp L R None None h = Some (L, h)"
      using assms Nil l by (subst merge_loop.simps) (simp add: store_next_def)
    then show ?thesis using that [of L h] assms Nil l by (simp add: mergeUseLists_def)
  next
    case r: (Cons r rs')
    show ?thesis
    proof (cases "Cmp r l")
      case True
      obtain h' where h': "merge_loop Cmp L (Next h r) (Some r) R h = Some (R, h')"
          "nexts h' (Next h' r) (merge_lists Cmp ls rs')" "next_frame (insert r (set ls \<union> set rs')) h h'"
        using merge_loop_append [of h L ls "Next h r" rs' r Cmp R] assms l r by auto
      have "merge_loop Cmp L R None None h = Some (R, h')"
        using assms l r True h'(1) by (subst merge_loop.simps) (simp add: store_next_def)
      then show ?thesis using that [of R h'] h' assms l r True by (simp add: mergeUseLists_def)
    next
      case False
      obtain h' where h': "merge_loop Cmp (Next h l) R (Some l) L h = Some (L, h')"
          "nexts h' (Next h' l) (merge_lists Cmp ls' rs)" "next_frame (insert l (set ls' \<union> set rs)) h h'"
        using merge_loop_append [of h "Next h l" ls' R rs l Cmp L] assms l r by auto
      have "merge_loop Cmp L R None None h = Some (L, h')"
        using assms l r False h'(1) by (subst merge_loop.simps) (simp add: store_next_def)
      then show ?thesis using that [of L h'] h' assms l r False by (simp add: mergeUseLists_def insert_commute)
    qed
  qed
qed

text \<open>The slots: a pointer to the first use of each list.\<close>

fun slots_at :: "use_heap \<Rightarrow> use option list \<Rightarrow> use list option list \<Rightarrow> bool" where
  "slots_at h [] [] = True"
| "slots_at h (None # ps) (None # Slots) = slots_at h ps Slots"
| "slots_at h (Some p # ps) (Some s # Slots) = (nexts h (Some p) s \<and> slots_at h ps Slots)"
| "slots_at h _ _ = False"

lemma slots_at_frame:
  "slots_at h ps Slots \<Longrightarrow> next_frame A h h' \<Longrightarrow> A \<inter> set (saved Slots) = {} \<Longrightarrow> slots_at h' ps Slots"
proof (induction h ps Slots rule: slots_at.induct)
  case (3 h p ps s Slots)
  then show ?case using nexts_frame [of A h h' s "Some p"] by auto
qed auto

lemma distinct_mset_cong: "mset xs = mset ys \<Longrightarrow> distinct xs = distinct ys"
  by (rule mset_eq_imp_distinct_iff)

lemma set_saved_save: "set (saved (save_list Cmp C Slots)) = set (saved Slots) \<union> set C"
  using mset_save_list [of Cmp C Slots] by (metis set_mset_mset set_mset_union)

lemma set_merge_lists: "set (merge_lists Cmp L R) = set L \<union> set R"
  using mset_merge_lists [of Cmp L R] by (metis set_mset_mset set_mset_union)

lemma save_slot_implements:
  "slots_at h ps Slots \<Longrightarrow> nexts h c C \<Longrightarrow> C \<noteq> [] \<Longrightarrow> distinct (saved Slots @ C) \<Longrightarrow>
   if I + length (save_list Cmp C Slots) \<le> MaxSlots \<or> length (save_list Cmp C Slots) = length Slots
   then \<exists>ps' h'. save_slot Cmp I c ps h = Some (Inr (ps', h')) \<and> slots_at h' ps' (save_list Cmp C Slots) \<and>
          next_frame (set (saved Slots) \<union> set C) h h'
   else save_slot Cmp I c ps h = Some (Inl Abort)"
proof (induction Cmp C Slots arbitrary: I c ps h rule: save_list.induct)
  case (1 Cmp C)
  then show ?case by (cases C; cases ps) auto
next
  case (2 Cmp C Slots)
  obtain ps' where "ps = None # ps'" using 2(1) by (cases ps; cases "hd ps") auto
  with 2 show ?case by (cases C) auto
next
  case (3 Cmp C s Slots)
  obtain p ps0 where ps: "ps = Some p # ps0" "nexts h (Some p) s" "slots_at h ps0 Slots"
    using "3.prems"(1) by (cases ps; cases "hd ps") auto
  have "distinct (s @ C)" using "3.prems"(4) by auto
  then obtain m h1 where m: "mergeUseLists Cmp (Some p) c h = Some (m, h1)"
      "nexts h1 m (merge_lists Cmp s C)" "next_frame (set s \<union> set C) h h1"
    using mergeUseLists_implements [of h "Some p" s c C Cmp] "3.prems" ps by auto
  have at: "slots_at h1 ps0 Slots"
    using slots_at_frame [OF ps(3) m(3)] "3.prems"(4) by auto
  have ne: "merge_lists Cmp s C \<noteq> []"
    using "3.prems"(3) length_merge_lists [of Cmp s C] by (metis add_is_0 length_0_conv)
  have d: "distinct (saved Slots @ merge_lists Cmp s C)"
    using "3.prems"(4) by (subst distinct_mset_cong [of _ "saved Slots @ s @ C"]) auto
  note IH = "3.IH" [OF at m(2) ne d, of "I + 1"]
  show ?case
  proof (cases "I + length (save_list Cmp C (Some s # Slots)) \<le> MaxSlots \<or>
      length (save_list Cmp C (Some s # Slots)) = length (Some s # Slots)")
    case True
    then obtain ps' h' where "save_slot Cmp (I + 1) m ps0 h1 = Some (Inr (ps', h'))"
        "slots_at h' ps' (save_list Cmp (merge_lists Cmp s C) Slots)"
        "next_frame (set (saved Slots) \<union> set (merge_lists Cmp s C)) h1 h'"
      using IH by auto
    with True ps(1) m(1) next_frame_trans [OF m(3), of _ h' "set (saved (Some s # Slots)) \<union> set C"]
    show ?thesis by (auto simp: set_merge_lists)
  next
    case False
    then show ?thesis using IH ps(1) m(1) by auto
  qed
qed

lemma collect_uses_implements:
  "slots_at h ps Slots \<Longrightarrow> nexts h (Some n) (n # ns) \<Longrightarrow> distinct (saved Slots @ n # ns) \<Longrightarrow>
   length Slots \<le> MaxSlots \<Longrightarrow>
   if length (save_all Cmp (butlast (n # ns)) Slots) \<le> MaxSlots
   then \<exists>ps' h'. collect_uses Cmp n ps h = Some (Inr (last (n # ns), ps', h')) \<and>
          slots_at h' ps' (save_all Cmp (butlast (n # ns)) Slots) \<and> Next h' (last (n # ns)) = None \<and>
          next_frame (set (saved Slots) \<union> set (n # ns)) h h'
   else collect_uses Cmp n ps h = Some (Inl Abort)"
proof (induction ns arbitrary: n ps Slots h)
  case Nil
  then show ?case by (subst collect_uses.simps)+ auto
next
  case (Cons m ns)
  let ?h = "write_slot (NextOf n) None h" and ?S = "save_list Cmp [n] Slots"
  have nm: "Next h n = Some m" using Cons.prems(2) by simp
  have at: "slots_at ?h ps Slots"
    using Cons.prems(1,3) by (intro slots_at_frame [OF _ next_frame_write [of n "{n}"]]) auto
  have one: "nexts ?h (Some n) [n]" "distinct (saved Slots @ [n])" using Cons.prems(3) by simp_all
  note step = save_slot_implements [OF at one(1) _ one(2), of 0 Cmp]
  have mono: "length ?S \<le> length (save_all Cmp (butlast (m # ns)) ?S)" by (rule length_save_all)
  show ?case
  proof (cases "length ?S \<le> MaxSlots")
    case False
    then have "collect_uses Cmp n ps h = Some (Inl Abort)"
      using step Cons.prems(4) nm by (subst collect_uses.simps) auto
    with False mono show ?thesis by auto
  next
    case True
    then obtain ps' h' where s: "save_slot Cmp 0 (Some n) ps ?h = Some (Inr (ps', h'))" "slots_at h' ps' ?S"
        "next_frame (set (saved Slots) \<union> {n}) ?h h'"
      using step by auto
    have "nexts h (Some m) (m # ns)" using Cons.prems(2) nm by simp
    then have "nexts ?h (Some m) (m # ns)"
      using Cons.prems(3) by (subst nexts_write) auto
    then have m: "nexts h' (Some m) (m # ns)"
      using Cons.prems(3) by (intro nexts_frame [OF s(3)]) auto
    have d: "distinct (saved ?S @ m # ns)"
      using Cons.prems(3) by (subst distinct_mset_cong [of _ "saved Slots @ n # m # ns"]) auto
    have run: "collect_uses Cmp n ps h = collect_uses Cmp m ps' h'"
      using s(1) nm by (subst collect_uses.simps) simp
    have fr: "next_frame (set (saved Slots) \<union> set (n # m # ns)) h h''"
      if "next_frame (set (saved ?S) \<union> set (m # ns)) h' h''" for h''
    proof -
      have "next_frame (set (saved Slots) \<union> {n}) h h'"
        by (rule next_frame_trans [OF next_frame_write [of n "{n}"] s(3)]) auto
      from this that show ?thesis by (rule next_frame_trans) (auto simp: set_saved_save)
    qed
    have all: "save_all Cmp (butlast (n # m # ns)) Slots = save_all Cmp (butlast (m # ns)) ?S"
        "last (n # m # ns) = last (m # ns)"
      by simp_all
    note IH = Cons.IH [OF s(2) m d True]
    show ?thesis
    proof (cases "length (save_all Cmp (butlast (m # ns)) ?S) \<le> MaxSlots")
      case True
      with IH obtain ps'' h'' where "collect_uses Cmp m ps' h' = Some (Inr (last (m # ns), ps'', h''))"
          "slots_at h'' ps'' (save_all Cmp (butlast (m # ns)) ?S)" "Next h'' (last (m # ns)) = None"
          "next_frame (set (saved ?S) \<union> set (m # ns)) h' h''"
        by (simp only: if_True) blast
      with True fr [of h''] show ?thesis unfolding all run by (simp only: if_True) blast
    next
      case False
      with IH show ?thesis unfolding all run by (simp only: if_False)
    qed
  qed
qed

definition sort_frame :: "vid \<Rightarrow> use set \<Rightarrow> use_heap \<Rightarrow> use_heap \<Rightarrow> bool" where
  "sort_frame v A h h' \<longleftrightarrow> Val h' = Val h \<and> (\<forall>w. w \<noteq> v \<longrightarrow> UseList h' w = UseList h w) \<and>
     (\<forall>u. u \<notin> A \<longrightarrow> Next h' u = Next h u \<and> Prev h' u = Prev h u)"

lemma sort_frame_trans: "sort_frame v A h h' \<Longrightarrow> sort_frame v A h' h'' \<Longrightarrow> sort_frame v A h h''"
  by (simp add: sort_frame_def)

lemma sort_frame_next: "next_frame B h h' \<Longrightarrow> B \<subseteq> A \<Longrightarrow> sort_frame v A h h'"
  by (auto simp: sort_frame_def next_frame_def)

lemma sort_frame_UseList: "sort_frame v A h (write_slot (UseListOf v) x h)"
  by (simp add: sort_frame_def)

lemma nexts_UseList [simp]: "nexts (h\<lparr>UseList := X\<rparr>) p us = nexts h p us"
  by (rule nexts_cong) simp

lemma slots_at_UseList [simp]: "slots_at (h\<lparr>UseList := X\<rparr>) ps Slots = slots_at h ps Slots"
  by (induction h ps Slots rule: slots_at.induct) (simp_all del: nexts.simps)

lemma merge_slots_implements:
  "slots_at h ps Slots \<Longrightarrow> nexts h (UseList h v) us \<Longrightarrow> distinct (saved Slots @ us) \<Longrightarrow>
   set (saved Slots) \<union> set us \<subseteq> A \<Longrightarrow>
   \<exists>h'. merge_slots Cmp v ps h = Some h' \<and> nexts h' (UseList h' v) (merge_saved Cmp Slots us) \<and>
        sort_frame v A h h'"
proof (induction Cmp Slots us arbitrary: ps h rule: merge_saved.induct)
  case (1 Cmp UL)
  then show ?case by (cases ps) (auto simp: sort_frame_def)
next
  case (2 Cmp Slots UL)
  then obtain ps' where "ps = None # ps'" by (cases ps; cases "hd ps") auto
  with 2 show ?case by simp
next
  case (3 Cmp s Slots UL)
  obtain p ps0 where ps: "ps = Some p # ps0" "nexts h (Some p) s" "slots_at h ps0 Slots"
    using "3.prems"(1) by (cases ps; cases "hd ps") auto
  have "distinct (s @ UL)" using "3.prems"(3) by auto
  then obtain m h1 where m: "mergeUseLists Cmp (Some p) (UseList h v) h = Some (m, h1)"
      "nexts h1 m (merge_lists Cmp s UL)" "next_frame (set s \<union> set UL) h h1"
    using mergeUseLists_implements [OF ps(2) "3.prems"(2)] by blast
  let ?h = "write_slot (UseListOf v) m h1"
  have "slots_at h1 ps0 Slots"
    using "3.prems"(3) by (intro slots_at_frame [OF ps(3) m(3)]) auto
  moreover have "distinct (saved Slots @ merge_lists Cmp s UL)"
    using "3.prems"(3) by (subst distinct_mset_cong [of _ "saved Slots @ s @ UL"]) auto
  moreover have "set (saved Slots) \<union> set (merge_lists Cmp s UL) \<subseteq> A"
    using "3.prems"(4) by (auto simp: set_merge_lists)
  ultimately obtain h' where h': "merge_slots Cmp v ps0 ?h = Some h'"
      "nexts h' (UseList h' v) (merge_saved Cmp Slots (merge_lists Cmp s UL))" "sort_frame v A ?h h'"
    using "3.IH" [of ?h ps0] m(2) by auto
  have "sort_frame v A h h1" using "3.prems"(4) by (intro sort_frame_next [OF m(3)]) auto
  from sort_frame_trans [OF this sort_frame_trans [OF sort_frame_UseList h'(3)]]
  show ?case using h' m(1) ps(1) by simp
qed

lemma fix_prevs_implements:
  "nexts h (read_slot h s) us \<Longrightarrow> distinct us \<Longrightarrow> \<forall>u \<in> set us. s \<noteq> NextOf u \<Longrightarrow>
   \<exists>h'. fix_prevs (read_slot h s) s h = Some h' \<and> chain h' s us \<and> UseList h' = UseList h \<and>
        Val h' = Val h \<and> Next h' = Next h \<and> (\<forall>u. u \<notin> set us \<longrightarrow> Prev h' u = Prev h u)"
proof (induction us arbitrary: s h)
  case Nil
  then show ?case by (subst fix_prevs.simps) simp
next
  case (Cons u us)
  let ?h = "setPrev u s h"
  have rd: "read_slot ?h x = read_slot h x" for x by (cases x) (simp_all add: setPrev_def)
  have same: "UseList ?h = UseList h" "Val ?h = Val h" "Next ?h = Next h"
    by (simp_all add: setPrev_def)
  have "nexts ?h (read_slot ?h (NextOf u)) us"
    using Cons.prems(1) nexts_cong [of us ?h h] same rd by simp
  with Cons.prems obtain h' where h': "fix_prevs (read_slot ?h (NextOf u)) (NextOf u) ?h = Some h'"
      "chain h' (NextOf u) us" "UseList h' = UseList h" "Val h' = Val h" "Next h' = Next h"
      "\<forall>x. x \<notin> set us \<longrightarrow> Prev h' x = Prev ?h x"
    using Cons.IH [of ?h "NextOf u"] same rd by auto
  have "read_slot h' s = read_slot h s" using h'(3,5) by (cases s) simp_all
  moreover have "fix_prevs (read_slot h s) s h = Some h'"
    using h'(1) Cons.prems(1) by (subst fix_prevs.simps) simp
  moreover have "Prev h' u = s" using h'(6) Cons.prems(2) by (simp add: setPrev_def)
  ultimately show ?case using h' Cons.prems(1) by (auto simp: setPrev_def)
qed

lemma merge_and_fix:
  assumes "slots_at h ps Slots" and "nexts h (UseList h v) us" and d: "distinct (saved Slots @ us)"
  shows "\<exists>h2 h3. merge_slots Cmp v ps h = Some h2 \<and> fix_prevs (UseList h2 v) (UseListOf v) h2 = Some h3 \<and>
    chain h3 (UseListOf v) (merge_saved Cmp Slots us) \<and> sort_frame v (set (saved Slots @ us)) h h3"
proof -
  let ?A = "set (saved Slots @ us)" and ?vs = "merge_saved Cmp Slots us"
  obtain h2 where h2: "merge_slots Cmp v ps h = Some h2" "nexts h2 (UseList h2 v) ?vs" "sort_frame v ?A h h2"
    using merge_slots_implements [OF assms, of ?A Cmp] by auto
  have ms: "mset ?vs = mset (saved Slots @ us)" by (simp add: mset_merge_saved)
  have vs: "distinct ?vs" "set ?vs = ?A"
    using d distinct_mset_cong [OF ms] mset_eq_setD [OF ms] by simp_all
  obtain h3 where h3: "fix_prevs (UseList h2 v) (UseListOf v) h2 = Some h3" "chain h3 (UseListOf v) ?vs"
      "UseList h3 = UseList h2" "Val h3 = Val h2" "Next h3 = Next h2" "\<forall>u. u \<notin> set ?vs \<longrightarrow> Prev h3 u = Prev h2 u"
    using fix_prevs_implements [of h2 "UseListOf v" ?vs] h2(2) vs(1) by auto
  have "sort_frame v ?A h2 h3" using h3(3-6) vs(2) by (simp add: sort_frame_def)
  with h2(3) have "sort_frame v ?A h h3" by (rule sort_frame_trans)
  with h2(1) h3(1,2) show ?thesis by blast
qed

lemma chain_nexts: "chain h s us \<Longrightarrow> nexts h (read_slot h s) us"
  by (induction us arbitrary: s) fastforce+

text \<open>Sorting one list changes no other list.\<close>

lemma use_lists_sorted:
  assumes ok: "use_lists h U" and fr: "sort_frame v (set (U v)) h h'" and ch: "chain h' (UseListOf v) vs"
    and ms: "mset vs = mset (U v)"
  shows "use_lists h' (U(v := vs))"
proof -
  have s: "set vs = set (U v)" "distinct vs = distinct (U v)"
    using ms by (metis set_mset_mset) (rule distinct_mset_cong [OF ms])
  have "chain h' (UseListOf w) (U w)" if "w \<noteq> v" for w
  proof (rule chain_cong [THEN iffD1, OF _ _ _ use_listsD(1) [OF ok, of w]])
    have out: "u \<notin> set (U v)" if "u \<in> set (U w)" for u
      using that \<open>w \<noteq> v\<close> use_listsD(3) [OF ok, of u] by simp
    show "read_slot h (UseListOf w) = read_slot h' (UseListOf w)"
      using fr that by (simp add: sort_frame_def)
    show "Next h u = Next h' u" "Prev h u = Prev h' u" if "u \<in> set (U w)" for u
      using fr out [OF that] by (simp_all add: sort_frame_def)
  qed
  then show ?thesis
    using ch s fr use_listsD(2,3) [OF ok] by (auto simp: use_lists_def sort_frame_def)
qed

lemma sortUseList_implements:
  assumes ok: "use_lists h U"
  shows "if length (U v) \<le> 2 ^ MaxSlots
    then \<exists>h'. sortUseList Cmp v h = Some (Inr h') \<and> sort_frame v (set (U v)) h h' \<and>
           chain h' (UseListOf v) (case U v of a # n # ns \<Rightarrow> sort_list Cmp a (n # ns) | us \<Rightarrow> us)
    else sortUseList Cmp v h = Some (Inl Abort)"
proof (cases "length (U v) < 2")
  case True
  then have "length (U v) \<le> 2 ^ MaxSlots" by (simp add: MaxSlots_def)
  moreover have "sortUseList Cmp v h = Some (Inr h)"
    using True use_listsD(1) [OF ok, of v] by (cases "U v") (auto simp: sortUseList_def)
  moreover have "(case U v of a # n # ns \<Rightarrow> sort_list Cmp a (n # ns) | us \<Rightarrow> us) = U v"
    using True by (auto split: list.split)
  ultimately show ?thesis using use_listsD(1) [OF ok, of v] by (simp add: sort_frame_def)
next
  case False
  then obtain a n ns where us: "U v = a # n # ns" by (cases "U v"; cases "tl (U v)") auto
  let ?A = "set (U v)" and ?h = "write_slot (NextOf a) None h"
  let ?S = "save_all Cmp (butlast (n # ns)) [Some [a]]"
  have c: "nexts h (UseList h v) (a # n # ns)" "distinct (a # n # ns)"
    using chain_nexts [OF use_listsD(1) [OF ok, of v]] use_listsD(2) [OF ok, of v] us by simp_all
  have hd: "UseList h v = Some a" "Next h a = Some n" using c by simp_all
  have "nexts h (Some n) (n # ns)" using c(1) by simp
  moreover have "a \<notin> set (n # ns)" using c(2) by simp
  ultimately have n: "nexts ?h (Some n) (n # ns)" by (subst nexts_write)
  have "slots_at ?h [Some a] [Some [a]]" "distinct (saved [Some [a]] @ n # ns)"
    using c(2) by simp_all
  note run = collect_uses_implements [OF this(1) n this(2), of Cmp]
  have room: "length ?S \<le> MaxSlots \<longleftrightarrow> length (U v) \<le> 2 ^ MaxSlots"
    unfolding slots_suffice us by auto
  have val: "sortUseList Cmp v h = run_then (collect_uses Cmp n [Some a] ?h) (\<lambda>(N, Slots, h).
      case merge_slots Cmp v Slots (write_slot (UseListOf v) (Some N) h) of None \<Rightarrow> None
      | Some h \<Rightarrow> map_option Inr (fix_prevs (UseList h v) (UseListOf v) h))"
    by (simp add: sortUseList_def hd)
  show ?thesis
  proof (cases "length (U v) \<le> 2 ^ MaxSlots")
    case False
    then show ?thesis using run room by (simp add: val MaxSlots_def)
  next
    case True
    with run room obtain ps h1 where h1: "collect_uses Cmp n [Some a] ?h = Some (Inr (last (n # ns), ps, h1))"
        "slots_at h1 ps ?S" "Next h1 (last (n # ns)) = None" "next_frame (set (saved [Some [a]]) \<union> set (n # ns)) ?h h1"
      by (auto simp: MaxSlots_def)
    let ?h1 = "write_slot (UseListOf v) (Some (last (n # ns))) h1"
    have ms: "mset (saved ?S @ [last (n # ns)]) = mset (U v)"
      unfolding us using append_butlast_last_id [of "n # ns"] by (metis mset_save_all mset_append list.distinct(1) saved_simps(1,3) append_Nil append_Cons add.assoc)
    have d: "distinct (saved ?S @ [last (n # ns)])" using c(2) us distinct_mset_cong [OF ms] by simp
    obtain h2 h3 where h2: "merge_slots Cmp v ps ?h1 = Some h2" "fix_prevs (UseList h2 v) (UseListOf v) h2 = Some h3"
        "chain h3 (UseListOf v) (sort_list Cmp a (n # ns))" "sort_frame v (set (saved ?S @ [last (n # ns)])) ?h1 h3"
      using merge_and_fix [of ?h1 ps ?S v "[last (n # ns)]" Cmp] h1(2,3) d by (auto simp: sort_list_def)
    have "set (saved ?S @ [last (n # ns)]) = ?A" using ms by (rule mset_eq_setD)
    with h2(4) have fr: "sort_frame v ?A ?h1 h3" by simp
    have "next_frame ?A h ?h" by (rule next_frame_write) (simp add: us)
    then have "next_frame ?A h h1" using h1(4) by (rule next_frame_trans) (auto simp: us)
    then have "sort_frame v ?A h h1" by (rule sort_frame_next) simp
    then have "sort_frame v ?A h h3"
      using fr sort_frame_UseList by (blast intro: sort_frame_trans)
    moreover have "sortUseList Cmp v h = Some (Inr h3)"
      unfolding val h1(1) using h2(1,2) by simp
    ultimately show ?thesis using True h2(3) us by (simp add: MaxSlots_def)
  qed
qed

section \<open>Property\<close>

text \<open>
  C25. \<open>Value::sortUseList\<close> is a stable sort in place: on a list of at most \<open>2^32\<close> uses, for a
  comparison by a key, it returns, and the \<open>Next\<close> and \<open>Prev\<close> pointers then represent the list
  the library's \<open>sort_key\<close> gives, every other use list being as before.  On a longer list it
  stops at the assertion on \<open>MaxSlots\<close>.
\<close>

theorem sortUseList_stable:
  fixes f :: "use \<Rightarrow> 'k::linorder"
  assumes "use_lists h U"
  shows "if length (U v) \<le> 2 ^ 32
    then \<exists>h'. sortUseList (\<lambda>x y. f x < f y) v h = Some (Inr h') \<and>
           use_lists h' (U(v := sort_key f (U v))) \<and> Val h' = Val h
    else sortUseList (\<lambda>x y. f x < f y) v h = Some (Inl Abort)"
proof (cases "length (U v) \<le> 2 ^ MaxSlots")
  case True
  have "(case U v of a # n # ns \<Rightarrow> sort_list (\<lambda>x y. f x < f y) a (n # ns) | us \<Rightarrow> us) = sort_key f (U v)"
    by (auto simp: sort_list_stable split: list.split)
  with sortUseList_implements [OF assms, of v "\<lambda>x y. f x < f y"] True obtain h' where
    "sortUseList (\<lambda>x y. f x < f y) v h = Some (Inr h')" "sort_frame v (set (U v)) h h'"
    "chain h' (UseListOf v) (sort_key f (U v))"
    by auto
  then show ?thesis
    using use_lists_sorted [OF assms, of v h' "sort_key f (U v)"] True
    by (auto simp: MaxSlots_def sort_frame_def)
next
  case False
  then show ?thesis
    using sortUseList_implements [OF assms, of v "\<lambda>x y. f x < f y"] by (simp add: MaxSlots_def)
qed

theorem sortUseList_stable_witness:
  "let h = use_set (Use 1 0) (Some 9) (use_set (Use 2 0) (Some 9) (use_set (Use 1 1) (Some 9)
        \<lparr>UseList = (\<lambda>_. None), Val = (\<lambda>_. None), Next = (\<lambda>_. None), Prev = UseListOf \<circ> getUser\<rparr>))
   in \<exists>h'. sortUseList (\<lambda>x y. getUser x < getUser y) 9 h = Some (Inr h') \<and>
        use_lists h' ((\<lambda>_. [])(9 := [Use 1 0, Use 1 1, Use 2 0]))"
proof -
  let ?e = "\<lparr>UseList = (\<lambda>_. None), Val = (\<lambda>_. None), Next = (\<lambda>_. None), Prev = UseListOf \<circ> getUser\<rparr>"
  let ?h = "use_set (Use 1 0) (Some 9) (use_set (Use 2 0) (Some 9) (use_set (Use 1 1) (Some 9) ?e))"
  let ?U = "move_use (Use 1 0) (Some 9) (move_use (Use 2 0) (Some 9) (move_use (Use 1 1) (Some 9) (\<lambda>_. [])))"
  have "use_lists ?e (\<lambda>_. [])" by (simp add: use_lists_def)
  then have "use_lists ?h ?U" using use_set_implements by blast
  moreover have "?U = (\<lambda>_. [])(9 := [Use 1 0, Use 2 0, Use 1 1])"
    by (auto simp: move_use_def push_use_def drop_use_def fun_eq_iff)
  ultimately have "use_lists ?h ((\<lambda>_. [])(9 := [Use 1 0, Use 2 0, Use 1 1]))" by (simp only:)
  from sortUseList_stable [OF this, of 9 getUser] show ?thesis
    unfolding Let_def by (simp del: One_nat_def) blast
qed

end
