(* ===== verification/LL_Math.thy ===== *)
theory LL_Math imports PT_Prelude begin

text \<open>
  \<open>llvm/Support/MathExtras.h\<close> and \<open>llvm/Support/SwapByteOrder.h\<close>: counting, masking, aligning
  and saturating arithmetic on machine words.  A template over an unsigned type \<open>T\<close> is a function
  on words of any length; a value the code leaves undefined is \<open>None\<close>.  The compiler's builtins
  are what GCC documents: \<open>__builtin_ctz\<close> and \<open>__builtin_clz\<close> count zeros and are undefined at 0.
\<close>

section \<open>Counting bits\<close>

datatype ZeroBehavior = ZB_Undefined | ZB_Max | ZB_Width

definition ctz :: "'a::len word \<Rightarrow> nat" where
  "ctz w = length (takeWhile (\<lambda>i. \<not> bit w i) [0..<LENGTH('a)])"

definition clz :: "'a::len word \<Rightarrow> nat" where
  "clz w = length (takeWhile (\<lambda>i. \<not> bit w (LENGTH('a) - 1 - i)) [0..<LENGTH('a)])"

definition popcount :: "'a::len word \<Rightarrow> nat" where
  "popcount w = length (filter (bit w) [0..<LENGTH('a)])"

definition builtin_ctz :: "'a::len word \<Rightarrow> nat option" where
  "builtin_ctz w = (if w = 0 then None else Some (ctz w))"

definition builtin_clz :: "'a::len word \<Rightarrow> nat option" where
  "builtin_clz w = (if w = 0 then None else Some (clz w))"

text \<open>The bisection of the generic templates.\<close>

function tz_bisect :: "'a::len word \<Rightarrow> nat \<Rightarrow> nat \<Rightarrow> 'a word \<Rightarrow> nat" where
  "tz_bisect Val ZeroBits Shift Mask =
     (if Shift = 0 then ZeroBits
      else
        let (Val, ZeroBits) =
              (if Val AND Mask = 0 then (drop_bit Shift Val, ZeroBits OR Shift) else (Val, ZeroBits));
            Shift = Shift div 2;
            Mask = drop_bit Shift Mask
        in tz_bisect Val ZeroBits Shift Mask)"
  by pat_completeness auto

termination by (relation "measure (\<lambda>(_, _, Shift, _). Shift)") auto

declare tz_bisect.simps [simp del]

definition TrailingZerosCounter :: "'a::len word \<Rightarrow> nat" where
  "TrailingZerosCounter Val =
     (if Val = 0 then LENGTH('a)
      else if bit Val 0 then 0
      else let Shift = LENGTH('a) div 2
           in tz_bisect Val 0 Shift (drop_bit Shift (- 1)))"

definition TrailingZerosCounter_4 :: "32 word \<Rightarrow> ZeroBehavior \<Rightarrow> nat option" where
  "TrailingZerosCounter_4 Val ZB = (if ZB \<noteq> ZB_Undefined \<and> Val = 0 then Some 32 else builtin_ctz Val)"

definition TrailingZerosCounter_8 :: "64 word \<Rightarrow> ZeroBehavior \<Rightarrow> nat option" where
  "TrailingZerosCounter_8 Val ZB = (if ZB \<noteq> ZB_Undefined \<and> Val = 0 then Some 64 else builtin_ctz Val)"

text \<open>The template is chosen by the size of the type.\<close>

definition countTrailingZeros :: "'a::len word \<Rightarrow> ZeroBehavior \<Rightarrow> nat option" where
  "countTrailingZeros Val ZB =
     (if LENGTH('a) = 32 then TrailingZerosCounter_4 (ucast Val) ZB
      else if LENGTH('a) = 64 then TrailingZerosCounter_8 (ucast Val) ZB
      else Some (TrailingZerosCounter Val))"

function lz_bisect :: "'a::len word \<Rightarrow> nat \<Rightarrow> nat \<Rightarrow> nat" where
  "lz_bisect Val ZeroBits Shift =
     (if Shift = 0 then ZeroBits
      else let Tmp = drop_bit Shift Val
           in if Tmp \<noteq> 0 then lz_bisect Tmp ZeroBits (Shift div 2)
              else lz_bisect Val (ZeroBits OR Shift) (Shift div 2))"
  by pat_completeness auto

termination by (relation "measure (\<lambda>(_, _, Shift). Shift)") auto

declare lz_bisect.simps [simp del]

definition LeadingZerosCounter :: "'a::len word \<Rightarrow> nat" where
  "LeadingZerosCounter Val = (if Val = 0 then LENGTH('a) else lz_bisect Val 0 (LENGTH('a) div 2))"

definition LeadingZerosCounter_4 :: "32 word \<Rightarrow> ZeroBehavior \<Rightarrow> nat option" where
  "LeadingZerosCounter_4 Val ZB = (if ZB \<noteq> ZB_Undefined \<and> Val = 0 then Some 32 else builtin_clz Val)"

definition LeadingZerosCounter_8 :: "64 word \<Rightarrow> ZeroBehavior \<Rightarrow> nat option" where
  "LeadingZerosCounter_8 Val ZB = (if ZB \<noteq> ZB_Undefined \<and> Val = 0 then Some 64 else builtin_clz Val)"

definition countLeadingZeros :: "'a::len word \<Rightarrow> ZeroBehavior \<Rightarrow> nat option" where
  "countLeadingZeros Val ZB =
     (if LENGTH('a) = 32 then LeadingZerosCounter_4 (ucast Val) ZB
      else if LENGTH('a) = 64 then LeadingZerosCounter_8 (ucast Val) ZB
      else Some (LeadingZerosCounter Val))"

definition countLeadingOnes :: "'a::len word \<Rightarrow> ZeroBehavior \<Rightarrow> nat option" where
  "countLeadingOnes Value ZB = countLeadingZeros (NOT Value) ZB"

definition countTrailingOnes :: "'a::len word \<Rightarrow> ZeroBehavior \<Rightarrow> nat option" where
  "countTrailingOnes Value ZB = countTrailingZeros (NOT Value) ZB"

definition countPopulation :: "'a::len word \<Rightarrow> nat" where
  "countPopulation Value = popcount Value"

definition findFirstSet :: "'a::len word \<Rightarrow> ZeroBehavior \<Rightarrow> 'a word option" where
  "findFirstSet Val ZB =
     (if ZB = ZB_Max \<and> Val = 0 then Some (- 1)
      else map_option of_nat (countTrailingZeros Val ZB_Undefined))"

definition findLastSet :: "'a::len word \<Rightarrow> ZeroBehavior \<Rightarrow> 'a word option" where
  "findLastSet Val ZB =
     (if ZB = ZB_Max \<and> Val = 0 then Some (- 1)
      else map_option (\<lambda>n. of_nat (n XOR (LENGTH('a) - 1))) (countLeadingZeros Val ZB_Undefined))"

section \<open>Masks\<close>

definition maskTrailingOnes :: "nat \<Rightarrow> 'a::len word" where
  "maskTrailingOnes N = (if N = 0 then 0 else drop_bit (LENGTH('a) - N) (- 1))"

definition maskLeadingOnes :: "nat \<Rightarrow> 'a::len word" where
  "maskLeadingOnes N = NOT (maskTrailingOnes (LENGTH('a) - N))"

definition maskTrailingZeros :: "nat \<Rightarrow> 'a::len word" where
  "maskTrailingZeros N = maskLeadingOnes (LENGTH('a) - N)"

definition maskLeadingZeros :: "nat \<Rightarrow> 'a::len word" where
  "maskLeadingZeros N = maskTrailingOnes (LENGTH('a) - N)"

definition isMask :: "'a::len word \<Rightarrow> bool" where
  "isMask Value = (Value \<noteq> 0 \<and> (Value + 1) AND Value = 0)"

definition isShiftedMask :: "'a::len word \<Rightarrow> bool" where
  "isShiftedMask Value = (Value \<noteq> 0 \<and> isMask ((Value - 1) OR Value))"

definition isPowerOf2 :: "'a::len word \<Rightarrow> bool" where
  "isPowerOf2 Value = (Value \<noteq> 0 \<and> Value AND (Value - 1) = 0)"

section \<open>Reversing bits and bytes\<close>

text \<open>The macros \<open>R2\<close>, \<open>R4\<close> and \<open>R6\<close> that lay out the table.\<close>

definition R2 :: "byte \<Rightarrow> byte list" where "R2 n = [n, n + 2 * 64, n + 1 * 64, n + 3 * 64]"
definition R4 :: "byte \<Rightarrow> byte list" where
  "R4 n = R2 n @ R2 (n + 2 * 16) @ R2 (n + 1 * 16) @ R2 (n + 3 * 16)"
definition R6 :: "byte \<Rightarrow> byte list" where
  "R6 n = R4 n @ R4 (n + 2 * 4) @ R4 (n + 1 * 4) @ R4 (n + 3 * 4)"

definition BitReverseTable256 :: "byte list" where
  "BitReverseTable256 = R6 0 @ R6 2 @ R6 1 @ R6 3"

text \<open>\<open>memcpy\<close> to and from an array of bytes, least significant first.\<close>

definition bytes_of :: "'a::len word \<Rightarrow> byte list" where
  "bytes_of w = map (\<lambda>i. ucast (drop_bit (8 * i) w)) [0..<LENGTH('a) div 8]"

fun of_bytes :: "byte list \<Rightarrow> 'a::len word" where
  "of_bytes [] = 0"
| "of_bytes (b # bs) = ucast b OR push_bit 8 (of_bytes bs)"

definition reverseBits :: "'a::len word \<Rightarrow> 'a word" where
  "reverseBits Val = of_bytes (rev (map (\<lambda>b. BitReverseTable256 ! unat b) (bytes_of Val)))"

definition SwapByteOrder_16 :: "16 word \<Rightarrow> 16 word" where
  "SwapByteOrder_16 v = (let Hi = push_bit 8 v; Lo = drop_bit 8 v in Hi OR Lo)"

definition SwapByteOrder_32 :: "32 word \<Rightarrow> 32 word" where
  "SwapByteOrder_32 v =
     (let Byte0 = v AND 0x000000FF; Byte1 = v AND 0x0000FF00; Byte2 = v AND 0x00FF0000; Byte3 = v AND 0xFF000000
      in push_bit 24 Byte0 OR push_bit 8 Byte1 OR drop_bit 8 Byte2 OR drop_bit 24 Byte3)"

definition SwapByteOrder_64 :: "64 word \<Rightarrow> 64 word" where
  "SwapByteOrder_64 v =
     (let Hi = ucast (SwapByteOrder_32 (ucast v)) :: 64 word; Lo = SwapByteOrder_32 (ucast (drop_bit 32 v))
      in push_bit 32 Hi OR ucast Lo)"

definition ByteSwap_16 :: "16 word \<Rightarrow> 16 word" where "ByteSwap_16 v = SwapByteOrder_16 v"
definition ByteSwap_32 :: "32 word \<Rightarrow> 32 word" where "ByteSwap_32 v = SwapByteOrder_32 v"
definition ByteSwap_64 :: "64 word \<Rightarrow> 64 word" where "ByteSwap_64 v = SwapByteOrder_64 v"

definition Hi_32 :: "64 word \<Rightarrow> 32 word" where "Hi_32 v = ucast (drop_bit 32 v)"
definition Lo_32 :: "64 word \<Rightarrow> 32 word" where "Lo_32 v = ucast v"
definition Make_64 :: "32 word \<Rightarrow> 32 word \<Rightarrow> 64 word" where
  "Make_64 High Low = push_bit 32 (ucast High) OR ucast Low"

section \<open>Ranges\<close>

text \<open>A template argument is an argument; \<open>int64_t\<close> values are words read with \<open>sint\<close>.\<close>

definition isInt :: "nat \<Rightarrow> 64 word \<Rightarrow> bool" where
  "isInt N x =
     (if N = 8 then (scast (ucast x :: 8 word) :: 64 word) = x
      else if N = 16 then (scast (ucast x :: 16 word) :: 64 word) = x
      else if N = 32 then (scast (ucast x :: 32 word) :: 64 word) = x
      else N \<ge> 64 \<or> - (2 ^ (N - 1)) \<le> sint x \<and> sint x < 2 ^ (N - 1))"

definition isShiftedInt :: "nat \<Rightarrow> nat \<Rightarrow> 64 word \<Rightarrow> bool" where
  "isShiftedInt N S x = (isInt (N + S) x \<and> x mod push_bit S 1 = 0)"

definition isUInt :: "nat \<Rightarrow> 64 word \<Rightarrow> bool" where
  "isUInt N x =
     (if N = 8 then (ucast (ucast x :: 8 word) :: 64 word) = x
      else if N = 16 then (ucast (ucast x :: 16 word) :: 64 word) = x
      else if N = 32 then (ucast (ucast x :: 32 word) :: 64 word) = x
      else if N < 64 then x < push_bit N 1 else True)"

definition isShiftedUInt :: "nat \<Rightarrow> nat \<Rightarrow> 64 word \<Rightarrow> bool" where
  "isShiftedUInt N S x = (isUInt (N + S) x \<and> x mod push_bit S 1 = 0)"

definition maxUIntN :: "nat \<Rightarrow> 64 word" where "maxUIntN N = drop_bit (64 - N) (- 1)"
definition minIntN :: "nat \<Rightarrow> 64 word" where "minIntN N = - push_bit (N - 1) 1"
definition maxIntN :: "nat \<Rightarrow> 64 word" where "maxIntN N = push_bit (N - 1) 1 - 1"

definition isUIntN :: "nat \<Rightarrow> 64 word \<Rightarrow> bool" where
  "isUIntN N x = (N \<ge> 64 \<or> x \<le> maxUIntN N)"

definition isIntN :: "nat \<Rightarrow> 64 word \<Rightarrow> bool" where
  "isIntN N x = (N \<ge> 64 \<or> sint (minIntN N) \<le> sint x \<and> sint x \<le> sint (maxIntN N))"

definition SignExtend32 :: "nat \<Rightarrow> 32 word \<Rightarrow> 32 word" where
  "SignExtend32 B X = signed_drop_bit (32 - B) (push_bit (32 - B) X)"

definition SignExtend64 :: "nat \<Rightarrow> 64 word \<Rightarrow> 64 word" where
  "SignExtend64 B X = signed_drop_bit (64 - B) (push_bit (64 - B) X)"

section \<open>Logarithms, alignment\<close>

text \<open>The counters with their default behaviour at 0 are defined for every value.\<close>

definition Log2_32 :: "32 word \<Rightarrow> u32" where
  "Log2_32 Value = 31 - of_nat (the (countLeadingZeros Value ZB_Width))"

definition Log2_64 :: "64 word \<Rightarrow> u32" where
  "Log2_64 Value = 63 - of_nat (the (countLeadingZeros Value ZB_Width))"

definition Log2_32_Ceil :: "32 word \<Rightarrow> u32" where
  "Log2_32_Ceil Value = 32 - of_nat (the (countLeadingZeros (Value - 1) ZB_Width))"

definition Log2_64_Ceil :: "64 word \<Rightarrow> u32" where
  "Log2_64_Ceil Value = 64 - of_nat (the (countLeadingZeros (Value - 1) ZB_Width))"

function GreatestCommonDivisor64 :: "u64 \<Rightarrow> u64 \<Rightarrow> u64" where
  "GreatestCommonDivisor64 A B = (if B = 0 then A else GreatestCommonDivisor64 B (A mod B))"
  by pat_completeness auto

termination
proof (relation "measure (\<lambda>(_, B). unat B)")
  fix A B :: u64
  assume "B \<noteq> 0"
  then show "((B, A mod B), A, B) \<in> measure (\<lambda>(_, B). unat B)"
    by (simp add: unat_mod unat_gt_0)
qed simp

declare GreatestCommonDivisor64.simps [simp del]

definition MinAlign :: "u64 \<Rightarrow> u64 \<Rightarrow> u64" where
  "MinAlign A B = (A OR B) AND (1 + NOT (A OR B))"

definition alignAddr :: "addr \<Rightarrow> u64 \<Rightarrow> u64" where
  "alignAddr Addr Alignment = (Addr + Alignment - 1) AND NOT (Alignment - 1)"

definition alignmentAdjustment :: "addr \<Rightarrow> u64 \<Rightarrow> u64" where
  "alignmentAdjustment Ptr Alignment = alignAddr Ptr Alignment - Ptr"

definition NextPowerOf2 :: "u64 \<Rightarrow> u64" where
  "NextPowerOf2 A =
     (let A = A OR drop_bit 1 A; A = A OR drop_bit 2 A; A = A OR drop_bit 4 A;
          A = A OR drop_bit 8 A; A = A OR drop_bit 16 A; A = A OR drop_bit 32 A
      in A + 1)"

definition PowerOf2Floor :: "u64 \<Rightarrow> u64" where
  "PowerOf2Floor A =
     (if A = 0 then 0 else push_bit (63 - the (countLeadingZeros A ZB_Undefined)) 1)"

definition PowerOf2Ceil :: "u64 \<Rightarrow> u64" where
  "PowerOf2Ceil A = (if A = 0 then 0 else NextPowerOf2 (A - 1))"

definition alignTo :: "u64 \<Rightarrow> u64 \<Rightarrow> u64 \<Rightarrow> u64" where
  "alignTo Value Align Skew =
     (let Skew = Skew mod Align in (Value + Align - 1 - Skew) div Align * Align + Skew)"

definition alignTo_const :: "u64 \<Rightarrow> u64 \<Rightarrow> u64" where
  "alignTo_const Align Value = (Value + Align - 1) div Align * Align"

definition divideCeil :: "u64 \<Rightarrow> u64 \<Rightarrow> u64" where
  "divideCeil Numerator Denominator = alignTo Numerator Denominator 0 div Denominator"

definition alignDown :: "u64 \<Rightarrow> u64 \<Rightarrow> u64 \<Rightarrow> u64" where
  "alignDown Value Align Skew = (let Skew = Skew mod Align in (Value - Skew) div Align * Align + Skew)"

definition OffsetToAlignment :: "u64 \<Rightarrow> u64 \<Rightarrow> u64" where
  "OffsetToAlignment Value Align = alignTo Value Align 0 - Value"

section \<open>Saturating arithmetic\<close>

definition AbsoluteDifference :: "'a::len word \<Rightarrow> 'a word \<Rightarrow> 'a word" where
  "AbsoluteDifference X Y = max X Y - min X Y"

text \<open>Results with the value of \<open>*ResultOverflowed\<close>.\<close>

definition SaturatingAdd :: "'a::len word \<Rightarrow> 'a word \<Rightarrow> 'a word \<times> bool" where
  "SaturatingAdd X Y =
     (let Z = X + Y; Overflowed = (Z < X \<or> Z < Y)
      in if Overflowed then (- 1, True) else (Z, False))"

definition SaturatingMultiply :: "'a::len word \<Rightarrow> 'a word \<Rightarrow> 'a word \<times> bool" where
  "SaturatingMultiply X Y =
     (let Log2Z = Log2_64 (ucast X) + Log2_64 (ucast Y);
          Max = - 1 :: 'a word;
          Log2Max = Log2_64 (ucast Max)
      in if sint Log2Z < sint Log2Max then (X * Y, False)
         else if sint Log2Max < sint Log2Z then (Max, True)
         else let Z = drop_bit 1 X * Y
              in if Z AND NOT (drop_bit 1 Max) \<noteq> 0 then (Max, True)
                 else let Z = push_bit 1 Z
                      in if X AND 1 \<noteq> 0 then SaturatingAdd Z Y else (Z, False))"

definition SaturatingMultiplyAdd :: "'a::len word \<Rightarrow> 'a word \<Rightarrow> 'a word \<Rightarrow> 'a word \<times> bool" where
  "SaturatingMultiplyAdd X Y A =
     (let (Product, Overflowed) = SaturatingMultiply X Y
      in if Overflowed then (Product, True) else SaturatingAdd A Product)"

end
