(* ===== verification/LL_BitVector.thy ===== *)
theory LL_BitVector imports LL_Math begin

text \<open>
  \<open>llvm/ADT/BitVector.h\<close>: a vector of bits packed in 64-bit words, with the last word padded.  The
  array \<open>Bits\<close> is a list of words; it may be longer than the size needs, and what lies beyond
  the last used word is arbitrary.  \<open>unsigned\<close> indices are natural numbers; the wrap of
  \<open>NumBitWords\<close> is written out, and a conversion to \<open>int\<close> is \<open>as_int\<close>.  \<open>malloc\<close> and \<open>realloc\<close>
  succeed and give words that hold anything: \<open>junk i\<close> is the word at position \<open>i\<close>.  An operation
  whose assertion fails, or that would index outside the array, is \<open>None\<close>.
\<close>

record bitvector =
  Bits :: "u64 list"
  Size :: nat

definition as_int :: "nat \<Rightarrow> int" where
  "as_int n = sint (of_nat n :: u32)"

section \<open>Words, allocation, unused bits\<close>

definition NumBitWords :: "nat \<Rightarrow> nat" where
  "NumBitWords S = ((S + 64 - 1) mod 2 ^ 32) div 64"

definition getBitCapacity :: "bitvector \<Rightarrow> nat" where
  "getBitCapacity b = length (Bits b) * 64"

definition getMemorySize :: "bitvector \<Rightarrow> nat" where
  "getMemorySize b = length (Bits b) * 8"

definition allocate :: "(nat \<Rightarrow> u64) \<Rightarrow> nat \<Rightarrow> u64 list" where
  "allocate junk NumWords = map junk [0..<NumWords]"

definition init_words :: "u64 list \<Rightarrow> bool \<Rightarrow> u64 list" where
  "init_words B t = map (\<lambda>_. if t then - 1 else 0) B"

definition set_unused_bits :: "bool \<Rightarrow> bitvector \<Rightarrow> bitvector" where
  "set_unused_bits t b =
     (let UsedWords = NumBitWords (Size b);
          ws = (if length (Bits b) > UsedWords
                then take UsedWords (Bits b) @ init_words (drop UsedWords (Bits b)) t else Bits b);
          ExtraBits = Size b mod 64;
          ws = (if ExtraBits \<noteq> 0
                then let ExtraBitMask = push_bit ExtraBits (- 1)
                     in if t then ws[UsedWords - 1 := ws ! (UsedWords - 1) OR ExtraBitMask]
                        else ws[UsedWords - 1 := ws ! (UsedWords - 1) AND NOT ExtraBitMask]
                else ws)
      in b\<lparr>Bits := ws\<rparr>)"

definition clear_unused_bits :: "bitvector \<Rightarrow> bitvector" where
  "clear_unused_bits b = set_unused_bits False b"

definition bv_grow :: "(nat \<Rightarrow> u64) \<Rightarrow> nat \<Rightarrow> bitvector \<Rightarrow> bitvector" where
  "bv_grow junk NewSize b =
     (let NewCapacity = max (NumBitWords NewSize) (length (Bits b) * 2)
      in clear_unused_bits (b\<lparr>Bits := Bits b @ map junk [length (Bits b)..<NewCapacity]\<rparr>))"

section \<open>Construction, copies, bv_size\<close>

definition BitVector_empty :: bitvector where
  "BitVector_empty = \<lparr>Bits = [], Size = 0\<rparr>"

definition BitVector :: "(nat \<Rightarrow> u64) \<Rightarrow> nat \<Rightarrow> bool \<Rightarrow> bitvector" where
  "BitVector junk s t =
     (let b = \<lparr>Bits = init_words (allocate junk (NumBitWords s)) t, Size = s\<rparr>
      in if t then clear_unused_bits b else b)"

text \<open>\<open>memcpy\<close> of words over the front of an array.\<close>

definition copy_words :: "u64 list \<Rightarrow> u64 list \<Rightarrow> nat \<Rightarrow> u64 list" where
  "copy_words dst src n = take n src @ drop n dst"

definition BitVector_copy :: "(nat \<Rightarrow> u64) \<Rightarrow> bitvector \<Rightarrow> bitvector" where
  "BitVector_copy junk RHS =
     (if Size RHS = 0 then BitVector_empty
      else let Capacity = NumBitWords (Size RHS)
           in \<lparr>Bits = copy_words (allocate junk Capacity) (Bits RHS) Capacity, Size = Size RHS\<rparr>)"

text \<open>Moves give the new value and what is left of the source.\<close>

definition BitVector_move :: "bitvector \<Rightarrow> bitvector \<times> bitvector" where
  "BitVector_move RHS = (RHS, BitVector_empty)"

definition bv_assign :: "(nat \<Rightarrow> u64) \<Rightarrow> bitvector \<Rightarrow> bitvector \<Rightarrow> bitvector" where
  "bv_assign junk b RHS =
     (let b = b\<lparr>Size := Size RHS\<rparr>; RHSWords = NumBitWords (Size b)
      in if Size b \<le> getBitCapacity b
         then clear_unused_bits
                (if Size b \<noteq> 0 then b\<lparr>Bits := copy_words (Bits b) (Bits RHS) RHSWords\<rparr> else b)
         else b\<lparr>Bits := copy_words (allocate junk RHSWords) (Bits RHS) RHSWords\<rparr>)"

definition bv_assign_move :: "bitvector \<Rightarrow> bitvector \<Rightarrow> bitvector \<times> bitvector" where
  "bv_assign_move b RHS = (b\<lparr>Bits := Bits RHS, Size := Size RHS\<rparr>, BitVector_empty)"

definition bv_swap :: "bitvector \<Rightarrow> bitvector \<Rightarrow> bitvector \<times> bitvector" where
  "bv_swap b RHS = (RHS, b)"

definition bv_empty :: "bitvector \<Rightarrow> bool" where "bv_empty b = (Size b = 0)"
definition bv_size :: "bitvector \<Rightarrow> nat" where "bv_size b = Size b"

definition bv_clear :: "bitvector \<Rightarrow> bitvector" where
  "bv_clear b = b\<lparr>Size := 0\<rparr>"

definition bv_resize :: "(nat \<Rightarrow> u64) \<Rightarrow> nat \<Rightarrow> bool \<Rightarrow> bitvector \<Rightarrow> bitvector" where
  "bv_resize junk N t b =
     (let b = (if N > getBitCapacity b
               then let OldCapacity = length (Bits b); b = bv_grow junk N b
                    in b\<lparr>Bits := take OldCapacity (Bits b) @ init_words (drop OldCapacity (Bits b)) t\<rparr>
               else b);
          b = (if N > Size b then set_unused_bits t b else b);
          OldSize = Size b;
          b = b\<lparr>Size := N\<rparr>
      in if t \<or> N < OldSize then clear_unused_bits b else b)"

definition bv_reserve :: "(nat \<Rightarrow> u64) \<Rightarrow> nat \<Rightarrow> bitvector \<Rightarrow> bitvector" where
  "bv_reserve junk N b = (if N > getBitCapacity b then bv_grow junk N b else b)"

section \<open>Counting and testing\<close>

definition bv_count :: "bitvector \<Rightarrow> nat" where
  "bv_count b = fold (\<lambda>i NumBits. NumBits + countPopulation (Bits b ! i)) [0..<NumBitWords (bv_size b)] 0"

definition bv_any :: "bitvector \<Rightarrow> bool" where
  "bv_any b = list_ex (\<lambda>i. Bits b ! i \<noteq> 0) [0..<NumBitWords (bv_size b)]"

definition bv_all :: "bitvector \<Rightarrow> bool" where
  "bv_all b =
     (if list_ex (\<lambda>i. Bits b ! i \<noteq> - 1) [0..<Size b div 64] then False
      else let Remainder = Size b mod 64
           in if Remainder \<noteq> 0 then Bits b ! (Size b div 64) = push_bit Remainder 1 - 1 else True)"

definition bv_none :: "bitvector \<Rightarrow> bool" where
  "bv_none b = (\<not> bv_any b)"

definition bv_index :: "bitvector \<Rightarrow> nat \<Rightarrow> bool option" where
  "bv_index b Idx =
     (if Idx < Size b
      then let Mask = push_bit (Idx mod 64) 1 in Some (Bits b ! (Idx div 64) AND Mask \<noteq> 0) else None)"

definition bv_test :: "bitvector \<Rightarrow> nat \<Rightarrow> bool option" where
  "bv_test b Idx = bv_index b Idx"

section \<open>Searching\<close>

text \<open>The four loops over the words of a range; the list is the values of \<open>i\<close> still to come.\<close>

fun first_in_words :: "u64 list \<Rightarrow> nat \<Rightarrow> nat \<Rightarrow> nat list \<Rightarrow> int" where
  "first_in_words ws Begin End [] = - 1"
| "first_in_words ws Begin End (i # is) =
     (let Copy = ws ! i;
          Copy = (if i = Begin div 64 then Copy AND maskTrailingZeros (Begin mod 64) else Copy);
          Copy = (if i = (End - 1) div 64 then Copy AND maskTrailingOnes ((End - 1) mod 64 + 1) else Copy)
      in if Copy \<noteq> 0 then as_int (i * 64 + the (countTrailingZeros Copy ZB_Width))
         else first_in_words ws Begin End is)"

definition find_first_in :: "bitvector \<Rightarrow> nat \<Rightarrow> nat \<Rightarrow> int option" where
  "find_first_in b Begin End =
     (if Begin \<le> End \<and> End \<le> Size b
      then if Begin = End then Some (- 1)
           else Some (first_in_words (Bits b) Begin End [Begin div 64..<(End - 1) div 64 + 1])
      else None)"

fun last_in_words :: "u64 list \<Rightarrow> nat \<Rightarrow> nat \<Rightarrow> nat list \<Rightarrow> int" where
  "last_in_words ws Begin End [] = - 1"
| "last_in_words ws Begin End (CurrentWord # is) =
     (let Copy = ws ! CurrentWord;
          Copy = (if CurrentWord = (End - 1) div 64 then Copy AND maskTrailingOnes ((End - 1) mod 64 + 1) else Copy);
          Copy = (if CurrentWord = Begin div 64 then Copy AND maskTrailingZeros (Begin mod 64) else Copy)
      in if Copy \<noteq> 0 then as_int ((CurrentWord + 1) * 64 - the (countLeadingZeros Copy ZB_Width) - 1)
         else last_in_words ws Begin End is)"

definition find_last_in :: "bitvector \<Rightarrow> nat \<Rightarrow> nat \<Rightarrow> int option" where
  "find_last_in b Begin End =
     (if Begin \<le> End \<and> End \<le> Size b
      then if Begin = End then Some (- 1)
           else Some (last_in_words (Bits b) Begin End (rev [Begin div 64..<(End - 1) div 64 + 1]))
      else None)"

fun first_unset_in_words :: "u64 list \<Rightarrow> nat \<Rightarrow> nat \<Rightarrow> nat \<Rightarrow> nat list \<Rightarrow> int" where
  "first_unset_in_words ws sz Begin End [] = - 1"
| "first_unset_in_words ws sz Begin End (i # is) =
     (let Copy = ws ! i;
          Copy = (if i = Begin div 64 then Copy OR maskTrailingOnes (Begin mod 64) else Copy);
          Copy = (if i = (End - 1) div 64 then Copy OR maskTrailingZeros ((End - 1) mod 64 + 1) else Copy)
      in if Copy \<noteq> - 1
         then let Result = i * 64 + the (countTrailingOnes Copy ZB_Width)
              in if Result < sz then as_int Result else - 1
         else first_unset_in_words ws sz Begin End is)"

definition find_first_unset_in :: "bitvector \<Rightarrow> nat \<Rightarrow> nat \<Rightarrow> int option" where
  "find_first_unset_in b Begin End =
     (if Begin \<le> End \<and> End \<le> Size b
      then if Begin = End then Some (- 1)
           else Some (first_unset_in_words (Bits b) (bv_size b) Begin End [Begin div 64..<(End - 1) div 64 + 1])
      else None)"

fun last_unset_in_words :: "u64 list \<Rightarrow> nat \<Rightarrow> nat \<Rightarrow> nat \<Rightarrow> nat list \<Rightarrow> int" where
  "last_unset_in_words ws sz Begin End [] = - 1"
| "last_unset_in_words ws sz Begin End (CurrentWord # is) =
     (let Copy = ws ! CurrentWord;
          Copy = (if CurrentWord = (End - 1) div 64 then Copy OR maskTrailingZeros ((End - 1) mod 64 + 1) else Copy);
          Copy = (if CurrentWord = Begin div 64 then Copy OR maskTrailingOnes (Begin mod 64) else Copy)
      in if Copy \<noteq> - 1
         then let Result = (CurrentWord + 1) * 64 - the (countLeadingOnes Copy ZB_Width) - 1
              in if Result < sz then as_int Result else - 1
         else last_unset_in_words ws sz Begin End is)"

definition find_last_unset_in :: "bitvector \<Rightarrow> nat \<Rightarrow> nat \<Rightarrow> int option" where
  "find_last_unset_in b Begin End =
     (if Begin \<le> End \<and> End \<le> Size b
      then if Begin = End then Some (- 1)
           else Some (last_unset_in_words (Bits b) (Size b) Begin End (rev [Begin div 64..<(End - 1) div 64 + 1]))
      else None)"

definition find_first :: "bitvector \<Rightarrow> int option" where "find_first b = find_first_in b 0 (Size b)"
definition find_last :: "bitvector \<Rightarrow> int option" where "find_last b = find_last_in b 0 (Size b)"

definition find_next :: "bitvector \<Rightarrow> nat \<Rightarrow> int option" where
  "find_next b Prev = find_first_in b ((Prev + 1) mod 2 ^ 32) (Size b)"

definition find_prev :: "bitvector \<Rightarrow> nat \<Rightarrow> int option" where
  "find_prev b PriorTo = find_last_in b 0 PriorTo"

definition find_first_unset :: "bitvector \<Rightarrow> int option" where
  "find_first_unset b = find_first_unset_in b 0 (Size b)"

definition find_next_unset :: "bitvector \<Rightarrow> nat \<Rightarrow> int option" where
  "find_next_unset b Prev = find_first_unset_in b ((Prev + 1) mod 2 ^ 32) (Size b)"

definition find_last_unset :: "bitvector \<Rightarrow> int option" where
  "find_last_unset b = find_last_unset_in b 0 (Size b)"

definition find_prev_unset :: "bitvector \<Rightarrow> nat \<Rightarrow> int option" where
  "find_prev_unset b PriorTo = find_last_unset_in b 0 PriorTo"

definition next_unset_in_word :: "bitvector \<Rightarrow> nat \<Rightarrow> u64 \<Rightarrow> int" where
  "next_unset_in_word b WordIndex Word =
     (let Result = WordIndex * 64 + the (countTrailingOnes Word ZB_Width)
      in if Result < bv_size b then as_int Result else - 1)"

text \<open>
  \<open>const_set_bits_iterator_impl\<close>: the iteration over the bits that are set, for any vector with a
  \<open>find_first\<close> and a \<open>find_next\<close>.  \<open>n\<close> bounds the number of steps; the size of the vector plus
  one is enough.
\<close>

fun set_bits_from :: "nat \<Rightarrow> (nat \<Rightarrow> int option) \<Rightarrow> int option \<Rightarrow> int list option" where
  "set_bits_from 0 next Current = None"
| "set_bits_from (Suc n) next None = None"
| "set_bits_from (Suc n) next (Some Current) =
     (if Current = - 1 then Some []
      else map_option (\<lambda>cs. Current # cs) (set_bits_from n next (next (nat (Current mod 2 ^ 32)))))"

definition bv_set_bits :: "bitvector \<Rightarrow> int list option" where
  "bv_set_bits b = set_bits_from (Size b + 1) (find_next b) (find_first b)"

section \<open>Setting, resetting, flipping\<close>

definition set_all :: "bitvector \<Rightarrow> bitvector" where
  "set_all b = clear_unused_bits (b\<lparr>Bits := init_words (Bits b) True\<rparr>)"

definition set_bit_at :: "nat \<Rightarrow> bitvector \<Rightarrow> bitvector option" where
  "set_bit_at Idx b =
     (if Idx div 64 < length (Bits b)
      then Some (b\<lparr>Bits := (Bits b)[Idx div 64 := Bits b ! (Idx div 64) OR push_bit (Idx mod 64) 1]\<rparr>)
      else None)"

text \<open>The loop over the whole words of a range: the array and where it stopped.\<close>

function fill_words :: "u64 \<Rightarrow> nat \<Rightarrow> nat \<Rightarrow> u64 list \<Rightarrow> u64 list \<times> nat" where
  "fill_words w I E ws = (if I + 64 \<le> E then fill_words w (I + 64) E (ws[I div 64 := w]) else (ws, I))"
  by pat_completeness auto

termination by (relation "measure (\<lambda>(_, I, E, _). E - I)") auto

declare fill_words.simps [simp del]

definition set_range :: "nat \<Rightarrow> nat \<Rightarrow> bitvector \<Rightarrow> bitvector option" where
  "set_range I E b =
     (if \<not> (I \<le> E \<and> E \<le> bv_size b) then None
      else if I = E then Some b
      else if I div 64 = E div 64
      then let EMask = push_bit (E mod 64) 1; IMask = push_bit (I mod 64) 1; Mask = EMask - IMask
           in Some (b\<lparr>Bits := (Bits b)[I div 64 := Bits b ! (I div 64) OR Mask]\<rparr>)
      else let PrefixMask = push_bit (I mod 64) (- 1);
               ws = (Bits b)[I div 64 := Bits b ! (I div 64) OR PrefixMask];
               I = unat (alignTo (of_nat I) 64 0);
               (ws, I) = fill_words (- 1) I E ws;
               PostfixMask = push_bit (E mod 64) 1 - 1
           in Some (b\<lparr>Bits := if I < E then ws[I div 64 := ws ! (I div 64) OR PostfixMask] else ws\<rparr>))"

definition reset_all :: "bitvector \<Rightarrow> bitvector" where
  "reset_all b = b\<lparr>Bits := init_words (Bits b) False\<rparr>"

definition reset_bit_at :: "nat \<Rightarrow> bitvector \<Rightarrow> bitvector option" where
  "reset_bit_at Idx b =
     (if Idx div 64 < length (Bits b)
      then Some (b\<lparr>Bits := (Bits b)[Idx div 64 := Bits b ! (Idx div 64) AND NOT (push_bit (Idx mod 64) 1)]\<rparr>)
      else None)"

definition reset_range :: "nat \<Rightarrow> nat \<Rightarrow> bitvector \<Rightarrow> bitvector option" where
  "reset_range I E b =
     (if \<not> (I \<le> E \<and> E \<le> bv_size b) then None
      else if I = E then Some b
      else if I div 64 = E div 64
      then let EMask = push_bit (E mod 64) 1; IMask = push_bit (I mod 64) 1; Mask = EMask - IMask
           in Some (b\<lparr>Bits := (Bits b)[I div 64 := Bits b ! (I div 64) AND NOT Mask]\<rparr>)
      else let PrefixMask = push_bit (I mod 64) (- 1);
               ws = (Bits b)[I div 64 := Bits b ! (I div 64) AND NOT PrefixMask];
               I = unat (alignTo (of_nat I) 64 0);
               (ws, I) = fill_words 0 I E ws;
               PostfixMask = push_bit (E mod 64) 1 - 1
           in Some (b\<lparr>Bits := if I < E then ws[I div 64 := ws ! (I div 64) AND NOT PostfixMask] else ws\<rparr>))"

definition flip_all :: "bitvector \<Rightarrow> bitvector" where
  "flip_all b =
     clear_unused_bits (b\<lparr>Bits := fold (\<lambda>i ws. ws[i := NOT (ws ! i)]) [0..<NumBitWords (bv_size b)] (Bits b)\<rparr>)"

definition flip_bit_at :: "nat \<Rightarrow> bitvector \<Rightarrow> bitvector option" where
  "flip_bit_at Idx b =
     (if Idx div 64 < length (Bits b)
      then Some (b\<lparr>Bits := (Bits b)[Idx div 64 := Bits b ! (Idx div 64) XOR push_bit (Idx mod 64) 1]\<rparr>)
      else None)"

text \<open>\<open>reference\<close>: the word it points to and the position of the bit.\<close>

definition reference_at :: "bitvector \<Rightarrow> nat \<Rightarrow> (nat \<times> nat) option" where
  "reference_at b Idx = (if Idx < Size b then Some (Idx div 64, Idx mod 64) else None)"

definition reference_assign :: "nat \<times> nat \<Rightarrow> bool \<Rightarrow> bitvector \<Rightarrow> bitvector" where
  "reference_assign r t b =
     (case r of (WordRef, BitPos) \<Rightarrow>
       if t then b\<lparr>Bits := (Bits b)[WordRef := Bits b ! WordRef OR push_bit BitPos 1]\<rparr>
       else b\<lparr>Bits := (Bits b)[WordRef := Bits b ! WordRef AND NOT (push_bit BitPos 1)]\<rparr>)"

definition reference_bool :: "nat \<times> nat \<Rightarrow> bitvector \<Rightarrow> bool" where
  "reference_bool r b = (case r of (WordRef, BitPos) \<Rightarrow> Bits b ! WordRef AND push_bit BitPos 1 \<noteq> 0)"

section \<open>Two vectors\<close>

definition anyCommon :: "bitvector \<Rightarrow> bitvector \<Rightarrow> bool" where
  "anyCommon b RHS =
     (let ThisWords = NumBitWords (bv_size b); RHSWords = NumBitWords (bv_size RHS)
      in list_ex (\<lambda>i. Bits b ! i AND Bits RHS ! i \<noteq> 0) [0..<min ThisWords RHSWords])"

definition bv_equals :: "bitvector \<Rightarrow> bitvector \<Rightarrow> bool" where
  "bv_equals b RHS =
     (let ThisWords = NumBitWords (bv_size b); RHSWords = NumBitWords (bv_size RHS); i = min ThisWords RHSWords
      in if list_ex (\<lambda>i. Bits b ! i \<noteq> Bits RHS ! i) [0..<i] then False
         else if i \<noteq> ThisWords then \<not> list_ex (\<lambda>i. Bits b ! i \<noteq> 0) [i..<ThisWords]
         else if i \<noteq> RHSWords then \<not> list_ex (\<lambda>i. Bits RHS ! i \<noteq> 0) [i..<RHSWords]
         else True)"

definition bv_not_equals :: "bitvector \<Rightarrow> bitvector \<Rightarrow> bool" where
  "bv_not_equals b RHS = (\<not> bv_equals b RHS)"

definition and_with :: "bitvector \<Rightarrow> bitvector \<Rightarrow> bitvector" where
  "and_with b RHS =
     (let ThisWords = NumBitWords (bv_size b); RHSWords = NumBitWords (bv_size RHS); i = min ThisWords RHSWords;
          ws = fold (\<lambda>i ws. ws[i := ws ! i AND Bits RHS ! i]) [0..<i] (Bits b);
          ws = fold (\<lambda>i ws. ws[i := 0]) [i..<ThisWords] ws
      in b\<lparr>Bits := ws\<rparr>)"

definition reset_with :: "bitvector \<Rightarrow> bitvector \<Rightarrow> bitvector" where
  "reset_with b RHS =
     (let ThisWords = NumBitWords (bv_size b); RHSWords = NumBitWords (bv_size RHS)
      in b\<lparr>Bits := fold (\<lambda>i ws. ws[i := ws ! i AND NOT (Bits RHS ! i)]) [0..<min ThisWords RHSWords] (Bits b)\<rparr>)"

definition test_against :: "bitvector \<Rightarrow> bitvector \<Rightarrow> bool" where
  "test_against b RHS =
     (let ThisWords = NumBitWords (bv_size b); RHSWords = NumBitWords (bv_size RHS); i = min ThisWords RHSWords
      in if list_ex (\<lambda>i. Bits b ! i AND NOT (Bits RHS ! i) \<noteq> 0) [0..<i] then True
         else list_ex (\<lambda>i. Bits b ! i \<noteq> 0) [i..<ThisWords])"

definition or_with :: "(nat \<Rightarrow> u64) \<Rightarrow> bitvector \<Rightarrow> bitvector \<Rightarrow> bitvector" where
  "or_with junk b RHS =
     (let b = (if bv_size b < bv_size RHS then bv_resize junk (bv_size RHS) False b else b)
      in b\<lparr>Bits := fold (\<lambda>i ws. ws[i := ws ! i OR Bits RHS ! i]) [0..<NumBitWords (bv_size RHS)] (Bits b)\<rparr>)"

definition xor_with :: "(nat \<Rightarrow> u64) \<Rightarrow> bitvector \<Rightarrow> bitvector \<Rightarrow> bitvector" where
  "xor_with junk b RHS =
     (let b = (if bv_size b < bv_size RHS then bv_resize junk (bv_size RHS) False b else b)
      in b\<lparr>Bits := fold (\<lambda>i ws. ws[i := ws ! i XOR Bits RHS ! i]) [0..<NumBitWords (bv_size RHS)] (Bits b)\<rparr>)"

section \<open>Shifts\<close>

definition wordShl :: "nat \<Rightarrow> bitvector \<Rightarrow> bitvector" where
  "wordShl Count b =
     (if Count = 0 then b
      else let NumWords = NumBitWords (Size b);
               Src = take (NumWords - Count) (take NumWords (Bits b))
           in clear_unused_bits (b\<lparr>Bits := replicate Count 0 @ Src @ drop NumWords (Bits b)\<rparr>))"

definition wordShr :: "nat \<Rightarrow> bitvector \<Rightarrow> bitvector" where
  "wordShr Count b =
     (if Count = 0 then b
      else let NumWords = NumBitWords (Size b);
               Src = drop Count (take NumWords (Bits b))
           in b\<lparr>Bits := Src @ replicate Count 0 @ drop NumWords (Bits b)\<rparr>)"

definition shift_right :: "nat \<Rightarrow> bitvector \<Rightarrow> bitvector option" where
  "shift_right N b =
     (if \<not> N \<le> Size b then None
      else if bv_empty b \<or> N = 0 then Some b
      else let NumWords = NumBitWords (Size b);
               b = wordShr (N div 64) b;
               BitDistance = N mod 64
           in if BitDistance = 0 then Some b
              else let Mask = maskTrailingOnes BitDistance;
                       LSH = 64 - BitDistance;
                       ws = fold (\<lambda>I ws. ws[I := drop_bit BitDistance (ws ! I) OR push_bit LSH (ws ! (I + 1) AND Mask)])
                              [0..<NumWords - 1] (Bits b);
                       ws = ws[NumWords - 1 := drop_bit BitDistance (ws ! (NumWords - 1))]
                   in Some (b\<lparr>Bits := ws\<rparr>))"

definition shift_left :: "nat \<Rightarrow> bitvector \<Rightarrow> bitvector option" where
  "shift_left N b =
     (if \<not> N \<le> Size b then None
      else if bv_empty b \<or> N = 0 then Some b
      else let NumWords = NumBitWords (Size b);
               b = wordShl (N div 64) b;
               BitDistance = N mod 64
           in if BitDistance = 0 then Some b
              else let Mask = maskLeadingOnes BitDistance;
                       RSH = 64 - BitDistance;
                       ws = fold (\<lambda>I ws. ws[I := push_bit BitDistance (ws ! I) OR drop_bit RSH (ws ! (I - 1) AND Mask)])
                              (rev [1..<NumWords]) (Bits b);
                       ws = ws[0 := push_bit BitDistance (ws ! 0)]
                   in Some (clear_unused_bits (b\<lparr>Bits := ws\<rparr>)))"

section \<open>Portable masks\<close>

definition mask_word :: "bool \<Rightarrow> bool \<Rightarrow> nat \<Rightarrow> u32 \<Rightarrow> u64 \<Rightarrow> u64" where
  "mask_word AddBits InvertMask b M BW =
     (let M = (if InvertMask then NOT M else M)
      in if AddBits then BW OR push_bit b (ucast M) else BW AND NOT (push_bit b (ucast M)))"

fun mask_words :: "bool \<Rightarrow> bool \<Rightarrow> u32 list \<Rightarrow> nat \<Rightarrow> u64 list \<Rightarrow> u64 list" where
  "mask_words AddBits InvertMask (M0 # M1 # Ms) i ws =
     mask_words AddBits InvertMask Ms (i + 1)
       (ws[i := mask_word AddBits InvertMask 32 M1 (mask_word AddBits InvertMask 0 M0 (ws ! i))])"
| "mask_words AddBits InvertMask [M] i ws = ws[i := mask_word AddBits InvertMask 0 M (ws ! i)]"
| "mask_words AddBits InvertMask [] i ws = ws"

text \<open>\<open>Mask\<close> is the words that can be read there; to need more of them is \<open>None\<close>.\<close>

definition applyMask :: "bool \<Rightarrow> bool \<Rightarrow> u32 list \<Rightarrow> nat \<Rightarrow> bitvector \<Rightarrow> bitvector option" where
  "applyMask AddBits InvertMask Mask MaskWords b =
     (let MaskWords = min MaskWords ((bv_size b + 31) mod 2 ^ 32 div 32)
      in if length Mask < MaskWords then None
         else let b = b\<lparr>Bits := mask_words AddBits InvertMask (take MaskWords Mask) 0 (Bits b)\<rparr>
              in Some (if AddBits then clear_unused_bits b else b))"

definition setBitsInMask :: "u32 list \<Rightarrow> nat \<Rightarrow> bitvector \<Rightarrow> bitvector option" where
  "setBitsInMask Mask MaskWords b = applyMask True False Mask MaskWords b"

definition clearBitsInMask :: "u32 list \<Rightarrow> nat \<Rightarrow> bitvector \<Rightarrow> bitvector option" where
  "clearBitsInMask Mask MaskWords b = applyMask False False Mask MaskWords b"

definition setBitsNotInMask :: "u32 list \<Rightarrow> nat \<Rightarrow> bitvector \<Rightarrow> bitvector option" where
  "setBitsNotInMask Mask MaskWords b = applyMask True True Mask MaskWords b"

definition clearBitsNotInMask :: "u32 list \<Rightarrow> nat \<Rightarrow> bitvector \<Rightarrow> bitvector option" where
  "clearBitsNotInMask Mask MaskWords b = applyMask False True Mask MaskWords b"

end
