(* ===== verification/LL_Math_Lemmas.thy ===== *)
theory LL_Math_Lemmas imports LL_Math begin

text \<open>What the functions of \<open>LL_Math\<close> compute, on bits and on numbers.\<close>

section \<open>Counting zeros\<close>

lemma takeWhile_index:
  assumes "n < L" and "\<not> P n" and "\<And>i. i < n \<Longrightarrow> P i"
  shows "length (takeWhile P [0..<L]) = n"
proof -
  have "[0..<L] = [0..<n] @ n # [Suc n..<L]"
    using assms(1) by (metis upt_conv_Cons le_add_diff_inverse less_imp_le_nat upt_add_eq_append zero_le)
  moreover have "takeWhile P ([0..<n] @ n # [Suc n..<L]) = [0..<n]"
    using assms(2,3) by (subst takeWhile_append2) auto
  ultimately show ?thesis by simp
qed

lemma ctz_eqI: "bit w n \<Longrightarrow> (\<And>i. i < n \<Longrightarrow> \<not> bit w i) \<Longrightarrow> ctz w = n"
  unfolding ctz_def by (rule takeWhile_index) (auto dest: bit_imp_le_length)

lemma clz_eqI:
  assumes "bit (w :: 'a::len word) (LENGTH('a) - 1 - n)" and "n < LENGTH('a)"
    and "\<And>i. LENGTH('a) - 1 - n < i \<Longrightarrow> \<not> bit w i"
  shows "clz w = n"
  unfolding clz_def using assms by (intro takeWhile_index) auto

lemma word_has_lowest_bit:
  assumes "w \<noteq> 0" obtains n where "bit w n" "\<And>i. i < n \<Longrightarrow> \<not> bit w i"
proof -
  obtain n where "bit w n" using assms by (auto simp: bit_eq_iff)
  then have "bit w (LEAST n. bit w n)" by (rule LeastI)
  then show ?thesis using that not_less_Least by blast
qed

lemma word_has_highest_bit:
  assumes "(w :: 'a::len word) \<noteq> 0" obtains n where "bit w n" "\<And>i. n < i \<Longrightarrow> \<not> bit w i"
proof -
  have ex: "\<exists>n. bit w n" using assms by (auto simp: bit_eq_iff)
  have fin: "finite {n. bit w n}"
    by (rule finite_subset [of _ "{..<LENGTH('a)}"]) (auto dest: bit_imp_le_length)
  show ?thesis
  proof
    show "bit w (Max {n. bit w n})" using Max_in [OF fin] ex by auto
    show "\<not> bit w i" if "Max {n. bit w n} < i" for i
    proof
      assume "bit w i"
      then have "i \<le> Max {n. bit w n}" by (intro Max_ge fin) simp
      with that show False by simp
    qed
  qed
qed

lemma ctz_0 [simp]: "ctz (0 :: 'a::len word) = LENGTH('a)"
  unfolding ctz_def by (subst takeWhile_eq_all_conv [THEN iffD2]) simp_all

lemma clz_0 [simp]: "clz (0 :: 'a::len word) = LENGTH('a)"
  unfolding clz_def by (subst takeWhile_eq_all_conv [THEN iffD2]) simp_all

lemma bit_ctz:
  assumes "w \<noteq> 0" shows "bit w (ctz w)"
proof -
  obtain n where "bit w n" "\<And>i. i < n \<Longrightarrow> \<not> bit w i" using assms by (rule word_has_lowest_bit) blast
  then show ?thesis by (simp add: ctz_eqI)
qed

lemma not_bit_below_ctz: "i < ctz w \<Longrightarrow> \<not> bit (w :: 'a::len word) i"
proof (cases "w = 0")
  case False
  assume "i < ctz w"
  from False obtain n where "bit w n" "\<And>i. i < n \<Longrightarrow> \<not> bit w i" by (rule word_has_lowest_bit) blast
  with \<open>i < ctz w\<close> show ?thesis by (simp add: ctz_eqI)
qed simp

lemma ctz_less: "w \<noteq> 0 \<Longrightarrow> ctz (w :: 'a::len word) < LENGTH('a)"
  using bit_ctz [of w] by (rule bit_imp_le_length)

lemma clz_bits:
  assumes "w \<noteq> 0"
  shows "clz (w :: 'a::len word) < LENGTH('a)" "bit w (LENGTH('a) - 1 - clz w)"
    "LENGTH('a) - 1 - clz w < i \<Longrightarrow> \<not> bit w i"
proof -
  obtain n where n: "bit w n" "\<And>i. n < i \<Longrightarrow> \<not> bit w i" using assms by (rule word_has_highest_bit) blast
  have nl: "n < LENGTH('a)" using n(1) by (rule bit_imp_le_length)
  have "clz w = LENGTH('a) - 1 - n"
    using n nl by (intro clz_eqI) auto
  then show "clz w < LENGTH('a)" "bit w (LENGTH('a) - 1 - clz w)" "LENGTH('a) - 1 - clz w < i \<Longrightarrow> \<not> bit w i"
    using n nl by auto
qed

lemma clz_interval: "w \<noteq> 0 \<Longrightarrow> 2 ^ (LENGTH('a) - 1 - clz w) \<le> unat (w :: 'a::len word)"
  "w \<noteq> 0 \<Longrightarrow> unat w < 2 ^ (LENGTH('a) - clz w)"
proof -
  assume w: "w \<noteq> 0"
  note c = clz_bits [OF w]
  let ?n = "LENGTH('a) - 1 - clz w"
  show "2 ^ ?n \<le> unat w"
  proof (rule ccontr)
    assume "\<not> 2 ^ ?n \<le> unat w"
    then have lt: "unat w < 2 ^ ?n" by simp
    have n: "?n < LENGTH('a)" using c(1) by simp
    have "\<forall>k. bit w k \<longrightarrow> k < ?n" using lt unfolding unat_less_exp_iff [OF n] .
    with c(2) show False by blast
  qed
  show "unat w < 2 ^ (LENGTH('a) - clz w)"
  proof (cases "clz w = 0")
    case True
    then show ?thesis by (simp add: unsigned_less)
  next
    case False
    then have "LENGTH('a) - clz w < LENGTH('a)" by simp
    moreover have "k < LENGTH('a) - clz w" if "bit w k" for k
      using c(3) [of k] that c(1) by linarith
    ultimately show ?thesis by (simp add: unat_less_exp_iff)
  qed
qed

lemma or_eq_add: "2 ^ Suc j dvd Z \<Longrightarrow> Z OR 2 ^ j = Z + (2 ^ j :: nat)"
proof (subst disjunctive_add [symmetric])
  fix n assume d: "2 ^ Suc j dvd Z"
  show "\<not> bit Z n \<or> \<not> bit (2 ^ j :: nat) n"
  proof (cases "n = j")
    case True
    obtain k where "Z = 2 ^ Suc j * k" using d by (rule dvdE)
    then have "Z div 2 ^ j = 2 * k" by simp
    then show ?thesis using True by (simp add: bit_iff_odd)
  next
    case False
    then show ?thesis by (simp add: bit_exp_iff)
  qed
qed simp

lemma ctz_drop_bit:
  assumes "w \<noteq> 0" and "\<And>i. i < s \<Longrightarrow> \<not> bit w i"
  shows "drop_bit s w \<noteq> 0" "s \<le> ctz w" "ctz (drop_bit s w) = ctz w - s"
proof -
  show s: "s \<le> ctz w" using bit_ctz [OF assms(1)] assms(2) not_less by blast
  have b: "bit (drop_bit s w) (ctz w - s)" using bit_ctz [OF assms(1)] s by (simp add: bit_drop_bit_eq)
  then show "drop_bit s w \<noteq> 0" by auto
  show "ctz (drop_bit s w) = ctz w - s"
    using b not_bit_below_ctz [of _ w] by (intro ctz_eqI) (auto simp: bit_drop_bit_eq)
qed

lemma and_mask_0: "w AND mask n = 0 \<longleftrightarrow> (\<forall>i < n. \<not> bit (w :: 'a::len word) i)"
  by (auto simp: bit_eq_iff bit_simps dest: bit_imp_le_length)

lemma drop_bit_mask_word: "n \<le> LENGTH('a) \<Longrightarrow> drop_bit m (mask n :: 'a::len word) = mask (n - m)"
  by (rule bit_eqI) (auto simp: bit_simps)

lemma tz_bisect_ok:
  assumes "Val \<noteq> 0" and "ctz Val < 2 ^ Suc j" and "2 ^ Suc j dvd Z" and "2 ^ Suc j \<le> LENGTH('a)"
  shows "tz_bisect (Val :: 'a::len word) Z (2 ^ j) (mask (2 ^ j)) = Z + ctz Val"
  using assms
proof (induction j arbitrary: Val Z)
  case 0
  show ?case
  proof (cases "bit Val 0")
    case True
    then have "ctz Val = 0" by (intro ctz_eqI) simp_all
    moreover have "Val AND mask 1 \<noteq> 0" unfolding and_mask_0 using True by auto
    ultimately show ?thesis by (simp add: tz_bisect.simps)
  next
    case False
    then have "ctz Val = 1" using bit_ctz [OF 0(1)] 0(2) by (cases "ctz Val") auto
    moreover have "Val AND mask 1 = 0" unfolding and_mask_0 using False by simp
    ultimately show ?thesis using or_eq_add [of 0 Z] 0(3) by (simp add: tz_bisect.simps)
  qed
next
  case (Suc j)
  let ?s = "2 ^ Suc j :: nat"
  have m: "drop_bit (?s div 2) (mask ?s :: 'a word) = mask (2 ^ j)" "?s div 2 = 2 ^ j"
    using Suc.prems(4) by (simp_all add: drop_bit_mask_word)
  have d: "2 ^ Suc j dvd Z" using Suc.prems(3) by (rule dvd_trans [rotated]) simp
  have l: "2 ^ Suc j \<le> LENGTH('a)" using Suc.prems(4) by simp
  show ?case
  proof (cases "Val AND mask ?s = 0")
    case True
    then have low: "\<And>i. i < ?s \<Longrightarrow> \<not> bit Val i" by (simp add: and_mask_0)
    note c = ctz_drop_bit [OF Suc.prems(1) low]
    have "tz_bisect Val Z ?s (mask ?s) = tz_bisect (drop_bit ?s Val) (Z OR ?s) (2 ^ j) (mask (2 ^ j))"
      using True m by (subst tz_bisect.simps) (simp add: Let_def)
    also have "\<dots> = (Z OR ?s) + ctz (drop_bit ?s Val)"
      using c Suc.prems(2) d or_eq_add [OF Suc.prems(3)] l by (intro Suc.IH) auto
    finally show ?thesis using c or_eq_add [OF Suc.prems(3)] by simp
  next
    case False
    then obtain i where i: "i < ?s" "bit Val i" by (auto simp: and_mask_0)
    then have "ctz Val < ?s" using not_bit_below_ctz [of i Val] by (metis not_less order_le_less_trans)
    have "tz_bisect Val Z ?s (mask ?s) = tz_bisect Val Z (2 ^ j) (mask (2 ^ j))"
      using False m by (subst tz_bisect.simps) (simp add: Let_def)
    also have "\<dots> = Z + ctz Val"
      using \<open>ctz Val < ?s\<close> Suc.prems(1) d l by (intro Suc.IH) auto
    finally show ?thesis .
  qed
qed

lemma TrailingZerosCounter_ctz:
  assumes "LENGTH('a) = 2 ^ Suc j"
  shows "TrailingZerosCounter (Val :: 'a::len word) = ctz Val"
proof -
  have "tz_bisect Val 0 (LENGTH('a) div 2) (drop_bit (LENGTH('a) div 2) (- 1)) = ctz Val" if "Val \<noteq> 0"
  proof -
    have "LENGTH('a) div 2 = 2 ^ j" using assms by simp
    moreover have "drop_bit (2 ^ j) (- 1 :: 'a word) = mask (2 ^ j)"
      using assms by (intro bit_eqI) (auto simp: bit_simps)
    ultimately show ?thesis
      using tz_bisect_ok [of Val j 0] that ctz_less [OF that] assms by simp
  qed
  moreover have "ctz Val = 0" if "bit Val 0" using that by (intro ctz_eqI) simp_all
  ultimately show ?thesis by (simp add: TrailingZerosCounter_def Let_def)
qed

text \<open>The bisection for leading zeros: \<open>h\<close> is the highest bit set.\<close>

lemma lz_bisect_ok:
  assumes "bit (Val :: 'a::len word) h" and "\<And>i. h < i \<Longrightarrow> \<not> bit Val i" and "h < 2 ^ Suc j" and "2 ^ Suc j dvd Z"
  shows "lz_bisect Val Z (2 ^ j) = Z + (2 ^ Suc j - 1 - h)"
  using assms
proof (induction j arbitrary: Val Z h)
  case 0
  have t: "drop_bit 1 Val \<noteq> 0 \<longleftrightarrow> h = 1"
  proof
    assume "drop_bit 1 Val \<noteq> 0"
    then obtain i where "bit Val (1 + i)" by (auto simp: bit_eq_iff bit_drop_bit_eq)
    then show "h = 1" using 0(2) [of "1 + i"] 0(3) by (cases h) auto
  next
    assume "h = 1"
    then have "bit (drop_bit 1 Val) 0" using 0(1) by (simp add: bit_drop_bit_eq)
    then show "drop_bit 1 Val \<noteq> 0" by auto
  qed
  then show ?case using 0(3,4) or_eq_add [of 0 Z] by (cases h) (simp_all add: lz_bisect.simps Let_def)
next
  case (Suc j)
  let ?s = "2 ^ Suc j :: nat"
  have d: "2 ^ Suc j dvd Z" using Suc.prems(4) by (rule dvd_trans [rotated]) simp
  show ?case
  proof (cases "?s \<le> h")
    case True
    have b: "bit (drop_bit ?s Val) (h - ?s)" using Suc.prems(1) True by (simp add: bit_drop_bit_eq)
    then have "drop_bit ?s Val \<noteq> 0" by auto
    then have "lz_bisect Val Z ?s = lz_bisect (drop_bit ?s Val) Z (2 ^ j)"
      by (subst lz_bisect.simps) (simp add: Let_def)
    also have "\<dots> = Z + (?s - 1 - (h - ?s))"
      using b Suc.prems(2,3) d True by (intro Suc.IH) (auto simp: bit_drop_bit_eq)
    finally show ?thesis using True Suc.prems(3) by simp
  next
    case False
    have "drop_bit ?s Val = 0" using Suc.prems(2) False by (auto simp: bit_eq_iff bit_drop_bit_eq)
    then have "lz_bisect Val Z ?s = lz_bisect Val (Z OR ?s) (2 ^ j)"
      by (subst lz_bisect.simps) (simp add: Let_def)
    also have "\<dots> = (Z OR ?s) + (?s - 1 - h)"
      using Suc.prems(1,2) d False or_eq_add [OF Suc.prems(4)] by (intro Suc.IH) auto
    finally show ?thesis using or_eq_add [OF Suc.prems(4)] False by simp
  qed
qed

lemma LeadingZerosCounter_clz:
  assumes "LENGTH('a) = 2 ^ Suc j"
  shows "LeadingZerosCounter (Val :: 'a::len word) = clz Val"
proof (cases "Val = 0")
  case False
  note c = clz_bits [OF False]
  let ?h = "LENGTH('a) - 1 - clz Val"
  have "lz_bisect Val 0 (2 ^ j) = 0 + (2 ^ Suc j - 1 - ?h)"
    using c assms by (intro lz_bisect_ok) auto
  then show ?thesis using False assms c(1) by (simp add: LeadingZerosCounter_def)
qed (simp add: LeadingZerosCounter_def)

text \<open>Both counters, at every width of a machine type.\<close>

lemma ctz_ucast: "LENGTH('a) = LENGTH('b) \<Longrightarrow> ctz (ucast (w :: 'a::len word) :: 'b::len word) = ctz w"
proof -
  assume l: "LENGTH('a) = LENGTH('b)"
  have "takeWhile (\<lambda>i. \<not> bit (ucast w :: 'b word) i) [0..<LENGTH('b)] = takeWhile (\<lambda>i. \<not> bit w i) [0..<LENGTH('b)]"
    by (rule takeWhile_cong) (simp_all add: bit_simps)
  then show ?thesis by (simp add: ctz_def l)
qed

lemma clz_ucast: "LENGTH('a) = LENGTH('b) \<Longrightarrow> clz (ucast (w :: 'a::len word) :: 'b::len word) = clz w"
proof -
  assume l: "LENGTH('a) = LENGTH('b)"
  have "takeWhile (\<lambda>i. \<not> bit (ucast w :: 'b word) (LENGTH('b) - 1 - i)) [0..<LENGTH('b)] = takeWhile (\<lambda>i. \<not> bit w (LENGTH('b) - 1 - i)) [0..<LENGTH('b)]"
    by (rule takeWhile_cong) (simp_all add: bit_simps)
  then show ?thesis by (simp add: clz_def l)
qed

lemma ucast_eq_0: "LENGTH('a) \<le> LENGTH('b) \<Longrightarrow> (ucast (w :: 'a::len word) :: 'b::len word) = 0 \<longleftrightarrow> w = 0"
  by (auto simp: bit_eq_iff bit_simps dest: bit_imp_le_length)

lemma countTrailingZeros_ctz:
  assumes "LENGTH('a) \<in> {8, 16, 32, 64}"
  shows "countTrailingZeros (Val :: 'a::len word) ZB =
    (if Val = 0 \<and> ZB = ZB_Undefined \<and> LENGTH('a) \<in> {32, 64} then None else Some (ctz Val))"
proof -
  have "TrailingZerosCounter Val = ctz Val" if "LENGTH('a) \<in> {8, 16}"
    using that TrailingZerosCounter_ctz [of 2 Val] TrailingZerosCounter_ctz [of 3 Val] by auto
  then show ?thesis
    using assms by (auto simp: countTrailingZeros_def TrailingZerosCounter_4_def TrailingZerosCounter_8_def
        builtin_ctz_def ucast_eq_0 ctz_ucast)
qed

lemma countLeadingZeros_clz:
  assumes "LENGTH('a) \<in> {8, 16, 32, 64}"
  shows "countLeadingZeros (Val :: 'a::len word) ZB =
    (if Val = 0 \<and> ZB = ZB_Undefined \<and> LENGTH('a) \<in> {32, 64} then None else Some (clz Val))"
proof -
  have "LeadingZerosCounter Val = clz Val" if "LENGTH('a) \<in> {8, 16}"
    using that LeadingZerosCounter_clz [of 2 Val] LeadingZerosCounter_clz [of 3 Val] by auto
  then show ?thesis
    using assms by (auto simp: countLeadingZeros_def LeadingZerosCounter_4_def LeadingZerosCounter_8_def
        builtin_clz_def ucast_eq_0 clz_ucast)
qed

section \<open>Numbers\<close>

lemma GreatestCommonDivisor64_gcd: "unat (GreatestCommonDivisor64 A B) = gcd (unat A) (unat B)"
proof (induction A B rule: GreatestCommonDivisor64.induct)
  case (1 A B)
  show ?case
  proof (cases "B = 0")
    case False
    have "unat (GreatestCommonDivisor64 A B) = unat (GreatestCommonDivisor64 B (A mod B))"
      using False by (subst GreatestCommonDivisor64.simps) simp
    also have "\<dots> = gcd (unat B) (unat A mod unat B)"
      using 1 [OF False] by (simp add: unat_mod)
    also have "\<dots> = gcd (unat A) (unat B)" by (rule gcd_red_nat [symmetric])
    finally show ?thesis .
  qed (simp add: GreatestCommonDivisor64.simps)
qed

lemma unat_max: "unat (- 1 :: 'a::len word) = 2 ^ LENGTH('a) - 1"
  by (metis mask_eq_exp_minus_1 unsigned_minus_1_eq_mask)

lemma SaturatingAdd_spec:
  "SaturatingAdd X Y = (if 2 ^ LENGTH('a) \<le> unat X + unat (Y :: 'a::len word) then (- 1, True) else (X + Y, False))"
proof (cases "2 ^ LENGTH('a) \<le> unat X + unat Y")
  case True
  have x: "unat X < 2 ^ LENGTH('a)" "unat Y < 2 ^ LENGTH('a)" by (rule unsigned_less)+
  have "(unat X + unat Y) mod 2 ^ LENGTH('a) = (unat X + unat Y - 2 ^ LENGTH('a)) mod 2 ^ LENGTH('a)"
    using True by (rule le_mod_geq)
  also have "\<dots> = unat X + unat Y - 2 ^ LENGTH('a)" using x by (intro mod_less) linarith
  finally have "unat (X + Y) = unat X + unat Y - 2 ^ LENGTH('a)" by (simp only: unat_word_ariths(1))
  then have "unat (X + Y) < unat X" using x(2) True by linarith
  then have "X + Y < X" by (simp only: word_less_nat_alt)
  with True show ?thesis by (simp add: SaturatingAdd_def Let_def)
next
  case False
  then have "unat (X + Y) = unat X + unat Y" by (intro unat_add_small) simp
  then have "\<not> X + Y < X" "\<not> X + Y < Y" by (simp_all add: word_less_nat_alt)
  with False show ?thesis by (simp add: SaturatingAdd_def Let_def)
qed

text \<open>\<open>Log2_64\<close> is the number of the highest bit, and \<open>-1\<close> at 0.\<close>

lemma Log2_64_bits:
  assumes "X \<noteq> 0"
  shows "\<exists>a < 64. Log2_64 X = of_nat a \<and> 2 ^ a \<le> unat X \<and> unat X < 2 ^ Suc a"
proof -
  note c = clz_bits(1) [OF assms] clz_interval [OF assms]
  have l: "clz X < 64" using c(1) by simp
  have "Log2_64 X = 63 - of_nat (clz X)"
    by (simp add: Log2_64_def countLeadingZeros_clz)
  also have "\<dots> = of_nat (63 - clz X)" using l by (simp add: of_nat_diff)
  finally have "Log2_64 X = of_nat (63 - clz X)" .
  moreover have "Suc (63 - clz X) = 64 - clz X" using l by simp
  ultimately show ?thesis using c l by (intro exI [of _ "63 - clz X"]) simp
qed

lemma Log2_64_0: "Log2_64 0 = - 1"
  by (simp add: Log2_64_def countLeadingZeros_clz)

lemma Log2_64_ucast:
  assumes "LENGTH('a) \<le> 64" and "(X :: 'a::len word) \<noteq> 0"
  obtains a where "a < LENGTH('a)" "Log2_64 (ucast X) = of_nat a" "2 ^ a \<le> unat X" "unat X < 2 ^ Suc a"
proof -
  have u: "unat (ucast X :: u64) = unat X"
  proof -
    have "unat X < 2 ^ LENGTH('a)" by (rule unsigned_less)
    also have "\<dots> \<le> 2 ^ 64" using assms(1) by (intro power_increasing) simp_all
    finally show ?thesis by (simp add: unsigned_ucast_eq take_bit_nat_eq_self)
  qed
  have "ucast X \<noteq> (0 :: u64)" using assms by (simp add: ucast_eq_0)
  then obtain a where a: "a < 64" "Log2_64 (ucast X) = of_nat a" "2 ^ a \<le> unat X" "unat X < 2 ^ Suc a"
    using Log2_64_bits [of "ucast X"] u by auto
  have "unat X < 2 ^ LENGTH('a)" by (rule unsigned_less)
  then have "(2::nat) ^ a < 2 ^ LENGTH('a)" using a(3) by linarith
  then have "a < LENGTH('a)" by simp
  with a that show thesis by blast
qed

lemma sint_small_int: "- (2 ^ 31) \<le> k \<Longrightarrow> k < 2 ^ 31 \<Longrightarrow> sint (of_int k :: u32) = k"
  by (simp add: signed_of_int signed_take_bit_int_eq_self)

lemma sint_small_nat: "n < 2 ^ 31 \<Longrightarrow> sint (of_nat n :: u32) = int n"
  using sint_small_int [of "int n"] by simp

lemma unat_mult_small: "unat X * unat Y < 2 ^ LENGTH('a) \<Longrightarrow> unat (X * Y) = unat X * unat (Y :: 'a::len word)"
  by (simp add: unat_word_ariths)

text \<open>
  Saturating multiplication: by the logarithms the product fits, overflows, or is in
  the one case where it has to be computed without its lowest bit first.
\<close>

lemma SaturatingMultiply_logs:
  assumes L: "LENGTH('a) \<le> 64" and X: "(X :: 'a::len word) \<noteq> 0" and Y: "(Y :: 'a word) \<noteq> 0"
  obtains a b where "2 ^ a \<le> unat X" "unat X < 2 ^ Suc a" "2 ^ b \<le> unat Y" "unat Y < 2 ^ Suc b"
    "a < LENGTH('a)" "b < LENGTH('a)"
    "sint (Log2_64 (ucast X) + Log2_64 (ucast Y)) = int (a + b)" "sint (Log2_64 (ucast (- 1 :: 'a word))) = int (LENGTH('a) - 1)"
proof -
  obtain a where a: "a < LENGTH('a)" "Log2_64 (ucast X) = of_nat a" "2 ^ a \<le> unat X" "unat X < 2 ^ Suc a"
    by (rule Log2_64_ucast [OF L X])
  obtain b where b: "b < LENGTH('a)" "Log2_64 (ucast Y) = of_nat b" "2 ^ b \<le> unat Y" "unat Y < 2 ^ Suc b"
    by (rule Log2_64_ucast [OF L Y])
  have "(- 1 :: 'a word) \<noteq> 0" by simp
  then obtain c where c: "c < LENGTH('a)" "Log2_64 (ucast (- 1 :: 'a word)) = of_nat c" "unat (- 1 :: 'a word) < 2 ^ Suc c"
    using Log2_64_ucast [OF L] by metis
  have "2 ^ LENGTH('a) \<le> (2 :: nat) ^ Suc c" using c(3) unat_max [where 'a = 'a] by linarith
  then have "LENGTH('a) \<le> Suc c" by (rule power_le_imp_le_exp [rotated]) simp
  then have "c = LENGTH('a) - 1" using c(1) by simp
  moreover have "sint (of_nat a + of_nat b :: u32) = int (a + b)"
    using sint_small_nat [of "a + b"] a(1) b(1) L by simp
  moreover have "sint (of_nat c :: u32) = int c" using sint_small_nat [of c] c(1) L by simp
  ultimately show thesis using that [of a b] a b c(2) by metis
qed

lemma SaturatingMultiply_spec:
  assumes L: "LENGTH('a) \<le> 64"
  shows "SaturatingMultiply X Y =
    (if unat X * unat (Y :: 'a::len word) < 2 ^ LENGTH('a) then (X * Y, False) else (- 1, True))"
proof (cases "X = 0 \<or> Y = 0")
  case True
  have "(- 1 :: 'a word) \<noteq> 0" by simp
  then obtain c where c: "c < LENGTH('a)" "Log2_64 (ucast (- 1 :: 'a word)) = of_nat c" "unat (- 1 :: 'a word) < 2 ^ Suc c"
    by (rule Log2_64_ucast [OF L])
  have "2 ^ LENGTH('a) \<le> (2 :: nat) ^ Suc c" using c(3) unat_max [where 'a = 'a] by linarith
  then have "LENGTH('a) \<le> Suc c" by (rule power_le_imp_le_exp [rotated]) simp
  with c(1) L have m: "sint (Log2_64 (ucast (- 1 :: 'a word))) = int (LENGTH('a) - 1)"
    using sint_small_nat [of c] c(2) by simp
  have z: "Log2_64 (ucast (0 :: 'a word)) = of_int (- 1)" by (simp add: Log2_64_0)
  have w: "sint (Log2_64 (ucast (0 :: 'a word)) + Log2_64 (ucast W)) < int (LENGTH('a) - 1)" for W :: "'a word"
  proof (cases "W = 0")
    case True
    have "sint (of_int (- 2) :: u32) = - 2" by (rule sint_small_int) simp_all
    then show ?thesis unfolding True z by simp
  next
    case False
    obtain d where d: "d < LENGTH('a)" "Log2_64 (ucast W) = of_nat d" by (rule Log2_64_ucast [OF L False])
    have "sint (of_int (int d - 1) :: u32) = int d - 1" using d(1) L by (intro sint_small_int; simp)
    then show ?thesis using d(1) unfolding d(2) z by simp
  qed
  have "sint (Log2_64 (ucast X) + Log2_64 (ucast Y)) < int (LENGTH('a) - 1)"
    using True w [of X] w [of Y] by (auto simp: add.commute)
  then show ?thesis using True m by (auto simp: SaturatingMultiply_def Let_def)
next
  case False
  then have X: "X \<noteq> 0" and Y: "Y \<noteq> 0" by simp_all
  let ?L = "LENGTH('a)"
  obtain a b where a: "2 ^ a \<le> unat X" "unat X < 2 ^ Suc a" and b: "2 ^ b \<le> unat Y" "unat Y < 2 ^ Suc b"
    and ab: "a < ?L" "b < ?L" and lg: "sint (Log2_64 (ucast X) + Log2_64 (ucast Y)) = int (a + b)"
      "sint (Log2_64 (ucast (- 1 :: 'a word))) = int (?L - 1)"
    by (rule SaturatingMultiply_logs [OF L X Y])
  have lo: "2 ^ (a + b) \<le> unat X * unat Y" using mult_le_mono [OF a(1) b(1)] by (simp add: power_add)
  have hi: "unat X * unat Y < 2 ^ (a + b + 2)"
    using mult_strict_mono [OF a(2) b(2)] by (simp add: power_add)
  consider "a + b < ?L - 1" | "?L - 1 < a + b" | "a + b = ?L - 1" by linarith
  then show ?thesis
  proof cases
    case 1
    then have "(2 :: nat) ^ (a + b + 2) \<le> 2 ^ ?L" by (intro power_increasing) auto
    with hi have "unat X * unat Y < 2 ^ ?L" by linarith
    moreover have "int (a + b) < int (?L - 1)" using 1 by linarith
    ultimately show ?thesis unfolding SaturatingMultiply_def Let_def lg by (simp only: if_True)
  next
    case 2
    then have "(2 :: nat) ^ ?L \<le> 2 ^ (a + b)" by (intro power_increasing) auto
    with lo have "\<not> unat X * unat Y < 2 ^ ?L" by linarith
    moreover have "int (?L - 1) < int (a + b)" "\<not> int (a + b) < int (?L - 1)" using 2 by linarith+
    ultimately show ?thesis unfolding SaturatingMultiply_def Let_def lg by (simp only: if_True if_False)
  next
    case 3
    let ?Z = "drop_bit 1 X * Y"
    have x1: "unat (drop_bit 1 X) = unat X div 2" by (simp only: unsigned_drop_bit_eq) (simp add: take_bit_nat_eq_self unsigned_less drop_bit_eq_div)
    have "unat X div 2 < 2 ^ a" using a(2) by simp
    then have "unat X div 2 * unat Y < 2 ^ a * 2 ^ Suc b" using b(2) by (rule mult_strict_mono) simp_all
    also have "\<dots> = 2 ^ (a + Suc b)" by (simp only: power_add)
    also have "a + Suc b = ?L" using 3 ab by simp
    finally have zlt: "unat X div 2 * unat Y < 2 ^ ?L" .
    then have z: "unat ?Z = unat X div 2 * unat Y" using unat_mult_small [of "drop_bit 1 X" Y] x1 by simp
    have xy: "unat X * unat Y = 2 * unat ?Z + (unat X mod 2) * unat Y"
      unfolding z by (metis (no_types, lifting) add.commute add_mult_distrib mod_mult_div_eq mult.assoc)
    have top: "?Z AND NOT (drop_bit 1 (- 1)) = 0 \<longleftrightarrow> unat ?Z < 2 ^ (?L - 1)"
    proof -
      have "?Z AND NOT (drop_bit 1 (- 1)) = 0 \<longleftrightarrow> (\<forall>k. bit ?Z k \<longrightarrow> k < ?L - 1)"
        by (auto simp: bit_eq_iff bit_simps dest: bit_imp_le_length)
      then show ?thesis using unat_less_exp_iff [of "?L - 1" ?Z] by simp
    qed
    have L2: "2 * 2 ^ (?L - 1) = (2 :: nat) ^ ?L" by (metis power_Suc Suc_diff_1 len_gt_0)
    show ?thesis
    proof (cases "unat ?Z < 2 ^ (?L - 1)")
      case False
      then have "\<not> unat X * unat Y < 2 ^ ?L" using xy L2 by linarith
      with False top show ?thesis unfolding SaturatingMultiply_def Let_def lg 3 by simp
    next
      case True
      note zs = True
      have p: "unat (push_bit 1 ?Z) = 2 * unat ?Z"
      proof -
        have "push_bit 1 ?Z = 2 * ?Z" by (simp add: push_bit_eq_mult mult.commute)
        moreover have "unat (2 * ?Z) = 2 * unat ?Z" using True L2 by (simp add: unat_word_ariths)
        ultimately show ?thesis by (simp only:)
      qed
      have e: "push_bit 1 ?Z = X * Y" if "unat X mod 2 = 0"
        using p xy that True L2 unat_mult_small [of X Y] by (intro word_unat_eq_iff [THEN iffD2]) simp
      have odd: "X AND 1 \<noteq> 0 \<longleftrightarrow> unat X mod 2 = 1"
      proof -
        have "X AND 1 \<noteq> 0 \<longleftrightarrow> bit X 0" using and_mask_0 [of X 1] by simp
        also have "\<dots> \<longleftrightarrow> bit (unat X) 0" by (simp add: bit_unsigned_iff)
        also have "\<dots> \<longleftrightarrow> unat X mod 2 = 1" by (simp add: bit_iff_odd odd_iff_mod_2_eq_one)
        finally show ?thesis .
      qed
      show ?thesis
      proof (cases "unat X mod 2 = 0")
        case True
        have "unat X * unat Y = 2 * unat ?Z" by (simp only: xy True mult_0 add_0_right)
        then have "unat X * unat Y < 2 ^ ?L" using zs L2 by linarith
        moreover have "X AND 1 = 0" using odd True by simp
        moreover have "SaturatingMultiply X Y = (push_bit 1 ?Z, False)"
          using zs top \<open>X AND 1 = 0\<close> unfolding SaturatingMultiply_def Let_def lg 3 by simp
        ultimately show ?thesis using e [OF True] by simp
      next
        case False
        then have one: "unat X mod 2 = 1" by simp
        then have x: "X AND 1 \<noteq> 0" using odd by simp
        have s: "SaturatingMultiply X Y = SaturatingAdd (push_bit 1 ?Z) Y"
          using zs top x unfolding SaturatingMultiply_def Let_def lg 3 by simp
        have sum: "unat (push_bit 1 ?Z) + unat Y = unat X * unat Y" using p xy one by simp
        show ?thesis
        proof (cases "unat X * unat Y < 2 ^ ?L")
          case True
          then have "unat (push_bit 1 ?Z + Y) = unat X * unat Y" using unat_add_small sum by metis
          then have "push_bit 1 ?Z + Y = X * Y" using unat_mult_small [OF True] by (simp add: word_unat_eq_iff)
          with True show ?thesis unfolding s SaturatingAdd_spec sum by simp
        next
          case False
          then show ?thesis unfolding s SaturatingAdd_spec sum by simp
        qed
      qed
    qed
  qed
qed

section \<open>Powers of two and alignment\<close>

lemma smear_step:
  assumes "\<And>i. bit B i \<longleftrightarrow> (\<exists>j. i \<le> j \<and> j < i + s \<and> bit (A :: 'a::len word) j)"
  shows "bit (B OR drop_bit s B) i \<longleftrightarrow> (\<exists>j. i \<le> j \<and> j < i + 2 * s \<and> bit A j)"
proof -
  have "(\<exists>j. s + i \<le> j \<and> j < s + i + s \<and> bit A j) \<or> (\<exists>j. i \<le> j \<and> j < i + s \<and> bit A j) \<longleftrightarrow>
      (\<exists>j. i \<le> j \<and> j < i + 2 * s \<and> bit A j)"
  proof
    assume "\<exists>j. i \<le> j \<and> j < i + 2 * s \<and> bit A j"
    then obtain j where "i \<le> j" "j < i + 2 * s" "bit A j" by blast
    then show "(\<exists>j. s + i \<le> j \<and> j < s + i + s \<and> bit A j) \<or> (\<exists>j. i \<le> j \<and> j < i + s \<and> bit A j)"
      by (cases "j < i + s") (auto intro!: exI [of _ j])
  next
    assume "(\<exists>j. s + i \<le> j \<and> j < s + i + s \<and> bit A j) \<or> (\<exists>j. i \<le> j \<and> j < i + s \<and> bit A j)"
    then obtain j where "i \<le> j" "j < i + 2 * s" "bit A j" by (metis add.commute add.left_commute add_leD1 mult_2 order_less_le_trans trans_le_add1 le_add1)
    then show "\<exists>j. i \<le> j \<and> j < i + 2 * s \<and> bit A j" by blast
  qed
  then show ?thesis by (auto simp: bit_or_iff bit_drop_bit_eq assms)
qed

lemma NextPowerOf2_spec: "NextPowerOf2 A = push_bit (64 - clz A) 1"
proof -
  define S where "S n = (\<lambda>B :: u64. \<forall>i. bit B i \<longleftrightarrow> (\<exists>j. i \<le> j \<and> j < i + n \<and> bit A j))" for n :: nat
  have step: "S (2 * n) (B OR drop_bit n B)" if "S n B" for n B
    using that smear_step [of B n A] unfolding S_def by blast
  have "S 1 A" unfolding S_def by (metis Suc_eq_plus1 le_antisym lessI less_Suc_eq_le order_refl)
  from step [OF step [OF step [OF step [OF step [OF step [OF this]]]]]]
  have s: "S 64 (NextPowerOf2 A - 1)" by (simp add: NextPowerOf2_def Let_def)
  have "NextPowerOf2 A - 1 = mask (64 - clz A)"
  proof (cases "A = 0")
    case True
    then show ?thesis by (simp add: NextPowerOf2_def)
  next
    case False
    note c = clz_bits [OF False]
    show ?thesis
    proof (rule bit_eqI)
      fix i
      assume "possible_bit TYPE(64 word) i"
      then have i: "i < 64" by simp
      have "bit (NextPowerOf2 A - 1) i \<longleftrightarrow> (\<exists>j. i \<le> j \<and> bit A j)"
        using s unfolding S_def by (metis bit64_bound trans_less_add2)
      also have "\<dots> \<longleftrightarrow> i < 64 - clz A"
      proof
        assume "\<exists>j. i \<le> j \<and> bit A j"
        then obtain j where j: "i \<le> j" "bit A j" by blast
        then have "j \<le> 64 - 1 - clz A" using c(3) [of j] by (simp add: not_less [symmetric]) blast
        then show "i < 64 - clz A" using j(1) c(1) by simp
      next
        assume "i < 64 - clz A"
        then show "\<exists>j. i \<le> j \<and> bit A j" using c(2) by (intro exI [of _ "64 - 1 - clz A"]) simp
      qed
      finally show "bit (NextPowerOf2 A - 1) i \<longleftrightarrow> bit (mask (64 - clz A) :: u64) i"
        using i by (simp add: bit_mask_iff)
    qed
  qed
  then have "NextPowerOf2 A = mask (64 - clz A) + 1" by (simp add: diff_eq_eq)
  then show ?thesis by (simp add: mask_eq_exp_minus_1 push_bit_eq_mult)
qed

lemma word_sub_one_sub: "x + y + 1 = z \<Longrightarrow> x = z - 1 - y" for x y z :: "'a::len word"
  by auto

lemma alignTo_spec:
  assumes A: "Align \<noteq> 0" and small: "unat Value + unat Align \<le> 2 ^ 64"
  shows "unat Value \<le> unat (alignTo Value Align Skew)" "unat (alignTo Value Align Skew) < unat Value + unat Align"
    "unat (alignTo Value Align Skew) mod unat Align = unat Skew mod unat Align"
proof -
  let ?a = "unat Align" and ?v = "unat Value" and ?s = "unat Skew mod unat Align"
  have a: "0 < ?a" using A by (simp add: unat_gt_0)
  have s: "?s < ?a" using a by simp
  have sm: "unat (Skew mod Align) = ?s" by (simp add: unat_mod)
  let ?n = "?v + ?a - 1 - ?s"
  have n: "?n + ?s = ?v + ?a - 1" using s by simp
  have t: "of_nat ?n = Value + Align - 1 - Skew mod Align"
  proof -
    have rep: "of_nat (unat w) = w" for w :: u64 by simp
    have "?n + ?s + 1 = ?v + ?a" using n a by linarith
    then have "(of_nat (?n + ?s + 1) :: u64) = of_nat (?v + ?a)" by (simp only:)
    then have "of_nat ?n + of_nat ?s + 1 = Value + Align" by (simp only: of_nat_add of_nat_1 rep)
    moreover have "of_nat ?s = Skew mod Align" unfolding sm [symmetric] by (rule rep)
    ultimately have "of_nat ?n + (Skew mod Align) + 1 = Value + Align" by (simp only:)
    then have "of_nat ?n = Value + Align - 1 - (Skew mod Align)"
      by (rule word_sub_one_sub)
    then show ?thesis .
  qed
  have nn: "unat (Value + Align - 1 - Skew mod Align) = ?n"
    unfolding t [symmetric] using small s a by (simp add: unat_of_nat take_bit_nat_eq_self)
  have q: "?n div ?a * ?a + ?s \<le> ?v + ?a - 1" using n div_times_less_eq_dividend [of ?n ?a] by linarith
  have "unat ((Value + Align - 1 - Skew mod Align) div Align * Align) = ?n div ?a * ?a"
    using q small a nn by (subst unat_mult_small) (simp_all add: unat_div)
  then have r: "unat (alignTo Value Align Skew) = ?n div ?a * ?a + ?s"
    unfolding alignTo_def Let_def using q small a sm by (subst unat_add_small) simp_all
  show "?v \<le> unat (alignTo Value Align Skew)"
  proof -
    have "?n < ?n div ?a * ?a + ?a" using a by (metis add.commute add_less_cancel_left div_mult_mod_eq mod_less_divisor)
    then show ?thesis unfolding r using n by linarith
  qed
  show "unat (alignTo Value Align Skew) < ?v + ?a" unfolding r using q a by linarith
  show "unat (alignTo Value Align Skew) mod ?a = ?s" unfolding r by simp
qed

section \<open>Bytes\<close>

lemma Make_64_Hi_Lo: "Make_64 (Hi_32 v) (Lo_32 v) = v"
  by (rule bit_word_eqI) (auto simp: Make_64_def Hi_32_def Lo_32_def bit_simps)

section \<open>What the code promises\<close>

text \<open>
  \<open>SaturatingMultiplyAdd\<close> on any unsigned type of at most 64 bits: the result is the exact
  value of \<open>X * Y + A\<close> with the overflow flag clear when that value fits in the type, and the
  largest value of the type with the flag set when it does not.
\<close>
theorem SaturatingMultiplyAdd_saturates:
  fixes X Y A :: "'a::len word"
  assumes "LENGTH('a) \<le> 64"
  shows "case SaturatingMultiplyAdd X Y A of (r, overflowed) \<Rightarrow>
    unat r = min (2 ^ LENGTH('a) - 1) (unat X * unat Y + unat A) \<and>
    (overflowed \<longleftrightarrow> 2 ^ LENGTH('a) \<le> unat X * unat Y + unat A)"
proof (cases "unat X * unat Y < 2 ^ LENGTH('a)")
  case True
  then have p: "unat (X * Y) = unat X * unat Y" by (rule unat_mult_small)
  have e: "SaturatingMultiplyAdd X Y A = SaturatingAdd A (X * Y)"
    using True by (simp add: SaturatingMultiplyAdd_def SaturatingMultiply_spec [OF assms])
  show ?thesis
  proof (cases "2 ^ LENGTH('a) \<le> unat A + unat (X * Y)")
    case True
    then have "2 ^ LENGTH('a) - 1 \<le> unat X * unat Y + unat A" using p by linarith
    then show ?thesis unfolding e SaturatingAdd_spec using p True by (simp add: unat_max min_absorb1 add.commute)
  next
    case False
    then have "unat (A + X * Y) = unat A + unat (X * Y)" by (intro unat_add_small) simp
    moreover have "unat X * unat Y + unat A \<le> 2 ^ LENGTH('a) - 1" using False p by linarith
    ultimately show ?thesis unfolding e SaturatingAdd_spec using p False by (simp add: min_absorb2 add.commute)
  qed
next
  case False
  then have "2 ^ LENGTH('a) - 1 \<le> unat X * unat Y + unat A" by linarith
  then show ?thesis using False
    by (simp add: SaturatingMultiplyAdd_def SaturatingMultiply_spec [OF assms] unat_max min_absorb1)
qed

theorem SaturatingMultiplyAdd_saturates_witness:
  "case SaturatingMultiplyAdd (2 ^ 33 :: u64) (2 ^ 31) 7 of (r, overflowed) \<Rightarrow>
    unat r = 2 ^ 64 - 1 \<and> overflowed"
  using SaturatingMultiplyAdd_saturates [where 'a = 64, of "2 ^ 33" "2 ^ 31" 7]
  by (simp add: min_def split: prod.splits)

end
