(* ===== verification/LL_BV_Lemmas.thy ===== *)
theory LL_BV_Lemmas imports LL_BitVector LL_Math_Lemmas begin

text \<open>
  What the operations of \<open>BitVector\<close> do to the single bits: the invariant \<open>bv_ok\<close> (the array holds
  the bits, and the unused ones of the last used word are 0), and for every operation the
  size, the bits and the invariant of its result.
\<close>

section \<open>Bits of an array of words\<close>

definition wbit :: "u64 list \<Rightarrow> nat \<Rightarrow> bool" where
  "wbit ws i = bit (ws ! (i div 64)) (i mod 64)"

definition bv_get :: "bitvector \<Rightarrow> nat \<Rightarrow> bool" where
  "bv_get b i = (i < Size b \<and> wbit (Bits b) i)"

definition bv_ok :: "bitvector \<Rightarrow> bool" where
  "bv_ok b = (Size b \<le> 2 ^ 31 \<and> NumBitWords (Size b) \<le> length (Bits b) \<and>
    list_all (\<lambda>i. \<not> wbit (Bits b) i) [Size b..<64 * NumBitWords (Size b)])"

lemma bv_ok_iff: "bv_ok b \<longleftrightarrow> Size b \<le> 2 ^ 31 \<and> NumBitWords (Size b) \<le> length (Bits b) \<and>
    (\<forall>i. Size b \<le> i \<and> i < 64 * NumBitWords (Size b) \<longrightarrow> \<not> wbit (Bits b) i)"
  by (auto simp: bv_ok_def list_all_iff)

definition bv_list :: "bitvector \<Rightarrow> bool list" where
  "bv_list b = map (bv_get b) [0..<Size b]"

lemma length_bv_list [simp]: "length (bv_list b) = Size b"
  by (simp add: bv_list_def)

lemma nth_bv_list [simp]: "i < Size b \<Longrightarrow> bv_list b ! i = bv_get b i"
  by (simp add: bv_list_def)

lemma NumBitWords_eq: "S \<le> 2 ^ 31 \<Longrightarrow> NumBitWords S = (S + 63) div 64"
  by (simp add: NumBitWords_def)

lemma below_words: "i < 64 * n \<longleftrightarrow> i div 64 < n" for i n :: nat
  by (simp add: div_less_iff_less_mult mult.commute)

lemma NumBitWords_covers: "i < S \<Longrightarrow> S \<le> 2 ^ 31 \<Longrightarrow> i div 64 < NumBitWords S"
  unfolding NumBitWords_eq below_words [symmetric] by linarith

lemma NumBitWords_le: "S \<le> 2 ^ 31 \<Longrightarrow> n < NumBitWords S \<Longrightarrow> 64 * n < S"
  unfolding NumBitWords_eq by linarith

lemma NumBitWords_mono: "S \<le> T \<Longrightarrow> T \<le> 2 ^ 31 \<Longrightarrow> NumBitWords S \<le> NumBitWords T"
  by (simp add: NumBitWords_eq div_le_mono)

lemma NumBitWords_fits: "S \<le> 2 ^ 31 \<Longrightarrow> NumBitWords S \<le> n \<longleftrightarrow> S \<le> n * 64"
  unfolding NumBitWords_eq by linarith

lemma bit_pos: "bit (w :: u64) j \<longleftrightarrow> j < 64 \<and> bit w j"
  using bit64_bound by blast

text \<open>A word of the array from its bits, and the other way round.\<close>

lemma word_at_eqI:
  assumes "\<And>i. i div 64 = k \<Longrightarrow> wbit ws i = wbit vs i"
  shows "ws ! k = vs ! k"
proof (rule bit_word_eqI)
  fix j
  assume "j < LENGTH(64)"
  then have "(64 * k + j) div 64 = k" "(64 * k + j) mod 64 = j" by simp_all
  then show "bit (ws ! k) j = bit (vs ! k) j" using assms [of "64 * k + j"] by (simp add: wbit_def)
qed

lemma word_0_iff: "ws ! k = 0 \<longleftrightarrow> (\<forall>i. i div 64 = k \<longrightarrow> \<not> wbit ws i)"
proof
  assume a: "\<forall>i. i div 64 = k \<longrightarrow> \<not> wbit ws i"
  have "\<not> bit (ws ! k) j" for j
  proof (cases "j < 64")
    case True
    then have "(64 * k + j) div 64 = k" "(64 * k + j) mod 64 = j" by simp_all
    then show ?thesis using a [rule_format, of "64 * k + j"] by (simp add: wbit_def)
  qed (use bit64_bound in auto)
  then show "ws ! k = 0" by (intro bit_word_eqI) simp
qed (auto simp: wbit_def)

lemma wbit_update:
  "k < length ws \<Longrightarrow> wbit (ws[k := w]) i \<longleftrightarrow> (if i div 64 = k then bit w (i mod 64) else wbit ws i)"
  by (simp add: wbit_def)

lemma wbit_append: "wbit (ws @ vs) i \<longleftrightarrow>
    (if i < 64 * length ws then wbit ws i else wbit vs (i - 64 * length ws))"
proof (cases "i < 64 * length ws")
  case False
  then obtain j where "i = 64 * length ws + j" by (metis le_add_diff_inverse not_less)
  then show ?thesis by (simp add: wbit_def nth_append)
qed (simp add: wbit_def nth_append below_words)

lemma wbit_take: "i < 64 * n \<Longrightarrow> wbit (take n ws) i \<longleftrightarrow> wbit ws i"
  by (simp add: wbit_def below_words)

lemma wbit_drop: "n \<le> length ws \<Longrightarrow> wbit (drop n ws) i \<longleftrightarrow> wbit ws (i + 64 * n)"
  by (simp add: wbit_def add.commute)

lemma bit_m1_64: "bit (- 1 :: u64) j \<longleftrightarrow> j < 64"
  by (simp add: bit_minus_1_iff)

lemma wbit_init_words: "i < 64 * length ws \<Longrightarrow> wbit (init_words ws t) i \<longleftrightarrow> t"
  by (simp add: wbit_def init_words_def below_words bit_m1_64)

lemma length_init_words [simp]: "length (init_words ws t) = length ws"
  by (simp add: init_words_def)

section \<open>Unused bits\<close>

lemma Bits_update: "Bits (b\<lparr>Bits := ws\<rparr>) = ws"
  by simp

lemma set_unused_bits_size [simp]:
  "Size (set_unused_bits t b) = Size b" "length (Bits (set_unused_bits t b)) = length (Bits b)"
  by (simp_all add: set_unused_bits_def Let_def)

lemma div64_mod64: "i = 64 * (i div 64) + i mod 64" "i mod 64 < 64" for i :: nat
  by simp_all

lemma lex_64: "x < 64 \<Longrightarrow> y < 64 \<Longrightarrow> 64 * p + x < 64 * q + y \<longleftrightarrow> p < q \<or> p = q \<and> x < y" for p q x y :: nat
  by arith

lemma round_up_64: "0 < n mod 64 \<Longrightarrow> (n + 63) div 64 = n div 64 + 1" for n :: nat
proof -
  assume r: "0 < n mod 64"
  have "n + 63 = 64 * (n div 64) + (n mod 64 + 63)" by simp
  then have "(n + 63) div 64 = n div 64 + (n mod 64 + 63) div 64" by (metis div_mult_self4 zero_neq_numeral)
  moreover have "(n mod 64 + 63) div 64 = 1" using r mod_less_divisor [of 64 n] by (intro div_nat_eqI) simp_all
  ultimately show ?thesis by simp
qed

lemma set_unused_bits_wbit:
  assumes s: "Size b \<le> 2 ^ 31" "NumBitWords (Size b) \<le> length (Bits b)" and i: "i < 64 * length (Bits b)"
  shows "wbit (Bits (set_unused_bits t b)) i \<longleftrightarrow> (if i < Size b then wbit (Bits b) i else t)"
proof -
  let ?U = "NumBitWords (Size b)" and ?X = "Size b mod 64"
  define vs where "vs = (if length (Bits b) > ?U then take ?U (Bits b) @ init_words (drop ?U (Bits b)) t else Bits b)"
  have lv: "length vs = length (Bits b)" using s by (simp add: vs_def)
  have v: "wbit vs i \<longleftrightarrow> (if i < 64 * ?U then wbit (Bits b) i else t)"
    using s i by (auto simp: vs_def wbit_append wbit_take min_def wbit_init_words)
  have U: "?U = (Size b + 63) div 64" using s by (simp add: NumBitWords_eq)
  show ?thesis
  proof (cases "?X = 0")
    case True
    then have "64 * ?U = Size b" unfolding U by presburger
    moreover have "Bits (set_unused_bits t b) = vs" using True by (simp add: set_unused_bits_def vs_def Let_def)
    ultimately show ?thesis using v by simp
  next
    case False
    let ?m = "push_bit ?X (- 1) :: u64"
    have m: "bit ?m j \<longleftrightarrow> ?X \<le> j \<and> j < 64" for j
      unfolding bit_push_bit_iff bit_minus_1_iff possible_bit_word by auto
    have e: "Bits (set_unused_bits t b) =
        (if t then vs[?U - 1 := vs ! (?U - 1) OR ?m] else vs[?U - 1 := vs ! (?U - 1) AND NOT ?m])"
      using False by (simp only: set_unused_bits_def vs_def Let_def Bits_update not_False_eq_True if_True)
    have u: "?U = Size b div 64 + 1" unfolding U by (rule round_up_64) (use False in simp)
    then have k: "?U - 1 < length vs" using lv s by simp
    have w: "wbit (Bits (set_unused_bits t b)) i \<longleftrightarrow>
        (if i div 64 = ?U - 1 then (if ?X \<le> i mod 64 then t else wbit vs i) else wbit vs i)"
      unfolding e using k
      by (cases t) (auto simp: wbit_update bit_mask_iff wbit_def bit_or_iff bit_and_iff bit_not_iff)
    have c: "i < Size b \<longleftrightarrow> i div 64 < ?U - 1 \<or> i div 64 = ?U - 1 \<and> i mod 64 < ?X"
    proof -
      have "i = 64 * (i div 64) + i mod 64" "Size b = 64 * (?U - 1) + ?X" "i mod 64 < 64" "?X < 64"
        using u by simp_all
      then show ?thesis using lex_64 by metis
    qed
    show ?thesis using w v c u by (auto simp: below_words)
  qed
qed

lemma clear_unused_bits_ok:
  assumes "Size b \<le> 2 ^ 31" "NumBitWords (Size b) \<le> length (Bits b)"
  shows "bv_ok (clear_unused_bits b)" "Size (clear_unused_bits b) = Size b"
    "length (Bits (clear_unused_bits b)) = length (Bits b)" "bv_get (clear_unused_bits b) i = bv_get b i"
    "i < 64 * length (Bits b) \<Longrightarrow> wbit (Bits (clear_unused_bits b)) i \<longleftrightarrow> i < Size b \<and> wbit (Bits b) i"
proof -
  have w: "wbit (Bits (clear_unused_bits b)) i \<longleftrightarrow> i < Size b \<and> wbit (Bits b) i" if "i < 64 * length (Bits b)" for i
    using set_unused_bits_wbit [OF assms that] by (simp add: clear_unused_bits_def)
  have l: "i < 64 * length (Bits b)" if "i < Size b" for i
    using NumBitWords_covers [OF that assms(1)] assms(2) unfolding below_words by simp
  show "Size (clear_unused_bits b) = Size b" "length (Bits (clear_unused_bits b)) = length (Bits b)"
    by (simp_all add: clear_unused_bits_def)
  then show "bv_ok (clear_unused_bits b)" using w assms by (auto simp: bv_ok_iff below_words)
  show "bv_get (clear_unused_bits b) i = bv_get b i"
    using w [of i] l [of i] by (auto simp: bv_get_def clear_unused_bits_def)
  show "i < 64 * length (Bits b) \<Longrightarrow> wbit (Bits (clear_unused_bits b)) i \<longleftrightarrow> i < Size b \<and> wbit (Bits b) i"
    by (rule w)
qed

text \<open>The three facts an operation owes.\<close>

definition result_is :: "bitvector \<Rightarrow> nat \<Rightarrow> (nat \<Rightarrow> bool) \<Rightarrow> bool" where
  "result_is b n f \<longleftrightarrow> bv_ok b \<and> Size b = n \<and> (\<forall>i < n. bv_get b i = f i)"

lemma result_is_list: "result_is b n f \<Longrightarrow> bv_ok b \<and> bv_list b = map f [0..<n]"
  by (auto simp: result_is_def bv_list_def)

lemma result_is_clear:
  assumes "Size b = n" "n \<le> 2 ^ 31" "NumBitWords n \<le> length (Bits b)" "\<And>i. i < n \<Longrightarrow> wbit (Bits b) i = f i"
  shows "result_is (clear_unused_bits b) n f"
  using clear_unused_bits_ok [of b] assms by (simp add: result_is_def) (simp add: bv_get_def)

lemma result_isI:
  assumes "Size b = n" "n \<le> 2 ^ 31" "NumBitWords n \<le> length (Bits b)"
    "\<And>i. i < 64 * NumBitWords n \<Longrightarrow> wbit (Bits b) i \<longleftrightarrow> i < n \<and> f i"
  shows "result_is b n f"
  using assms NumBitWords_covers [of _ n] by (auto simp: result_is_def bv_get_def bv_ok_iff below_words)

lemma bv_ok_D:
  assumes "bv_ok b"
  shows "Size b \<le> 2 ^ 31" "NumBitWords (Size b) \<le> length (Bits b)"
    "i < 64 * NumBitWords (Size b) \<Longrightarrow> wbit (Bits b) i \<longleftrightarrow> bv_get b i"
    "i < Size b \<Longrightarrow> wbit (Bits b) i \<longleftrightarrow> bv_get b i"
  using assms NumBitWords_covers [of _ "Size b"]
  by (auto simp: bv_ok_iff bv_get_def below_words not_less [symmetric])

lemma bv_get_less: "bv_get b i \<Longrightarrow> i < Size b"
  by (simp add: bv_get_def)

end
