(* ===== verification/LL_BV_Ops.thy ===== *)
theory LL_BV_Ops imports LL_BV_Lemmas begin

text \<open>
  For every operation of \<open>BitVector\<close> that changes it: the size, the bits and the invariant of the
  result.  The contents of fresh memory, \<open>junk\<close>, never shows.
\<close>

section \<open>Loops over the words\<close>

lemma length_fold_update [simp]: "length (fold (\<lambda>i ws. ws[i := f i ws]) is ws) = length ws"
  by (induction "is" arbitrary: ws) simp_all

lemma fold_update_nth:
  "n \<le> length ws \<Longrightarrow> fold (\<lambda>i ws. ws[i := f i (ws ! i)]) [a..<n] ws ! k =
    (if a \<le> k \<and> k < n then f k (ws ! k) else ws ! k)"
proof (induction n)
  case (Suc n)
  then show ?case
    by (cases "a \<le> n") (auto simp: nth_list_update less_Suc_eq length_fold_update [of "\<lambda>i ws. f i (ws ! i)"])
qed simp

section \<open>Construction, copies, size\<close>

lemma length_allocate [simp]: "length (allocate junk n) = n"
  by (simp add: allocate_def)

lemma BitVector_result:
  assumes "s \<le> 2 ^ 31"
  shows "result_is (BitVector junk s t) s (\<lambda>_. t)"
proof -
  let ?b = "\<lparr>Bits = init_words (allocate junk (NumBitWords s)) t, Size = s\<rparr>"
  have w: "wbit (Bits ?b) i = t" if "i < 64 * NumBitWords s" for i
    using that by (simp add: wbit_init_words)
  show ?thesis
  proof (cases t)
    case True
    have "result_is (clear_unused_bits ?b) s (\<lambda>_. t)"
      using assms w NumBitWords_covers [of _ s] by (intro result_is_clear) (simp_all add: below_words)
    then show ?thesis using True by (simp add: BitVector_def Let_def)
  next
    case False
    have "result_is ?b s (\<lambda>_. t)"
      using assms w False by (intro result_isI) simp_all
    then show ?thesis using False by (simp add: BitVector_def Let_def)
  qed
qed

lemma wbit_copy_words:
  assumes "n \<le> length src" "i < 64 * n"
  shows "wbit (copy_words dst src n) i \<longleftrightarrow> wbit src i"
  using assms by (simp add: copy_words_def wbit_append wbit_take)

lemma length_copy_words: "n \<le> length src \<Longrightarrow> n \<le> length dst \<Longrightarrow> length (copy_words dst src n) = length dst"
  by (simp add: copy_words_def)

lemma BitVector_copy_result:
  assumes "bv_ok R"
  shows "result_is (BitVector_copy junk R) (Size R) (bv_get R)"
proof (cases "Size R = 0")
  case True
  have "result_is BitVector_empty 0 (bv_get R)"
    by (intro result_isI) (simp_all add: BitVector_empty_def NumBitWords_def)
  then show ?thesis using True by (simp add: BitVector_copy_def)
next
  case False
  have "result_is \<lparr>Bits = copy_words (allocate junk (NumBitWords (Size R))) (Bits R) (NumBitWords (Size R)), Size = Size R\<rparr>
      (Size R) (bv_get R)"
    using bv_ok_D [OF assms] bv_get_less by (intro result_isI) (auto simp: wbit_copy_words length_copy_words)
  then show ?thesis using False by (simp add: BitVector_copy_def Let_def)
qed

lemma bv_assign_result:
  assumes "bv_ok b" "bv_ok R"
  shows "result_is (bv_assign junk b R) (Size R) (bv_get R)"
proof -
  note R = bv_ok_D [OF assms(2)]
  let ?n = "NumBitWords (Size R)"
  show ?thesis
  proof (cases "Size R \<le> getBitCapacity (b\<lparr>Size := Size R\<rparr>)")
    case True
    then have n: "?n \<le> length (Bits b)" using R(1) by (simp add: getBitCapacity_def NumBitWords_fits)
    have "result_is (clear_unused_bits (if Size R \<noteq> 0 then b\<lparr>Size := Size R, Bits := copy_words (Bits b) (Bits R) ?n\<rparr>
        else b\<lparr>Size := Size R\<rparr>)) (Size R) (bv_get R)"
      using R n NumBitWords_covers [OF _ R(1)]
      by (intro result_is_clear) (auto simp: length_copy_words wbit_copy_words below_words)
    then show ?thesis using True by (auto simp: bv_assign_def Let_def split: if_splits)
  next
    case False
    have "result_is (b\<lparr>Size := Size R, Bits := copy_words (allocate junk ?n) (Bits R) ?n\<rparr>) (Size R) (bv_get R)"
      using R bv_get_less by (intro result_isI) (auto simp: wbit_copy_words length_copy_words)
    then show ?thesis using False by (simp add: bv_assign_def Let_def)
  qed
qed

lemma bv_clear_result: "result_is (bv_clear b) 0 f"
  by (intro result_isI) (simp_all add: bv_clear_def NumBitWords_def)

text \<open>Growing keeps the bits and clears everything after them.\<close>

lemma grow_facts:
  assumes "bv_ok b" "N \<le> 2 ^ 31"
  shows "Size (bv_grow junk N b) = Size b" "NumBitWords N \<le> length (Bits (bv_grow junk N b))"
    "length (Bits b) \<le> length (Bits (bv_grow junk N b))"
    "i < 64 * length (Bits (bv_grow junk N b)) \<Longrightarrow> wbit (Bits (bv_grow junk N b)) i \<longleftrightarrow> bv_get b i"
    "bv_ok (bv_grow junk N b)"
proof -
  define c where "c = max (NumBitWords N) (length (Bits b) * 2)"
  define g where "g = b\<lparr>Bits := Bits b @ map junk [length (Bits b)..<c]\<rparr>"
  note b = bv_ok_D [OF assms(1)]
  have cb: "length (Bits b) \<le> c" "NumBitWords N \<le> c" by (simp_all add: c_def)
  have gr: "bv_grow junk N b = clear_unused_bits g" by (simp add: bv_grow_def g_def c_def Let_def)
  have gs: "Size g = Size b" "length (Bits g) = c" using cb by (simp_all add: g_def)
  have g: "Size g \<le> 2 ^ 31" "NumBitWords (Size g) \<le> length (Bits g)" using b cb gs by simp_all
  note r = clear_unused_bits_ok [OF g]
  show "Size (bv_grow junk N b) = Size b" "NumBitWords N \<le> length (Bits (bv_grow junk N b))"
    "length (Bits b) \<le> length (Bits (bv_grow junk N b))" "bv_ok (bv_grow junk N b)"
    using r gs cb by (simp_all add: gr)
  have "wbit (Bits g) i \<longleftrightarrow> wbit (Bits b) i" if "i < Size b" for i
  proof -
    have "i div 64 < length (Bits b)" using NumBitWords_covers [OF that b(1)] b(2) by simp
    then show ?thesis by (simp add: g_def wbit_append below_words)
  qed
  then show "i < 64 * length (Bits (bv_grow junk N b)) \<Longrightarrow> wbit (Bits (bv_grow junk N b)) i \<longleftrightarrow> bv_get b i"
    using r gs by (auto simp: gr bv_get_def)
qed

lemma bv_reserve_result:
  assumes "bv_ok b" "N \<le> 2 ^ 31"
  shows "result_is (bv_reserve junk N b) (Size b) (bv_get b)"
proof -
  note g = grow_facts [OF assms, where junk = junk]
  have "bv_get (bv_grow junk N b) i = bv_get b i" if "i < Size b" for i
    using g(4) [of i] g(1,3) NumBitWords_covers [OF that] bv_ok_D(1,2) [OF assms(1)] that
    by (auto simp: bv_get_def below_words)
  then show ?thesis using g assms by (auto simp: bv_reserve_def result_is_def)
qed

lemma bv_resize_result:
  assumes ok: "bv_ok b" and N: "N \<le> 2 ^ 31"
  shows "result_is (bv_resize junk N t b) N (\<lambda>i. if i < Size b then bv_get b i else t)"
proof -
  note B = bv_ok_D [OF ok]
  define b1 where "b1 = (if N > getBitCapacity b
      then (bv_grow junk N b)\<lparr>Bits := take (length (Bits b)) (Bits (bv_grow junk N b))
          @ init_words (drop (length (Bits b)) (Bits (bv_grow junk N b))) t\<rparr> else b)"
  define b2 where "b2 = (if N > Size b1 then set_unused_bits t b1 else b1)"
  have r: "bv_resize junk N t b = (if t \<or> N < Size b2 then clear_unused_bits (b2\<lparr>Size := N\<rparr>) else b2\<lparr>Size := N\<rparr>)"
    by (simp add: bv_resize_def b1_def b2_def Let_def)
  note g = grow_facts [OF ok N, where junk = junk]
  have n1: "NumBitWords N \<le> length (Bits b1)" "Size b1 = Size b" "length (Bits b) \<le> length (Bits b1)"
    using N g by (auto simp: b1_def getBitCapacity_def NumBitWords_fits)
  have w1: "wbit (Bits b1) i \<longleftrightarrow> bv_get b i" if "i < Size b" for i
  proof -
    have i: "i div 64 < length (Bits b)" using NumBitWords_covers [OF that B(1)] B(2) by simp
    then show ?thesis using g(3) g(4) [of i] B(4) [OF that]
      by (simp add: b1_def wbit_append wbit_take below_words min_def)
  qed
  have n2: "Size b2 = Size b" "length (Bits b2) = length (Bits b1)" using n1 by (simp_all add: b2_def)
  have w2: "wbit (Bits b2) i \<longleftrightarrow> (if i < Size b then bv_get b i else t)"
    if "i < 64 * length (Bits b1)" "N > Size b" for i
    using set_unused_bits_wbit [of b1 i t] that n1 w1 B by (simp add: b2_def)
  have w3: "wbit (Bits b2) i \<longleftrightarrow> (if i < Size b then bv_get b i else t)" if "i < N" for i
  proof (cases "N > Size b")
    case True
    then show ?thesis using w2 [of i] NumBitWords_covers [OF that N] n1(1) by (simp add: below_words)
  next
    case False
    then show ?thesis using w1 [of i] that n1(2) by (simp add: b2_def)
  qed
  show ?thesis
  proof (cases "t \<or> N < Size b")
    case True
    have "result_is (clear_unused_bits (b2\<lparr>Size := N\<rparr>)) N (\<lambda>i. if i < Size b then bv_get b i else t)"
      using w3 n1 n2 N by (intro result_is_clear) simp_all
    then show ?thesis using True n2 by (simp add: r)
  next
    case False
    show ?thesis
    proof (cases "N = Size b")
      case True
      then have "b2 = b" using B(1,2) NumBitWords_fits [of N "length (Bits b)"] n1(2)
        by (simp add: b2_def b1_def getBitCapacity_def)
      then have "bv_resize junk N t b = b" unfolding r using True False by simp
      then show ?thesis using True ok by (simp add: result_is_def)
    next
      case n: False
      have "result_is (b2\<lparr>Size := N\<rparr>) N (\<lambda>i. if i < Size b then bv_get b i else t)"
        using N n1 n2 w2 False n bv_get_less by (intro result_isI) (auto simp: below_words)
      then show ?thesis unfolding r using False n2 by simp
    qed
  qed
qed

end
