(* ===== verification/LL_BV_Sets.thy ===== *)
theory LL_BV_Sets imports LL_BV_Ops begin

text \<open>
  Setting, resetting and flipping: one bit, a range of bits, all of them, and the bits of another
  vector or of a portable mask.
\<close>

section \<open>One word\<close>

lemma bit_single: "m < 64 \<Longrightarrow> bit (push_bit m 1 :: u64) j \<longleftrightarrow> j = m"
  unfolding bit_push_bit_iff possible_bit_word by (auto simp: bit_1_iff)

lemma bit_single_exp: "m < 64 \<Longrightarrow> bit (2 ^ m :: u64) j \<longleftrightarrow> j = m"
  using bit_single [of m j] by simp

lemma and_single: "m < 64 \<Longrightarrow> w AND push_bit m 1 \<noteq> 0 \<longleftrightarrow> bit (w :: u64) m"
  by (auto simp: bit_eq_iff [where 'a = "64 word"] bit_and_iff bit_single bit_single_exp)

lemma bv_ok_covers: "bv_ok b \<Longrightarrow> i < Size b \<Longrightarrow> i div 64 < NumBitWords (Size b) \<and> i div 64 < length (Bits b)"
  using NumBitWords_covers [of i "Size b"] bv_ok_D(1,2) [of b] by auto

text \<open>Changing the bits of one used word.\<close>

lemma result_is_word:
  assumes ok: "bv_ok b" and k: "k < NumBitWords (Size b)"
    and w: "\<And>i. i div 64 = k \<Longrightarrow> bit w (i mod 64) \<longleftrightarrow> i < Size b \<and> f i"
    and o: "\<And>i. i div 64 \<noteq> k \<Longrightarrow> f i = bv_get b i"
  shows "result_is (b\<lparr>Bits := (Bits b)[k := w]\<rparr>) (Size b) f"
proof (rule result_isI)
  note B = bv_ok_D [OF ok]
  fix i
  assume "i < 64 * NumBitWords (Size b)"
  then show "wbit (Bits (b\<lparr>Bits := (Bits b)[k := w]\<rparr>)) i \<longleftrightarrow> i < Size b \<and> f i"
    using B(2) B(3) [of i] k w [of i] o [of i] bv_get_less [of b i] by (auto simp: wbit_update)
qed (use bv_ok_D [OF ok] in simp_all)

lemma get_in_word:
  assumes "bv_ok b" "i div 64 = Idx div 64" "Idx < Size b"
  shows "bit (Bits b ! (Idx div 64)) (i mod 64) \<longleftrightarrow> bv_get b i"
  using bv_ok_D(1) [OF assms(1)] bv_ok_D(3) [OF assms(1), of i] assms NumBitWords_covers [of Idx "Size b"]
  by (simp add: wbit_def below_words)

lemma same_bit: "i div 64 = Idx div 64 \<Longrightarrow> i mod 64 = Idx mod 64 \<longleftrightarrow> i = (Idx :: nat)"
  by (metis div_mult_mod_eq)

lemma bit_at_results:
  assumes ok: "bv_ok b" and i: "Idx < Size b"
  shows "\<exists>b'. set_bit_at Idx b = Some b' \<and> result_is b' (Size b) (\<lambda>i. i = Idx \<or> bv_get b i)"
    "\<exists>b'. reset_bit_at Idx b = Some b' \<and> result_is b' (Size b) (\<lambda>i. i \<noteq> Idx \<and> bv_get b i)"
    "\<exists>b'. flip_bit_at Idx b = Some b' \<and> result_is b' (Size b) (\<lambda>i. if i = Idx then \<not> bv_get b i else bv_get b i)"
proof -
  have k: "Idx div 64 < NumBitWords (Size b)" using NumBitWords_covers [OF i] bv_ok_D(1) [OF ok] by simp
  then have l: "Idx div 64 < length (Bits b)" using bv_ok_D(2) [OF ok] by simp
  note g = get_in_word [OF ok _ i] and s = bit_single_exp [of "Idx mod 64"]
  note rules = g s same_bit bit_or_iff bit_and_iff bit_xor_iff bit_not_iff
  have less: "bv_get b i \<Longrightarrow> i < Size b" for i by (rule bv_get_less)
  have "result_is (b\<lparr>Bits := (Bits b)[Idx div 64 := Bits b ! (Idx div 64) OR push_bit (Idx mod 64) 1]\<rparr>)
      (Size b) (\<lambda>i. i = Idx \<or> bv_get b i)"
    using less i by (intro result_is_word [OF ok k]) (auto simp: rules)
  then show "\<exists>b'. set_bit_at Idx b = Some b' \<and> result_is b' (Size b) (\<lambda>i. i = Idx \<or> bv_get b i)"
    using l by (simp add: set_bit_at_def)
  have "result_is (b\<lparr>Bits := (Bits b)[Idx div 64 := Bits b ! (Idx div 64) AND NOT (push_bit (Idx mod 64) 1)]\<rparr>)
      (Size b) (\<lambda>i. i \<noteq> Idx \<and> bv_get b i)"
    using less i by (intro result_is_word [OF ok k]) (auto simp: rules)
  then show "\<exists>b'. reset_bit_at Idx b = Some b' \<and> result_is b' (Size b) (\<lambda>i. i \<noteq> Idx \<and> bv_get b i)"
    using l by (simp add: reset_bit_at_def)
  have "result_is (b\<lparr>Bits := (Bits b)[Idx div 64 := Bits b ! (Idx div 64) XOR push_bit (Idx mod 64) 1]\<rparr>)
      (Size b) (\<lambda>i. if i = Idx then \<not> bv_get b i else bv_get b i)"
    using less i by (intro result_is_word [OF ok k]) (auto simp: rules)
  then show "\<exists>b'. flip_bit_at Idx b = Some b' \<and> result_is b' (Size b) (\<lambda>i. if i = Idx then \<not> bv_get b i else bv_get b i)"
    using l by (simp add: flip_bit_at_def)
qed

text \<open>\<open>operator[]\<close> reads the bit, and assigning to the reference it gives is setting or resetting.\<close>

lemma bv_index_get: "bv_ok b \<Longrightarrow> Idx < Size b \<Longrightarrow> bv_index b Idx = Some (bv_get b Idx)"
  using get_in_word [of b Idx Idx] and_single [of "Idx mod 64"] by (simp add: bv_index_def Let_def)

lemma reference_assign_bit:
  "bv_ok b \<Longrightarrow> Idx < Size b \<Longrightarrow> reference_at b Idx = Some r \<Longrightarrow>
    Some (reference_assign r t b) = (if t then set_bit_at Idx b else reset_bit_at Idx b)"
  using bv_ok_D(1,2) [of b] NumBitWords_covers [of Idx "Size b"]
  by (auto simp: reference_at_def reference_assign_def set_bit_at_def reset_bit_at_def)

section \<open>All words\<close>

lemma set_all_result: "bv_ok b \<Longrightarrow> result_is (set_all b) (Size b) (\<lambda>_. True)"
  unfolding set_all_def using bv_ok_D(1,2) [of b] bv_ok_covers [of b]
  by (intro result_is_clear) (simp_all add: below_words wbit_init_words)

lemma reset_all_result: "bv_ok b \<Longrightarrow> result_is (reset_all b) (Size b) (\<lambda>_. False)"
  using bv_ok_D(1,2) [of b] by (intro result_isI) (auto simp: reset_all_def below_words wbit_init_words)

lemma wbit_fold_update:
  assumes "n \<le> length ws" "a \<le> i div 64" "i div 64 < n"
  shows "wbit (fold (\<lambda>i ws. ws[i := f i (ws ! i)]) [a..<n] ws) i \<longleftrightarrow> bit (f (i div 64) (ws ! (i div 64))) (i mod 64)"
  using fold_update_nth [OF assms(1), of f a "i div 64"] assms by (simp add: wbit_def)

lemma flip_all_result:
  assumes "bv_ok b"
  shows "result_is (flip_all b) (Size b) (\<lambda>i. \<not> bv_get b i)"
  unfolding flip_all_def bv_size_def
proof (rule result_is_clear)
  fix i
  assume i: "i < Size b"
  have "wbit (fold (\<lambda>i ws. ws[i := NOT (ws ! i)]) [0..<NumBitWords (Size b)] (Bits b)) i
      \<longleftrightarrow> bit (NOT (Bits b ! (i div 64))) (i mod 64)"
    using bv_ok_D(2) [OF assms] bv_ok_covers [OF assms i] by (intro wbit_fold_update) simp_all
  also have "\<dots> \<longleftrightarrow> \<not> bv_get b i" using get_in_word [OF assms refl i] by (simp add: bit_not_iff)
  finally show "wbit (Bits (b\<lparr>Bits := fold (\<lambda>i ws. ws[i := NOT (ws ! i)]) [0..<NumBitWords (Size b)] (Bits b)\<rparr>)) i
      \<longleftrightarrow> \<not> bv_get b i"
    by simp
qed (use bv_ok_D [OF assms] in simp_all)

section \<open>Ranges\<close>

lemma bit_range_mask:
  assumes "i \<le> e" "e < 64"
  shows "bit (push_bit e 1 - push_bit i 1 :: u64) j \<longleftrightarrow> i \<le> j \<and> j < e"
proof -
  have "(2 :: u64) ^ e = 2 ^ i * 2 ^ (e - i)" using assms by (simp flip: power_add)
  then have "push_bit e 1 - push_bit i 1 = (push_bit i (mask (e - i)) :: u64)"
    by (simp add: push_bit_eq_mult mask_eq_exp_minus_1 algebra_simps)
  then show ?thesis using assms
    by (simp only: bit_push_bit_iff bit_mask_iff possible_bit_word) auto
qed

lemma bit_prefix_mask: "i < 64 \<Longrightarrow> bit (push_bit i (- 1) :: u64) j \<longleftrightarrow> i \<le> j \<and> j < 64"
  unfolding bit_push_bit_iff bit_minus_1_iff possible_bit_word by auto

lemma bit_postfix_mask: "e < 64 \<Longrightarrow> bit (push_bit e 1 - 1 :: u64) j \<longleftrightarrow> j < e"
  using bit_range_mask [of 0 e j] by simp

lemma alignTo_64: "I \<le> 2 ^ 31 \<Longrightarrow> unat (alignTo (of_nat I) 64 0) = 64 * ((I + 63) div 64)"
proof -
  assume I: "I \<le> 2 ^ 31"
  have "(I + 63) div 64 \<le> I + 63" by (rule div_le_dividend)
  then have m: "64 * ((I + 63) div 64) < 2 ^ 64" using I by simp
  have "unat (of_nat I + 64 - 1 :: u64) = I + 63"
  proof -
    have "(of_nat I + 64 - 1 :: u64) = of_nat (I + 63)" by simp
    then show ?thesis using I by (simp only: unat_of_nat) (simp add: take_bit_nat_eq_self)
  qed
  then have d: "unat ((of_nat I + 64 - 1 :: u64) div 64) = (I + 63) div 64" by (simp add: unat_div)
  then have "unat ((of_nat I + 64 - 1 :: u64) div 64 * 64) = (I + 63) div 64 * 64"
    using m by (subst unat_mult_small) simp_all
  then show ?thesis by (simp add: alignTo_def Let_def mult.commute)
qed

lemma fill_words_result:
  "fill_words w I E ws = (ws', I') \<Longrightarrow> 64 dvd I \<Longrightarrow> I \<le> E \<Longrightarrow> E div 64 \<le> length ws \<Longrightarrow>
    I' = 64 * (E div 64) \<and> length ws' = length ws \<and>
    (\<forall>k < length ws. ws' ! k = (if I div 64 \<le> k \<and> k < E div 64 then w else ws ! k))"
proof (induction w I E ws rule: fill_words.induct)
  case (1 w I E ws)
  show ?case
  proof (cases "I + 64 \<le> E")
    case True
    have s: "(I + 64) div 64 = I div 64 + 1" by simp
    have "(I + 64) div 64 \<le> E div 64" using True by (rule div_le_mono)
    then have k: "I div 64 < E div 64" unfolding s by simp
    have "fill_words w (I + 64) E (ws[I div 64 := w]) = (ws', I')"
      using "1.prems"(1) True by (simp add: fill_words.simps [of w I])
    from "1.IH" [OF True this] "1.prems" True
    show ?thesis unfolding s using k by (auto simp: nth_list_update)
  next
    case False
    obtain q where q: "I = 64 * q" using "1.prems"(2) by (auto elim: dvdE)
    have "E div 64 = q" using False "1.prems"(3) q by (intro div_nat_eqI) simp_all
    then show ?thesis using "1.prems"(1) False q unfolding fill_words.simps [of w I] by auto
  qed
qed

lemma less_lex: "i < k \<longleftrightarrow> i div 64 < k div 64 \<or> i div 64 = k div 64 \<and> i mod 64 < k mod 64" for i k :: nat
  using lex_64 [of "i mod 64" "k mod 64" "i div 64" "k div 64"] by simp

lemma le_lex: "i \<le> k \<longleftrightarrow> i div 64 < k div 64 \<or> i div 64 = k div 64 \<and> i mod 64 \<le> k mod 64" for i k :: nat
  using less_lex [of k i] by auto

text \<open>
  Both range operations are one: \<open>g x m\<close> sets the bits of \<open>m\<close> in \<open>x\<close> to \<open>v\<close>, and the whole words
  between the first and the last become \<open>w\<close>.
\<close>

definition range_words :: "(u64 \<Rightarrow> u64 \<Rightarrow> u64) \<Rightarrow> u64 \<Rightarrow> nat \<Rightarrow> nat \<Rightarrow> u64 list \<Rightarrow> u64 list" where
  "range_words g w I E ws =
     (if I div 64 = E div 64 then ws[I div 64 := g (ws ! (I div 64)) (push_bit (E mod 64) 1 - push_bit (I mod 64) 1)]
      else let ws = ws[I div 64 := g (ws ! (I div 64)) (push_bit (I mod 64) (- 1))];
               (ws, I) = fill_words w (unat (alignTo (of_nat I) 64 0)) E ws
           in if I < E then ws[I div 64 := g (ws ! (I div 64)) (push_bit (E mod 64) 1 - 1)] else ws)"

lemma range_words_bits:
  assumes g: "\<And>x m j. bit (g x m) j \<longleftrightarrow> j < 64 \<and> (if bit m j then v else bit x j)"
    and w: "w = (if v then - 1 else 0)"
    and r: "I < E" "E \<le> 2 ^ 31" "NumBitWords E \<le> length ws"
  shows "length (range_words g w I E ws) = length ws"
    "i < 64 * length ws \<Longrightarrow> wbit (range_words g w I E ws) i \<longleftrightarrow> (if I \<le> i \<and> i < E then v else wbit ws i)"
proof -
  let ?p = "I div 64" and ?q = "E div 64"
  have p: "?p < length ws" using NumBitWords_covers [OF r(1,2)] r(3) by simp
  have qle: "?q \<le> length ws"
    using r(2,3) unfolding NumBitWords_eq [OF r(2)] by (meson div_le_mono le_add1 order_trans)
  have q: "?q < length ws" if "E mod 64 \<noteq> 0"
  proof -
    have "(E + 63) div 64 = ?q + 1" using that by (intro round_up_64) simp
    then show ?thesis using r(3) unfolding NumBitWords_eq [OF r(2)] by simp
  qed
  have pq: "?p \<le> ?q" using r(1) by (intro div_le_mono) simp
  have gb: "i mod 64 < 64" for i :: nat by simp
  show "length (range_words g w I E ws) = length ws"
    and "i < 64 * length ws \<Longrightarrow> wbit (range_words g w I E ws) i \<longleftrightarrow> (if I \<le> i \<and> i < E then v else wbit ws i)"
  proof -
    have "length (range_words g w I E ws) = length ws \<and>
      (i < 64 * length ws \<longrightarrow> wbit (range_words g w I E ws) i = (if I \<le> i \<and> i < E then v else wbit ws i))"
    proof (cases "?p = ?q")
      case True
      have m: "I mod 64 \<le> E mod 64" using r(1) True div_mult_mod_eq [of I 64] div_mult_mod_eq [of E 64] by linarith
      let ?w = "g (ws ! ?p) (push_bit (E mod 64) 1 - push_bit (I mod 64) 1)"
      have R: "range_words g w I E ws = ws[?p := ?w]" unfolding range_words_def by (rule if_P) (rule True)
      have "wbit (range_words g w I E ws) i \<longleftrightarrow>
          (if i div 64 = ?p \<and> I mod 64 \<le> i mod 64 \<and> i mod 64 < E mod 64 then v else wbit ws i)"
        unfolding R wbit_update [OF p] g bit_range_mask [OF m gb] by (auto simp: wbit_def)
      also have "\<dots> \<longleftrightarrow> (if I \<le> i \<and> i < E then v else wbit ws i)"
        unfolding le_lex [of I] less_lex [of i] True [symmetric] by auto
      finally show ?thesis by (simp add: R)
    next
      case False
      then have pq: "?p < ?q" using pq by simp
      define ws1 where "ws1 = ws[?p := g (ws ! ?p) (push_bit (I mod 64) (- 1))]"
      define I1 where "I1 = unat (alignTo (of_nat I) 64 0)"
      obtain ws2 I2 where f: "fill_words w I1 E ws1 = (ws2, I2)" by (cases "fill_words w I1 E ws1")
      have I1: "I1 = 64 * ((I + 63) div 64)" using r(1,2) by (simp add: I1_def alignTo_64)
      have up: "(I + 63) div 64 = (if I mod 64 = 0 then ?p else ?p + 1)"
        using round_up_64 [of I] by (auto simp: div_add1_eq [of I 63])
      have "I1 \<le> 64 * ?q" using pq up unfolding I1 by (cases "I mod 64 = 0") simp_all
      also have "\<dots> \<le> E" by simp
      finally have "I1 \<le> E" .
      then have F: "I2 = 64 * ?q" "length ws2 = length ws"
          "\<And>k. k < length ws \<Longrightarrow> ws2 ! k = (if (I + 63) div 64 \<le> k \<and> k < ?q then w else ws1 ! k)"
        using fill_words_result [OF f] qle I1 by (auto simp: ws1_def)
      have e: "I2 < E \<longleftrightarrow> E mod 64 \<noteq> 0" using div_mult_mod_eq [of E 64] unfolding F(1) by linarith
      have R: "range_words g w I E ws = (if E mod 64 \<noteq> 0 then ws2[?q := g (ws2 ! ?q) (push_bit (E mod 64) 1 - 1)] else ws2)"
        using False f e F(1) unfolding range_words_def by (simp add: Let_def ws1_def I1_def del: push_bit_of_1)
      have W: "bit (ws2 ! k) j \<longleftrightarrow> (if (I + 63) div 64 \<le> k \<and> k < ?q then v
          else if k = ?p then (if I mod 64 \<le> j then v else bit (ws ! k) j) else bit (ws ! k) j)"
        if "k < length ws" "j < 64" for k j
        using F(3) [OF that(1)] that by (auto simp: ws1_def w g bit_not_iff bit_mask_iff nth_list_update)
      show ?thesis
      proof (intro conjI impI)
        show "length (range_words g w I E ws) = length ws" using F(2) by (simp add: R)
        assume i: "i < 64 * length ws"
        then have k: "i div 64 < length ws" by (simp add: below_words)
        have "wbit (range_words g w I E ws) i \<longleftrightarrow>
            (if i div 64 = ?q \<and> i mod 64 < E mod 64 then v else bit (ws2 ! (i div 64)) (i mod 64))"
        proof (cases "E mod 64 = 0")
          case True
          then show ?thesis by (simp add: R wbit_def)
        next
          case False
          have "?q < length ws2" using q [OF False] F(2) by simp
          then have "wbit (ws2[?q := g (ws2 ! ?q) (push_bit (E mod 64) 1 - 1)]) i \<longleftrightarrow>
              (if i div 64 = ?q then (if i mod 64 < E mod 64 then v else bit (ws2 ! ?q) (i mod 64)) else wbit ws2 i)"
            unfolding wbit_update [OF \<open>?q < length ws2\<close>] g bit_postfix_mask [OF gb] by simp
          then show ?thesis using False by (auto simp: R wbit_def)
        qed
        also have "\<dots> \<longleftrightarrow> (if I \<le> i \<and> i < E then v else wbit ws i)"
          unfolding W [OF k gb] up le_lex [of I] less_lex [of i] wbit_def using pq by auto
        finally show "wbit (range_words g w I E ws) i \<longleftrightarrow> (if I \<le> i \<and> i < E then v else wbit ws i)" .
      qed
    qed
    then show "length (range_words g w I E ws) = length ws"
      and "i < 64 * length ws \<Longrightarrow> wbit (range_words g w I E ws) i \<longleftrightarrow> (if I \<le> i \<and> i < E then v else wbit ws i)"
      by simp_all
  qed
qed

lemma range_results:
  assumes ok: "bv_ok b"
  shows "set_range I E b = (if I \<le> E \<and> E \<le> Size b then Some (if I = E then b
      else b\<lparr>Bits := range_words (\<lambda>x m. x OR m) (- 1) I E (Bits b)\<rparr>) else None)"
    "reset_range I E b = (if I \<le> E \<and> E \<le> Size b then Some (if I = E then b
      else b\<lparr>Bits := range_words (\<lambda>x m. x AND NOT m) 0 I E (Bits b)\<rparr>) else None)"
  by (auto simp: set_range_def reset_range_def range_words_def bv_size_def Let_def split: prod.splits)

lemma range_words_result:
  assumes ok: "bv_ok b" and r: "I < E" "E \<le> Size b"
    and g: "\<And>x m j. bit (g x m) j \<longleftrightarrow> j < 64 \<and> (if bit m j then v else bit x j)"
    and w: "w = (if v then - 1 else 0)"
  shows "result_is (b\<lparr>Bits := range_words g w I E (Bits b)\<rparr>) (Size b) (\<lambda>i. if I \<le> i \<and> i < E then v else bv_get b i)"
proof (rule result_isI)
  note B = bv_ok_D [OF ok]
  have n: "E \<le> 2 ^ 31" "NumBitWords E \<le> length (Bits b)"
    using r B(1,2) NumBitWords_mono [OF r(2) B(1)] by simp_all
  note rw = range_words_bits [where g = g and v = v, OF g w r(1) n]
  show "NumBitWords (Size b) \<le> length (Bits (b\<lparr>Bits := range_words g w I E (Bits b)\<rparr>))" using B(2) rw(1) by simp
  fix i
  assume i: "i < 64 * NumBitWords (Size b)"
  then have "i < 64 * length (Bits b)" using B(2) by simp
  from rw(2) [OF this] show "wbit (Bits (b\<lparr>Bits := range_words g w I E (Bits b)\<rparr>)) i \<longleftrightarrow>
      i < Size b \<and> (if I \<le> i \<and> i < E then v else bv_get b i)"
    using B(3) [OF i] r bv_get_less [of b i] by auto
qed (use bv_ok_D [OF ok] in simp_all)

lemma set_range_result:
  assumes ok: "bv_ok b" and r: "I \<le> E" "E \<le> Size b"
  shows "\<exists>b'. set_range I E b = Some b' \<and> result_is b' (Size b) (\<lambda>i. if I \<le> i \<and> i < E then True else bv_get b i)"
    "\<exists>b'. reset_range I E b = Some b' \<and> result_is b' (Size b) (\<lambda>i. if I \<le> i \<and> i < E then False else bv_get b i)"
proof -
  have same: "result_is b (Size b) (\<lambda>i. if I \<le> i \<and> i < E then v else bv_get b i)" if "I = E" for v
    using that ok by (auto simp: result_is_def)
  have g: "bit (x OR m) j \<longleftrightarrow> j < 64 \<and> (if bit m j then True else bit x j)"
    "bit (x AND NOT m) j \<longleftrightarrow> j < 64 \<and> (if bit m j then False else bit x j)" for x m :: u64 and j
    using bit64_bound by (auto simp: bit_or_iff bit_and_iff bit_not_iff)
  have m: "(- 1 :: u64) = (if True then - 1 else 0)" "(0 :: u64) = (if False then - 1 else 0)" by simp_all
  show "\<exists>b'. set_range I E b = Some b' \<and> result_is b' (Size b) (\<lambda>i. if I \<le> i \<and> i < E then True else bv_get b i)"
  proof (cases "I = E")
    case False
    then have "I < E" using r(1) by simp
    from range_words_result [OF ok this r(2) g(1) m(1)] show ?thesis
      unfolding range_results(1) [OF ok] using r False by (auto simp del: if_True)
  qed (use same r in \<open>auto simp: range_results [OF ok]\<close>)
  show "\<exists>b'. reset_range I E b = Some b' \<and> result_is b' (Size b) (\<lambda>i. if I \<le> i \<and> i < E then False else bv_get b i)"
  proof (cases "I = E")
    case False
    then have "I < E" using r(1) by simp
    from range_words_result [OF ok this r(2) g(2) m(2)] show ?thesis
      unfolding range_results(2) [OF ok] using r False by auto
  qed (use same r in \<open>auto simp: range_results [OF ok]\<close>)
qed

end
