(* ===== verification/LL_BV_Pairs.thy ===== *)
theory LL_BV_Pairs imports LL_BV_Sets begin

text \<open>
  The operations with a second vector, the shifts, and the portable masks.
\<close>

section \<open>Two vectors\<close>

lemma word_bits:
  assumes "bv_ok b" "i div 64 < NumBitWords (Size b)"
  shows "bit (Bits b ! (i div 64)) (i mod 64) \<longleftrightarrow> bv_get b i"
  using bv_ok_D(3) [OF assms(1), of i] assms(2) by (simp add: wbit_def below_words)

lemma no_bits_after:
  assumes "bv_ok b" "NumBitWords (Size b) \<le> i div 64"
  shows "\<not> bv_get b i"
  using assms NumBitWords_covers [of i "Size b"] bv_ok_D(1) [OF assms(1)] by (auto dest: bv_get_less)

lemma and_with_result:
  assumes ok: "bv_ok b" "bv_ok R"
  shows "result_is (and_with b R) (Size b) (\<lambda>i. bv_get b i \<and> bv_get R i)"
proof (rule result_isI)
  let ?U = "NumBitWords (Size b)" and ?V = "NumBitWords (Size R)"
  note B = bv_ok_D [OF ok(1)]
  define ws where "ws = fold (\<lambda>i ws. ws[i := ws ! i AND Bits R ! i]) [0..<min ?U ?V] (Bits b)"
  have l: "length ws = length (Bits b)" unfolding ws_def by (rule length_fold_update)
  have e: "Bits (and_with b R) = fold (\<lambda>i ws. ws[i := 0]) [min ?U ?V..<?U] ws"
    by (simp add: and_with_def bv_size_def ws_def Let_def)
  show "Size (and_with b R) = Size b" by (simp add: and_with_def Let_def)
  show "?U \<le> length (Bits (and_with b R))" using B(2) l by (simp add: e length_fold_update [of "\<lambda>_ _. 0"])
  fix i
  assume "i < 64 * ?U"
  then have k: "i div 64 < ?U" by (simp add: below_words)
  have w: "ws ! (i div 64) = (if i div 64 < min ?U ?V then Bits b ! (i div 64) AND Bits R ! (i div 64) else Bits b ! (i div 64))"
    unfolding ws_def using fold_update_nth [of "min ?U ?V" "Bits b" "\<lambda>i w. w AND Bits R ! i" 0 "i div 64"] B(2) by simp
  have "Bits (and_with b R) ! (i div 64) = (if i div 64 < ?V then Bits b ! (i div 64) AND Bits R ! (i div 64) else 0)"
    unfolding e using fold_update_nth [of ?U ws "\<lambda>_ _. 0" "min ?U ?V" "i div 64"] l B(2) k w by auto
  then show "wbit (Bits (and_with b R)) i \<longleftrightarrow> i < Size b \<and> bv_get b i \<and> bv_get R i"
    using word_bits [OF ok(1) k] word_bits [OF ok(2), of i] no_bits_after [OF ok(2), of i] bv_get_less [of b i]
    by (auto simp: wbit_def bit_and_iff not_less)
qed (use bv_ok_D [OF ok(1)] in simp)

lemma reset_with_result:
  assumes ok: "bv_ok b" "bv_ok R"
  shows "result_is (reset_with b R) (Size b) (\<lambda>i. bv_get b i \<and> \<not> bv_get R i)"
proof (rule result_isI)
  let ?U = "NumBitWords (Size b)" and ?V = "NumBitWords (Size R)"
  note B = bv_ok_D [OF ok(1)]
  have e: "Bits (reset_with b R) = fold (\<lambda>i ws. ws[i := ws ! i AND NOT (Bits R ! i)]) [0..<min ?U ?V] (Bits b)"
    by (simp add: reset_with_def bv_size_def Let_def)
  show "Size (reset_with b R) = Size b" by (simp add: reset_with_def Let_def)
  show "?U \<le> length (Bits (reset_with b R))" unfolding e using B(2) by (simp only: length_fold_update)
  fix i
  assume "i < 64 * ?U"
  then have k: "i div 64 < ?U" by (simp add: below_words)
  have "Bits (reset_with b R) ! (i div 64) =
      (if i div 64 < ?V then Bits b ! (i div 64) AND NOT (Bits R ! (i div 64)) else Bits b ! (i div 64))"
    unfolding e using fold_update_nth [of "min ?U ?V" "Bits b" "\<lambda>i w. w AND NOT (Bits R ! i)" 0 "i div 64"] B(2) k by simp
  then show "wbit (Bits (reset_with b R)) i \<longleftrightarrow> i < Size b \<and> bv_get b i \<and> \<not> bv_get R i"
    using word_bits [OF ok(1) k] word_bits [OF ok(2), of i] no_bits_after [OF ok(2), of i] bv_get_less [of b i]
    by (auto simp: wbit_def bit_and_iff bit_not_iff not_less)
qed (use bv_ok_D [OF ok(1)] in simp)

text \<open>Union and symmetric difference first make room.\<close>

lemma merge_result:
  assumes ok: "bv_ok b" "bv_ok R" and s: "Size R \<le> Size b"
    and g: "\<And>x y j. bit (g x y) j \<longleftrightarrow> op (bit x j) (bit (y :: u64) j)" "\<And>p. op p False = p"
    and e: "b' = b\<lparr>Bits := fold (\<lambda>i ws. ws[i := g (ws ! i) (Bits R ! i)]) [0..<NumBitWords (Size R)] (Bits b)\<rparr>"
  shows "result_is b' (Size b) (\<lambda>i. op (bv_get b i) (bv_get R i))"
proof (rule result_isI)
  let ?U = "NumBitWords (Size b)" and ?V = "NumBitWords (Size R)"
  note B = bv_ok_D [OF ok(1)] and C = bv_ok_D [OF ok(2)]
  have v: "?V \<le> ?U" using s B(1) by (intro NumBitWords_mono)
  show "Size b' = Size b" by (simp add: e)
  show "?U \<le> length (Bits b')" using B(2) by (simp add: e length_fold_update [of "\<lambda>i ws. g (ws ! i) (Bits R ! i)"])
  fix i
  assume "i < 64 * ?U"
  then have k: "i div 64 < ?U" by (simp add: below_words)
  have "Bits b' ! (i div 64) = (if i div 64 < ?V then g (Bits b ! (i div 64)) (Bits R ! (i div 64)) else Bits b ! (i div 64))"
    using fold_update_nth [of ?V "Bits b" "\<lambda>i w. g w (Bits R ! i)" 0 "i div 64"] B(2) v by (simp add: e)
  then have "wbit (Bits b') i \<longleftrightarrow> op (bv_get b i) (bv_get R i)"
    using word_bits [OF ok(1) k] word_bits [OF ok(2), of i] no_bits_after [OF ok(2), of i]
    by (auto simp: wbit_def g not_less)
  moreover have "i < Size b" if "op (bv_get b i) (bv_get R i)"
  proof (rule ccontr)
    assume "\<not> i < Size b"
    then have "bv_get b i = False" "bv_get R i = False" using s by (auto simp: bv_get_def)
    then have "op False False" using that by simp
    then show False using g(2) [of False] by simp
  qed
  ultimately show "wbit (Bits b') i \<longleftrightarrow> i < Size b \<and> op (bv_get b i) (bv_get R i)" by auto
qed (use bv_ok_D [OF ok(1)] in simp)

lemma room_for:
  assumes "bv_ok b" "bv_ok R"
  shows "result_is (if bv_size b < bv_size R then bv_resize junk (bv_size R) False b else b) (max (Size b) (Size R)) (bv_get b)"
proof (cases "Size b < Size R")
  case True
  have "result_is (bv_resize junk (Size R) False b) (Size R) (\<lambda>i. if i < Size b then bv_get b i else False)"
    using assms bv_ok_D(1) [of R] by (intro bv_resize_result)
  moreover have "(\<lambda>i. if i < Size b then bv_get b i else False) = bv_get b" by (auto simp: bv_get_def)
  ultimately show ?thesis using True by (simp add: bv_size_def max_def)
qed (use assms in \<open>simp add: bv_size_def result_is_def max_def\<close>)

lemma result_get: "result_is b n f \<Longrightarrow> bv_get b i \<longleftrightarrow> i < n \<and> f i"
  by (auto simp: result_is_def bv_get_def)

lemma or_xor_result:
  assumes ok: "bv_ok b" "bv_ok R"
  shows "result_is (or_with junk b R) (max (Size b) (Size R)) (\<lambda>i. bv_get b i \<or> bv_get R i)"
    "result_is (xor_with junk b R) (max (Size b) (Size R)) (\<lambda>i. bv_get b i \<noteq> bv_get R i)"
proof -
  define c where "c = (if bv_size b < bv_size R then bv_resize junk (bv_size R) False b else b)"
  have r: "result_is c (max (Size b) (Size R)) (bv_get b)" unfolding c_def by (rule room_for [OF ok])
  then have c: "bv_ok c" "Size c = max (Size b) (Size R)" by (simp_all add: result_is_def)
  have g: "bv_get c = bv_get b"
    using result_get [OF r] bv_get_less [of b] by (intro ext) (auto simp: less_max_iff_disj)
  have s: "Size R \<le> Size c" using c by simp
  have "result_is (or_with junk b R) (Size c) (\<lambda>i. bv_get c i \<or> bv_get R i)"
    by (rule merge_result [OF c(1) ok(2) s, where g = "(OR)"]) (auto simp: bit_or_iff or_with_def c_def bv_size_def Let_def)
  then show "result_is (or_with junk b R) (max (Size b) (Size R)) (\<lambda>i. bv_get b i \<or> bv_get R i)" using c g by simp
  have "result_is (xor_with junk b R) (Size c) (\<lambda>i. bv_get c i \<noteq> bv_get R i)"
    by (rule merge_result [OF c(1) ok(2) s, where g = "(XOR)"]) (auto simp: bit_xor_iff xor_with_def c_def bv_size_def Let_def)
  then show "result_is (xor_with junk b R) (max (Size b) (Size R)) (\<lambda>i. bv_get b i \<noteq> bv_get R i)" using c g by simp
qed

section \<open>Shifts\<close>

lemma bit_maskTrailingOnes: "N \<le> 64 \<Longrightarrow> bit (maskTrailingOnes N :: u64) j \<longleftrightarrow> j < N"
  unfolding maskTrailingOnes_def by (auto simp: bit_mask_iff)

lemma bit_maskLeadingOnes: "N \<le> 64 \<Longrightarrow> bit (maskLeadingOnes N :: u64) j \<longleftrightarrow> 64 - N \<le> j \<and> j < 64"
  using bit_maskTrailingOnes [of "64 - N" j] by (auto simp: maskLeadingOnes_def bit_not_iff)

lemma bit_maskTrailingZeros: "N \<le> 64 \<Longrightarrow> bit (maskTrailingZeros N :: u64) j \<longleftrightarrow> N \<le> j \<and> j < 64"
  using bit_maskLeadingOnes [of "64 - N" j] by (simp add: maskTrailingZeros_def)

lemma fold_forward_nth:
  "m < length ws \<Longrightarrow> fold (\<lambda>I ws. ws[I := f (ws ! I) (ws ! (I + 1))]) [0..<m] ws ! k =
    (if k < m then f (ws ! k) (ws ! (k + 1)) else ws ! k)"
proof (induction m arbitrary: k)
  case (Suc m)
  then show ?case
    by (auto simp: nth_list_update less_Suc_eq length_fold_update [of "\<lambda>I ws. f (ws ! I) (ws ! (I + 1))", simplified])
qed simp

lemma fold_backward_nth:
  "n \<le> length ws \<Longrightarrow> fold (\<lambda>I ws. ws[I := f (ws ! I) (ws ! (I - 1))]) (rev [1..<n]) ws ! k =
    (if 1 \<le> k \<and> k < n then f (ws ! k) (ws ! (k - 1)) else ws ! k)"
proof (induction n arbitrary: ws)
  case (Suc n)
  show ?case
  proof (cases "n = 0")
    case False
    then have "rev [1..<Suc n] = n # rev [1..<n]" by simp
    then show ?thesis using Suc.IH [of "ws[n := f (ws ! n) (ws ! (n - 1))]"] Suc.prems False
      by (auto simp: nth_list_update)
  qed auto
qed simp

lemma wordShr_result:
  assumes ok: "bv_ok b" and C: "C \<le> NumBitWords (Size b)"
  shows "result_is (wordShr C b) (Size b) (\<lambda>i. bv_get b (i + 64 * C))"
    "length (Bits (wordShr C b)) = length (Bits b)"
proof -
  let ?U = "NumBitWords (Size b)"
  note B = bv_ok_D [OF ok]
  show "result_is (wordShr C b) (Size b) (\<lambda>i. bv_get b (i + 64 * C))"
  proof (cases "C = 0")
    case True
    then show ?thesis using ok by (simp add: wordShr_def result_is_def)
  next
    case False
    show ?thesis
    proof (rule result_isI)
      fix i
      assume i: "i < 64 * ?U"
      have "wbit (drop C (take ?U (Bits b)) @ replicate C 0 @ drop ?U (Bits b)) i \<longleftrightarrow>
          i < 64 * (?U - C) \<and> bv_get b (i + 64 * C)"
      proof (cases "i < 64 * (?U - C)")
        case True
        then have "i + 64 * C < 64 * ?U" using C by simp
        then show ?thesis using True B(2) C B(3) [of "i + 64 * C"]
          by (simp add: wbit_append wbit_drop wbit_take min_def)
      next
        case False
        then have "i - 64 * (?U - C) < 64 * C" using i C by simp
        then show ?thesis using False B(2) C by (simp add: wbit_append min_def) (simp add: wbit_def below_words)
      qed
      moreover have "i < 64 * (?U - C)" "i < Size b" if "bv_get b (i + 64 * C)"
      proof -
        have "i + 64 * C < Size b" using bv_get_less that by blast
        then show "i < Size b" "i < 64 * (?U - C)"
          using NumBitWords_covers [of "i + 64 * C" "Size b"] B(1) unfolding below_words [symmetric] by simp_all
      qed
      ultimately show "wbit (Bits (wordShr C b)) i \<longleftrightarrow> i < Size b \<and> bv_get b (i + 64 * C)"
        using False by (auto simp: wordShr_def Let_def)
    qed (use B C in \<open>auto simp: wordShr_def Let_def\<close>)
  qed
  show "length (Bits (wordShr C b)) = length (Bits b)" using B C by (auto simp: wordShr_def Let_def)
qed

lemma wordShl_result:
  assumes ok: "bv_ok b" and C: "C \<le> NumBitWords (Size b)"
  shows "result_is (wordShl C b) (Size b) (\<lambda>i. 64 * C \<le> i \<and> bv_get b (i - 64 * C))"
    "length (Bits (wordShl C b)) = length (Bits b)"
proof -
  let ?U = "NumBitWords (Size b)"
  note B = bv_ok_D [OF ok]
  let ?c = "b\<lparr>Bits := replicate C 0 @ take (?U - C) (take ?U (Bits b)) @ drop ?U (Bits b)\<rparr>"
  have l: "length (Bits ?c) = length (Bits b)" using B C by simp
  show "length (Bits (wordShl C b)) = length (Bits b)"
    using clear_unused_bits_ok(3) [of ?c] B l by (auto simp: wordShl_def Let_def)
  show "result_is (wordShl C b) (Size b) (\<lambda>i. 64 * C \<le> i \<and> bv_get b (i - 64 * C))"
  proof (cases "C = 0")
    case True
    then show ?thesis using ok by (simp add: wordShl_def result_is_def)
  next
    case False
    have "result_is (clear_unused_bits ?c) (Size b) (\<lambda>i. 64 * C \<le> i \<and> bv_get b (i - 64 * C))"
    proof (rule result_is_clear)
      fix i
      assume i: "i < Size b"
      then have u: "i < 64 * ?U" using NumBitWords_covers [OF i B(1)] by (simp add: below_words)
      show "wbit (Bits ?c) i \<longleftrightarrow> 64 * C \<le> i \<and> bv_get b (i - 64 * C)"
      proof (cases "i < 64 * C")
        case True
        then show ?thesis by (simp add: wbit_append) (simp add: wbit_def below_words)
      next
        case False
        then have "i - 64 * C < 64 * (?U - C)" "i - 64 * C < 64 * ?U" using u by simp_all
        then show ?thesis using False B(2) B(3) [of "i - 64 * C"] by (simp add: wbit_append wbit_take min_def)
      qed
    qed (use B l in auto)
    then show ?thesis using False by (simp add: wordShl_def Let_def)
  qed
qed

lemma mod64_less: "i mod 64 < 64" for i :: nat
  by simp

text \<open>The carry between the words, by less than a word.\<close>

lemma index_plus:
  assumes "(d :: nat) < 64"
  shows "(i + d) div 64 = (if i mod 64 + d < 64 then i div 64 else i div 64 + 1)"
    "(i + d) mod 64 = (if i mod 64 + d < 64 then i mod 64 + d else i mod 64 + d - 64)"
proof -
  have i: "i + d = 64 * (i div 64) + (i mod 64 + d)" by simp
  show "(i + d) div 64 = (if i mod 64 + d < 64 then i div 64 else i div 64 + 1)"
  proof (cases "i mod 64 + d < 64")
    case False
    have "i + d = 64 * (i div 64 + 1) + (i mod 64 + d - 64)" "i mod 64 + d - 64 < 64"
      using i False assms by (auto simp: less_diff_conv2)
    then show ?thesis using False by (metis add.right_neutral div_less div_mult_self4 zero_neq_numeral)
  qed (use i in \<open>metis add.right_neutral div_less div_mult_self4 zero_neq_numeral\<close>)
  show "(i + d) mod 64 = (if i mod 64 + d < 64 then i mod 64 + d else i mod 64 + d - 64)"
  proof (cases "i mod 64 + d < 64")
    case False
    have "i + d = 64 * (i div 64 + 1) + (i mod 64 + d - 64)" "i mod 64 + d - 64 < 64"
      using i False assms by (auto simp: less_diff_conv2)
    then show ?thesis using False by (metis mod_less mod_mult_self4)
  qed (use i in \<open>metis mod_less mod_mult_self4\<close>)
qed

lemma shift_right_bits:
  assumes ok: "bv_ok b" and d: "0 < d" "d < 64" and n: "Size b \<noteq> 0"
    and e: "ws = fold (\<lambda>I ws. ws[I := drop_bit d (ws ! I) OR push_bit (64 - d) (ws ! (I + 1) AND maskTrailingOnes d)])
      [0..<NumBitWords (Size b) - 1] (Bits b)"
  shows "result_is (b\<lparr>Bits := ws[NumBitWords (Size b) - 1 := drop_bit d (ws ! (NumBitWords (Size b) - 1))]\<rparr>)
    (Size b) (\<lambda>i. bv_get b (i + d))"
proof (rule result_isI)
  let ?U = "NumBitWords (Size b)"
  let ?c = "b\<lparr>Bits := ws[?U - 1 := drop_bit d (ws ! (?U - 1))]\<rparr>"
  note B = bv_ok_D [OF ok]
  have U: "0 < ?U" using n NumBitWords_covers [of 0 "Size b"] B(1) by simp
  have l: "length ws = length (Bits b)" unfolding e by (rule length_fold_update)
  show "?U \<le> length (Bits ?c)" using B(2) l by simp
  fix i
  assume "i < 64 * ?U"
  then have k: "i div 64 < ?U" by (simp add: below_words)
  let ?f = "\<lambda>x y. drop_bit d x OR push_bit (64 - d) (y AND maskTrailingOnes d) :: u64"
  have w: "ws ! m = (if m < ?U - 1 then ?f (Bits b ! m) (Bits b ! (m + 1)) else Bits b ! m)" for m
    unfolding e using U B(2) by (intro fold_forward_nth [where f = ?f]) simp
  have f: "bit (?f x y) j \<longleftrightarrow> (if j + d < 64 then bit x (j + d) else bit y (j + d - 64))" if "j < 64" for x y j
    using that d bit64_bound [of x "j + d"]
    by (auto simp: bit_or_iff bit_drop_bit_eq bit_push_bit_iff bit_and_iff bit_maskTrailingOnes add.commute)
  have "wbit (Bits ?c) i \<longleftrightarrow> (i + d) div 64 < ?U \<and> wbit (Bits b) (i + d)"
  proof (cases "i div 64 = ?U - 1")
    case True
    then have "wbit (Bits ?c) i \<longleftrightarrow> bit (Bits b ! (i div 64)) (i mod 64 + d)"
      using l U B(2) by (simp add: wbit_def w bit_drop_bit_eq add.commute)
    then show ?thesis
      using True U bit64_bound [of "Bits b ! (i div 64)" "i mod 64 + d"]
      by (auto simp: wbit_def index_plus [OF d(2)])
  next
    case False
    then have m: "i div 64 < ?U - 1" using k by simp
    then have "wbit (Bits ?c) i \<longleftrightarrow> bit (?f (Bits b ! (i div 64)) (Bits b ! (i div 64 + 1))) (i mod 64)"
      by (simp add: wbit_def w)
    also have "\<dots> \<longleftrightarrow> wbit (Bits b) (i + d)"
      unfolding f [OF mod64_less] by (simp add: wbit_def index_plus [OF d(2)])
    finally show ?thesis using m by (auto simp: index_plus [OF d(2)])
  qed
  also have "\<dots> \<longleftrightarrow> bv_get b (i + d)"
    using B(3) [of "i + d"] no_bits_after [OF ok, of "i + d"]
    by (cases "(i + d) div 64 < ?U") (auto simp: below_words)
  finally show "wbit (Bits ?c) i \<longleftrightarrow> i < Size b \<and> bv_get b (i + d)" using bv_get_less [of b "i + d"] by auto
qed (use bv_ok_D [OF ok] in simp_all)

lemma shift_amount: "N \<le> Size b \<Longrightarrow> bv_ok b \<Longrightarrow> N div 64 \<le> NumBitWords (Size b)"
proof -
  assume "N \<le> Size b" "bv_ok b"
  then have "N div 64 \<le> (Size b + 63) div 64" by (intro div_le_mono) simp
  then show ?thesis using bv_ok_D(1) [OF \<open>bv_ok b\<close>] by (simp add: NumBitWords_eq)
qed

lemma shift_right_result:
  assumes ok: "bv_ok b" and N: "N \<le> Size b"
  shows "\<exists>b'. shift_right N b = Some b' \<and> result_is b' (Size b) (\<lambda>i. bv_get b (i + N))"
proof (cases "Size b = 0 \<or> N = 0")
  case True
  then have "N = 0" using N by auto
  then show ?thesis using ok by (simp add: shift_right_def result_is_def)
next
  case False
  define c where "c = wordShr (N div 64) b"
  note w = wordShr_result [OF ok shift_amount [OF N ok]]
  have c: "bv_ok c" "Size c = Size b" using w(1) by (simp_all add: c_def result_is_def)
  have g: "bv_get c i \<longleftrightarrow> bv_get b (i + 64 * (N div 64))" for i
  proof -
    have "bv_get c i \<longleftrightarrow> i < Size b \<and> bv_get b (i + 64 * (N div 64))"
      unfolding c_def by (rule result_get [OF w(1)])
    moreover have "i < Size b" if "bv_get b (i + 64 * (N div 64))" using bv_get_less [OF that] by linarith
    ultimately show ?thesis by blast
  qed
  show ?thesis
  proof (cases "N mod 64 = 0")
    case True
    then have "64 * (N div 64) = N" using mult_div_mod_eq [of 64 N] by linarith
    then show ?thesis using False True N w(1) by (simp add: shift_right_def bv_empty_def)
  next
    case d: False
    let ?d = "N mod 64"
    have "i + ?d + 64 * (N div 64) = i + N" for i by simp
    then have "(\<lambda>i. bv_get c (i + ?d)) = (\<lambda>i. bv_get b (i + N))" by (simp only: g)
    then show ?thesis
      using shift_right_bits [OF c(1), of ?d, OF _ _ _ refl] d False N c(2)
      by (simp add: shift_right_def bv_empty_def Let_def flip: c_def)
  qed
qed

lemma index_minus:
  assumes "(d :: nat) < 64"
  shows "d \<le> i \<Longrightarrow> (i - d) div 64 = (if d \<le> i mod 64 then i div 64 else i div 64 - 1)"
    "d \<le> i \<Longrightarrow> (i - d) mod 64 = (if d \<le> i mod 64 then i mod 64 - d else i mod 64 + 64 - d)"
    "d \<le> i \<longleftrightarrow> d \<le> i mod 64 \<or> 1 \<le> i div 64"
proof -
  have i: "i = 64 * (i div 64) + i mod 64" "i mod 64 < 64" by simp_all
  show q: "d \<le> i \<longleftrightarrow> d \<le> i mod 64 \<or> 1 \<le> i div 64" using i assms by linarith
  assume "d \<le> i"
  then obtain j where j: "i = j + d" by (metis le_add_diff_inverse2)
  have m: "i mod 64 = (if j mod 64 + d < 64 then j mod 64 + d else j mod 64 + d - 64)"
    "i div 64 = (if j mod 64 + d < 64 then j div 64 else j div 64 + 1)"
    unfolding j by (rule index_plus [OF assms])+
  have jm: "j mod 64 < 64" by simp
  show "(i - d) div 64 = (if d \<le> i mod 64 then i div 64 else i div 64 - 1)"
    "(i - d) mod 64 = (if d \<le> i mod 64 then i mod 64 - d else i mod 64 + 64 - d)"
    using m jm assms by (auto simp: j split: if_splits)
qed

lemma shift_left_bits:
  assumes ok: "bv_ok b" and d: "0 < d" "d < 64" and n: "Size b \<noteq> 0"
    and e: "ws = fold (\<lambda>I ws. ws[I := push_bit d (ws ! I) OR drop_bit (64 - d) (ws ! (I - 1) AND maskLeadingOnes d)])
      (rev [1..<NumBitWords (Size b)]) (Bits b)"
  shows "result_is (clear_unused_bits (b\<lparr>Bits := ws[0 := push_bit d (ws ! 0)]\<rparr>)) (Size b) (\<lambda>i. d \<le> i \<and> bv_get b (i - d))"
proof (rule result_is_clear)
  let ?U = "NumBitWords (Size b)"
  let ?c = "b\<lparr>Bits := ws[0 := push_bit d (ws ! 0)]\<rparr>"
  note B = bv_ok_D [OF ok]
  have U: "0 < ?U" using n NumBitWords_covers [of 0 "Size b"] B(1) by simp
  have l: "length ws = length (Bits b)" unfolding e by (rule length_fold_update)
  show "?U \<le> length (Bits ?c)" using B(2) l by simp
  fix i
  assume i: "i < Size b"
  then have k: "i div 64 < ?U" "i div 64 < length (Bits b)" using bv_ok_covers [OF ok i] by simp_all
  let ?f = "\<lambda>x y. push_bit d x OR drop_bit (64 - d) (y AND maskLeadingOnes d) :: u64"
  have w: "ws ! m = (if 1 \<le> m \<and> m < ?U then ?f (Bits b ! m) (Bits b ! (m - 1)) else Bits b ! m)" for m
    unfolding e using B(2) by (intro fold_backward_nth [where f = ?f]) simp
  have f: "bit (?f x y) j \<longleftrightarrow> (if d \<le> j then bit x (j - d) else bit y (j + 64 - d))" if "j < 64" for x y j
    using that d bit64_bound [of y "j + 64 - d"]
    by (auto simp: bit_or_iff bit_drop_bit_eq bit_push_bit_iff bit_and_iff bit_maskLeadingOnes add.commute)
  have "wbit (Bits ?c) i \<longleftrightarrow> d \<le> i \<and> wbit (Bits b) (i - d)"
  proof (cases "i div 64 = 0")
    case True
    then have "wbit (Bits ?c) i \<longleftrightarrow> d \<le> i mod 64 \<and> bit (Bits b ! 0) (i mod 64 - d)"
      using l k(2) by (auto simp: wbit_def w bit_push_bit_iff)
    moreover have "(i - d) div 64 = 0" "(i - d) mod 64 = i - d" "i mod 64 = i"
      using True by (simp_all add: div_eq_0_iff less_imp_diff_less)
    ultimately show ?thesis by (simp add: wbit_def)
  next
    case False
    then have "wbit (Bits ?c) i \<longleftrightarrow> bit (?f (Bits b ! (i div 64)) (Bits b ! (i div 64 - 1))) (i mod 64)"
      using k by (simp add: wbit_def w)
    also have "\<dots> \<longleftrightarrow> wbit (Bits b) (i - d)"
      unfolding f [OF mod64_less]
      using False index_minus [OF d(2), of i] by (simp add: wbit_def)
    finally show ?thesis using False index_minus(3) [OF d(2), of i] by simp
  qed
  then show "wbit (Bits ?c) i \<longleftrightarrow> d \<le> i \<and> bv_get b (i - d)"
    using i by (auto simp: bv_get_def)
qed (use bv_ok_D [OF ok] in simp_all)

lemma shift_left_result:
  assumes ok: "bv_ok b" and N: "N \<le> Size b"
  shows "\<exists>b'. shift_left N b = Some b' \<and> result_is b' (Size b) (\<lambda>i. N \<le> i \<and> bv_get b (i - N))"
proof (cases "Size b = 0 \<or> N = 0")
  case True
  then have "N = 0" using N by auto
  then show ?thesis using ok by (simp add: shift_left_def result_is_def)
next
  case False
  define c where "c = wordShl (N div 64) b"
  note w = wordShl_result [OF ok shift_amount [OF N ok]]
  have c: "bv_ok c" "Size c = Size b" using w(1) by (simp_all add: c_def result_is_def)
  have g: "bv_get c i \<longleftrightarrow> i < Size b \<and> 64 * (N div 64) \<le> i \<and> bv_get b (i - 64 * (N div 64))" for i
    unfolding c_def by (rule result_get [OF w(1)])
  show ?thesis
  proof (cases "N mod 64 = 0")
    case True
    then have "64 * (N div 64) = N" using mult_div_mod_eq [of 64 N] by linarith
    then show ?thesis using False True N w(1) by (simp add: shift_left_def bv_empty_def)
  next
    case d: False
    let ?d = "N mod 64"
    have "result_is (clear_unused_bits (c\<lparr>Bits := (fold (\<lambda>I ws. ws[I := push_bit ?d (ws ! I) OR
        drop_bit (64 - ?d) (ws ! (I - 1) AND maskLeadingOnes ?d)]) (rev [1..<NumBitWords (Size c)]) (Bits c))
        [0 := push_bit ?d (fold (\<lambda>I ws. ws[I := push_bit ?d (ws ! I) OR
        drop_bit (64 - ?d) (ws ! (I - 1) AND maskLeadingOnes ?d)]) (rev [1..<NumBitWords (Size c)]) (Bits c) ! 0)]\<rparr>))
        (Size c) (\<lambda>i. ?d \<le> i \<and> bv_get c (i - ?d))"
      using d False c by (intro shift_left_bits [OF c(1) _ _ _ refl]) simp_all
    moreover have "?d \<le> i \<and> bv_get c (i - ?d) \<longleftrightarrow> N \<le> i \<and> bv_get b (i - N)" if "i < Size b" for i
    proof -
      have "i - ?d - 64 * (N div 64) = i - N" by simp
      moreover have "?d \<le> i \<and> 64 * (N div 64) \<le> i - ?d \<longleftrightarrow> N \<le> i" using div_mult_mod_eq [of N 64] by linarith
      ultimately show ?thesis using that by (auto simp: g)
    qed
    ultimately show ?thesis using d False N c(2)
      by (simp add: shift_left_def bv_empty_def Let_def result_is_def flip: c_def)
  qed
qed

section \<open>Portable masks\<close>

text \<open>Bit \<open>i\<close> of a mask of 32-bit words, after the inversion.\<close>

definition mask_bit :: "bool \<Rightarrow> u32 list \<Rightarrow> nat \<Rightarrow> bool" where
  "mask_bit ivt M i = (i div 32 < length M \<and> bit (M ! (i div 32)) (i mod 32) \<noteq> ivt)"

lemma bit32_bound: "bit (w :: u32) n \<Longrightarrow> n < 32"
  using bit_imp_le_length [of w n] by simp

lemma bit_mask_word:
  "s \<le> 32 \<Longrightarrow> bit (mask_word add ivt s M BW) j \<longleftrightarrow>
    (let m = s \<le> j \<and> j < s + 32 \<and> bit M (j - s) \<noteq> ivt
     in if add then bit BW j \<or> m else bit BW j \<and> \<not> m)"
  using bit64_bound [of BW j]
  by (auto simp: mask_word_def Let_def bit_or_iff bit_and_iff bit_not_iff bit_push_bit_iff bit_unsigned_iff
      dest: bit32_bound)

lemma div_mod_32: "i = 32 * q + r \<Longrightarrow> r < 32 \<Longrightarrow> i div 32 = q \<and> i mod 32 = r" for i :: nat
  by simp

lemma index_64_32: "(i :: nat) div 32 = 2 * (i div 64) + (if i mod 64 < 32 then 0 else 1)"
  "(i :: nat) mod 32 = (if i mod 64 < 32 then i mod 64 else i mod 64 - 32)"
proof -
  have i: "i = 64 * (i div 64) + i mod 64" "i mod 64 < 64" by simp_all
  have "i div 32 = 2 * (i div 64) + (if i mod 64 < 32 then 0 else 1)
    \<and> i mod 32 = (if i mod 64 < 32 then i mod 64 else i mod 64 - 32)"
  proof (cases "i mod 64 < 32")
    case True
    have "i = 32 * (2 * (i div 64)) + i mod 64" using i by linarith
    from div_mod_32 [OF this True] show ?thesis using True by simp
  next
    case False
    obtain q m where q: "i div 64 = q" "i mod 64 = m" "i = 64 * q + m" "m < 64" using i by blast
    have "i = 32 * (2 * (i div 64) + 1) + (i mod 64 - 32)" "i mod 64 - 32 < 32"
      using False q(3,4) unfolding q(1,2) by simp_all
    from div_mod_32 [OF this] show ?thesis using False by simp
  qed
  then show "i div 32 = 2 * (i div 64) + (if i mod 64 < 32 then 0 else 1)"
    "i mod 32 = (if i mod 64 < 32 then i mod 64 else i mod 64 - 32)" by blast+
qed

lemma mask_words_bits:
  "k0 + (length M + 1) div 2 \<le> length ws \<Longrightarrow>
    length (mask_words add ivt M k0 ws) = length ws \<and>
    wbit (mask_words add ivt M k0 ws) i =
      (if add then wbit ws i \<or> 64 * k0 \<le> i \<and> mask_bit ivt M (i - 64 * k0)
       else wbit ws i \<and> \<not> (64 * k0 \<le> i \<and> mask_bit ivt M (i - 64 * k0)))"
proof (induction add ivt M k0 ws rule: mask_words.induct)
  case (1 add ivt M0 M1 Ms k0 ws)
  define v where "v = mask_word add ivt 32 M1 (mask_word add ivt 0 M0 (ws ! k0))"
  have k: "k0 < length ws" using "1.prems" by simp
  have ih: "length (mask_words add ivt Ms (k0 + 1) (ws[k0 := v])) = length ws \<and>
    wbit (mask_words add ivt Ms (k0 + 1) (ws[k0 := v])) i =
      (if add then wbit (ws[k0 := v]) i \<or> 64 * (k0 + 1) \<le> i \<and> mask_bit ivt Ms (i - 64 * (k0 + 1))
       else wbit (ws[k0 := v]) i \<and> \<not> (64 * (k0 + 1) \<le> i \<and> mask_bit ivt Ms (i - 64 * (k0 + 1))))"
    using "1.IH" "1.prems" by (simp add: v_def)
  have s: "mask_words add ivt (M0 # M1 # Ms) k0 ws = mask_words add ivt Ms (k0 + 1) (ws[k0 := v])" by (simp add: v_def)
  have w: "wbit (ws[k0 := v]) i = (if i div 64 = k0 then bit v (i mod 64) else wbit ws i)"
    using k by (rule wbit_update)
  have b: "bit v j \<longleftrightarrow> (let m = (if j < 32 then bit M0 j \<noteq> ivt else bit M1 (j - 32) \<noteq> ivt)
      in if add then bit (ws ! k0) j \<or> m else bit (ws ! k0) j \<and> \<not> m)" if "j < 64" for j
    using that by (auto simp: v_def bit_mask_word Let_def)
  have "i < 64 * k0 \<or> i div 64 = k0 \<or> 64 * (k0 + 1) \<le> i"
    using below_words [of i k0] below_words [of i "k0 + 1"] by linarith
  then consider "i < 64 * k0" | "i div 64 = k0" | "64 * (k0 + 1) \<le> i" by blast
  then show ?case
  proof cases
    case 1
    then have "i div 64 \<noteq> k0" by (auto simp: below_words)
    then show ?thesis unfolding s using ih w 1 by simp
  next
    case 2
    have i: "i - 64 * k0 = i mod 64" "64 * k0 \<le> i" "\<not> 64 * (k0 + 1) \<le> i"
      using 2 below_words [of i k0] below_words [of i "k0 + 1"] minus_mult_div_eq_mod [of i 64] by auto
    have m: "mask_bit ivt (M0 # M1 # Ms) (i mod 64) \<longleftrightarrow>
        (if i mod 64 < 32 then bit M0 (i mod 64) \<noteq> ivt else bit M1 (i mod 64 - 32) \<noteq> ivt)"
      unfolding mask_bit_def index_64_32 [of "i mod 64"] by simp
    have r: "wbit (mask_words add ivt Ms (k0 + 1) (ws[k0 := v])) i \<longleftrightarrow> bit v (i mod 64)" using ih i(3) w 2 by simp
    have q: "bit (ws ! k0) (i mod 64) = wbit ws i" using 2 by (simp add: wbit_def)
    show ?thesis unfolding s r b [OF mod64_less] q i(1) m Let_def using ih i(2) by auto
  next
    case 3
    then have "i div 64 \<noteq> k0" using below_words [of i "k0 + 1"] by auto
    moreover have "mask_bit ivt (M0 # M1 # Ms) (i - 64 * k0) \<longleftrightarrow> mask_bit ivt Ms (i - 64 * (k0 + 1))"
    proof -
      obtain j where j: "i - 64 * (k0 + 1) = j" "i - 64 * k0 = j + 2 * 32" using 3 by auto
      have "(j + 2 * 32) div 32 = Suc (Suc (j div 32))" "(j + 2 * 32) mod 32 = j mod 32"
        using div_mult_self1 [of 32 j 2] mod_mult_self1 [of j 2 32] by simp_all
      then show ?thesis unfolding j mask_bit_def by simp
    qed
    ultimately show ?thesis unfolding s using ih w 3 by simp
  qed
next
  case (2 add ivt M k0 ws)
  have k: "k0 < length ws" using "2.prems" by simp
  show ?case
  proof (cases "i div 64 = k0")
    case True
    have i: "i - 64 * k0 = i mod 64" "64 * k0 \<le> i"
      using True div_mult_mod_eq [of i 64] mod64_less [of i] by linarith+
    have m: "mask_bit ivt [M] (i mod 64) \<longleftrightarrow> i mod 64 < 32 \<and> bit M (i mod 64) \<noteq> ivt"
      unfolding mask_bit_def index_64_32 [of "i mod 64"] by auto
    show ?thesis using k True i m by (auto simp: wbit_update bit_mask_word Let_def wbit_def)
  next
    case False
    have "\<not> (64 * k0 \<le> i \<and> mask_bit ivt [M] (i - 64 * k0))"
    proof
      assume a: "64 * k0 \<le> i \<and> mask_bit ivt [M] (i - 64 * k0)"
      then have "i - 64 * k0 < 32" by (simp add: mask_bit_def div_eq_0_iff)
      then have "i < 64 * (k0 + 1)" using a [THEN conjunct1] by (simp add: less_diff_conv2)
      then show False using a False below_words [of i k0] below_words [of i "k0 + 1"] by auto
    qed
    then show ?thesis using k False by (auto simp: wbit_update)
  qed
qed (simp add: mask_bit_def)

text \<open>Bits of the mask beyond the vector are ignored, and so are words beyond \<open>MaskWords\<close>.\<close>

lemma applyMask_result:
  assumes ok: "bv_ok b" and n: "min MaskWords ((Size b + 31) div 32) \<le> length M"
  shows "\<exists>b'. applyMask add ivt M MaskWords b = Some b' \<and> result_is b' (Size b) (\<lambda>i.
    if add then bv_get b i \<or> mask_bit ivt (take MaskWords M) i else bv_get b i \<and> \<not> mask_bit ivt (take MaskWords M) i)"
proof -
  note B = bv_ok_D [OF ok]
  let ?U = "NumBitWords (Size b)"
  define W where "W = min MaskWords ((Size b + 31) div 32)"
  define c where "c = b\<lparr>Bits := mask_words add ivt (take W M) 0 (Bits b)\<rparr>"
  have a: "applyMask add ivt M MaskWords b = Some (if add then clear_unused_bits c else c)"
    using B(1) n by (simp add: applyMask_def bv_size_def W_def c_def Let_def not_less min_le_iff_disj)
  have "(Size b + 31) div 32 \<le> 2 * ?U" unfolding NumBitWords_eq [OF B(1)] by linarith
  then have "W \<le> 2 * ?U" by (simp add: W_def)
  then have f: "0 + (length (take W M) + 1) div 2 \<le> length (Bits b)" using B(2) by simp
  note m = mask_words_bits [OF f, of add ivt]
  have t: "mask_bit ivt (take W M) i = mask_bit ivt (take MaskWords M) i" if "i < Size b" for i
  proof -
    have "i div 32 < (Size b + 31) div 32"
    proof -
      have "i div 32 + 1 \<le> (i + 32) div 32" by simp
      also have "\<dots> \<le> (Size b + 31) div 32" using that by (intro div_le_mono) simp
      finally show ?thesis by simp
    qed
    then show ?thesis by (auto simp: mask_bit_def W_def)
  qed
  have w: "wbit (Bits c) i = (if add then wbit (Bits b) i \<or> mask_bit ivt (take W M) i
      else wbit (Bits b) i \<and> \<not> mask_bit ivt (take W M) i)" for i
    using m by (simp add: c_def)
  have l: "length (Bits c) = length (Bits b)" using m by (simp add: c_def)
  have "result_is (if add then clear_unused_bits c else c) (Size b) (\<lambda>i.
    if add then bv_get b i \<or> mask_bit ivt (take MaskWords M) i else bv_get b i \<and> \<not> mask_bit ivt (take MaskWords M) i)"
  proof (cases add)
    case True
    have "result_is (clear_unused_bits c) (Size b) (\<lambda>i. bv_get b i \<or> mask_bit ivt (take MaskWords M) i)"
      using B w t l True by (intro result_is_clear) (simp_all add: c_def)
    then show ?thesis using True by simp
  next
    case False
    have "result_is c (Size b) (\<lambda>i. bv_get b i \<and> \<not> mask_bit ivt (take MaskWords M) i)"
      using B w t l False bv_get_less [of b] by (intro result_isI) (auto simp: c_def)
    then show ?thesis using False by simp
  qed
  then show ?thesis using a by blast
qed

end
