(* ===== verification/LL_BV_Queries.thy ===== *)
theory LL_BV_Queries imports LL_BV_Pairs begin

text \<open>
  What the queries of \<open>BitVector\<close> answer: counting, the tests of one and of two vectors, the four
  searches in a range, and the iteration over the bits that are set.
\<close>

section \<open>Counting and testing\<close>

lemma words_used: "bv_ok b \<Longrightarrow> k < NumBitWords (Size b) \<Longrightarrow> bit (Bits b ! k) j \<longleftrightarrow> j < 64 \<and> bv_get b (64 * k + j)"
  using word_bits [of b "64 * k + j"] bit64_bound [of "Bits b ! k" j] by (cases "j < 64") auto

lemma word_nonzero: "w \<noteq> 0 \<longleftrightarrow> (\<exists>j. bit (w :: u64) j)"
  by (metis bit_0_eq bit_eqI bot_apply bot_bool_def)

text \<open>A loop over words that looks for one with a bit.\<close>

lemma list_ex_words:
  assumes f: "\<And>k j. n \<le> k \<Longrightarrow> k < m \<Longrightarrow> j < 64 \<Longrightarrow> bit (f k :: u64) j \<longleftrightarrow> P (64 * k + j)"
  shows "list_ex (\<lambda>k. f k \<noteq> 0) [n..<m] \<longleftrightarrow> (\<exists>i. 64 * n \<le> i \<and> i < 64 * m \<and> P i)"
proof
  assume "list_ex (\<lambda>k. f k \<noteq> 0) [n..<m]"
  then obtain k j where k: "n \<le> k" "k < m" "bit (f k) j" by (auto simp: list_ex_iff word_nonzero)
  then have "j < 64" "P (64 * k + j)" using f [of k j] bit64_bound by blast+
  then show "\<exists>i. 64 * n \<le> i \<and> i < 64 * m \<and> P i" using k by (intro exI [of _ "64 * k + j"]) simp
next
  assume "\<exists>i. 64 * n \<le> i \<and> i < 64 * m \<and> P i"
  then obtain i where i: "64 * n \<le> i" "i < 64 * m" "P i" by blast
  have k: "n \<le> i div 64" "i div 64 < m" using i below_words [of i n] below_words [of i m] by auto
  have "bit (f (i div 64)) (i mod 64)" using f [OF k mod64_less] i(3) by simp
  then have "f (i div 64) \<noteq> 0" unfolding word_nonzero by blast
  then show "list_ex (\<lambda>k. f k \<noteq> 0) [n..<m]" using k by (auto simp: list_ex_iff)
qed

lemma get_used: "bv_ok b \<Longrightarrow> bv_get b i \<Longrightarrow> i < 64 * NumBitWords (Size b)"
  using bv_ok_covers [of b i] bv_get_less [of b i] by (simp add: below_words)

lemma list_ex_bits:
  assumes ok: "bv_ok b"
  shows "list_ex (\<lambda>k. Bits b ! k \<noteq> 0) [n..<NumBitWords (Size b)] \<longleftrightarrow> (\<exists>i. 64 * n \<le> i \<and> bv_get b i)"
  using list_ex_words [of n "NumBitWords (Size b)" "\<lambda>k. Bits b ! k" "bv_get b"] words_used [OF ok] get_used [OF ok]
  by auto

lemma bv_any_iff: "bv_ok b \<Longrightarrow> bv_any b \<longleftrightarrow> (\<exists>i. bv_get b i)"
  using list_ex_bits [of b 0] by (simp add: bv_any_def bv_size_def)

lemma list_ex_pair:
  assumes ok: "bv_ok b" "bv_ok R"
    and g: "\<And>x y j. j < 64 \<Longrightarrow> bit (g x y :: u64) j \<longleftrightarrow> op (bit (x :: u64) j) (bit (y :: u64) j)"
  shows "list_ex (\<lambda>k. g (Bits b ! k) (Bits R ! k) \<noteq> 0) [0..<min (NumBitWords (Size b)) (NumBitWords (Size R))] \<longleftrightarrow>
    (\<exists>i < 64 * min (NumBitWords (Size b)) (NumBitWords (Size R)). op (bv_get b i) (bv_get R i))"
proof -
  let ?m = "min (NumBitWords (Size b)) (NumBitWords (Size R))"
  have "list_ex (\<lambda>k. g (Bits b ! k) (Bits R ! k) \<noteq> 0) [0..<?m] \<longleftrightarrow>
      (\<exists>i. 64 * 0 \<le> i \<and> i < 64 * ?m \<and> op (bv_get b i) (bv_get R i))"
    by (rule list_ex_words [where P = "\<lambda>i. op (bv_get b i) (bv_get R i)" and f = "\<lambda>k. g (Bits b ! k) (Bits R ! k)"])
      (simp add: g words_used [OF ok(1)] words_used [OF ok(2)])
  then show ?thesis by simp
qed

lemma used_min: "bv_ok b \<Longrightarrow> bv_ok R \<Longrightarrow> bv_get b i \<Longrightarrow> bv_get R i \<Longrightarrow>
    i < 64 * min (NumBitWords (Size b)) (NumBitWords (Size R))"
  using get_used [of b i] get_used [of R i] by (simp add: min_def)

lemma anyCommon_iff:
  assumes ok: "bv_ok b" "bv_ok R"
  shows "anyCommon b R \<longleftrightarrow> (\<exists>i. bv_get b i \<and> bv_get R i)"
  using list_ex_pair [OF ok, of "(AND)" "(\<and>)"] used_min [OF ok]
  by (auto simp: anyCommon_def bv_size_def Let_def bit_and_iff)

lemma beyond_min:
  assumes ok: "bv_ok b" "bv_ok R" and i: "64 * min (NumBitWords (Size b)) (NumBitWords (Size R)) \<le> i"
  shows "\<not> (bv_get b i \<and> bv_get R i)"
  using used_min [OF ok, of i] i by auto

lemma test_against_iff:
  assumes ok: "bv_ok b" "bv_ok R"
  shows "test_against b R \<longleftrightarrow> (\<exists>i. bv_get b i \<and> \<not> bv_get R i)"
proof -
  let ?m = "min (NumBitWords (Size b)) (NumBitWords (Size R))"
  have p: "list_ex (\<lambda>k. Bits b ! k AND NOT (Bits R ! k) \<noteq> 0) [0..<?m] \<longleftrightarrow> (\<exists>i < 64 * ?m. bv_get b i \<and> \<not> bv_get R i)"
    by (rule list_ex_pair [OF ok, of "\<lambda>x y. x AND NOT y"]) (simp add: bit_and_iff bit_not_iff)
  have "test_against b R \<longleftrightarrow> (\<exists>i < 64 * ?m. bv_get b i \<and> \<not> bv_get R i) \<or> (\<exists>i. 64 * ?m \<le> i \<and> bv_get b i)"
    unfolding test_against_def bv_size_def Let_def p list_ex_bits [OF ok(1)] by auto
  then show ?thesis using beyond_min [OF ok] by (meson not_le)
qed

text \<open>\<open>operator==\<close> compares the sets of bits, not the sizes.\<close>

lemma bv_equals_iff:
  assumes ok: "bv_ok b" "bv_ok R"
  shows "bv_equals b R \<longleftrightarrow> (\<forall>i. bv_get b i = bv_get R i)"
proof -
  let ?U = "NumBitWords (Size b)" and ?V = "NumBitWords (Size R)"
  let ?m = "min ?U ?V"
  have x: "(Bits b ! k \<noteq> Bits R ! k) = (Bits b ! k XOR Bits R ! k \<noteq> 0)" for k
    by (auto simp: bit_eq_iff [where 'a = "64 word"] bit_xor_iff)
  have d: "list_ex (\<lambda>k. Bits b ! k \<noteq> Bits R ! k) [0..<?m] \<longleftrightarrow> (\<exists>i < 64 * ?m. bv_get b i \<noteq> bv_get R i)"
    unfolding x by (rule list_ex_pair [OF ok, of "(XOR)"]) (simp add: bit_xor_iff)
  have e: "\<not> (\<exists>i. 64 * ?U \<le> i \<and> bv_get b i)" "\<not> (\<exists>i. 64 * ?V \<le> i \<and> bv_get R i)"
    using get_used [OF ok(1)] get_used [OF ok(2)] by (meson not_le)+
  have "bv_equals b R \<longleftrightarrow> \<not> (\<exists>i < 64 * ?m. bv_get b i \<noteq> bv_get R i)
      \<and> \<not> (\<exists>i. 64 * ?m \<le> i \<and> bv_get b i) \<and> \<not> (\<exists>i. 64 * ?m \<le> i \<and> bv_get R i)"
    unfolding bv_equals_def bv_size_def Let_def d list_ex_bits [OF ok(1)] list_ex_bits [OF ok(2)]
    using e by (cases "?U \<le> ?V") (auto simp: min_def)
  also have "\<dots> \<longleftrightarrow> (\<forall>i. bv_get b i = bv_get R i)" using beyond_min [OF ok] by (meson not_le)
  finally show ?thesis .
qed

lemma fold_add: "fold (\<lambda>i n. n + f i) is m = m + sum_list (map f is)" for m :: nat
  by (induction "is" arbitrary: m) simp_all

lemma word_indices: "[0..<64 * Suc n] = [0..<64 * n] @ map (\<lambda>j. 64 * n + j) [0..<64]"
  using upt_add_eq_append [of 0 "64 * n" 64] map_add_upt [of "64 * n" 64] by (simp add: add.commute)

lemma bv_count_eq:
  assumes ok: "bv_ok b"
  shows "bv_count b = length (filter id (bv_list b))"
proof -
  let ?U = "NumBitWords (Size b)"
  have "sum_list (map (\<lambda>i. countPopulation (Bits b ! i)) [0..<n]) = length (filter (bv_get b) [0..<64 * n])" if "n \<le> ?U" for n
    using that
  proof (induction n)
    case (Suc n)
    have "[0..<64 * Suc n] = [0..<64 * n] @ map (\<lambda>j. 64 * n + j) [0..<64]"
      by (rule word_indices)
    moreover have "countPopulation (Bits b ! n) = length (filter (\<lambda>j. bv_get b (64 * n + j)) [0..<64])"
      unfolding countPopulation_def popcount_def using words_used [OF ok, of n] Suc.prems
      by (intro arg_cong [where f = length] filter_cong) auto
    ultimately show ?case using Suc by (simp add: filter_map comp_def)
  qed simp
  then have "bv_count b = length (filter (bv_get b) [0..<64 * ?U])"
    by (simp add: bv_count_def bv_size_def fold_add)
  also have "[0..<64 * ?U] = [0..<Size b] @ [Size b..<64 * ?U]"
  proof -
    have "Size b \<le> 64 * ?U"
      unfolding NumBitWords_eq [OF bv_ok_D(1) [OF ok]] by linarith
    then show ?thesis by (metis le_add_diff_inverse upt_add_eq_append zero_le)
  qed
  also have "filter (bv_get b) ([0..<Size b] @ [Size b..<64 * ?U]) = filter (bv_get b) [0..<Size b]"
    by (auto simp: filter_empty_conv bv_get_def)
  finally show ?thesis by (simp add: bv_list_def filter_map comp_def)
qed

lemma bv_all_iff:
  assumes ok: "bv_ok b"
  shows "bv_all b \<longleftrightarrow> (\<forall>i < Size b. bv_get b i)"
proof -
  note B = bv_ok_D [OF ok]
  let ?q = "Size b div 64" and ?r = "Size b mod 64"
  have S: "Size b = 64 * ?q + ?r" by simp
  have q: "k < NumBitWords (Size b)" if "k < ?q" for k
  proof -
    have "64 * k < Size b" using that S by linarith
    then show ?thesis using NumBitWords_covers [of "64 * k" "Size b"] B(1) by simp
  qed
  have n: "(Bits b ! k \<noteq> - 1) = (NOT (Bits b ! k) \<noteq> 0)" for k
    by (auto simp: bit_eq_iff [where 'a = "64 word"] bit_not_iff bit_minus_1_iff)
  have full: "list_ex (\<lambda>k. Bits b ! k \<noteq> - 1) [0..<?q] \<longleftrightarrow> (\<exists>i. 64 * 0 \<le> i \<and> i < 64 * ?q \<and> \<not> bv_get b i)"
    unfolding n by (rule list_ex_words) (simp add: bit_not_iff words_used [OF ok] q)
  have last: "Bits b ! ?q = push_bit ?r 1 - 1 \<longleftrightarrow> (\<forall>j < ?r. bv_get b (64 * ?q + j))" if r: "?r \<noteq> 0"
  proof -
    have "?q < NumBitWords (Size b)" unfolding NumBitWords_eq [OF B(1)] using round_up_64 [of "Size b"] r by simp
    then have w: "bit (Bits b ! ?q) j \<longleftrightarrow> j < 64 \<and> bv_get b (64 * ?q + j)" for j by (rule words_used [OF ok])
    have b: "bv_get b (64 * ?q + j) \<Longrightarrow> j < ?r" for j using bv_get_less [of b "64 * ?q + j"] S by linarith
    have m: "bit (push_bit ?r 1 - 1 :: u64) j \<longleftrightarrow> j < ?r" for j by (rule bit_postfix_mask) simp
    have r64: "?r < 64" by simp
    show ?thesis
    proof
      assume e: "Bits b ! ?q = push_bit ?r 1 - 1"
      show "\<forall>j < ?r. bv_get b (64 * ?q + j)" using w m unfolding e by blast
    next
      assume a: "\<forall>j < ?r. bv_get b (64 * ?q + j)"
      show "Bits b ! ?q = push_bit ?r 1 - 1"
      proof (rule bit_word_eqI)
        fix j
        show "bit (Bits b ! ?q) j = bit (push_bit ?r 1 - 1 :: u64) j"
          unfolding w m using a b [of j] r64 by (meson less_trans)
      qed
    qed
  qed
  have "bv_all b \<longleftrightarrow> (\<forall>i < 64 * ?q. bv_get b i) \<and> (\<forall>j < ?r. bv_get b (64 * ?q + j))"
    using full last by (auto simp: bv_all_def Let_def)
  also have "\<dots> \<longleftrightarrow> (\<forall>i < Size b. bv_get b i)"
  proof (intro iffI conjI allI impI)
    fix i
    assume a: "(\<forall>i < 64 * ?q. bv_get b i) \<and> (\<forall>j < ?r. bv_get b (64 * ?q + j))" and i: "i < Size b"
    show "bv_get b i"
    proof (cases "i < 64 * ?q")
      case False
      then have "i - 64 * ?q < ?r" "64 * ?q + (i - 64 * ?q) = i" using i S by linarith+
      then show ?thesis using a by metis
    qed (use a in blast)
  next
    fix j
    assume a: "\<forall>i < Size b. bv_get b i"
    show "bv_get b j" if "j < 64 * ?q"
    proof -
      have "j < Size b" using that S by linarith
      then show ?thesis using a by blast
    qed
    show "bv_get b (64 * ?q + j)" if "j < ?r" using a that S by (metis add_less_cancel_left)
  qed
  finally show ?thesis .
qed

section \<open>Searching\<close>

text \<open>What a search for the first or the last index with \<open>P\<close> in a range promises.\<close>

definition first_hit :: "(nat \<Rightarrow> bool) \<Rightarrow> nat \<Rightarrow> nat \<Rightarrow> int \<Rightarrow> bool" where
  "first_hit P Begin End r \<longleftrightarrow>
     r = - 1 \<and> (\<forall>i. Begin \<le> i \<and> i < End \<longrightarrow> \<not> P i)
     \<or> (\<exists>k. r = int k \<and> Begin \<le> k \<and> k < End \<and> P k \<and> (\<forall>i. Begin \<le> i \<and> i < k \<longrightarrow> \<not> P i))"

definition last_hit :: "(nat \<Rightarrow> bool) \<Rightarrow> nat \<Rightarrow> nat \<Rightarrow> int \<Rightarrow> bool" where
  "last_hit P Begin End r \<longleftrightarrow>
     r = - 1 \<and> (\<forall>i. Begin \<le> i \<and> i < End \<longrightarrow> \<not> P i)
     \<or> (\<exists>k. r = int k \<and> Begin \<le> k \<and> k < End \<and> P k \<and> (\<forall>i. k < i \<and> i < End \<longrightarrow> \<not> P i))"

lemma first_hitI: "m \<le> k \<Longrightarrow> k < End \<Longrightarrow> P k \<Longrightarrow> (\<And>i. m \<le> i \<Longrightarrow> i < k \<Longrightarrow> \<not> P i) \<Longrightarrow> first_hit P m End (int k)"
  unfolding first_hit_def by blast

lemma last_hitI: "Begin \<le> k \<Longrightarrow> k < e \<Longrightarrow> P k \<Longrightarrow> (\<And>i. k < i \<Longrightarrow> i < e \<Longrightarrow> \<not> P i) \<Longrightarrow> last_hit P Begin e (int k)"
  unfolding last_hit_def by blast

lemma first_hit_skip:
  assumes h: "first_hit P m' End r" and m: "m \<le> m'" "\<And>i. m \<le> i \<Longrightarrow> i < m' \<Longrightarrow> i < End \<Longrightarrow> \<not> P i"
  shows "first_hit P m End r"
proof -
  have n: "\<not> P i" if "m \<le> i" "i < End" "m' \<le> i \<Longrightarrow> \<not> P i" for i using m that by (cases "i < m'") auto
  from h consider "r = - 1" "\<forall>i. m' \<le> i \<and> i < End \<longrightarrow> \<not> P i"
    | k where "r = int k" "m' \<le> k" "k < End" "P k" "\<forall>i. m' \<le> i \<and> i < k \<longrightarrow> \<not> P i"
    unfolding first_hit_def by blast
  then show ?thesis
  proof cases
    case 1
    then show ?thesis using n by (auto simp: first_hit_def)
  next
    case 2
    have "\<forall>i. m \<le> i \<and> i < k \<longrightarrow> \<not> P i"
    proof (intro allI impI)
      fix i
      assume i: "m \<le> i \<and> i < k"
      show "\<not> P i" by (rule n) (use i 2 in auto)
    qed
    moreover have "m \<le> k" using 2 m(1) by simp
    ultimately show ?thesis unfolding 2(1) using 2 by (intro first_hitI) blast+
  qed
qed

lemma last_hit_skip:
  assumes h: "last_hit P Begin e' r" and e: "e' \<le> e" "\<And>i. e' \<le> i \<Longrightarrow> i < e \<Longrightarrow> Begin \<le> i \<Longrightarrow> \<not> P i"
  shows "last_hit P Begin e r"
proof -
  have n: "\<not> P i" if "Begin \<le> i" "i < e" "i < e' \<Longrightarrow> \<not> P i" for i using e that by (cases "i < e'") auto
  from h consider "r = - 1" "\<forall>i. Begin \<le> i \<and> i < e' \<longrightarrow> \<not> P i"
    | k where "r = int k" "Begin \<le> k" "k < e'" "P k" "\<forall>i. k < i \<and> i < e' \<longrightarrow> \<not> P i"
    unfolding last_hit_def by blast
  then show ?thesis
  proof cases
    case 1
    then show ?thesis using n by (auto simp: last_hit_def)
  next
    case 2
    have "\<forall>i. k < i \<and> i < e \<longrightarrow> \<not> P i"
    proof (intro allI impI)
      fix i
      assume i: "k < i \<and> i < e"
      show "\<not> P i" by (rule n) (use i 2 in auto)
    qed
    moreover have "k < e" using 2 e(1) by simp
    ultimately show ?thesis unfolding 2(1) using 2 by (intro last_hitI) blast+
  qed
qed

lemma as_int_small: "n < 2 ^ 31 \<Longrightarrow> as_int n = int n"
  unfolding as_int_def by (rule sint_small_nat)

text \<open>The bits of a word that the two masks leave are those of the range.\<close>

definition range_word :: "u64 list \<Rightarrow> nat \<Rightarrow> nat \<Rightarrow> nat \<Rightarrow> u64" where
  "range_word ws Begin End i =
     (let Copy = ws ! i;
          Copy = (if i = Begin div 64 then Copy AND maskTrailingZeros (Begin mod 64) else Copy)
      in if i = (End - 1) div 64 then Copy AND maskTrailingOnes ((End - 1) mod 64 + 1) else Copy)"

lemma range_word_bits:
  assumes r: "Begin < End" "Begin div 64 \<le> i" "i \<le> (End - 1) div 64" and j: "j < 64"
  shows "bit (range_word ws Begin End i) j \<longleftrightarrow> wbit ws (64 * i + j) \<and> Begin \<le> 64 * i + j \<and> 64 * i + j < End"
proof -
  have p: "(64 * i + j) div 64 = i" "(64 * i + j) mod 64 = j" using j by simp_all
  have "Begin \<le> 64 * i + j \<longleftrightarrow> (i = Begin div 64 \<longrightarrow> Begin mod 64 \<le> j)"
    unfolding le_lex [of Begin] p using r(2) by auto
  moreover have "64 * i + j < End \<longleftrightarrow> 64 * i + j \<le> End - 1" using r(1) by linarith
  moreover have "64 * i + j \<le> End - 1 \<longleftrightarrow> (i = (End - 1) div 64 \<longrightarrow> j < (End - 1) mod 64 + 1)"
    unfolding le_lex [of "64 * i + j"] p using r(3) by auto
  moreover have "bit (maskTrailingZeros (Begin mod 64) :: u64) j \<longleftrightarrow> Begin mod 64 \<le> j"
    using bit_maskTrailingZeros [of "Begin mod 64" j] j mod64_less [of Begin] by simp
  moreover have "bit (maskTrailingOnes ((End - 1) mod 64 + 1) :: u64) j \<longleftrightarrow> j < (End - 1) mod 64 + 1"
    using mod64_less [of "End - 1"] by (intro bit_maskTrailingOnes) linarith
  ultimately show ?thesis unfolding wbit_def p range_word_def Let_def by (auto simp: bit_and_iff)
qed

lemma first_in_words_range_word:
  "first_in_words ws Begin End (i # is) =
    (if range_word ws Begin End i \<noteq> 0 then as_int (i * 64 + ctz (range_word ws Begin End i))
     else first_in_words ws Begin End is)"
  by (simp add: range_word_def Let_def countTrailingZeros_ctz)

lemma first_in_words_hit:
  assumes r: "Begin < End" "End \<le> 2 ^ 31"
  shows "Begin div 64 \<le> a \<Longrightarrow> a \<le> (End - 1) div 64 + 1 \<Longrightarrow>
    first_hit (wbit ws) (max Begin (64 * a)) End (first_in_words ws Begin End [a..<(End - 1) div 64 + 1])"
proof (induction "(End - 1) div 64 + 1 - a" arbitrary: a)
  case 0
  then have "End - 1 < 64 * a" "[a..<(End - 1) div 64 + 1] = []" unfolding below_words by simp_all
  moreover have "End \<le> 64 * a" using calculation(1) by linarith
  ultimately show ?case unfolding first_hit_def by (simp del: upt_Suc) linarith
next
  case (Suc n)
  then have a: "a \<le> (End - 1) div 64" by simp
  let ?w = "range_word ws Begin End a"
  note bits = range_word_bits [OF r(1) Suc.prems(1) a]
  have u: "[a..<(End - 1) div 64 + 1] = a # [a + 1..<(End - 1) div 64 + 1]" using a by (simp add: upt_conv_Cons)
  show ?case
  proof (cases "?w = 0")
    case True
    have none: "\<not> wbit ws i" if "64 * a \<le> i" "i < 64 * (a + 1)" "Begin \<le> i" "i < End" for i
    proof -
      have "i = 64 * a + (i - 64 * a)" "i - 64 * a < 64" using that by auto
      then show ?thesis using bits [of "i - 64 * a" ws] True that by simp
    qed
    have "first_hit (wbit ws) (max Begin (64 * (a + 1))) End (first_in_words ws Begin End [a + 1..<(End - 1) div 64 + 1])"
      using Suc.hyps(2) Suc.prems a by (intro Suc.hyps(1)) simp_all
    then have "first_hit (wbit ws) (max Begin (64 * a)) End (first_in_words ws Begin End [a + 1..<(End - 1) div 64 + 1])"
      by (rule first_hit_skip) (use none in auto)
    then show ?thesis unfolding u first_in_words_range_word using True by simp
  next
    case False
    have c: "ctz ?w < 64" using ctz_less [OF False] by simp
    let ?k = "64 * a + ctz ?w"
    have hit: "wbit ws ?k" "Begin \<le> ?k" "?k < End" using bits [OF c, of ws] bit_ctz [OF False] by simp_all
    have miss: "\<not> wbit ws i" if "Begin \<le> i" "64 * a \<le> i" "i < ?k" for i
    proof -
      have j: "i = 64 * a + (i - 64 * a)" "i - 64 * a < ctz ?w" using that by auto
      then have "\<not> bit ?w (i - 64 * a)" by (intro not_bit_below_ctz)
      then show ?thesis using bits [of "i - 64 * a" ws] c j that hit(3) by auto
    qed
    have "as_int (a * 64 + ctz ?w) = int ?k" using hit(3) r(2) by (subst as_int_small) auto
    moreover have "first_hit (wbit ws) (max Begin (64 * a)) End (int ?k)" using hit miss by (intro first_hitI) auto
    ultimately show ?thesis unfolding u first_in_words_range_word using False by simp
  qed
qed

lemma find_first_in_hit:
  assumes ok: "bv_ok b" and r: "Begin \<le> End" "End \<le> Size b"
  shows "\<exists>r. find_first_in b Begin End = Some r \<and> first_hit (bv_get b) Begin End r"
proof (cases "Begin = End")
  case False
  have "first_hit (wbit (Bits b)) (max Begin (64 * (Begin div 64))) End
      (first_in_words (Bits b) Begin End [Begin div 64..<(End - 1) div 64 + 1])"
    using False r bv_ok_D(1) [OF ok] div_le_mono [of Begin "End - 1" 64] by (intro first_in_words_hit) auto
  moreover have "max Begin (64 * (Begin div 64)) = Begin" by (simp add: max_absorb1)
  moreover have "first_hit (wbit (Bits b)) Begin End x = first_hit (bv_get b) Begin End x" for x
    using r by (auto simp: first_hit_def bv_get_def)
  ultimately show ?thesis using r False by (simp add: find_first_in_def)
qed (use r in \<open>auto simp: find_first_in_def first_hit_def\<close>)

lemma last_in_words_range_word:
  "last_in_words ws Begin End (i # is) =
    (if range_word ws Begin End i \<noteq> 0 then as_int ((i + 1) * 64 - clz (range_word ws Begin End i) - 1)
     else last_in_words ws Begin End is)"
proof -
  have c: "(if i = Begin div 64 then (if i = (End - 1) div 64 then ws ! i AND m else ws ! i) AND n
      else (if i = (End - 1) div 64 then ws ! i AND m else ws ! i)) =
    (if i = (End - 1) div 64 then (if i = Begin div 64 then ws ! i AND n else ws ! i) AND m
      else (if i = Begin div 64 then ws ! i AND n else ws ! i))" for m n
    by (simp add: and.assoc and.commute [of m])
  show ?thesis unfolding last_in_words.simps Let_def c by (simp add: range_word_def Let_def countLeadingZeros_clz)
qed

lemma last_in_words_hit:
  assumes r: "Begin < End" "End \<le> 2 ^ 31"
  shows "Begin div 64 \<le> a \<Longrightarrow> a \<le> (End - 1) div 64 + 1 \<Longrightarrow>
    last_hit (wbit ws) Begin (min End (64 * a)) (last_in_words ws Begin End (rev [Begin div 64..<a]))"
proof (induction "a - Begin div 64" arbitrary: a)
  case 0
  then have "64 * a \<le> Begin" using below_words [of Begin a] by auto
  then show ?case using 0 by (auto simp: last_hit_def)
next
  case (Suc n)
  then obtain c where c: "a = Suc c" "Begin div 64 \<le> c" "c \<le> (End - 1) div 64" by (cases a) auto
  let ?w = "range_word ws Begin End c"
  note bits = range_word_bits [OF r(1) c(2,3)]
  have u: "rev [Begin div 64..<a] = c # rev [Begin div 64..<c]" using c by simp
  have off: "i = 64 * c + (i - 64 * c)" "i - 64 * c < 64" if "64 * c \<le> i" "i < 64 * a" for i using that c(1) by auto
  show ?case
  proof (cases "?w = 0")
    case True
    have none: "\<not> wbit ws i" if "64 * c \<le> i" "i < 64 * a" "Begin \<le> i" "i < End" for i
      using bits [OF off(2), of i ws] off [of i] True that by simp
    have "last_hit (wbit ws) Begin (min End (64 * c)) (last_in_words ws Begin End (rev [Begin div 64..<c]))"
      using Suc.hyps(2) c by (intro Suc.hyps(1)) simp_all
    then have "last_hit (wbit ws) Begin (min End (64 * a)) (last_in_words ws Begin End (rev [Begin div 64..<c]))"
      by (rule last_hit_skip) (use none c(1) in auto)
    then show ?thesis unfolding u last_in_words_range_word using True by simp
  next
    case False
    note z = clz_bits [OF False, simplified]
    let ?k = "64 * c + (63 - clz ?w)"
    have z63: "63 - clz ?w < 64" using z(1) by simp
    have hit: "wbit ws ?k" "Begin \<le> ?k" "?k < End" using bits [OF z63, of ws] z(2) by simp_all
    have miss: "\<not> wbit ws i" if "?k < i" "i < End" "i < 64 * a" for i
    proof -
      have i: "64 * c \<le> i" "63 - clz ?w < i - 64 * c" using that by auto
      then show ?thesis using bits [OF off(2), of i ws] off [OF i(1) that(3)] z(3) [OF i(2)] that hit(2) by auto
    qed
    have k: "(c + 1) * 64 - clz ?w - 1 = ?k" using z(1) by simp
    have "as_int ?k = int ?k" using hit(3) r(2) by (intro as_int_small) simp
    moreover have "?k < 64 * a" using z63 c(1) by simp
    moreover have "last_hit (wbit ws) Begin (min End (64 * a)) (int ?k)"
      using hit miss calculation(2) by (intro last_hitI) auto
    ultimately show ?thesis unfolding u last_in_words_range_word k using False by simp
  qed
qed

lemma find_last_in_hit:
  assumes ok: "bv_ok b" and r: "Begin \<le> End" "End \<le> Size b"
  shows "\<exists>r. find_last_in b Begin End = Some r \<and> last_hit (bv_get b) Begin End r"
proof (cases "Begin = End")
  case False
  let ?a = "(End - 1) div 64 + 1"
  have "last_hit (wbit (Bits b)) Begin (min End (64 * ?a)) (last_in_words (Bits b) Begin End (rev [Begin div 64..<?a]))"
    using False r bv_ok_D(1) [OF ok] div_le_mono [of Begin "End - 1" 64] by (intro last_in_words_hit) auto
  moreover have "min End (64 * ?a) = End" using below_words [of "End - 1" ?a] by (simp add: min_def)
  moreover have "last_hit (wbit (Bits b)) Begin End x = last_hit (bv_get b) Begin End x" for x
    using r by (auto simp: last_hit_def bv_get_def)
  ultimately show ?thesis using r False by (simp add: find_last_in_def del: upt_Suc)
qed (use r in \<open>auto simp: find_last_in_def last_hit_def\<close>)

text \<open>Searching for an unset bit is searching for a set one in the complement.\<close>

lemma maskTrailingZeros_compl: "N \<le> 64 \<Longrightarrow> maskTrailingZeros N = NOT (maskTrailingOnes N :: u64)"
  by (rule bit_word_eqI) (auto simp: bit_maskTrailingZeros bit_maskTrailingOnes bit_not_iff)

definition unset_word :: "u64 list \<Rightarrow> nat \<Rightarrow> nat \<Rightarrow> nat \<Rightarrow> u64" where
  "unset_word ws Begin End i =
     (let Copy = ws ! i;
          Copy = (if i = Begin div 64 then Copy OR maskTrailingOnes (Begin mod 64) else Copy)
      in if i = (End - 1) div 64 then Copy OR maskTrailingZeros ((End - 1) mod 64 + 1) else Copy)"

lemma unset_word_compl:
  assumes "i < length ws"
  shows "NOT (unset_word ws Begin End i) = range_word (map NOT ws) Begin End i"
proof -
  have "Begin mod 64 \<le> 64" "(End - 1) mod 64 + 1 \<le> 64" using mod64_less [of Begin] mod64_less [of "End - 1"] by linarith+
  then show ?thesis using assms
    by (simp add: unset_word_def range_word_def Let_def maskTrailingZeros_compl)
qed

lemma compl_nonzero: "w \<noteq> - 1 \<longleftrightarrow> NOT w \<noteq> (0 :: u64)"
  by (auto simp: bit_eq_iff [where 'a = "64 word"] bit_not_iff bit_minus_1_iff)

lemma first_unset_in_words_eq:
  assumes r: "Begin < End" "End \<le> sz"
    and i: "\<And>i. i \<in> set is \<Longrightarrow> Begin div 64 \<le> i \<and> i \<le> (End - 1) div 64 \<and> i < length ws"
  shows "first_unset_in_words ws sz Begin End is = first_in_words (map NOT ws) Begin End is"
  using i
proof (induction "is")
  case (Cons i "is")
  let ?w = "range_word (map NOT ws) Begin End i"
  have i: "Begin div 64 \<le> i" "i \<le> (End - 1) div 64" "i < length ws" using Cons.prems [of i] by simp_all
  have "i * 64 + ctz ?w < sz" if "?w \<noteq> 0"
    using range_word_bits [OF r(1) i(1,2), of "ctz ?w" "map NOT ws"] bit_ctz [OF that] ctz_less [OF that] r(2) by simp
  moreover have "first_unset_in_words ws sz Begin End (i # is) =
      (if unset_word ws Begin End i \<noteq> - 1
       then if i * 64 + ctz (NOT (unset_word ws Begin End i)) < sz
            then as_int (i * 64 + ctz (NOT (unset_word ws Begin End i))) else - 1
       else first_unset_in_words ws sz Begin End is)"
    by (simp add: unset_word_def Let_def countTrailingOnes_def countTrailingZeros_ctz)
  ultimately show ?case unfolding compl_nonzero unset_word_compl [OF i(3)] first_in_words_range_word
    using Cons by simp
qed simp

lemma last_unset_in_words_eq:
  assumes r: "Begin < End" "End \<le> sz"
    and i: "\<And>i. i \<in> set is \<Longrightarrow> Begin div 64 \<le> i \<and> i \<le> (End - 1) div 64 \<and> i < length ws"
  shows "last_unset_in_words ws sz Begin End is = last_in_words (map NOT ws) Begin End is"
  using i
proof (induction "is")
  case (Cons i "is")
  let ?w = "range_word (map NOT ws) Begin End i"
  have i: "Begin div 64 \<le> i" "i \<le> (End - 1) div 64" "i < length ws" using Cons.prems [of i] by simp_all
  have "(i + 1) * 64 - clz ?w - 1 < sz" if n: "?w \<noteq> 0"
  proof -
    note z = clz_bits [OF n, simplified]
    have "63 - clz ?w < 64" using z(1) by simp
    from range_word_bits [OF r(1) i(1,2) this, of "map NOT ws"] z(2) have "64 * i + (63 - clz ?w) < End" by simp
    then show ?thesis using r(2) z(1) by simp
  qed
  moreover have "last_unset_in_words ws sz Begin End (i # is) =
      (if unset_word ws Begin End i \<noteq> - 1
       then if (i + 1) * 64 - clz (NOT (unset_word ws Begin End i)) - 1 < sz
            then as_int ((i + 1) * 64 - clz (NOT (unset_word ws Begin End i)) - 1) else - 1
       else last_unset_in_words ws sz Begin End is)"
  proof -
    have c: "(if i = Begin div 64 then (if i = (End - 1) div 64 then ws ! i OR m else ws ! i) OR n
        else (if i = (End - 1) div 64 then ws ! i OR m else ws ! i)) =
      (if i = (End - 1) div 64 then (if i = Begin div 64 then ws ! i OR n else ws ! i) OR m
        else (if i = Begin div 64 then ws ! i OR n else ws ! i))" for m n
      by (simp add: or.assoc or.commute [of m])
    show ?thesis unfolding last_unset_in_words.simps Let_def c
      by (simp add: unset_word_def Let_def countLeadingOnes_def countLeadingZeros_clz)
  qed
  ultimately show ?case unfolding compl_nonzero unset_word_compl [OF i(3)] last_in_words_range_word
    using Cons by simp
qed simp

lemma wbit_compl: "i div 64 < length ws \<Longrightarrow> wbit (map NOT ws) i \<longleftrightarrow> \<not> wbit ws i"
  by (simp add: wbit_def bit_not_iff)

lemma words_of_range:
  assumes ok: "bv_ok b" and r: "Begin < End" "End \<le> Size b"
  shows "(End - 1) div 64 < length (Bits b)" "Begin div 64 \<le> (End - 1) div 64"
  using bv_ok_covers [OF ok, of "End - 1"] r by (auto intro: div_le_mono)

lemma find_unset_in_hit:
  assumes ok: "bv_ok b" and r: "Begin \<le> End" "End \<le> Size b"
  shows "\<exists>r. find_first_unset_in b Begin End = Some r \<and> first_hit (\<lambda>i. \<not> bv_get b i) Begin End r"
    "\<exists>r. find_last_unset_in b Begin End = Some r \<and> last_hit (\<lambda>i. \<not> bv_get b i) Begin End r"
proof -
  let ?a = "(End - 1) div 64 + 1" and ?ws = "map NOT (Bits b)"
  have e: "first_hit (wbit ?ws) Begin End x = first_hit (\<lambda>i. \<not> bv_get b i) Begin End x"
    "last_hit (wbit ?ws) Begin End x = last_hit (\<lambda>i. \<not> bv_get b i) Begin End x" for x
  proof -
    have "wbit ?ws i \<longleftrightarrow> \<not> bv_get b i" if "i < End" for i
      using bv_ok_covers [OF ok, of i] bv_ok_D(4) [OF ok, of i] that r by (simp add: wbit_compl)
    then show "first_hit (wbit ?ws) Begin End x = first_hit (\<lambda>i. \<not> bv_get b i) Begin End x"
      "last_hit (wbit ?ws) Begin End x = last_hit (\<lambda>i. \<not> bv_get b i) Begin End x"
      by (auto simp: first_hit_def last_hit_def)
  qed
  show "\<exists>r. find_first_unset_in b Begin End = Some r \<and> first_hit (\<lambda>i. \<not> bv_get b i) Begin End r"
  proof (cases "Begin = End")
    case False
    then have B: "Begin < End" using r by simp
    note w = words_of_range [OF ok B r(2)]
    have "first_hit (wbit ?ws) (max Begin (64 * (Begin div 64))) End (first_in_words ?ws Begin End [Begin div 64..<?a])"
      using B r w bv_ok_D(1) [OF ok] by (intro first_in_words_hit) auto
    moreover have "max Begin (64 * (Begin div 64)) = Begin" by (simp add: max_absorb1)
    moreover have "first_unset_in_words (Bits b) (Size b) Begin End [Begin div 64..<?a] = first_in_words ?ws Begin End [Begin div 64..<?a]"
      using B r w by (intro first_unset_in_words_eq) auto
    ultimately show ?thesis using r False e(1) by (simp add: find_first_unset_in_def bv_size_def del: upt_Suc)
  qed (use r in \<open>auto simp: find_first_unset_in_def first_hit_def\<close>)
  show "\<exists>r. find_last_unset_in b Begin End = Some r \<and> last_hit (\<lambda>i. \<not> bv_get b i) Begin End r"
  proof (cases "Begin = End")
    case False
    then have B: "Begin < End" using r by simp
    note w = words_of_range [OF ok B r(2)]
    have "last_hit (wbit ?ws) Begin (min End (64 * ?a)) (last_in_words ?ws Begin End (rev [Begin div 64..<?a]))"
      using B r w bv_ok_D(1) [OF ok] by (intro last_in_words_hit) auto
    moreover have "min End (64 * ?a) = End" using below_words [of "End - 1" ?a] by (simp add: min_def)
    moreover have "last_unset_in_words (Bits b) (Size b) Begin End (rev [Begin div 64..<?a]) = last_in_words ?ws Begin End (rev [Begin div 64..<?a])"
      using B r w by (intro last_unset_in_words_eq) auto
    ultimately show ?thesis using r False e(2) by (simp add: find_last_unset_in_def del: upt_Suc)
  qed (use r in \<open>auto simp: find_last_unset_in_def last_hit_def\<close>)
qed

end
