(* ===== verification/LL_BV_Props.thy ===== *)
theory LL_BV_Props imports LL_BV_Queries begin

text \<open>
  The contract of \<open>BitVector\<close>: it refines a list of booleans through every sequence of operations,
  its searches find what they promise, and the iterator visits the bits that are set, in order.
\<close>

section \<open>The iterator\<close>

text \<open>What \<open>const_set_bits_iterator_impl\<close> needs of the vector it is instantiated with.\<close>

locale searchable_bits =
  fixes ok :: "'b \<Rightarrow> bool" and get :: "'b \<Rightarrow> nat \<Rightarrow> bool" and width :: "'b \<Rightarrow> nat"
    and first_set :: "'b \<Rightarrow> int option" and next_set :: "'b \<Rightarrow> nat \<Rightarrow> int option"
  assumes width_le: "ok b \<Longrightarrow> width b \<le> 2 ^ 31"
    and first_law: "ok b \<Longrightarrow> \<exists>r. first_set b = Some r \<and> first_hit (get b) 0 (width b) r"
    and next_law: "ok b \<Longrightarrow> p < width b \<Longrightarrow> \<exists>r. next_set b p = Some r \<and> first_hit (get b) (p + 1) (width b) r"
begin

lemma iterate_from:
  assumes ok: "ok b" and h: "first_hit (get b) m (width b) r" and n: "width b - m < n"
  shows "set_bits_from n (next_set b) (Some r) = Some (map int (filter (get b) [m..<width b]))"
  using h n
proof (induction n arbitrary: m r)
  case (Suc n)
  from Suc.prems(1) consider "r = - 1" "\<forall>i. m \<le> i \<and> i < width b \<longrightarrow> \<not> get b i"
    | k where "r = int k" "m \<le> k" "k < width b" "get b k" "\<forall>i. m \<le> i \<and> i < k \<longrightarrow> \<not> get b i"
    unfolding first_hit_def by blast
  then show ?case
  proof cases
    case 1
    then have "filter (get b) [m..<width b] = []" by (auto simp: filter_empty_conv)
    then show ?thesis using 1(1) by simp
  next
    case 2
    have "int k mod 2 ^ 32 = int k" using 2(3) width_le [OF ok] by simp
    then have k: "nat (r mod 2 ^ 32) = k" using 2(1) by simp
    obtain r' where r': "next_set b k = Some r'" "first_hit (get b) (k + 1) (width b) r'"
      using next_law [OF ok 2(3)] by blast
    have "set_bits_from n (next_set b) (Some r') = Some (map int (filter (get b) [k + 1..<width b]))"
      using 2 Suc.prems(2) by (intro Suc.IH [OF r'(2)]) simp
    moreover have "[m..<width b] = [m..<k] @ k # [k + 1..<width b]"
      using 2 upt_add_eq_append [of m k "width b - k"] by (simp add: upt_conv_Cons)
    moreover have "filter (get b) [m..<k] = []" using 2 by (auto simp: filter_empty_conv)
    ultimately show ?thesis using 2 k r'(1) by simp
  qed
qed simp

theorem iterates_in_order:
  assumes ok: "ok b"
  shows "set_bits_from (width b + 1) (next_set b) (first_set b) = Some (map int (filter (get b) [0..<width b]))"
proof -
  obtain r where r: "first_set b = Some r" "first_hit (get b) 0 (width b) r" using first_law [OF ok] by blast
  from iterate_from [OF ok r(2), of "width b + 1"] show ?thesis by (simp add: r(1))
qed

end

interpretation bv: searchable_bits bv_ok bv_get Size find_first find_next
proof
  fix b :: bitvector and p
  assume ok: "bv_ok b"
  show s: "Size b \<le> 2 ^ 31" using bv_ok_D(1) [OF ok] .
  show "\<exists>r. find_first b = Some r \<and> first_hit (bv_get b) 0 (Size b) r"
    using find_first_in_hit [OF ok] by (simp add: find_first_def)
  show "\<exists>r. find_next b p = Some r \<and> first_hit (bv_get b) (p + 1) (Size b) r" if "p < Size b"
    using find_first_in_hit [OF ok, of "p + 1" "Size b"] that s by (simp add: find_next_def)
qed

section \<open>Operations on lists of booleans\<close>

datatype bv_op =
    Resize nat bool | Reserve nat | Clear | Assign bitvector
  | Set_all | Set_at nat | Set_range nat nat
  | Reset_all | Reset_at nat | Reset_range nat nat | Flip_all | Flip_at nat
  | And_with bitvector | Or_with bitvector | Xor_with bitvector | Reset_with bitvector
  | Shift_left nat | Shift_right nat
  | Apply_mask bool bool "u32 list" nat

fun bv_run :: "(nat \<Rightarrow> u64) \<Rightarrow> bv_op \<Rightarrow> bitvector \<Rightarrow> bitvector option" where
  "bv_run junk (Resize N t) b = Some (bv_resize junk N t b)"
| "bv_run junk (Reserve N) b = Some (bv_reserve junk N b)"
| "bv_run junk Clear b = Some (bv_clear b)"
| "bv_run junk (Assign R) b = Some (bv_assign junk b R)"
| "bv_run junk Set_all b = Some (set_all b)"
| "bv_run junk (Set_at i) b = set_bit_at i b"
| "bv_run junk (Set_range I E) b = set_range I E b"
| "bv_run junk Reset_all b = Some (reset_all b)"
| "bv_run junk (Reset_at i) b = reset_bit_at i b"
| "bv_run junk (Reset_range I E) b = reset_range I E b"
| "bv_run junk Flip_all b = Some (flip_all b)"
| "bv_run junk (Flip_at i) b = flip_bit_at i b"
| "bv_run junk (And_with R) b = Some (and_with b R)"
| "bv_run junk (Or_with R) b = Some (or_with junk b R)"
| "bv_run junk (Xor_with R) b = Some (xor_with junk b R)"
| "bv_run junk (Reset_with R) b = Some (reset_with b R)"
| "bv_run junk (Shift_left N) b = shift_left N b"
| "bv_run junk (Shift_right N) b = shift_right N b"
| "bv_run junk (Apply_mask add ivt M n) b = applyMask add ivt M n b"

text \<open>
  The same operations on the list: \<open>None\<close> where an assertion of the code fails, an index is outside
  the vector, or a size is above \<open>2 ^ 31\<close>.
\<close>

definition at :: "bool list \<Rightarrow> nat \<Rightarrow> bool" where
  "at xs i = (i < length xs \<and> xs ! i)"

definition guarded :: "bool \<Rightarrow> 'a \<Rightarrow> 'a option" where
  "guarded c x = (if c then Some x else None)"

fun list_run :: "bv_op \<Rightarrow> bool list \<Rightarrow> bool list option" where
  "list_run (Resize N t) xs = guarded (N \<le> 2 ^ 31) (take N xs @ replicate (N - length xs) t)"
| "list_run (Reserve N) xs = guarded (N \<le> 2 ^ 31) xs"
| "list_run Clear xs = Some []"
| "list_run (Assign R) xs = guarded (bv_ok R) (bv_list R)"
| "list_run Set_all xs = Some (replicate (length xs) True)"
| "list_run (Set_at i) xs = guarded (i < length xs) (xs[i := True])"
| "list_run (Set_range I E) xs =
     guarded (I \<le> E \<and> E \<le> length xs) (take I xs @ replicate (E - I) True @ drop E xs)"
| "list_run Reset_all xs = Some (replicate (length xs) False)"
| "list_run (Reset_at i) xs = guarded (i < length xs) (xs[i := False])"
| "list_run (Reset_range I E) xs =
     guarded (I \<le> E \<and> E \<le> length xs) (take I xs @ replicate (E - I) False @ drop E xs)"
| "list_run Flip_all xs = Some (map Not xs)"
| "list_run (Flip_at i) xs = guarded (i < length xs) (xs[i := \<not> xs ! i])"
| "list_run (And_with R) xs = guarded (bv_ok R) (map (\<lambda>i. at xs i \<and> at (bv_list R) i) [0..<length xs])"
| "list_run (Or_with R) xs =
     guarded (bv_ok R) (map (\<lambda>i. at xs i \<or> at (bv_list R) i) [0..<max (length xs) (Size R)])"
| "list_run (Xor_with R) xs =
     guarded (bv_ok R) (map (\<lambda>i. at xs i \<noteq> at (bv_list R) i) [0..<max (length xs) (Size R)])"
| "list_run (Reset_with R) xs = guarded (bv_ok R) (map (\<lambda>i. at xs i \<and> \<not> at (bv_list R) i) [0..<length xs])"
| "list_run (Shift_left N) xs = guarded (N \<le> length xs) (replicate N False @ take (length xs - N) xs)"
| "list_run (Shift_right N) xs = guarded (N \<le> length xs) (drop N xs @ replicate N False)"
| "list_run (Apply_mask add ivt M n) xs =
     guarded (min n ((length xs + 31) div 32) \<le> length M)
       (map (\<lambda>i. if add then at xs i \<or> mask_bit ivt (take n M) i else at xs i \<and> \<not> mask_bit ivt (take n M) i)
         [0..<length xs])"

lemma at_bv_list [simp]: "at (bv_list b) i = bv_get b i"
  by (cases "i < Size b") (auto simp: at_def bv_get_def)

lemma guarded_Some: "guarded c x = Some y \<longleftrightarrow> c \<and> x = y"
  by (simp add: guarded_def)

text \<open>A result on bits gives the result on lists.\<close>

lemma run_result:
  assumes "result_is b' n f" "length xs = n" "\<And>i. i < n \<Longrightarrow> f i = xs ! i"
  shows "bv_ok b' \<and> bv_list b' = xs"
  using result_is_list [OF assms(1)] assms(2,3) by (auto intro: nth_equalityI)

lemma run_resultI:
  "result_is b' n f \<Longrightarrow> c = Some b' \<Longrightarrow> length xs = n \<Longrightarrow> (\<And>i. i < n \<Longrightarrow> f i = xs ! i) \<Longrightarrow>
    \<exists>b'. c = Some b' \<and> bv_ok b' \<and> bv_list b' = xs"
  using run_result by blast

lemma bv_run_refines:
  assumes ok: "bv_ok b" and s: "list_run op (bv_list b) = Some xs"
  shows "\<exists>b'. bv_run junk op b = Some b' \<and> bv_ok b' \<and> bv_list b' = xs"
proof (cases op)
  case (Resize N t)
  then have N: "N \<le> 2 ^ 31" "xs = take N (bv_list b) @ replicate (N - Size b) t" using s by (auto simp: guarded_Some)
  have "bv_ok (bv_resize junk N t b) \<and> bv_list (bv_resize junk N t b) = xs"
    by (rule run_result [OF bv_resize_result [OF ok N(1)]]) (auto simp: N(2) nth_append)
  then show ?thesis using Resize by simp
next
  case (Reserve N)
  then have N: "N \<le> 2 ^ 31" "xs = bv_list b" using s by (auto simp: guarded_Some)
  have "bv_ok (bv_reserve junk N b) \<and> bv_list (bv_reserve junk N b) = xs"
    by (rule run_result [OF bv_reserve_result [OF ok N(1)]]) (auto simp: N(2))
  then show ?thesis using Reserve by simp
next
  case Clear
  then show ?thesis using s by (intro run_resultI [OF bv_clear_result]) (auto simp: guarded_Some)
next
  case (Assign R)
  then show ?thesis using s ok by (intro run_resultI [OF bv_assign_result]) (auto simp: guarded_Some)
next
  case Set_all
  then show ?thesis using s ok by (intro run_resultI [OF set_all_result]) (auto simp: guarded_Some)
next
  case (Set_at i)
  then have i: "i < Size b" "xs = (bv_list b)[i := True]" using s by (auto simp: guarded_Some)
  obtain b' where b': "set_bit_at i b = Some b'" "result_is b' (Size b) (\<lambda>k. k = i \<or> bv_get b k)"
    using bit_at_results(1) [OF ok i(1)] by blast
  show ?thesis by (rule run_resultI [OF b'(2)]) (use b'(1) Set_at i in \<open>auto simp: nth_list_update\<close>)
next
  case (Set_range I E)
  then have i: "I \<le> E" "E \<le> Size b" "xs = take I (bv_list b) @ replicate (E - I) True @ drop E (bv_list b)"
    using s by (auto simp: guarded_Some)
  obtain b' where b': "set_range I E b = Some b'" "result_is b' (Size b) (\<lambda>i. if I \<le> i \<and> i < E then True else bv_get b i)"
    using set_range_result(1) [OF ok i(1,2)] by blast
  show ?thesis by (rule run_resultI [OF b'(2)]) (use b'(1) Set_range i in \<open>auto simp: nth_append\<close>)
next
  case Reset_all
  then show ?thesis using s ok by (intro run_resultI [OF reset_all_result]) (auto simp: guarded_Some)
next
  case (Reset_at i)
  then have i: "i < Size b" "xs = (bv_list b)[i := False]" using s by (auto simp: guarded_Some)
  obtain b' where b': "reset_bit_at i b = Some b'" "result_is b' (Size b) (\<lambda>k. k \<noteq> i \<and> bv_get b k)"
    using bit_at_results(2) [OF ok i(1)] by blast
  show ?thesis by (rule run_resultI [OF b'(2)]) (use b'(1) Reset_at i in \<open>auto simp: nth_list_update\<close>)
next
  case (Reset_range I E)
  then have i: "I \<le> E" "E \<le> Size b" "xs = take I (bv_list b) @ replicate (E - I) False @ drop E (bv_list b)"
    using s by (auto simp: guarded_Some)
  obtain b' where b': "reset_range I E b = Some b'" "result_is b' (Size b) (\<lambda>i. if I \<le> i \<and> i < E then False else bv_get b i)"
    using set_range_result(2) [OF ok i(1,2)] by blast
  show ?thesis by (rule run_resultI [OF b'(2)]) (use b'(1) Reset_range i in \<open>auto simp: nth_append\<close>)
next
  case Flip_all
  then show ?thesis using s ok by (intro run_resultI [OF flip_all_result]) (auto simp: guarded_Some)
next
  case (Flip_at i)
  then have i: "i < Size b" "xs = (bv_list b)[i := \<not> bv_get b i]" using s by (auto simp: guarded_Some)
  obtain b' where b': "flip_bit_at i b = Some b'" "result_is b' (Size b) (\<lambda>k. if k = i then \<not> bv_get b k else bv_get b k)"
    using bit_at_results(3) [OF ok i(1)] by blast
  show ?thesis by (rule run_resultI [OF b'(2)]) (use b'(1) Flip_at i in \<open>auto simp: nth_list_update\<close>)
next
  case (And_with R)
  then show ?thesis using s ok by (intro run_resultI [OF and_with_result]) (auto simp: guarded_Some)
next
  case (Or_with R)
  then show ?thesis using s ok by (intro run_resultI [OF or_xor_result(1)]) (auto simp: guarded_Some)
next
  case (Xor_with R)
  then show ?thesis using s ok by (intro run_resultI [OF or_xor_result(2)]) (auto simp: guarded_Some)
next
  case (Reset_with R)
  then show ?thesis using s ok by (intro run_resultI [OF reset_with_result]) (auto simp: guarded_Some)
next
  case (Shift_left N)
  then have i: "N \<le> Size b" "xs = replicate N False @ take (Size b - N) (bv_list b)" using s by (auto simp: guarded_Some)
  obtain b' where b': "shift_left N b = Some b'" "result_is b' (Size b) (\<lambda>i. N \<le> i \<and> bv_get b (i - N))"
    using shift_left_result [OF ok i(1)] by blast
  show ?thesis by (rule run_resultI [OF b'(2)]) (use b'(1) Shift_left i in \<open>auto simp: nth_append\<close>)
next
  case (Shift_right N)
  then have i: "N \<le> Size b" "xs = drop N (bv_list b) @ replicate N False" using s by (auto simp: guarded_Some)
  obtain b' where b': "shift_right N b = Some b'" "result_is b' (Size b) (\<lambda>i. bv_get b (i + N))"
    using shift_right_result [OF ok i(1)] by blast
  show ?thesis
    by (rule run_resultI [OF b'(2)]) (use b'(1) Shift_right i in \<open>auto simp: nth_append add.commute dest!: bv_get_less\<close>)
next
  case (Apply_mask add ivt M n)
  then have i: "min n ((Size b + 31) div 32) \<le> length M"
    "xs = map (\<lambda>i. if add then bv_get b i \<or> mask_bit ivt (take n M) i else bv_get b i \<and> \<not> mask_bit ivt (take n M) i) [0..<Size b]"
    using s by (auto simp: guarded_Some)
  obtain b' where b': "applyMask add ivt M n b = Some b'" "result_is b' (Size b) (\<lambda>i.
      if add then bv_get b i \<or> mask_bit ivt (take n M) i else bv_get b i \<and> \<not> mask_bit ivt (take n M) i)"
    using applyMask_result [OF ok i(1)] by blast
  show ?thesis by (rule run_resultI [OF b'(2)]) (use b'(1) Apply_mask i(2) in \<open>auto\<close>)
qed

fun bv_runs :: "(nat \<Rightarrow> u64) \<Rightarrow> bv_op list \<Rightarrow> bitvector \<Rightarrow> bitvector option" where
  "bv_runs junk [] b = Some b"
| "bv_runs junk (op # ops) b = Option.bind (bv_run junk op b) (bv_runs junk ops)"

fun list_runs :: "bv_op list \<Rightarrow> bool list \<Rightarrow> bool list option" where
  "list_runs [] xs = Some xs"
| "list_runs (op # ops) xs = Option.bind (list_run op xs) (list_runs ops)"

lemma bv_runs_refine:
  "bv_ok b \<Longrightarrow> list_runs ops (bv_list b) = Some xs \<Longrightarrow> \<exists>b'. bv_runs junk ops b = Some b' \<and> bv_ok b' \<and> bv_list b' = xs"
proof (induction ops arbitrary: b)
  case (Cons op ops)
  then obtain ys where y: "list_run op (bv_list b) = Some ys" "list_runs ops ys = Some xs"
    by (auto simp: bind_eq_Some_conv)
  obtain b' where b': "bv_run junk op b = Some b'" "bv_ok b'" "bv_list b' = ys"
    using bv_run_refines [OF Cons.prems(1) y(1)] by blast
  then show ?case using Cons.IH [of b'] y(2) by simp
qed simp

text \<open>
  C26. A \<open>BitVector\<close> is a list of booleans: whatever sequence of operations is performed on a vector
  that was constructed with a size and a value, if the sequence makes sense on lists (no index out
  of range, no size above \<open>2 ^ 31\<close>), then the code performs it, its result holds exactly the bits
  of the list, the unused bits of its last word are 0, and neither depends on what fresh memory
  contained.
\<close>
theorem BitVector_refines_list:
  assumes "s \<le> 2 ^ 31" "list_runs ops (replicate s t) = Some xs"
  shows "\<exists>b. bv_runs junk ops (BitVector junk s t) = Some b \<and> bv_ok b \<and> bv_list b = xs"
proof -
  have "bv_ok (BitVector junk s t) \<and> bv_list (BitVector junk s t) = replicate s t"
    by (rule run_result [OF BitVector_result [OF assms(1)]]) simp_all
  then show ?thesis using bv_runs_refine assms(2) by metis
qed

theorem BitVector_refines_list_witness:
  "\<exists>b. bv_runs (\<lambda>_. 7) [Set_at 2, Shift_left 1, Resize 6 True, Flip_all] (BitVector (\<lambda>_. 7) 4 False) = Some b
    \<and> bv_ok b \<and> bv_list b = [True, True, True, False, False, False]"
proof -
  have r: "replicate 4 False = [False, False, False, False]" "replicate 2 True = [True, True]"
    by (simp_all add: numeral_eq_Suc)
  have "list_runs [Set_at 2, Shift_left 1, Resize 6 True, Flip_all] (replicate 4 False)
      = Some [True, True, True, False, False, False]"
    by (simp add: r guarded_def)
  from BitVector_refines_list [OF _ this, of "\<lambda>_. 7"] show ?thesis by simp
qed

text \<open>
  C27. The searches of \<open>BitVector\<close> in a range find the first or the last index of the range whose bit
  is set or unset, or answer \<open>-1\<close> when there is none; and the iterator visits the bits that are
  set in ascending order and ends, as many of them as \<open>count\<close> says.
\<close>
theorem BitVector_searches_correct:
  assumes "bv_ok b" "Begin \<le> End" "End \<le> Size b"
  shows "(\<exists>r. find_first_in b Begin End = Some r \<and> first_hit (bv_get b) Begin End r)
    \<and> (\<exists>r. find_last_in b Begin End = Some r \<and> last_hit (bv_get b) Begin End r)
    \<and> (\<exists>r. find_first_unset_in b Begin End = Some r \<and> first_hit (\<lambda>i. \<not> bv_get b i) Begin End r)
    \<and> (\<exists>r. find_last_unset_in b Begin End = Some r \<and> last_hit (\<lambda>i. \<not> bv_get b i) Begin End r)
    \<and> bv_set_bits b = Some (map int (filter (bv_get b) [0..<Size b]))
    \<and> bv_count b = length (filter id (bv_list b))"
  using find_first_in_hit [OF assms] find_last_in_hit [OF assms] find_unset_in_hit [OF assms]
    bv.iterates_in_order [OF assms(1)] bv_count_eq [OF assms(1)]
  by (simp add: bv_set_bits_def)

theorem BitVector_searches_correct_witness:
  "(\<exists>r. find_last_in \<lparr>Bits = [9, 0], Size = 70\<rparr> 1 70 = Some r
      \<and> last_hit (bv_get \<lparr>Bits = [9, 0], Size = 70\<rparr>) 1 70 r)
   \<and> bv_set_bits \<lparr>Bits = [9, 0], Size = 70\<rparr> = Some (map int (filter (bv_get \<lparr>Bits = [9, 0], Size = 70\<rparr>) [0..<70]))"
proof -
  have "\<not> wbit [9, 0] i" if "70 \<le> i" "i < 128" for i
  proof -
    have "i div 64 = 1" using that by (intro div_nat_eqI) simp_all
    then show ?thesis by (simp add: wbit_def)
  qed
  then have "bv_ok \<lparr>Bits = [9, 0], Size = 70\<rparr>" by (simp add: bv_ok_iff NumBitWords_def)
  from BitVector_searches_correct [OF this, of 1 70] show ?thesis by simp
qed

end
