(* ===== verification/LL_LEB128.thy ===== *)
theory LL_LEB128 imports PT_Prelude begin

text \<open>
  \<open>llvm/Support/LEB128.h\<close>: the variable-length encoding of 64-bit integers, to a stream and to a
  buffer, and its decoding.  A stream is the list of the bytes written to it; a buffer is a memory
  and a position; an \<open>int64_t\<close> is a word whose right shift is arithmetic.  What C leaves undefined
  (a read past the bytes given, a shift by 64 or more) is \<open>None\<close>.
\<close>

section \<open>Unsigned values\<close>

lemma drop7_less: "drop_bit 7 (V :: u64) \<noteq> 0 \<Longrightarrow> unat (drop_bit 7 V) < unat V"
proof -
  assume n: "drop_bit 7 V \<noteq> 0"
  have "unat (drop_bit 7 V) = unat V div 128" by (simp add: drop_bit_eq_div unat_div)
  moreover have "unat V \<noteq> 0" using n by (metis drop_bit_of_0 unsigned_0 word_unat_eq_iff)
  ultimately show ?thesis by simp
qed

text \<open>The \<open>do\<close> loop: the stream, and the count the padding starts from.\<close>

function uleb_stream_loop :: "u64 \<Rightarrow> nat \<Rightarrow> nat \<Rightarrow> byte list \<Rightarrow> byte list \<times> nat" where
  "uleb_stream_loop Value Count PadTo OS =
     (let Byte = ucast (Value AND 0x7f);
          Value = drop_bit 7 Value;
          Count = Count + 1;
          Byte = (if Value \<noteq> 0 \<or> Count < PadTo then Byte OR 0x80 else Byte);
          OS = OS @ [Byte]
      in if Value \<noteq> 0 then uleb_stream_loop Value Count PadTo OS else (OS, Count))"
  by pat_completeness auto

termination by (relation "measure (\<lambda>(Value, _). unat Value)") (auto simp: drop7_less)

declare uleb_stream_loop.simps [simp del]

fun pad_stream :: "byte \<Rightarrow> nat \<Rightarrow> byte list \<Rightarrow> byte list" where
  "pad_stream b 0 OS = OS"
| "pad_stream b (Suc n) OS = pad_stream b n (OS @ [b])"

definition encodeULEB128 :: "u64 \<Rightarrow> byte list \<Rightarrow> nat \<Rightarrow> byte list" where
  "encodeULEB128 Value OS PadTo =
     (let (OS, Count) = uleb_stream_loop Value 0 PadTo OS
      in if Count < PadTo then pad_stream 0x80 (PadTo - 1 - Count) OS @ [0x00] else OS)"

text \<open>The same loop writing \<open>*p++\<close>.\<close>

function uleb_buffer_loop ::
  "u64 \<Rightarrow> nat \<Rightarrow> nat \<Rightarrow> (addr \<Rightarrow> byte) \<Rightarrow> addr \<Rightarrow> (addr \<Rightarrow> byte) \<times> addr \<times> nat" where
  "uleb_buffer_loop Value Count PadTo m p =
     (let Byte = ucast (Value AND 0x7f);
          Value = drop_bit 7 Value;
          Count = Count + 1;
          Byte = (if Value \<noteq> 0 \<or> Count < PadTo then Byte OR 0x80 else Byte);
          m = m(p := Byte);
          p = p + 1
      in if Value \<noteq> 0 then uleb_buffer_loop Value Count PadTo m p else (m, p, Count))"
  by pat_completeness auto

termination by (relation "measure (\<lambda>(Value, _). unat Value)") (auto simp: drop7_less)

declare uleb_buffer_loop.simps [simp del]

fun pad_buffer :: "byte \<Rightarrow> nat \<Rightarrow> (addr \<Rightarrow> byte) \<Rightarrow> addr \<Rightarrow> (addr \<Rightarrow> byte) \<times> addr" where
  "pad_buffer b 0 m p = (m, p)"
| "pad_buffer b (Suc n) m p = pad_buffer b n (m(p := b)) (p + 1)"

text \<open>Returns the memory and the length \<open>(unsigned)(p - orig_p)\<close>.\<close>

definition encodeULEB128_buffer :: "u64 \<Rightarrow> (addr \<Rightarrow> byte) \<Rightarrow> addr \<Rightarrow> nat \<Rightarrow> (addr \<Rightarrow> byte) \<times> u32" where
  "encodeULEB128_buffer Value m orig_p PadTo =
     (let (m, p, Count) = uleb_buffer_loop Value 0 PadTo m orig_p;
          (m, p) = (if Count < PadTo
                    then let (m, p) = pad_buffer 0x80 (PadTo - 1 - Count) m p in (m(p := 0x00), p + 1)
                    else (m, p))
      in (m, ucast (p - orig_p)))"

text \<open>
  Decoding.  \<open>bs\<close> are the bytes that can be read from \<open>p\<close> on, \<open>fin\<close> the distance from \<open>p\<close> to
  \<open>end\<close>, if \<open>end\<close> is not null.  The result is the value, \<open>*n\<close> and \<open>*error\<close>.
\<close>

datatype leb_error = extends_past_end | too_big_for_uint64

fun uleb_decode_loop ::
  "byte list \<Rightarrow> nat option \<Rightarrow> nat \<Rightarrow> u64 \<Rightarrow> nat \<Rightarrow> (u64 \<times> nat \<times> leb_error option) option" where
  "uleb_decode_loop bs fin k Value Shift =
     (if fin = Some k then Some (0, k, Some extends_past_end)
      else case bs of [] \<Rightarrow> None
      | b # bs' \<Rightarrow>
          let Slice = ucast (b AND 0x7f) :: u64
          in if Shift \<ge> 64 \<or> drop_bit Shift (push_bit Shift Slice) \<noteq> Slice
             then Some (0, k, Some too_big_for_uint64)
             else let Value = Value + push_bit Shift (ucast (b AND 0x7f)); Shift = Shift + 7
                  in if b \<ge> 128 then uleb_decode_loop bs' fin (k + 1) Value Shift
                     else Some (Value, k + 1, None))"

declare uleb_decode_loop.simps [simp del]

definition decodeULEB128 :: "byte list \<Rightarrow> nat option \<Rightarrow> (u64 \<times> nat \<times> leb_error option) option" where
  "decodeULEB128 bs fin = uleb_decode_loop bs fin 0 0 0"

section \<open>Signed values\<close>

definition magnitude :: "u64 \<Rightarrow> nat" where
  "magnitude V = nat (if 0 \<le> sint V then sint V else - sint V - 1)"

lemma sint_asr7: "sint (signed_drop_bit 7 (V :: u64)) = sint V div 128"
  by (simp add: sint_signed_drop_bit_eq drop_bit_eq_div)

definition sleb_more :: "u64 \<Rightarrow> byte \<Rightarrow> bool" where
  "sleb_more Value Byte = (\<not> ((Value = 0 \<and> Byte AND 0x40 = 0) \<or> (Value = - 1 \<and> Byte AND 0x40 \<noteq> 0)))"

lemma sint_0_iff: "sint (V :: u64) = 0 \<longleftrightarrow> V = 0"
  by (metis signed_0 signed_word_eqI)

lemma sint_m1_iff: "sint (V :: u64) = - 1 \<longleftrightarrow> V = - 1"
  by (metis signed_minus_1 signed_word_eqI)

lemma sleb_more_decreases:
  assumes "sleb_more (signed_drop_bit 7 V) (ucast (V AND 0x7f))"
  shows "magnitude (signed_drop_bit 7 V) < magnitude V"
proof -
  have "V \<noteq> 0" "V \<noteq> - 1" using assms by (auto simp: sleb_more_def)
  then have "sint V \<noteq> 0" "sint V \<noteq> - 1" by (simp_all add: sint_0_iff sint_m1_iff)
  then show ?thesis by (auto simp: magnitude_def sint_asr7)
qed

function sleb_stream_loop :: "u64 \<Rightarrow> nat \<Rightarrow> nat \<Rightarrow> byte list \<Rightarrow> byte list \<times> nat \<times> u64" where
  "sleb_stream_loop Value Count PadTo OS =
     (let Byte = ucast (Value AND 0x7f);
          Value = signed_drop_bit 7 Value;
          More = sleb_more Value Byte;
          Count = Count + 1;
          Byte = (if More \<or> Count < PadTo then Byte OR 0x80 else Byte);
          OS = OS @ [Byte]
      in if More then sleb_stream_loop Value Count PadTo OS else (OS, Count, Value))"
  by pat_completeness auto

termination by (relation "measure (\<lambda>(Value, _). magnitude Value)") (auto simp: sleb_more_decreases)

declare sleb_stream_loop.simps [simp del]

definition encodeSLEB128 :: "u64 \<Rightarrow> byte list \<Rightarrow> nat \<Rightarrow> byte list" where
  "encodeSLEB128 Value OS PadTo =
     (let (OS, Count, Value) = sleb_stream_loop Value 0 PadTo OS
      in if Count < PadTo
         then let PadValue = (if sint Value < 0 then 0x7f else 0x00)
              in pad_stream (PadValue OR 0x80) (PadTo - 1 - Count) OS @ [PadValue]
         else OS)"

function sleb_buffer_loop ::
  "u64 \<Rightarrow> nat \<Rightarrow> nat \<Rightarrow> (addr \<Rightarrow> byte) \<Rightarrow> addr \<Rightarrow> (addr \<Rightarrow> byte) \<times> addr \<times> nat \<times> u64" where
  "sleb_buffer_loop Value Count PadTo m p =
     (let Byte = ucast (Value AND 0x7f);
          Value = signed_drop_bit 7 Value;
          More = sleb_more Value Byte;
          Count = Count + 1;
          Byte = (if More \<or> Count < PadTo then Byte OR 0x80 else Byte);
          m = m(p := Byte);
          p = p + 1
      in if More then sleb_buffer_loop Value Count PadTo m p else (m, p, Count, Value))"
  by pat_completeness auto

termination by (relation "measure (\<lambda>(Value, _). magnitude Value)") (auto simp: sleb_more_decreases)

declare sleb_buffer_loop.simps [simp del]

definition encodeSLEB128_buffer :: "u64 \<Rightarrow> (addr \<Rightarrow> byte) \<Rightarrow> addr \<Rightarrow> nat \<Rightarrow> (addr \<Rightarrow> byte) \<times> u32" where
  "encodeSLEB128_buffer Value m orig_p PadTo =
     (let (m, p, Count, Value) = sleb_buffer_loop Value 0 PadTo m orig_p;
          (m, p) = (if Count < PadTo
                    then let PadValue = (if sint Value < 0 then 0x7f else 0x00);
                             (m, p) = pad_buffer (PadValue OR 0x80) (PadTo - 1 - Count) m p
                         in (m(p := PadValue), p + 1)
                    else (m, p))
      in (m, ucast (p - orig_p)))"

text \<open>Shifts of 64-bit operands: by 64 or more they are undefined.\<close>

definition shl64 :: "u64 \<Rightarrow> nat \<Rightarrow> u64 option" where
  "shl64 w n = (if n < 64 then Some (push_bit n w) else None)"

text \<open>The loop gives the value, the shift, the last byte and the count, or the error's count.\<close>

fun sleb_decode_loop ::
  "byte list \<Rightarrow> nat option \<Rightarrow> nat \<Rightarrow> u64 \<Rightarrow> nat \<Rightarrow> (nat + u64 \<times> nat \<times> byte \<times> nat) option" where
  "sleb_decode_loop bs fin k Value Shift =
     (if fin = Some k then Some (Inl k)
      else case bs of [] \<Rightarrow> None
      | Byte # bs' \<Rightarrow>
          (case shl64 (ucast (Byte AND 0x7f)) Shift of None \<Rightarrow> None
           | Some bits7 \<Rightarrow>
               let Value = Value OR bits7; Shift = Shift + 7
               in if Byte \<ge> 128 then sleb_decode_loop bs' fin (k + 1) Value Shift
                  else Some (Inr (Value, Shift, Byte, k + 1))))"

declare sleb_decode_loop.simps [simp del]

definition decodeSLEB128 :: "byte list \<Rightarrow> nat option \<Rightarrow> (u64 \<times> nat \<times> leb_error option) option" where
  "decodeSLEB128 bs fin =
     (case sleb_decode_loop bs fin 0 0 0 of
        None \<Rightarrow> None
      | Some (Inl k) \<Rightarrow> Some (0, k, Some extends_past_end)
      | Some (Inr (Value, Shift, Byte, k)) \<Rightarrow>
          if Byte AND 0x40 \<noteq> 0
          then map_option (\<lambda>ones. (Value OR ones, k, None)) (shl64 (- 1) Shift)
          else Some (Value, k, None))"

end
