(* ===== verification/LL_LEB_Lemmas.thy ===== *)
theory LL_LEB_Lemmas imports LL_LEB128 begin

text \<open>
  The encodings as one recursion over the value, their exact length, and what the decoders make
  of them.
\<close>

section \<open>Seven bits in a byte\<close>

lemma byte_ge_128: "128 \<le> (b :: byte) \<longleftrightarrow> bit b 7"
proof -
  have "unat b < 2 ^ 7 \<longleftrightarrow> (\<forall>k. bit b k \<longrightarrow> k < 7)" by (rule unat_less_exp_iff) simp
  also have "\<dots> \<longleftrightarrow> \<not> bit b 7" using bit8_bound [of b] by (auto simp: less_Suc_eq numeral_eq_Suc)
  finally show ?thesis by (simp add: word_le_nat_alt not_less [symmetric])
qed

lemma bit_literals:
  "bit (128 :: int) n \<longleftrightarrow> n = 7" "bit (127 :: int) n \<longleftrightarrow> n < 7" "bit (64 :: int) n \<longleftrightarrow> n = 6"
proof -
  have "(128 :: int) = push_bit 7 1" "(127 :: int) = mask 7" "(64 :: int) = push_bit 6 1"
    by (simp_all add: mask_eq_exp_minus_1)
  then show "bit (128 :: int) n \<longleftrightarrow> n = 7" "bit (127 :: int) n \<longleftrightarrow> n < 7" "bit (64 :: int) n \<longleftrightarrow> n = 6"
    by (simp_all only: bit_mask_iff bit_push_bit_iff) (auto simp: bit_1_iff)
qed

lemma and_127: "V AND 127 = take_bit 7 (V :: u64)"
  by (simp add: take_bit_eq_mask mask_eq_exp_minus_1)

lemmas leb_bits = byte_ge_128 bit_literals bit_and_iff bit_or_iff
  bit_unsigned_iff bit_take_bit_iff bit_push_bit_iff bit_drop_bit_eq

lemma low7 [simp]:
  "\<not> 128 \<le> (ucast (V AND 127 :: u64) :: byte)"
  "128 \<le> (ucast (V AND 127 :: u64) OR 128 :: byte)"
  "(ucast ((ucast (V AND 127 :: u64) OR 128 :: byte) AND 127) :: u64) = V AND 127"
  "(ucast ((ucast (V AND 127 :: u64) :: byte) AND 127) :: u64) = V AND 127"
  by (auto simp: leb_bits intro!: bit_word_eqI)

lemma and_64_byte: "(b :: byte) AND 64 = 0 \<longleftrightarrow> \<not> bit b 6"
proof
  assume "b AND 64 = 0"
  then have "\<not> bit (b AND 64) 6" by (simp only: bit_0_eq) simp
  then show "\<not> bit b 6" by (simp add: leb_bits)
next
  assume "\<not> bit b 6"
  then show "b AND 64 = 0" by (intro bit_word_eqI) (auto simp: leb_bits)
qed

lemma low7_bit6 [simp]:
  "(ucast (V AND 127 :: u64) :: byte) AND 64 = 0 \<longleftrightarrow> \<not> bit V 6"
  "(ucast (V AND 127 :: u64) OR 128 :: byte) AND 64 = 0 \<longleftrightarrow> \<not> bit V 6"
  using and_64_byte [of "ucast (V AND 127)"] and_64_byte [of "ucast (V AND 127) OR 128"]
  by (auto simp: leb_bits)

section \<open>Unsigned\<close>

text \<open>Padding goes on as the encoding of a value of 0 would.\<close>

lemma drop7_le: "unat (drop_bit 7 (V :: u64)) \<le> unat V"
  by (simp add: drop_bit_eq_div unat_div)

function uleb :: "u64 \<Rightarrow> nat \<Rightarrow> nat \<Rightarrow> byte list" where
  "uleb V C P =
     (if drop_bit 7 V \<noteq> 0 \<or> C + 1 < P
      then (ucast (V AND 127) OR 128) # uleb (drop_bit 7 V) (C + 1) P else [ucast (V AND 127)])"
  by pat_completeness auto

termination
proof (relation "measure (\<lambda>(V, C, P). unat V + (P - C))")
  fix V :: u64 and C P :: nat
  assume "drop_bit 7 V \<noteq> 0 \<or> C + 1 < P"
  then show "((drop_bit 7 V, C + 1, P), V, C, P) \<in> measure (\<lambda>(V, C, P). unat V + (P - C))"
  proof
    assume "drop_bit 7 V \<noteq> 0"
    from drop7_less [OF this] show ?thesis by simp
  next
    assume "C + 1 < P"
    then show ?thesis using drop7_le [of V] by simp
  qed
qed simp

declare uleb.simps [simp del]

lemma pad_stream_eq: "pad_stream b n OS = OS @ replicate n b"
  by (induction b n OS rule: pad_stream.induct) (simp_all add: replicate_append_same [symmetric])

lemma uleb_0: "C < P \<Longrightarrow> uleb 0 C P = replicate (P - 1 - C) 128 @ [0]"
proof (induction "P - C" arbitrary: C)
  case (Suc n)
  show ?case
  proof (cases "C + 1 < P")
    case True
    then have "uleb 0 (C + 1) P = replicate (P - 1 - (C + 1)) 128 @ [0]" using Suc.hyps(2) by (intro Suc.hyps(1)) simp_all
    moreover have "P - 1 - C = Suc (P - 1 - (C + 1))" using True by simp
    ultimately show ?thesis using True by (subst uleb.simps) simp
  next
    case False
    then show ?thesis using Suc.prems by (subst uleb.simps) simp
  qed
qed simp

lemma uleb_stream_loop_uleb:
  "uleb_stream_loop V C P OS = (OS', C') \<Longrightarrow>
   (if C' < P then pad_stream 128 (P - 1 - C') OS' @ [0] else OS') = OS @ uleb V C P"
proof (induction V C P OS rule: uleb_stream_loop.induct)
  case (1 V C P OS)
  show ?case
  proof (cases "drop_bit 7 V = 0")
    case True
    with "1.prems" have e: "C' = C + 1" "OS' = OS @ [if C + 1 < P then ucast (V AND 127) OR 128 else ucast (V AND 127)]"
      by (auto simp: uleb_stream_loop.simps [of V] Let_def split: if_splits)
    show ?thesis using True uleb_0 [of "C + 1" P]
      by (subst uleb.simps) (simp add: e pad_stream_eq)
  next
    case False
    with "1.prems" have "uleb_stream_loop (drop_bit 7 V) (C + 1) P (OS @ [ucast (V AND 127) OR 128]) = (OS', C')"
      by (simp add: uleb_stream_loop.simps [of V])
    from "1.IH" [OF refl refl refl refl refl False] this False show ?thesis
      by (subst uleb.simps) simp
  qed
qed

lemma encodeULEB128_uleb: "encodeULEB128 V OS P = OS @ uleb V 0 P"
  using uleb_stream_loop_uleb [of V 0 P OS] by (auto simp: encodeULEB128_def split: prod.splits)

lemma uleb_nonempty: "uleb V C P \<noteq> []"
  by (subst uleb.simps) simp

text \<open>The exact length: the least one that is enough for the value and the padding.\<close>

lemma length_uleb: "0 < n \<Longrightarrow> length (uleb V C P) \<le> n \<longleftrightarrow> P \<le> C + n \<and> unat V < 2 ^ (7 * n)"
proof (induction V C P arbitrary: n rule: uleb.induct)
  case (1 V C P)
  have d: "unat (drop_bit 7 V) = unat V div 128" by (simp add: drop_bit_eq_div unat_div)
  show ?case
  proof (cases "drop_bit 7 V \<noteq> 0 \<or> C + 1 < P")
    case True
    show ?thesis
    proof (cases "n = 1")
      case n: True
      have "\<not> length (uleb V C P) \<le> n"
        using True n by (subst uleb.simps) (simp add: uleb_nonempty)
      moreover have "\<not> (P \<le> C + n \<and> unat V < 2 ^ (7 * n))"
        using True n d by (auto simp: unat_eq_0 [symmetric] simp del: unat_eq_0)
      ultimately show ?thesis by blast
    next
      case False
      then obtain m where m: "n = Suc m" "0 < m" using "1.prems" by (cases n) auto
      have "length (uleb V C P) \<le> n \<longleftrightarrow> length (uleb (drop_bit 7 V) (C + 1) P) \<le> m"
        using True m by (subst uleb.simps) simp
      also have "\<dots> \<longleftrightarrow> P \<le> C + 1 + m \<and> unat V div 128 < 2 ^ (7 * m)"
        using "1.IH" [OF True m(2)] by (simp only: d)
      also have "unat V div 128 < 2 ^ (7 * m) \<longleftrightarrow> unat V < 2 ^ (7 * n)"
        by (simp add: m(1) div_less_iff_less_mult power_add mult.commute)
      finally show ?thesis using m by simp
    qed
  next
    case False
    then have "unat V div 128 = 0" using d by simp
    then have "unat V < 128" by simp
    also have "(128 :: nat) \<le> 2 ^ (7 * n)"
      using power_increasing [of 7 "7 * n" "2 :: nat"] "1.prems" by simp
    finally show ?thesis using False "1.prems" by (subst uleb.simps) auto
  qed
qed

lemma slice_fits:
  assumes "unat V < 2 ^ (64 - S)" "S < 64"
  shows "drop_bit S (push_bit S (V AND 127)) = (V AND 127 :: u64)"
proof -
  have b: "\<not> bit V i" if "64 \<le> i + S" for i
  proof (cases "S = 0")
    case False
    then have "\<forall>k. bit V k \<longrightarrow> k < 64 - S" using assms unat_less_exp_iff [of "64 - S" V] by simp
    then show ?thesis using that by auto
  qed (use that in \<open>auto dest: bit64_bound\<close>)
  have "S + n < 64" if "bit V n" for n using b [of n] that by (cases "64 \<le> n + S") auto
  then have "bit (drop_bit S (push_bit S (V AND 127))) n = bit (V AND 127) n" for n
    unfolding bit_drop_bit_eq bit_push_bit_iff comp_def bit_and_iff possible_bit_word
    by (cases "bit V n") simp_all
  then show ?thesis by (intro bit_word_eqI)
qed

lemma uleb_decode_step:
  assumes "fin \<noteq> Some k" "S < 64" "ucast (b AND 127) = W" "drop_bit S (push_bit S W) = W"
  shows "uleb_decode_loop (b # bs) fin k A S =
    (if 128 \<le> b then uleb_decode_loop bs fin (k + 1) (A + push_bit S W) (S + 7)
     else Some (A + push_bit S W, k + 1, None))"
  using assms by (simp only: uleb_decode_loop.simps [of "_ # _"] list.case Let_def) simp

lemma uleb_decode:
  assumes "S = 7 * C" "S < 64" "unat V < 2 ^ (64 - S)" "P \<le> 10"
    and f: "\<And>e. fin = Some e \<Longrightarrow> k + length (uleb V C P) \<le> e"
  shows "uleb_decode_loop (uleb V C P @ rest) fin k A S = Some (A + push_bit S V, k + length (uleb V C P), None)"
  using assms
proof (induction V C P arbitrary: k A S rule: uleb.induct)
  case (1 V C P)
  note fits = slice_fits [OF "1.prems"(3,2)]
  have l: "0 < length (uleb V C P)" using uleb_nonempty [of V C P] by simp
  have fin: "fin \<noteq> Some k" using "1.prems"(5) [of k] l by auto
  have split: "push_bit S V = push_bit S (V AND 127) + push_bit (S + 7) (drop_bit 7 V)"
  proof -
    have "V = take_bit 7 V + push_bit 7 (drop_bit 7 V)" by (metis add.commute bits_ident)
    then have "push_bit S V = push_bit S (take_bit 7 V) + push_bit S (push_bit 7 (drop_bit 7 V))"
      by (metis push_bit_add)
    then show ?thesis by (simp add: and_127)
  qed
  show ?case
  proof (cases "drop_bit 7 V \<noteq> 0 \<or> C + 1 < P")
    case True
    have d: "unat (drop_bit 7 V) = unat V div 128" by (simp add: drop_bit_eq_div unat_div)
    have S7: "S + 7 < 64"
    proof (cases "drop_bit 7 V = 0")
      case False
      then have "128 \<le> unat V" using d by (simp add: unat_gt_0 [symmetric] div_greater_zero_iff)
      then have "(2 :: nat) ^ 7 < 2 ^ (64 - S)" using "1.prems"(3) by simp
      then have "7 < 64 - S" by (subst (asm) power_strict_increasing_iff) simp_all
      then show ?thesis by simp
    qed (use True "1.prems" in simp)
    have e: "64 - S = (64 - (S + 7)) + 7" using S7 by simp
    have V7: "unat (drop_bit 7 V) < 2 ^ (64 - (S + 7))"
    proof -
      have "unat V < 2 ^ (64 - (S + 7)) * 2 ^ 7" using "1.prems"(3) unfolding e power_add .
      then show ?thesis unfolding d by (simp add: div_less_iff_less_mult)
    qed
    have u: "uleb V C P = (ucast (V AND 127) OR 128) # uleb (drop_bit 7 V) (C + 1) P"
      using True by (subst uleb.simps) simp
    have ih: "uleb_decode_loop (uleb (drop_bit 7 V) (C + 1) P @ rest) fin (k + 1) (A + push_bit S (V AND 127)) (S + 7)
      = Some (A + push_bit S (V AND 127) + push_bit (S + 7) (drop_bit 7 V), k + 1 + length (uleb (drop_bit 7 V) (C + 1) P), None)"
      using "1.prems" S7 V7 u by (intro "1.IH" [OF True]) auto
    show ?thesis
      unfolding u append_Cons uleb_decode_step [OF fin "1.prems"(2) low7(3) fits] split
      by (simp only: low7 if_True ih add.assoc list.size) simp
  next
    case False
    then have u: "uleb V C P = [ucast (V AND 127)]" by (subst uleb.simps) simp
    show ?thesis
      unfolding u append_Cons uleb_decode_step [OF fin "1.prems"(2) low7(4) fits] split
      using False by (simp del: push_bit_and)
  qed
qed

text \<open>The buffer gets the bytes of the stream.\<close>

fun write_bytes :: "(addr \<Rightarrow> byte) \<Rightarrow> addr \<Rightarrow> byte list \<Rightarrow> addr \<Rightarrow> byte" where
  "write_bytes m p [] = m"
| "write_bytes m p (b # bs) = write_bytes (m(p := b)) (p + 1) bs"

lemma write_bytes_append: "write_bytes m p (bs @ cs) = write_bytes (write_bytes m p bs) (p + of_nat (length bs)) cs"
  by (induction m p bs rule: write_bytes.induct) (simp_all add: fun_upd_def add.assoc)

lemma pad_buffer_eq: "pad_buffer b n m p = (write_bytes m p (replicate n b), p + of_nat n)"
  by (induction b n m p rule: pad_buffer.induct) (simp_all add: fun_upd_def add.commute add.left_commute)

lemma uleb_buffer_loop_uleb:
  "uleb_buffer_loop V C P m p = (m', p', C') \<Longrightarrow>
   (if C' < P then (case pad_buffer 128 (P - 1 - C') m' p' of (m, p) \<Rightarrow> (m(p := 0), p + 1)) else (m', p'))
     = (write_bytes m p (uleb V C P), p + of_nat (length (uleb V C P)))"
proof (induction V C P m p rule: uleb_buffer_loop.induct)
  case (1 V C P m p)
  show ?case
  proof (cases "drop_bit 7 V = 0")
    case True
    with "1.prems" have e: "C' = C + 1" "p' = p + 1"
        "m' = m(p := if C + 1 < P then ucast (V AND 127) OR 128 else ucast (V AND 127))"
      by (auto simp: uleb_buffer_loop.simps [of V] Let_def split: if_splits)
    show ?thesis using True uleb_0 [of "C + 1" P]
      by (subst (1 2) uleb.simps) (simp add: e pad_buffer_eq write_bytes_append del: fun_upd_apply)
  next
    case False
    with "1.prems" have "uleb_buffer_loop (drop_bit 7 V) (C + 1) P (m(p := ucast (V AND 127) OR 128)) (p + 1) = (m', p', C')"
      by (simp add: uleb_buffer_loop.simps [of V])
    from "1.IH" [OF refl refl refl refl refl refl False] this False show ?thesis
      by (subst (1 2) uleb.simps) (simp add: fun_upd_def add.commute add.left_commute)
  qed
qed

lemma ucast_u32_of_nat: "(ucast (of_nat n :: u64) :: u32) = of_nat n"
  by (rule bit_word_eqI) (simp add: bit_simps)

lemma encodeULEB128_buffer_uleb:
  "encodeULEB128_buffer V m p P = (write_bytes m p (uleb V 0 P), of_nat (length (uleb V 0 P)))"
proof -
  obtain m' p' C' where l: "uleb_buffer_loop V 0 P m p = (m', p', C')" by (metis prod_cases3)
  show ?thesis
    using uleb_buffer_loop_uleb [OF l] by (cases "C' < P") (auto simp: encodeULEB128_buffer_def l ucast_u32_of_nat split: prod.splits)
qed

section \<open>Signed\<close>

lemma bit_asr7: "n + 7 < 64 \<Longrightarrow> bit (signed_drop_bit 7 (V :: u64)) n \<longleftrightarrow> bit V (n + 7)"
  by (simp add: bit_signed_drop_bit_iff add.commute)

lemma magnitude_asr7: "magnitude (signed_drop_bit 7 V) \<le> magnitude V"
  by (auto simp: magnitude_def sint_asr7)

function sleb :: "u64 \<Rightarrow> nat \<Rightarrow> nat \<Rightarrow> byte list" where
  "sleb V C P =
     (if sleb_more (signed_drop_bit 7 V) (ucast (V AND 127)) \<or> C + 1 < P
      then (ucast (V AND 127) OR 128) # sleb (signed_drop_bit 7 V) (C + 1) P else [ucast (V AND 127)])"
  by pat_completeness auto

termination
proof (relation "measure (\<lambda>(V, C, P). magnitude V + (P - C))")
  fix V :: u64 and C P :: nat
  assume "sleb_more (signed_drop_bit 7 V) (ucast (V AND 127)) \<or> C + 1 < P"
  then show "((signed_drop_bit 7 V, C + 1, P), V, C, P) \<in> measure (\<lambda>(V, C, P). magnitude V + (P - C))"
  proof
    assume "sleb_more (signed_drop_bit 7 V) (ucast (V AND 127))"
    from sleb_more_decreases [OF this] show ?thesis by simp
  next
    assume "C + 1 < P"
    then show ?thesis using magnitude_asr7 [of V] by simp
  qed
qed simp

declare sleb.simps [simp del]

lemma sleb_nonempty: "sleb V C P \<noteq> []"
  by (subst sleb.simps) simp

text \<open>One byte is enough exactly for the values from -64 to 63.\<close>

lemma odd_div64: "odd (x div 64) \<longleftrightarrow> 64 \<le> x mod 128" for x :: int
proof -
  let ?q = "x div 128" and ?r = "x mod 128"
  have r: "0 \<le> ?r" "?r < 128" by simp_all
  have "x div 64 = (64 * (2 * ?q) + ?r) div 64" by (simp add: algebra_simps)
  also have "\<dots> = 2 * ?q + ?r div 64" by (rule div_mult_self4) simp
  finally have "odd (x div 64) \<longleftrightarrow> odd (?r div 64)" by simp
  also have "\<dots> \<longleftrightarrow> 64 \<le> ?r"
  proof (cases "64 \<le> ?r")
    case True
    then have "?r div 64 = 1" using r by (simp add: div_pos_geq div_pos_pos_trivial)
    then show ?thesis using True by simp
  qed (use r in \<open>simp add: div_pos_pos_trivial\<close>)
  finally show ?thesis .
qed

lemma bit6_iff: "bit (V :: u64) 6 \<longleftrightarrow> sint V mod 128 \<ge> 64"
proof -
  have "bit V 6 \<longleftrightarrow> bit (sint V) 6" by (simp add: bit_sint_iff)
  also have "\<dots> \<longleftrightarrow> odd (sint V div 64)" by (simp only: bit_iff_odd) simp
  finally show ?thesis by (simp only: odd_div64)
qed
lemma one_byte: "x div 128 = 0 \<and> \<not> 64 \<le> x mod 128 \<or> x div 128 = - 1 \<and> x mod 128 \<ge> 64 \<longleftrightarrow> - 64 \<le> x \<and> x < (64 :: int)"
proof -
  have "x = 128 * (x div 128) + x mod 128" "0 \<le> x mod 128" "x mod 128 < 128" by simp_all
  then show ?thesis by arith
qed

lemma mod_near_0: "- 64 \<le> x \<Longrightarrow> x < 64 \<Longrightarrow> 64 \<le> x mod 128 \<longleftrightarrow> x < (0 :: int)"
  using mod_pos_pos_trivial [of "x + 128" 128] mod_pos_pos_trivial [of x 128] by (cases "x < 0") auto

lemma div128_bounds:
  "x div 128 < k \<longleftrightarrow> x < k * 128" "- k \<le> x div 128 \<longleftrightarrow> - (k * 128) \<le> x" for x k :: int
proof -
  have "x = 128 * (x div 128) + x mod 128" "0 \<le> x mod 128" "x mod 128 < 128" by simp_all
  then show "x div 128 < k \<longleftrightarrow> x < k * 128" "- k \<le> x div 128 \<longleftrightarrow> - (k * 128) \<le> x" by linarith+
qed

lemma sleb_more_iff:
  "\<not> sleb_more (signed_drop_bit 7 V) (ucast (V AND 127)) \<longleftrightarrow> - 64 \<le> sint V \<and> sint V < 64"
proof -
  have "\<not> sleb_more (signed_drop_bit 7 V) (ucast (V AND 127)) \<longleftrightarrow>
      sint V div 128 = 0 \<and> \<not> 64 \<le> sint V mod 128 \<or> sint V div 128 = - 1 \<and> sint V mod 128 \<ge> 64"
    unfolding sleb_more_def sint_0_iff [symmetric] sint_m1_iff [symmetric] sint_asr7 low7_bit6 bit6_iff
    by (simp only: not_not)
  then show ?thesis unfolding one_byte .
qed

lemma sleb_const: "V = 0 \<or> V = - 1 \<Longrightarrow> C < P \<Longrightarrow>
  sleb V C P = replicate (P - 1 - C) (ucast (V AND 127) OR 128) @ [ucast (V AND 127)]"
proof (induction "P - C" arbitrary: C)
  case (Suc n)
  have m: "\<not> sleb_more (signed_drop_bit 7 V) (ucast (V AND 127))" "signed_drop_bit 7 V = V"
    using Suc.prems(1) unfolding sleb_more_iff by auto
  show ?case
  proof (cases "C + 1 < P")
    case True
    then have "sleb V (C + 1) P = replicate (P - 1 - (C + 1)) (ucast (V AND 127) OR 128) @ [ucast (V AND 127)]"
      using Suc.hyps(2) Suc.prems(1) by (intro Suc.hyps(1)) simp_all
    moreover have "P - 1 - C = Suc (P - 1 - (C + 1))" using True by simp
    ultimately show ?thesis using True m by (subst sleb.simps) simp
  next
    case False
    then show ?thesis using Suc.prems m by (subst sleb.simps) simp
  qed
qed simp

text \<open>What the encoders append after the loop.\<close>

lemma sleb_pad:
  assumes "V = 0 \<or> V = - 1" "C < P"
  shows "sleb V C P = (let PadValue = (if sint V < 0 then 127 else 0)
    in replicate (P - 1 - C) (PadValue OR 128) @ [PadValue])"
proof -
  have "ucast (V AND 127) = (if sint V < 0 then 127 else 0 :: byte)" using assms(1) by auto
  then show ?thesis using sleb_const [OF assms] by (simp only: Let_def)
qed

lemma sleb_more_stop:
  "\<not> sleb_more V b \<Longrightarrow> V = 0 \<or> V = - 1"
  by (auto simp: sleb_more_def)

lemma sleb_stream_loop_sleb:
  "sleb_stream_loop V C P OS = (OS', C', W) \<Longrightarrow>
   (if C' < P then let PadValue = (if sint W < 0 then 127 else 0)
      in pad_stream (PadValue OR 128) (P - 1 - C') OS' @ [PadValue] else OS') = OS @ sleb V C P"
proof (induction V C P OS rule: sleb_stream_loop.induct)
  case (1 V C P OS)
  show ?case
  proof (cases "sleb_more (signed_drop_bit 7 V) (ucast (V AND 127))")
    case False
    with "1.prems" have e: "C' = C + 1" "W = signed_drop_bit 7 V"
        "OS' = OS @ [if C + 1 < P then ucast (V AND 127) OR 128 else ucast (V AND 127)]"
      by (auto simp: sleb_stream_loop.simps [of V] Let_def split: if_splits)
    show ?thesis using False sleb_pad [OF sleb_more_stop [OF False], of "C + 1" P]
      by (subst sleb.simps) (simp add: e pad_stream_eq Let_def)
  next
    case True
    with "1.prems" have "sleb_stream_loop (signed_drop_bit 7 V) (C + 1) P (OS @ [ucast (V AND 127) OR 128]) = (OS', C', W)"
      by (simp add: sleb_stream_loop.simps [of V] Let_def)
    from "1.IH" [OF refl refl refl refl refl refl True] this True show ?thesis
      by (subst sleb.simps) simp
  qed
qed

lemma encodeSLEB128_sleb: "encodeSLEB128 V OS P = OS @ sleb V 0 P"
proof -
  obtain OS' C' W where l: "sleb_stream_loop V 0 P OS = (OS', C', W)" by (metis prod_cases3)
  show ?thesis using sleb_stream_loop_sleb [OF l] by (simp add: encodeSLEB128_def l)
qed

lemma sleb_buffer_loop_sleb:
  "sleb_buffer_loop V C P m p = (m', p', C', W) \<Longrightarrow>
   (if C' < P then let PadValue = (if sint W < 0 then 127 else 0)
      in (case pad_buffer (PadValue OR 128) (P - 1 - C') m' p' of (m, p) \<Rightarrow> (m(p := PadValue), p + 1)) else (m', p'))
     = (write_bytes m p (sleb V C P), p + of_nat (length (sleb V C P)))"
proof (induction V C P m p rule: sleb_buffer_loop.induct)
  case (1 V C P m p)
  show ?case
  proof (cases "sleb_more (signed_drop_bit 7 V) (ucast (V AND 127))")
    case False
    with "1.prems" have e: "C' = C + 1" "p' = p + 1" "W = signed_drop_bit 7 V"
        "m' = m(p := if C + 1 < P then ucast (V AND 127) OR 128 else ucast (V AND 127))"
      by (auto simp: sleb_buffer_loop.simps [of V] Let_def split: if_splits)
    show ?thesis using False sleb_pad [OF sleb_more_stop [OF False], of "C + 1" P]
      by (subst (1 2) sleb.simps) (simp add: e pad_buffer_eq write_bytes_append Let_def del: fun_upd_apply)
  next
    case True
    with "1.prems" have "sleb_buffer_loop (signed_drop_bit 7 V) (C + 1) P (m(p := ucast (V AND 127) OR 128)) (p + 1) = (m', p', C', W)"
      by (simp add: sleb_buffer_loop.simps [of V] Let_def)
    from "1.IH" [OF refl refl refl refl refl refl refl True] this True show ?thesis
      by (subst (1 2) sleb.simps) (simp add: fun_upd_def add.commute add.left_commute)
  qed
qed

lemma encodeSLEB128_buffer_sleb:
  "encodeSLEB128_buffer V m p P = (write_bytes m p (sleb V 0 P), of_nat (length (sleb V 0 P)))"
proof -
  obtain m' p' C' W where l: "sleb_buffer_loop V 0 P m p = (m', p', C', W)" by (metis prod_cases4)
  show ?thesis
    using sleb_buffer_loop_sleb [OF l]
    by (cases "C' < P") (auto simp: encodeSLEB128_buffer_def l Let_def ucast_u32_of_nat split: prod.splits)
qed

text \<open>The exact length.\<close>

lemma length_sleb:
  "0 < n \<Longrightarrow> length (sleb V C P) \<le> n \<longleftrightarrow>
    P \<le> C + n \<and> - (2 ^ (7 * n - 1)) \<le> sint V \<and> sint V < 2 ^ (7 * n - 1)"
proof (induction V C P arbitrary: n rule: sleb.induct)
  case (1 V C P)
  show ?case
  proof (cases "sleb_more (signed_drop_bit 7 V) (ucast (V AND 127)) \<or> C + 1 < P")
    case True
    show ?thesis
    proof (cases "n = 1")
      case n: True
      have "\<not> length (sleb V C P) \<le> n"
        using True n by (subst sleb.simps) (simp add: sleb_nonempty)
      moreover have "\<not> (P \<le> C + n \<and> - (2 ^ (7 * n - 1)) \<le> sint V \<and> sint V < 2 ^ (7 * n - 1))"
        using True n sleb_more_iff [of V] by auto
      ultimately show ?thesis by blast
    next
      case False
      then obtain m where m: "n = Suc m" "0 < m" using "1.prems" by (cases n) auto
      have e: "7 * n - 1 = (7 * m - 1) + 7" using m by simp
      have "length (sleb V C P) \<le> n \<longleftrightarrow> length (sleb (signed_drop_bit 7 V) (C + 1) P) \<le> m"
        using True m by (subst sleb.simps) simp
      also have "\<dots> \<longleftrightarrow> P \<le> C + 1 + m \<and> - (2 ^ (7 * m - 1)) \<le> sint V div 128 \<and> sint V div 128 < 2 ^ (7 * m - 1)"
        using "1.IH" [OF True m(2)] by (simp only: sint_asr7)
      also have "sint V div 128 < 2 ^ (7 * m - 1) \<longleftrightarrow> sint V < 2 ^ (7 * n - 1)"
        unfolding e power_add div128_bounds by simp
      also have "- (2 ^ (7 * m - 1)) \<le> sint V div 128 \<longleftrightarrow> - (2 ^ (7 * n - 1)) \<le> sint V"
        unfolding e power_add div128_bounds by simp
      finally show ?thesis using m by simp
    qed
  next
    case False
    then have r: "- 64 \<le> sint V" "sint V < 64" using sleb_more_iff [of V] by auto
    have "(64 :: int) \<le> 2 ^ (7 * n - 1)"
      using power_increasing [of 6 "7 * n - 1" "2 :: int"] "1.prems" by simp
    then show ?thesis using False "1.prems" r by (subst sleb.simps) auto
  qed
qed

lemma sleb_decode_step:
  assumes "fin \<noteq> Some k" "S < 64" "ucast (b AND 127) = W"
  shows "sleb_decode_loop (b # bs) fin k A S =
    (if 128 \<le> b then sleb_decode_loop bs fin (k + 1) (A OR push_bit S W) (S + 7)
     else Some (Inr (A OR push_bit S W, S + 7, b, k + 1)))"
  using assms by (simp only: sleb_decode_loop.simps [of "_ # _"] list.case Let_def shl64_def) simp

lemma push_bit_split:
  "push_bit S V = push_bit S (V AND 127) OR push_bit (S + 7) (signed_drop_bit 7 (V :: u64))"
proof (rule bit_word_eqI)
  fix j
  assume "j < LENGTH(64)"
  then have j: "j < 64" by simp
  show "bit (push_bit S V) j = bit (push_bit S (V AND 127) OR push_bit (S + 7) (signed_drop_bit 7 V)) j"
  proof (cases "S + 7 \<le> j")
    case True
    then have "j - (S + 7) + 7 < 64" "j - (S + 7) + 7 = j - S" using j by simp_all
    then show ?thesis using True j bit_asr7 [of "j - (S + 7)" V]
      by (simp add: bit_or_iff bit_push_bit_iff bit_and_iff bit_literals) blast
  qed (use j in \<open>auto simp: bit_or_iff bit_push_bit_iff bit_and_iff bit_literals\<close>)
qed

text \<open>All the slices fit as long as the last of them starts below bit 64.\<close>

lemma sleb_decode:
  assumes "S = 7 * C" "7 * (C + length (sleb V C P) - 1) < 64"
    and f: "\<And>e. fin = Some e \<Longrightarrow> k + length (sleb V C P) \<le> e"
  shows "\<exists>A' b. sleb_decode_loop (sleb V C P @ rest) fin k A S =
      Some (Inr (A', S + 7 * length (sleb V C P), b, k + length (sleb V C P)))
    \<and> (b AND 64 \<noteq> 0 \<longleftrightarrow> sint V < 0)
    \<and> A OR push_bit S V = A' OR (if sint V < 0 then push_bit (S + 7 * length (sleb V C P)) (- 1) else 0)"
  using assms
proof (induction V C P arbitrary: k A S rule: sleb.induct)
  case (1 V C P)
  have fin: "fin \<noteq> Some k" using "1.prems"(3) [of k] sleb_nonempty [of V C P] by auto
  show ?case
  proof (cases "sleb_more (signed_drop_bit 7 V) (ucast (V AND 127)) \<or> C + 1 < P")
    case True
    let ?V = "signed_drop_bit 7 V"
    have u: "sleb V C P = (ucast (V AND 127) OR 128) # sleb ?V (C + 1) P"
      using True by (subst sleb.simps) simp
    have S: "S < 64" using "1.prems"(1,2) u sleb_nonempty [of ?V "C + 1" P] by simp
    have s: "sint ?V < 0 \<longleftrightarrow> sint V < 0" unfolding sint_asr7 div128_bounds by simp
    obtain A' b where ih: "sleb_decode_loop (sleb ?V (C + 1) P @ rest) fin (k + 1) (A OR push_bit S (V AND 127)) (S + 7) =
        Some (Inr (A', S + 7 + 7 * length (sleb ?V (C + 1) P), b, k + 1 + length (sleb ?V (C + 1) P)))"
      "b AND 64 \<noteq> 0 \<longleftrightarrow> sint ?V < 0"
      "(A OR push_bit S (V AND 127)) OR push_bit (S + 7) ?V
        = A' OR (if sint ?V < 0 then push_bit (S + 7 + 7 * length (sleb ?V (C + 1) P)) (- 1) else 0)"
      using "1.IH" [OF True, of "S + 7" "k + 1" "A OR push_bit S (V AND 127)"] "1.prems" u by auto
    have l: "S + 7 + 7 * length (sleb ?V (C + 1) P) = S + 7 * length (sleb V C P)"
        "k + 1 + length (sleb ?V (C + 1) P) = k + length (sleb V C P)" using u by simp_all
    have "sleb_decode_loop (sleb V C P @ rest) fin k A S
        = sleb_decode_loop (sleb ?V (C + 1) P @ rest) fin (k + 1) (A OR push_bit S (V AND 127)) (S + 7)"
      unfolding u append_Cons sleb_decode_step [OF fin S low7(3)] by (simp only: low7 if_True)
    then show ?thesis
      using ih unfolding l s push_bit_split [of S V] or.assoc
      by (intro exI [of _ A'] exI [of _ b]) simp
  next
    case False
    then have u: "sleb V C P = [ucast (V AND 127)]" by (subst sleb.simps) simp
    have S: "S < 64" using "1.prems"(1,2) u by simp
    have z: "signed_drop_bit 7 V = (if sint V < 0 then - 1 else 0)"
    proof -
      have "sint (signed_drop_bit 7 V) < 0 \<longleftrightarrow> sint V < 0" unfolding sint_asr7 div128_bounds by simp
      moreover have "signed_drop_bit 7 V = 0 \<or> signed_drop_bit 7 V = - 1" using False sleb_more_stop by blast
      ultimately show ?thesis by auto
    qed
    have b: "(ucast (V AND 127) :: byte) AND 64 \<noteq> 0 \<longleftrightarrow> sint V < 0"
      using False sleb_more_iff [of V] mod_near_0 [of "sint V"] by (auto simp: bit6_iff)
    have "sleb_decode_loop (sleb V C P @ rest) fin k A S = Some (Inr (A OR push_bit S (V AND 127), S + 7, ucast (V AND 127), k + 1))"
      unfolding u append_Cons sleb_decode_step [OF fin S low7(4)] by (simp only: low7 if_False)
    then show ?thesis
      using b unfolding u push_bit_split [of S V] z by (auto simp: or.assoc)
  qed
qed

section \<open>What the code promises\<close>

text \<open>
  C28. \<open>encodeULEB128\<close> and \<open>decodeULEB128\<close> are inverse: for every 64-bit value and every \<open>PadTo\<close>
  up to 10 the decoder gives back the value and the number of bytes read, with no error, whatever
  follows the encoding, without \<open>end\<close> or with one that is not before the end of the encoding;
  the length is the least one that is at least \<open>PadTo\<close> and has seven bits for every byte; the
  version that writes a buffer puts the same bytes there and returns their number.
\<close>
theorem ULEB128_roundtrip:
  assumes "PadTo \<le> 10" "\<And>e. fin = Some e \<Longrightarrow> length (encodeULEB128 V [] PadTo) \<le> e"
  shows "decodeULEB128 (encodeULEB128 V [] PadTo @ rest) fin = Some (V, length (encodeULEB128 V [] PadTo), None)
    \<and> (\<forall>n > 0. length (encodeULEB128 V [] PadTo) \<le> n \<longleftrightarrow> PadTo \<le> n \<and> unat V < 2 ^ (7 * n))
    \<and> encodeULEB128 V OS PadTo = OS @ encodeULEB128 V [] PadTo
    \<and> encodeULEB128_buffer V m p PadTo =
        (write_bytes m p (encodeULEB128 V [] PadTo), of_nat (length (encodeULEB128 V [] PadTo)))"
  using assms uleb_decode [of 0 0 V PadTo fin 0 rest 0] unat64_bound [of V] length_uleb [of _ V 0 PadTo]
  by (simp add: encodeULEB128_uleb encodeULEB128_buffer_uleb decodeULEB128_def)

theorem ULEB128_roundtrip_witness:
  "decodeULEB128 (encodeULEB128 624485 [] 5 @ [7]) (Some 6) = Some (624485, length (encodeULEB128 624485 [] 5), None)
   \<and> encodeULEB128 624485 [] 5 = [0xE5, 0x8E, 0xA6, 0x80, 0x00]"
proof -
  have e: "encodeULEB128 624485 [] 5 = [0xE5, 0x8E, 0xA6, 0x80, 0x00]" by code_simp
  show ?thesis using ULEB128_roundtrip [of 5 "Some 6" 624485 "[7]"] e by simp
qed

text \<open>
  C29. \<open>decodeSLEB128\<close> gives back what \<open>encodeSLEB128\<close> wrote for the non-negative values and, with
  \<open>PadTo\<close> up to 9, for the negative ones down to \<open>-2^62\<close>.  For every other value the encoding has
  ten bytes and the sign extension at the end of the decoder shifts a 64-bit operand by 70, which
  C++ leaves undefined: the pair is not inverse there.  The length is the least one that is at
  least \<open>PadTo\<close> and holds the value in two's complement, and both encoders agree.
\<close>
theorem SLEB128_roundtrip:
  assumes "PadTo \<le> 10"
  shows "decodeSLEB128 (encodeSLEB128 V [] PadTo @ rest) None =
      (if 0 \<le> sint V \<or> - (2 ^ 62) \<le> sint V \<and> PadTo \<le> 9
       then Some (V, length (encodeSLEB128 V [] PadTo), None) else None)
    \<and> (\<forall>n > 0. length (encodeSLEB128 V [] PadTo) \<le> n \<longleftrightarrow>
         PadTo \<le> n \<and> - (2 ^ (7 * n - 1)) \<le> sint V \<and> sint V < 2 ^ (7 * n - 1))
    \<and> encodeSLEB128_buffer V m p PadTo =
        (write_bytes m p (encodeSLEB128 V [] PadTo), of_nat (length (encodeSLEB128 V [] PadTo)))"
proof -
  let ?l = "length (sleb V 0 PadTo)"
  have b: "- (2 ^ 63) \<le> sint V" "sint V < 2 ^ 63" using sint_greater_eq [of V] sint_less [of V] by simp_all
  have "?l \<le> 10" using length_sleb [of 10 V 0 PadTo] assms b by simp
  moreover have "0 < ?l" using sleb_nonempty [of V 0 PadTo] by simp
  ultimately have "7 * (0 + ?l - 1) < 64" by linarith
  from sleb_decode [OF _ this, of 0 None 0 rest 0]
  obtain A b where d: "sleb_decode_loop (sleb V 0 PadTo @ rest) None 0 0 0 = Some (Inr (A, 7 * ?l, b, ?l))"
      "b AND 64 \<noteq> 0 \<longleftrightarrow> sint V < 0" "V = A OR (if sint V < 0 then push_bit (7 * ?l) (- 1) else 0)"
    by auto
  have n: "7 * ?l < 64 \<longleftrightarrow> ?l \<le> 9" by linarith
  have "?l \<le> 9 \<longleftrightarrow> PadTo \<le> 9 \<and> - (2 ^ 62) \<le> sint V \<and> sint V < 2 ^ 62"
    using length_sleb [of 9 V 0 PadTo] by simp
  then have "decodeSLEB128 (sleb V 0 PadTo @ rest) None =
      (if 0 \<le> sint V \<or> - (2 ^ 62) \<le> sint V \<and> PadTo \<le> 9 then Some (V, ?l, None) else None)"
    using d by (cases "sint V < 0") (auto simp: decodeSLEB128_def shl64_def n)
  then show ?thesis
    using length_sleb [of _ V 0 PadTo] by (simp add: encodeSLEB128_sleb encodeSLEB128_buffer_sleb)
qed

theorem SLEB128_roundtrip_witness:
  "decodeSLEB128 (encodeSLEB128 (- 123456) [] 0) None = Some (- 123456, length (encodeSLEB128 (- 123456) [] 0), None)
   \<and> decodeSLEB128 (encodeSLEB128 (- (2 ^ 62) - 1) [] 0) None = None"
proof -
  have s: "sint (- 123456 :: u64) = - 123456" "sint (- (2 ^ 62) - 1 :: u64) = - (2 ^ 62) - 1"
    by simp_all
  show ?thesis
    using SLEB128_roundtrip [of 0 "- 123456" "[]"] SLEB128_roundtrip [of 0 "- (2 ^ 62) - 1" "[]"]
    by (simp add: s)
qed

end
