(* ===== verification/LL_EditDistance.thy ===== *)
theory LL_EditDistance imports PT_Prelude begin

text \<open>
  \<open>llvm/ADT/edit_distance.h\<close>: the Levenshtein distance of two sequences, computed with one row of
  the table.  An \<open>ArrayRef\<close> is a list; its length and the indices \<open>x\<close> and \<open>y\<close> are \<open>size_type\<close>s
  and below \<open>2^64\<close>, as a sequence in memory is.  The row, \<open>Previous\<close>, \<open>BestThisRow\<close>, the maximum,
  the result and the index \<open>i\<close> of the first loop are \<open>unsigned\<close>: 32-bit words that wrap.  The array
  of the row is not initialised by C++: \<open>junk\<close> is what it holds.
\<close>

section \<open>The routine\<close>

text \<open>\<open>for (unsigned i = 1; i <= n; ++i) Row[i] = i\<close>, which need not end for a \<open>size_type\<close> \<open>n\<close>.\<close>

partial_function (option) fill_row :: "u32 \<Rightarrow> nat \<Rightarrow> u32 list \<Rightarrow> u32 list option" where
  "fill_row i n Row =
     (if unat i \<le> n then fill_row (i + 1) n (Row[unat i := i]) else Some Row)"

declare fill_row.simps [code]

text \<open>The loop over \<open>x\<close>: the row and \<open>BestThisRow\<close>.  \<open>OldRow\<close> is an \<open>int\<close>.\<close>

function ed_row :: "bool \<Rightarrow> 'a \<Rightarrow> 'a list \<Rightarrow> nat \<Rightarrow> u32 list \<Rightarrow> u32 \<Rightarrow> u32 \<Rightarrow> u32 list \<times> u32" where
  "ed_row AllowReplacements c [] x Row Previous BestThisRow = (Row, BestThisRow)"
| "ed_row AllowReplacements c (t # ts) x Row Previous BestThisRow =
     (let OldRow = sint (Row ! x);
          v = (if AllowReplacements
               then min (Previous + (if c = t then 0 else 1)) (min (Row ! (x - 1)) (Row ! x) + 1)
               else if c = t then Previous else min (Row ! (x - 1)) (Row ! x) + 1);
          Row = Row[x := v]
      in ed_row AllowReplacements c ts (x + 1) Row (of_int OldRow) (min BestThisRow v))"
  by pat_completeness auto

termination by (relation "measure (\<lambda>(_, _, ts, _). length ts)") simp_all

text \<open>The loop over \<open>y\<close>: \<open>Inl\<close> is a return from inside it.\<close>

fun ed_rows :: "bool \<Rightarrow> u32 \<Rightarrow> 'a list \<Rightarrow> 'a list \<Rightarrow> nat \<Rightarrow> u32 list \<Rightarrow> u32 + u32 list" where
  "ed_rows AllowReplacements MaxEditDistance [] To y Row = Inr Row"
| "ed_rows AllowReplacements MaxEditDistance (c # cs) To y Row =
     (let Row = Row[0 := of_nat y];
          (Row, BestThisRow) = ed_row AllowReplacements c To 1 Row (of_nat (y - 1)) (Row ! 0)
      in if MaxEditDistance \<noteq> 0 \<and> BestThisRow > MaxEditDistance then Inl (MaxEditDistance + 1)
         else ed_rows AllowReplacements MaxEditDistance cs To (y + 1) Row)"

definition ComputeEditDistance ::
  "(nat \<Rightarrow> u32) \<Rightarrow> 'a list \<Rightarrow> 'a list \<Rightarrow> bool \<Rightarrow> u32 \<Rightarrow> u32 option" where
  "ComputeEditDistance junk FromArray ToArray AllowReplacements MaxEditDistance =
     (let n = length ToArray
      in case fill_row 1 n (map junk [0..<n + 1]) of
           None \<Rightarrow> None
         | Some Row \<Rightarrow>
             (case ed_rows AllowReplacements MaxEditDistance FromArray ToArray 1 Row of
                Inl r \<Rightarrow> Some r
              | Inr Row \<Rightarrow> let Result = Row ! n in Some Result))"

section \<open>The same computation on natural numbers\<close>

function nat_row :: "bool \<Rightarrow> 'a \<Rightarrow> 'a list \<Rightarrow> nat \<Rightarrow> nat list \<Rightarrow> nat \<Rightarrow> nat \<Rightarrow> nat list \<times> nat" where
  "nat_row r c [] x Row Previous Best = (Row, Best)"
| "nat_row r c (t # ts) x Row Previous Best =
     (let v = (if r then min (Previous + (if c = t then 0 else 1)) (min (Row ! (x - 1)) (Row ! x) + 1)
               else if c = t then Previous else min (Row ! (x - 1)) (Row ! x) + 1)
      in nat_row r c ts (x + 1) (Row[x := v]) (Row ! x) (min Best v))"
  by pat_completeness auto

termination by (relation "measure (\<lambda>(_, _, ts, _). length ts)") simp_all

fun nat_rows :: "bool \<Rightarrow> nat \<Rightarrow> 'a list \<Rightarrow> 'a list \<Rightarrow> nat \<Rightarrow> nat list \<Rightarrow> nat + nat list" where
  "nat_rows r Lim [] To y Row = Inr Row"
| "nat_rows r Lim (c # cs) To y Row =
     (let (Row, Best) = nat_row r c To 1 (Row[0 := y]) (y - 1) (Row[0 := y] ! 0)
      in if Lim \<noteq> 0 \<and> Best > Lim then Inl (Lim + 1) else nat_rows r Lim cs To (y + 1) Row)"

text \<open>
  No sum wraps as long as the entries of the old row are at most \<open>K\<close>: those of the new row are at
  most \<open>K + 1\<close>.
\<close>

lemma unat_Suc32: "unat (w :: u32) < 2 ^ 32 - 1 \<Longrightarrow> unat (w + 1) = Suc (unat w)"
  by (simp add: unat_word_ariths)

lemma unat_of_nat32: "k < 2 ^ 32 \<Longrightarrow> unat (of_nat k :: u32) = k"
  by (simp add: unat_of_nat)

lemma unat_word_min: "unat (min a b) = min (unat a) (unat (b :: 'a::len word))"
  by (simp add: min_def word_le_nat_alt)

definition next_entry :: "bool \<Rightarrow> bool \<Rightarrow> u32 \<Rightarrow> u32 \<Rightarrow> u32 \<Rightarrow> u32" where
  "next_entry r e P a b = (if r then min (P + (if e then 0 else 1)) (min a b + 1) else if e then P else min a b + 1)"

lemma unat_next_entry:
  assumes "unat P \<le> K" and "unat b \<le> K" and "K < 2 ^ 32 - 1"
  shows "unat (next_entry r e P a b) = (if r then min (unat P + (if e then 0 else 1)) (min (unat a) (unat b) + 1)
      else if e then unat P else min (unat a) (unat b) + 1)"
    and "unat (next_entry r e P a b) \<le> Suc K"
proof -
  have "unat (min a b) \<le> unat b" by (simp add: unat_word_min)
  then have m: "unat (min a b + 1) = min (unat a) (unat b) + 1"
    using assms by (subst unat_Suc32) (simp_all add: unat_word_min)
  have p: "unat (P + (if e then 0 else 1)) = unat P + (if e then 0 else 1)"
    using assms by (simp add: unat_Suc32)
  show e: "unat (next_entry r e P a b) = (if r then min (unat P + (if e then 0 else 1)) (min (unat a) (unat b) + 1)
      else if e then unat P else min (unat a) (unat b) + 1)"
    using m p by (simp add: next_entry_def unat_word_min)
  show "unat (next_entry r e P a b) \<le> Suc K"
    unfolding e using assms(1,2) by (auto simp: min_def)
qed

lemma ed_row_unat:
  assumes "K < 2 ^ 32 - 1" "x \<noteq> 0" "length Row = x + length ts" "unat Previous \<le> K" "unat Best \<le> Suc K"
    "\<And>j. j < x \<Longrightarrow> unat (Row ! j) \<le> Suc K" "\<And>j. x \<le> j \<Longrightarrow> j < length Row \<Longrightarrow> unat (Row ! j) \<le> K"
  shows "case ed_row r c ts x Row Previous Best of (R, B) \<Rightarrow>
    nat_row r c ts x (map unat Row) (unat Previous) (unat Best) = (map unat R, unat B) \<and>
    length R = length Row \<and> unat B \<le> Suc K \<and> (\<forall>j < length R. unat (R ! j) \<le> Suc K)"
  using assms
proof (induction ts arbitrary: x Row Previous Best)
  case (Cons t ts)
  define v where "v = next_entry r (c = t) Previous (Row ! (x - 1)) (Row ! x)"
  have x: "x < length Row" "unat (Row ! x) \<le> K" using Cons.prems(3,7) by simp_all
  note v = unat_next_entry [OF Cons.prems(4) x(2) Cons.prems(1), of r "c = t" "Row ! (x - 1)", folded v_def]
  have ed: "ed_row r c (t # ts) x Row Previous Best = ed_row r c ts (x + 1) (Row[x := v]) (Row ! x) (min Best v)"
    by (simp add: v_def next_entry_def Let_def)
  have nt: "nat_row r c (t # ts) x (map unat Row) (unat Previous) (unat Best) =
      nat_row r c ts (x + 1) (map unat (Row[x := v])) (unat (Row ! x)) (unat (min Best v))"
    unfolding map_update unat_word_min v(1) using x(1) by (simp add: Let_def)
  have "case ed_row r c ts (x + 1) (Row[x := v]) (Row ! x) (min Best v) of (R, B) \<Rightarrow>
    nat_row r c ts (x + 1) (map unat (Row[x := v])) (unat (Row ! x)) (unat (min Best v)) = (map unat R, unat B) \<and>
    length R = length (Row[x := v]) \<and> unat B \<le> Suc K \<and> (\<forall>j < length R. unat (R ! j) \<le> Suc K)"
  proof (rule Cons.IH)
    show "unat (Row[x := v] ! j) \<le> Suc K" if "j < x + 1" for j
      using that Cons.prems(6) [of j] v(2) x(1) by (cases "j = x") simp_all
    show "unat (min Best v) \<le> Suc K" using v(2) by (simp add: unat_word_min)
  qed (use Cons.prems x in auto)
  then show ?case unfolding ed nt by simp
qed (auto simp: Suc_le_eq)

lemma ed_rows_unat:
  assumes "K + length cs < 2 ^ 32" "y \<noteq> 0" "y \<le> Suc K" "length Row = length To + 1"
    "\<And>j. j < length Row \<Longrightarrow> 0 < j \<Longrightarrow> unat (Row ! j) \<le> K"
  shows "nat_rows r (unat Lim) cs To y (map unat Row) =
    (case ed_rows r Lim cs To y Row of Inl d \<Rightarrow> Inl (unat d) | Inr R \<Rightarrow> Inr (map unat R))"
  using assms
proof (induction cs arbitrary: K y Row)
  case (Cons c cs)
  have K: "K < 2 ^ 32 - 1" using Cons.prems(1) by simp
  then have y: "unat (of_nat y :: u32) = y" "unat (of_nat (y - 1) :: u32) = y - 1"
    using Cons.prems(3) by (intro unat_of_nat32; linarith)+
  let ?Row = "Row[0 := of_nat y]"
  obtain R B where RB: "ed_row r c To 1 ?Row (of_nat (y - 1)) (?Row ! 0) = (R, B)" by fastforce
  have "0 < length Row" using Cons.prems(4) by simp
  then have hd: "?Row ! 0 = of_nat y" "map unat ?Row ! 0 = y" "(map unat Row)[0 := y] = map unat ?Row"
    using y by (simp_all add: map_update)
  have "case ed_row r c To 1 ?Row (of_nat (y - 1)) (?Row ! 0) of (R, B) \<Rightarrow>
    nat_row r c To 1 (map unat ?Row) (unat (of_nat (y - 1) :: u32)) (unat (?Row ! 0)) = (map unat R, unat B) \<and>
    length R = length ?Row \<and> unat B \<le> Suc K \<and> (\<forall>j < length R. unat (R ! j) \<le> Suc K)"
    using Cons.prems K hd(1) y by (intro ed_row_unat) auto
  then have row: "nat_row r c To 1 ((map unat Row)[0 := y]) (y - 1) ((map unat Row)[0 := y] ! 0) = (map unat R, unat B)"
      "length R = length Row" "unat B \<le> Suc K" "\<And>j. j < length R \<Longrightarrow> unat (R ! j) \<le> Suc K"
    unfolding RB y hd(3) using hd(1,2) y \<open>0 < length Row\<close> by auto
  have lim: "(Lim \<noteq> 0 \<and> B > Lim) = (unat Lim \<noteq> 0 \<and> unat B > unat Lim)"
    by (simp add: word_less_nat_alt unat_eq_0)
  show ?case
  proof (cases "Lim \<noteq> 0 \<and> B > Lim")
    case True
    then have "unat Lim < 2 ^ 32 - 1" using row(3) K by (simp add: word_less_nat_alt)
    then have "unat (Lim + 1) = unat Lim + 1" by (simp add: unat_Suc32)
    then show ?thesis using True lim row(1) RB by (simp add: Let_def)
  next
    case False
    have "nat_rows r (unat Lim) cs To (y + 1) (map unat R) =
      (case ed_rows r Lim cs To (y + 1) R of Inl d \<Rightarrow> Inl (unat d) | Inr R \<Rightarrow> Inr (map unat R))"
      using Cons.prems row by (intro Cons.IH [of "Suc K"]) auto
    then show ?thesis using False lim row(1) RB by (auto simp: Let_def)
  qed
qed simp

lemma fill_row_returns:
  assumes "n < 2 ^ 32 - 1" and "unat i \<le> n + 1" and "length Row = n + 1"
  shows "fill_row i n Row = Some (take (unat i) Row @ map of_nat [unat i..<n + 1])"
  using assms
proof (induction "n + 1 - unat i" arbitrary: i Row)
  case 0
  then show ?case by (subst fill_row.simps) simp
next
  case (Suc k)
  then have i: "unat i \<le> n" by simp
  then have s: "unat (i + 1) = Suc (unat i)" using Suc.prems(1) by (intro unat_Suc32) simp
  have "fill_row i n Row = fill_row (i + 1) n (Row[unat i := i])"
    using i by (subst fill_row.simps) simp
  also have "\<dots> = Some (take (unat (i + 1)) (Row[unat i := i]) @ map of_nat [unat (i + 1)..<n + 1])"
    using Suc s i by (intro Suc.hyps(1)) simp_all
  also have "take (unat (i + 1)) (Row[unat i := i]) = take (unat i) Row @ [i]"
    using i Suc.prems(3) by (simp add: s take_Suc_conv_app_nth)
  finally show ?case using i by (simp add: s upt_conv_Cons del: upt_Suc)
qed

text \<open>With \<open>2 ^ 32 - 1\<close> elements or more the index never exceeds \<open>n\<close>.\<close>

lemma fill_row_diverges:
  assumes "2 ^ 32 - 1 \<le> n" shows "fill_row i n Row = None"
proof (rule ccontr)
  assume "fill_row i n Row \<noteq> None"
  then obtain R where R: "fill_row i n Row = Some R" by blast
  let ?P = "\<lambda>(i :: u32) n (Row :: u32 list) (R :: u32 list). \<not> 2 ^ 32 - 1 \<le> n"
  have "?P i n Row R"
  proof (rule fill_row.raw_induct [where P = ?P, OF _ R])
    fix f :: "u32 \<Rightarrow> nat \<Rightarrow> u32 list \<Rightarrow> u32 list option" and i n Row R
    assume IH: "\<And>i n Row R. f i n Row = Some R \<Longrightarrow> \<not> 2 ^ 32 - 1 \<le> n"
      and body: "(if unat i \<le> n then f (i + 1) n (Row[unat i := i]) else Some Row) = Some R"
    have "unat i < 2 ^ LENGTH(32)" by (rule unsigned_less)
    then have "unat i \<le> 2 ^ 32 - 1" by simp
    with body IH show "\<not> 2 ^ 32 - 1 \<le> n" by (cases "unat i \<le> n") auto
  qed
  with assms show False by simp
qed

section \<open>What it computes\<close>

text \<open>\<open>edits r k xs ys\<close>: \<open>k\<close> insertions, removals and, when \<open>r\<close>, replacements turn \<open>xs\<close> into \<open>ys\<close>.\<close>

inductive edits :: "bool \<Rightarrow> nat \<Rightarrow> 'a list \<Rightarrow> 'a list \<Rightarrow> bool" for r where
  done_edit: "edits r 0 [] []"
| keep: "edits r k xs ys \<Longrightarrow> edits r k (x # xs) (x # ys)"
| insert_edit: "edits r k xs ys \<Longrightarrow> edits r (Suc k) xs (y # ys)"
| remove_edit: "edits r k xs ys \<Longrightarrow> edits r (Suc k) (x # xs) ys"
| replace_edit: "edits r k xs ys \<Longrightarrow> r \<Longrightarrow> edits r (Suc k) (x # xs) (y # ys)"

fun lev :: "bool \<Rightarrow> 'a list \<Rightarrow> 'a list \<Rightarrow> nat" where
  "lev r [] ys = length ys"
| "lev r (x # xs) [] = Suc (length xs)"
| "lev r (x # xs) (y # ys) =
     (if r then min (lev r xs ys + (if x = y then 0 else 1)) (min (lev r (x # xs) ys) (lev r xs (y # ys)) + 1)
      else if x = y then lev r xs ys else min (lev r (x # xs) ys) (lev r xs (y # ys)) + 1)"

lemma lev_Nil2 [simp]: "lev r xs [] = length xs"
  by (cases xs) simp_all

lemma lev_comm: "lev r xs ys = lev r ys xs"
  by (induction r xs ys rule: lev.induct) (auto simp: min.commute)

text \<open>One more element changes the distance by at most one.\<close>

lemma lev_Cons_bounds:
  "lev r xs ys \<le> Suc (lev r (x # xs) ys) \<and> lev r xs (y # ys) \<le> Suc (lev r xs ys)"
proof (induction "length xs + length ys" arbitrary: xs ys x y rule: less_induct)
  case less
  have up: "lev r as (b # bs) \<le> Suc (lev r as bs)" if "length as + length bs \<le> length xs + length ys"
    for as bs and b :: 'a
  proof (cases as)
    case (Cons a as')
    then have "lev r as' bs \<le> Suc (lev r (a # as') bs)" using less that by simp
    then show ?thesis using Cons by auto
  qed simp
  have "lev r xs ys \<le> Suc (lev r (x # xs) ys)"
  proof (cases ys)
    case (Cons b bs)
    then have "lev r xs bs \<le> Suc (lev r (x # xs) bs)" "lev r xs (b # bs) \<le> Suc (lev r xs bs)"
      using less up [of xs bs b] by simp_all
    then show ?thesis using Cons by (auto simp: min_def)
  qed simp
  then show ?case using up [of xs ys y] by simp
qed

lemma lev_le_edits: "edits r k xs ys \<Longrightarrow> lev r xs ys \<le> k"
proof (induction rule: edits.induct)
  case (insert_edit k xs ys y)
  then show ?case using lev_Cons_bounds [of r xs ys undefined y] by linarith
next
  case (remove_edit k xs ys x)
  then show ?case using lev_Cons_bounds [of r ys xs undefined x] by (simp add: lev_comm [of r ys])
qed auto

lemma edits_insert_all: "edits r (length ys) [] ys"
  by (induction ys) (auto intro: edits.intros)

lemma edits_remove_all: "edits r (length xs) xs []"
  by (induction xs) (auto intro: edits.intros)

lemma edits_lev: "edits r (lev r xs ys) xs ys"
proof (induction r xs ys rule: lev.induct)
  case (3 r x xs y ys)
  have i: "edits r (lev r (x # xs) ys) (x # xs) ys" "edits r (lev r xs (y # ys)) xs (y # ys)"
    if "\<not> (\<not> r \<and> x = y)"
    using 3(2,3,5,6) that by blast+
  have a: "edits r (Suc (lev r (x # xs) ys)) (x # xs) (y # ys)" if "\<not> (\<not> r \<and> x = y)"
    using i(1) that by (intro edits.insert_edit)
  have b: "edits r (Suc (lev r xs (y # ys))) (x # xs) (y # ys)" if "\<not> (\<not> r \<and> x = y)"
    using i(2) that by (intro edits.remove_edit)
  have c: "edits r (lev r xs ys + (if x = y then 0 else 1)) (x # xs) (y # ys)" if "r"
    using 3 that by (auto intro: edits.intros)
  have d: "edits r (lev r xs ys) (x # xs) (y # ys)" if "x = y" "\<not> r"
    using 3 that by (auto intro: edits.intros)
  show ?case using a b c d by (auto simp: min_def)
next
  case (2 r x xs)
  show ?case using edits_remove_all [of r "x # xs"] by simp
qed (simp add: edits_insert_all)

lemma edits_append: "edits r k xs ys \<Longrightarrow> edits r l as bs \<Longrightarrow> edits r (k + l) (xs @ as) (ys @ bs)"
  by (induction rule: edits.induct) (auto intro: edits.intros)

lemma edits_rev: "edits r k xs ys \<Longrightarrow> edits r k (rev xs) (rev ys)"
proof (induction rule: edits.induct)
  case (keep k xs ys x)
  have "edits r 0 [x] [x]" by (intro edits.intros)
  with keep.IH show ?case using edits_append by fastforce
next
  case (insert_edit k xs ys y)
  have "edits r (Suc 0) [] [y]" by (intro edits.intros)
  with insert_edit.IH show ?case using edits_append by fastforce
next
  case (remove_edit k xs ys x)
  have "edits r (Suc 0) [x] []" by (intro edits.intros)
  with remove_edit.IH show ?case using edits_append by fastforce
next
  case (replace_edit k xs ys x y)
  have "edits r (Suc 0) [x] [y]" using replace_edit.hyps by (intro edits.intros)
  with replace_edit.IH show ?case using edits_append by fastforce
qed (simp add: edits.done_edit)

definition dist :: "bool \<Rightarrow> 'a list \<Rightarrow> 'a list \<Rightarrow> nat" where
  "dist r xs ys = lev r (rev xs) (rev ys)"

lemma dist_least: "edits r (dist r xs ys) xs ys \<and> (\<forall>k. edits r k xs ys \<longrightarrow> dist r xs ys \<le> k)"
  using edits_rev [OF edits_lev, of r "rev xs" "rev ys"] lev_le_edits edits_rev
  by (fastforce simp: dist_def)

lemma dist_Nil [simp]: "dist r [] ys = length ys" "dist r xs [] = length xs"
  by (simp_all add: dist_def)

lemma dist_snoc:
  "dist r (xs @ [c]) (ys @ [t]) =
     (if r then min (dist r xs ys + (if c = t then 0 else 1)) (min (dist r (xs @ [c]) ys) (dist r xs (ys @ [t])) + 1)
      else if c = t then dist r xs ys else min (dist r (xs @ [c]) ys) (dist r xs (ys @ [t])) + 1)"
  by (simp add: dist_def)

section \<open>The row is the row of the table\<close>

definition table_row :: "bool \<Rightarrow> 'a list \<Rightarrow> 'a list \<Rightarrow> nat list" where
  "table_row r xs To = map (\<lambda>j. dist r xs (take j To)) [0..<length To + 1]"

text \<open>
  Half way through a row: up to \<open>x\<close> the new row, from \<open>x\<close> on the old one.
\<close>

lemma nat_row_table:
  assumes "To = us @ ts" "x = length us + 1"
    "length Row = length To + 1"
    "\<And>j. j < x \<Longrightarrow> Row ! j = dist r (xs @ [c]) (take j To)"
    "\<And>j. x \<le> j \<Longrightarrow> j \<le> length To \<Longrightarrow> Row ! j = dist r xs (take j To)"
    "Previous = dist r xs us" "\<And>j. j < x \<Longrightarrow> Best \<le> Row ! j" "\<exists>j < x. Best = Row ! j"
  shows "\<exists>B. nat_row r c ts x Row Previous Best = (table_row r (xs @ [c]) To, B)
    \<and> (\<forall>v \<in> set (table_row r (xs @ [c]) To). B \<le> v) \<and> B \<in> set (table_row r (xs @ [c]) To)"
  using assms
proof (induction r c ts x Row Previous Best arbitrary: us rule: nat_row.induct)
  case (1 r c x Row Previous Best)
  have len: "length Row = length (table_row r (xs @ [c]) To)" using "1.prems" by (simp add: table_row_def)
  have "Row ! j = table_row r (xs @ [c]) To ! j" if "j < length Row" for j
    using that "1.prems" by (simp add: table_row_def del: upt_Suc)
  then have "Row = table_row r (xs @ [c]) To" using len by (intro nth_equalityI) simp_all
  moreover have "length Row = x" using "1.prems" by simp
  ultimately show ?case using "1.prems"(7,8) by (auto simp: in_set_conv_nth)
next
  case (2 r c t ts x Row Previous Best)
  define v where "v = (if r then min (Previous + (if c = t then 0 else 1)) (min (Row ! (x - 1)) (Row ! x) + 1)
    else if c = t then Previous else min (Row ! (x - 1)) (Row ! x) + 1)"
  have x: "x < length Row" "x \<noteq> 0" using "2.prems"(1,2,3) by simp_all
  have tk: "take x To = us @ [t]" "take (x - 1) To = us" using "2.prems"(1,2) by simp_all
  have v: "v = dist r (xs @ [c]) (take x To)"
    unfolding v_def tk dist_snoc using "2.prems"(4) [of "x - 1"] "2.prems"(5) [of x] "2.prems"(6) x tk "2.prems"(3) by simp
  have "\<exists>B. nat_row r c ts (x + 1) (Row[x := v]) (Row ! x) (min Best v) = (table_row r (xs @ [c]) To, B)
    \<and> (\<forall>v \<in> set (table_row r (xs @ [c]) To). B \<le> v) \<and> B \<in> set (table_row r (xs @ [c]) To)"
  proof (rule "2.IH" [OF v_def])
    show "To = (us @ [t]) @ ts" "x + 1 = length (us @ [t]) + 1" "length (Row[x := v]) = length To + 1"
      using "2.prems"(1,2,3) by simp_all
    show "Row[x := v] ! j = dist r (xs @ [c]) (take j To)" if "j < x + 1" for j
      using that "2.prems"(4) [of j] v x by (cases "j = x") simp_all
    show "Row[x := v] ! j = dist r xs (take j To)" if "x + 1 \<le> j" "j \<le> length To" for j
      using that "2.prems"(5) [of j] by simp
    show "Row ! x = dist r xs (us @ [t])" using "2.prems"(3,5) x tk by simp
    show "min Best v \<le> Row[x := v] ! j" if "j < x + 1" for j
      using that "2.prems"(7) [of j] x by (cases "j = x") (simp_all add: min.coboundedI1)
    obtain i where i: "i < x" "Best = Row ! i" using "2.prems"(8) by blast
    show "\<exists>j < x + 1. min Best v = Row[x := v] ! j"
    proof (cases "Best \<le> v")
      case True
      then show ?thesis using i by (intro exI [of _ i]) (simp add: min_def)
    next
      case False
      then show ?thesis using x by (intro exI [of _ x]) (simp add: min_def)
    qed
  qed
  then show ?case by (simp add: v_def Let_def)
qed

lemma dist_in_row: "j \<le> length To \<Longrightarrow> dist r xs (take j To) \<in> set (table_row r xs To)"
  by (auto simp: table_row_def simp del: upt_Suc)

text \<open>The least entry of a row never falls.\<close>

lemma row_bound_step:
  assumes "\<And>v. v \<in> set (table_row r xs To) \<Longrightarrow> L \<le> v"
  shows "v \<in> set (table_row r (xs @ [c]) To) \<Longrightarrow> L \<le> v"
proof -
  have old: "L \<le> dist r xs (take j To)" if "j \<le> length To" for j
    using assms [OF dist_in_row] that by simp
  have new: "L \<le> dist r (xs @ [c]) (take j To)" if "j \<le> length To" for j
    using that
  proof (induction j)
    case 0
    then show ?case using old [of 0] by simp
  next
    case (Suc j)
    then have t: "take (Suc j) To = take j To @ [To ! j]" by (simp add: take_Suc_conv_app_nth)
    show ?case unfolding t dist_snoc using old [of j] old [of "Suc j"] Suc t by (auto simp: min_def)
  qed
  assume "v \<in> set (table_row r (xs @ [c]) To)"
  then show "L \<le> v" using new by (auto simp: table_row_def simp del: upt_Suc)
qed

lemma row_bound:
  assumes "\<And>v. v \<in> set (table_row r xs To) \<Longrightarrow> L \<le> v"
  shows "v \<in> set (table_row r (xs @ cs) To) \<Longrightarrow> L \<le> v"
proof (induction cs arbitrary: v rule: rev_induct)
  case (snoc c cs)
  from row_bound_step [of r "xs @ cs" To L v c] snoc show ?case by simp
qed (use assms in simp)

lemma last_of_row: "table_row r xs To ! length To = dist r xs To" "dist r xs To \<in> set (table_row r xs To)"
  by (auto simp: table_row_def simp del: upt_Suc intro!: image_eqI [of _ _ "length To"])

lemma nat_rows_table:
  assumes "Row[0 := y - 1] = table_row r xs To" "y = length xs + 1" "length Row = length To + 1"
  shows "case nat_rows r Lim cs To y Row of
      Inl d \<Rightarrow> Lim \<noteq> 0 \<and> d = Lim + 1 \<and> Lim < dist r (xs @ cs) To
    | Inr Row' \<Rightarrow> (if cs = [] then Row' = Row else Row' = table_row r (xs @ cs) To)"
  using assms
proof (induction cs arbitrary: y Row xs)
  case (Cons c cs)
  have n: "length (Row[0 := y]) = length To + 1" using Cons.prems by simp
  have "\<exists>B. nat_row r c To 1 (Row[0 := y]) (y - 1) (Row[0 := y] ! 0) = (table_row r (xs @ [c]) To, B)
    \<and> (\<forall>v \<in> set (table_row r (xs @ [c]) To). B \<le> v) \<and> B \<in> set (table_row r (xs @ [c]) To)"
  proof (rule nat_row_table)
    show "To = [] @ To" "(1 :: nat) = length [] + 1" "length (Row[0 := y]) = length To + 1" using n by simp_all
    show "Row[0 := y] ! j = dist r (xs @ [c]) (take j To)" if "j < 1" for j
      using that n Cons.prems(2) by (cases Row) simp_all
    show "Row[0 := y] ! j = dist r xs (take j To)" if "1 \<le> j" "j \<le> length To" for j
    proof -
      have "Row[0 := y] ! j = Row[0 := y - 1] ! j" using that by simp
      then show ?thesis unfolding Cons.prems(1) using that by (simp add: table_row_def del: upt_Suc)
    qed
    show "y - 1 = dist r xs []" using Cons.prems(2) by simp
  qed auto
  then obtain B where B: "nat_row r c To 1 (Row[0 := y]) (y - 1) (Row[0 := y] ! 0) = (table_row r (xs @ [c]) To, B)"
      "\<And>v. v \<in> set (table_row r (xs @ [c]) To) \<Longrightarrow> B \<le> v"
    by blast
  show ?case
  proof (cases "Lim \<noteq> 0 \<and> B > Lim")
    case True
    then have "Lim < dist r ((xs @ [c]) @ cs) To"
      using row_bound [of r "xs @ [c]" To "Suc Lim" "dist r ((xs @ [c]) @ cs) To" cs] B(2) last_of_row(2) by fastforce
    then show ?thesis using True B(1) by (simp add: Let_def)
  next
    case False
    let ?T = "table_row r (xs @ [c]) To"
    have z: "?T[0 := y] = ?T"
      using Cons.prems(2) by (simp add: table_row_def upt_rec del: upt_Suc)
    have s: "nat_rows r Lim (c # cs) To y Row = nat_rows r Lim cs To (y + 1) ?T"
      using False B(1) by (auto simp: Let_def)
    have "case nat_rows r Lim cs To (y + 1) ?T of
        Inl d \<Rightarrow> Lim \<noteq> 0 \<and> d = Lim + 1 \<and> Lim < dist r ((xs @ [c]) @ cs) To
      | Inr Row' \<Rightarrow> (if cs = [] then Row' = ?T else Row' = table_row r ((xs @ [c]) @ cs) To)"
      using Cons.prems(2) z by (intro Cons.IH) (simp_all add: table_row_def)
    then show ?thesis unfolding s by (auto split: sum.splits if_splits)
  qed
qed simp

text \<open>
  C30. For two sequences that are not both empty and together shorter than \<open>2^32 - 1\<close>, and whatever
  the row held before, \<open>ComputeEditDistance\<close> returns, and its result is the least number of
  insertions, removals and (if allowed) replacements that turn the first into the second, when no
  maximum is given or the distance is within it; beyond the maximum it is the maximum plus one or
  the distance itself, never less.  No \<open>unsigned\<close> of the computation wraps.
\<close>
theorem ComputeEditDistance_correct:
  assumes "From \<noteq> [] \<or> To \<noteq> []" and "length From + length To < 2 ^ 32 - 1"
  shows "\<exists>d R. edits r d From To \<and> (\<forall>k. edits r k From To \<longrightarrow> d \<le> k)
    \<and> ComputeEditDistance junk From To r Lim = Some R
    \<and> (unat R = d \<or> Lim \<noteq> 0 \<and> unat Lim < d \<and> unat R = unat Lim + 1)"
proof -
  let ?w = "junk 0 # map of_nat [1..<length To + 1]" and ?Row = "unat (junk 0) # [1..<length To + 1]"
  have u: "map unat ?w = ?Row"
    using assms(2) by (auto simp: unat_of_nat simp del: upt_Suc intro!: map_idI)
  have fill: "fill_row 1 (length To) (map junk [0..<length To + 1]) = Some ?w"
    using assms(2) fill_row_returns [of "length To" 1 "map junk [0..<length To + 1]"]
    by (simp add: upt_conv_Cons del: upt_Suc)
  have ent: "unat (?w ! j) \<le> length To" if "j < length ?w" "0 < j" for j
  proof -
    have "unat (?w ! j) = map unat ?w ! j" using that(1) by (rule nth_map [symmetric])
    also have "\<dots> = j" unfolding u using that by (cases j) (simp_all del: upt_Suc)
    finally show ?thesis using that(1) by (simp del: upt_Suc)
  qed
  have w: "nat_rows r (unat Lim) From To 1 ?Row =
      (case ed_rows r Lim From To 1 ?w of Inl d \<Rightarrow> Inl (unat d) | Inr R \<Rightarrow> Inr (map unat R))"
    unfolding u [symmetric]
    using assms(2) by (intro ed_rows_unat [of "length To"] ent) (simp_all del: upt_Suc)
  have "?Row[0 := 1 - 1] = table_row r [] To"
    by (rule nth_equalityI) (auto simp: table_row_def nth_Cons simp del: upt_Suc split: nat.splits)
  then have t: "case nat_rows r (unat Lim) From To 1 ?Row of
      Inl d \<Rightarrow> unat Lim \<noteq> 0 \<and> d = unat Lim + 1 \<and> unat Lim < dist r ([] @ From) To
    | Inr Row' \<Rightarrow> (if From = [] then Row' = ?Row else Row' = table_row r ([] @ From) To)"
    by (intro nat_rows_table) (simp_all del: upt_Suc)
  have e: "?Row ! length To = dist r [] To" if "To \<noteq> []"
    using that by (simp add: nth_Cons del: upt_Suc split: nat.splits)
  have "\<exists>R. ComputeEditDistance junk From To r Lim = Some R \<and> (unat R = dist r From To
      \<or> Lim \<noteq> 0 \<and> unat Lim < dist r From To \<and> unat R = unat Lim + 1)"
  proof (cases "ed_rows r Lim From To 1 ?w")
    case (Inl d)
    then show ?thesis
      using t w fill by (intro exI [of _ d]) (auto simp: ComputeEditDistance_def)
  next
    case (Inr R)
    have m: "map unat R = (if From = [] then ?Row else table_row r From To)" using t w Inr by auto
    have "length R = length To + 1"
      using arg_cong [OF m, of length] by (simp add: table_row_def del: upt_Suc split: if_splits)
    then have "unat (R ! length To) = map unat R ! length To" by simp
    also have "\<dots> = dist r From To" unfolding m using assms(1) e last_of_row(1) [of r From To] by auto
    finally show ?thesis
      using Inr fill by (intro exI [of _ "R ! length To"]) (simp add: ComputeEditDistance_def)
  qed
  then show ?thesis using dist_least [of r From To] by blast
qed

theorem ComputeEditDistance_correct_witness:
  "ComputeEditDistance (\<lambda>_. 99) ''kitten'' ''sitting'' True 0 = Some 3 \<and> (\<exists>d. edits True d ''kitten'' ''sitting''
    \<and> (\<forall>k. edits True k ''kitten'' ''sitting'' \<longrightarrow> d \<le> k) \<and> d = 3)"
proof -
  have "ComputeEditDistance (\<lambda>_. 99) ''kitten'' ''sitting'' True 0 = Some 3" by code_simp
  then show ?thesis using ComputeEditDistance_correct [of "''kitten''" "''sitting''" True "\<lambda>_. 99" 0] by auto
qed

text \<open>
  Three behaviours the comment does not say: the distance itself can be returned beyond the maximum,
  for two empty sequences the element of the row that was never written, and nothing for a second
  sequence of \<open>2^32 - 1\<close> elements or more.
\<close>

lemma ComputeEditDistance_beyond_the_maximum:
  "ComputeEditDistance (\<lambda>_. 0) ''a'' ''abcd'' True 1 = Some 3"
  by code_simp

lemma ComputeEditDistance_both_empty: "ComputeEditDistance junk [] [] r Lim = Some (junk 0)"
  by (simp add: ComputeEditDistance_def fill_row.simps)

lemma ComputeEditDistance_diverges:
  "2 ^ 32 - 1 \<le> length To \<Longrightarrow> ComputeEditDistance junk From To r Lim = None"
  using fill_row_diverges [of "length To"] by (simp add: ComputeEditDistance_def Let_def)

end
