(* ===== verification/LL_ImutAVL.thy ===== *)
theory LL_ImutAVL imports PT_Prelude begin

text \<open>
  \<open>ADT/ImmutableSet.h\<close>, first part: the immutable trees and the factory that builds them.  A
  tree is never changed after a factory has handed it out, so a pointer to one is modelled by
  the tree it points to, \<open>nullptr\<close> by \<open>Null\<close>; where the code compares pointers, the
  comparison is an argument.  A node keeps its height in a bit field of 28 bits.  Not modelled:
  reference counts, the lists of created and free nodes and the mutability flag, which decide
  when the memory of a node is used again.
\<close>

section \<open>Trees and their elements\<close>

datatype 'v imut_tree =
  Null | Node (getLeft: "'v imut_tree") (getValue: 'v) (stored_height: nat) (getRight: "'v imut_tree")

text \<open>The members a tree uses of its \<open>ImutInfo\<close>.\<close>

record ('v, 'k, 'd) imut_info =
  KeyOfValue :: "'v \<Rightarrow> 'k"
  DataOfValue :: "'v \<Rightarrow> 'd"
  isEqual :: "'k \<Rightarrow> 'k \<Rightarrow> bool"
  isLess :: "'k \<Rightarrow> 'k \<Rightarrow> bool"
  isDataEqual :: "'d \<Rightarrow> 'd \<Rightarrow> bool"

text \<open>\<open>ImutContainerInfo\<close> for a type with \<open>==\<close> and \<open><\<close>, \<open>ImutKeyValueInfo\<close> for pairs of such.\<close>

definition ImutContainerInfo :: "('a::linorder, 'a, bool) imut_info" where
  "ImutContainerInfo = \<lparr>KeyOfValue = (\<lambda>D. D), DataOfValue = (\<lambda>_. True),
     isEqual = (\<lambda>LHS RHS. LHS = RHS), isLess = (\<lambda>LHS RHS. LHS < RHS), isDataEqual = (\<lambda>_ _. True)\<rparr>"

definition ImutKeyValueInfo :: "('a::linorder \<times> 'b::linorder, 'a, 'b) imut_info" where
  "ImutKeyValueInfo = \<lparr>KeyOfValue = fst, DataOfValue = snd,
     isEqual = isEqual ImutContainerInfo, isLess = isLess ImutContainerInfo,
     isDataEqual = isEqual ImutContainerInfo\<rparr>"

lemma container_info [simp]:
  "KeyOfValue ImutContainerInfo = (\<lambda>D. D)" "isEqual ImutContainerInfo = (=)" "isLess ImutContainerInfo = (<)"
  by (simp_all add: ImutContainerInfo_def)

lemma key_value_info [simp]:
  "KeyOfValue ImutKeyValueInfo = fst" "isEqual ImutKeyValueInfo = (=)" "isLess ImutKeyValueInfo = (<)"
  by (simp_all add: ImutKeyValueInfo_def)

section \<open>Members of a tree\<close>

text \<open>The loops of \<open>find\<close> and \<open>getMaxElement\<close> go down the tree.\<close>

fun find :: "('v, 'k, 'd) imut_info \<Rightarrow> 'k \<Rightarrow> 'v imut_tree \<Rightarrow> 'v imut_tree" where
  "find I K Null = Null"
| "find I K (Node l v h r) =
     (let CurrentKey = KeyOfValue I v in
      if isEqual I K CurrentKey then Node l v h r
      else if isLess I K CurrentKey then find I K l
      else find I K r)"

definition contains :: "('v, 'k, 'd) imut_info \<Rightarrow> 'k \<Rightarrow> 'v imut_tree \<Rightarrow> bool" where
  "contains I K T \<longleftrightarrow> find I K T \<noteq> Null"

fun getMaxElement :: "'v imut_tree \<Rightarrow> 'v imut_tree" where
  "getMaxElement Null = Null"
| "getMaxElement (Node l v h r) = (if r \<noteq> Null then getMaxElement r else Node l v h r)"

text \<open>The count is an \<open>unsigned\<close>.\<close>

fun size_of_tree :: "'v imut_tree \<Rightarrow> u32" where
  "size_of_tree Null = 0"
| "size_of_tree (Node l v h r) =
     (let n = 1;
          n = (if l \<noteq> Null then n + size_of_tree l else n);
          n = (if r \<noteq> Null then n + size_of_tree r else n)
      in n)"

definition isElementEqual :: "('v, 'k, 'd) imut_info \<Rightarrow> 'v imut_tree \<Rightarrow> 'v imut_tree \<Rightarrow> bool" where
  "isElementEqual I T RHS =
     (let V = getValue RHS in
      if \<not> isEqual I (KeyOfValue I (getValue T)) (KeyOfValue I V) then False
      else if \<not> isDataEqual I (DataOfValue I (getValue T)) (DataOfValue I V) then False
      else True)"

text \<open>A callback gets the state it works on.\<close>

fun foreach :: "('v \<Rightarrow> 's \<Rightarrow> 's) \<Rightarrow> 'v imut_tree \<Rightarrow> 's \<Rightarrow> 's" where
  "foreach C Null s = s"
| "foreach C (Node l v h r) s =
     (let s = (if l \<noteq> Null then foreach C l s else s);
          s = C v s
      in if r \<noteq> Null then foreach C r s else s)"

section \<open>The factory\<close>

definition isEmpty :: "'v imut_tree \<Rightarrow> bool" where
  "isEmpty T \<longleftrightarrow> T = Null"

definition getHeight :: "'v imut_tree \<Rightarrow> nat" where
  "getHeight T = (case T of Null \<Rightarrow> 0 | Node l v h r \<Rightarrow> h)"

definition incrementHeight :: "'v imut_tree \<Rightarrow> 'v imut_tree \<Rightarrow> nat" where
  "incrementHeight L R =
     (let hl = getHeight L; hr = getHeight R in (if hl > hr then hl else hr) + 1)"

definition createNode :: "'v imut_tree \<Rightarrow> 'v \<Rightarrow> 'v imut_tree \<Rightarrow> 'v imut_tree" where
  "createNode L V R = Node L V (take_bit 28 (incrementHeight L R)) R"

definition balanceTree :: "'v imut_tree \<Rightarrow> 'v \<Rightarrow> 'v imut_tree \<Rightarrow> 'v imut_tree" where
  "balanceTree L V R =
     (let hl = getHeight L; hr = getHeight R in
      if hl > hr + 2 then
        let LL = getLeft L; LR = getRight L in
        if getHeight LL \<ge> getHeight LR then createNode LL (getValue L) (createNode LR V R)
        else
          let LRL = getLeft LR; LRR = getRight LR in
          createNode (createNode LL (getValue L) LRL) (getValue LR) (createNode LRR V R)
      else if hr > hl + 2 then
        let RL = getLeft R; RR = getRight R in
        if getHeight RR \<ge> getHeight RL then createNode (createNode L V RL) (getValue R) RR
        else
          let RLL = getLeft RL; RLR = getRight RL in
          createNode (createNode L V RLL) (getValue RL) (createNode RLR (getValue R) RR)
      else createNode L V R)"

fun add_internal :: "('v, 'k, 'd) imut_info \<Rightarrow> 'v \<Rightarrow> 'v imut_tree \<Rightarrow> 'v imut_tree" where
  "add_internal I V Null = createNode Null V Null"
| "add_internal I V (Node l v h r) =
     (let K = KeyOfValue I V; KCurrent = KeyOfValue I v in
      if isEqual I K KCurrent then createNode l V r
      else if isLess I K KCurrent then balanceTree (add_internal I V l) v r
      else balanceTree l v (add_internal I V r))"

text \<open>The node taken out is returned beside the tree; the function is called on trees that are not empty.\<close>

fun removeMinBinding :: "'v imut_tree \<Rightarrow> 'v imut_tree \<times> 'v imut_tree" where
  "removeMinBinding Null = (Null, Null)"
| "removeMinBinding (Node l v h r) =
     (if isEmpty l then (r, Node l v h r)
      else let (l', Noderemoved) = removeMinBinding l in (balanceTree l' v r, Noderemoved))"

definition combineTrees :: "'v imut_tree \<Rightarrow> 'v imut_tree \<Rightarrow> 'v imut_tree" where
  "combineTrees L R =
     (if isEmpty L then R
      else if isEmpty R then L
      else let (newRight, OldNode) = removeMinBinding R in balanceTree L (getValue OldNode) newRight)"

fun remove_internal :: "('v, 'k, 'd) imut_info \<Rightarrow> 'k \<Rightarrow> 'v imut_tree \<Rightarrow> 'v imut_tree" where
  "remove_internal I K Null = Null"
| "remove_internal I K (Node l v h r) =
     (let KCurrent = KeyOfValue I v in
      if isEqual I K KCurrent then combineTrees l r
      else if isLess I K KCurrent then balanceTree (remove_internal I K l) v r
      else balanceTree l v (remove_internal I K r))"

text \<open>The public operations, up to the memory they set free.\<close>

definition factory_add :: "('v, 'k, 'd) imut_info \<Rightarrow> 'v imut_tree \<Rightarrow> 'v \<Rightarrow> 'v imut_tree" where
  "factory_add I T V = add_internal I V T"

definition factory_remove :: "('v, 'k, 'd) imut_info \<Rightarrow> 'v imut_tree \<Rightarrow> 'k \<Rightarrow> 'v imut_tree" where
  "factory_remove I T K = remove_internal I K T"

section \<open>Validation\<close>

text \<open>
  \<open>validateTree\<close> in a build with assertions: each is checked in the order of the code.  The
  fourth reads the value of the right child where there is none.
\<close>

fun validateTree :: "('v, 'k, 'd) imut_info \<Rightarrow> 'v imut_tree \<Rightarrow> stop + nat" where
  "validateTree I Null = Inr 0"
| "validateTree I (Node l v h r) =
     then_do (if l \<noteq> Null then validateTree I l else Inr 0) (\<lambda>HL.
     then_do (if r \<noteq> Null then validateTree I r else Inr 0) (\<lambda>HR.
     if h \<noteq> (if HL > HR then HL else HR) + 1 then Inl Abort
     else if \<not> (if HL > HR then HL - HR else HR - HL) \<le> 2 then Inl Abort
     else if \<not> (l = Null \<or> isLess I (KeyOfValue I (getValue l)) (KeyOfValue I v)) then Inl Abort
     else if r \<noteq> Null then Inl Abort
     else Inl Segv))"

section \<open>Contents and height\<close>

fun inorder :: "'v imut_tree \<Rightarrow> 'v list" where
  "inorder Null = []"
| "inorder (Node l v h r) = inorder l @ v # inorder r"

fun height :: "'v imut_tree \<Rightarrow> nat" where
  "height Null = 0"
| "height (Node l v h r) = max (height l) (height r) + 1"

fun nodes :: "'v imut_tree \<Rightarrow> nat" where
  "nodes Null = 0"
| "nodes (Node l v h r) = nodes l + nodes r + 1"

lemma length_inorder [simp]: "length (inorder T) = nodes T"
  by (induction T) simp_all

lemma inorder_empty_iff [simp]: "inorder T = [] \<longleftrightarrow> T = Null"
  by (cases T) simp_all

lemma foreach_inorder: "foreach C T s = fold C (inorder T) s"
  by (induction T arbitrary: s) (auto simp: Let_def)

lemma size_of_tree_nodes: "size_of_tree T = of_nat (nodes T)"
  by (induction T) (auto simp: Let_def)

lemma getMaxElement_last: "T \<noteq> Null \<Longrightarrow> getMaxElement T \<noteq> Null \<and> getValue (getMaxElement T) = last (inorder T)"
  by (induction T) auto

text \<open>With assertions compiled in, no tree passes.\<close>

lemma validateTree_rejects: "T \<noteq> Null \<Longrightarrow> validateTree I T \<in> {Inl Abort, Inl Segv}"
proof (induction T)
  case (Node l v h r)
  have "(if l \<noteq> Null then validateTree I l else Inr 0) \<in> {Inl Abort, Inl Segv, Inr 0}"
      "(if r \<noteq> Null then validateTree I r else Inr 0) \<in> {Inl Abort, Inl Segv, Inr 0}"
    using Node.IH by auto
  then show ?case by (auto split: if_splits)
qed simp

section \<open>Balance\<close>

text \<open>The heights of siblings differ by two at most, and every node holds its height.\<close>

fun balanced :: "'v imut_tree \<Rightarrow> bool" where
  "balanced Null = True"
| "balanced (Node l v h r) \<longleftrightarrow> height l \<le> height r + 2 \<and> height r \<le> height l + 2 \<and>
     h = max (height l) (height r) + 1 \<and> balanced l \<and> balanced r"

lemma getHeight_balanced [simp]: "balanced T \<Longrightarrow> getHeight T = height T"
  by (cases T) (simp_all add: getHeight_def)

text \<open>A balanced tree of height \<open>h\<close> has more than \<open>2 ^ (h / 3) - 1\<close> nodes.\<close>

lemma balanced_nodes: "balanced T \<Longrightarrow> 2 ^ (height T div 3) \<le> nodes T + 1"
proof (induction T)
  case (Node l v h r)
  let ?m = "min (height l) (height r)"
  have IH: "2 ^ (height l div 3) \<le> nodes l + 1" "2 ^ (height r div 3) \<le> nodes r + 1"
    using Node by simp_all
  show ?case
  proof (cases "height (Node l v h r) div 3 = 0")
    case False
    then obtain k where k: "height (Node l v h r) div 3 = Suc k" by (metis not0_implies_Suc)
    have "Suc k \<le> (max (height l) (height r) + 1) div 3" "max (height l) (height r) \<le> ?m + 2"
      using k Node.prems by (auto simp: min_def)
    then have "3 * k \<le> ?m" by linarith
    then have "k \<le> height l div 3" "k \<le> height r div 3" by linarith+
    then have "(2 :: nat) ^ k \<le> 2 ^ (height l div 3)" "(2 :: nat) ^ k \<le> 2 ^ (height r div 3)"
      by (simp_all add: power_increasing)
    with IH have "2 ^ k \<le> nodes l + 1" "2 ^ k \<le> nodes r + 1" by linarith+
    then show ?thesis using k by simp
  qed simp
qed simp

text \<open>So the bit field holds the height of every tree that fits in memory.\<close>

lemma height_bound:
  assumes "balanced T" and "nodes T < 2 ^ 64"
  shows "height T < 195"
proof (rule ccontr)
  assume "\<not> height T < 195"
  then have "65 \<le> height T div 3" by simp
  then have "(2 :: nat) ^ 65 \<le> 2 ^ (height T div 3)" by (rule power_increasing) simp
  also have "\<dots> \<le> nodes T + 1" by (rule balanced_nodes [OF assms(1)])
  finally show False using assms(2) by simp
qed

end
