(* ===== verification/LL_ImutAVL_Lemmas.thy ===== *)
theory LL_ImutAVL_Lemmas imports LL_ImutAVL begin

text \<open>
  The factory of \<open>ADT/ImmutableSet.h\<close>: rebalancing keeps the sequence of elements and restores
  the balance, insertion and removal keep a tree balanced and ordered and change its elements
  as they should.
\<close>

named_theorems tree_order \<open>the sequence of elements of a tree\<close>

section \<open>The sequence of elements\<close>

lemma inorder_createNode [simp, tree_order]: "inorder (createNode L V R) = inorder L @ V # inorder R"
  by (simp add: createNode_def)

lemma getHeight_pos: "0 < getHeight T \<Longrightarrow> T \<noteq> Null"
  by (auto simp: getHeight_def)

lemma inorder_parts: "T \<noteq> Null \<Longrightarrow> inorder T = inorder (getLeft T) @ getValue T # inorder (getRight T)"
  by (cases T) simp_all

lemma inorder_balanceTree [simp, tree_order]: "inorder (balanceTree L V R) = inorder L @ V # inorder R"
proof -
  have L: "L \<noteq> Null" if "getHeight L > getHeight R + 2" using that by (intro getHeight_pos) simp
  have R: "R \<noteq> Null" if "getHeight R > getHeight L + 2" using that by (intro getHeight_pos) simp
  have child: "inorder T = inorder (getLeft T) @ getValue T # inorder (getRight T)"
    if "\<not> getHeight T \<le> getHeight S" for S T :: "'a imut_tree"
    using that by (intro inorder_parts getHeight_pos) simp
  show ?thesis
    using inorder_parts [of L] inorder_parts [of R] L R
      child [of "getRight L" "getLeft L"] child [of "getLeft R" "getRight R"]
    by (simp add: balanceTree_def Let_def)
qed

lemma balanceTree_not_Null [simp]: "balanceTree L V R \<noteq> Null"
proof
  assume "balanceTree L V R = Null"
  then have "inorder (balanceTree L V R) = []" by simp
  then show False by simp
qed

lemma inorder_removeMinBinding [tree_order]:
  "T \<noteq> Null \<Longrightarrow> removeMinBinding T = (T', N) \<Longrightarrow> inorder T = getValue N # inorder T'"
proof (induction T arbitrary: T')
  case (Node l v h r)
  then show ?case by (auto simp: isEmpty_def split: if_splits prod.splits)
qed simp

lemma inorder_combineTrees [simp, tree_order]: "inorder (combineTrees L R) = inorder L @ inorder R"
  using inorder_removeMinBinding [of R] by (auto simp: combineTrees_def isEmpty_def split: prod.split)

section \<open>The balance\<close>

text \<open>Room for the heights of the nodes an operation creates.\<close>

definition low :: "'v imut_tree \<Rightarrow> bool" where
  "low T \<longleftrightarrow> height T + 4 < 2 ^ 28"

lemma balanced_createNode:
  assumes "balanced L" "balanced R" "height L \<le> height R + 2" "height R \<le> height L + 2"
    and "max (height L) (height R) + 1 < 2 ^ 28"
  shows "balanced (createNode L V R) \<and> height (createNode L V R) = max (height L) (height R) + 1"
proof -
  have e: "incrementHeight L R = max (height L) (height R) + 1"
    using assms by (auto simp: incrementHeight_def Let_def max_def)
  have "take_bit 28 (incrementHeight L R) = incrementHeight L R"
    using assms(5) unfolding e by (simp only: take_bit_nat_eq_self_iff)
  then show ?thesis using assms e by (simp add: createNode_def)
qed

text \<open>One step of the repair, on trees given by their parts.\<close>

lemma balanceTree_left:
  assumes "balanced L" "balanced R" "height L = height R + 3" "low L" "low R"
  shows "balanced (balanceTree L V R) \<and> height (balanceTree L V R) \<in> {height L, height L + 1}"
proof -
  obtain ll lv lh lr where L: "L = Node ll lv lh lr" using assms(3) by (cases L) auto
  have bl: "balanced ll" "balanced lr" "height ll \<le> height lr + 2" "height lr \<le> height ll + 2"
      and hl: "max (height ll) (height lr) = height R + 2"
    using assms(1,3) L by auto
  have lim: "height R + 7 < 2 ^ 28" using assms(3,4) by (simp add: low_def)
  have d: "getHeight L > getHeight R + 2" using assms by simp
  show ?thesis
  proof (cases "height lr \<le> height ll")
    case True
    have i: "balanced (createNode lr V R) \<and> height (createNode lr V R) = max (height lr) (height R) + 1"
      using bl hl True lim assms(2) by (intro balanced_createNode) auto
    have "balanced (createNode ll lv (createNode lr V R)) \<and>
        height (createNode ll lv (createNode lr V R)) = max (height ll) (height (createNode lr V R)) + 1"
      using bl hl True lim i by (intro balanced_createNode) auto
    moreover have "balanceTree L V R = createNode ll lv (createNode lr V R)"
      using d True bl by (simp add: balanceTree_def L)
    ultimately show ?thesis using bl hl True i L assms(3) by auto
  next
    case False
    then obtain a v h b where lr: "lr = Node a v h b" by (cases lr) auto
    have ab: "balanced a" "balanced b" "height a \<le> height b + 2" "height b \<le> height a + 2"
        "max (height a) (height b) = height R + 1"
      using bl hl False lr by auto
    have i: "balanced (createNode ll lv a) \<and> height (createNode ll lv a) = max (height ll) (height a) + 1"
        "balanced (createNode b V R) \<and> height (createNode b V R) = max (height b) (height R) + 1"
      using bl hl False lim assms(2) ab by (intro balanced_createNode; auto)+
    have "balanced (createNode (createNode ll lv a) v (createNode b V R)) \<and>
        height (createNode (createNode ll lv a) v (createNode b V R)) =
          max (height (createNode ll lv a)) (height (createNode b V R)) + 1"
      using bl hl False lim i ab by (intro balanced_createNode) auto
    moreover have "balanceTree L V R = createNode (createNode ll lv a) v (createNode b V R)"
      using d False bl by (simp add: balanceTree_def L lr del: not_less)
    ultimately show ?thesis using bl hl False i ab L assms(3) by (auto simp: max_def split: if_splits)
  qed
qed

lemma balanceTree_right:
  assumes "balanced L" "balanced R" "height R = height L + 3" "low L" "low R"
  shows "balanced (balanceTree L V R) \<and> height (balanceTree L V R) \<in> {height R, height R + 1}"
proof -
  obtain rl rv rh rr where R: "R = Node rl rv rh rr" using assms(3) by (cases R) auto
  have br: "balanced rl" "balanced rr" "height rl \<le> height rr + 2" "height rr \<le> height rl + 2"
      and hr: "max (height rl) (height rr) = height L + 2"
    using assms(2,3) R by auto
  have lim: "height L + 7 < 2 ^ 28" using assms(3,5) by (simp add: low_def)
  have d: "\<not> getHeight L > getHeight R + 2" "getHeight R > getHeight L + 2" using assms by simp_all
  show ?thesis
  proof (cases "height rl \<le> height rr")
    case True
    have i: "balanced (createNode L V rl) \<and> height (createNode L V rl) = max (height L) (height rl) + 1"
      using br hr True lim assms(1) by (intro balanced_createNode) auto
    have "balanced (createNode (createNode L V rl) rv rr) \<and>
        height (createNode (createNode L V rl) rv rr) = max (height (createNode L V rl)) (height rr) + 1"
      using br hr True lim i by (intro balanced_createNode) auto
    moreover have "balanceTree L V R = createNode (createNode L V rl) rv rr"
      using d True br by (simp add: balanceTree_def R)
    ultimately show ?thesis using br hr True i R assms(3) by auto
  next
    case False
    then obtain a v h b where rl: "rl = Node a v h b" by (cases rl) auto
    have ab: "balanced a" "balanced b" "height a \<le> height b + 2" "height b \<le> height a + 2"
        "max (height a) (height b) = height L + 1"
      using br hr False rl by auto
    have i: "balanced (createNode L V a) \<and> height (createNode L V a) = max (height L) (height a) + 1"
        "balanced (createNode b rv rr) \<and> height (createNode b rv rr) = max (height b) (height rr) + 1"
      using br hr False lim assms(1) ab by (intro balanced_createNode; auto)+
    have "balanced (createNode (createNode L V a) v (createNode b rv rr)) \<and>
        height (createNode (createNode L V a) v (createNode b rv rr)) =
          max (height (createNode L V a)) (height (createNode b rv rr)) + 1"
      using br hr False lim i ab by (intro balanced_createNode) auto
    moreover have "balanceTree L V R = createNode (createNode L V a) v (createNode b rv rr)"
      using d False br by (simp add: balanceTree_def R rl)
    ultimately show ?thesis using br hr False i ab R assms(3) by (auto simp: max_def split: if_splits)
  qed
qed

text \<open>What every operation needs: siblings three apart at most.\<close>

lemma balanceTree_balanced:
  assumes "balanced L" "balanced R" "height L \<le> height R + 3" "height R \<le> height L + 3" "low L" "low R"
  shows "balanced (balanceTree L V R) \<and>
    (if height L = height R + 3 \<or> height R = height L + 3
     then height (balanceTree L V R) \<in> {max (height L) (height R), max (height L) (height R) + 1}
     else height (balanceTree L V R) = max (height L) (height R) + 1)"
proof -
  consider "height L = height R + 3" | "height R = height L + 3"
    | "height L \<le> height R + 2" "height R \<le> height L + 2"
    using assms(3,4) by linarith
  then show ?thesis
  proof cases
    case 1
    then show ?thesis using balanceTree_left [OF assms(1,2) _ assms(5,6), of V] by simp
  next
    case 2
    then show ?thesis using balanceTree_right [OF assms(1,2) _ assms(5,6), of V] by simp
  next
    case 3
    have "balanceTree L V R = createNode L V R" using 3 assms(1,2) by (simp add: balanceTree_def)
    moreover have "balanced (createNode L V R) \<and> height (createNode L V R) = max (height L) (height R) + 1"
      using 3 assms by (intro balanced_createNode) (auto simp: low_def)
    ultimately show ?thesis using 3 by simp
  qed
qed

lemma low_mono: "low T \<Longrightarrow> height S \<le> height T \<Longrightarrow> low S"
  by (simp add: low_def)

definition room :: "'v imut_tree \<Rightarrow> bool" where
  "room T \<longleftrightarrow> height T + 5 < 2 ^ 28"

lemma roomD: "room T \<Longrightarrow> height S \<le> height T + 1 \<Longrightarrow> low S" "room T \<Longrightarrow> height S \<le> height T \<Longrightarrow> room S"
  by (simp_all add: room_def low_def)

lemma add_internal_balanced:
  "balanced T \<Longrightarrow> room T \<Longrightarrow>
    balanced (add_internal I V T) \<and> height (add_internal I V T) \<in> {height T, height T + 1}"
proof (induction T)
  case Null
  have "balanced (createNode Null V Null) \<and> height (createNode Null V Null) = 1"
    using balanced_createNode [of Null Null V] by simp
  then show ?case by simp
next
  case (Node l v h r)
  have b: "balanced l" "balanced r" "height l \<le> height r + 2" "height r \<le> height l + 2"
    using Node.prems(1) by auto
  have room: "room l" "room r" using Node.prems(2) by (auto intro: roomD(2))
  have IH: "balanced (add_internal I V l)" "height (add_internal I V l) \<in> {height l, height l + 1}"
      "balanced (add_internal I V r)" "height (add_internal I V r) \<in> {height r, height r + 1}"
    using Node.IH(1) [OF b(1) room(1)] Node.IH(2) [OF b(2) room(2)] by blast+
  have low: "low (add_internal I V l)" "low (add_internal I V r)" "low l" "low r"
    using IH(2,4) by (auto intro!: roomD(1) [OF Node.prems(2)])
  consider "isEqual I (KeyOfValue I V) (KeyOfValue I v)"
    | "\<not> isEqual I (KeyOfValue I V) (KeyOfValue I v)" "isLess I (KeyOfValue I V) (KeyOfValue I v)"
    | "\<not> isEqual I (KeyOfValue I V) (KeyOfValue I v)" "\<not> isLess I (KeyOfValue I V) (KeyOfValue I v)"
    by blast
  then show ?case
  proof cases
    case 1
    then show ?thesis
      using balanced_createNode [OF b, of V] Node.prems(2) by (simp add: room_def)
  next
    case 2
    then have e: "add_internal I V (Node l v h r) = balanceTree (add_internal I V l) v r" by simp
    show ?thesis
      unfolding e using balanceTree_balanced [OF IH(1) b(2) _ _ low(1,4), of v] IH(2) b by (auto split: if_splits)
  next
    case 3
    then have e: "add_internal I V (Node l v h r) = balanceTree l v (add_internal I V r)" by simp
    show ?thesis
      unfolding e using balanceTree_balanced [OF b(1) IH(3) _ _ low(3,2), of v] IH(4) b by (auto split: if_splits)
  qed
qed

lemma removeMinBinding_balanced:
  "T \<noteq> Null \<Longrightarrow> balanced T \<Longrightarrow> room T \<Longrightarrow> removeMinBinding T = (T', N) \<Longrightarrow>
    balanced T' \<and> height T \<in> {height T', height T' + 1}"
proof (induction T arbitrary: T')
  case (Node l v h r)
  have b: "balanced l" "balanced r" "height l \<le> height r + 2" "height r \<le> height l + 2"
    using Node.prems(2) by auto
  show ?case
  proof (cases "l = Null")
    case True
    then show ?thesis using Node.prems(4) b by (auto simp: isEmpty_def)
  next
    case False
    then obtain l' where l': "removeMinBinding l = (l', N)" "T' = balanceTree l' v r"
      using Node.prems(4) by (auto simp: isEmpty_def split: prod.splits)
    have "room l" using Node.prems(3) by (rule roomD(2)) simp
    then have IH: "balanced l'" "height l \<in> {height l', height l' + 1}"
      using Node.IH(1) [OF False b(1) _ l'(1)] by blast+
    have "low l'" "low r" using IH(2) by (auto intro!: roomD(1) [OF Node.prems(3)])
    then show ?thesis
      using balanceTree_balanced [OF IH(1) b(2), of v] IH(2) b l'(2) by (auto split: if_splits)
  qed
qed simp

lemma combineTrees_balanced:
  assumes "balanced L" "balanced R" "height L \<le> height R + 2" "height R \<le> height L + 2" "room L" "room R"
  shows "balanced (combineTrees L R) \<and>
    max (height L) (height R) + 1 \<in> {height (combineTrees L R), height (combineTrees L R) + 1}"
proof -
  consider "L = Null" | "R = Null" | "L \<noteq> Null" "R \<noteq> Null" by blast
  then show ?thesis
  proof cases
    case 3
    obtain R' N where R': "removeMinBinding R = (R', N)" by (cases "removeMinBinding R")
    have r: "balanced R'" "height R \<in> {height R', height R' + 1}"
      using removeMinBinding_balanced [OF 3(2) assms(2,6) R'] by blast+
    have "low L" using assms(5) by (rule roomD(1)) simp
    moreover have "low R'" by (rule roomD(1) [OF assms(6)]) (use r(2) in auto)
    ultimately show ?thesis
      using 3 R' balanceTree_balanced [OF assms(1) r(1), of "getValue N"] r(2) assms(3,4)
      by (auto simp: combineTrees_def isEmpty_def split: if_splits)
  qed (use assms in \<open>auto simp: combineTrees_def isEmpty_def\<close>)
qed

lemma remove_internal_balanced:
  "balanced T \<Longrightarrow> room T \<Longrightarrow>
    balanced (remove_internal I K T) \<and>
    height T \<in> {height (remove_internal I K T), height (remove_internal I K T) + 1}"
proof (induction T)
  case (Node l v h r)
  have b: "balanced l" "balanced r" "height l \<le> height r + 2" "height r \<le> height l + 2"
    using Node.prems(1) by auto
  have room: "room l" "room r" using Node.prems(2) by (auto intro: roomD(2))
  have IH: "balanced (remove_internal I K l)" "height l \<in> {height (remove_internal I K l), height (remove_internal I K l) + 1}"
      "balanced (remove_internal I K r)" "height r \<in> {height (remove_internal I K r), height (remove_internal I K r) + 1}"
    using Node.IH(1) [OF b(1) room(1)] Node.IH(2) [OF b(2) room(2)] by blast+
  have low: "low (remove_internal I K l)" "low (remove_internal I K r)" "low l" "low r"
    using IH(2,4) by (auto intro!: roomD(1) [OF Node.prems(2)])
  consider "isEqual I K (KeyOfValue I v)"
    | "\<not> isEqual I K (KeyOfValue I v)" "isLess I K (KeyOfValue I v)"
    | "\<not> isEqual I K (KeyOfValue I v)" "\<not> isLess I K (KeyOfValue I v)"
    by blast
  then show ?case
  proof cases
    case 1
    then show ?thesis using combineTrees_balanced [OF b room] by simp
  next
    case 2
    then have e: "remove_internal I K (Node l v h r) = balanceTree (remove_internal I K l) v r" by simp
    show ?thesis
      unfolding e using balanceTree_balanced [OF IH(1) b(2) _ _ low(1,4), of v] IH(2) b by (auto split: if_splits)
  next
    case 3
    then have e: "remove_internal I K (Node l v h r) = balanceTree l v (remove_internal I K r)" by simp
    show ?thesis
      unfolding e using balanceTree_balanced [OF b(1) IH(3) _ _ low(3,2), of v] IH(4) b by (auto split: if_splits)
  qed
qed simp

lemma room_of_nodes: "balanced T \<Longrightarrow> nodes T < 2 ^ 64 \<Longrightarrow> room T"
  using height_bound [of T] by (simp add: room_def)

section \<open>The order\<close>

text \<open>
  What a tree needs of its \<open>ImutInfo\<close>: \<open>isEqual\<close> is equality of keys and \<open>isLess\<close> a
  strict order on them in which any two keys are comparable.
\<close>

locale ordered_info =
  fixes I :: "('v, 'k, 'd) imut_info"
  assumes isEqual_iff: "isEqual I a b \<longleftrightarrow> a = b"
    and isLess_trans: "isLess I a b \<Longrightarrow> isLess I b c \<Longrightarrow> isLess I a c"
    and isLess_irrefl: "\<not> isLess I a a"
    and isLess_total: "isLess I a b \<or> a = b \<or> isLess I b a"
begin

abbreviation key :: "'v \<Rightarrow> 'k" where "key \<equiv> KeyOfValue I"

text \<open>The keys of a tree increase in order.\<close>

definition ascending :: "'v list \<Rightarrow> bool" where
  "ascending vs \<longleftrightarrow> sorted_wrt (\<lambda>v w. isLess I (key v) (key w)) vs"

lemma ascending_append:
  "ascending (vs @ v # ws) \<longleftrightarrow> ascending vs \<and> ascending ws \<and>
    (\<forall>u \<in> set vs. isLess I (key u) (key v)) \<and> (\<forall>w \<in> set ws. isLess I (key v) (key w))"
  by (auto simp: ascending_def sorted_wrt_append intro: isLess_trans)

lemma isLess_asym: "isLess I a b \<Longrightarrow> \<not> isLess I b a"
  using isLess_trans isLess_irrefl by blast

text \<open>The list a search looks at: those before and those after a key.\<close>

definition before :: "'k \<Rightarrow> 'v list \<Rightarrow> 'v list" where
  "before K vs = filter (\<lambda>v. isLess I (key v) K) vs"

definition after :: "'k \<Rightarrow> 'v list \<Rightarrow> 'v list" where
  "after K vs = filter (\<lambda>v. isLess I K (key v)) vs"

lemma before_all: "\<forall>v \<in> set vs. isLess I (key v) K \<Longrightarrow> before K vs = vs \<and> after K vs = []"
  by (auto simp: before_def after_def filter_id_conv filter_empty_conv dest: isLess_asym)

lemma after_all: "\<forall>v \<in> set vs. isLess I K (key v) \<Longrightarrow> before K vs = [] \<and> after K vs = vs"
  by (auto simp: before_def after_def filter_id_conv filter_empty_conv dest: isLess_asym)

lemma split_append:
  "before K (vs @ ws) = before K vs @ before K ws" "after K (vs @ ws) = after K vs @ after K ws"
  "before K (v # vs) = (if isLess I (key v) K then [v] else []) @ before K vs"
  "after K (v # vs) = (if isLess I K (key v) then [v] else []) @ after K vs"
  by (simp_all add: before_def after_def)

text \<open>
  Insertion puts the element between those before and those after its key; removal leaves those
  two parts.
\<close>

lemma inorder_add:
  "ascending (inorder T) \<Longrightarrow> inorder (add_internal I V T) = before (key V) (inorder T) @ V # after (key V) (inorder T)"
proof (induction T)
  case (Node l v h r)
  let ?K = "key V"
  have a: "ascending (inorder l)" "ascending (inorder r)"
      "\<forall>u \<in> set (inorder l). isLess I (key u) (key v)" "\<forall>w \<in> set (inorder r). isLess I (key v) (key w)"
    using Node.prems by (auto simp: ascending_append)
  consider "?K = key v" | "?K \<noteq> key v" "isLess I ?K (key v)" | "?K \<noteq> key v" "isLess I (key v) ?K"
    using isLess_total by blast
  then show ?case
  proof cases
    case 1
    then show ?thesis
      using before_all [OF a(3)] after_all [OF a(4)] by (simp add: isEqual_iff split_append isLess_irrefl)
  next
    case 2
    then have "\<forall>w \<in> set (inorder r). isLess I ?K (key w)" using a(4) isLess_trans by blast
    then show ?thesis
      using 2 Node.IH(1) [OF a(1)] after_all by (simp add: isEqual_iff split_append isLess_asym)
  next
    case 3
    then have "\<forall>w \<in> set (inorder l). isLess I (key w) ?K" using a(3) isLess_trans by blast
    then show ?thesis
      using 3 Node.IH(2) [OF a(2)] before_all by (simp add: isEqual_iff split_append isLess_asym)
  qed
qed (simp add: before_def after_def)

lemma inorder_remove:
  "ascending (inorder T) \<Longrightarrow> inorder (remove_internal I K T) = before K (inorder T) @ after K (inorder T)"
proof (induction T)
  case (Node l v h r)
  have a: "ascending (inorder l)" "ascending (inorder r)"
      "\<forall>u \<in> set (inorder l). isLess I (key u) (key v)" "\<forall>w \<in> set (inorder r). isLess I (key v) (key w)"
    using Node.prems by (auto simp: ascending_append)
  consider "K = key v" | "K \<noteq> key v" "isLess I K (key v)" | "K \<noteq> key v" "isLess I (key v) K"
    using isLess_total by blast
  then show ?case
  proof cases
    case 1
    then show ?thesis
      using before_all [OF a(3)] after_all [OF a(4)] by (simp add: isEqual_iff split_append isLess_irrefl)
  next
    case 2
    then have "\<forall>w \<in> set (inorder r). isLess I K (key w)" using a(4) isLess_trans by blast
    then show ?thesis
      using 2 Node.IH(1) [OF a(1)] after_all by (simp add: isEqual_iff split_append isLess_asym)
  next
    case 3
    then have "\<forall>w \<in> set (inorder l). isLess I (key w) K" using a(3) isLess_trans by blast
    then show ?thesis
      using 3 Node.IH(2) [OF a(2)] before_all by (simp add: isEqual_iff split_append isLess_asym)
  qed
qed (simp add: before_def after_def)

lemma ascending_parts:
  assumes "ascending vs"
  shows "ascending (before K vs @ after K vs)" "key V = K \<Longrightarrow> ascending (before K vs @ V # after K vs)"
proof -
  have f: "ascending (before K vs)" "ascending (after K vs)"
    using assms by (simp_all add: ascending_def before_def after_def sorted_wrt_filter)
  show "key V = K \<Longrightarrow> ascending (before K vs @ V # after K vs)"
    using f by (auto simp: ascending_append before_def after_def)
  show "ascending (before K vs @ after K vs)"
    using f unfolding ascending_def sorted_wrt_append
    by (auto simp: before_def after_def intro: isLess_trans)
qed

text \<open>A search finds the element with the key.\<close>

lemma find_element:
  "ascending (inorder T) \<Longrightarrow>
    (case find I K T of Null \<Rightarrow> K \<notin> key ` set (inorder T)
     | Node l v h r \<Rightarrow> v \<in> set (inorder T) \<and> key v = K)"
proof (induction T)
  case (Node l v h r)
  have a: "ascending (inorder l)" "ascending (inorder r)"
      "\<forall>u \<in> set (inorder l). isLess I (key u) (key v)" "\<forall>w \<in> set (inorder r). isLess I (key v) (key w)"
    using Node.prems by (auto simp: ascending_append)
  consider "K = key v" | "K \<noteq> key v" "isLess I K (key v)" | "K \<noteq> key v" "isLess I (key v) K"
    using isLess_total by blast
  then show ?case
  proof cases
    case 1
    then show ?thesis by (simp add: isEqual_iff)
  next
    case 2
    then have "K \<notin> key ` set (inorder r)" using a(4) isLess_trans isLess_asym isLess_irrefl by blast
    then show ?thesis
      using 2 Node.IH(1) [OF a(1)] by (auto simp: isEqual_iff split: imut_tree.splits)
  next
    case 3
    then have "K \<notin> key ` set (inorder l)" using a(3) isLess_trans isLess_asym isLess_irrefl by blast
    then show ?thesis
      using 3 Node.IH(2) [OF a(2)] by (auto simp: isEqual_iff isLess_asym split: imut_tree.splits)
  qed
qed simp

lemma ascending_inj: "ascending vs \<Longrightarrow> inj_on key (set vs)"
proof (induction vs)
  case (Cons v vs)
  then have "\<forall>w \<in> set vs. key v \<noteq> key w" by (fastforce simp: ascending_def isLess_irrefl)
  then show ?case using Cons by (auto simp: ascending_def)
qed simp

text \<open>The well-formed trees, and how the operations change the set of their elements.\<close>

definition well_formed :: "'v imut_tree \<Rightarrow> bool" where
  "well_formed T \<longleftrightarrow> ascending (inorder T) \<and> balanced T"

lemma well_formed_Null [simp]: "well_formed Null"
  by (simp add: well_formed_def ascending_def)

lemma well_formed_add:
  assumes "well_formed T" and "nodes T < 2 ^ 64"
  shows "well_formed (add_internal I V T)"
    "set (inorder (add_internal I V T)) = {v \<in> set (inorder T). key v \<noteq> key V} \<union> {V}"
proof -
  show "well_formed (add_internal I V T)"
    using assms inorder_add [of T V] ascending_parts(2) [of "inorder T" V "key V"]
      add_internal_balanced [of T I V] room_of_nodes
    by (auto simp: well_formed_def)
  show "set (inorder (add_internal I V T)) = {v \<in> set (inorder T). key v \<noteq> key V} \<union> {V}"
    using assms isLess_total isLess_irrefl
    by (auto simp: well_formed_def inorder_add before_def after_def)
qed

lemma well_formed_remove:
  assumes "well_formed T" and "nodes T < 2 ^ 64"
  shows "well_formed (remove_internal I K T)"
    "set (inorder (remove_internal I K T)) = {v \<in> set (inorder T). key v \<noteq> K}"
proof -
  show "well_formed (remove_internal I K T)"
    using assms inorder_remove [of T K] ascending_parts(1) [of "inorder T" K]
      remove_internal_balanced [of T I K] room_of_nodes
    by (auto simp: well_formed_def)
  show "set (inorder (remove_internal I K T)) = {v \<in> set (inorder T). key v \<noteq> K}"
    using assms isLess_total isLess_irrefl
    by (auto simp: well_formed_def inorder_remove before_def after_def)
qed

end

interpretation container: ordered_info ImutContainerInfo
  by unfold_locales (auto simp: ImutContainerInfo_def)

interpretation key_value: ordered_info ImutKeyValueInfo
  by unfold_locales (auto simp: ImutKeyValueInfo_def ImutContainerInfo_def)

end
