(* ===== verification/LL_ImutIter.thy ===== *)
theory LL_ImutIter imports LL_ImutAVL_Lemmas begin

text \<open>
  \<open>ADT/ImmutableSet.h\<close>, second part: the iterators over the immutable trees and the comparisons
  that run on them.  The stack of the generic iterator is a list whose head is \<open>stack.back()\<close>;
  the two flag bits of an entry are its visit state.  A failed assertion is \<open>Abort\<close>,
  \<open>llvm_unreachable\<close> is \<open>Undefined\<close>.
\<close>

section \<open>The generic iterator\<close>

datatype visit_flag = VisitedNone | VisitedLeft | VisitedRight

type_synonym 'v gen_iter = "('v imut_tree \<times> visit_flag) list"

definition gen_begin :: "'v imut_tree \<Rightarrow> 'v gen_iter" where
  "gen_begin Root = (if Root \<noteq> Null then [(Root, VisitedNone)] else [])"

definition deref :: "'v gen_iter \<Rightarrow> 'v imut_tree" where
  "deref stack = fst (hd stack)"

definition getVisitState :: "'v gen_iter \<Rightarrow> stop + visit_flag" where
  "getVisitState stack = (if stack = [] then Inl Abort else Inr (snd (hd stack)))"

definition atEnd :: "'v gen_iter \<Rightarrow> bool" where
  "atEnd stack \<longleftrightarrow> stack = []"

definition atBeginning :: "'v gen_iter \<Rightarrow> bool" where
  "atBeginning stack \<longleftrightarrow> length stack = 1 \<and> getVisitState stack = Inr VisitedNone"

fun skipToParent :: "'v gen_iter \<Rightarrow> stop + 'v gen_iter" where
  "skipToParent [] = Inl Abort"
| "skipToParent [e] = Inr []"
| "skipToParent (e # (T, VisitedNone) # stack) = Inr ((T, VisitedLeft) # stack)"
| "skipToParent (e # (T, VisitedLeft) # stack) = Inr ((T, VisitedRight) # stack)"
| "skipToParent (e # (T, VisitedRight) # stack) = Inl Undefined"

fun gen_increment :: "'v gen_iter \<Rightarrow> stop + 'v gen_iter" where
  "gen_increment [] = Inl Abort"
| "gen_increment ((Current, state) # stack) =
     (if Current = Null then Inl Abort
      else case state of
        VisitedNone \<Rightarrow>
          (let L = getLeft Current in
           Inr (if L \<noteq> Null then (L, VisitedNone) # (Current, state) # stack
                else (Current, VisitedLeft) # stack))
      | VisitedLeft \<Rightarrow>
          (let R = getRight Current in
           Inr (if R \<noteq> Null then (R, VisitedNone) # (Current, state) # stack
                else (Current, VisitedRight) # stack))
      | VisitedRight \<Rightarrow> skipToParent ((Current, state) # stack))"

fun gen_decrement :: "'v gen_iter \<Rightarrow> stop + 'v gen_iter" where
  "gen_decrement [] = Inl Abort"
| "gen_decrement ((Current, state) # stack) =
     (if Current = Null then Inl Abort
      else case state of
        VisitedNone \<Rightarrow> Inr stack
      | VisitedLeft \<Rightarrow>
          (let stack = (Current, VisitedNone) # stack; L = getLeft Current in
           Inr (if L \<noteq> Null then (L, VisitedRight) # stack else stack))
      | VisitedRight \<Rightarrow>
          (let stack = (Current, VisitedLeft) # stack; R = getRight Current in
           Inr (if R \<noteq> Null then (R, VisitedRight) # stack else stack)))"

section \<open>Termination\<close>

text \<open>
  The steps an iterator can still take, forwards and backwards: what the top entry has before it
  and what the entries below it have once the top is left.
\<close>

fun cost :: "'v imut_tree \<Rightarrow> nat" where
  "cost Null = 0"
| "cost (Node l v h r) = cost l + cost r + 4"

fun top_ahead :: "'v imut_tree \<times> visit_flag \<Rightarrow> nat" where
  "top_ahead (T, VisitedNone) = cost T + 1"
| "top_ahead (T, VisitedLeft) = cost (getRight T) + 3"
| "top_ahead (T, VisitedRight) = 1"

fun below_ahead :: "'v imut_tree \<times> visit_flag \<Rightarrow> nat" where
  "below_ahead (T, VisitedNone) = cost (getRight T) + 3"
| "below_ahead (T, VisitedLeft) = 1"
| "below_ahead (T, VisitedRight) = 0"

fun ahead :: "'v gen_iter \<Rightarrow> nat" where
  "ahead [] = 0"
| "ahead (e # stack) = top_ahead e + sum_list (map below_ahead stack)"

lemma ahead_skipToParent: "skipToParent (e # stack) = Inr stack' \<Longrightarrow> ahead stack' < 1 + sum_list (map below_ahead stack)"
  by (cases "e # stack" rule: skipToParent.cases) auto

lemma ahead_increment: "gen_increment stack = Inr stack' \<Longrightarrow> ahead stack' < ahead stack"
proof (cases stack rule: gen_increment.cases)
  case (2 T state rest)
  moreover assume "gen_increment stack = Inr stack'"
  ultimately show ?thesis
    using ahead_skipToParent [of "(T, VisitedRight)" rest stack']
    by (cases T; cases state) (auto simp: Let_def split: if_splits)
qed simp

fun top_behind :: "'v imut_tree \<times> visit_flag \<Rightarrow> nat" where
  "top_behind (T, VisitedNone) = 1"
| "top_behind (T, VisitedLeft) = cost (getLeft T) + 2"
| "top_behind (T, VisitedRight) = cost T"

fun below_behind :: "'v imut_tree \<times> visit_flag \<Rightarrow> nat" where
  "below_behind (T, VisitedNone) = 1"
| "below_behind (T, VisitedLeft) = cost (getLeft T) + 2"
| "below_behind (T, VisitedRight) = cost T"

fun behind :: "'v gen_iter \<Rightarrow> nat" where
  "behind [] = 0"
| "behind (e # stack) = top_behind e + sum_list (map below_behind stack)"

lemma top_below_behind: "top_behind e = below_behind e"
  by (cases e rule: top_behind.cases) simp_all

lemma behind_decrement: "gen_decrement stack = Inr stack' \<Longrightarrow> behind stack' < behind stack"
proof (cases stack rule: gen_decrement.cases)
  case (2 T state rest)
  moreover assume "gen_decrement stack = Inr stack'"
  moreover have "behind rest \<le> sum_list (map below_behind rest)" by (cases rest) (simp_all add: top_below_behind)
  ultimately show ?thesis by (cases T; cases state) (auto simp: Let_def split: if_splits)
qed simp

section \<open>The inorder iterator\<close>

text \<open>The loops that step the generic iterator until it stands between two subtrees.\<close>

function seek_forward :: "'v gen_iter \<Rightarrow> stop + 'v gen_iter" where
  "seek_forward stack =
     (if \<not> atEnd stack \<and> getVisitState stack \<noteq> Inr VisitedLeft
      then (case gen_increment stack of Inl e \<Rightarrow> Inl e | Inr stack \<Rightarrow> seek_forward stack) else Inr stack)"
  by pat_completeness auto
termination
  by (relation "measure ahead") (auto dest: ahead_increment)

declare seek_forward.simps [simp del]

function seek_backward :: "'v gen_iter \<Rightarrow> stop + 'v gen_iter" where
  "seek_backward stack =
     (if atBeginning stack then Inr stack
      else case getVisitState stack of
        Inl e \<Rightarrow> Inl e
      | Inr state \<Rightarrow>
          if state \<noteq> VisitedLeft
          then (case gen_decrement stack of Inl e \<Rightarrow> Inl e | Inr stack \<Rightarrow> seek_backward stack) else Inr stack)"
  by pat_completeness auto
termination
  by (relation "measure behind") (auto dest: behind_decrement)

declare seek_backward.simps [simp del]

definition increment :: "'v gen_iter \<Rightarrow> stop + 'v gen_iter" where
  "increment stack = then_do (gen_increment stack) seek_forward"

definition decrement :: "'v gen_iter \<Rightarrow> stop + 'v gen_iter" where
  "decrement stack = then_do (gen_decrement stack) seek_backward"

definition skipSubTree :: "'v gen_iter \<Rightarrow> stop + 'v gen_iter" where
  "skipSubTree stack = then_do (skipToParent stack) seek_forward"

definition begin_iter :: "'v imut_tree \<Rightarrow> stop + 'v gen_iter" where
  "begin_iter Root = (if Root \<noteq> Null then increment (gen_begin Root) else Inr (gen_begin Root))"

definition end_iter :: "'v gen_iter" where
  "end_iter = []"

lemma ahead_seek_forward: "seek_forward stack = Inr stack' \<Longrightarrow> ahead stack' \<le> ahead stack"
proof (induction stack rule: seek_forward.induct)
  case (1 stack)
  show ?case
  proof (cases "\<not> atEnd stack \<and> getVisitState stack \<noteq> Inr VisitedLeft")
    case True
    with 1(2) obtain t where t: "gen_increment stack = Inr t" "seek_forward t = Inr stack'"
      by (subst (asm) seek_forward.simps) (auto split: sum.splits)
    with 1(1) [OF True t(1)] ahead_increment [OF t(1)] show ?thesis by simp
  next
    case False
    with 1(2) show ?thesis by (subst (asm) seek_forward.simps) auto
  qed
qed

lemma ahead_next: "increment stack = Inr stack' \<Longrightarrow> ahead stack' < ahead stack"
  using ahead_increment ahead_seek_forward by (fastforce simp: increment_def then_do_eq_Inr)

lemma ahead_skipSubTree: "skipSubTree stack = Inr stack' \<Longrightarrow> ahead stack' < ahead stack"
proof (cases stack)
  case (Cons e st)
  assume "skipSubTree stack = Inr stack'"
  then obtain t where t: "skipToParent (e # st) = Inr t" "seek_forward t = Inr stack'"
    by (auto simp: skipSubTree_def then_do_eq_Inr Cons)
  have "1 \<le> top_ahead e" by (cases e rule: top_ahead.cases) simp_all
  with ahead_skipToParent [OF t(1)] ahead_seek_forward [OF t(2)] show ?thesis by (simp add: Cons)
qed (simp add: skipSubTree_def)

section \<open>Positions\<close>

text \<open>
  A stack is the path from the root to a node: below an entry stands its parent, in the state
  that says which child was entered.
\<close>

fun path :: "'v gen_iter \<Rightarrow> bool" where
  "path [] = True"
| "path [(T, s)] \<longleftrightarrow> T \<noteq> Null"
| "path ((c, s) # (T, t) # stack) \<longleftrightarrow> c \<noteq> Null \<and>
     (t = VisitedNone \<and> c = getLeft T \<or> t = VisitedLeft \<and> c = getRight T) \<and> path ((T, t) # stack)"

text \<open>The elements from the iterator's position on, and those before it.\<close>

fun top_rest :: "'v imut_tree \<times> visit_flag \<Rightarrow> 'v list" where
  "top_rest (T, VisitedNone) = inorder T"
| "top_rest (T, VisitedLeft) = getValue T # inorder (getRight T)"
| "top_rest (T, VisitedRight) = []"

fun below_rest :: "'v imut_tree \<times> visit_flag \<Rightarrow> 'v list" where
  "below_rest (T, VisitedNone) = getValue T # inorder (getRight T)"
| "below_rest (T, s) = []"

fun rest :: "'v gen_iter \<Rightarrow> 'v list" where
  "rest [] = []"
| "rest (e # stack) = top_rest e @ concat (map below_rest stack)"

fun top_past :: "'v imut_tree \<times> visit_flag \<Rightarrow> 'v list" where
  "top_past (T, VisitedNone) = []"
| "top_past (T, VisitedLeft) = inorder (getLeft T)"
| "top_past (T, VisitedRight) = inorder T"

fun below_past :: "'v imut_tree \<times> visit_flag \<Rightarrow> 'v list" where
  "below_past (T, VisitedNone) = []"
| "below_past (T, s) = inorder (getLeft T) @ [getValue T]"

fun past :: "'v gen_iter \<Rightarrow> 'v list" where
  "past [] = []"
| "past (e # stack) = concat (rev (map below_past stack)) @ top_past e"

text \<open>The iterator stands at an element, or at the end.\<close>

definition settled :: "'v gen_iter \<Rightarrow> bool" where
  "settled stack \<longleftrightarrow> path stack \<and> (stack = [] \<or> snd (hd stack) = VisitedLeft)"

lemma path_Cons: "path (e # stack) \<Longrightarrow> path stack \<and> fst e \<noteq> Null"
  by (cases "e # stack" rule: path.cases) auto

lemma path_top: "path ((T, s) # stack) = path ((T, s') # stack)"
  by (cases stack) auto

lemma skipToParent_path:
  assumes "path (e # stack)"
  shows "\<exists>stack'. skipToParent (e # stack) = Inr stack' \<and> path stack' \<and> rest stack' = concat (map below_rest stack)"
  using assms
  by (cases e; cases "e # stack" rule: skipToParent.cases)
    (auto simp: path_top [of _ VisitedLeft _ VisitedNone] path_top [of _ VisitedRight _ VisitedLeft])

text \<open>One step forward drops the element the iterator stands at, if it stands at one.\<close>

lemma gen_increment_path:
  assumes "path ((T, s) # stack)"
  shows "\<exists>stack'. gen_increment ((T, s) # stack) = Inr stack' \<and> path stack' \<and>
    rest stack' = (if s = VisitedLeft then tl (rest ((T, s) # stack)) else rest ((T, s) # stack))"
proof -
  have T: "T \<noteq> Null" using path_Cons [OF assms] by simp
  then obtain l v h r where t: "T = Node l v h r" by (cases T) auto
  show ?thesis
  proof (cases s)
    case VisitedRight
    then show ?thesis using skipToParent_path [OF assms] T by auto
  qed (use assms path_top [of T VisitedLeft stack VisitedNone] path_top [of T VisitedRight stack VisitedLeft] t in auto)
qed

lemma seek_forward_path:
  "path stack \<Longrightarrow> \<exists>stack'. seek_forward stack = Inr stack' \<and> settled stack' \<and> rest stack' = rest stack"
proof (induction stack rule: seek_forward.induct)
  case (1 stack)
  show ?case
  proof (cases "\<not> atEnd stack \<and> getVisitState stack \<noteq> Inr VisitedLeft")
    case True
    then obtain T s st where st: "stack = (T, s) # st" "s \<noteq> VisitedLeft"
      by (cases stack) (auto simp: atEnd_def getVisitState_def)
    obtain t where t: "gen_increment stack = Inr t" "path t" "rest t = rest stack"
      using gen_increment_path [of T s st] 1(2) st by auto
    have "seek_forward stack = seek_forward t" using True t(1) by (subst seek_forward.simps) simp
    with 1(1) [OF True t(1,2)] t(3) show ?thesis by simp
  next
    case False
    then have "seek_forward stack = Inr stack" by (subst seek_forward.simps) auto
    moreover have "settled stack" using False 1(2) by (auto simp: settled_def atEnd_def getVisitState_def split: if_splits)
    ultimately show ?thesis by simp
  qed
qed

text \<open>The operations of the inorder iterator.\<close>

lemma settled_rest: "settled stack \<Longrightarrow> stack \<noteq> [] \<Longrightarrow> \<exists>vs. rest stack = getValue (deref stack) # vs"
  by (cases stack) (auto simp: settled_def deref_def)

lemma settled_end: "settled stack \<Longrightarrow> rest stack = [] \<longleftrightarrow> stack = []"
  using settled_rest by fastforce

lemma increment_settled:
  assumes "settled stack" "stack \<noteq> []"
  shows "\<exists>stack'. increment stack = Inr stack' \<and> settled stack' \<and> rest stack' = tl (rest stack)"
proof -
  obtain T st where st: "stack = (T, VisitedLeft) # st" "path stack"
    using assms by (cases stack) (auto simp: settled_def)
  obtain t where t: "gen_increment stack = Inr t" "path t" "rest t = tl (rest stack)"
    using gen_increment_path [of T VisitedLeft st] st by auto
  with seek_forward_path [OF t(2)] show ?thesis by (simp add: increment_def)
qed

lemma begin_iter_settled: "\<exists>stack. begin_iter T = Inr stack \<and> settled stack \<and> rest stack = inorder T"
proof (cases "T = Null")
  case True
  then show ?thesis by (simp add: begin_iter_def gen_begin_def settled_def)
next
  case False
  then have p: "path [(T, VisitedNone)]" by simp
  obtain t where t: "gen_increment [(T, VisitedNone)] = Inr t" "path t" "rest t = inorder T"
    using gen_increment_path [OF p] by auto
  with seek_forward_path [OF t(2)] False show ?thesis
    by (simp add: begin_iter_def gen_begin_def increment_def)
qed

lemma skipSubTree_settled:
  assumes "settled stack" "stack \<noteq> []"
  shows "\<exists>stack'. skipSubTree stack = Inr stack' \<and> settled stack' \<and>
    rest stack = getValue (deref stack) # inorder (getRight (deref stack)) @ rest stack'"
proof -
  obtain T st where st: "stack = (T, VisitedLeft) # st" "path stack"
    using assms by (cases stack) (auto simp: settled_def)
  obtain t where t: "skipToParent stack = Inr t" "path t" "rest t = concat (map below_rest st)"
    using skipToParent_path [of "(T, VisitedLeft)" st] st by auto
  with seek_forward_path [OF t(2)] st show ?thesis by (auto simp: skipSubTree_def deref_def)
qed

section \<open>Backwards\<close>

lemma gen_decrement_path:
  assumes "path ((T, s) # stack)" and "(T, s) # stack \<noteq> [(T, VisitedNone)]"
  shows "\<exists>stack'. gen_decrement ((T, s) # stack) = Inr stack' \<and> path stack' \<and> stack' \<noteq> [] \<and>
    past stack' @ rest stack' = past ((T, s) # stack) @ rest ((T, s) # stack) \<and>
    past stack' = (if snd (hd stack') = VisitedLeft then butlast (past ((T, s) # stack)) else past ((T, s) # stack))"
proof -
  have "T \<noteq> Null" using path_Cons [OF assms(1)] by simp
  then obtain l v h r where t: "T = Node l v h r" by (cases T) auto
  show ?thesis
  proof (cases s)
    case VisitedNone
    then obtain P u st where st: "stack = (P, u) # st" using assms(2) by (cases stack) auto
    have u: "u = VisitedNone \<and> T = getLeft P \<or> u = VisitedLeft \<and> T = getRight P" and p: "path stack"
      using assms(1) by (simp_all add: st)
    from p have "P \<noteq> Null" using path_Cons st by fastforce
    then have "inorder P = inorder (getLeft P) @ getValue P # inorder (getRight P)" by (rule inorder_parts)
    then show ?thesis using VisitedNone u p \<open>T \<noteq> Null\<close> st by (auto simp: butlast_append)
  next
    case VisitedLeft
    then show ?thesis
      using assms(1) t path_top [of T VisitedNone stack VisitedLeft] by (cases "l = Null") (auto simp: Let_def)
  next
    case VisitedRight
    then show ?thesis
      using assms(1) t path_top [of T VisitedLeft stack VisitedRight]
      by (cases "r = Null") (auto simp: Let_def butlast_append)
  qed
qed

lemma seek_backward_path:
  "path stack \<Longrightarrow> stack \<noteq> [] \<Longrightarrow> snd (hd stack) \<noteq> VisitedLeft \<Longrightarrow> \<exists>stack'. seek_backward stack = Inr stack' \<and>
    path stack' \<and> stack' \<noteq> [] \<and> past stack' @ rest stack' = past stack @ rest stack \<and>
    (if past stack = [] then atBeginning stack'
     else snd (hd stack') = VisitedLeft \<and> past stack' = butlast (past stack))"
proof (induction stack rule: seek_backward.induct)
  case (1 stack)
  obtain T s st where st: "stack = (T, s) # st" using 1(3) by (cases stack) auto
  show ?case
  proof (cases "atBeginning stack")
    case True
    then have "past stack = []" by (auto simp: atBeginning_def getVisitState_def st split: if_splits)
    moreover have "seek_backward stack = Inr stack" using True by (subst seek_backward.simps) simp
    ultimately show ?thesis using True 1(2,3) by simp
  next
    case False
    then have "stack \<noteq> [(T, VisitedNone)]" by (auto simp: atBeginning_def getVisitState_def)
    with gen_decrement_path [of T s st] 1(2) st obtain t where
      t: "gen_decrement stack = Inr t" "path t" "t \<noteq> []" "past t @ rest t = past stack @ rest stack"
        "past t = (if snd (hd t) = VisitedLeft then butlast (past stack) else past stack)"
      by auto
    have g: "getVisitState stack = Inr (snd (hd stack))" using 1(3) by (simp add: getVisitState_def)
    have e: "seek_backward stack = seek_backward t"
      using False g t(1) 1(4) by (subst seek_backward.simps) simp
    show ?thesis
    proof (cases "snd (hd t) = VisitedLeft")
      case True
      then have "\<not> atBeginning t" "getVisitState t = Inr VisitedLeft"
        using t(3) by (simp_all add: atBeginning_def getVisitState_def)
      then have "seek_backward t = Inr t" by (subst seek_backward.simps) simp
      moreover have "past stack \<noteq> []"
      proof
        assume n: "past stack = []"
        with t(4) have "past t @ rest t = rest stack" by simp
        obtain P u where t': "t = (P, VisitedLeft) # u" using True t(3) by (cases t) auto
        have "length (rest t) > length (rest stack)"
        proof (cases s)
          case VisitedNone
          then have "st = t" using t(1) 1(2) path_Cons [of "(T, s)" st] by (auto simp: st split: if_splits)
          then show ?thesis using n 1(2) by (auto simp: st t' VisitedNone)
        next
          case VisitedLeft
          then show ?thesis using 1(4) by (simp add: st)
        next
          case VisitedRight
          then show ?thesis using n 1(2) path_Cons [of "(T, s)" st] by (cases T) (auto simp: st)
        qed
        with \<open>past t @ rest t = rest stack\<close> show False by (metis length_append not_add_less2)
      qed
      ultimately show ?thesis using e t True by simp
    next
      case Left: False
      then have p: "past t = past stack" using t(5) by simp
      from 1(1) [OF False g 1(4) t(1)] t(2,3) Left have
        "\<exists>stack'. seek_backward t = Inr stack' \<and> path stack' \<and> stack' \<noteq> [] \<and>
          past stack' @ rest stack' = past t @ rest t \<and>
          (if past t = [] then atBeginning stack'
           else snd (hd stack') = VisitedLeft \<and> past stack' = butlast (past t))" by blast
      then obtain u where "seek_backward t = Inr u \<and> path u \<and> u \<noteq> [] \<and> past u @ rest u = past t @ rest t \<and>
          (if past t = [] then atBeginning u else snd (hd u) = VisitedLeft \<and> past u = butlast (past t))" ..
      then show ?thesis using t(4) by (intro exI [of _ u]) (simp add: e p)
    qed
  qed
qed

lemma decrement_settled:
  assumes "settled stack" "stack \<noteq> []" "past stack \<noteq> []"
  shows "\<exists>stack'. decrement stack = Inr stack' \<and> settled stack' \<and> stack' \<noteq> [] \<and>
    past stack' = butlast (past stack) \<and> rest stack' = last (past stack) # rest stack"
proof -
  obtain T st where st: "stack = (T, VisitedLeft) # st" "path stack"
    using assms(1,2) by (cases stack) (auto simp: settled_def)
  obtain t where t: "gen_decrement stack = Inr t" "path t" "t \<noteq> []" "past t @ rest t = past stack @ rest stack"
      "past t = (if snd (hd t) = VisitedLeft then butlast (past stack) else past stack)"
    using gen_decrement_path [of T VisitedLeft st] st by auto
  have "snd (hd t) \<noteq> VisitedLeft"
    using t(1) st path_Cons [of "(T, VisitedLeft)" st] by (auto simp: Let_def split: if_splits)
  with t(5) have p: "past t = past stack" by simp
  obtain u where u: "seek_backward t = Inr u" "path u" "u \<noteq> []" "past u @ rest u = past t @ rest t"
      "snd (hd u) = VisitedLeft" "past u = butlast (past t)"
    using seek_backward_path [OF t(2,3) \<open>snd (hd t) \<noteq> VisitedLeft\<close>] p assms(3) by auto
  have "past u @ rest u = past u @ last (past stack) # rest stack"
    using u(4,6) t(4) p append_butlast_last_id [OF assms(3)] by (metis append_Cons append_assoc append_Nil)
  then have "rest u = last (past stack) # rest stack" by simp
  then show ?thesis using t(1) u p by (simp add: decrement_def settled_def)
qed

section \<open>Comparisons\<close>

definition elements_equal :: "('v, 'k, 'd) imut_info \<Rightarrow> 'v \<Rightarrow> 'v \<Rightarrow> bool" where
  "elements_equal I v w \<longleftrightarrow> isEqual I (KeyOfValue I v) (KeyOfValue I w) \<and> isDataEqual I (DataOfValue I v) (DataOfValue I w)"

lemma isElementEqual_iff: "isElementEqual I S T \<longleftrightarrow> elements_equal I (getValue S) (getValue T)"
  by (simp add: isElementEqual_def elements_equal_def Let_def)

text \<open>\<open>compareTreeWithSection\<close>: the tree against the elements from \<open>TI\<close> on, which it moves.\<close>

function compare_loop :: "('v, 'k, 'd) imut_info \<Rightarrow> 'v gen_iter \<Rightarrow> 'v gen_iter \<Rightarrow> stop + bool \<times> 'v gen_iter" where
  "compare_loop I J TI =
     (if J = end_iter then Inr (True, TI)
      else if TI = end_iter \<or> \<not> isElementEqual I (deref J) (deref TI) then Inr (False, TI)
      else case increment J of
          Inl e \<Rightarrow> Inl e
        | Inr J \<Rightarrow> (case increment TI of Inl e \<Rightarrow> Inl e | Inr TI \<Rightarrow> compare_loop I J TI))"
  by pat_completeness auto
termination
  by (relation "measure (\<lambda>(I, J, TI). ahead J)") (auto dest: ahead_next)

declare compare_loop.simps [simp del]

definition compareTreeWithSection ::
  "('v, 'k, 'd) imut_info \<Rightarrow> 'v imut_tree \<Rightarrow> 'v gen_iter \<Rightarrow> stop + bool \<times> 'v gen_iter" where
  "compareTreeWithSection I T TI = then_do (begin_iter T) (\<lambda>J. compare_loop I J TI)"

text \<open>
  \<open>ImutAVLTree::isEqual\<close>: \<open>same\<close> compares two pointers to nodes; shared subtrees are skipped
  on both sides.
\<close>

function equal_loop ::
  "('v imut_tree \<Rightarrow> 'v imut_tree \<Rightarrow> bool) \<Rightarrow> ('v, 'k, 'd) imut_info \<Rightarrow> 'v gen_iter \<Rightarrow> 'v gen_iter \<Rightarrow> stop + bool" where
  "equal_loop same I LItr RItr =
     (if LItr = end_iter \<or> RItr = end_iter then Inr (LItr = end_iter \<and> RItr = end_iter)
      else if same (deref LItr) (deref RItr) then
        (case skipSubTree LItr of
           Inl e \<Rightarrow> Inl e
         | Inr LItr \<Rightarrow> (case skipSubTree RItr of Inl e \<Rightarrow> Inl e | Inr RItr \<Rightarrow> equal_loop same I LItr RItr))
      else if \<not> isElementEqual I (deref LItr) (deref RItr) then Inr False
      else
        (case increment LItr of
           Inl e \<Rightarrow> Inl e
         | Inr LItr \<Rightarrow> (case increment RItr of Inl e \<Rightarrow> Inl e | Inr RItr \<Rightarrow> equal_loop same I LItr RItr)))"
  by pat_completeness auto
termination
  by (relation "measure (\<lambda>(same, I, J, TI). ahead J)") (auto dest: ahead_next ahead_skipSubTree)

declare equal_loop.simps [simp del]

definition tree_isEqual ::
  "('v imut_tree \<Rightarrow> 'v imut_tree \<Rightarrow> bool) \<Rightarrow> ('v, 'k, 'd) imut_info \<Rightarrow> 'v imut_tree \<Rightarrow> 'v imut_tree \<Rightarrow> stop + bool" where
  "tree_isEqual same I T RHS =
     (if same RHS T then Inr True
      else then_do (begin_iter T) (\<lambda>LItr. then_do (begin_iter RHS) (\<lambda>RItr. equal_loop same I LItr RItr)))"

lemma rest_parts: "settled J \<Longrightarrow> J \<noteq> [] \<Longrightarrow> rest J = getValue (deref J) # tl (rest J)"
  using settled_rest by fastforce

lemma compare_loop_settled:
  "settled J \<Longrightarrow> settled TI \<Longrightarrow> \<exists>b TI'. compare_loop I J TI = Inr (b, TI') \<and> settled TI' \<and>
    (b \<and> rest TI' = [] \<longleftrightarrow> list_all2 (elements_equal I) (rest J) (rest TI))"
proof (induction I J TI rule: compare_loop.induct)
  case (1 I J TI)
  note IH = 1(1) and J = 1(2) and T = 1(3)
  consider "J = []" | "J \<noteq> []" "TI = [] \<or> \<not> isElementEqual I (deref J) (deref TI)"
    | "J \<noteq> []" "TI \<noteq> []" "isElementEqual I (deref J) (deref TI)" by blast
  then show ?case
  proof cases
    case 1
    with T settled_end [OF T] show ?thesis by (subst compare_loop.simps) (auto simp: end_iter_def)
  next
    case 2
    then have "\<not> list_all2 (elements_equal I) (rest J) (rest TI)"
      using rest_parts [OF J] rest_parts [OF T] settled_end [OF T]
      by (metis isElementEqual_iff list_all2_Cons list_all2_Nil2 list.distinct(1))
    then show ?thesis using 2 T by (subst compare_loop.simps) (auto simp: end_iter_def)
  next
    case 3
    obtain J' where J': "increment J = Inr J'" "settled J'" "rest J' = tl (rest J)"
      using increment_settled [OF J 3(1)] by blast
    obtain TI' where TI': "increment TI = Inr TI'" "settled TI'" "rest TI' = tl (rest TI)"
      using increment_settled [OF T 3(2)] by blast
    have e: "compare_loop I J TI = compare_loop I J' TI'"
      using 3 J'(1) TI'(1) by (subst compare_loop.simps) (simp add: end_iter_def)
    have l: "list_all2 (elements_equal I) (rest J) (rest TI) = list_all2 (elements_equal I) (rest J') (rest TI')"
      using rest_parts [OF J 3(1)] rest_parts [OF T 3(2)] J'(3) TI'(3) 3(3)
      by (metis isElementEqual_iff list_all2_Cons)
    have "\<not> (TI = end_iter \<or> \<not> isElementEqual I (deref J) (deref TI))" "J \<noteq> end_iter" using 3 by (simp_all add: end_iter_def)
    from IH [OF this(2,1) J'(1) TI'(1) J'(2) TI'(2)] e l show ?thesis by simp
  qed
qed

lemma equal_loop_settled:
  assumes same: "\<And>S T. same S T \<Longrightarrow> S = T" and refl: "\<And>v. elements_equal I v v"
  shows "settled L \<Longrightarrow> settled R \<Longrightarrow>
    equal_loop same I L R = Inr (list_all2 (elements_equal I) (rest L) (rest R))"
proof (induction "ahead L" arbitrary: L R rule: less_induct)
  case less
  consider "L = [] \<or> R = []" | "L \<noteq> []" "R \<noteq> []" "same (deref L) (deref R)"
    | "L \<noteq> []" "R \<noteq> []" "\<not> same (deref L) (deref R)" "\<not> isElementEqual I (deref L) (deref R)"
    | "L \<noteq> []" "R \<noteq> []" "\<not> same (deref L) (deref R)" "isElementEqual I (deref L) (deref R)"
    by blast
  then show ?case
  proof cases
    case 1
    then show ?thesis
      using settled_end [OF less.prems(1)] settled_end [OF less.prems(2)]
      by (subst equal_loop.simps) (auto simp: end_iter_def)
  next
    case 2
    obtain L' where L': "skipSubTree L = Inr L'" "settled L'"
        "rest L = getValue (deref L) # inorder (getRight (deref L)) @ rest L'"
      using skipSubTree_settled [OF less.prems(1) 2(1)] by blast
    obtain R' where R': "skipSubTree R = Inr R'" "settled R'"
        "rest R = getValue (deref R) # inorder (getRight (deref R)) @ rest R'"
      using skipSubTree_settled [OF less.prems(2) 2(2)] by blast
    have "list_all2 (elements_equal I) xs xs" for xs by (rule list_all2_refl) (rule refl)
    then have "list_all2 (elements_equal I) (rest L) (rest R) = list_all2 (elements_equal I) (rest L') (rest R')"
      using same [OF 2(3)] L'(3) R'(3) refl by (simp add: list_all2_append)
    moreover have "equal_loop same I L R = equal_loop same I L' R'"
      using 2 L'(1) R'(1) by (subst equal_loop.simps) (simp add: end_iter_def)
    ultimately show ?thesis using less.hyps [OF ahead_skipSubTree [OF L'(1)] L'(2) R'(2)] by simp
  next
    case 3
    then show ?thesis
      using rest_parts [OF less.prems(1)] rest_parts [OF less.prems(2)]
      by (subst equal_loop.simps) (simp add: end_iter_def isElementEqual_iff, metis list_all2_Cons)
  next
    case 4
    obtain L' where L': "increment L = Inr L'" "settled L'" "rest L' = tl (rest L)"
      using increment_settled [OF less.prems(1) 4(1)] by blast
    obtain R' where R': "increment R = Inr R'" "settled R'" "rest R' = tl (rest R)"
      using increment_settled [OF less.prems(2) 4(2)] by blast
    have "list_all2 (elements_equal I) (rest L) (rest R) = list_all2 (elements_equal I) (rest L') (rest R')"
      using rest_parts [OF less.prems(1) 4(1)] rest_parts [OF less.prems(2) 4(2)] L'(3) R'(3) 4(4)
      by (metis isElementEqual_iff list_all2_Cons)
    moreover have "equal_loop same I L R = equal_loop same I L' R'"
      using 4 L'(1) R'(1) by (subst equal_loop.simps) (simp add: end_iter_def)
    ultimately show ?thesis using less.hyps [OF ahead_next [OF L'(1)] L'(2) R'(2)] by simp
  qed
qed

end
