(* ===== verification/LL_ImutSet.thy ===== *)
theory LL_ImutSet imports LL_ImutIter begin

text \<open>
  \<open>ADT/ImmutableSet.h\<close>, third part, and \<open>ADT/ImmutableMap.h\<close>: the cache that makes trees with
  the same contents one tree, and the containers.  A container is the tree its \<open>Root\<close> points
  to.  \<open>hash\<close> stands for \<open>ComputeHash\<close> of an element's profile, \<open>canon T\<close> for the bit
  \<open>IsCanonicalized\<close> of the node \<open>T\<close> points to.  That computed digests are kept in the nodes
  shows nowhere and is left out.
\<close>

section \<open>Canonical trees\<close>

text \<open>A slot of the cache is the chain of trees linked by \<open>next\<close>, empty where there is no entry.\<close>

record 'v imut_factory =
  Cache :: "u32 \<Rightarrow> 'v imut_tree list"
  Canonicalize :: bool

definition maskCacheIndex :: "u32 \<Rightarrow> u32" where
  "maskCacheIndex I = I AND NOT 0x02"

fun computeDigest :: "('v \<Rightarrow> u32) \<Rightarrow> 'v imut_tree \<Rightarrow> u32" where
  "computeDigest hash Null = 0"
| "computeDigest hash (Node L V h R) =
     (let digest = 0;
          digest = (if L \<noteq> Null then digest + computeDigest hash L else digest);
          digest = digest + hash V;
          digest = (if R \<noteq> Null then digest + computeDigest hash R else digest)
      in digest)"

fun search_chain :: "('v, 'k, 'd) imut_info \<Rightarrow> 'v imut_tree \<Rightarrow> 'v imut_tree list \<Rightarrow> stop + 'v imut_tree option" where
  "search_chain I TNew [] = Inr None"
| "search_chain I TNew (T # chain) =
     then_do (begin_iter T) (\<lambda>TI.
     then_do (compareTreeWithSection I TNew TI) (\<lambda>(same, TI).
       if \<not> same then search_chain I TNew chain
       else if TI \<noteq> end_iter then search_chain I TNew chain
       else Inr (Some T)))"

definition getCanonicalTree ::
  "('v \<Rightarrow> u32) \<Rightarrow> ('v, 'k, 'd) imut_info \<Rightarrow> ('v imut_tree \<Rightarrow> bool) \<Rightarrow> 'v imut_factory \<Rightarrow> 'v imut_tree
    \<Rightarrow> stop + 'v imut_tree \<times> 'v imut_factory" where
  "getCanonicalTree hash I canon F TNew =
     (if TNew = Null then Inr (Null, F)
      else if canon TNew then Inr (TNew, F)
      else
        let digest = computeDigest hash TNew; entry = Cache F (maskCacheIndex digest) in
        then_do (search_chain I TNew entry) (\<lambda>found.
          case found of
            Some T \<Rightarrow> Inr (T, F)
          | None \<Rightarrow> Inr (TNew, F\<lparr>Cache := (Cache F)(maskCacheIndex digest := TNew # entry)\<rparr>)))"

section \<open>ImmutableSet\<close>

definition set_getEmptySet :: "'v imut_tree" where
  "set_getEmptySet = Null"

definition set_add ::
  "('v \<Rightarrow> u32) \<Rightarrow> ('v, 'k, 'd) imut_info \<Rightarrow> ('v imut_tree \<Rightarrow> bool) \<Rightarrow> 'v imut_factory \<Rightarrow> 'v imut_tree \<Rightarrow> 'v
    \<Rightarrow> stop + 'v imut_tree \<times> 'v imut_factory" where
  "set_add hash I canon F Old V =
     (let NewT = factory_add I Old V
      in if Canonicalize F then getCanonicalTree hash I canon F NewT else Inr (NewT, F))"

definition set_remove ::
  "('v \<Rightarrow> u32) \<Rightarrow> ('v, 'k, 'd) imut_info \<Rightarrow> ('v imut_tree \<Rightarrow> bool) \<Rightarrow> 'v imut_factory \<Rightarrow> 'v imut_tree \<Rightarrow> 'k
    \<Rightarrow> stop + 'v imut_tree \<times> 'v imut_factory" where
  "set_remove hash I canon F Old K =
     (let NewT = factory_remove I Old K
      in if Canonicalize F then getCanonicalTree hash I canon F NewT else Inr (NewT, F))"

definition set_contains :: "('v, 'k, 'd) imut_info \<Rightarrow> 'v imut_tree \<Rightarrow> 'k \<Rightarrow> bool" where
  "set_contains I Root K = (if Root \<noteq> Null then contains I K Root else False)"

text \<open>Where a root is \<open>nullptr\<close> the pointers are compared.\<close>

definition set_equal ::
  "('v imut_tree \<Rightarrow> 'v imut_tree \<Rightarrow> bool) \<Rightarrow> ('v, 'k, 'd) imut_info \<Rightarrow> 'v imut_tree \<Rightarrow> 'v imut_tree \<Rightarrow> stop + bool" where
  "set_equal same I Root RHS =
     (if Root \<noteq> Null \<and> RHS \<noteq> Null then tree_isEqual same I Root RHS else Inr (Root = Null \<and> RHS = Null))"

definition set_isEmpty :: "'v imut_tree \<Rightarrow> bool" where
  "set_isEmpty Root \<longleftrightarrow> Root = Null"

definition set_getHeight :: "'v imut_tree \<Rightarrow> nat" where
  "set_getHeight Root = (if Root \<noteq> Null then stored_height Root else 0)"

definition isSingleton :: "'v imut_tree \<Rightarrow> bool" where
  "isSingleton Root \<longleftrightarrow> set_getHeight Root = 1"

definition set_foreach :: "('v \<Rightarrow> 's \<Rightarrow> 's) \<Rightarrow> 'v imut_tree \<Rightarrow> 's \<Rightarrow> 's" where
  "set_foreach C Root s = (if Root \<noteq> Null then foreach C Root s else s)"

section \<open>ImmutableMap\<close>

definition map_add ::
  "('k \<times> 'd \<Rightarrow> u32) \<Rightarrow> ('k \<times> 'd, 'k, 'd) imut_info \<Rightarrow> (('k \<times> 'd) imut_tree \<Rightarrow> bool) \<Rightarrow> ('k \<times> 'd) imut_factory
    \<Rightarrow> ('k \<times> 'd) imut_tree \<Rightarrow> 'k \<Rightarrow> 'd \<Rightarrow> stop + ('k \<times> 'd) imut_tree \<times> ('k \<times> 'd) imut_factory" where
  "map_add hash I canon F Old K D =
     (let T = factory_add I Old (K, D)
      in if Canonicalize F then getCanonicalTree hash I canon F T else Inr (T, F))"

definition map_remove ::
  "('k \<times> 'd \<Rightarrow> u32) \<Rightarrow> ('k \<times> 'd, 'k, 'd) imut_info \<Rightarrow> (('k \<times> 'd) imut_tree \<Rightarrow> bool) \<Rightarrow> ('k \<times> 'd) imut_factory
    \<Rightarrow> ('k \<times> 'd) imut_tree \<Rightarrow> 'k \<Rightarrow> stop + ('k \<times> 'd) imut_tree \<times> ('k \<times> 'd) imut_factory" where
  "map_remove hash I canon F Old K =
     (let T = factory_remove I Old K
      in if Canonicalize F then getCanonicalTree hash I canon F T else Inr (T, F))"

definition map_contains :: "('k \<times> 'd, 'k, 'd) imut_info \<Rightarrow> ('k \<times> 'd) imut_tree \<Rightarrow> 'k \<Rightarrow> bool" where
  "map_contains I Root K = (if Root \<noteq> Null then contains I K Root else False)"

definition lookup :: "('k \<times> 'd, 'k, 'd) imut_info \<Rightarrow> ('k \<times> 'd) imut_tree \<Rightarrow> 'k \<Rightarrow> 'd option" where
  "lookup I Root K =
     (if Root \<noteq> Null then
        let T = find I K Root in
        if T \<noteq> Null then Some (snd (getValue T)) else None
      else None)"

definition map_getMaxElement :: "('k \<times> 'd) imut_tree \<Rightarrow> ('k \<times> 'd) option" where
  "map_getMaxElement Root = (if Root \<noteq> Null then Some (getValue (getMaxElement Root)) else None)"

section \<open>The invariant of the cache\<close>

text \<open>The digest of a tree is the sum over its elements, whatever its shape.\<close>

lemma computeDigest_inorder: "computeDigest hash T = sum_list (map hash (inorder T))"
  by (induction T) (auto simp: Let_def)

text \<open>Element comparison that is equality, as for both trait classes.\<close>

locale comparable_info = ordered_info +
  assumes elements_equal_iff: "elements_equal I v w \<longleftrightarrow> v = w"
begin

text \<open>
  The trees of a slot are well formed, have the digest of the slot, and differ in their contents.
\<close>

definition cache_ok :: "('a \<Rightarrow> u32) \<Rightarrow> 'a imut_factory \<Rightarrow> bool" where
  "cache_ok hash F \<longleftrightarrow> (\<forall>i. distinct (map inorder (Cache F i)) \<and>
     (\<forall>T \<in> set (Cache F i). T \<noteq> Null \<and> well_formed T \<and> maskCacheIndex (computeDigest hash T) = i))"

definition canonical_tree :: "('a \<Rightarrow> u32) \<Rightarrow> 'a imut_factory \<Rightarrow> 'a imut_tree \<Rightarrow> bool" where
  "canonical_tree hash F T \<longleftrightarrow> T = Null \<or> T \<in> set (Cache F (maskCacheIndex (computeDigest hash T)))"

lemma list_all2_elements [simp]: "list_all2 (elements_equal I) vs ws \<longleftrightarrow> vs = ws"
proof -
  have "elements_equal I = (=)" by (intro ext) (simp add: elements_equal_iff)
  then show ?thesis by (simp add: list.rel_eq)
qed

text \<open>The search finds the first tree with the contents looked for.\<close>

lemma search_chain_find: "search_chain I TNew chain = Inr (List.find (\<lambda>T. inorder T = inorder TNew) chain)"
proof (induction chain)
  case (Cons T chain)
  obtain TI where TI: "begin_iter T = Inr TI" "settled TI" "rest TI = inorder T"
    using begin_iter_settled [of T] by blast
  obtain J where J: "begin_iter TNew = Inr J" "settled J" "rest J = inorder TNew"
    using begin_iter_settled [of TNew] by blast
  obtain b TI' where c: "compare_loop I J TI = Inr (b, TI')" "settled TI'"
      "b \<and> rest TI' = [] \<longleftrightarrow> inorder TNew = inorder T"
    using compare_loop_settled [OF J(2) TI(2), of I] J(3) TI(3) by auto
  have "rest TI' = [] \<longleftrightarrow> TI' = end_iter" using settled_end [OF c(2)] by (simp add: end_iter_def)
  with c TI(1) J(1) Cons show ?case by (auto simp: compareTreeWithSection_def)
qed simp

lemma getCanonicalTree_spec:
  assumes "cache_ok hash F" and "well_formed TNew" and canon: "\<And>T. canon T \<Longrightarrow> canonical_tree hash F T"
  shows "\<exists>T F'. getCanonicalTree hash I canon F TNew = Inr (T, F') \<and> inorder T = inorder TNew \<and> well_formed T \<and>
    cache_ok hash F' \<and> canonical_tree hash F' T \<and> (\<forall>S. canonical_tree hash F S \<longrightarrow> canonical_tree hash F' S)"
proof -
  let ?i = "maskCacheIndex (computeDigest hash TNew)"
  consider "TNew = Null \<or> canon TNew"
    | T where "TNew \<noteq> Null" "\<not> canon TNew" "List.find (\<lambda>T. inorder T = inorder TNew) (Cache F ?i) = Some T"
    | "TNew \<noteq> Null" "\<not> canon TNew" "List.find (\<lambda>T. inorder T = inorder TNew) (Cache F ?i) = None"
    by (cases "List.find (\<lambda>T. inorder T = inorder TNew) (Cache F ?i)") auto
  then show ?thesis
  proof cases
    case 1
    then have "getCanonicalTree hash I canon F TNew = Inr (TNew, F)" by (auto simp: getCanonicalTree_def)
    then show ?thesis using 1 assms canon [of TNew] by (auto simp: canonical_tree_def)
  next
    case 2
    from 2(3) have T: "T \<in> set (Cache F ?i)" "inorder T = inorder TNew" by (auto simp: find_Some_iff)
    then have "well_formed T" "canonical_tree hash F T"
      using assms(1) by (auto simp: cache_ok_def canonical_tree_def)
    then show ?thesis using 2 T assms(1) by (auto simp: getCanonicalTree_def search_chain_find Let_def)
  next
    case 3
    let ?F = "F\<lparr>Cache := (Cache F)(?i := TNew # Cache F ?i)\<rparr>"
    have "inorder TNew \<notin> set (map inorder (Cache F ?i))"
      using 3(3) by (auto simp: find_None_iff)
    then have "cache_ok hash ?F" using 3(1) assms(1,2) by (auto simp: cache_ok_def)
    moreover have "canonical_tree hash F S \<longrightarrow> canonical_tree hash ?F S" for S by (auto simp: canonical_tree_def)
    moreover have "canonical_tree hash ?F TNew" by (simp add: canonical_tree_def)
    ultimately show ?thesis
      using 3 assms(2) by (auto simp: getCanonicalTree_def search_chain_find Let_def)
  qed
qed

text \<open>Of two trees in the cache with the same contents there is only one.\<close>

lemma canonical_unique:
  assumes "cache_ok hash F" "canonical_tree hash F S" "canonical_tree hash F T" "inorder S = inorder T"
  shows "S = T"
proof (cases "S = Null")
  case True
  then show ?thesis using assms(4) by (metis inorder_empty_iff)
next
  case False
  let ?i = "maskCacheIndex (computeDigest hash S)"
  have "T \<noteq> Null" using False assms(4) by (metis inorder_empty_iff)
  then have "S \<in> set (Cache F ?i)" "T \<in> set (Cache F ?i)"
    using False assms(2-4) by (auto simp: canonical_tree_def computeDigest_inorder)
  moreover have "inj_on inorder (set (Cache F ?i))"
    using assms(1) by (simp add: cache_ok_def distinct_map)
  ultimately show ?thesis using assms(4) by (simp add: inj_on_def)
qed

lemma set_add_spec:
  assumes "cache_ok hash F" "well_formed T" "nodes T < 2 ^ 64" "\<And>T. canon T \<Longrightarrow> canonical_tree hash F T"
  shows "\<exists>T' F'. set_add hash I canon F T V = Inr (T', F') \<and> well_formed T' \<and> cache_ok hash F' \<and>
    set (inorder T') = {v \<in> set (inorder T). key v \<noteq> key V} \<union> {V} \<and> (Canonicalize F \<longrightarrow> canonical_tree hash F' T')"
proof (cases "Canonicalize F")
  case True
  then show ?thesis
    using getCanonicalTree_spec [where canon = canon, OF assms(1) well_formed_add(1) [OF assms(2,3), of V] assms(4)]
      well_formed_add(2) [OF assms(2,3), of V]
    by (auto simp: set_add_def factory_add_def)
next
  case False
  then show ?thesis
    using well_formed_add [OF assms(2,3), of V] assms(1) by (simp add: set_add_def factory_add_def)
qed

lemma set_remove_spec:
  assumes "cache_ok hash F" "well_formed T" "nodes T < 2 ^ 64" "\<And>T. canon T \<Longrightarrow> canonical_tree hash F T"
  shows "\<exists>T' F'. set_remove hash I canon F T K = Inr (T', F') \<and> well_formed T' \<and> cache_ok hash F' \<and>
    set (inorder T') = {v \<in> set (inorder T). key v \<noteq> K} \<and> (Canonicalize F \<longrightarrow> canonical_tree hash F' T')"
proof (cases "Canonicalize F")
  case True
  then show ?thesis
    using getCanonicalTree_spec [where canon = canon, OF assms(1) well_formed_remove(1) [OF assms(2,3), of K] assms(4)]
      well_formed_remove(2) [OF assms(2,3), of K]
    by (auto simp: set_remove_def factory_remove_def)
next
  case False
  then show ?thesis
    using well_formed_remove [OF assms(2,3), of K] assms(1) by (simp add: set_remove_def factory_remove_def)
qed

lemma tree_isEqual_inorder:
  assumes "\<And>S T. same S T \<Longrightarrow> S = T"
  shows "tree_isEqual same I S T = Inr (inorder S = inorder T)"
proof (cases "same T S")
  case True
  then show ?thesis using assms [of T S] by (simp add: tree_isEqual_def)
next
  case False
  obtain L where L: "begin_iter S = Inr L" "settled L" "rest L = inorder S"
    using begin_iter_settled [of S] by blast
  obtain R where R: "begin_iter T = Inr R" "settled R" "rest R = inorder T"
    using begin_iter_settled [of T] by blast
  have "elements_equal I v v" for v by (simp add: elements_equal_iff)
  with equal_loop_settled [of same, OF assms, of I, OF _ _ L(2) R(2)] False L R show ?thesis
    by (simp add: tree_isEqual_def)
qed

lemma contains_element:
  assumes "well_formed T"
  shows "contains I K T \<longleftrightarrow> K \<in> key ` set (inorder T)"
  using find_element [of T K] assms by (auto simp: contains_def well_formed_def split: imut_tree.splits)

end

interpretation container: comparable_info ImutContainerInfo
  by unfold_locales (auto simp: elements_equal_def ImutContainerInfo_def)

interpretation key_value: comparable_info ImutKeyValueInfo
  by unfold_locales (auto simp: elements_equal_def ImutKeyValueInfo_def ImutContainerInfo_def prod_eq_iff)

section \<open>Runs\<close>

text \<open>The elements a loop from \<open>begin()\<close> to \<open>end()\<close> visits.\<close>

function visit_all :: "'v gen_iter \<Rightarrow> stop + 'v list" where
  "visit_all J =
     (if J = end_iter then Inr []
      else case increment J of
          Inl e \<Rightarrow> Inl e
        | Inr J' \<Rightarrow> (case visit_all J' of Inl e \<Rightarrow> Inl e | Inr vs \<Rightarrow> Inr (getValue (deref J) # vs)))"
  by pat_completeness auto
termination
  by (relation "measure ahead") (auto dest: ahead_next)

declare visit_all.simps [simp del]

lemma visit_all_rest: "settled J \<Longrightarrow> visit_all J = Inr (rest J)"
proof (induction "ahead J" arbitrary: J rule: less_induct)
  case less
  show ?case
  proof (cases "J = []")
    case True
    then show ?thesis by (subst visit_all.simps) (simp add: end_iter_def)
  next
    case False
    obtain J' where J': "increment J = Inr J'" "settled J'" "rest J' = tl (rest J)"
      using increment_settled [OF less.prems False] by blast
    then have "visit_all J' = Inr (tl (rest J))" using less.hyps [OF ahead_next [OF J'(1)] J'(2)] by simp
    then show ?thesis
      using False J'(1) rest_parts [OF less.prems False]
      by (subst visit_all.simps) (simp add: end_iter_def)
  qed
qed

datatype 'v tree_op = Add 'v | Remove 'v

text \<open>A sequence of operations on a set without canonicalisation, and what it should do.\<close>

fun run_ops :: "('v, 'k, 'd) imut_info \<Rightarrow> 'v tree_op list \<Rightarrow> 'v imut_tree \<Rightarrow> 'v imut_tree" where
  "run_ops I [] T = T"
| "run_ops I (Add V # ops) T = run_ops I ops (factory_add I T V)"
| "run_ops I (Remove V # ops) T = run_ops I ops (factory_remove I T (KeyOfValue I V))"

fun set_of_ops :: "'v tree_op list \<Rightarrow> 'v set \<Rightarrow> 'v set" where
  "set_of_ops [] A = A"
| "set_of_ops (Add V # ops) A = set_of_ops ops (insert V A)"
| "set_of_ops (Remove V # ops) A = set_of_ops ops (A - {V})"

context ordered_info
begin

lemma nodes_add:
  assumes "well_formed T"
  shows "nodes (add_internal I V T) \<le> nodes T + 1"
proof -
  have "length (before K vs) + length (after K vs) \<le> length vs" for K vs
    by (induction vs) (auto simp: before_def after_def dest: isLess_asym)
  then show ?thesis
    using inorder_add [of T V] assms unfolding well_formed_def length_inorder [symmetric]
    by (metis add_Suc_right length_Cons length_append Suc_eq_plus1 Suc_le_mono)
qed

lemma nodes_remove:
  assumes "well_formed T"
  shows "nodes (remove_internal I K T) \<le> nodes T"
proof -
  have "length (before K vs) + length (after K vs) \<le> length vs" for K vs
    by (induction vs) (auto simp: before_def after_def dest: isLess_asym)
  then show ?thesis
    using inorder_remove [of T K] assms unfolding well_formed_def length_inorder [symmetric]
    by (metis length_append)
qed

end

lemma run_ops_spec:
  fixes ops :: "'a::linorder tree_op list"
  shows "container.well_formed T \<Longrightarrow> nodes T + length ops < 2 ^ 64 \<Longrightarrow>
    container.well_formed (run_ops ImutContainerInfo ops T) \<and>
    set (inorder (run_ops ImutContainerInfo ops T)) = set_of_ops ops (set (inorder T)) \<and>
    nodes (run_ops ImutContainerInfo ops T) \<le> nodes T + length ops"
proof (induction ops arbitrary: T)
  case (Cons a ops)
  have lt: "nodes T < 2 ^ 64" using Cons.prems(2) by simp
  have key: "KeyOfValue ImutContainerInfo v = v" for v :: 'a by (simp add: ImutContainerInfo_def)
  show ?case
  proof (cases a)
    case (Add V)
    have w: "container.well_formed (factory_add ImutContainerInfo T V)"
        "set (inorder (factory_add ImutContainerInfo T V)) = insert V (set (inorder T))"
      using container.well_formed_add [OF Cons.prems(1) lt, of V] by (auto simp: factory_add_def key)
    have n: "nodes (factory_add ImutContainerInfo T V) \<le> nodes T + 1"
      using container.nodes_add [OF Cons.prems(1)] by (simp add: factory_add_def)
    with Cons.IH [OF w(1)] Cons.prems(2) w(2) show ?thesis by (simp add: Add)
  next
    case (Remove V)
    have w: "container.well_formed (factory_remove ImutContainerInfo T V)"
        "set (inorder (factory_remove ImutContainerInfo T V)) = set (inorder T) - {V}"
      using container.well_formed_remove [OF Cons.prems(1) lt, of V] by (auto simp: factory_remove_def key)
    have n: "nodes (factory_remove ImutContainerInfo T V) \<le> nodes T"
      using container.nodes_remove [OF Cons.prems(1)] by (simp add: factory_remove_def)
    with Cons.IH [OF w(1)] Cons.prems(2) w(2) show ?thesis by (simp add: Remove key)
  qed
qed simp

section \<open>The map as a function\<close>

lemma lookup_iff:
  assumes "key_value.well_formed m"
  shows "lookup ImutKeyValueInfo m K = Some D \<longleftrightarrow> (K, D) \<in> set (inorder m)"
proof -
  have fst: "KeyOfValue ImutKeyValueInfo p = fst p" for p :: "'a \<times> 'b" by (simp add: ImutKeyValueInfo_def)
  have asc: "key_value.ascending (inorder m)" using assms by (simp add: key_value.well_formed_def)
  have inj: "inj_on fst (set (inorder m))"
    using key_value.ascending_inj [OF asc] by (simp add: fst inj_on_def)
  show ?thesis
    using key_value.find_element [OF asc, of K] inj
    by (auto simp: lookup_def Let_def fst inj_on_def image_iff split: imut_tree.splits) fastforce+
qed

lemma lookup_eq:
  assumes "key_value.well_formed m" and "\<And>K D. (K, D) \<in> set (inorder m) \<longleftrightarrow> f K = Some D"
  shows "lookup ImutKeyValueInfo m = f"
proof
  fix K
  show "lookup ImutKeyValueInfo m K = f K"
    using lookup_iff [OF assms(1), of K] assms(2) [of K]
    by (cases "f K"; cases "lookup ImutKeyValueInfo m K") auto
qed

lemma map_ops_set_ops:
  "map_add hash I canon F m K D = set_add hash I canon F m (K, D)"
  "map_remove hash I canon F m K = set_remove hash I canon F m K"
  by (simp_all add: map_add_def set_add_def map_remove_def set_remove_def)

end
