(* ===== verification/LL_ImutProps.thy ===== *)
theory LL_ImutProps imports LL_ImutSet begin

text \<open>
  What clients of \<open>ADT/ImmutableSet.h\<close> and \<open>ADT/ImmutableMap.h\<close> rely on.
\<close>

text \<open>
  C33. Every sequence of insertions and removals.  Started with the empty set, any sequence
  shorter than 2^64 gives an ordered tree in which the heights of siblings differ by two at most
  and every node holds its height (the 28 bits of the field are enough: the height stays below
  195), whose elements are those the operations leave.
\<close>

theorem ImmutableSet_well_formed:
  fixes ops :: "'a::linorder tree_op list"
  assumes "length ops < 2 ^ 64"
  shows "sorted_wrt (<) (inorder (run_ops ImutContainerInfo ops Null)) \<and>
    balanced (run_ops ImutContainerInfo ops Null) \<and> height (run_ops ImutContainerInfo ops Null) < 195 \<and>
    set (inorder (run_ops ImutContainerInfo ops Null)) = set_of_ops ops {}"
proof -
  let ?T = "run_ops ImutContainerInfo ops Null"
  have r: "container.well_formed ?T" "set (inorder ?T) = set_of_ops ops {}" "nodes ?T \<le> length ops"
    using run_ops_spec [of Null ops] assms by simp_all
  have "sorted_wrt (<) (inorder ?T)"
    using r(1) by (simp add: container.well_formed_def container.ascending_def)
  moreover have "balanced ?T" using r(1) by (simp add: container.well_formed_def)
  moreover from this have "height ?T < 195" using r(3) assms by (intro height_bound) simp_all
  ultimately show ?thesis using r(2) by blast
qed

theorem ImmutableSet_well_formed_witness:
  "inorder (run_ops ImutContainerInfo [Add (3::nat), Add 1, Add 2, Remove 1, Add 3] Null) = [2, 3] \<and>
    balanced (run_ops ImutContainerInfo [Add (3::nat), Add 1, Add 2, Remove 1, Add 3] Null)"
proof
  show "inorder (run_ops ImutContainerInfo [Add (3::nat), Add 1, Add 2, Remove 1, Add 3] Null) = [2, 3]"
    by (simp add: factory_add_def factory_remove_def balanceTree_def createNode_def getHeight_def
        incrementHeight_def combineTrees_def isEmpty_def take_bit_nat_eq_self)
  show "balanced (run_ops ImutContainerInfo [Add (3::nat), Add 1, Add 2, Remove 1, Add 3] Null)"
    using ImmutableSet_well_formed [of "[Add (3::nat), Add 1, Add 2, Remove 1, Add 3]"] by simp
qed

text \<open>
  C34. An \<open>ImmutableMap\<close> is a finite function.  \<open>add\<close> and \<open>remove\<close> return, with or
  without canonicalisation, keep the tree and the cache well formed, and change the function
  \<open>lookup\<close> gives at the key and nowhere else; \<open>contains\<close> is its domain.
\<close>

theorem ImmutableMap_refines_function:
  fixes m :: "('k::linorder \<times> 'd::linorder) imut_tree"
  assumes "key_value.well_formed m" and "nodes m < 2 ^ 64" and "key_value.cache_ok hash F"
    and "\<And>T. canon T \<Longrightarrow> key_value.canonical_tree hash F T"
  shows "(\<exists>m' F'. map_add hash ImutKeyValueInfo canon F m K D = Inr (m', F') \<and>
      key_value.well_formed m' \<and> key_value.cache_ok hash F' \<and>
      lookup ImutKeyValueInfo m' = (lookup ImutKeyValueInfo m)(K \<mapsto> D)) \<and>
    (\<exists>m' F'. map_remove hash ImutKeyValueInfo canon F m K = Inr (m', F') \<and>
      key_value.well_formed m' \<and> key_value.cache_ok hash F' \<and>
      lookup ImutKeyValueInfo m' = (lookup ImutKeyValueInfo m)(K := None)) \<and>
    (map_contains ImutKeyValueInfo m K \<longleftrightarrow> K \<in> dom (lookup ImutKeyValueInfo m))"
proof (intro conjI)
  note l = lookup_iff [OF assms(1)]
  obtain a F1 where a: "set_add hash ImutKeyValueInfo canon F m (K, D) = Inr (a, F1)" "key_value.well_formed a"
      "key_value.cache_ok hash F1" "set (inorder a) = {v \<in> set (inorder m). fst v \<noteq> K} \<union> {(K, D)}"
    using key_value.set_add_spec [where canon = canon, OF assms(3,1,2,4), of "(K, D)"] by auto
  have "lookup ImutKeyValueInfo a = (lookup ImutKeyValueInfo m)(K \<mapsto> D)"
    using a(4) l by (intro lookup_eq [OF a(2)]) auto
  with a show "\<exists>m' F'. map_add hash ImutKeyValueInfo canon F m K D = Inr (m', F') \<and>
      key_value.well_formed m' \<and> key_value.cache_ok hash F' \<and>
      lookup ImutKeyValueInfo m' = (lookup ImutKeyValueInfo m)(K \<mapsto> D)"
    by (auto simp: map_ops_set_ops)
  obtain r F2 where r: "set_remove hash ImutKeyValueInfo canon F m K = Inr (r, F2)" "key_value.well_formed r"
      "key_value.cache_ok hash F2" "set (inorder r) = {v \<in> set (inorder m). fst v \<noteq> K}"
    using key_value.set_remove_spec [where canon = canon, OF assms(3,1,2,4), of K] by auto
  have "lookup ImutKeyValueInfo r = (lookup ImutKeyValueInfo m)(K := None)"
    using r(4) l by (intro lookup_eq [OF r(2)]) auto
  with r show "\<exists>m' F'. map_remove hash ImutKeyValueInfo canon F m K = Inr (m', F') \<and>
      key_value.well_formed m' \<and> key_value.cache_ok hash F' \<and>
      lookup ImutKeyValueInfo m' = (lookup ImutKeyValueInfo m)(K := None)"
    by (auto simp: map_ops_set_ops)
  have "map_contains ImutKeyValueInfo m K \<longleftrightarrow> (\<exists>D. (K, D) \<in> set (inorder m))"
    using key_value.contains_element [OF assms(1), of K]
    by (cases "m = Null") (force simp: map_contains_def image_iff)+
  then show "map_contains ImutKeyValueInfo m K \<longleftrightarrow> K \<in> dom (lookup ImutKeyValueInfo m)"
    using l by (auto simp: dom_def)
qed

definition sample_factory :: "bool \<Rightarrow> 'v imut_factory" where
  "sample_factory b = \<lparr>Cache = (\<lambda>_. []), Canonicalize = b\<rparr>"

theorem ImmutableMap_refines_function_witness:
  "\<exists>m' F'. map_add (\<lambda>_. 7) ImutKeyValueInfo (\<lambda>_. False) (sample_factory True)
      (Node Null (5::nat, 1::nat) 1 Null) 4 2 = Inr (m', F') \<and>
    lookup ImutKeyValueInfo m' 5 = Some 1 \<and> lookup ImutKeyValueInfo m' 4 = Some 2"
proof -
  let ?m = "Node Null (5::nat, 1::nat) 1 Null"
  have w: "key_value.well_formed ?m" by (simp add: key_value.well_formed_def key_value.ascending_def)
  have c: "key_value.cache_ok (\<lambda>_. 7) (sample_factory True :: (nat \<times> nat) imut_factory)"
    by (simp add: key_value.cache_ok_def sample_factory_def)
  have "lookup ImutKeyValueInfo ?m 5 = Some 1" using lookup_iff [OF w, of 5 1] by simp
  then show ?thesis
    using ImmutableMap_refines_function [OF w _ c, of "\<lambda>_. False" 4 2] by auto
qed

text \<open>
  C35. Iteration and comparison.  A loop from \<open>begin()\<close> to \<open>end()\<close> visits the elements in
  order and ends; \<open>--\<close> at an element but the first moves to the one before it; \<open>==\<close> of any two
  trees, of one shape or not and of one factory or not, returns, and holds exactly when they have
  the same elements in the same order, whichever pairs of nodes its shortcut for shared nodes
  recognises; of two trees of one cache it holds only when they are one tree.
\<close>

theorem ImmutableSet_iterates_and_compares:
  fixes S T A B :: "'a::linorder imut_tree"
  assumes "\<And>S T. same S T \<Longrightarrow> S = T"
    and "settled J" "J \<noteq> []" "past J \<noteq> []"
    and "container.cache_ok hash F" "container.canonical_tree hash F A" "container.canonical_tree hash F B"
  shows "then_do (begin_iter S) visit_all = Inr (inorder S) \<and>
    (\<exists>J'. decrement J = Inr J' \<and> settled J' \<and> getValue (deref J') = last (past J) \<and>
      rest J' = last (past J) # rest J) \<and>
    set_equal same ImutContainerInfo S T = Inr (inorder S = inorder T) \<and>
    set_equal same ImutContainerInfo A B = Inr (A = B)"
proof (intro conjI)
  obtain I where "begin_iter S = Inr I" "settled I" "rest I = inorder S" using begin_iter_settled by blast
  then show "then_do (begin_iter S) visit_all = Inr (inorder S)" by (simp add: visit_all_rest)
  obtain J' where J': "decrement J = Inr J'" "settled J'" "J' \<noteq> []" "rest J' = last (past J) # rest J"
    using decrement_settled [OF assms(2-4)] by blast
  then have "getValue (deref J') = last (past J)" using settled_rest [OF J'(2,3)] by auto
  with J' show "\<exists>J'. decrement J = Inr J' \<and> settled J' \<and> getValue (deref J') = last (past J) \<and>
      rest J' = last (past J) # rest J" by blast
  have eq: "set_equal same ImutContainerInfo S T = Inr (inorder S = inorder T)" for S T :: "'a imut_tree"
  proof -
    have "inorder S = inorder T \<longleftrightarrow> S = Null \<and> T = Null" if "S = Null \<or> T = Null"
      using that by (metis inorder_empty_iff)
    then show ?thesis
      using container.tree_isEqual_inorder [where same = same, OF assms(1)] by (auto simp: set_equal_def)
  qed
  then show "set_equal same ImutContainerInfo S T = Inr (inorder S = inorder T)" .
  have "inorder A = inorder B \<longleftrightarrow> A = B" using container.canonical_unique [OF assms(5-7)] by blast
  then show "set_equal same ImutContainerInfo A B = Inr (A = B)" using eq by simp
qed

text \<open>Two trees of different shapes.\<close>

theorem ImmutableSet_iterates_and_compares_witness:
  "then_do (begin_iter (Node (Node Null (1::nat) 1 Null) 2 2 Null)) visit_all = Inr [1, 2] \<and>
   (\<exists>J'. decrement [(Node (Node Null (1::nat) 1 Null) 2 2 Null, VisitedLeft)] = Inr J' \<and> getValue (deref J') = 1) \<and>
   set_equal (=) ImutContainerInfo (Node (Node Null (1::nat) 1 Null) 2 2 Null) (Node Null 1 2 (Node Null 2 1 Null)) = Inr True"
proof -
  let ?S = "Node (Node Null (1::nat) 1 Null) 2 2 Null" and ?T = "Node Null (1::nat) 2 (Node Null 2 1 Null)"
  let ?F = "\<lparr>Cache = (\<lambda>i. if i = 1 then [?S] else []), Canonicalize = True\<rparr>"
  have c: "container.cache_ok (\<lambda>v. if v = 1 then 0 else 1) ?F"
    by (simp add: container.cache_ok_def container.well_formed_def container.ascending_def
        maskCacheIndex_def)
  have s: "container.canonical_tree (\<lambda>v. if v = 1 then 0 else 1) ?F ?S"
    by (simp add: container.canonical_tree_def maskCacheIndex_def)
  have "settled [(?S, VisitedLeft)]" "past [(?S, VisitedLeft)] = [1]" by (simp_all add: settled_def)
  then show ?thesis
    using ImmutableSet_iterates_and_compares [OF _ _ _ _ c s s, of "(=)" "[(?S, VisitedLeft)]" ?S ?T] by auto
qed

end
