(* ===== verification/LL_DenseMap.thy ===== *)
theory LL_DenseMap imports LL_Math begin

text \<open>
  \<open>ADT/DenseMap.h\<close>: a hash table with open addressing and quadratic probing.  A bucket is a key
  with the value constructed beside it, if one is; a pointer to a bucket is its index, \<open>nullptr\<close>
  is \<open>None\<close>.  A fresh array holds arbitrary keys, which every caller overwrites before it reads
  them; the model puts the empty key there.  A result is \<open>None\<close> where a probe runs for ever; a
  failed assertion is \<open>Abort\<close>.  Epochs, which detect the use of stale iterators in a debug build,
  and reverse iteration, a build for testing, are left out.
\<close>

section \<open>Keys\<close>

record 'k dense_info =
  getEmptyKey :: 'k
  getTombstoneKey :: 'k
  getHashValue :: "'k \<Rightarrow> u32"
  isEqualKey :: "'k \<Rightarrow> 'k \<Rightarrow> bool"

text \<open>\<open>ADT/DenseMapInfo.h\<close>: pointers with \<open>n\<close> low bits available, and the unsigned types.\<close>

definition DenseMapInfo_pointer :: "nat \<Rightarrow> u64 dense_info" where
  "DenseMapInfo_pointer n = \<lparr>getEmptyKey = push_bit n (- 1), getTombstoneKey = push_bit n (- 2),
     getHashValue = (\<lambda>PtrVal. drop_bit 4 (ucast PtrVal :: u32) XOR drop_bit 9 (ucast PtrVal)), isEqualKey = (=)\<rparr>"

definition DenseMapInfo_unsigned :: "u32 dense_info" where
  "DenseMapInfo_unsigned = \<lparr>getEmptyKey = NOT 0, getTombstoneKey = NOT 0 - 1,
     getHashValue = (\<lambda>Val. Val * 37), isEqualKey = (=)\<rparr>"

definition DenseMapInfo_unsigned_long :: "u64 dense_info" where
  "DenseMapInfo_unsigned_long = \<lparr>getEmptyKey = NOT 0, getTombstoneKey = NOT 0 - 1,
     getHashValue = (\<lambda>Val. ucast (Val * 37)), isEqualKey = (=)\<rparr>"

definition DenseMapInfo_unsigned_long_long :: "u64 dense_info" where
  "DenseMapInfo_unsigned_long_long = \<lparr>getEmptyKey = NOT 0, getTombstoneKey = NOT 0 - 1,
     getHashValue = (\<lambda>Val. ucast (Val * 37)), isEqualKey = (=)\<rparr>"

definition DenseMapInfo_unsigned_short :: "16 word dense_info" where
  "DenseMapInfo_unsigned_short = \<lparr>getEmptyKey = 0xFFFF, getTombstoneKey = 0xFFFF - 1,
     getHashValue = (\<lambda>Val. ucast Val * 37), isEqualKey = (=)\<rparr>"

text \<open>
  The signed types, as words.  A \<open>short\<close> is extended with its sign before it is multiplied, a
  \<open>char\<close> where \<open>char\<close> is signed.
\<close>

definition DenseMapInfo_char :: "bool \<Rightarrow> 8 word dense_info" where
  "DenseMapInfo_char char_signed = \<lparr>getEmptyKey = NOT 0, getTombstoneKey = NOT 0 - 1,
     getHashValue = (\<lambda>Val. (if char_signed then scast Val else ucast Val) * 37), isEqualKey = (=)\<rparr>"

definition DenseMapInfo_short :: "16 word dense_info" where
  "DenseMapInfo_short = \<lparr>getEmptyKey = 0x7FFF, getTombstoneKey = - 0x7FFF - 1,
     getHashValue = (\<lambda>Val. scast Val * 37), isEqualKey = (=)\<rparr>"

definition DenseMapInfo_int :: "u32 dense_info" where
  "DenseMapInfo_int = \<lparr>getEmptyKey = 0x7fffffff, getTombstoneKey = - 0x7fffffff - 1,
     getHashValue = (\<lambda>Val. Val * 37), isEqualKey = (=)\<rparr>"

definition DenseMapInfo_long :: "u64 dense_info" where
  "DenseMapInfo_long = \<lparr>getEmptyKey = push_bit (8 * 8 - 1) 1 - 1, getTombstoneKey = push_bit (8 * 8 - 1) 1 - 1 - 1,
     getHashValue = (\<lambda>Val. ucast (Val * 37)), isEqualKey = (=)\<rparr>"

definition DenseMapInfo_long_long :: "u64 dense_info" where
  "DenseMapInfo_long_long = \<lparr>getEmptyKey = 0x7fffffffffffffff, getTombstoneKey = - 0x7fffffffffffffff - 1,
     getHashValue = (\<lambda>Val. ucast (Val * 37)), isEqualKey = (=)\<rparr>"

text \<open>Pairs: the two hashes are mixed in 64 bits.\<close>

definition hash_pair :: "u32 \<Rightarrow> u32 \<Rightarrow> u32" where
  "hash_pair a b =
     (let key = push_bit 32 (ucast a :: u64) OR ucast b;
          key = key + NOT (push_bit 32 key);
          key = key XOR drop_bit 22 key;
          key = key + NOT (push_bit 13 key);
          key = key XOR drop_bit 8 key;
          key = key + push_bit 3 key;
          key = key XOR drop_bit 15 key;
          key = key + NOT (push_bit 27 key);
          key = key XOR drop_bit 31 key
      in ucast key)"

definition DenseMapInfo_pair :: "'a dense_info \<Rightarrow> 'b dense_info \<Rightarrow> ('a \<times> 'b) dense_info" where
  "DenseMapInfo_pair FirstInfo SecondInfo =
     \<lparr>getEmptyKey = (getEmptyKey FirstInfo, getEmptyKey SecondInfo),
      getTombstoneKey = (getTombstoneKey FirstInfo, getTombstoneKey SecondInfo),
      getHashValue = (\<lambda>PairVal. hash_pair (getHashValue FirstInfo (fst PairVal)) (getHashValue SecondInfo (snd PairVal))),
      isEqualKey = (\<lambda>LHS RHS. isEqualKey FirstInfo (fst LHS) (fst RHS) \<and> isEqualKey SecondInfo (snd LHS) (snd RHS))\<rparr>"

section \<open>The table\<close>

type_synonym ('k, 'v) bucket = "'k \<times> 'v option"

record ('k, 'v) dense_map =
  Buckets :: "('k, 'v) bucket list"
  NumEntries :: u32
  NumTombstones :: u32
  NumBuckets :: u32

text \<open>
  \<open>DenseMapBase\<close> is a template over the class derived from it; its operations work on every
  extension of the record, and those that call \<open>grow\<close> or \<open>shrink_and_clear\<close> of the derived class
  take it as an argument.
\<close>

type_synonym ('k, 'v, 'z) dense_base = "('k, 'v, 'z) dense_map_scheme"

type_synonym ('k, 'v, 'z) growth =
  "u32 \<Rightarrow> ('k, 'v, 'z) dense_base \<Rightarrow> (stop + ('k, 'v, 'z) dense_base) option"

definition is_empty_key :: "'k dense_info \<Rightarrow> 'k \<Rightarrow> bool" where
  "is_empty_key KI k \<longleftrightarrow> isEqualKey KI k (getEmptyKey KI)"

definition is_tombstone :: "'k dense_info \<Rightarrow> 'k \<Rightarrow> bool" where
  "is_tombstone KI k \<longleftrightarrow> isEqualKey KI k (getTombstoneKey KI)"

abbreviation special :: "'k dense_info \<Rightarrow> 'k \<Rightarrow> bool" where
  "special KI k \<equiv> is_empty_key KI k \<or> is_tombstone KI k"

definition allocateBuckets ::
  "'k dense_info \<Rightarrow> u32 \<Rightarrow> ('k, 'v) dense_map \<Rightarrow> bool \<times> ('k, 'v) dense_map" where
  "allocateBuckets KI Num D =
     (let D = D\<lparr>NumBuckets := Num\<rparr> in
      if NumBuckets D = 0 then (False, D\<lparr>Buckets := []\<rparr>)
      else (True, D\<lparr>Buckets := replicate (unat Num) (getEmptyKey KI, None)\<rparr>))"

definition initEmpty :: "'k dense_info \<Rightarrow> ('k, 'v, 'z) dense_base \<Rightarrow> stop + ('k, 'v, 'z) dense_base" where
  "initEmpty KI D =
     (let D = D\<lparr>NumEntries := 0, NumTombstones := 0\<rparr> in
      if NumBuckets D AND (NumBuckets D - 1) \<noteq> 0 then Inl Abort
      else Inr (D\<lparr>Buckets := map (\<lambda>B. (getEmptyKey KI, snd B)) (Buckets D)\<rparr>))"

definition getMinBucketToReserveForEntries :: "u32 \<Rightarrow> u32" where
  "getMinBucketToReserveForEntries n =
     (if n = 0 then 0 else ucast (NextPowerOf2 (ucast (n * 4 div 3 + 1))))"

definition init_map ::
  "'k dense_info \<Rightarrow> u32 \<Rightarrow> ('k, 'v) dense_map \<Rightarrow> stop + ('k, 'v) dense_map" where
  "init_map KI InitNumEntries D =
     (let InitBuckets = getMinBucketToReserveForEntries InitNumEntries;
          (b, D) = allocateBuckets KI InitBuckets D in
      if b then initEmpty KI D else Inr (D\<lparr>NumEntries := 0, NumTombstones := 0\<rparr>))"

text \<open>\<open>DenseMap()\<close> with the argument \<open>InitialReserve\<close>.\<close>

definition DenseMap_new :: "'k dense_info \<Rightarrow> u32 \<Rightarrow> stop + ('k, 'v) dense_map" where
  "DenseMap_new KI InitialReserve =
     init_map KI InitialReserve \<lparr>Buckets = [], NumEntries = 0, NumTombstones = 0, NumBuckets = 0\<rparr>"

section \<open>Probing\<close>

text \<open>
  The loop of \<open>LookupBucketFor\<close>: found or not, and the index of the bucket.
\<close>

partial_function (option) probe_loop ::
  "'k dense_info \<Rightarrow> ('k, 'v, 'z) dense_base \<Rightarrow> 'k \<Rightarrow> u32 \<Rightarrow> u32 \<Rightarrow> nat option \<Rightarrow> (bool \<times> nat) option" where
  "probe_loop KI D Val BucketNo ProbeAmt FoundTombstone =
     (let ThisBucket = unat BucketNo; k = fst (Buckets D ! ThisBucket) in
      if isEqualKey KI Val k then Some (True, ThisBucket)
      else if is_empty_key KI k then
        Some (False, case FoundTombstone of Some t \<Rightarrow> t | None \<Rightarrow> ThisBucket)
      else
        let FoundTombstone = (if is_tombstone KI k \<and> FoundTombstone = None then Some ThisBucket else FoundTombstone);
            BucketNo = BucketNo + ProbeAmt;
            ProbeAmt = ProbeAmt + 1;
            BucketNo = BucketNo AND (NumBuckets D - 1)
        in probe_loop KI D Val BucketNo ProbeAmt FoundTombstone)"

definition LookupBucketFor ::
  "'k dense_info \<Rightarrow> ('k, 'v, 'z) dense_base \<Rightarrow> 'k \<Rightarrow> (stop + bool \<times> nat option) option" where
  "LookupBucketFor KI D Val =
     (if NumBuckets D = 0 then Some (Inr (False, None))
      else if special KI Val then Some (Inl Abort)
      else
        let BucketNo = getHashValue KI Val AND (NumBuckets D - 1); ProbeAmt = 1 in
        map_option (\<lambda>(found, p). Inr (found, Some p)) (probe_loop KI D Val BucketNo ProbeAmt None))"

section \<open>Growing\<close>

text \<open>The old elements move over one by one, each to the bucket a lookup gives.\<close>

fun move_loop ::
  "'k dense_info \<Rightarrow> ('k, 'v) bucket list \<Rightarrow> ('k, 'v, 'z) dense_base \<Rightarrow> (stop + ('k, 'v, 'z) dense_base) option" where
  "move_loop KI [] D = Some (Inr D)"
| "move_loop KI (B # Bs) D =
     (if \<not> special KI (fst B) then
        run_then (LookupBucketFor KI D (fst B)) (\<lambda>(FoundVal, DestBucket).
          if FoundVal then Some (Inl Abort)
          else case DestBucket of
              None \<Rightarrow> Some (Inl Segv)
            | Some p \<Rightarrow>
                move_loop KI Bs (D\<lparr>Buckets := (Buckets D)[p := B], NumEntries := NumEntries D + 1\<rparr>))
      else move_loop KI Bs D)"

definition moveFromOldBuckets ::
  "'k dense_info \<Rightarrow> ('k, 'v) bucket list \<Rightarrow> ('k, 'v, 'z) dense_base \<Rightarrow> (stop + ('k, 'v, 'z) dense_base) option" where
  "moveFromOldBuckets KI OldBuckets D = run_then (Some (initEmpty KI D)) (move_loop KI OldBuckets)"

definition grow ::
  "'k dense_info \<Rightarrow> u32 \<Rightarrow> ('k, 'v) dense_map \<Rightarrow> (stop + ('k, 'v) dense_map) option" where
  "grow KI AtLeast D =
     (let OldBuckets = Buckets D;
          OldNull = (NumBuckets D = 0);
          (b, D) = allocateBuckets KI (max 64 (ucast (NextPowerOf2 (ucast (AtLeast - 1))))) D
      in if OldNull then Some (initEmpty KI D)
         else moveFromOldBuckets KI OldBuckets D)"

definition reserve ::
  "('k, 'v, 'z) growth \<Rightarrow> 'k dense_info \<Rightarrow> u32 \<Rightarrow> ('k, 'v, 'z) dense_base \<Rightarrow>
    (stop + ('k, 'v, 'z) dense_base) option" where
  "reserve gr KI n D =
     (let NB = getMinBucketToReserveForEntries n in
      if NB > NumBuckets D then gr NB D else Some (Inr D))"

section \<open>Insertion and removal\<close>

definition InsertIntoBucketImpl ::
  "('k, 'v, 'z) growth \<Rightarrow> 'k dense_info \<Rightarrow> 'k \<Rightarrow> nat option \<Rightarrow> ('k, 'v, 'z) dense_base \<Rightarrow>
    (stop + ('k, 'v, 'z) dense_base \<times> nat) option" where
  "InsertIntoBucketImpl gr KI Lookup TheBucket D =
     (let NewNumEntries = NumEntries D + 1; NB = NumBuckets D in
      run_then
        (if NewNumEntries * 4 \<ge> NB * 3 then
           run_then (gr (NB * 2) D) (\<lambda>D.
           run_then (LookupBucketFor KI D Lookup) (\<lambda>(_, TheBucket). Some (Inr (D, TheBucket))))
         else if NB - (NewNumEntries + NumTombstones D) \<le> NB div 8 then
           run_then (gr NB D) (\<lambda>D.
           run_then (LookupBucketFor KI D Lookup) (\<lambda>(_, TheBucket). Some (Inr (D, TheBucket))))
         else Some (Inr (D, TheBucket)))
        (\<lambda>(D, TheBucket).
           case TheBucket of
             None \<Rightarrow> Some (Inl Abort)
           | Some p \<Rightarrow>
               (let D = D\<lparr>NumEntries := NumEntries D + 1\<rparr>;
                    D = (if \<not> is_empty_key KI (fst (Buckets D ! p))
                         then D\<lparr>NumTombstones := NumTombstones D - 1\<rparr> else D)
                in Some (Inr (D, p)))))"

definition InsertIntoBucket ::
  "('k, 'v, 'z) growth \<Rightarrow> 'k dense_info \<Rightarrow> nat option \<Rightarrow> 'k \<Rightarrow> 'v \<Rightarrow> ('k, 'v, 'z) dense_base \<Rightarrow>
    (stop + ('k, 'v, 'z) dense_base \<times> nat) option" where
  "InsertIntoBucket gr KI TheBucket Key Value D =
     run_then (InsertIntoBucketImpl gr KI Key TheBucket D) (\<lambda>(D, p).
     Some (Inr (D\<lparr>Buckets := (Buckets D)[p := (Key, Some Value)]\<rparr>, p)))"

text \<open>Whether something was inserted, and the bucket.\<close>

definition try_emplace ::
  "('k, 'v, 'z) growth \<Rightarrow> 'k dense_info \<Rightarrow> 'k \<Rightarrow> 'v \<Rightarrow> ('k, 'v, 'z) dense_base \<Rightarrow>
    (stop + ('k, 'v, 'z) dense_base \<times> nat option \<times> bool) option" where
  "try_emplace gr KI Key Value D =
     run_then (LookupBucketFor KI D Key) (\<lambda>(found, TheBucket).
     if found then Some (Inr (D, TheBucket, False))
     else run_then (InsertIntoBucket gr KI TheBucket Key Value D) (\<lambda>(D, p). Some (Inr (D, Some p, True))))"

text \<open>Insertion of a range, and the constructor from one.\<close>

fun insert_range ::
  "('k, 'v, 'z) growth \<Rightarrow> 'k dense_info \<Rightarrow> ('k \<times> 'v) list \<Rightarrow> ('k, 'v, 'z) dense_base \<Rightarrow>
    (stop + ('k, 'v, 'z) dense_base) option" where
  "insert_range gr KI [] D = Some (Inr D)"
| "insert_range gr KI ((Key, Value) # I) D =
     run_then (try_emplace gr KI Key Value D) (\<lambda>(D, _, _). insert_range gr KI I D)"

definition DenseMap_range ::
  "'k dense_info \<Rightarrow> ('k \<times> 'v) list \<Rightarrow> (stop + ('k, 'v) dense_map) option" where
  "DenseMap_range KI I = run_then (Some (DenseMap_new KI (of_nat (length I)))) (insert_range (grow KI) KI I)"

definition erase ::
  "'k dense_info \<Rightarrow> 'k \<Rightarrow> ('k, 'v, 'z) dense_base \<Rightarrow> (stop + ('k, 'v, 'z) dense_base \<times> bool) option" where
  "erase KI Val D =
     run_then (LookupBucketFor KI D Val) (\<lambda>(found, TheBucket).
     if \<not> found then Some (Inr (D, False))
     else case TheBucket of
         None \<Rightarrow> Some (Inl Segv)
       | Some p \<Rightarrow>
           Some (Inr (D\<lparr>Buckets := (Buckets D)[p := (getTombstoneKey KI, None)],
             NumEntries := NumEntries D - 1, NumTombstones := NumTombstones D + 1\<rparr>, True)))"

text \<open>\<open>d\<close> is the value \<open>ValueT()\<close>.\<close>

definition FindAndConstruct ::
  "('k, 'v, 'z) growth \<Rightarrow> 'v \<Rightarrow> 'k dense_info \<Rightarrow> 'k \<Rightarrow> ('k, 'v, 'z) dense_base \<Rightarrow>
    (stop + ('k, 'v, 'z) dense_base \<times> nat option) option" where
  "FindAndConstruct gr d KI Key D =
     run_then (LookupBucketFor KI D Key) (\<lambda>(found, TheBucket).
     if found then Some (Inr (D, TheBucket))
     else run_then (InsertIntoBucket gr KI TheBucket Key d D) (\<lambda>(D, p). Some (Inr (D, Some p))))"

definition lookup_value ::
  "'v \<Rightarrow> 'k dense_info \<Rightarrow> 'k \<Rightarrow> ('k, 'v, 'z) dense_base \<Rightarrow> (stop + 'v) option" where
  "lookup_value d KI Val D =
     run_then (LookupBucketFor KI D Val) (\<lambda>(found, TheBucket).
     if found then
       (case TheBucket of
          None \<Rightarrow> Some (Inl Segv)
        | Some p \<Rightarrow> (case snd (Buckets D ! p) of None \<Rightarrow> Some (Inl Undefined) | Some v \<Rightarrow> Some (Inr v)))
     else Some (Inr d))"

definition count_key ::
  "'k dense_info \<Rightarrow> 'k \<Rightarrow> ('k, 'v, 'z) dense_base \<Rightarrow> (stop + u32) option" where
  "count_key KI Val D = run_then (LookupBucketFor KI D Val) (\<lambda>(found, _). Some (Inr (if found then 1 else 0)))"

text \<open>An iterator is the index it points to; \<open>end()\<close> is \<open>NumBuckets\<close>.\<close>

definition find_key ::
  "'k dense_info \<Rightarrow> 'k \<Rightarrow> ('k, 'v, 'z) dense_base \<Rightarrow> (stop + nat) option" where
  "find_key KI Val D =
     run_then (LookupBucketFor KI D Val) (\<lambda>(found, TheBucket).
     case (found, TheBucket) of
       (True, Some p) \<Rightarrow> Some (Inr p)
     | _ \<Rightarrow> Some (Inr (unat (NumBuckets D))))"

section \<open>Clearing\<close>

text \<open>The shift in \<open>shrink_and_clear\<close> is one of an \<open>int\<close>.\<close>

definition destroyAll :: "'k dense_info \<Rightarrow> ('k, 'v, 'z) dense_base \<Rightarrow> ('k, 'v, 'z) dense_base" where
  "destroyAll KI D =
     (if NumBuckets D = 0 then D
      else D\<lparr>Buckets := map (\<lambda>B. if \<not> special KI (fst B) then (fst B, None) else B) (Buckets D)\<rparr>)"

definition shrink_and_clear :: "'k dense_info \<Rightarrow> ('k, 'v) dense_map \<Rightarrow> stop + ('k, 'v) dense_map" where
  "shrink_and_clear KI D =
     (let OldNumEntries = NumEntries D;
          D = destroyAll KI D;
          shift = unat (Log2_32_Ceil OldNumEntries + 1);
          NewNumBuckets = (if OldNumEntries \<noteq> 0 then max 64 (push_bit shift 1) else 0)
      in if OldNumEntries \<noteq> 0 \<and> 31 \<le> shift then Inl Undefined
         else if NewNumBuckets = NumBuckets D then initEmpty KI D
         else init_map KI NewNumBuckets D)"

text \<open>
  \<open>clear\<close> for trivial types only writes the keys; for others it destroys the values and counts
  them.
\<close>

definition clear_map ::
  "(('k, 'v, 'z) dense_base \<Rightarrow> stop + ('k, 'v, 'z) dense_base) \<Rightarrow> bool \<Rightarrow> 'k dense_info \<Rightarrow>
    ('k, 'v, 'z) dense_base \<Rightarrow> stop + ('k, 'v, 'z) dense_base" where
  "clear_map shrink pod KI D =
     (if NumEntries D = 0 \<and> NumTombstones D = 0 then Inr D
      else if NumEntries D * 4 < NumBuckets D \<and> NumBuckets D > 64 then shrink D
      else
        let cleared = D\<lparr>NumEntries := 0, NumTombstones := 0\<rparr> in
        if pod then Inr (cleared\<lparr>Buckets := map (\<lambda>B. (getEmptyKey KI, snd B)) (Buckets D)\<rparr>)
        else if NumEntries D - of_nat (length (filter (\<lambda>B. \<not> special KI (fst B)) (Buckets D))) \<noteq> 0 then Inl Abort
        else Inr (cleared\<lparr>Buckets :=
          map (\<lambda>B. (getEmptyKey KI, if \<not> special KI (fst B) then None else snd B)) (Buckets D)\<rparr>))"

definition swap_maps ::
  "('k, 'v) dense_map \<times> ('k, 'v) dense_map \<Rightarrow> ('k, 'v) dense_map \<times> ('k, 'v) dense_map" where
  "swap_maps = (\<lambda>(this, RHS).
     (this\<lparr>Buckets := Buckets RHS, NumEntries := NumEntries RHS, NumTombstones := NumTombstones RHS, NumBuckets := NumBuckets RHS\<rparr>,
      RHS\<lparr>Buckets := Buckets this, NumEntries := NumEntries this, NumTombstones := NumTombstones this, NumBuckets := NumBuckets this\<rparr>))"

text \<open>
  \<open>copyFrom\<close> of \<open>DenseMapBase\<close> copies the values of the keys that have one; for trivial types it
  copies the array, whose other values nothing reads.  \<open>DenseMap\<close> allocates first.
\<close>

definition moved_bucket :: "'k dense_info \<Rightarrow> ('k, 'v) bucket \<Rightarrow> ('k, 'v) bucket" where
  "moved_bucket KI OldB = (fst OldB, if \<not> special KI (fst OldB) then snd OldB else None)"

definition base_copyFrom ::
  "'k dense_info \<Rightarrow> ('k, 'v, 'z) dense_base \<Rightarrow> ('k, 'v, 'z) dense_base \<Rightarrow> ('k, 'v, 'z) dense_base" where
  "base_copyFrom KI other D =
     D\<lparr>NumEntries := NumEntries other, NumTombstones := NumTombstones other,
       Buckets := map (moved_bucket KI) (Buckets other)\<rparr>"

definition copy_map ::
  "'k dense_info \<Rightarrow> ('k, 'v) dense_map \<Rightarrow> ('k, 'v) dense_map \<Rightarrow> ('k, 'v) dense_map" where
  "copy_map KI other D =
     (let D = destroyAll KI D;
          (b, D) = allocateBuckets KI (NumBuckets other) D in
      if b then base_copyFrom KI other D
      else D\<lparr>NumEntries := 0, NumTombstones := 0\<rparr>)"

section \<open>Iteration\<close>

function AdvancePastEmptyBuckets ::
  "'k dense_info \<Rightarrow> ('k, 'v, 'z) dense_base \<Rightarrow> nat \<Rightarrow> nat" where
  "AdvancePastEmptyBuckets KI D Ptr =
     (if Ptr < length (Buckets D) \<and> special KI (fst (Buckets D ! Ptr))
      then AdvancePastEmptyBuckets KI D (Ptr + 1) else Ptr)"
  by pat_completeness auto
termination
  by (relation "measure (\<lambda>(KI, D, Ptr). length (Buckets D) - Ptr)") auto

declare AdvancePastEmptyBuckets.simps [simp del]

definition map_begin :: "'k dense_info \<Rightarrow> ('k, 'v, 'z) dense_base \<Rightarrow> nat" where
  "map_begin KI D = (if NumEntries D = 0 then length (Buckets D) else AdvancePastEmptyBuckets KI D 0)"

definition map_next :: "'k dense_info \<Rightarrow> ('k, 'v, 'z) dense_base \<Rightarrow> nat \<Rightarrow> nat" where
  "map_next KI D Ptr = AdvancePastEmptyBuckets KI D (Ptr + 1)"

end
