(* ===== verification/LL_DM_Probe.thy ===== *)
theory LL_DM_Probe imports LL_DenseMap LL_Math_Lemmas begin

text \<open>
  Quadratic probing of \<open>ADT/DenseMap.h\<close>: in a table whose size is a power of two the probes visit
  every bucket, so a lookup ends when a bucket is empty, and what it returns.
\<close>

section \<open>Triangular numbers modulo a power of two\<close>

definition triangle :: "nat \<Rightarrow> nat" where
  "triangle i = i * (i + 1) div 2"

lemma triangle_Suc: "triangle (Suc i) = triangle i + Suc i"
proof -
  have "Suc i * (Suc i + 1) = i * (i + 1) + 2 * Suc i" by simp
  then show ?thesis unfolding triangle_def by (metis div_mult_self4 zero_neq_numeral add.commute)
qed

lemma triangle_diff:
  assumes "i \<le> j"
  shows "2 * (triangle j - triangle i) = (j - i) * (i + j + 1)"
proof -
  obtain d where j: "j = i + d" using assms le_Suc_ex by blast
  show ?thesis unfolding j
  proof (induction d)
    case (Suc d)
    have "triangle i \<le> triangle (i + d)" by (induction d) (simp_all add: triangle_Suc)
    then have "2 * (triangle (i + Suc d) - triangle i) = 2 * (triangle (i + d) - triangle i) + 2 * Suc (i + d)"
      by (simp add: triangle_Suc)
    also have "\<dots> = (i + Suc d - i) * (i + (i + Suc d) + 1)"
      unfolding Suc.IH by (simp add: algebra_simps)
    finally show ?case .
  qed simp
qed

lemma triangle_mono: "i \<le> j \<Longrightarrow> triangle i \<le> triangle j"
  unfolding triangle_def by (intro div_le_mono mult_le_mono) simp_all

text \<open>The sum and the difference of two numbers have different parity, so a power of two divides one of them.\<close>

lemma triangle_inj:
  assumes "i < j" "j < 2 ^ k"
  shows "triangle i mod 2 ^ k \<noteq> triangle j mod 2 ^ k"
proof
  assume "triangle i mod 2 ^ k = triangle j mod 2 ^ k"
  then have "2 ^ k dvd triangle j - triangle i"
    using mod_eq_dvd_iff_nat [OF triangle_mono, of i j "2 ^ k"] assms(1) by simp
  then have "2 * 2 ^ k dvd 2 * (triangle j - triangle i)" by (rule mult_dvd_mono [OF dvd_refl])
  then have d: "2 ^ Suc k dvd (j - i) * (i + j + 1)"
    using triangle_diff [of i j] assms(1) by simp
  have "2 ^ Suc k dvd j - i \<or> 2 ^ Suc k dvd i + j + 1"
  proof (cases "even (j - i)")
    case True
    have "i + j + 1 = (j - i) + 2 * i + 1" using assms(1) by simp
    then have "odd (i + j + 1)" using True by (metis dvd_triv_left even_add odd_one)
    then have "coprime (2 ^ Suc k) (i + j + 1)" by simp
    with d show ?thesis using coprime_dvd_mult_left_iff by blast
  next
    case False
    then have "coprime (2 ^ Suc k) (j - i)" by simp
    with d show ?thesis using coprime_dvd_mult_right_iff by blast
  qed
  moreover have "0 < j - i" "j - i < 2 ^ Suc k" "0 < i + j + 1" "i + j + 1 < 2 ^ Suc k"
    using assms by simp_all
  ultimately show False by (meson nat_dvd_not_less)
qed

text \<open>The bucket of the \<open>i\<close>-th probe, and that every bucket is probed.\<close>

definition probe_slot :: "nat \<Rightarrow> nat \<Rightarrow> nat \<Rightarrow> nat" where
  "probe_slot k h i = (h + triangle i) mod 2 ^ k"

lemma probe_slot_less [simp]: "probe_slot k h i < 2 ^ k"
  by (simp add: probe_slot_def)

lemma probe_slot_inj:
  assumes "i < j" "j < 2 ^ k"
  shows "probe_slot k h i \<noteq> probe_slot k h j"
proof
  assume "probe_slot k h i = probe_slot k h j"
  then have "2 ^ k dvd (h + triangle j) - (h + triangle i)"
    using mod_eq_dvd_iff_nat [of "h + triangle i" "h + triangle j" "2 ^ k"] triangle_mono [of i j] assms(1)
    by (simp add: probe_slot_def)
  then have "triangle i mod 2 ^ k = triangle j mod 2 ^ k"
    using mod_eq_dvd_iff_nat [OF triangle_mono, of i j "2 ^ k"] assms(1) by simp
  with triangle_inj [OF assms] show False by simp
qed

lemma probe_slot_surj:
  assumes "p < 2 ^ k"
  shows "\<exists>i < 2 ^ k. probe_slot k h i = p"
proof -
  have "inj_on (probe_slot k h) {..<2 ^ k}"
    using probe_slot_inj by (intro linorder_inj_onI) auto
  then have "card (probe_slot k h ` {..<2 ^ k}) = 2 ^ k" by (simp add: card_image)
  moreover have "probe_slot k h ` {..<2 ^ k} \<subseteq> {..<2 ^ k}" by auto
  ultimately have "probe_slot k h ` {..<2 ^ k} = {..<2 ^ k}" by (intro card_subset_eq) simp_all
  with assms show ?thesis by (metis imageE lessThan_iff)
qed

section \<open>The loop\<close>

lemma unat_and_mask: "unat (w AND (of_nat (2 ^ k) - 1) :: u32) = unat w mod 2 ^ k"
proof -
  have "of_nat (2 ^ k) - 1 = (mask k :: u32)" by (simp add: mask_eq_exp_minus_1)
  then have "unat (w AND (of_nat (2 ^ k) - 1)) = take_bit k (unat w)"
    by (simp only: and_mask_eq_take_bit unsigned_take_bit_eq)
  then show ?thesis by (simp only: take_bit_eq_mod)
qed

text \<open>The state of the loop after \<open>i\<close> rounds.\<close>

lemma next_probe_slot:
  assumes "k < 32" and "unat B = probe_slot k h i" and "unat A = Suc i" "Suc i < 2 ^ 32"
  shows "unat ((B + A) AND (of_nat (2 ^ k) - 1) :: u32) = probe_slot k h (Suc i)"
proof -
  have "(2 :: nat) ^ k dvd 2 ^ 32" using assms(1) by (intro le_imp_power_dvd) simp
  then have "unat ((B + A) AND (of_nat (2 ^ k) - 1)) = (probe_slot k h i + Suc i) mod 2 ^ k"
    using assms unfolding unat_and_mask by (simp add: unat_word_ariths mod_mod_cancel)
  also have "\<dots> = probe_slot k h (Suc i)"
    by (simp add: probe_slot_def triangle_Suc mod_add_left_eq add.assoc del: add_Suc_right)
  finally show ?thesis .
qed

lemma find_snoc: "List.find P (xs @ [x]) = (case List.find P xs of Some y \<Rightarrow> Some y | None \<Rightarrow> if P x then Some x else None)"
  by (induction xs) simp_all

text \<open>The first tombstone among the first \<open>i\<close> probes.\<close>

definition first_tomb :: "'k dense_info \<Rightarrow> ('k, 'v, 'z) dense_base \<Rightarrow> nat \<Rightarrow> nat \<Rightarrow> nat \<Rightarrow> nat option" where
  "first_tomb KI D k h i =
     map_option (probe_slot k h) (List.find (\<lambda>j. is_tombstone KI (fst (Buckets D ! probe_slot k h j))) [0..<i])"

text \<open>
  The first probe that ends the loop: at the key or at an empty bucket.
\<close>

definition stops :: "'k dense_info \<Rightarrow> ('k, 'v, 'z) dense_base \<Rightarrow> 'k \<Rightarrow> nat \<Rightarrow> bool" where
  "stops KI D Val p \<longleftrightarrow> isEqualKey KI Val (fst (Buckets D ! p)) \<or> is_empty_key KI (fst (Buckets D ! p))"

lemma probe_runs:
  assumes NB: "NumBuckets D = of_nat (2 ^ k)" "k < 32"
    and stop: "stops KI D Val (probe_slot k h n)" and before: "\<And>j. j < n \<Longrightarrow> \<not> stops KI D Val (probe_slot k h j)"
    and n: "n < 2 ^ k"
  shows "i \<le> n \<Longrightarrow> unat B = probe_slot k h i \<Longrightarrow> unat A = Suc i \<Longrightarrow>
    probe_loop KI D Val B A (first_tomb KI D k h i) =
    Some (isEqualKey KI Val (fst (Buckets D ! probe_slot k h n)),
      if isEqualKey KI Val (fst (Buckets D ! probe_slot k h n)) then probe_slot k h n
      else case first_tomb KI D k h n of Some t \<Rightarrow> t | None \<Rightarrow> probe_slot k h n)"
proof (induction "n - i" arbitrary: i B A)
  case 0
  then have i: "i = n" by simp
  show ?case
    using stop 0 unfolding i by (subst probe_loop.simps) (auto simp: stops_def)
next
  case (Suc d)
  then have lt: "i < n" by simp
  have "(2 :: nat) ^ k \<le> 2 ^ 31" using NB(2) by (intro power_increasing) simp_all
  then have b: "Suc (Suc i) < 2 ^ 32" using lt n by simp
  have ft: "(if is_tombstone KI (fst (Buckets D ! probe_slot k h i)) \<and> first_tomb KI D k h i = None
      then Some (probe_slot k h i) else first_tomb KI D k h i) = first_tomb KI D k h (Suc i)"
    by (auto simp: first_tomb_def find_snoc split: option.splits)
  have A: "unat (A + 1) = Suc (Suc i)" using b Suc.prems(3) by (subst unat_add_small) simp_all
  have "probe_loop KI D Val B A (first_tomb KI D k h i) =
      probe_loop KI D Val ((B + A) AND (of_nat (2 ^ k) - 1)) (A + 1) (first_tomb KI D k h (Suc i))"
    using before [OF lt] Suc.prems(2) by (subst probe_loop.simps) (simp add: stops_def Let_def ft NB(1))
  also have "\<dots> = Some (isEqualKey KI Val (fst (Buckets D ! probe_slot k h n)),
      if isEqualKey KI Val (fst (Buckets D ! probe_slot k h n)) then probe_slot k h n
      else case first_tomb KI D k h n of Some t \<Rightarrow> t | None \<Rightarrow> probe_slot k h n)"
    using Suc.hyps(2) lt b next_probe_slot [OF NB(2) Suc.prems(2,3)] A
    by (intro Suc.hyps(1)) simp_all
  finally show ?case .
qed

end
