(* ===== verification/LL_DM_Table.thy ===== *)
theory LL_DM_Table imports LL_DM_Probe begin

text \<open>
  The invariant of the tables of \<open>ADT/DenseMap.h\<close>, the finite function a table stands for, and
  what one bucket write does to both.
\<close>

section \<open>Laws of the keys\<close>

text \<open>
  What a table asks of its \<open>DenseMapInfo\<close>: \<open>isEqual\<close> is equality, and the two reserved keys differ.
\<close>

locale dense_laws =
  fixes KI :: "'k dense_info"
  assumes isEqualKey_eq: "isEqualKey KI a b \<longleftrightarrow> a = b"
    and reserved_differ: "getEmptyKey KI \<noteq> getTombstoneKey KI"

interpretation unsigned_keys: dense_laws DenseMapInfo_unsigned
  by unfold_locales (simp_all add: DenseMapInfo_unsigned_def)

interpretation unsigned_long_keys: dense_laws DenseMapInfo_unsigned_long
  by unfold_locales (simp_all add: DenseMapInfo_unsigned_long_def)

interpretation pointer_keys: dense_laws "DenseMapInfo_pointer 3"
  by unfold_locales (simp_all add: DenseMapInfo_pointer_def mask_eq_exp_minus_1)

interpretation unsigned_long_long_keys: dense_laws DenseMapInfo_unsigned_long_long
  by unfold_locales (simp_all add: DenseMapInfo_unsigned_long_long_def)

interpretation unsigned_short_keys: dense_laws DenseMapInfo_unsigned_short
  by unfold_locales (simp_all add: DenseMapInfo_unsigned_short_def)

interpretation char_keys: dense_laws "DenseMapInfo_char char_signed"
  by unfold_locales (simp_all add: DenseMapInfo_char_def)

interpretation short_keys: dense_laws DenseMapInfo_short
  by unfold_locales (simp_all add: DenseMapInfo_short_def)

interpretation int_keys: dense_laws DenseMapInfo_int
  by unfold_locales (simp_all add: DenseMapInfo_int_def)

interpretation long_keys: dense_laws DenseMapInfo_long
  by unfold_locales (simp_all add: DenseMapInfo_long_def)

interpretation long_long_keys: dense_laws DenseMapInfo_long_long
  by unfold_locales (simp_all add: DenseMapInfo_long_long_def)

text \<open>Pairs keep the laws of their members.\<close>

lemma pair_laws:
  assumes "dense_laws A" "dense_laws B"
  shows "dense_laws (DenseMapInfo_pair A B)"
  using assms by (auto simp: dense_laws_def DenseMapInfo_pair_def)

interpretation pair_keys: dense_laws "DenseMapInfo_pair (DenseMapInfo_pointer 3) DenseMapInfo_unsigned"
  by (rule pair_laws [OF pointer_keys.dense_laws_axioms unsigned_keys.dense_laws_axioms])

section \<open>Tables\<close>

definition key_at :: "('k, 'v, 'z) dense_base \<Rightarrow> nat \<Rightarrow> 'k" where
  "key_at D p = fst (Buckets D ! p)"

definition live_buckets :: "'k dense_info \<Rightarrow> ('k, 'v, 'z) dense_base \<Rightarrow> nat set" where
  "live_buckets KI D = {p. p < length (Buckets D) \<and> \<not> special KI (key_at D p)}"

definition tomb_buckets :: "'k dense_info \<Rightarrow> ('k, 'v, 'z) dense_base \<Rightarrow> nat set" where
  "tomb_buckets KI D = {p. p < length (Buckets D) \<and> is_tombstone KI (key_at D p)}"

definition live_pairs :: "'k dense_info \<Rightarrow> ('k, 'v) bucket list \<Rightarrow> ('k \<times> 'v) list" where
  "live_pairs KI bs = map (\<lambda>B. (fst B, the (snd B))) (filter (\<lambda>B. \<not> special KI (fst B)) bs)"

definition contents :: "'k dense_info \<Rightarrow> ('k, 'v, 'z) dense_base \<Rightarrow> 'k \<rightharpoonup> 'v" where
  "contents KI D = map_of (live_pairs KI (Buckets D))"

text \<open>The probes for \<open>x\<close> come to bucket \<open>p\<close> before they come to an empty one.\<close>

definition reached :: "'k dense_info \<Rightarrow> ('k, 'v, 'z) dense_base \<Rightarrow> nat \<Rightarrow> 'k \<Rightarrow> nat \<Rightarrow> bool" where
  "reached KI D k x p \<longleftrightarrow>
     (\<exists>n < 2 ^ k. probe_slot k (unat (getHashValue KI x)) n = p \<and>
        (\<forall>j < n. \<not> is_empty_key KI (key_at D (probe_slot k (unat (getHashValue KI x)) j))))"

definition table :: "'k dense_info \<Rightarrow> nat \<Rightarrow> ('k, 'v, 'z) dense_base \<Rightarrow> bool" where
  "table KI k D \<longleftrightarrow> k < 32 \<and> NumBuckets D = of_nat (2 ^ k) \<and> length (Buckets D) = 2 ^ k \<and>
     (\<forall>p \<in> live_buckets KI D. snd (Buckets D ! p) \<noteq> None \<and> reached KI D k (key_at D p) p) \<and>
     inj_on (key_at D) (live_buckets KI D) \<and>
     NumEntries D = of_nat (card (live_buckets KI D)) \<and>
     NumTombstones D = of_nat (card (tomb_buckets KI D)) \<and>
     card (live_buckets KI D) + card (tomb_buckets KI D) < 2 ^ k"

lemma tableD:
  assumes "table KI k D"
  shows "k < 32" "NumBuckets D = of_nat (2 ^ k)" "length (Buckets D) = 2 ^ k"
    "\<And>p. p \<in> live_buckets KI D \<Longrightarrow> snd (Buckets D ! p) \<noteq> None"
    "\<And>p. p \<in> live_buckets KI D \<Longrightarrow> reached KI D k (key_at D p) p"
    "inj_on (key_at D) (live_buckets KI D)"
    "NumEntries D = of_nat (card (live_buckets KI D))"
    "NumTombstones D = of_nat (card (tomb_buckets KI D))"
    "card (live_buckets KI D) + card (tomb_buckets KI D) < 2 ^ k"
  using assms unfolding table_def by simp_all

lemma finite_buckets [simp]: "finite (live_buckets KI D)" "finite (tomb_buckets KI D)"
  unfolding live_buckets_def tomb_buckets_def by simp_all

lemma live_less: "p \<in> live_buckets KI D \<Longrightarrow> p < length (Buckets D)"
  by (simp add: live_buckets_def)

lemma unat_size: "k < 32 \<Longrightarrow> unat (of_nat (2 ^ k) :: u32) = 2 ^ k"
proof -
  assume "k < 32"
  then have "(2 :: nat) ^ k < 2 ^ 32" by (intro power_strict_increasing) simp_all
  then show ?thesis by (simp only: unat_of_nat) simp
qed

lemma table_size: "table KI k D \<Longrightarrow> unat (NumBuckets D) = 2 ^ k"
  using unat_size tableD(1,2) by metis

section \<open>Contents\<close>

lemma in_live_pairs:
  "(x, v) \<in> set (live_pairs KI (Buckets D)) \<longleftrightarrow>
    (\<exists>p \<in> live_buckets KI D. key_at D p = x \<and> the (snd (Buckets D ! p)) = v)"
  unfolding live_pairs_def live_buckets_def key_at_def
  by (auto simp: in_set_conv_nth image_iff) (metis (lifting) fst_conv nth_mem snd_conv prod.collapse)+

lemma map_of_functional:
  "(\<And>v w. (x, v) \<in> set xs \<Longrightarrow> (x, w) \<in> set xs \<Longrightarrow> v = w) \<Longrightarrow> map_of xs x = Some v \<longleftrightarrow> (x, v) \<in> set xs"
  by (metis map_of_SomeD weak_map_of_SomeI)

lemma contents_Some:
  assumes "inj_on (key_at D) (live_buckets KI D)"
  shows "contents KI D x = Some v \<longleftrightarrow>
    (\<exists>p \<in> live_buckets KI D. key_at D p = x \<and> the (snd (Buckets D ! p)) = v)"
  unfolding contents_def in_live_pairs [symmetric]
  by (intro map_of_functional) (use assms in \<open>auto simp: in_live_pairs inj_on_def\<close>)

lemma contents_dom: "dom (contents KI D) = key_at D ` live_buckets KI D"
  unfolding contents_def dom_map_of_conv_image_fst
  by (auto simp: image_iff in_live_pairs Bex_def split_paired_Ex)

lemma contents_at:
  "table KI k D \<Longrightarrow> p \<in> live_buckets KI D \<Longrightarrow> contents KI D (key_at D p) = snd (Buckets D ! p)"
  using contents_Some [OF tableD(6)] tableD(4) by (metis option.collapse)

lemma contents_card: "table KI k D \<Longrightarrow> card (dom (contents KI D)) = card (live_buckets KI D)"
  by (simp add: contents_dom card_image tableD(6))

lemma contents_finite [simp]: "finite (dom (contents KI D))"
  by (simp add: contents_dom)

section \<open>Lookup\<close>

context dense_laws
begin

lemma special_keys [simp]:
  "is_empty_key KI x \<longleftrightarrow> x = getEmptyKey KI" "is_tombstone KI x \<longleftrightarrow> x = getTombstoneKey KI"
  by (simp_all add: is_empty_key_def is_tombstone_def isEqualKey_eq)

lemma special_not_in: "special KI x \<Longrightarrow> x \<notin> dom (contents KI D)"
  by (auto simp: contents_dom live_buckets_def)

lemma some_empty:
  assumes "table KI k D"
  obtains p where "p < 2 ^ k" "key_at D p = getEmptyKey KI"
proof (rule ccontr)
  assume "\<not> thesis"
  then have "{..<2 ^ k} \<subseteq> live_buckets KI D \<union> tomb_buckets KI D"
    using that tableD(3) [OF assms] by (auto simp: live_buckets_def tomb_buckets_def)
  then have "2 ^ k \<le> card (live_buckets KI D \<union> tomb_buckets KI D)"
    using card_mono [of "live_buckets KI D \<union> tomb_buckets KI D" "{..<2 ^ k}"] by simp
  also have "\<dots> \<le> card (live_buckets KI D) + card (tomb_buckets KI D)" by (rule card_Un_le)
  finally show False using tableD(9) [OF assms] by simp
qed

text \<open>
  A lookup returns, says whether the key is there, and gives its bucket, or one where the key may go.
\<close>

lemma LookupBucketFor_spec:
  assumes t: "table KI k D" and x: "\<not> special KI x"
  obtains p where
    "LookupBucketFor KI D x = Some (Inr (x \<in> dom (contents KI D), Some p))" "p < 2 ^ k" "reached KI D k x p"
    "x \<in> dom (contents KI D) \<Longrightarrow> key_at D p = x" "x \<notin> dom (contents KI D) \<Longrightarrow> p \<notin> live_buckets KI D"
proof -
  let ?h = "unat (getHashValue KI x)"
  let ?stop = "\<lambda>n. stops KI D x (probe_slot k ?h n)"
  note NB = tableD(2,1) [OF t]
  have stop_iff: "stops KI D x p \<longleftrightarrow> key_at D p = x \<or> key_at D p = getEmptyKey KI" for p
    by (auto simp: stops_def isEqualKey_eq key_at_def)
  obtain q where q: "q < 2 ^ k" "key_at D q = getEmptyKey KI" using some_empty [OF t] .
  obtain m where m: "m < 2 ^ k" "probe_slot k ?h m = q" using probe_slot_surj [OF q(1)] by blast
  define n where "n = (LEAST n. ?stop n)"
  have "?stop m" using q m by (simp add: stop_iff)
  then have n: "?stop n" and n_le: "n \<le> m" unfolding n_def by (rule LeastI, rule Least_le)
  have before: "\<not> ?stop j" if "j < n" for j using that unfolding n_def by (rule not_less_Least)
  have n_less: "n < 2 ^ k" using n_le m(1) by simp
  have nz: "NumBuckets D \<noteq> 0" using table_size [OF t] by auto
  define p where "p = (if key_at D (probe_slot k ?h n) = x then probe_slot k ?h n
    else case first_tomb KI D k ?h n of Some t \<Rightarrow> t | None \<Rightarrow> probe_slot k ?h n)"
  have "probe_loop KI D x (getHashValue KI x AND (NumBuckets D - 1)) 1 (first_tomb KI D k ?h 0) =
      Some (key_at D (probe_slot k ?h n) = x, p)"
    using probe_runs [OF NB n before n_less, of 0] unat_and_mask [of "getHashValue KI x" k]
    by (simp add: NB(1) probe_slot_def triangle_def p_def key_at_def isEqualKey_eq eq_commute [of x])
  then have look: "LookupBucketFor KI D x = Some (Inr (key_at D (probe_slot k ?h n) = x, Some p))"
    using nz x by (simp add: LookupBucketFor_def first_tomb_def)
  have found: "x \<in> dom (contents KI D)" if "key_at D (probe_slot k ?h n) = x"
    using that x tableD(3) [OF t] by (auto simp: contents_dom live_buckets_def intro!: rev_image_eqI [of "probe_slot k ?h n"])
  have there: "key_at D (probe_slot k ?h n) = x" if dx: "x \<in> dom (contents KI D)"
  proof -
    obtain l where l: "l \<in> live_buckets KI D" "key_at D l = x" using dx unfolding contents_dom by auto
    obtain i where i: "probe_slot k ?h i = l" "\<And>j. j < i \<Longrightarrow> key_at D (probe_slot k ?h j) \<noteq> getEmptyKey KI"
      using tableD(5) [OF t l(1)] l(2) by (auto simp: reached_def)
    have "n \<le> i" using i(1) l(2) unfolding n_def by (intro Least_le) (simp add: stop_iff)
    then show ?thesis using n i l(2) by (cases "n = i") (auto simp: stop_iff)
  qed
  have ft: "\<exists>j < n. t = probe_slot k ?h j \<and> key_at D t = getTombstoneKey KI" if "first_tomb KI D k ?h n = Some t" for t
    using that by (auto simp: first_tomb_def find_Some_iff key_at_def)
  obtain i where i: "i \<le> n" "p = probe_slot k ?h i" and free: "key_at D (probe_slot k ?h n) \<noteq> x \<Longrightarrow> p \<notin> live_buckets KI D"
  proof (cases "key_at D (probe_slot k ?h n) = x \<or> first_tomb KI D k ?h n = None")
    case True
    then have "p = probe_slot k ?h n" by (auto simp: p_def)
    then show ?thesis using n by (intro that [of n]) (auto simp: stop_iff live_buckets_def)
  next
    case False
    then obtain t where t: "first_tomb KI D k ?h n = Some t" "p = t" by (auto simp: p_def)
    from ft [OF t(1)] obtain j where "j < n" "t = probe_slot k ?h j" "key_at D t = getTombstoneKey KI" by blast
    then show ?thesis using t(2) by (intro that [of j]) (auto simp: live_buckets_def)
  qed
  show thesis
  proof (rule that [of p])
    show "LookupBucketFor KI D x = Some (Inr (x \<in> dom (contents KI D), Some p))"
      using look found there by auto
    show "p < 2 ^ k" by (simp add: i)
    show "reached KI D k x p"
      using i n_less before by (auto simp: reached_def stop_iff intro!: exI [of _ i])
  qed (use there found free in \<open>auto simp: p_def\<close>)
qed

section \<open>Writing a bucket\<close>

lemma reached_mono:
  assumes "reached KI D k x p" and "\<And>q. key_at D q \<noteq> getEmptyKey KI \<Longrightarrow> key_at D' q \<noteq> getEmptyKey KI"
  shows "reached KI D' k x p"
  using assms unfolding reached_def special_keys by blast

text \<open>A key and its value put into a bucket that holds none.\<close>

lemma put_spec:
  assumes t: "table KI k D" and x: "\<not> special KI x" "x \<notin> dom (contents KI D)"
    and p: "p < 2 ^ k" "p \<notin> live_buckets KI D" "reached KI D k x p"
    and D': "D' = D\<lparr>Buckets := (Buckets D)[p := (x, Some v)], NumEntries := NumEntries D + 1,
      NumTombstones := (if is_empty_key KI (key_at D p) then NumTombstones D else NumTombstones D - 1)\<rparr>"
    and room: "card (live_buckets KI D) + card (tomb_buckets KI D) + 1 < 2 ^ k"
  shows "table KI k D'" "contents KI D' = (contents KI D)(x \<mapsto> v)"
    "live_buckets KI D' = insert p (live_buckets KI D)" "tomb_buckets KI D' = tomb_buckets KI D - {p}"
proof -
  note len = tableD(3) [OF t]
  have pl: "p < length (Buckets D)" using p(1) len by simp
  have key: "key_at D' q = (if q = p then x else key_at D q)" for q
    using pl by (simp add: key_at_def D' nth_list_update)
  have val: "snd (Buckets D' ! q) = (if q = p then Some v else snd (Buckets D ! q))" for q
    using pl by (simp add: D' nth_list_update)
  have len': "length (Buckets D') = length (Buckets D)" by (simp add: D')
  show live: "live_buckets KI D' = insert p (live_buckets KI D)"
    using x(1) pl by (auto simp: live_buckets_def key len')
  show tomb: "tomb_buckets KI D' = tomb_buckets KI D - {p}"
    using x(1) pl by (auto simp: tomb_buckets_def key len')
  have fresh: "key_at D q \<noteq> x" if "q \<in> live_buckets KI D" for q using that x(2) by (auto simp: contents_dom)
  have inj: "inj_on (key_at D') (live_buckets KI D')"
    using tableD(6) [OF t] p(2) fresh unfolding live inj_on_def key by (auto split: if_splits)
  have reach: "reached KI D' k y q" if "reached KI D k y q" for y q
    using that x(1) by (elim reached_mono) (auto simp: key)
  have tc: "card (tomb_buckets KI D') = (if key_at D p = getEmptyKey KI then card (tomb_buckets KI D)
      else card (tomb_buckets KI D) - 1)"
  proof (cases "key_at D p = getEmptyKey KI")
    case True
    then have "p \<notin> tomb_buckets KI D" using reserved_differ by (simp add: tomb_buckets_def)
    with True show ?thesis by (simp add: tomb)
  next
    case False
    then have "p \<in> tomb_buckets KI D" using p pl by (simp add: tomb_buckets_def live_buckets_def)
    with False show ?thesis by (simp add: tomb)
  qed
  have tn: "key_at D p \<noteq> getEmptyKey KI \<Longrightarrow> 0 < card (tomb_buckets KI D)"
    using p pl by (auto simp: card_gt_0_iff tomb_buckets_def live_buckets_def)
  have lc: "card (live_buckets KI D') = Suc (card (live_buckets KI D))" using p(2) by (simp add: live)
  show t': "table KI k D'"
    unfolding table_def
  proof (intro conjI ballI)
    show "k < 32" by (rule tableD(1) [OF t])
    show "NumBuckets D' = of_nat (2 ^ k)" using tableD(2) [OF t] by (simp add: D')
    show "length (Buckets D') = 2 ^ k" by (simp only: len' len)
    show "inj_on (key_at D') (live_buckets KI D')" by (rule inj)
    show "NumEntries D' = of_nat (card (live_buckets KI D'))" by (simp add: lc) (simp add: D' tableD(7) [OF t])
    show "NumTombstones D' = of_nat (card (tomb_buckets KI D'))"
      using tn by (simp add: tc of_nat_diff) (auto simp: D' tableD(8) [OF t])
    show "card (live_buckets KI D') + card (tomb_buckets KI D') < 2 ^ k" using room by (auto simp: lc tc)
    fix q
    assume "q \<in> live_buckets KI D'"
    then show "snd (Buckets D' ! q) \<noteq> None" "reached KI D' k (key_at D' q) q"
      using tableD(4,5) [OF t, of q] reach p(3) unfolding live key val by auto
  qed
  show "contents KI D' = (contents KI D)(x \<mapsto> v)"
  proof
    fix y
    have "contents KI D' y = Some w \<longleftrightarrow> ((contents KI D)(x \<mapsto> v)) y = Some w" for w
      using fresh p(2) unfolding contents_Some [OF inj] fun_upd_apply
      by (auto simp: contents_Some [OF tableD(6) [OF t]] live key val intro!: rev_bexI)
    then show "contents KI D' y = ((contents KI D)(x \<mapsto> v)) y" by (metis option.exhaust_sel)
  qed
qed

text \<open>A tombstone in the place of a key.\<close>

lemma remove_spec:
  assumes t: "table KI k D" and p: "p \<in> live_buckets KI D"
    and D': "D' = D\<lparr>Buckets := (Buckets D)[p := (getTombstoneKey KI, None)], NumEntries := NumEntries D - 1,
      NumTombstones := NumTombstones D + 1\<rparr>"
  shows "table KI k D'" "contents KI D' = (contents KI D)(key_at D p := None)"
    "live_buckets KI D' = live_buckets KI D - {p}"
proof -
  note len = tableD(3) [OF t]
  have pl: "p < length (Buckets D)" by (rule live_less [OF p])
  have key: "key_at D' q = (if q = p then getTombstoneKey KI else key_at D q)" for q
    using pl by (simp add: key_at_def D' nth_list_update)
  have val: "snd (Buckets D' ! q) = (if q = p then None else snd (Buckets D ! q))" for q
    using pl by (simp add: D' nth_list_update)
  have len': "length (Buckets D') = length (Buckets D)" by (simp add: D')
  show live: "live_buckets KI D' = live_buckets KI D - {p}"
    by (auto simp: live_buckets_def key len')
  have tomb: "tomb_buckets KI D' = insert p (tomb_buckets KI D)"
    using pl by (auto simp: tomb_buckets_def key len')
  have pt: "p \<notin> tomb_buckets KI D" using p by (simp add: live_buckets_def tomb_buckets_def)
  have inj: "inj_on (key_at D') (live_buckets KI D')"
    using tableD(6) [OF t] unfolding live inj_on_def key by auto
  have reach: "reached KI D' k y q" if "reached KI D k y q" for y q
    using that by (elim reached_mono) (use reserved_differ in \<open>auto simp: key\<close>)
  have lpos: "0 < card (live_buckets KI D)" using p by (auto simp: card_gt_0_iff)
  have lc: "card (live_buckets KI D') = card (live_buckets KI D) - 1" using p by (simp add: live)
  have tc: "card (tomb_buckets KI D') = Suc (card (tomb_buckets KI D))" using pt by (simp add: tomb)
  show t': "table KI k D'"
    unfolding table_def
  proof (intro conjI ballI)
    show "k < 32" by (rule tableD(1) [OF t])
    show "NumBuckets D' = of_nat (2 ^ k)" using tableD(2) [OF t] by (simp add: D')
    show "length (Buckets D') = 2 ^ k" by (simp only: len' len)
    show "inj_on (key_at D') (live_buckets KI D')" by (rule inj)
    show "NumEntries D' = of_nat (card (live_buckets KI D'))"
      using lpos by (simp add: lc of_nat_diff) (simp add: D' tableD(7) [OF t])
    show "NumTombstones D' = of_nat (card (tomb_buckets KI D'))" by (simp add: tc) (simp add: D' tableD(8) [OF t])
    show "card (live_buckets KI D') + card (tomb_buckets KI D') < 2 ^ k" using tableD(9) [OF t] lpos by (simp add: lc tc)
    fix q
    assume "q \<in> live_buckets KI D'"
    then show "snd (Buckets D' ! q) \<noteq> None" "reached KI D' k (key_at D' q) q"
      using tableD(4,5) [OF t, of q] reach unfolding live key val by auto
  qed
  show "contents KI D' = (contents KI D)(key_at D p := None)"
  proof
    fix y
    have "contents KI D' y = Some w \<longleftrightarrow> ((contents KI D)(key_at D p := None)) y = Some w" for w
      using tableD(6) [OF t] p unfolding contents_Some [OF inj] fun_upd_apply
      by (auto simp: contents_Some [OF tableD(6) [OF t]] live key val inj_on_def)
    then show "contents KI D' y = ((contents KI D)(key_at D p := None)) y" by (metis option.exhaust_sel)
  qed
qed

text \<open>A table of empty keys.\<close>

lemma blank_spec:
  assumes "k < 32" "length (Buckets D) = 2 ^ k" "NumBuckets D = of_nat (2 ^ k)"
    and "NumEntries D = 0" "NumTombstones D = 0" "\<And>B. B \<in> set (Buckets D) \<Longrightarrow> fst B = getEmptyKey KI"
  shows "table KI k D" "contents KI D = Map.empty" "live_buckets KI D = {}" "tomb_buckets KI D = {}"
proof -
  have key: "p < length (Buckets D) \<Longrightarrow> key_at D p = getEmptyKey KI" for p
    using assms(6) by (simp add: key_at_def)
  show live: "live_buckets KI D = {}" by (auto simp: live_buckets_def key)
  show tomb: "tomb_buckets KI D = {}" using reserved_differ by (auto simp: tomb_buckets_def key)
  show "contents KI D = Map.empty" using contents_dom [of KI D] by (simp add: live)
  show "table KI k D" using assms(1-5) by (simp add: table_def live tomb)
qed

end

end
