(* ===== verification/LL_DM_Ops.thy ===== *)
theory LL_DM_Ops imports LL_DM_Table begin

text \<open>
  The operations of \<open>ADT/DenseMap.h\<close> on well-formed tables: allocation, growth, insertion, removal.
\<close>

section \<open>Powers of two\<close>

lemma NextPowerOf2_exact:
  assumes "j < 64" "unat A < 2 ^ j" "j = 0 \<or> 2 ^ (j - 1) \<le> unat A"
  shows "NextPowerOf2 A = push_bit j 1"
proof (cases "A = 0")
  case True
  with assms(3) have "j = 0" by auto
  with True show ?thesis by (simp add: NextPowerOf2_spec)
next
  case False
  then have "unat A \<noteq> 0" by (simp add: unat_eq_0)
  then have j: "0 < j" using assms(2) by (cases j) auto
  note I = clz_interval [OF False]
  have c: "clz A < 64" using clz_bits(1) [OF False] by simp
  have "(2 :: nat) ^ (63 - clz A) < 2 ^ j" using I(1) assms(2) by (simp add: le_less_trans)
  then have "63 - clz A < j" by (rule power_less_imp_less_exp [rotated]) simp
  moreover have "(2 :: nat) ^ (j - 1) < 2 ^ (64 - clz A)" using I(2) assms(3) j by (simp add: le_less_trans)
  then have "j - 1 < 64 - clz A" by (rule power_less_imp_less_exp [rotated]) simp
  ultimately have "64 - clz A = j" using j c by simp
  then show ?thesis by (simp add: NextPowerOf2_spec)
qed

lemma unat_zext: "unat (ucast (w :: u32) :: u64) = unat w"
proof -
  have "unat w < 2 ^ LENGTH(32)" by (rule unsigned_less)
  then have "unat w < 2 ^ 64" by simp
  then show ?thesis by (simp add: unsigned_ucast_eq take_bit_nat_eq_self)
qed

lemma ucast_exp: "(ucast (push_bit j 1 :: u64) :: u32) = of_nat (2 ^ j)"
proof -
  have "(push_bit j 1 :: u64) = of_nat (2 ^ j)" by (simp add: push_bit_eq_mult)
  moreover have "ucast (of_nat n :: u64) = (of_nat n :: u32)" for n
    by (simp add: word_unat_eq_iff unsigned_ucast_eq unat_of_nat take_bit_eq_mod mod_mod_cancel)
  ultimately show ?thesis by (simp only:)
qed

lemma of_nat_exp_cmp:
  "i < 32 \<Longrightarrow> j < 32 \<Longrightarrow> (of_nat (2 ^ i) :: u32) \<le> of_nat (2 ^ j) \<longleftrightarrow> i \<le> j"
  using unat_size by (simp add: word_le_nat_alt del: of_nat_power of_nat_numeral)

lemma max_exp:
  assumes "j < 32"
  shows "max 64 (of_nat (2 ^ j) :: u32) = of_nat (2 ^ max 6 j)"
proof -
  have "(64 :: u32) = of_nat (2 ^ 6)" by simp
  then show ?thesis using of_nat_exp_cmp [of 6 j] assms by (simp only: max_def) (auto split: if_splits)
qed

lemma grown_size:
  assumes "j < 32"
  shows "max 64 (ucast (NextPowerOf2 (ucast (of_nat (2 ^ j) - 1 :: u32))) :: u32) = of_nat (2 ^ max 6 j)"
proof -
  have "1 \<le> (of_nat (2 ^ j) :: u32)" using of_nat_exp_cmp [of 0 j] assms by simp
  then have "unat (of_nat (2 ^ j) - 1 :: u32) = 2 ^ j - 1" using unat_size [OF assms] by (simp add: unat_diff_small)
  then have u: "unat (ucast (of_nat (2 ^ j) - 1 :: u32) :: u64) = 2 ^ j - 1"
    by (simp only: unat_zext)
  have "NextPowerOf2 (ucast (of_nat (2 ^ j) - 1 :: u32)) = push_bit j 1"
    using assms by (intro NextPowerOf2_exact) (auto simp: u power_eq_if)
  then show ?thesis using assms by (simp only: ucast_exp max_exp)
qed

lemma grown_size_0: "max 64 (ucast (NextPowerOf2 (ucast (0 - 1 :: u32))) :: u32) = of_nat (2 ^ 6)"
  by code_simp

section \<open>New tables\<close>

definition no_table :: "('k, 'v, 'z) dense_base \<Rightarrow> bool" where
  "no_table D \<longleftrightarrow> Buckets D = [] \<and> NumBuckets D = 0 \<and> NumEntries D = 0 \<and> NumTombstones D = 0"

text \<open>The invariant: no table, or one less than three quarters full.\<close>

definition dense_ok :: "'k dense_info \<Rightarrow> ('k, 'v, 'z) dense_base \<Rightarrow> bool" where
  "dense_ok KI D \<longleftrightarrow> no_table D \<or> (\<exists>k. table KI k D \<and> 4 * card (live_buckets KI D) < 3 * 2 ^ k)"

lemma no_table_contents: "no_table D \<Longrightarrow> contents KI D = Map.empty"
  by (simp add: no_table_def contents_def live_pairs_def)

context dense_laws
begin

lemma initEmpty_spec:
  assumes "k < 32" "length (Buckets D) = 2 ^ k" "NumBuckets D = of_nat (2 ^ k)"
  obtains D' where "initEmpty KI D = Inr D'" "table KI k D'" "contents KI D' = Map.empty"
    "live_buckets KI D' = {}" "tomb_buckets KI D' = {}"
proof -
  let ?D = "D\<lparr>NumEntries := 0, NumTombstones := 0, Buckets := map (\<lambda>B. (getEmptyKey KI, snd B)) (Buckets D)\<rparr>"
  have "unat (NumBuckets D AND (NumBuckets D - 1)) = 0"
    using unat_and_mask [of "NumBuckets D" k] unat_size [OF assms(1)] by (simp add: assms(3))
  then have "NumBuckets D AND (NumBuckets D - 1) = 0" by (simp only: unat_eq_0)
  then have "initEmpty KI D = Inr ?D" by (simp add: initEmpty_def)
  moreover have "table KI k ?D" "contents KI ?D = Map.empty" "live_buckets KI ?D = {}" "tomb_buckets KI ?D = {}"
    by (rule blank_spec [of k]; use assms in \<open>auto simp del: of_nat_power\<close>)+
  ultimately show thesis by (rule that)
qed

lemma allocated_spec:
  assumes "k < 32"
  obtains D1 D' where "allocateBuckets KI (of_nat (2 ^ k)) D = (True, D1)" "initEmpty KI D1 = Inr D'" "table KI k D'"
    "contents KI D' = Map.empty" "live_buckets KI D' = {}" "tomb_buckets KI D' = {}"
proof -
  let ?D1 = "D\<lparr>NumBuckets := of_nat (2 ^ k), Buckets := replicate (2 ^ k) (getEmptyKey KI, None)\<rparr>"
  have "(of_nat (2 ^ k) :: u32) \<noteq> 0" using unat_size [OF assms] by (metis power_not_zero unsigned_0 zero_neq_numeral)
  then have "allocateBuckets KI (of_nat (2 ^ k)) D = (True, ?D1)"
    using unat_size [OF assms] by (simp add: allocateBuckets_def del: of_nat_power)
  moreover obtain D' where "initEmpty KI ?D1 = Inr D'" "table KI k D'" "contents KI D' = Map.empty"
    "live_buckets KI D' = {}" "tomb_buckets KI D' = {}"
    using initEmpty_spec [of k ?D1] assms by auto
  ultimately show thesis using that by blast
qed

section \<open>Growth\<close>

abbreviation live_of :: "('k, 'v) bucket list \<Rightarrow> ('k, 'v) bucket list" where
  "live_of bs \<equiv> filter (\<lambda>B. \<not> special KI (fst B)) bs"

lemma move_loop_more: "move_loop KI Bs D = Some (Inr D') \<Longrightarrow> dense_map.more D' = dense_map.more D"
proof (induction Bs arbitrary: D)
  case (Cons B Bs)
  show ?case
  proof (cases "special KI (fst B)")
    case False
    then obtain r where "LookupBucketFor KI D (fst B) = Some (Inr r)"
      using Cons.prems by (auto simp: run_then_def split: option.splits sum.splits)
    then show ?thesis using Cons.IH Cons.prems False by (cases r) (fastforce split: option.splits if_splits)
  qed (use Cons in auto)
qed simp

lemma move_loop_spec:
  assumes "table KI k D" "tomb_buckets KI D = {}"
    and "\<forall>B \<in> set (live_of Bs). snd B \<noteq> None" "distinct (map fst (live_of Bs))"
    and "fst ` set (live_of Bs) \<inter> dom (contents KI D) = {}"
    and "card (live_buckets KI D) + length (live_of Bs) < 2 ^ k"
  shows "\<exists>D'. move_loop KI Bs D = Some (Inr D') \<and> table KI k D' \<and> tomb_buckets KI D' = {} \<and>
    contents KI D' = contents KI D ++ map_of (live_pairs KI Bs)"
  using assms
proof (induction Bs arbitrary: D)
  case Nil
  then show ?case by (simp add: live_pairs_def)
next
  case (Cons B Bs)
  show ?case
  proof (cases "special KI (fst B)")
    case True
    then have "live_of (B # Bs) = live_of Bs" "live_pairs KI (B # Bs) = live_pairs KI Bs"
      "move_loop KI (B # Bs) D = move_loop KI Bs D" by (auto simp: live_pairs_def)
    with Cons.IH [OF Cons.prems(1,2)] Cons.prems(3-) show ?thesis by (simp only:)
  next
    case False
    obtain x v where B: "B = (x, Some v)" using Cons.prems(3) False by (cases B) auto
    have x: "\<not> special KI x" "x \<notin> dom (contents KI D)" using False Cons.prems(5) B by auto
    obtain p where look: "LookupBucketFor KI D x = Some (Inr (False, Some p))"
      and p: "p < 2 ^ k" "p \<notin> live_buckets KI D" "reached KI D k x p"
      using LookupBucketFor_spec [OF Cons.prems(1) x(1)] x(2) by (metis (full_types))
    define D1 where "D1 = D\<lparr>Buckets := (Buckets D)[p := (x, Some v)], NumEntries := NumEntries D + 1\<rparr>"
    have e: "is_empty_key KI (key_at D p)"
      using p Cons.prems(2) tableD(3) [OF Cons.prems(1)] by (auto simp: live_buckets_def tomb_buckets_def)
    have room: "card (live_buckets KI D) + card (tomb_buckets KI D) + 1 < 2 ^ k"
      using Cons.prems(2,6) False by simp
    have D1: "D1 = D\<lparr>Buckets := (Buckets D)[p := (x, Some v)], NumEntries := NumEntries D + 1,
      NumTombstones := (if is_empty_key KI (key_at D p) then NumTombstones D else NumTombstones D - 1)\<rparr>"
      using e by (simp add: D1_def)
    note P = put_spec [OF Cons.prems(1) x p D1 room]
    have "\<exists>D'. move_loop KI Bs D1 = Some (Inr D') \<and> table KI k D' \<and> tomb_buckets KI D' = {} \<and>
      contents KI D' = contents KI D1 ++ map_of (live_pairs KI Bs)"
    proof (rule Cons.IH [OF P(1)])
      show "fst ` set (live_of Bs) \<inter> dom (contents KI D1) = {}"
        using Cons.prems(4,5) False B unfolding P(2) by auto
      show "card (live_buckets KI D1) + length (live_of Bs) < 2 ^ k"
        using Cons.prems(6) False p(2) by (simp add: P(3))
    qed (use Cons.prems False P(4) in auto)
    moreover have "move_loop KI (B # Bs) D = move_loop KI Bs D1"
      using False by (simp add: look B D1_def)
    moreover have "x \<notin> dom (map_of (live_pairs KI Bs))"
      using Cons.prems(4) False B by (auto simp: dom_map_of_conv_image_fst live_pairs_def image_iff)
    then have "contents KI D1 ++ map_of (live_pairs KI Bs) = contents KI D ++ map_of (live_pairs KI (B # Bs))"
      using False by (auto simp: P(2) B live_pairs_def map_add_upd_left)
    ultimately show ?thesis by simp
  qed
qed

end

text \<open>The keys of the live buckets, in order, are distinct.\<close>

lemma live_keys_distinct:
  assumes "inj_on (key_at D) (live_buckets KI D)"
  shows "distinct (map fst (filter (\<lambda>B. \<not> special KI (fst B)) (Buckets D)))"
    "length (filter (\<lambda>B. \<not> special KI (fst B)) (Buckets D)) = card (live_buckets KI D)"
proof -
  let ?I = "filter (\<lambda>p. \<not> special KI (key_at D p)) [0..<length (Buckets D)]"
  have "filter (\<lambda>B. \<not> special KI (fst B)) (map ((!) (Buckets D)) [0..<length (Buckets D)]) = map ((!) (Buckets D)) ?I"
    by (simp only: filter_map o_def key_at_def)
  then have e: "filter (\<lambda>B. \<not> special KI (fst B)) (Buckets D) = map ((!) (Buckets D)) ?I" by (simp only: map_nth)
  have s: "set ?I = live_buckets KI D" by (auto simp: live_buckets_def)
  have "inj_on (\<lambda>p. fst (Buckets D ! p)) (live_buckets KI D)" using assms by (simp add: key_at_def [abs_def])
  then show "distinct (map fst (filter (\<lambda>B. \<not> special KI (fst B)) (Buckets D)))"
    unfolding e by (simp only: map_map o_def distinct_map s) simp
  have "length ?I = card (set ?I)" by (intro distinct_card [symmetric] distinct_filter distinct_upt)
  then show "length (filter (\<lambda>B. \<not> special KI (fst B)) (Buckets D)) = card (live_buckets KI D)"
    unfolding e by (simp only: length_map s)
qed

lemma live_values: "table KI k D \<Longrightarrow> B \<in> set (filter (\<lambda>B. \<not> special KI (fst B)) (Buckets D)) \<Longrightarrow> snd B \<noteq> None"
  using tableD(4) [of KI k D] by (auto simp: in_set_conv_nth live_buckets_def key_at_def)

context dense_laws
begin

lemma moveFromOldBuckets_list:
  assumes k': "k' < 32" and Bs: "\<forall>B \<in> set (live_of Bs). snd B \<noteq> None" "distinct (map fst (live_of Bs))" "length (live_of Bs) < 2 ^ k'"
    and D1: "length (Buckets D1) = 2 ^ k'" "NumBuckets D1 = of_nat (2 ^ k')"
  shows "\<exists>D'. moveFromOldBuckets KI Bs D1 = Some (Inr D') \<and> table KI k' D' \<and> tomb_buckets KI D' = {} \<and>
    contents KI D' = map_of (live_pairs KI Bs) \<and> NumBuckets D' = NumBuckets D1 \<and> dense_map.more D' = dense_map.more D1"
proof -
  obtain D2 where D2: "initEmpty KI D1 = Inr D2" "table KI k' D2" "contents KI D2 = Map.empty"
    "live_buckets KI D2 = {}" "tomb_buckets KI D2 = {}"
    using initEmpty_spec [OF k' D1] .
  have "\<exists>D'. move_loop KI Bs D2 = Some (Inr D') \<and> table KI k' D' \<and> tomb_buckets KI D' = {} \<and>
    contents KI D' = contents KI D2 ++ map_of (live_pairs KI Bs)"
    by (rule move_loop_spec [OF D2(2,5) Bs(1,2)]) (use D2 Bs(3) in auto)
  then obtain D' where D': "move_loop KI Bs D2 = Some (Inr D')" "table KI k' D'" "tomb_buckets KI D' = {}"
    "contents KI D' = map_of (live_pairs KI Bs)" by (auto simp: D2(3))
  have "dense_map.more D' = dense_map.more D2" using move_loop_more [OF D'(1)] .
  moreover have "dense_map.more D2 = dense_map.more D1" using D2(1) by (auto simp: initEmpty_def Let_def split: if_splits)
  moreover have "NumBuckets D' = NumBuckets D1" using tableD(2) [OF D'(2)] D1(2) by simp
  ultimately show ?thesis using D' by (simp add: moveFromOldBuckets_def D2(1))
qed

lemma moveFromOldBuckets_spec:
  assumes t: "table KI k D" and k': "k' < 32" and room: "card (live_buckets KI D) < 2 ^ k'"
    and D1: "length (Buckets D1) = 2 ^ k'" "NumBuckets D1 = of_nat (2 ^ k')"
  shows "\<exists>D'. moveFromOldBuckets KI (Buckets D) D1 = Some (Inr D') \<and> table KI k' D' \<and> tomb_buckets KI D' = {} \<and>
    contents KI D' = contents KI D \<and> NumBuckets D' = NumBuckets D1 \<and> dense_map.more D' = dense_map.more D1"
proof -
  note K = live_keys_distinct [OF tableD(6) [OF t]]
  have v: "\<forall>B \<in> set (live_of (Buckets D)). snd B \<noteq> None" using live_values [OF t] by blast
  have "length (live_of (Buckets D)) < 2 ^ k'" by (simp only: K(2) room)
  from moveFromOldBuckets_list [OF k' v K(1) this D1] show ?thesis by (simp only: contents_def [of KI D])
qed

lemma grow_spec:
  assumes t: "table KI k D" and j: "j < 32" and room: "card (live_buckets KI D) < 2 ^ max 6 j"
  shows "\<exists>D'. grow KI (of_nat (2 ^ j)) D = Some (Inr D') \<and> table KI (max 6 j) D' \<and> tomb_buckets KI D' = {} \<and>
    contents KI D' = contents KI D"
proof -
  have k': "max 6 j < 32" using j by simp
  have nz: "NumBuckets D \<noteq> 0" using table_size [OF t] by auto
  obtain D1 where D1: "allocateBuckets KI (of_nat (2 ^ max 6 j)) D = (True, D1)"
    using allocated_spec [OF k'] by blast
  then have "length (Buckets D1) = 2 ^ max 6 j" "NumBuckets D1 = of_nat (2 ^ max 6 j)"
    using unat_size [OF k'] by (auto simp: allocateBuckets_def Let_def split: if_splits)
  from moveFromOldBuckets_spec [OF t k' room this] have "\<exists>D'. moveFromOldBuckets KI (Buckets D) D1 = Some (Inr D') \<and>
      table KI (max 6 j) D' \<and> tomb_buckets KI D' = {} \<and> contents KI D' = contents KI D" by blast
  then show ?thesis
    using nz by (simp only: grow_def grown_size [OF j] D1 Let_def prod.case if_False)
qed

lemma grow_null_spec:
  assumes "no_table D" and A: "max 64 (ucast (NextPowerOf2 (ucast (A - 1))) :: u32) = of_nat (2 ^ j)" and j: "j < 32"
  shows "\<exists>D'. grow KI A D = Some (Inr D') \<and> table KI j D' \<and> tomb_buckets KI D' = {} \<and> contents KI D' = Map.empty"
proof -
  obtain D1 D' where D1: "allocateBuckets KI (of_nat (2 ^ j)) D = (True, D1)" "initEmpty KI D1 = Inr D'" "table KI j D'"
    "contents KI D' = Map.empty" "tomb_buckets KI D' = {}"
    by (rule allocated_spec [OF j, of D])
  moreover have "NumBuckets D = 0" using assms(1) by (simp add: no_table_def)
  ultimately show ?thesis
    by (simp only: grow_def A Let_def prod.case D1(1) if_True) simp
qed

lemmas grow_none = grow_null_spec [OF _ grown_size_0, simplified]

end

end
