(* ===== verification/LL_DM_Map.thy ===== *)
theory LL_DM_Map imports LL_DM_Ops begin

text \<open>
  The tables of \<open>ADT/DenseMap.h\<close> as finite functions: insertion, removal and lookup on tables that
  keep the invariant, and when a table grows.
\<close>

lemma dense_ok_cases:
  assumes "dense_ok KI D"
  obtains "no_table D" | k where "table KI k D" "4 * card (live_buckets KI D) < 3 * 2 ^ k"
  using assms unfolding dense_ok_def by blast

lemma no_table_not: "no_table D \<Longrightarrow> \<not> table KI k D"
  by (auto simp: no_table_def table_def)

lemma table_unique: "table KI k D \<Longrightarrow> table KI k' D \<Longrightarrow> k = k'"
  using tableD(3) by (metis power_inject_exp numeral_One numeral_less_iff semiring_norm(76))

lemma table_exp_le: "table KI k D \<Longrightarrow> unat (NumBuckets D) \<le> 2 ^ j \<Longrightarrow> k \<le> j"
  by (simp add: table_size)

lemma unat_small: "n < 2 ^ 32 \<Longrightarrow> unat (of_nat n :: u32) = n"
  by (simp add: unat_of_nat)

text \<open>The comparisons that decide whether to grow, over the naturals.\<close>

lemma grow_tests:
  assumes t: "table KI k D" and load: "4 * card (live_buckets KI D) < 3 * 2 ^ k" and k: "k \<le> 30"
  shows "NumBuckets D * 3 \<le> (NumEntries D + 1) * 4 \<longleftrightarrow> 3 * 2 ^ k \<le> 4 * (card (live_buckets KI D) + 1)"
    "NumBuckets D - (NumEntries D + 1 + NumTombstones D) \<le> NumBuckets D div 8 \<longleftrightarrow>
     2 ^ k - (card (live_buckets KI D) + 1 + card (tomb_buckets KI D)) \<le> (2 :: nat) ^ k div 8"
    "NumBuckets D * 2 = of_nat (2 ^ (k + 1))"
proof -
  let ?n = "card (live_buckets KI D)" and ?t = "card (tomb_buckets KI D)"
  have p: "(2 :: nat) ^ k \<le> 2 ^ 30" using k by (intro power_increasing) simp_all
  have n: "?n + ?t < 2 ^ k" by (rule tableD(9) [OF t])
  have NB: "unat (NumBuckets D) = 2 ^ k" by (rule table_size [OF t])
  have E: "unat (NumEntries D) = ?n" using n p unat_small [of ?n] by (simp add: tableD(7) [OF t])
  have T: "unat (NumTombstones D) = ?t" using n p unat_small [of ?t] by (simp add: tableD(8) [OF t])
  have E1: "unat (NumEntries D + 1) = ?n + 1" using n p E by (subst unat_add_small) simp_all
  have "unat (NumBuckets D * 3) = 2 ^ k * 3" using p NB by (subst unat_mult_small) simp_all
  moreover have "unat ((NumEntries D + 1) * 4) = (?n + 1) * 4" using load p E1 by (subst unat_mult_small) simp_all
  ultimately show "NumBuckets D * 3 \<le> (NumEntries D + 1) * 4 \<longleftrightarrow> 3 * 2 ^ k \<le> 4 * (?n + 1)"
    by (simp add: word_le_nat_alt mult.commute)
  have ET: "unat (NumEntries D + 1 + NumTombstones D) = ?n + 1 + ?t"
    using n p E1 T by (subst unat_add_small) simp_all
  then have "NumEntries D + 1 + NumTombstones D \<le> NumBuckets D" using n NB by (simp add: word_le_nat_alt)
  then show "NumBuckets D - (NumEntries D + 1 + NumTombstones D) \<le> NumBuckets D div 8 \<longleftrightarrow>
      2 ^ k - (?n + 1 + ?t) \<le> (2 :: nat) ^ k div 8"
    using ET NB by (simp add: word_le_nat_alt unat_diff_small unat_div)
  show "NumBuckets D * 2 = of_nat (2 ^ (k + 1))" by (simp add: tableD(2) [OF t])
qed

text \<open>
  The number of buckets after an insertion: the old one if there is room, twice it if the table would
  be three quarters full, at least 64 if it is built again.
\<close>

definition buckets_after :: "nat \<Rightarrow> nat \<Rightarrow> nat \<Rightarrow> nat" where
  "buckets_after N n t =
     (if 3 * N \<le> 4 * (n + 1) then max 64 (2 * N) else if N - (n + 1 + t) \<le> N div 8 then max 64 N else N)"

context dense_laws
begin

text \<open>Once there is room, the last part of an insertion writes the bucket a lookup gives.\<close>

lemma place_spec:
  assumes t: "table KI k D" and x: "\<not> special KI x" "x \<notin> dom (contents KI D)"
    and look: "LookupBucketFor KI D x = Some (Inr (False, Some p))"
    and load: "4 * (card (live_buckets KI D) + 1) < 3 * 2 ^ k"
    and room: "card (live_buckets KI D) + card (tomb_buckets KI D) + 1 < 2 ^ k"
    and D1: "D1 = D\<lparr>NumEntries := NumEntries D + 1\<rparr>"
    and D2: "D2 = (if \<not> is_empty_key KI (fst (Buckets D1 ! p)) then D1\<lparr>NumTombstones := NumTombstones D1 - 1\<rparr> else D1)"
    and D': "D' = D2\<lparr>Buckets := (Buckets D2)[p := (x, Some v)]\<rparr>"
  shows "dense_ok KI D'" "table KI k D'" "contents KI D' = (contents KI D)(x \<mapsto> v)" "p < 2 ^ k" "Buckets D' ! p = (x, Some v)"
    "tomb_buckets KI D = {} \<Longrightarrow> tomb_buckets KI D' = {}"
proof -
  have p: "p < 2 ^ k" "reached KI D k x p" "p \<notin> live_buckets KI D"
    using LookupBucketFor_spec [OF t x(1)] x(2) unfolding look by auto
  have D'_eq: "D' = D\<lparr>Buckets := (Buckets D)[p := (x, Some v)], NumEntries := NumEntries D + 1,
      NumTombstones := (if is_empty_key KI (key_at D p) then NumTombstones D else NumTombstones D - 1)\<rparr>"
    by (simp add: D' D2 D1 key_at_def)
  note P = put_spec [OF t x p(1,3,2) D'_eq room]
  show "table KI k D'" "contents KI D' = (contents KI D)(x \<mapsto> v)" by (rule P)+
  show "dense_ok KI D'" using P(1,3) p(3) load by (auto simp: dense_ok_def)
  show "p < 2 ^ k" by (rule p(1))
  show "Buckets D' ! p = (x, Some v)" using p(1) tableD(3) [OF t] by (simp add: D'_eq)
  show "tomb_buckets KI D = {} \<Longrightarrow> tomb_buckets KI D' = {}" by (simp add: P(4))
qed

lemma lookup_fresh:
  assumes "table KI k D" "\<not> special KI x" "x \<notin> dom (contents KI D)"
  obtains p where "LookupBucketFor KI D x = Some (Inr (False, Some p))"
  using LookupBucketFor_spec [OF assms(1,2)] assms(3) by (metis (full_types))

lemma lookup_none: "no_table D \<Longrightarrow> LookupBucketFor KI D x = Some (Inr (False, None))"
  by (simp add: LookupBucketFor_def no_table_def)

end

lemma max_64_exp: "max 64 ((2 :: nat) ^ j) = 2 ^ max 6 j"
proof (cases "6 \<le> j")
  case True
  then have "(2 :: nat) ^ 6 \<le> 2 ^ j" by (intro power_increasing) simp_all
  then show ?thesis using True by (simp add: max_def)
next
  case False
  then have "(2 :: nat) ^ j \<le> 2 ^ 6" by (intro power_increasing) simp_all
  then show ?thesis using False by (simp add: max_def)
qed

lemma at_least_64: "64 \<le> (2 :: nat) ^ max 6 j"
  unfolding max_64_exp [symmetric] by simp

lemma doubled_load: "64 \<le> M \<Longrightarrow> 2 * K \<le> M \<Longrightarrow> 4 * n < 3 * K \<Longrightarrow> 4 * (n + 1) < 3 * (M :: nat)"
  by arith

section \<open>Insertion\<close>

text \<open>
  What the operations of \<open>DenseMapBase\<close> ask of the \<open>grow\<close> of a derived class: the table is built again
  with the buckets asked for, at least 64, and the pairs it has.  \<open>fits\<close> is what the derived class
  keeps of its own fields.
\<close>

locale dense_growth = dense_laws KI for KI :: "'k dense_info" +
  fixes gr :: "('k, 'v, 'z) growth" and fits :: "('k, 'v, 'z) dense_base \<Rightarrow> bool"
  assumes gr_spec: "table KI k D \<Longrightarrow> fits D \<Longrightarrow> k \<le> j \<Longrightarrow> j < 32 \<Longrightarrow> card (live_buckets KI D) < 2 ^ max 6 j \<Longrightarrow>
      \<exists>D'. gr (of_nat (2 ^ j)) D = Some (Inr D') \<and> table KI (max 6 j) D' \<and> tomb_buckets KI D' = {} \<and>
        contents KI D' = contents KI D \<and> fits D'"
    and gr_none: "no_table D \<Longrightarrow> fits D \<Longrightarrow>
      \<exists>D'. gr 0 D = Some (Inr D') \<and> table KI 6 D' \<and> tomb_buckets KI D' = {} \<and> contents KI D' = Map.empty \<and> fits D'"
    and fits_frame: "fits (D\<lparr>Buckets := bs\<rparr>) = fits D" "fits (D\<lparr>NumEntries := n\<rparr>) = fits D"
      "fits (D\<lparr>NumTombstones := n\<rparr>) = fits D"
begin

lemma InsertIntoBucket_grown:
  assumes D1: "table KI k D1" "tomb_buckets KI D1 = {}" and x: "\<not> special KI x" "x \<notin> dom (contents KI D1)"
    and load: "4 * (card (live_buckets KI D1) + 1) < 3 * 2 ^ k" "card (live_buckets KI D1) + 1 < 2 ^ k"
    and f: "fits D1"
    and g: "(if NumBuckets D * 3 \<le> (NumEntries D + 1) * 4 then gr (NumBuckets D * 2) D
       else if NumBuckets D - (NumEntries D + 1 + NumTombstones D) \<le> NumBuckets D div 8
       then gr (NumBuckets D) D else None) = Some (Inr D1)"
  shows "\<exists>D' p. InsertIntoBucket gr KI q x v D = Some (Inr (D', p)) \<and> dense_ok KI D' \<and> table KI k D' \<and>
    contents KI D' = (contents KI D1)(x \<mapsto> v) \<and> p < 2 ^ k \<and> Buckets D' ! p = (x, Some v) \<and> tomb_buckets KI D' = {} \<and> fits D'"
proof -
  obtain p where look: "LookupBucketFor KI D1 x = Some (Inr (False, Some p))" using lookup_fresh [OF D1(1) x] .
  note P = place_spec [where v = v, OF D1(1) x look load(1) _ refl refl refl]
  have "InsertIntoBucket gr KI q x v D = Some (Inr
      (let D2 = D1\<lparr>NumEntries := NumEntries D1 + 1\<rparr>;
           D2 = (if \<not> is_empty_key KI (fst (Buckets D2 ! p)) then D2\<lparr>NumTombstones := NumTombstones D2 - 1\<rparr> else D2)
       in (D2\<lparr>Buckets := (Buckets D2)[p := (x, Some v)]\<rparr>, p)))"
    using g by (auto simp: InsertIntoBucket_def InsertIntoBucketImpl_def Let_def look split: if_splits)
  then show ?thesis using P load(2) D1(2) f by (simp add: Let_def fits_frame del: special_keys)
qed

lemma InsertIntoBucket_spec:
  assumes ok: "dense_ok KI D" and small: "unat (NumBuckets D) \<le> 2 ^ 30"
    and x: "\<not> special KI x" "x \<notin> dom (contents KI D)"
    and look: "LookupBucketFor KI D x = Some (Inr (False, q))" and f: "fits D"
  shows "\<exists>D' p. InsertIntoBucket gr KI q x v D = Some (Inr (D', p)) \<and> dense_ok KI D' \<and>
    contents KI D' = (contents KI D)(x \<mapsto> v) \<and> p < length (Buckets D') \<and> Buckets D' ! p = (x, Some v) \<and>
    unat (NumBuckets D') = buckets_after (unat (NumBuckets D)) (card (dom (contents KI D))) (card (tomb_buckets KI D)) \<and>
    (tomb_buckets KI D = {} \<longrightarrow> tomb_buckets KI D' = {}) \<and> fits D'"
  using ok
proof (cases rule: dense_ok_cases)
  case 1
  obtain D1 where D1: "gr 0 D = Some (Inr D1)" "table KI 6 D1" "tomb_buckets KI D1 = {}" "contents KI D1 = Map.empty" "fits D1"
    using gr_none [OF 1 f] by blast
  have c: "card (live_buckets KI D1) = 0" using contents_card [OF D1(2)] by (simp add: D1(4))
  have g: "(if NumBuckets D * 3 \<le> (NumEntries D + 1) * 4 then gr (NumBuckets D * 2) D
       else if NumBuckets D - (NumEntries D + 1 + NumTombstones D) \<le> NumBuckets D div 8
       then gr (NumBuckets D) D else None) = Some (Inr D1)"
    using 1 D1(1) by (simp add: no_table_def)
  have "\<exists>D' p. InsertIntoBucket gr KI q x v D = Some (Inr (D', p)) \<and> dense_ok KI D' \<and> table KI 6 D' \<and>
    contents KI D' = (contents KI D1)(x \<mapsto> v) \<and> p < 2 ^ 6 \<and> Buckets D' ! p = (x, Some v) \<and> tomb_buckets KI D' = {} \<and> fits D'"
    by (rule InsertIntoBucket_grown [OF D1(2,3) x(1) _ _ _ D1(5) g]) (simp_all add: c D1(4))
  moreover have "buckets_after (unat (NumBuckets D)) (card (dom (contents KI D))) (card (tomb_buckets KI D)) = 2 ^ 6"
    using 1 by (simp add: buckets_after_def no_table_def)
  ultimately show ?thesis
    unfolding no_table_contents [OF 1] D1(4) by (metis table_size tableD(3))
next
  case (2 k)
  note t = 2(1)
  have k: "k \<le> 30" using table_exp_le [OF t small] .
  note G = grow_tests [OF 2 k]
  let ?n = "card (live_buckets KI D)" and ?t = "card (tomb_buckets KI D)"
  have N: "buckets_after (unat (NumBuckets D)) (card (dom (contents KI D))) ?t = buckets_after (2 ^ k) ?n ?t"
    by (simp add: table_size [OF t] contents_card [OF t])
  have grown: "?thesis" if j: "j < 32" and D1: "gr (of_nat (2 ^ j)) D = Some (Inr D1)" "table KI (max 6 j) D1"
      "tomb_buckets KI D1 = {}" "contents KI D1 = contents KI D" "fits D1"
    and load: "4 * (?n + 1) < 3 * 2 ^ max 6 j" 
    and size: "buckets_after (2 ^ k) ?n ?t = 2 ^ max 6 j"
    and g: "(if NumBuckets D * 3 \<le> (NumEntries D + 1) * 4 then gr (NumBuckets D * 2) D
       else if NumBuckets D - (NumEntries D + 1 + NumTombstones D) \<le> NumBuckets D div 8
       then gr (NumBuckets D) D else None) = Some (Inr D1)" for j D1
  proof -
    have n: "card (live_buckets KI D1) = ?n" using contents_card [OF t] contents_card [OF D1(2)] D1(4) by simp
    have "\<exists>D' p. InsertIntoBucket gr KI q x v D = Some (Inr (D', p)) \<and> dense_ok KI D' \<and> table KI (max 6 j) D' \<and>
      contents KI D' = (contents KI D1)(x \<mapsto> v) \<and> p < 2 ^ max 6 j \<and> Buckets D' ! p = (x, Some v) \<and> tomb_buckets KI D' = {} \<and> fits D'"
      by (rule InsertIntoBucket_grown [OF D1(2,3) x(1) _ _ _ D1(5) g]) (use x(2) load in \<open>simp_all add: n D1(4)\<close>)
    then show ?thesis
      unfolding N size D1(4) by (metis table_size tableD(3))
  qed
  consider (double) "3 * 2 ^ k \<le> 4 * (?n + 1)"
    | (again) "4 * (?n + 1) < 3 * 2 ^ k" "(2 :: nat) ^ k - (?n + 1 + ?t) \<le> 2 ^ k div 8"
    | (stay) "4 * (?n + 1) < 3 * 2 ^ k" "(2 :: nat) ^ k div 8 < 2 ^ k - (?n + 1 + ?t)" by linarith
  then show ?thesis
  proof cases
    case double
    have p: "(2 :: nat) ^ (k + 1) \<le> 2 ^ max 6 (k + 1)" "(2 :: nat) ^ k \<le> 2 ^ max 6 (k + 1)"
      by (intro power_increasing; simp)+
    have k1: "k + 1 < 32" using k by simp
    have room: "?n < 2 ^ max 6 (k + 1)" using tableD(9) [OF t] p by linarith
    from gr_spec [OF t f le_add1 k1 room] obtain D1 where D1: "gr (of_nat (2 ^ (k + 1))) D = Some (Inr D1)" "table KI (max 6 (k + 1)) D1"
      "tomb_buckets KI D1 = {}" "contents KI D1 = contents KI D" "fits D1" by blast
    have p2: "2 * (2 :: nat) ^ k \<le> 2 ^ max 6 (k + 1)" using p(1) by (simp only: power_add power_one_right mult.commute)
    show ?thesis
    proof (rule grown [OF _ D1])
      show "4 * (?n + 1) < 3 * 2 ^ max 6 (k + 1)"
        by (rule doubled_load [OF at_least_64 p2 2(2)])
      show "buckets_after (2 ^ k) ?n ?t = 2 ^ max 6 (k + 1)"
        using double max_64_exp [of "k + 1"] by (simp add: buckets_after_def)
    qed (use double k D1(1) G in \<open>simp_all del: of_nat_power\<close>)
  next
    case again
    have p: "(2 :: nat) ^ 6 \<le> 2 ^ max 6 k" "(2 :: nat) ^ k \<le> 2 ^ max 6 k"
      by (intro power_increasing; simp)+
    have k1: "k < 32" using k by simp
    have room: "?n < 2 ^ max 6 k" using tableD(9) [OF t] p by linarith
    from gr_spec [OF t f order_refl k1 room] obtain D1 where D1: "gr (of_nat (2 ^ k)) D = Some (Inr D1)" "table KI (max 6 k) D1"
      "tomb_buckets KI D1 = {}" "contents KI D1 = contents KI D" "fits D1" by blast
    show ?thesis
    proof (rule grown [OF _ D1])
      show "4 * (?n + 1) < 3 * 2 ^ max 6 k" using again(1) p(2) by linarith
      show "buckets_after (2 ^ k) ?n ?t = 2 ^ max 6 k"
        using again max_64_exp [of k] by (simp add: buckets_after_def)
    qed (use again k D1(1) G tableD(2) [OF t] in \<open>simp_all del: of_nat_power\<close>)
  next
    case stay
    obtain p where q: "q = Some p" using LookupBucketFor_spec [OF t x(1)] look by fastforce
    have "InsertIntoBucket gr KI q x v D = Some (Inr
      (let D2 = D\<lparr>NumEntries := NumEntries D + 1\<rparr>;
           D2 = (if \<not> is_empty_key KI (fst (Buckets D2 ! p)) then D2\<lparr>NumTombstones := NumTombstones D2 - 1\<rparr> else D2)
       in (D2\<lparr>Buckets := (Buckets D2)[p := (x, Some v)]\<rparr>, p)))"
      using stay G by (simp add: InsertIntoBucket_def InsertIntoBucketImpl_def Let_def q)
    moreover note P = place_spec [where v = v, OF t x look [unfolded q] stay(1) _ refl refl refl]
    moreover have "buckets_after (2 ^ k) ?n ?t = 2 ^ k" using stay by (simp add: buckets_after_def)
    moreover have "?n + ?t + 1 < 2 ^ k" using stay(2) by linarith
    ultimately show ?thesis unfolding N using table_size [OF P(2)] tableD(3) [OF P(2)] f
      by (simp add: Let_def fits_frame del: special_keys)
  qed
qed

end

text \<open>\<open>DenseMap\<close> grows as it should.\<close>

context dense_laws
begin

lemma grow_growth: "dense_growth KI (grow KI) (\<lambda>_. True)"
  using grow_spec grow_none by unfold_locales auto

end

interpretation unsigned_map: dense_growth DenseMapInfo_unsigned "grow DenseMapInfo_unsigned" "\<lambda>_. True"
  by (rule unsigned_keys.grow_growth)

interpretation pointer_map: dense_growth "DenseMapInfo_pointer 3" "grow (DenseMapInfo_pointer 3)" "\<lambda>_. True"
  by (rule pointer_keys.grow_growth)

end
