(* ===== verification/LL_DM_Find.thy ===== *)
theory LL_DM_Find imports LL_DM_Map begin

text \<open>
  The public operations of \<open>ADT/DenseMap.h\<close> on tables that keep the invariant: each returns, and
  does what it does to the finite function the table stands for.
\<close>

section \<open>Operations on well-formed tables\<close>

text \<open>A lookup that finds its key gives the bucket that holds it.\<close>

definition located :: "'k dense_info \<Rightarrow> ('k, 'v, 'z) dense_base \<Rightarrow> 'k \<Rightarrow> nat option \<Rightarrow> bool" where
  "located KI D x q \<longleftrightarrow> (x \<in> dom (contents KI D) \<longrightarrow>
     (\<exists>p k. q = Some p \<and> table KI k D \<and> p \<in> live_buckets KI D \<and> key_at D p = x \<and> snd (Buckets D ! p) = contents KI D x))"

lemma locatedD:
  assumes "located KI D x q" "x \<in> dom (contents KI D)"
  obtains p k where "q = Some p" "table KI k D" "p \<in> live_buckets KI D" "key_at D p = x"
    "p < length (Buckets D)" "Buckets D ! p = (x, contents KI D x)"
  using assms live_less unfolding located_def key_at_def by (metis prod.collapse)

context dense_laws
begin

lemma lookup_any:
  assumes ok: "dense_ok KI D" and x: "\<not> special KI x"
  obtains q where "LookupBucketFor KI D x = Some (Inr (x \<in> dom (contents KI D), q))" "located KI D x q"
  using ok
proof (cases rule: dense_ok_cases)
  case 1
  then show ?thesis using that [of None] by (simp add: lookup_none no_table_contents located_def)
next
  case (2 k)
  obtain p where p: "LookupBucketFor KI D x = Some (Inr (x \<in> dom (contents KI D), Some p))" "p < 2 ^ k"
    "x \<in> dom (contents KI D) \<Longrightarrow> key_at D p = x"
    using LookupBucketFor_spec [OF 2(1) x] by metis
  have "p \<in> live_buckets KI D" if "x \<in> dom (contents KI D)"
    using that p(2,3) x tableD(3) [OF 2(1)] by (simp add: live_buckets_def)
  then show ?thesis using contents_at [OF 2(1)] p(3) 2(1) by (intro that [OF p(1)]) (auto simp: located_def dom_def)
qed

lemma lookup_value_spec:
  assumes "dense_ok KI D" "\<not> special KI x"
  shows "lookup_value d KI x D = Some (Inr (case contents KI D x of Some v \<Rightarrow> v | None \<Rightarrow> d))"
proof -
  obtain q where q: "LookupBucketFor KI D x = Some (Inr (x \<in> dom (contents KI D), q))" "located KI D x q"
    by (rule lookup_any [OF assms])
  show ?thesis
  proof (cases "contents KI D x")
    case None
    then show ?thesis using q(1) by (simp add: lookup_value_def dom_def)
  next
    case (Some v)
    then have x: "x \<in> dom (contents KI D)" by blast
    obtain p where "q = Some p" "p < length (Buckets D)" "Buckets D ! p = (x, contents KI D x)"
      by (rule locatedD [OF q(2) x]) blast
    then show ?thesis using q(1) x Some by (simp add: lookup_value_def)
  qed
qed

lemma count_key_spec:
  "dense_ok KI D \<Longrightarrow> \<not> special KI x \<Longrightarrow> count_key KI x D = Some (Inr (if x \<in> dom (contents KI D) then 1 else 0))"
  by (rule lookup_any [of D x]) (simp_all add: count_key_def)

text \<open>A key that is there is found at its bucket, one that is not at \<open>end()\<close>.\<close>

lemma find_key_spec:
  assumes "dense_ok KI D" "\<not> special KI x"
  shows "\<exists>p. find_key KI x D = Some (Inr p) \<and>
    (case contents KI D x of None \<Rightarrow> p = unat (NumBuckets D) | Some v \<Rightarrow> p < length (Buckets D) \<and> Buckets D ! p = (x, Some v))"
proof -
  obtain q where q: "LookupBucketFor KI D x = Some (Inr (x \<in> dom (contents KI D), q))" "located KI D x q"
    by (rule lookup_any [OF assms])
  show ?thesis
  proof (cases "contents KI D x")
    case None
    then show ?thesis using q(1) by (simp add: find_key_def dom_def)
  next
    case (Some v)
    then have x: "x \<in> dom (contents KI D)" by blast
    obtain p where "q = Some p" "p < length (Buckets D)" "Buckets D ! p = (x, contents KI D x)"
      by (rule locatedD [OF q(2) x]) blast
    then show ?thesis using q(1) x Some by (simp add: find_key_def)
  qed
qed

lemma erase_spec:
  assumes ok: "dense_ok KI D" and x: "\<not> special KI x"
  shows "\<exists>D'. erase KI x D = Some (Inr (D', x \<in> dom (contents KI D))) \<and> dense_ok KI D' \<and>
    contents KI D' = (contents KI D)(x := None) \<and> NumBuckets D' = NumBuckets D"
proof -
  obtain q where q: "LookupBucketFor KI D x = Some (Inr (x \<in> dom (contents KI D), q))" "located KI D x q"
    by (rule lookup_any [OF ok x])
  show ?thesis
  proof (cases "x \<in> dom (contents KI D)")
    case False
    then have "contents KI D = (contents KI D)(x := None)" by (auto simp: fun_eq_iff)
    then show ?thesis using q(1) False ok by (simp add: erase_def)
  next
    case True
    then obtain p k where p: "q = Some p" "table KI k D" "p \<in> live_buckets KI D" "key_at D p = x"
      by (rule locatedD [OF q(2)]) blast
    have load: "4 * card (live_buckets KI D) < 3 * 2 ^ k"
      using ok p(2) no_table_not table_unique unfolding dense_ok_def by metis
    let ?D = "D\<lparr>Buckets := (Buckets D)[p := (getTombstoneKey KI, None)], NumEntries := NumEntries D - 1,
      NumTombstones := NumTombstones D + 1\<rparr>"
    note R = remove_spec [OF p(2,3) refl]
    have "card (live_buckets KI ?D) \<le> card (live_buckets KI D)" unfolding R(3) by (rule card_Diff1_le)
    then have "dense_ok KI ?D" using R(1) load by (auto simp: dense_ok_def intro!: exI [of _ k])
    moreover have "erase KI x D = Some (Inr (?D, True))" using q(1) True p(1) by (simp add: erase_def)
    ultimately show ?thesis using True R(2) p(4) by auto
  qed
qed

end

context dense_growth
begin

lemma try_emplace_spec:
  assumes ok: "dense_ok KI D" and small: "unat (NumBuckets D) \<le> 2 ^ 30" and x: "\<not> special KI x" and f: "fits D"
  shows "\<exists>D' p. try_emplace gr KI x v D = Some (Inr (D', Some p, x \<notin> dom (contents KI D))) \<and> dense_ok KI D' \<and>
    contents KI D' = (if x \<in> dom (contents KI D) then contents KI D else (contents KI D)(x \<mapsto> v)) \<and>
    p < length (Buckets D') \<and> Buckets D' ! p = (x, contents KI D' x) \<and>
    (x \<in> dom (contents KI D) \<longrightarrow> D' = D) \<and>
    (x \<notin> dom (contents KI D) \<longrightarrow> unat (NumBuckets D') =
      buckets_after (unat (NumBuckets D)) (card (dom (contents KI D))) (card (tomb_buckets KI D))) \<and>
    (tomb_buckets KI D = {} \<longrightarrow> tomb_buckets KI D' = {}) \<and> fits D'"
proof -
  obtain q where q: "LookupBucketFor KI D x = Some (Inr (x \<in> dom (contents KI D), q))" "located KI D x q"
    by (rule lookup_any [OF ok x])
  show ?thesis
  proof (cases "x \<in> dom (contents KI D)")
    case True
    then obtain p where p: "q = Some p" "p < length (Buckets D)" "Buckets D ! p = (x, contents KI D x)"
      by (rule locatedD [OF q(2)]) blast
    have "try_emplace gr KI x v D = Some (Inr (D, Some p, False))" using q(1) True p(1) by (simp add: try_emplace_def)
    then show ?thesis using p(2,3) ok True f by simp
  next
    case False
    have look: "LookupBucketFor KI D x = Some (Inr (False, q))" using q(1) False by simp
    from InsertIntoBucket_spec [OF ok small x False look f, of v] obtain D' p where
      I: "InsertIntoBucket gr KI q x v D = Some (Inr (D', p))" "dense_ok KI D'"
      "contents KI D' = (contents KI D)(x \<mapsto> v)" "p < length (Buckets D')" "Buckets D' ! p = (x, Some v)"
      "unat (NumBuckets D') = buckets_after (unat (NumBuckets D)) (card (dom (contents KI D))) (card (tomb_buckets KI D))"
      "tomb_buckets KI D = {} \<longrightarrow> tomb_buckets KI D' = {}" "fits D'" by blast
    then show ?thesis using False look by (intro exI [of _ D'] exI [of _ p]) (simp add: try_emplace_def)
  qed
qed

lemma FindAndConstruct_try_emplace:
  assumes "dense_ok KI D" "unat (NumBuckets D) \<le> 2 ^ 30" "\<not> special KI x"
  shows "FindAndConstruct gr d KI x D =
    map_option (\<lambda>r. case r of Inl e \<Rightarrow> Inl e | Inr (D', p, _) \<Rightarrow> Inr (D', p)) (try_emplace gr KI x d D)"
  by (simp add: FindAndConstruct_def try_emplace_def run_then_def split: option.splits sum.splits)

end

end
