(* ===== verification/LL_DM_Sizes.thy ===== *)
theory LL_DM_Sizes imports LL_DM_Find begin

text \<open>
  The sizes of the tables of \<open>ADT/DenseMap.h\<close>: what is reserved suffices; clearing and copying.
\<close>

section \<open>Reserved sizes\<close>

text \<open>The power of two that \<open>getMinBucketToReserveForEntries\<close> takes for \<open>n\<close> entries.\<close>

lemma getMinBucketToReserveForEntries_spec:
  assumes n: "0 < n" "n < 2 ^ 30"
  shows "\<exists>j < 32. getMinBucketToReserveForEntries (of_nat n) = of_nat (2 ^ j) \<and> 4 * n < 3 * 2 ^ j \<and>
    (2 :: nat) ^ j \<le> 2 * (4 * n div 3 + 1)"
proof -
  let ?m = "4 * n div 3 + 1"
  have u: "unat (of_nat n :: u32) = n" using n by (intro unat_small) simp
  have "unat (of_nat n * 4 :: u32) = n * 4" using n u by (subst unat_mult_small) simp_all
  then have "unat (of_nat n * 4 div 3 :: u32) = 4 * n div 3" by (simp add: unat_div mult.commute)
  then have m: "unat (of_nat n * 4 div 3 + 1 :: u32) = ?m" using n by (subst unat_add_small) simp_all
  obtain a where a: "2 ^ a \<le> ?m" "?m < 2 ^ (a + 1)" using ex_power_ivl1 [of 2 ?m] by auto
  have "(2 :: nat) ^ a < 2 ^ 31" using a(1) n by (intro le_less_trans [OF a(1)]) simp
  then have j: "a + 1 < 32" using power_less_imp_less_exp [of "2 :: nat" a 31] by simp
  have "NextPowerOf2 (ucast (of_nat n * 4 div 3 + 1 :: u32)) = push_bit (a + 1) 1"
    using a j by (intro NextPowerOf2_exact) (simp_all only: unat_zext m, simp_all)
  then have "getMinBucketToReserveForEntries (of_nat n) = of_nat (2 ^ (a + 1))"
    using u n by (simp only: getMinBucketToReserveForEntries_def ucast_exp unsigned_0) (auto simp del: of_nat_power)
  moreover have "4 * n < 3 * 2 ^ (a + 1)" using a(2) by linarith
  moreover have "(2 :: nat) ^ (a + 1) \<le> 2 * ?m" using a(1) by simp
  ultimately show ?thesis using j by blast
qed

lemma getMinBucketToReserveForEntries_0 [simp]: "getMinBucketToReserveForEntries 0 = 0"
  by (simp add: getMinBucketToReserveForEntries_def)

context dense_laws
begin

lemma init_map_0: "init_map KI 0 D = Inr (D\<lparr>NumBuckets := 0, Buckets := [], NumEntries := 0, NumTombstones := 0\<rparr>)"
  by (simp add: init_map_def allocateBuckets_def Let_def)

text \<open>A new table is empty and has room for the entries it is asked for.\<close>

lemma init_map_spec:
  assumes n: "n < 2 ^ 30"
  shows "\<exists>D'. init_map KI (of_nat n) D = Inr D' \<and> dense_ok KI D' \<and> contents KI D' = Map.empty \<and> tomb_buckets KI D' = {} \<and>
    NumBuckets D' = getMinBucketToReserveForEntries (of_nat n) \<and> NumEntries D' = 0"
proof (cases "n = 0")
  case True
  let ?D = "D\<lparr>NumBuckets := 0, Buckets := [], NumEntries := 0, NumTombstones := 0\<rparr>"
  have "no_table ?D" by (simp add: no_table_def)
  then show ?thesis
    using True by (simp add: init_map_0 dense_ok_def no_table_contents tomb_buckets_def)
next
  case False
  then obtain j where j: "j < 32" "getMinBucketToReserveForEntries (of_nat n) = of_nat (2 ^ j)"
    using getMinBucketToReserveForEntries_spec [of n] n by auto
  obtain D1 D' where D': "allocateBuckets KI (of_nat (2 ^ j)) D = (True, D1)" "initEmpty KI D1 = Inr D'" "table KI j D'"
    "contents KI D' = Map.empty" "live_buckets KI D' = {}" "tomb_buckets KI D' = {}"
    by (rule allocated_spec [OF j(1), of D])
  have "dense_ok KI D'" using D'(3,5) by (auto simp: dense_ok_def intro!: exI [of _ j])
  moreover have "NumEntries D' = 0" using tableD(7) [OF D'(3)] D'(5) by simp
  ultimately show ?thesis
    using D' tableD(2) [OF D'(3)] by (simp only: init_map_def j Let_def prod.case if_True) simp
qed

lemma reserve_spec:
  assumes ok: "dense_ok KI D" and n: "n < 2 ^ 30"
  shows "\<exists>D'. reserve (grow KI) KI (of_nat n) D = Some (Inr D') \<and> dense_ok KI D' \<and> contents KI D' = contents KI D \<and>
    (0 < n \<longrightarrow> 4 * n < 3 * unat (NumBuckets D'))"
proof (cases "n = 0")
  case True
  then show ?thesis using ok by (simp add: reserve_def)
next
  case False
  then obtain j where j: "j < 32" "getMinBucketToReserveForEntries (of_nat n) = of_nat (2 ^ j)" "4 * n < 3 * 2 ^ j"
    using getMinBucketToReserveForEntries_spec [of n] n by auto
  have uj: "unat (of_nat (2 ^ j) :: u32) = 2 ^ j" by (rule unat_size [OF j(1)])
  show ?thesis
  proof (cases "NumBuckets D < of_nat (2 ^ j)")
    case False
    then have "2 ^ j \<le> unat (NumBuckets D)" using uj by (simp add: word_less_nat_alt)
    moreover have "reserve (grow KI) KI (of_nat n) D = Some (Inr D)" using False by (simp add: reserve_def j del: of_nat_power)
    ultimately show ?thesis using ok j(3) by (auto intro: less_le_trans)
  next
    case True
    then have r: "reserve (grow KI) KI (of_nat n) D = grow KI (of_nat (2 ^ j)) D" by (simp add: reserve_def j del: of_nat_power)
    have j6: "max 6 j < 32" using j(1) by simp
    have le: "(2 :: nat) ^ j \<le> 2 ^ max 6 j" by (intro power_increasing) simp_all
    have "\<exists>D'. grow KI (of_nat (2 ^ j)) D = Some (Inr D') \<and> table KI (max 6 j) D' \<and> contents KI D' = contents KI D \<and>
        4 * card (live_buckets KI D') < 3 * 2 ^ max 6 j"
      using ok
    proof (cases rule: dense_ok_cases)
      case 1
      from grow_null_spec [OF 1 grown_size [OF j(1)] j6] obtain D' where
        D': "grow KI (of_nat (2 ^ j)) D = Some (Inr D')" "table KI (max 6 j) D'" "contents KI D' = Map.empty" by blast
      then show ?thesis using contents_card [OF D'(2)] no_table_contents [OF 1, of KI] by auto
    next
      case (2 k)
      have "2 ^ k < unat (of_nat (2 ^ j) :: u32)" using True table_size [OF 2(1)] by (simp add: word_less_nat_alt del: of_nat_power)
      then have kj: "(2 :: nat) ^ k < 2 ^ j" by (simp only: uj)
      have room: "card (live_buckets KI D) < 2 ^ max 6 j" using tableD(9) [OF 2(1)] kj le by linarith
      from grow_spec [OF 2(1) j(1) room] obtain D' where D': "grow KI (of_nat (2 ^ j)) D = Some (Inr D')"
        "table KI (max 6 j) D'" "contents KI D' = contents KI D" by blast
      moreover have "card (live_buckets KI D') = card (live_buckets KI D)"
        using contents_card [OF 2(1)] contents_card [OF D'(2)] D'(3) by simp
      moreover have "4 * card (live_buckets KI D) < 3 * 2 ^ max 6 j" using 2(2) kj le by linarith
      ultimately show ?thesis by metis
    qed
    then obtain D' where D': "grow KI (of_nat (2 ^ j)) D = Some (Inr D')" "table KI (max 6 j) D'"
      "contents KI D' = contents KI D" "4 * card (live_buckets KI D') < 3 * 2 ^ max 6 j" by blast
    have "4 * n < 3 * unat (NumBuckets D')" unfolding table_size [OF D'(2)] using j(3) le by linarith
    then show ?thesis using D' unfolding r dense_ok_def by blast
  qed
qed

section \<open>Ranges\<close>

text \<open>With room for what comes, no insertion changes the number of buckets.\<close>

lemma buckets_after_room: "4 * (n + 1) < 3 * N \<Longrightarrow> buckets_after N n 0 = N"
  by (auto simp: buckets_after_def)

end

context dense_growth
begin

lemma insert_range_spec:
  assumes "dense_ok KI D" "tomb_buckets KI D = {}" "unat (NumBuckets D) \<le> 2 ^ 30"
    and "I \<noteq> [] \<Longrightarrow> 4 * (card (dom (contents KI D)) + length I) < 3 * unat (NumBuckets D)" "\<forall>(x, v) \<in> set I. \<not> special KI x" "fits D"
  shows "\<exists>D'. insert_range gr KI I D = Some (Inr D') \<and> dense_ok KI D' \<and> contents KI D' = map_of I ++ contents KI D \<and>
    NumBuckets D' = NumBuckets D"
  using assms
proof (induction I arbitrary: D)
  case (Cons a I)
  obtain x v where a: "a = (x, v)" by (cases a)
  have x: "\<not> special KI x" using Cons.prems(5) a by auto
  from try_emplace_spec [OF Cons.prems(1,3) x Cons.prems(6), of v] obtain D1 p where
    D1: "try_emplace gr KI x v D = Some (Inr (D1, Some p, x \<notin> dom (contents KI D)))" "dense_ok KI D1"
    "contents KI D1 = (if x \<in> dom (contents KI D) then contents KI D else (contents KI D)(x \<mapsto> v))"
    "x \<in> dom (contents KI D) \<longrightarrow> D1 = D"
    "x \<notin> dom (contents KI D) \<longrightarrow> unat (NumBuckets D1) =
      buckets_after (unat (NumBuckets D)) (card (dom (contents KI D))) (card (tomb_buckets KI D))"
    "tomb_buckets KI D1 = {}" "fits D1" using Cons.prems(2) by blast
  have nb: "NumBuckets D1 = NumBuckets D"
    using D1(4,5) Cons.prems(2,4) buckets_after_room [of "card (dom (contents KI D))" "unat (NumBuckets D)"]
    by (cases "x \<in> dom (contents KI D)") (auto simp: word_unat_eq_iff)
  have c: "card (dom (contents KI D1)) \<le> card (dom (contents KI D)) + 1"
    using card_insert_le_m1 [of "card (dom (contents KI D)) + 1" "dom (contents KI D)" x] by (simp add: D1(3))
  have "\<exists>D'. insert_range gr KI I D1 = Some (Inr D') \<and> dense_ok KI D' \<and> contents KI D' = map_of I ++ contents KI D1 \<and>
    NumBuckets D' = NumBuckets D1"
    by (rule Cons.IH [OF D1(2,6)]) (use Cons.prems c D1(7) in \<open>auto simp: nb\<close>)
  moreover have "map_of I ++ contents KI D1 = map_of (a # I) ++ contents KI D"
    by (auto simp: D1(3) a fun_eq_iff map_add_def split: option.splits)
  ultimately show ?case unfolding a by (simp only: insert_range.simps D1(1) run_then_simps prod.case nb)
qed simp

end

context dense_laws
begin

text \<open>A table made from a range is never built again.\<close>

lemma DenseMap_range_spec:
  fixes I :: "('k \<times> 'v) list"
  assumes n: "length I < 2 ^ 29" and k: "\<forall>(x, v) \<in> set I. \<not> special KI x"
  shows "\<exists>D. DenseMap_range KI I = Some (Inr D) \<and> dense_ok KI D \<and> contents KI D = map_of I \<and>
    NumBuckets D = getMinBucketToReserveForEntries (of_nat (length I))"
proof -
  have n30: "length I < 2 ^ 30" using n by simp
  obtain D0 :: "('k, 'v) dense_map" where D0: "DenseMap_new KI (of_nat (length I)) = Inr D0" "dense_ok KI D0" "contents KI D0 = Map.empty"
    "tomb_buckets KI D0 = {}" "NumBuckets D0 = getMinBucketToReserveForEntries (of_nat (length I))"
    using init_map_spec [OF n30] unfolding DenseMap_new_def by blast
  have "\<exists>D'. insert_range (grow KI) KI I D0 = Some (Inr D') \<and> dense_ok KI D' \<and> contents KI D' = map_of I ++ contents KI D0 \<and>
    NumBuckets D' = NumBuckets D0"
  proof (cases "I = []")
    case True
    then show ?thesis using D0(2,3) by simp
  next
    case False
    then obtain j where j: "j < 32" "getMinBucketToReserveForEntries (of_nat (length I)) = of_nat (2 ^ j)"
      "4 * length I < 3 * 2 ^ j" "(2 :: nat) ^ j \<le> 2 * (4 * length I div 3 + 1)"
      using getMinBucketToReserveForEntries_spec [of "length I"] n30 by auto
    have u: "unat (NumBuckets D0) = 2 ^ j" by (simp only: D0(5) j(2) unat_size [OF j(1)])
    have "(2 :: nat) ^ j < 2 ^ 31" using n by (intro le_less_trans [OF j(4)]) simp
    then have "j \<le> 30" using power_less_imp_less_exp [of "2 :: nat" j 31] by simp
    then have small: "unat (NumBuckets D0) \<le> 2 ^ 30" unfolding u by (intro power_increasing) simp_all
    show ?thesis by (rule dense_growth.insert_range_spec [OF grow_growth D0(2,4) small _ k]) (simp_all add: D0(3) u j(3))
  qed
  then show ?thesis using D0 by (simp add: DenseMap_range_def)
qed

section \<open>Clearing\<close>

lemma destroyAll_spec:
  assumes "NumBuckets D \<noteq> 0"
  shows "length (Buckets (destroyAll KI D)) = length (Buckets D)" "NumBuckets (destroyAll KI D) = NumBuckets D"
  using assms by (simp_all add: destroyAll_def)

end

lemma Log2_32_Ceil_spec:
  assumes "0 < n" "n \<le> 2 ^ m" "m < 31"
  shows "\<exists>L \<le> m. Log2_32_Ceil (of_nat n) = of_nat L"
proof -
  let ?w = "of_nat n - 1 :: u32"
  have lt: "(2 :: nat) ^ m \<le> 2 ^ 31" using assms(3) by (intro power_increasing) simp_all
  have u: "unat ?w = n - 1"
  proof -
    have "(1 :: u32) \<le> of_nat n" using assms lt unat_small [of n] by (simp add: word_le_nat_alt)
    then show ?thesis using assms lt unat_small [of n] by (simp add: unat_diff_small)
  qed
  have c: "clz ?w \<le> 32" "32 - clz ?w \<le> m"
  proof -
    show "clz ?w \<le> 32" using clz_bits(1) [of ?w] by (cases "?w = 0") auto
    show "32 - clz ?w \<le> m"
    proof (cases "?w = 0")
      case False
      have "(2 :: nat) ^ (31 - clz ?w) \<le> n - 1" using clz_interval(1) [OF False] u by simp
      also have "\<dots> < 2 ^ m" using assms by simp
      finally have "31 - clz ?w < m" by (rule power_less_imp_less_exp [rotated]) simp
      then show ?thesis by simp
    qed simp
  qed
  have "Log2_32_Ceil (of_nat n) = 32 - of_nat (clz ?w)"
    by (simp add: Log2_32_Ceil_def countLeadingZeros_clz)
  also have "\<dots> = of_nat (32 - clz ?w)" using c(1) by (simp add: of_nat_diff)
  finally show ?thesis using c(2) by blast
qed

context dense_laws
begin

lemma shrink_and_clear_spec:
  assumes t: "table KI k D" and k: "k \<le> 30" and few: "4 * card (live_buckets KI D) < 2 ^ k"
  shows "\<exists>D'. shrink_and_clear KI D = Inr D' \<and> dense_ok KI D' \<and> contents KI D' = Map.empty \<and> NumEntries D' = 0"
proof -
  let ?n = "card (live_buckets KI D)" and ?D = "destroyAll KI D"
  have nz: "NumBuckets D \<noteq> 0" using table_size [OF t] by auto
  have pk: "(2 :: nat) ^ k \<le> 2 ^ 30" using k by (intro power_increasing) simp_all
  have E: "NumEntries D = of_nat ?n" "unat (NumEntries D) = ?n"
    using tableD(7) [OF t] unat_small [of ?n] few pk by simp_all
  show ?thesis
  proof (cases "?n = 0")
    case True
    then have "NumEntries D = 0" using E(1) by simp
    then have "shrink_and_clear KI D = init_map KI 0 ?D"
      using nz destroyAll_spec(2) [OF nz] by (simp add: shrink_and_clear_def Let_def)
    then show ?thesis using init_map_spec [of 0 ?D] by auto
  next
    case False
    have k2: "2 \<le> k" using few False by (cases k; cases "k - 1") auto
    have "(2 :: nat) ^ (k - 2 + 2) = 4 * 2 ^ (k - 2)" by (simp only: power_add) simp
    then have "(2 :: nat) ^ k = 4 * 2 ^ (k - 2)" using k2 by (simp only: le_add_diff_inverse2)
    then have "?n \<le> 2 ^ (k - 2)" using few by linarith
    moreover have "0 < ?n" using False by (rule neq0_conv [THEN iffD1])
    moreover have "k - 2 < 31" using k by simp
    ultimately obtain L where L: "L \<le> k - 2" "Log2_32_Ceil (NumEntries D) = of_nat L"
      using Log2_32_Ceil_spec [of ?n "k - 2"] E(1) by metis
    let ?s = "L + 1"
    have s: "unat (Log2_32_Ceil (NumEntries D) + 1) = ?s"
      using unat_small [of ?s] L k k2 by (simp add: add.commute)
    have s31: "?s < 30" using L k k2 by simp
    have new: "(max 64 (push_bit ?s 1) :: u32) = of_nat (2 ^ max 6 ?s)"
      using max_exp [of ?s] s31 by (simp add: push_bit_eq_mult)
    have eq: "shrink_and_clear KI D =
        (if of_nat (2 ^ max 6 ?s) = NumBuckets D then initEmpty KI ?D else init_map KI (of_nat (2 ^ max 6 ?s)) ?D)"
      unfolding shrink_and_clear_def Let_def s new using False E s31 destroyAll_spec(2) [OF nz]
      by (auto simp: unat_eq_0 simp del: of_nat_power)
    show ?thesis
    proof (cases "of_nat (2 ^ max 6 ?s) = NumBuckets D")
      case True
      obtain D' where "initEmpty KI ?D = Inr D'" "table KI k D'" "contents KI D' = Map.empty"
        "live_buckets KI D' = {}" "tomb_buckets KI D' = {}"
        using initEmpty_spec [OF tableD(1) [OF t], of ?D] destroyAll_spec [OF nz] tableD(2,3) [OF t] by auto
      then show ?thesis using tableD(7) [of KI k D'] unfolding eq if_P [OF True] by (auto simp: dense_ok_def)
    next
      case False
      have "(2 :: nat) ^ max 6 ?s < 2 ^ 30" using s31 by (intro power_strict_increasing) simp_all
      from init_map_spec [OF this, of ?D] show ?thesis unfolding eq if_not_P [OF False] by blast
    qed
  qed
qed

end

end
