(* ===== verification/LL_DM_Props.thy ===== *)
theory LL_DM_Props imports LL_DM_Sizes begin

text \<open>
  Properties of \<open>ADT/DenseMap.h\<close>: refinement of a finite function, room for a range, clearing,
  copying and iteration.
\<close>

section \<open>Clearing and copying\<close>

text \<open>Without entries the table stands for the empty function.\<close>

lemma NumEntries_contents:
  assumes "dense_ok KI D"
  shows "unat (NumEntries D) = card (dom (contents KI D))" "NumEntries D = 0 \<longleftrightarrow> contents KI D = Map.empty"
proof -
  show c: "unat (NumEntries D) = card (dom (contents KI D))"
    using assms
  proof (cases rule: dense_ok_cases)
    case 1
    then show ?thesis by (simp add: no_table_contents) (simp add: no_table_def)
  next
    case (2 k)
    have "(2 :: nat) ^ k \<le> 2 ^ 31" using tableD(1) [OF 2(1)] by (intro power_increasing) simp_all
    then have "card (live_buckets KI D) < 2 ^ 32" using tableD(9) [OF 2(1)] by simp
    then show ?thesis by (simp only: tableD(7) [OF 2(1)] unat_small contents_card [OF 2(1)])
  qed
  then show "NumEntries D = 0 \<longleftrightarrow> contents KI D = Map.empty"
    by (metis card_eq_0_iff contents_finite dom_eq_empty_conv unat_eq_0)
qed

text \<open>What \<open>clear\<close> asks of the \<open>shrink_and_clear\<close> of a derived class.\<close>

locale dense_shrink = dense_growth KI gr fits for KI :: "'k dense_info" and gr :: "('k, 'v, 'z) growth" and fits +
  fixes shrink :: "('k, 'v, 'z) dense_base \<Rightarrow> stop + ('k, 'v, 'z) dense_base"
  assumes shrink_spec: "table KI k D \<Longrightarrow> fits D \<Longrightarrow> 6 < k \<Longrightarrow> k \<le> 30 \<Longrightarrow> 4 * card (live_buckets KI D) < 2 ^ k \<Longrightarrow>
      \<exists>D'. shrink D = Inr D' \<and> dense_ok KI D' \<and> contents KI D' = Map.empty \<and> NumEntries D' = 0 \<and> fits D'"
begin

lemma clear_map_spec:
  assumes ok: "dense_ok KI D" and small: "unat (NumBuckets D) \<le> 2 ^ 30" and f: "fits D"
  shows "\<exists>D'. clear_map shrink pod KI D = Inr D' \<and> dense_ok KI D' \<and> contents KI D' = Map.empty \<and> NumEntries D' = 0 \<and> fits D'"
proof (cases "NumEntries D = 0 \<and> NumTombstones D = 0")
  case True
  then show ?thesis using ok f NumEntries_contents(2) [OF ok] by (simp add: clear_map_def)
next
  case False
  then obtain k where t: "table KI k D" "4 * card (live_buckets KI D) < 3 * 2 ^ k"
    using ok by (auto simp: dense_ok_def no_table_def)
  have k: "k \<le> 30" using table_exp_le [OF t(1) small] .
  have pk: "(2 :: nat) ^ k \<le> 2 ^ 30" using k by (intro power_increasing) simp_all
  have E: "unat (NumEntries D) = card (live_buckets KI D)"
    using NumEntries_contents(1) [OF ok] contents_card [OF t(1)] by simp
  have few: "NumEntries D * 4 < NumBuckets D \<longleftrightarrow> 4 * card (live_buckets KI D) < 2 ^ k"
  proof -
    have "unat (NumEntries D * 4) = card (live_buckets KI D) * 4" using t(2) pk E by (subst unat_mult_small) simp_all
    then show ?thesis using table_size [OF t(1)] by (simp add: word_less_nat_alt mult.commute)
  qed
  show ?thesis
  proof (cases "NumEntries D * 4 < NumBuckets D \<and> 64 < NumBuckets D")
    case True
    then have "clear_map shrink pod KI D = shrink D" using False by (auto simp: clear_map_def)
    moreover have "6 < k"
    proof (rule ccontr)
      assume "\<not> 6 < k"
      then have "(2 :: nat) ^ k \<le> 2 ^ 6" by (intro power_increasing) simp_all
      then show False using True table_size [OF t(1)] by (simp add: word_less_nat_alt)
    qed
    ultimately show ?thesis using shrink_spec [OF t(1) f _ k] True few by simp
  next
    case no: False
    let ?B = "\<lambda>f. D\<lparr>NumEntries := 0, NumTombstones := 0, Buckets := map (\<lambda>B. (getEmptyKey KI, f B)) (Buckets D)\<rparr>"
    have wiped: "dense_ok KI (?B f)" "contents KI (?B f) = Map.empty" for f
    proof -
      have "table KI k (?B f)" "contents KI (?B f) = Map.empty" "live_buckets KI (?B f) = {}"
        by (rule blank_spec; use tableD(1-3) [OF t(1)] in \<open>auto simp del: of_nat_power\<close>)+
      then show "dense_ok KI (?B f)" "contents KI (?B f) = Map.empty" by (auto simp: dense_ok_def)
    qed
    have "NumEntries D - of_nat (length (filter (\<lambda>B. \<not> special KI (fst B)) (Buckets D))) = 0"
      using live_keys_distinct(2) [OF tableD(6) [OF t(1)]] tableD(7) [OF t(1)] by simp
    then have "\<exists>f. clear_map shrink pod KI D = Inr (?B f)"
      using False no by (cases pod) (auto simp: clear_map_def Let_def simp del: special_keys)
    then show ?thesis using wiped f by (auto simp: fits_frame)
  qed
qed

end

context dense_laws
begin

lemma shrink_dense: "dense_shrink KI (grow KI) (\<lambda>_. True) (shrink_and_clear KI)"
  using dense_growth.axioms(2) [OF grow_growth] shrink_and_clear_spec
  by (unfold_locales) (auto simp: dense_growth_axioms_def)

end

text \<open>A table is determined by its counts, its keys and the values of its live buckets.\<close>

lemma moved_bucket_simps [simp]:
  "fst (moved_bucket KI B) = fst B" "\<not> special KI (fst B) \<Longrightarrow> snd (moved_bucket KI B) = snd B"
  "moved_bucket KI (moved_bucket KI B) = moved_bucket KI B"
  by (simp_all add: moved_bucket_def)

lemma live_pairs_moved: "live_pairs KI (map (moved_bucket KI) bs) = live_pairs KI bs"
  by (induction bs) (auto simp: live_pairs_def)

lemma table_same:
  assumes t: "table KI k D"
    and n: "NumBuckets E = NumBuckets D" "NumEntries E = NumEntries D" "NumTombstones E = NumTombstones D"
    and b: "map (moved_bucket KI) (Buckets E) = map (moved_bucket KI) (Buckets D)"
  shows "table KI k E" "live_buckets KI E = live_buckets KI D"
proof -
  have len: "length (Buckets E) = length (Buckets D)" using b by (rule map_eq_imp_length_eq)
  have m: "moved_bucket KI (Buckets E ! p) = moved_bucket KI (Buckets D ! p)" if "p < length (Buckets D)" for p
    using b that len by (metis nth_map)
  have key: "key_at E p = key_at D p" if "p < length (Buckets D)" for p
    using arg_cong [OF m [OF that], of fst] by (simp add: key_at_def)
  show live: "live_buckets KI E = live_buckets KI D" using key by (auto simp: live_buckets_def len)
  have tomb: "tomb_buckets KI E = tomb_buckets KI D" using key by (auto simp: tomb_buckets_def len)
  have reach: "reached KI E k x p \<longleftrightarrow> reached KI D k x p" for x p
    using key tableD(3) [OF t] by (simp add: reached_def)
  have val: "snd (Buckets E ! p) = snd (Buckets D ! p)" if "p \<in> live_buckets KI D" for p
  proof -
    have "p < length (Buckets D)" "\<not> special KI (fst (Buckets D ! p))" using that by (simp_all add: live_buckets_def key_at_def)
    then show ?thesis using arg_cong [OF m, of p snd] key [of p] by (simp add: key_at_def moved_bucket_def)
  qed
  have lkey: "key_at E p = key_at D p" if "p \<in> live_buckets KI D" for p by (rule key [OF live_less [OF that]])
  have "inj_on (key_at E) (live_buckets KI D) = inj_on (key_at D) (live_buckets KI D)"
    by (intro inj_on_cong lkey)
  then show "table KI k E"
    using t unfolding table_def live tomb len n by (auto simp: reach lkey val)
qed

lemma dense_same:
  assumes ok: "dense_ok KI D"
    and n: "NumBuckets E = NumBuckets D" "NumEntries E = NumEntries D" "NumTombstones E = NumTombstones D"
    and b: "map (moved_bucket KI) (Buckets E) = map (moved_bucket KI) (Buckets D)"
  shows "dense_ok KI E" "contents KI E = contents KI D"
proof -
  show "contents KI E = contents KI D"
    unfolding contents_def using live_pairs_moved b by metis
  show "dense_ok KI E"
    using ok
  proof (cases rule: dense_ok_cases)
    case 1
    then have "no_table E" using n b by (simp add: no_table_def)
    then show ?thesis by (simp add: dense_ok_def)
  next
    case (2 k)
    then show ?thesis using table_same [OF 2(1) n b] by (auto simp: dense_ok_def)
  qed
qed

lemma copy_map_spec:
  assumes ok: "dense_ok KI other"
  shows "dense_ok KI (copy_map KI other D)" "contents KI (copy_map KI other D) = contents KI other"
    "Buckets (copy_map KI other D) = map (moved_bucket KI) (Buckets other)"
proof -
  let ?D = "copy_map KI other D"
  have D: "NumBuckets ?D = NumBuckets other \<and> NumEntries ?D = NumEntries other \<and>
      NumTombstones ?D = NumTombstones other \<and> Buckets ?D = map (moved_bucket KI) (Buckets other)"
    using ok
  proof (cases rule: dense_ok_cases)
    case 1
    then show ?thesis by (simp add: copy_map_def allocateBuckets_def no_table_def Let_def)
  next
    case (2 k)
    then have "NumBuckets other \<noteq> 0" using table_size [OF 2(1)] by auto
    then show ?thesis by (simp add: copy_map_def base_copyFrom_def allocateBuckets_def Let_def)
  qed
  then show "Buckets ?D = map (moved_bucket KI) (Buckets other)" by simp
  have b: "map (moved_bucket KI) (Buckets ?D) = map (moved_bucket KI) (Buckets other)" using D by (simp add: o_def)
  show "dense_ok KI ?D" "contents KI ?D = contents KI other"
    using dense_same [OF ok _ _ _ b] D by simp_all
qed

interpretation unsigned_map: dense_shrink DenseMapInfo_unsigned "grow DenseMapInfo_unsigned" "\<lambda>_. True"
  "shrink_and_clear DenseMapInfo_unsigned"
  by (rule unsigned_keys.shrink_dense)

section \<open>Iteration\<close>

lemma AdvancePastEmptyBuckets_facts:
  "P \<le> AdvancePastEmptyBuckets KI D P \<and>
   (P \<le> length (Buckets D) \<longrightarrow> AdvancePastEmptyBuckets KI D P \<le> length (Buckets D)) \<and>
   (\<forall>i. P \<le> i \<and> i < AdvancePastEmptyBuckets KI D P \<longrightarrow> i \<notin> live_buckets KI D) \<and>
   (AdvancePastEmptyBuckets KI D P < length (Buckets D) \<longrightarrow> AdvancePastEmptyBuckets KI D P \<in> live_buckets KI D)"
proof (induction KI D P rule: AdvancePastEmptyBuckets.induct)
  case (1 KI D P)
  show ?case
  proof (cases "P < length (Buckets D) \<and> special KI (fst (Buckets D ! P))")
    case True
    then have e: "AdvancePastEmptyBuckets KI D P = AdvancePastEmptyBuckets KI D (P + 1)"
      by (subst AdvancePastEmptyBuckets.simps) simp
    have "P \<notin> live_buckets KI D" using True by (simp add: live_buckets_def key_at_def)
    then have "i \<notin> live_buckets KI D" if "P \<le> i" "i < AdvancePastEmptyBuckets KI D (P + 1)" for i
      using 1 [OF True] that by (cases "i = P") simp_all
    then show ?thesis using 1 [OF True] True unfolding e by auto
  next
    case False
    then have "AdvancePastEmptyBuckets KI D P = P" by (subst AdvancePastEmptyBuckets.simps) auto
    then show ?thesis using False by (auto simp: live_buckets_def key_at_def)
  qed
qed

lemma AdvancePastEmptyBuckets_spec:
  "P \<le> AdvancePastEmptyBuckets KI D P"
  "P \<le> i \<Longrightarrow> i < AdvancePastEmptyBuckets KI D P \<Longrightarrow> i \<notin> live_buckets KI D"
  "AdvancePastEmptyBuckets KI D P < length (Buckets D) \<Longrightarrow> AdvancePastEmptyBuckets KI D P \<in> live_buckets KI D"
  using AdvancePastEmptyBuckets_facts [of P KI D] by blast+

lemma map_next_later: "I < map_next KI D I"
  using AdvancePastEmptyBuckets_spec(1) [of "Suc I" KI D] by (simp add: map_next_def)

text \<open>The positions of the loop \<open>for (I = begin(); I != end(); ++I)\<close>.\<close>

function positions :: "'k dense_info \<Rightarrow> ('k, 'v, 'z) dense_base \<Rightarrow> nat \<Rightarrow> nat list" where
  "positions KI D I = (if I < length (Buckets D) then I # positions KI D (map_next KI D I) else [])"
  by pat_completeness auto
termination
  by (relation "measure (\<lambda>(KI, D, I). length (Buckets D) - I)")
    (auto intro: diff_less_mono2 map_next_later)

declare positions.simps [simp del]

lemma positions_advance:
  "positions KI D (AdvancePastEmptyBuckets KI D P) = filter (\<lambda>p. p \<in> live_buckets KI D) [P..<length (Buckets D)]"
proof (induction "length (Buckets D) - P" arbitrary: P rule: less_induct)
  case less
  let ?Q = "AdvancePastEmptyBuckets KI D P"
  note A = AdvancePastEmptyBuckets_spec [where P = P and KI = KI and D = D]
  show ?case
  proof (cases "?Q < length (Buckets D)")
    case True
    have "[P..<length (Buckets D)] = [P..<?Q] @ [?Q..<length (Buckets D)]"
      using A(1) True by (metis upt_add_eq_append le_add_diff_inverse less_imp_le_nat)
    then have "[P..<length (Buckets D)] = [P..<?Q] @ ?Q # [Suc ?Q..<length (Buckets D)]"
      using True by (simp only: upt_conv_Cons)
    moreover have "filter (\<lambda>p. p \<in> live_buckets KI D) [P..<?Q] = []" using A(2) by (auto simp: filter_empty_conv)
    moreover have "positions KI D (map_next KI D ?Q) = filter (\<lambda>p. p \<in> live_buckets KI D) [Suc ?Q..<length (Buckets D)]"
      unfolding map_next_def Suc_eq_plus1 [symmetric] using A(1) True by (intro less) simp
    ultimately show ?thesis using True A(3) by (subst positions.simps) simp
  next
    case False
    then have "filter (\<lambda>p. p \<in> live_buckets KI D) [P..<length (Buckets D)] = []"
      using A(2) by (auto simp: filter_empty_conv)
    then show ?thesis using False by (subst positions.simps) simp
  qed
qed

lemma positions_spec:
  assumes "dense_ok KI D"
  shows "positions KI D (map_begin KI D) = filter (\<lambda>p. p \<in> live_buckets KI D) [0..<length (Buckets D)]"
proof (cases "NumEntries D = 0")
  case True
  then have "contents KI D = Map.empty" using NumEntries_contents(2) [OF assms] by simp
  then have "live_buckets KI D = {}" using contents_dom [of KI D] by simp
  then show ?thesis using True by (simp add: map_begin_def positions.simps)
next
  case False
  then show ?thesis by (simp add: map_begin_def positions_advance)
qed

section \<open>Properties\<close>

text \<open>
  C36. A table that keeps the invariant stands for a finite function, whatever the hash function.
  \<open>try_emplace\<close> adds the pair unless the key is there, keeps what is there, and returns the bucket
  that holds the key and whether it was added; \<open>erase\<close> removes the key and says whether it was
  there; \<open>lookup\<close> gives the value or the default, \<open>find\<close> the bucket or \<open>end()\<close>.  Every call returns,
  whatever was inserted and erased before, and keeps the invariant.
\<close>

theorem DenseMap_refines_function:
  assumes "dense_laws KI" "dense_ok KI D" "unat (NumBuckets D) \<le> 2 ^ 30" "\<not> special KI x"
  shows "(\<exists>D' p. try_emplace (grow KI) KI x v D = Some (Inr (D', Some p, contents KI D x = None)) \<and> dense_ok KI D' \<and>
      contents KI D' = (if contents KI D x = None then (contents KI D)(x \<mapsto> v) else contents KI D) \<and>
      p < length (Buckets D') \<and> Buckets D' ! p = (x, contents KI D' x)) \<and>
    (\<exists>D'. erase KI x D = Some (Inr (D', contents KI D x \<noteq> None)) \<and> dense_ok KI D' \<and>
      contents KI D' = (contents KI D)(x := None)) \<and>
    lookup_value d KI x D = Some (Inr (case contents KI D x of Some w \<Rightarrow> w | None \<Rightarrow> d)) \<and>
    (\<exists>p. find_key KI x D = Some (Inr p) \<and>
      (case contents KI D x of
         None \<Rightarrow> p = unat (NumBuckets D)
       | Some w \<Rightarrow> p < length (Buckets D) \<and> Buckets D ! p = (x, Some w))) \<and>
    unat (NumEntries D) = card (dom (contents KI D))"
proof (intro conjI)
  from dense_growth.try_emplace_spec [OF dense_laws.grow_growth [OF assms(1)] assms(2-4) TrueI, of v] obtain D' p where
    "try_emplace (grow KI) KI x v D = Some (Inr (D', Some p, x \<notin> dom (contents KI D)))" "dense_ok KI D'"
    "contents KI D' = (if x \<in> dom (contents KI D) then contents KI D else (contents KI D)(x \<mapsto> v))"
    "p < length (Buckets D')" "Buckets D' ! p = (x, contents KI D' x)" by blast
  then show "\<exists>D' p. try_emplace (grow KI) KI x v D = Some (Inr (D', Some p, contents KI D x = None)) \<and> dense_ok KI D' \<and>
      contents KI D' = (if contents KI D x = None then (contents KI D)(x \<mapsto> v) else contents KI D) \<and>
      p < length (Buckets D') \<and> Buckets D' ! p = (x, contents KI D' x)"
    by (intro exI [of _ D'] exI [of _ p]) (auto simp: domIff)
  show "\<exists>D'. erase KI x D = Some (Inr (D', contents KI D x \<noteq> None)) \<and> dense_ok KI D' \<and>
      contents KI D' = (contents KI D)(x := None)"
    using dense_laws.erase_spec [OF assms(1,2,4)] by (auto simp: domIff)
  show "lookup_value d KI x D = Some (Inr (case contents KI D x of Some w \<Rightarrow> w | None \<Rightarrow> d))"
    by (rule dense_laws.lookup_value_spec [OF assms(1,2,4)])
  show "\<exists>p. find_key KI x D = Some (Inr p) \<and>
      (case contents KI D x of
         None \<Rightarrow> p = unat (NumBuckets D)
       | Some w \<Rightarrow> p < length (Buckets D) \<and> Buckets D ! p = (x, Some w))"
    by (rule dense_laws.find_key_spec [OF assms(1,2,4)])
  show "unat (NumEntries D) = card (dom (contents KI D))" by (rule NumEntries_contents(1) [OF assms(2)])
qed

text \<open>A table of two unsigned keys, built from a range.\<close>

lemma DenseMap_refines_function_witness:
  "\<exists>D D' D'' :: (u32, string) dense_map. DenseMap_range DenseMapInfo_unsigned [(3, ''a''), (40, ''b'')] = Some (Inr D) \<and>
    (\<exists>p. try_emplace (grow DenseMapInfo_unsigned) DenseMapInfo_unsigned 3 ''c'' D = Some (Inr (D', Some p, False)) \<and> Buckets D' ! p = (3, Some ''a'')) \<and>
    erase DenseMapInfo_unsigned 3 D = Some (Inr (D'', True)) \<and>
    contents DenseMapInfo_unsigned D'' = [40 \<mapsto> ''b''] \<and>
    lookup_value [] DenseMapInfo_unsigned 3 D = Some (Inr ''a'')"
proof -
  have s: "\<not> special DenseMapInfo_unsigned x" if "x \<in> {3, 40}" for x
    using that by (auto simp: is_empty_key_def is_tombstone_def DenseMapInfo_unsigned_def)
  have r: "getMinBucketToReserveForEntries 2 = 4" by code_simp
  obtain D :: "(u32, string) dense_map" where D: "DenseMap_range DenseMapInfo_unsigned [(3, ''a''), (40, ''b'')] = Some (Inr D)"
    "dense_ok DenseMapInfo_unsigned D" "contents DenseMapInfo_unsigned D = [40 \<mapsto> ''b'', 3 \<mapsto> ''a'']"
    "NumBuckets D = 4"
    using unsigned_keys.DenseMap_range_spec [of "[(3, ''a''), (40, ''b'')]"] s r by auto
  have n: "unat (NumBuckets D) \<le> 2 ^ 30" unfolding D(4) by simp
  note R = DenseMap_refines_function [OF unsigned_keys.dense_laws_axioms D(2) n s [of 3]]
  have c: "contents DenseMapInfo_unsigned D 3 = Some ''a''"
    "(contents DenseMapInfo_unsigned D)(3 := None) = [40 \<mapsto> ''b'']" by (auto simp: D(3) fun_eq_iff)
  obtain D' p where D': "try_emplace (grow DenseMapInfo_unsigned) DenseMapInfo_unsigned 3 ''c'' D = Some (Inr (D', Some p, False))"
    "Buckets D' ! p = (3, Some ''a'')"
    using R [of "''c''" "[]"] c(1) by auto
  obtain D'' where "erase DenseMapInfo_unsigned 3 D = Some (Inr (D'', True))"
    "contents DenseMapInfo_unsigned D'' = [40 \<mapsto> ''b'']"
    using R [of "''c''" "[]"] c by auto
  moreover have "lookup_value [] DenseMapInfo_unsigned 3 D = Some (Inr ''a'')" using R [of "''c''" "[]"] c(1) by simp
  ultimately show ?thesis using D(1) D' by blast
qed

text \<open>
  A table constructed from a range keeps the first pair of each key, and is never built again
  while the range is inserted: it has the buckets \<open>getMinBucketToReserveForEntries\<close> asked for.
  \<open>reserve\<close> keeps the pairs and leaves room for the entries asked for.
\<close>

theorem DenseMap_reserves_enough:
  fixes I :: "('k \<times> 'v) list"
  assumes "dense_laws KI" "length I < 2 ^ 29" "\<forall>(x, v) \<in> set I. \<not> special KI x" "dense_ok KI D" "n < 2 ^ 30"
  shows "(\<exists>D'. DenseMap_range KI I = Some (Inr D') \<and> dense_ok KI D' \<and> contents KI D' = map_of I \<and>
      NumBuckets D' = getMinBucketToReserveForEntries (of_nat (length I))) \<and>
    (\<exists>D'. reserve (grow KI) KI (of_nat n) D = Some (Inr D') \<and> dense_ok KI D' \<and> contents KI D' = contents KI D \<and>
      (0 < n \<longrightarrow> 4 * n < 3 * unat (NumBuckets D')))"
  by (intro conjI dense_laws.DenseMap_range_spec [OF assms(1-3)] dense_laws.reserve_spec [OF assms(1,4,5)])

lemma DenseMap_reserves_enough_witness:
  "\<exists>D D' :: (u64, nat) dense_map.
    DenseMap_range DenseMapInfo_unsigned_long [(7, 1), (8, 2), (7, 3)] = Some (Inr D) \<and> NumBuckets D = 8 \<and>
    contents DenseMapInfo_unsigned_long D = [8 \<mapsto> 2, 7 \<mapsto> 1] \<and>
    reserve (grow DenseMapInfo_unsigned_long) DenseMapInfo_unsigned_long 48 D = Some (Inr D') \<and> 64 < unat (NumBuckets D')"
proof -
  have s: "\<forall>(x, v) \<in> set [(7, 1), (8, 2), (7, 3 :: nat)]. \<not> special DenseMapInfo_unsigned_long x"
    by (auto simp: is_empty_key_def is_tombstone_def DenseMapInfo_unsigned_long_def)
  have r: "getMinBucketToReserveForEntries 3 = 8" by code_simp
  obtain D where D: "DenseMap_range DenseMapInfo_unsigned_long [(7, 1), (8, 2), (7, 3 :: nat)] = Some (Inr D)"
    "dense_ok DenseMapInfo_unsigned_long D" "contents DenseMapInfo_unsigned_long D = [8 \<mapsto> 2, 7 \<mapsto> 1]" "NumBuckets D = 8"
    using unsigned_long_keys.DenseMap_range_spec [OF _ s] r by (auto simp: fun_eq_iff)
  have "\<exists>D'. reserve (grow DenseMapInfo_unsigned_long) DenseMapInfo_unsigned_long (of_nat 48) D = Some (Inr D') \<and>
      4 * (48 :: nat) < 3 * unat (NumBuckets D')"
    using DenseMap_reserves_enough [OF unsigned_long_keys.dense_laws_axioms _ s D(2), of 48] by auto
  then show ?thesis using D by auto
qed

text \<open>
  Iteration from \<open>begin()\<close> to \<open>end()\<close> comes to every pair of the table once and to nothing
  else; \<open>clear\<close> leaves no entry, for trivial types and for others, when it shrinks the table and when
  it does not; a copy has the pairs of the original, in the same buckets.
\<close>

theorem DenseMap_iterates_clears_copies:
  assumes "dense_laws KI" "dense_ok KI D" "unat (NumBuckets D) \<le> 2 ^ 30"
  shows "distinct (positions KI D (map_begin KI D)) \<and>
    (\<lambda>p. Buckets D ! p) ` set (positions KI D (map_begin KI D)) = {(x, Some v) | x v. contents KI D x = Some v} \<and>
    (\<exists>D'. clear_map (shrink_and_clear KI) pod KI D = Inr D' \<and> dense_ok KI D' \<and> contents KI D' = Map.empty \<and> NumEntries D' = 0) \<and>
    dense_ok KI (copy_map KI D E) \<and> contents KI (copy_map KI D E) = contents KI D \<and>
    map fst (Buckets (copy_map KI D E)) = map fst (Buckets D)"
proof (intro conjI)
  have P: "set (positions KI D (map_begin KI D)) = live_buckets KI D"
    using live_less by (auto simp: positions_spec [OF assms(2)])
  show "distinct (positions KI D (map_begin KI D))" by (simp add: positions_spec [OF assms(2)])
  have "(\<lambda>p. Buckets D ! p) ` live_buckets KI D = {(x, Some v) | x v. contents KI D x = Some v}"
    using assms(2)
  proof (cases rule: dense_ok_cases)
    case 1
    then have "live_buckets KI D = {}" by (simp add: no_table_def live_buckets_def)
    then show ?thesis using 1 by (simp add: no_table_contents)
  next
    case (2 k)
    have "Buckets D ! p = (key_at D p, contents KI D (key_at D p))" if "p \<in> live_buckets KI D" for p
      using contents_at [OF 2(1) that] by (simp add: key_at_def prod_eq_iff)
    moreover have "\<exists>p \<in> live_buckets KI D. key_at D p = x" if "contents KI D x = Some v" for x v
      using that contents_dom [of KI D] by (metis domI imageE)
    moreover have "contents KI D (key_at D p) \<noteq> None" if "p \<in> live_buckets KI D" for p
      using contents_dom [of KI D] that by (metis domIff imageI)
    ultimately show ?thesis by (force simp: image_iff)
  qed
  then show "(\<lambda>p. Buckets D ! p) ` set (positions KI D (map_begin KI D)) = {(x, Some v) | x v. contents KI D x = Some v}"
    by (simp only: P)
  show "\<exists>D'. clear_map (shrink_and_clear KI) pod KI D = Inr D' \<and> dense_ok KI D' \<and> contents KI D' = Map.empty \<and> NumEntries D' = 0"
    using dense_shrink.clear_map_spec [OF dense_laws.shrink_dense [OF assms(1)] assms(2,3) TrueI] by blast
  note C = copy_map_spec [OF assms(2), of E]
  show "dense_ok KI (copy_map KI D E)" "contents KI (copy_map KI D E) = contents KI D" by (rule C)+
  show "map fst (Buckets (copy_map KI D E)) = map fst (Buckets D)" by (simp add: C(3))
qed

lemma DenseMap_iterates_clears_copies_witness:
  "\<exists>D D' :: (u32, nat) dense_map. DenseMap_range DenseMapInfo_unsigned [(5, 6)] = Some (Inr D) \<and>
    (\<lambda>p. Buckets D ! p) ` set (positions DenseMapInfo_unsigned D (map_begin DenseMapInfo_unsigned D)) = {(5, Some 6)} \<and>
    clear_map (shrink_and_clear DenseMapInfo_unsigned) True DenseMapInfo_unsigned D = Inr D' \<and> NumEntries D' = 0 \<and>
    contents DenseMapInfo_unsigned (copy_map DenseMapInfo_unsigned D D') = [5 \<mapsto> 6]"
proof -
  have s: "\<forall>(x, v) \<in> set [(5, 6 :: nat)]. \<not> special DenseMapInfo_unsigned x"
    by (auto simp: is_empty_key_def is_tombstone_def DenseMapInfo_unsigned_def)
  have r: "getMinBucketToReserveForEntries 1 = 4" by code_simp
  obtain D where D: "DenseMap_range DenseMapInfo_unsigned [(5, 6 :: nat)] = Some (Inr D)" "dense_ok DenseMapInfo_unsigned D"
    "contents DenseMapInfo_unsigned D = [5 \<mapsto> 6]" "NumBuckets D = 4"
    using unsigned_keys.DenseMap_range_spec [OF _ s] r by auto
  have n: "unat (NumBuckets D) \<le> 2 ^ 30" unfolding D(4) by simp
  note R = DenseMap_iterates_clears_copies [OF unsigned_keys.dense_laws_axioms D(2) n]
  have e: "{(x, Some v) | x v. [5 \<mapsto> 6] x = Some v} = {(5 :: u32, Some (6 :: nat))}" by (auto split: if_splits)
  obtain D' where "clear_map (shrink_and_clear DenseMapInfo_unsigned) True DenseMapInfo_unsigned D = Inr D'" "NumEntries D' = 0" using R by blast
  moreover have "(\<lambda>p. Buckets D ! p) ` set (positions DenseMapInfo_unsigned D (map_begin DenseMapInfo_unsigned D)) = {(5, Some 6)}"
    using R unfolding D(3) e by blast
  moreover have "contents DenseMapInfo_unsigned (copy_map DenseMapInfo_unsigned D D') = [5 \<mapsto> 6]"
    using R [of True D'] D(3) by simp
  ultimately show ?thesis using D(1) by blast
qed

section \<open>Sizes\<close>

text \<open>
  The size for 48 entries, of which the comment in the code says 401; and the 64 buckets that
  \<open>shrink_and_clear\<close> asks for, which \<open>init\<close> takes for a number of entries and doubles.
\<close>

lemma reserved_sizes:
  "getMinBucketToReserveForEntries 48 = 128" "getMinBucketToReserveForEntries 64 = 128"
  by code_simp+

end
