(* ===== verification/LL_SmallDenseMap.thy ===== *)
theory LL_SmallDenseMap imports LL_DM_Props begin

text \<open>
  \<open>SmallDenseMap\<close> of \<open>ADT/DenseMap.h\<close>: a table whose buckets are inside the object while there are no
  more than \<open>InlineBuckets\<close> of them.  \<open>Buckets\<close> and \<open>NumBuckets\<close> of the record are what \<open>getBuckets\<close> and
  \<open>getNumBuckets\<close> give for either representation; the new field tells which one it is.  The number
  of inline buckets, a template argument, is an argument \<open>ib\<close>.  \<open>NumEntries\<close> has 31 bits, which hold
  the entries of every table of up to \<open>2 ^ 31\<close> buckets.
\<close>

record ('k, 'v) small_map = "('k, 'v) dense_map" +
  Small :: bool

section \<open>Representations\<close>

text \<open>The inline buckets, not initialised, and a large representation, which has to be larger.\<close>

definition inline_rep :: "u32 \<Rightarrow> 'k dense_info \<Rightarrow> ('k, 'v) small_map \<Rightarrow> ('k, 'v) small_map" where
  "inline_rep ib KI D =
     D\<lparr>Small := True, NumBuckets := ib, Buckets := replicate (unat ib) (getEmptyKey KI, None)\<rparr>"

definition small_allocateBuckets ::
  "u32 \<Rightarrow> 'k dense_info \<Rightarrow> u32 \<Rightarrow> ('k, 'v) small_map \<Rightarrow> stop + ('k, 'v) small_map" where
  "small_allocateBuckets ib KI Num D =
     (if \<not> Num > ib then Inl Abort
      else Inr (D\<lparr>Small := False, NumBuckets := Num, Buckets := replicate (unat Num) (getEmptyKey KI, None)\<rparr>))"

definition small_init :: "u32 \<Rightarrow> 'k dense_info \<Rightarrow> u32 \<Rightarrow> ('k, 'v) small_map \<Rightarrow> stop + ('k, 'v) small_map" where
  "small_init ib KI InitBuckets D =
     (let D = inline_rep ib KI D in
      then_do (if InitBuckets > ib then small_allocateBuckets ib KI InitBuckets D else Inr D) (initEmpty KI))"

definition SmallDenseMap_new :: "u32 \<Rightarrow> 'k dense_info \<Rightarrow> u32 \<Rightarrow> stop + ('k, 'v) small_map" where
  "SmallDenseMap_new ib KI NumInitBuckets = small_init ib KI NumInitBuckets
     \<lparr>Buckets = [], NumEntries = 0, NumTombstones = 0, NumBuckets = 0, Small = True\<rparr>"

section \<open>Growth\<close>

text \<open>
  The inline buckets with a key and a value go to a temporary array first; before each, there has to
  be room in it.
\<close>

definition small_grow :: "u32 \<Rightarrow> 'k dense_info \<Rightarrow> u32 \<Rightarrow> ('k, 'v) small_map \<Rightarrow> (stop + ('k, 'v) small_map) option" where
  "small_grow ib KI AtLeast D =
     (let AtLeast = (if AtLeast \<ge> ib then max 64 (ucast (NextPowerOf2 (ucast (AtLeast - 1)))) else AtLeast) in
      if Small D then
        if AtLeast < ib then Some (Inr D)
        else
          let Tmp = filter (\<lambda>B. \<not> special KI (fst B)) (Buckets D) in
          if unat ib < length Tmp then Some (Inl Abort)
          else run_then (Some (small_allocateBuckets ib KI AtLeast D)) (moveFromOldBuckets KI Tmp)
      else
        let OldRep = Buckets D in
        run_then (Some (if AtLeast \<le> ib then Inr (inline_rep ib KI D) else small_allocateBuckets ib KI AtLeast D))
          (moveFromOldBuckets KI OldRep))"

definition small_shrink_and_clear :: "u32 \<Rightarrow> 'k dense_info \<Rightarrow> ('k, 'v) small_map \<Rightarrow> stop + ('k, 'v) small_map" where
  "small_shrink_and_clear ib KI D =
     (let OldSize = NumEntries D;
          D = destroyAll KI D;
          shift = unat (Log2_32_Ceil OldSize + 1);
          New = (if OldSize \<noteq> 0 then push_bit shift 1 else 0);
          New = (if OldSize \<noteq> 0 \<and> New > ib \<and> New < 64 then 64 else New)
      in if OldSize \<noteq> 0 \<and> 31 \<le> shift then Inl Undefined
         else if Small D \<and> New \<le> ib \<or> \<not> Small D \<and> New = NumBuckets D then initEmpty KI D
         else small_init ib KI New D)"

definition SmallDenseMap_range ::
  "u32 \<Rightarrow> 'k dense_info \<Rightarrow> ('k \<times> 'v) list \<Rightarrow> (stop + ('k, 'v) small_map) option" where
  "SmallDenseMap_range ib KI I =
     run_then (Some (SmallDenseMap_new ib KI (ucast (NextPowerOf2 (of_nat (length I))))))
       (insert_range (small_grow ib KI) KI I)"

section \<open>Copying and swapping\<close>

definition small_copyFrom ::
  "u32 \<Rightarrow> 'k dense_info \<Rightarrow> ('k, 'v) small_map \<Rightarrow> ('k, 'v) small_map \<Rightarrow> stop + ('k, 'v) small_map" where
  "small_copyFrom ib KI other D =
     (let D = inline_rep ib KI (destroyAll KI D) in
      then_do (if NumBuckets other > ib then small_allocateBuckets ib KI (NumBuckets other) D else Inr D) (\<lambda>D.
      if NumBuckets D \<noteq> NumBuckets other then Inl Abort else Inr (base_copyFrom KI other D)))"

text \<open>
  Two inline arrays exchange their keys; a value moves with its key, and is gone where it was.
\<close>

definition swap_bucket :: "'k dense_info \<Rightarrow> ('k, 'v) bucket \<times> ('k, 'v) bucket \<Rightarrow> ('k, 'v) bucket \<times> ('k, 'v) bucket" where
  "swap_bucket KI = (\<lambda>(LHSB, RHSB).
     let hasLHSValue = (\<not> special KI (fst LHSB)); hasRHSValue = (\<not> special KI (fst RHSB)) in
     if hasLHSValue \<and> hasRHSValue then (RHSB, LHSB)
     else if hasLHSValue then ((fst RHSB, None), (fst LHSB, snd LHSB))
     else if hasRHSValue then ((fst RHSB, snd RHSB), (fst LHSB, None))
     else ((fst RHSB, snd LHSB), (fst LHSB, snd RHSB)))"

text \<open>With one of each kind, the inline buckets move to the large side and its array to the small side.\<close>

definition small_swap :: "u32 \<Rightarrow> 'k dense_info \<Rightarrow> ('k, 'v) small_map \<times> ('k, 'v) small_map \<Rightarrow> ('k, 'v) small_map \<times> ('k, 'v) small_map" where
  "small_swap ib KI = (\<lambda>(this, RHS).
     let L = this\<lparr>NumEntries := NumEntries RHS, NumTombstones := NumTombstones RHS\<rparr>;
         R = RHS\<lparr>NumEntries := NumEntries this, NumTombstones := NumTombstones this\<rparr>;
         move = (\<lambda>SmallSide LargeSide.
           (SmallSide\<lparr>Small := False, Buckets := Buckets LargeSide, NumBuckets := NumBuckets LargeSide\<rparr>,
            LargeSide\<lparr>Small := True, Buckets := map (moved_bucket KI) (Buckets SmallSide), NumBuckets := ib\<rparr>))
     in if Small L \<and> Small R then
          let BB = map (swap_bucket KI) (zip (Buckets L) (Buckets R)) in
          (L\<lparr>Buckets := map fst BB\<rparr>, R\<lparr>Buckets := map snd BB\<rparr>)
        else if \<not> Small L \<and> \<not> Small R then
          (L\<lparr>Buckets := Buckets R, NumBuckets := NumBuckets R\<rparr>, R\<lparr>Buckets := Buckets L, NumBuckets := NumBuckets L\<rparr>)
        else if Small L then move L R
        else prod.swap (move R L))"

text \<open>The copy constructor, the move constructor and the move assignment, which give the other map back as well.\<close>

definition SmallDenseMap_copy :: "u32 \<Rightarrow> 'k dense_info \<Rightarrow> ('k, 'v) small_map \<Rightarrow> stop + ('k, 'v) small_map" where
  "SmallDenseMap_copy ib KI other = then_do (SmallDenseMap_new ib KI 0) (small_copyFrom ib KI other)"

definition SmallDenseMap_move ::
  "u32 \<Rightarrow> 'k dense_info \<Rightarrow> ('k, 'v) small_map \<Rightarrow> stop + ('k, 'v) small_map \<times> ('k, 'v) small_map" where
  "SmallDenseMap_move ib KI other =
     then_do (SmallDenseMap_new ib KI 0) (\<lambda>D. Inr (small_swap ib KI (D, other)))"

definition small_move_assign ::
  "u32 \<Rightarrow> 'k dense_info \<Rightarrow> ('k, 'v) small_map \<Rightarrow> ('k, 'v) small_map \<Rightarrow> stop + ('k, 'v) small_map \<times> ('k, 'v) small_map" where
  "small_move_assign ib KI other D =
     then_do (small_init ib KI 0 (destroyAll KI D)) (\<lambda>D. Inr (small_swap ib KI (D, other)))"

end
