(* ===== verification/LL_SDM_Props.thy ===== *)
theory LL_SDM_Props imports LL_SmallDenseMap begin

text \<open>
  \<open>SmallDenseMap\<close> of \<open>ADT/DenseMap.h\<close> keeps the contracts that the operations of \<open>DenseMapBase\<close> ask of
  it, with fewer than 64 inline buckets; with 64 it breaks one.
\<close>

section \<open>The representation\<close>

definition small_fits :: "u32 \<Rightarrow> ('k, 'v) small_map \<Rightarrow> bool" where
  "small_fits ib D \<longleftrightarrow> (if Small D then NumBuckets D = ib else ib < NumBuckets D)"

definition small_ok :: "u32 \<Rightarrow> 'k dense_info \<Rightarrow> ('k, 'v) small_map \<Rightarrow> bool" where
  "small_ok ib KI D \<longleftrightarrow> dense_ok KI D \<and> small_fits ib D"

lemma Small_more: "dense_map.more D' = dense_map.more D \<Longrightarrow> Small D' = Small D"
  by (cases D; cases D') simp

lemma of_nat_exp_less: "i < 32 \<Longrightarrow> j < 32 \<Longrightarrow> (of_nat (2 ^ i) :: u32) < of_nat (2 ^ j) \<longleftrightarrow> i < j"
  using of_nat_exp_cmp [of j i] by (metis not_le)

lemma small_fits_nonzero: "i < 32 \<Longrightarrow> small_fits (of_nat (2 ^ i)) D \<Longrightarrow> NumBuckets D \<noteq> 0"
  using unat_size [of i] by (auto simp: small_fits_def word_less_nat_alt split: if_splits simp del: of_nat_power)

lemma small_fits_size: "i < 32 \<Longrightarrow> table KI k D \<Longrightarrow> small_fits (of_nat (2 ^ i)) D \<Longrightarrow> i \<le> k \<and> (Small D \<longrightarrow> k = i)"
  using of_nat_exp_less [of i k] of_nat_exp_cmp [of i k] of_nat_exp_cmp [of k i] tableD(1,2) [of KI k D]
  by (auto simp: small_fits_def split: if_splits simp del: of_nat_power)

lemma inline_rep_facts [simp]:
  "Small (inline_rep ib KI D)" "NumBuckets (inline_rep ib KI D) = ib" "length (Buckets (inline_rep ib KI D)) = unat ib"
  by (simp_all add: inline_rep_def)

lemma small_allocated:
  assumes "i < j" "j < 32"
  obtains D1 where "small_allocateBuckets (of_nat (2 ^ i)) KI (of_nat (2 ^ j)) D = Inr D1" "\<not> Small D1"
    "NumBuckets D1 = of_nat (2 ^ j)" "length (Buckets D1) = 2 ^ j" "small_fits (of_nat (2 ^ i)) D1"
proof -
  have l: "(of_nat (2 ^ i) :: u32) < of_nat (2 ^ j)" using of_nat_exp_less [of i j] assms by simp
  show ?thesis
    by (rule that [of "D\<lparr>Small := False, NumBuckets := of_nat (2 ^ j), Buckets := replicate (2 ^ j) (getEmptyKey KI, None)\<rparr>"])
      (use l unat_size [OF assms(2)] in \<open>simp_all add: small_allocateBuckets_def small_fits_def del: of_nat_power\<close>)
qed

lemma filter_twice: "filter P (filter P xs) = filter P xs"
  by (simp add: filter_filter)

context dense_laws
begin

section \<open>Growth\<close>

lemma small_initEmpty:
  assumes "k < 32" "length (Buckets D) = 2 ^ k" "NumBuckets D = of_nat (2 ^ k)" "small_fits ib D"
  shows "\<exists>D'. initEmpty KI D = Inr D' \<and> small_ok ib KI D' \<and> contents KI D' = Map.empty \<and> NumEntries D' = 0 \<and>
    tomb_buckets KI D' = {}"
proof -
  obtain D' where D': "initEmpty KI D = Inr D'" "table KI k D'" "contents KI D' = Map.empty"
    "live_buckets KI D' = {}" "tomb_buckets KI D' = {}"
    by (rule initEmpty_spec [OF assms(1-3)])
  have "small_fits ib D'" "NumEntries D' = 0"
    using D'(1) assms(4) by (auto simp: initEmpty_def small_fits_def Let_def split: if_splits)
  then show ?thesis using D' by (auto simp: small_ok_def dense_ok_def)
qed

lemma small_grow_spec:
  assumes i: "i < 6" and t: "table KI k D" and f: "small_fits (of_nat (2 ^ i)) D" and kj: "k \<le> j" "j < 32"
    and room: "card (live_buckets KI D) < 2 ^ max 6 j"
  shows "\<exists>D'. small_grow (of_nat (2 ^ i)) KI (of_nat (2 ^ j)) D = Some (Inr D') \<and> table KI (max 6 j) D' \<and>
    tomb_buckets KI D' = {} \<and> contents KI D' = contents KI D \<and> small_fits (of_nat (2 ^ i)) D'"
proof -
  let ?ib = "of_nat (2 ^ i) :: u32" and ?n = "of_nat (2 ^ max 6 j) :: u32"
  have i32: "i < 32" and j6: "max 6 j < 32" and ij6: "i < max 6 j" using i kj by simp_all
  have ik: "i \<le> k" "Small D \<Longrightarrow> k = i" using small_fits_size [OF i32 t f] by simp_all
  have ge: "?ib \<le> of_nat (2 ^ j)" using of_nat_exp_cmp [OF i32 kj(2)] ik(1) kj(1) by simp
  have gt: "\<not> ?n < ?ib" "\<not> ?n \<le> ?ib" using of_nat_exp_less [OF i32 j6] ij6 by auto
  obtain D1 where D1: "small_allocateBuckets ?ib KI ?n D = Inr D1" "\<not> Small D1" "NumBuckets D1 = ?n"
    "length (Buckets D1) = 2 ^ max 6 j" "small_fits ?ib D1"
    by (rule small_allocated [OF ij6 j6])
  have fits: "small_fits ?ib D'" if "NumBuckets D' = NumBuckets D1" "dense_map.more D' = dense_map.more D1" for D'
    using D1(5) that Small_more [OF that(2)] by (simp add: small_fits_def)
  let ?Tmp = "live_of (Buckets D)"
  note K = live_keys_distinct [OF tableD(6) [OF t]]
  show ?thesis
  proof (cases "Small D")
    case True
    have len: "\<not> unat ?ib < length ?Tmp"
      unfolding K(2) unat_size [OF i32] using tableD(9) [OF t] ik(2) [OF True] by simp
    have "\<exists>D'. moveFromOldBuckets KI ?Tmp D1 = Some (Inr D') \<and> table KI (max 6 j) D' \<and> tomb_buckets KI D' = {} \<and>
        contents KI D' = map_of (live_pairs KI ?Tmp) \<and> NumBuckets D' = NumBuckets D1 \<and> dense_map.more D' = dense_map.more D1"
      by (rule moveFromOldBuckets_list [OF j6 _ _ _ D1(4,3)])
        (use live_values [OF t] K room in \<open>auto simp only: filter_twice\<close>)
    moreover have "map_of (live_pairs KI ?Tmp) = contents KI D"
      by (simp only: contents_def live_pairs_def filter_twice)
    ultimately obtain D' where D': "moveFromOldBuckets KI ?Tmp D1 = Some (Inr D')" "table KI (max 6 j) D'"
      "tomb_buckets KI D' = {}" "contents KI D' = contents KI D" "NumBuckets D' = NumBuckets D1"
      "dense_map.more D' = dense_map.more D1" by metis
    have "small_grow ?ib KI (of_nat (2 ^ j)) D = Some (Inr D')"
      unfolding small_grow_def Let_def if_P [OF ge] grown_size [OF kj(2)] if_P [OF True] if_not_P [OF gt(1)]
        if_not_P [OF len] D1(1) run_then_simps by (rule D'(1))
    then show ?thesis using D' fits by blast
  next
    case False
    from moveFromOldBuckets_spec [OF t j6 room D1(4,3)] obtain D' where
      D': "moveFromOldBuckets KI (Buckets D) D1 = Some (Inr D')" "table KI (max 6 j) D'"
      "tomb_buckets KI D' = {}" "contents KI D' = contents KI D" "NumBuckets D' = NumBuckets D1"
      "dense_map.more D' = dense_map.more D1" by blast
    have "small_grow ?ib KI (of_nat (2 ^ j)) D = Some (Inr D')"
      unfolding small_grow_def Let_def if_P [OF ge] grown_size [OF kj(2)] if_not_P [OF False] if_not_P [OF gt(2)]
        D1(1) run_then_simps by (rule D'(1))
    then show ?thesis using D' fits by blast
  qed
qed

lemma small_growth:
  assumes "i < 6"
  shows "dense_growth KI (small_grow (of_nat (2 ^ i)) KI) (small_fits (of_nat (2 ^ i)))"
proof unfold_locales
  show "\<exists>D'. small_grow (of_nat (2 ^ i)) KI (of_nat (2 ^ j)) D = Some (Inr D') \<and> table KI (max 6 j) D' \<and>
      tomb_buckets KI D' = {} \<and> contents KI D' = contents KI D \<and> small_fits (of_nat (2 ^ i)) D'"
    if "table KI k D" "small_fits (of_nat (2 ^ i)) D" "k \<le> j" "j < 32" "card (live_buckets KI D) < 2 ^ max 6 j" for k j D
    by (rule small_grow_spec [OF assms that])
  show "\<exists>D'. small_grow (of_nat (2 ^ i)) KI 0 D = Some (Inr D') \<and> table KI 6 D' \<and> tomb_buckets KI D' = {} \<and>
      contents KI D' = Map.empty \<and> small_fits (of_nat (2 ^ i)) D'"
    if "no_table D" "small_fits (of_nat (2 ^ i)) D" for D
    using small_fits_nonzero [OF _ that(2)] that(1) assms by (simp add: no_table_def)
qed (simp_all add: small_fits_def)

section \<open>Initialising, shrinking and clearing\<close>

lemma small_init_spec:
  assumes i: "i < 32" and n: "n = 0 \<or> (\<exists>j < 32. n = of_nat (2 ^ j))"
  shows "\<exists>D'. small_init (of_nat (2 ^ i)) KI n D = Inr D' \<and> small_ok (of_nat (2 ^ i)) KI D' \<and>
    contents KI D' = Map.empty \<and> NumEntries D' = 0 \<and> tomb_buckets KI D' = {}"
proof (cases "of_nat (2 ^ i) < n")
  case False
  have "\<exists>D'. initEmpty KI (inline_rep (of_nat (2 ^ i)) KI D) = Inr D' \<and> small_ok (of_nat (2 ^ i)) KI D' \<and>
      contents KI D' = Map.empty \<and> NumEntries D' = 0 \<and> tomb_buckets KI D' = {}"
    by (rule small_initEmpty [OF i]) (simp_all add: unat_size [OF i] small_fits_def del: of_nat_power)
  then show ?thesis using False by (simp add: small_init_def Let_def)
next
  case True
  then obtain j where j: "j < 32" "n = of_nat (2 ^ j)" using n by auto
  then have ij: "i < j" using True of_nat_exp_less [OF i j(1)] by simp
  obtain D1 where D1: "small_allocateBuckets (of_nat (2 ^ i)) KI (of_nat (2 ^ j)) (inline_rep (of_nat (2 ^ i)) KI D) = Inr D1"
    "\<not> Small D1" "NumBuckets D1 = of_nat (2 ^ j)" "length (Buckets D1) = 2 ^ j" "small_fits (of_nat (2 ^ i)) D1"
    by (rule small_allocated [OF ij j(1)])
  then show ?thesis using small_initEmpty [OF j(1) D1(4,3,5)] True j(2) by (simp add: small_init_def Let_def)
qed

lemma small_shrink_spec:
  assumes i: "i < 6" and t: "table KI k D" and f: "small_fits (of_nat (2 ^ i)) D" and k: "k \<le> 30"
    and few: "4 * card (live_buckets KI D) < 2 ^ k"
  shows "\<exists>D'. small_shrink_and_clear (of_nat (2 ^ i)) KI D = Inr D' \<and> small_ok (of_nat (2 ^ i)) KI D' \<and>
    contents KI D' = Map.empty \<and> NumEntries D' = 0"
proof -
  let ?ib = "of_nat (2 ^ i) :: u32"
  let ?n = "card (live_buckets KI D)" and ?D = "destroyAll KI D"
  have i32: "i < 32" using i by simp
  have nz: "NumBuckets D \<noteq> 0" by (rule small_fits_nonzero [OF i32 f])
  have pk: "(2 :: nat) ^ k \<le> 2 ^ 30" using k by (intro power_increasing) simp_all
  have E: "NumEntries D = of_nat ?n" "unat (NumEntries D) = ?n"
    using tableD(7) [OF t] unat_small [of ?n] few pk by simp_all
  have fD: "small_fits ?ib ?D" using f nz by (simp add: small_fits_def destroyAll_def)
  have kept: "\<exists>D'. initEmpty KI ?D = Inr D' \<and> small_ok ?ib KI D' \<and> contents KI D' = Map.empty \<and> NumEntries D' = 0 \<and>
      tomb_buckets KI D' = {}"
    by (rule small_initEmpty [OF tableD(1) [OF t] _ _ fD]) (simp_all only: destroyAll_spec [OF nz] tableD(2,3) [OF t])
  have goal: "\<exists>D'. (if P then initEmpty KI ?D else small_init ?ib KI New ?D) = Inr D' \<and> small_ok ?ib KI D' \<and>
      contents KI D' = Map.empty \<and> NumEntries D' = 0"
    if "New = 0 \<or> (\<exists>j < 32. New = of_nat (2 ^ j))" for P New
    using kept small_init_spec [OF i32 that, of ?D] by (cases P) auto
  show ?thesis
  proof (cases "?n = 0")
    case True
    then have "NumEntries D = 0" using E(1) by simp
    then show ?thesis
      unfolding small_shrink_and_clear_def Let_def using goal [OF disjI1 [OF refl]] by (simp only: simp_thms if_True if_False)
  next
    case False
    have k2: "2 \<le> k" using few False by (cases k; cases "k - 1") auto
    have "(2 :: nat) ^ (k - 2 + 2) = 4 * 2 ^ (k - 2)" by (simp only: power_add) simp
    then have "(2 :: nat) ^ k = 4 * 2 ^ (k - 2)" using k2 by (simp only: le_add_diff_inverse2)
    then have "?n \<le> 2 ^ (k - 2)" using few by linarith
    moreover have "0 < ?n" using False by (rule neq0_conv [THEN iffD1])
    moreover have "k - 2 < 31" using k by simp
    ultimately obtain L where L: "L \<le> k - 2" "Log2_32_Ceil (NumEntries D) = of_nat L"
      using Log2_32_Ceil_spec [of ?n "k - 2"] E(1) by metis
    have s: "unat (Log2_32_Ceil (NumEntries D) + 1) = L + 1"
      using unat_small [of "L + 1"] L k k2 by (simp add: add.commute)
    have s30: "L + 1 < 30" using L k k2 by simp
    have nzE: "NumEntries D \<noteq> 0" using False E(2) by auto
    have p: "push_bit (L + 1) 1 = (of_nat (2 ^ (L + 1)) :: u32)" by (simp add: push_bit_eq_mult)
    have new: "\<exists>j < 32. (if ?ib < of_nat (2 ^ (L + 1)) \<and> of_nat (2 ^ (L + 1)) < (64 :: u32) then 64 else of_nat (2 ^ (L + 1))) =
        (of_nat (2 ^ j) :: u32)"
    proof (cases "?ib < of_nat (2 ^ (L + 1)) \<and> of_nat (2 ^ (L + 1)) < (64 :: u32)")
      case True
      then show ?thesis by (intro exI [of _ 6]) simp
    next
      case False
      then show ?thesis using s30 by (intro exI [of _ "L + 1"]) (simp only: if_False, simp)
    qed
    have in_range: "\<not> 31 \<le> L + 1" using s30 by simp
    show ?thesis
      unfolding small_shrink_and_clear_def Let_def s p
      using goal [OF disjI2 [OF new]] nzE in_range by (simp only: simp_thms if_True if_False)
  qed
qed

lemma small_shrink:
  assumes "i < 6"
  shows "dense_shrink KI (small_grow (of_nat (2 ^ i)) KI) (small_fits (of_nat (2 ^ i))) (small_shrink_and_clear (of_nat (2 ^ i)) KI)"
  using small_growth [OF assms] small_shrink_spec [OF assms]
  unfolding dense_shrink_def dense_shrink_axioms_def small_ok_def by blast

end

section \<open>Copying and swapping\<close>

lemma small_ok_cases:
  assumes "i < 32" "small_ok (of_nat (2 ^ i)) KI D"
  obtains k where "table KI k D" "i \<le> k" "Small D \<longrightarrow> k = i" "\<not> Small D \<longrightarrow> i < k"
proof -
  have f: "small_fits (of_nat (2 ^ i)) D" and ok: "dense_ok KI D" using assms(2) by (simp_all add: small_ok_def)
  have nz: "NumBuckets D \<noteq> 0" by (rule small_fits_nonzero [OF assms(1) f])
  from ok obtain k where t: "table KI k D" by (cases rule: dense_ok_cases) (use nz in \<open>auto simp: no_table_def\<close>)
  have "i < k" if "\<not> Small D"
    using f that of_nat_exp_less [OF assms(1) tableD(1) [OF t]] tableD(2) [OF t] by (simp add: small_fits_def del: of_nat_power)
  then show thesis using that [OF t] small_fits_size [OF assms(1) t f] by blast
qed

lemma map_moved_same: "map (moved_bucket KI) (map (moved_bucket KI) bs) = map (moved_bucket KI) bs"
  by (simp add: o_def)

lemma small_copyFrom_spec:
  assumes i: "i < 32" and ok: "small_ok (of_nat (2 ^ i)) KI other"
  shows "\<exists>D'. small_copyFrom (of_nat (2 ^ i)) KI other D = Inr D' \<and> small_ok (of_nat (2 ^ i)) KI D' \<and>
    contents KI D' = contents KI other \<and> Small D' = Small other"
proof -
  let ?ib = "of_nat (2 ^ i) :: u32" and ?D = "inline_rep (of_nat (2 ^ i)) KI (destroyAll KI D)"
  have ok': "dense_ok KI other" and f: "small_fits ?ib other" using ok by (simp_all add: small_ok_def)
  have large: "?ib < NumBuckets other \<longleftrightarrow> \<not> Small other" using f by (auto simp: small_fits_def split: if_splits)
  have "\<exists>D1. (if ?ib < NumBuckets other then small_allocateBuckets ?ib KI (NumBuckets other) ?D else Inr ?D) = Inr D1 \<and>
      NumBuckets D1 = NumBuckets other \<and> Small D1 = Small other"
    using large f by (auto simp: small_allocateBuckets_def small_fits_def simp del: of_nat_power)
  then obtain D1 where D1: "(if ?ib < NumBuckets other then small_allocateBuckets ?ib KI (NumBuckets other) ?D else Inr ?D) = Inr D1"
    "NumBuckets D1 = NumBuckets other" "Small D1 = Small other" by blast
  let ?E = "base_copyFrom KI other D1"
  have c: "small_copyFrom ?ib KI other D = Inr ?E"
    unfolding small_copyFrom_def Let_def D1(1) then_do_Inr using D1(2) by simp
  have E: "NumBuckets ?E = NumBuckets other" "NumEntries ?E = NumEntries other" "NumTombstones ?E = NumTombstones other"
    "Small ?E = Small other" "Buckets ?E = map (moved_bucket KI) (Buckets other)"
    using D1(2,3) by (simp_all add: base_copyFrom_def)
  have m: "map (moved_bucket KI) (Buckets ?E) = map (moved_bucket KI) (Buckets other)" by (simp only: E(5) map_moved_same)
  have "small_fits ?ib ?E" using f E(1,4) by (simp add: small_fits_def)
  then show ?thesis using c E(4) dense_same [OF ok' E(1-3) m] by (simp add: small_ok_def)
qed

lemma swap_buckets_moved:
  "length xs = length ys \<Longrightarrow>
    map (moved_bucket KI) (map fst (map (swap_bucket KI) (zip xs ys))) = map (moved_bucket KI) ys \<and>
    map (moved_bucket KI) (map snd (map (swap_bucket KI) (zip xs ys))) = map (moved_bucket KI) xs"
  by (induction xs ys rule: list_induct2) (auto simp: swap_bucket_def moved_bucket_def Let_def)

lemma small_swap_spec:
  assumes i: "i < 32" and L: "small_ok (of_nat (2 ^ i)) KI L" and R: "small_ok (of_nat (2 ^ i)) KI R"
    and S: "small_swap (of_nat (2 ^ i)) KI (L, R) = (L', R')"
  shows "small_ok (of_nat (2 ^ i)) KI L' \<and> contents KI L' = contents KI R \<and>
    small_ok (of_nat (2 ^ i)) KI R' \<and> contents KI R' = contents KI L"
proof -
  let ?ib = "of_nat (2 ^ i) :: u32"
  have fL: "dense_ok KI L" "small_fits ?ib L" and fR: "dense_ok KI R" "small_fits ?ib R" using L R by (simp_all add: small_ok_def)
  have len: "length (Buckets D) = 2 ^ i" if ok: "small_ok ?ib KI D" and s: "Small D" for D :: "('a, 'b) small_map"
  proof -
    obtain k where "table KI k D" "Small D \<longrightarrow> k = i" by (rule small_ok_cases [OF i ok], rule that)
    then show ?thesis using s tableD(3) by blast
  qed
  have counts: "NumEntries L' = NumEntries R" "NumTombstones L' = NumTombstones R"
    "NumEntries R' = NumEntries L" "NumTombstones R' = NumTombstones L"
    using S by (auto simp: small_swap_def Let_def split: if_splits)
  have side: "Small L' = Small R" "Small R' = Small L"
    using S by (auto simp: small_swap_def Let_def split: if_splits)
  have size: "NumBuckets L' = NumBuckets R" "NumBuckets R' = NumBuckets L"
    using S fL(2) fR(2) by (auto simp: small_swap_def small_fits_def Let_def split: if_splits simp del: of_nat_power)
  have b: "map (moved_bucket KI) (Buckets L') = map (moved_bucket KI) (Buckets R)"
    "map (moved_bucket KI) (Buckets R') = map (moved_bucket KI) (Buckets L)"
  proof -
    have sw: "Small L \<Longrightarrow> Small R \<Longrightarrow> length (Buckets L) = length (Buckets R)" using len [OF L] len [OF R] by simp
    show "map (moved_bucket KI) (Buckets L') = map (moved_bucket KI) (Buckets R)"
      using S swap_buckets_moved [OF sw, of KI] by (auto simp: small_swap_def Let_def o_def split: if_splits)
    show "map (moved_bucket KI) (Buckets R') = map (moved_bucket KI) (Buckets L)"
      using S swap_buckets_moved [OF sw, of KI] by (auto simp: small_swap_def Let_def o_def split: if_splits)
  qed
  have "small_fits ?ib L'" "small_fits ?ib R'" using fL(2) fR(2) side size by (simp_all add: small_fits_def)
  then show ?thesis
    using dense_same [OF fR(1) size(1) counts(1,2) b(1)] dense_same [OF fL(1) size(2) counts(3,4) b(2)]
    by (simp add: small_ok_def)
qed

lemma small_new_spec:
  assumes "dense_laws KI" "i < 32" "n = 0 \<or> (\<exists>j < 32. n = of_nat (2 ^ j))"
  shows "\<exists>D. SmallDenseMap_new (of_nat (2 ^ i)) KI n = Inr D \<and> small_ok (of_nat (2 ^ i)) KI D \<and>
    contents KI D = Map.empty \<and> NumEntries D = 0 \<and> tomb_buckets KI D = {}"
  unfolding SmallDenseMap_new_def by (rule dense_laws.small_init_spec [OF assms])

text \<open>Copies and moves give the map its pairs; a map that was moved from is empty.\<close>

lemma small_copies_and_moves:
  assumes KI: "dense_laws KI" and i: "i < 32" and ok: "small_ok (of_nat (2 ^ i)) KI other"
  shows "\<exists>D'. SmallDenseMap_copy (of_nat (2 ^ i)) KI other = Inr D' \<and> small_ok (of_nat (2 ^ i)) KI D' \<and>
      contents KI D' = contents KI other"
    "\<exists>D' E. SmallDenseMap_move (of_nat (2 ^ i)) KI other = Inr (D', E) \<and> small_ok (of_nat (2 ^ i)) KI D' \<and>
      contents KI D' = contents KI other \<and> small_ok (of_nat (2 ^ i)) KI E \<and> contents KI E = Map.empty"
    "\<exists>D' E. small_move_assign (of_nat (2 ^ i)) KI other D = Inr (D', E) \<and> small_ok (of_nat (2 ^ i)) KI D' \<and>
      contents KI D' = contents KI other \<and> small_ok (of_nat (2 ^ i)) KI E \<and> contents KI E = Map.empty"
proof -
  let ?ib = "of_nat (2 ^ i) :: u32"
  obtain D0 :: "('a, 'b) small_map" where N: "SmallDenseMap_new ?ib KI 0 = Inr D0" "small_ok ?ib KI D0" "contents KI D0 = Map.empty"
    using small_new_spec [OF KI i disjI1 [OF refl]] by blast
  obtain D1 where M: "small_init ?ib KI 0 (destroyAll KI D) = Inr D1" "small_ok ?ib KI D1" "contents KI D1 = Map.empty"
    using dense_laws.small_init_spec [OF KI i disjI1 [OF refl]] by blast
  have sw: "\<exists>D' E. Inr (small_swap ?ib KI (D0, other)) = (Inr (D', E) :: stop + _) \<and> small_ok ?ib KI D' \<and>
      contents KI D' = contents KI other \<and> small_ok ?ib KI E \<and> contents KI E = Map.empty"
    if "small_ok ?ib KI D0" "contents KI D0 = Map.empty" for D0
  proof -
    obtain D' E where S: "small_swap ?ib KI (D0, other) = (D', E)" by (rule prod.exhaust)
    show ?thesis using small_swap_spec [OF i that(1) ok S] unfolding S that(2) by blast
  qed
  show "\<exists>D'. SmallDenseMap_copy ?ib KI other = Inr D' \<and> small_ok ?ib KI D' \<and> contents KI D' = contents KI other"
    unfolding SmallDenseMap_copy_def N(1) then_do_Inr using small_copyFrom_spec [OF i ok] by blast
  show "\<exists>D' E. SmallDenseMap_move ?ib KI other = Inr (D', E) \<and> small_ok ?ib KI D' \<and>
      contents KI D' = contents KI other \<and> small_ok ?ib KI E \<and> contents KI E = Map.empty"
    unfolding SmallDenseMap_move_def N(1) then_do_Inr by (rule sw [OF N(2,3)])
  show "\<exists>D' E. small_move_assign ?ib KI other D = Inr (D', E) \<and> small_ok ?ib KI D' \<and>
      contents KI D' = contents KI other \<and> small_ok ?ib KI E \<and> contents KI E = Map.empty"
    unfolding small_move_assign_def M(1) then_do_Inr by (rule sw [OF M(2,3)])
qed

text \<open>A map of unsigned keys with four inline buckets.\<close>

interpretation small_unsigned_map: dense_shrink DenseMapInfo_unsigned "small_grow 4 DenseMapInfo_unsigned" "small_fits 4"
  "small_shrink_and_clear 4 DenseMapInfo_unsigned"
  using unsigned_keys.small_shrink [of 2] by simp

section \<open>Erasing, and ranges\<close>

context dense_growth
begin

lemma erase_fits: "fits D \<Longrightarrow> erase KI x D = Some (Inr (D', b)) \<Longrightarrow> fits D'"
  by (auto simp: erase_def run_then_def fits_frame split: option.splits sum.splits if_splits)

text \<open>A table that grows while a range is inserted.\<close>

lemma insert_range_any:
  assumes "dense_ok KI D" "unat (NumBuckets D) \<le> 2 ^ 30" "card (dom (contents KI D)) + length I \<le> 2 ^ 28"
    and "\<forall>(x, v) \<in> set I. \<not> special KI x" "fits D"
  shows "\<exists>D'. insert_range gr KI I D = Some (Inr D') \<and> dense_ok KI D' \<and> contents KI D' = map_of I ++ contents KI D \<and> fits D' \<and>
    unat (NumBuckets D') \<le> 2 ^ 30"
  using assms
proof (induction I arbitrary: D)
  case (Cons a I)
  obtain x v where a: "a = (x, v)" by (cases a)
  have x: "\<not> special KI x" using Cons.prems(4) a by auto
  let ?n = "card (dom (contents KI D))"
  from try_emplace_spec [OF Cons.prems(1,2) x Cons.prems(5), of v] obtain D1 p where
    D1: "try_emplace gr KI x v D = Some (Inr (D1, Some p, x \<notin> dom (contents KI D)))" "dense_ok KI D1"
    "contents KI D1 = (if x \<in> dom (contents KI D) then contents KI D else (contents KI D)(x \<mapsto> v))"
    "x \<in> dom (contents KI D) \<longrightarrow> D1 = D"
    "x \<notin> dom (contents KI D) \<longrightarrow> unat (NumBuckets D1) =
      buckets_after (unat (NumBuckets D)) ?n (card (tomb_buckets KI D))"
    "fits D1" by blast
  have "buckets_after (unat (NumBuckets D)) ?n t \<le> 2 ^ 30" for t
    using Cons.prems(2,3) by (simp add: buckets_after_def)
  then have nb: "unat (NumBuckets D1) \<le> 2 ^ 30"
    using D1(4,5) Cons.prems(2) by (cases "x \<in> dom (contents KI D)") simp_all
  have c: "card (dom (contents KI D1)) \<le> ?n + 1"
    using card_insert_le_m1 [of "?n + 1" "dom (contents KI D)" x] by (simp add: D1(3))
  have "\<exists>D'. insert_range gr KI I D1 = Some (Inr D') \<and> dense_ok KI D' \<and> contents KI D' = map_of I ++ contents KI D1 \<and> fits D' \<and>
    unat (NumBuckets D') \<le> 2 ^ 30"
    by (rule Cons.IH [OF D1(2) nb _ _ D1(6)]) (use Cons.prems c in auto)
  moreover have "map_of I ++ contents KI D1 = map_of (a # I) ++ contents KI D"
    by (auto simp: D1(3) a fun_eq_iff map_add_def split: option.splits)
  ultimately show ?case unfolding a by (simp only: insert_range.simps D1(1) run_then_simps prod.case)
qed simp

end

lemma small_init_buckets: "small_init ib KI n D = Inr D' \<Longrightarrow> NumBuckets D' = (if ib < n then n else ib)"
  by (auto simp: small_init_def small_allocateBuckets_def initEmpty_def Let_def split: if_splits)

lemma NextPowerOf2_range:
  assumes "n < 2 ^ 28"
  shows "\<exists>j < 30. (ucast (NextPowerOf2 (of_nat n)) :: u32) = of_nat (2 ^ j)"
proof -
  have u: "unat (of_nat n :: u64) = n" using assms by (simp add: unat_of_nat take_bit_nat_eq_self)
  have "\<exists>j < 30. NextPowerOf2 (of_nat n) = push_bit j 1"
  proof (cases "n = 0")
    case True
    then show ?thesis by (intro exI [of _ 0]) (simp add: NextPowerOf2_exact [of 0])
  next
    case False
    then have "1 \<le> n" by simp
    then obtain a where a: "2 ^ a \<le> n" "n < 2 ^ (a + 1)" using ex_power_ivl1 [of 2 n] by auto
    have "(2 :: nat) ^ a < 2 ^ 28" using a(1) assms by (rule le_less_trans)
    then have j: "a < 28" by (rule power_less_imp_less_exp [rotated]) simp
    have "NextPowerOf2 (of_nat n) = push_bit (a + 1) 1"
      using a j by (intro NextPowerOf2_exact) (simp_all only: u, simp_all)
    then show ?thesis using j by (intro exI [of _ "a + 1"]) simp
  qed
  then show ?thesis by (metis ucast_exp)
qed

lemma SmallDenseMap_range_spec:
  fixes I :: "('k \<times> 'v) list"
  assumes KI: "dense_laws KI" and i: "i < 6" and n: "length I < 2 ^ 28" and k: "\<forall>(x, v) \<in> set I. \<not> special KI x"
  shows "\<exists>D. SmallDenseMap_range (of_nat (2 ^ i)) KI I = Some (Inr D) \<and> small_ok (of_nat (2 ^ i)) KI D \<and> contents KI D = map_of I \<and>
    unat (NumBuckets D) \<le> 2 ^ 30"
proof -
  let ?ib = "of_nat (2 ^ i) :: u32" and ?n = "ucast (NextPowerOf2 (of_nat (length I))) :: u32"
  have i32: "i < 32" using i by simp
  obtain j where j: "j < 30" "?n = of_nat (2 ^ j)" using NextPowerOf2_range [OF n] by blast
  have "?n = 0 \<or> (\<exists>j < 32. ?n = of_nat (2 ^ j))" using j by (intro disjI2 exI [of _ j]) simp
  then obtain D0 :: "('k, 'v) small_map" where D0: "SmallDenseMap_new ?ib KI ?n = Inr D0" "small_ok ?ib KI D0" "contents KI D0 = Map.empty"
    using small_new_spec [OF KI i32] by blast
  have s: "NumBuckets D0 = (if ?ib < ?n then ?n else ?ib)"
    using D0(1) unfolding SmallDenseMap_new_def by (rule small_init_buckets)
  have "(2 :: nat) ^ j \<le> 2 ^ 30" "(2 :: nat) ^ i \<le> 2 ^ 30" using j i by (intro power_increasing; simp)+
  then have nb: "unat (NumBuckets D0) \<le> 2 ^ 30"
    unfolding s j(2) using unat_size [OF i32] unat_size [of j] j(1) by (simp del: of_nat_power)
  have ok: "dense_ok KI D0" "small_fits ?ib D0" using D0(2) by (simp_all add: small_ok_def)
  have "card (dom (contents KI D0)) + length I \<le> 2 ^ 28" using n D0(3) by simp
  from dense_growth.insert_range_any [OF dense_laws.small_growth [OF KI i] ok(1) nb this k ok(2)] obtain D where
    "insert_range (small_grow ?ib KI) KI I D0 = Some (Inr D)" "dense_ok KI D" "contents KI D = map_of I ++ contents KI D0"
    "small_fits ?ib D" "unat (NumBuckets D) \<le> 2 ^ 30" by blast
  then show ?thesis unfolding SmallDenseMap_range_def D0(1,3) run_then_simps small_ok_def by auto
qed

section \<open>Sixty-four inline buckets\<close>

text \<open>
  With 64 inline buckets or more, a growth that only has to get rid of tombstones asks for as many
  buckets as there are inline, and \<open>allocateBuckets\<close> asserts that there are more.
\<close>

lemma small_grow_aborts:
  assumes "6 \<le> i" "i < 32" "Small D"
  shows "small_grow (of_nat (2 ^ i)) KI (of_nat (2 ^ i)) D = Some (Inl Abort)"
proof -
  have "max 6 i = i" using assms(1) by simp
  then show ?thesis
    unfolding small_grow_def Let_def if_P [OF order_refl] grown_size [OF assms(2)] if_P [OF assms(3)]
    by (simp add: small_allocateBuckets_def del: of_nat_power)
qed

lemma small_insert_aborts:
  assumes "Small D" "NumBuckets D = 64" "NumEntries D = 0" "NumTombstones D = 55"
  shows "InsertIntoBucketImpl (small_grow 64 KI) KI Key TheBucket D = Some (Inl Abort)"
  using assms small_grow_aborts [of 6 D KI] by (simp add: InsertIntoBucketImpl_def Let_def)

section \<open>Properties\<close>

text \<open>
  C37. A map with fewer than 64 inline buckets stands for a finite function whether its buckets are
  inside the object or not: insertion, removal, clearing and copying do to it what they do to a
  \<open>DenseMap\<close>, and leave the buckets inside exactly while there are no more than the inline ones;
  \<open>swap\<close> exchanges two functions in each of the four combinations of representations; a map that
  was moved from is empty.
\<close>

theorem SmallDenseMap_refines_function:
  fixes D :: "('k, 'v) small_map"
  assumes ib_def: "ib = of_nat (2 ^ i)" and "dense_laws KI" "i < 6" "small_ok ib KI D" "small_ok ib KI E" "unat (NumBuckets D) \<le> 2 ^ 30" "\<not> special KI x"
  shows "(\<exists>D' p. try_emplace (small_grow ib KI) KI x v D = Some (Inr (D', Some p, contents KI D x = None)) \<and> small_ok ib KI D' \<and>
      contents KI D' = (if contents KI D x = None then (contents KI D)(x \<mapsto> v) else contents KI D) \<and>
      p < length (Buckets D') \<and> Buckets D' ! p = (x, contents KI D' x)) \<and>
    (\<exists>D'. erase KI x D = Some (Inr (D', contents KI D x \<noteq> None)) \<and> small_ok ib KI D' \<and>
      contents KI D' = (contents KI D)(x := None)) \<and>
    (\<exists>D'. clear_map (small_shrink_and_clear ib KI) pod KI D = Inr D' \<and> small_ok ib KI D' \<and> contents KI D' = Map.empty) \<and>
    (\<exists>D'. small_copyFrom ib KI E D = Inr D' \<and> small_ok ib KI D' \<and> contents KI D' = contents KI E) \<and>
    (\<exists>D' E'. small_swap ib KI (D, E) = (D', E') \<and> small_ok ib KI D' \<and> contents KI D' = contents KI E \<and>
      small_ok ib KI E' \<and> contents KI E' = contents KI D) \<and>
    (\<exists>D' E'. small_move_assign ib KI E D = Inr (D', E') \<and> small_ok ib KI D' \<and> contents KI D' = contents KI E \<and>
      small_ok ib KI E' \<and> contents KI E' = Map.empty)"
proof (intro conjI)
  note ok = assms(4) [unfolded small_ok_def, THEN conjunct1] assms(4) [unfolded small_ok_def, THEN conjunct2]
  have i32: "i < 32" using assms(3) by simp
  note sh = dense_laws.small_shrink [OF assms(2,3), folded ib_def]
  note gr = dense_shrink.axioms(1) [OF sh]
  from dense_growth.try_emplace_spec [OF gr ok(1) assms(6,7) ok(2), of v] obtain D' p where
    "try_emplace (small_grow ib KI) KI x v D = Some (Inr (D', Some p, x \<notin> dom (contents KI D)))" "dense_ok KI D'"
    "contents KI D' = (if x \<in> dom (contents KI D) then contents KI D else (contents KI D)(x \<mapsto> v))"
    "p < length (Buckets D')" "Buckets D' ! p = (x, contents KI D' x)" "small_fits ib D'" by blast
  then show "\<exists>D' p. try_emplace (small_grow ib KI) KI x v D = Some (Inr (D', Some p, contents KI D x = None)) \<and> small_ok ib KI D' \<and>
      contents KI D' = (if contents KI D x = None then (contents KI D)(x \<mapsto> v) else contents KI D) \<and>
      p < length (Buckets D') \<and> Buckets D' ! p = (x, contents KI D' x)"
    unfolding small_ok_def by (intro exI [of _ D'] exI [of _ p]) (auto simp: domIff)
  from dense_laws.erase_spec [OF assms(2) ok(1) assms(7)] obtain D' where
    R: "erase KI x D = Some (Inr (D', x \<in> dom (contents KI D)))" "dense_ok KI D'" "contents KI D' = (contents KI D)(x := None)" by blast
  show "\<exists>D'. erase KI x D = Some (Inr (D', contents KI D x \<noteq> None)) \<and> small_ok ib KI D' \<and>
      contents KI D' = (contents KI D)(x := None)"
    unfolding small_ok_def using R dense_growth.erase_fits [OF gr ok(2) R(1)] by (auto simp: domIff)
  show "\<exists>D'. clear_map (small_shrink_and_clear ib KI) pod KI D = Inr D' \<and> small_ok ib KI D' \<and> contents KI D' = Map.empty"
    unfolding small_ok_def using dense_shrink.clear_map_spec [OF sh ok(1) assms(6) ok(2)] by blast
  show "\<exists>D'. small_copyFrom ib KI E D = Inr D' \<and> small_ok ib KI D' \<and> contents KI D' = contents KI E"
    using small_copyFrom_spec [OF i32 assms(5) [unfolded ib_def]] unfolding ib_def by blast
  obtain D1 E1 where S: "small_swap ib KI (D, E) = (D1, E1)" by (rule prod.exhaust)
  then show "\<exists>D' E'. small_swap ib KI (D, E) = (D', E') \<and> small_ok ib KI D' \<and> contents KI D' = contents KI E \<and>
      small_ok ib KI E' \<and> contents KI E' = contents KI D"
    using small_swap_spec [OF i32 assms(4,5) [unfolded ib_def] S [unfolded ib_def]] unfolding ib_def by blast
  show "\<exists>D' E'. small_move_assign ib KI E D = Inr (D', E') \<and> small_ok ib KI D' \<and> contents KI D' = contents KI E \<and>
      small_ok ib KI E' \<and> contents KI E' = Map.empty"
    unfolding ib_def by (rule small_copies_and_moves(3) [OF assms(2) i32 assms(5) [unfolded ib_def]])
qed

text \<open>
  Four inline buckets: a map of four pairs, whose buckets are not inside, and one of a single pair,
  whose buckets are; they swap, and the larger one is cleared.
\<close>

lemma SmallDenseMap_refines_function_witness:
  "\<exists>D E D' E' C :: (u32, nat) small_map.
    SmallDenseMap_range 4 DenseMapInfo_unsigned [(1, 10), (2, 20), (3, 30), (4, 40)] = Some (Inr D) \<and>
    SmallDenseMap_range 4 DenseMapInfo_unsigned [(7, 70)] = Some (Inr E) \<and>
    small_swap 4 DenseMapInfo_unsigned (D, E) = (D', E') \<and>
    contents DenseMapInfo_unsigned D' = [7 \<mapsto> 70] \<and> contents DenseMapInfo_unsigned E' 3 = Some 30 \<and>
    clear_map (small_shrink_and_clear 4 DenseMapInfo_unsigned) True DenseMapInfo_unsigned D = Inr C \<and>
    contents DenseMapInfo_unsigned C = Map.empty"
proof -
  let ?KI = "DenseMapInfo_unsigned"
  have s: "\<not> special ?KI x" if "x \<in> {1, 2, 3, 4, 7}" for x
    using that by (auto simp: is_empty_key_def is_tombstone_def DenseMapInfo_unsigned_def)
  have four: "(4 :: u32) = of_nat (2 ^ 2)" by simp
  obtain D where D: "SmallDenseMap_range 4 ?KI [(1, 10), (2, 20), (3, 30), (4, 40 :: nat)] = Some (Inr D)" "small_ok 4 ?KI D"
    "contents ?KI D = map_of [(1, 10), (2, 20), (3, 30), (4, 40)]" "unat (NumBuckets D) \<le> 2 ^ 30"
    using SmallDenseMap_range_spec [OF unsigned_keys.dense_laws_axioms, of 2 "[(1, 10), (2, 20), (3, 30), (4, 40 :: nat)]"] s by auto
  obtain E where E: "SmallDenseMap_range 4 ?KI [(7, 70 :: nat)] = Some (Inr E)" "small_ok 4 ?KI E" "contents ?KI E = [7 \<mapsto> 70]"
    using SmallDenseMap_range_spec [OF unsigned_keys.dense_laws_axioms, of 2 "[(7, 70 :: nat)]"] s by auto
  have "(2 :: nat) < 6" "\<not> special ?KI 7" using s by simp_all
  note R = SmallDenseMap_refines_function
    [OF four unsigned_keys.dense_laws_axioms this(1) D(2) E(2) D(4) this(2), where v = 0 and pod = True, THEN conjunct2, THEN conjunct2]
  obtain D' E' where "small_swap 4 ?KI (D, E) = (D', E')" "contents ?KI D' = contents ?KI E" "contents ?KI E' = contents ?KI D"
    using R by blast
  moreover obtain C where "clear_map (small_shrink_and_clear 4 ?KI) True ?KI D = Inr C" "contents ?KI C = Map.empty"
    using R by blast
  ultimately show ?thesis using D(1,3) E(1,3) by fastforce
qed

end
