(* ===== verification/LL_EquivClasses.thy ===== *)
theory LL_EquivClasses imports PT_Prelude begin

text \<open>
  \<open>ADT/EquivalenceClasses.h\<close>: union and find with path compression, over a \<open>std::set\<close> of nodes.
  There is one node for each element, so that a pointer to a node is the element it holds; the set
  is the sorted list of the elements.  The low bit of \<open>Next\<close>, which marks a leader, is a field of
  its own.  An iterator over the set is an element, or \<open>None\<close> at \<open>end()\<close>; an iterator over the
  members of a class is a node, or \<open>None\<close> for \<open>nullptr\<close>.  A result is \<open>None\<close> where a chain of
  leaders has no end; a failed assertion is \<open>Abort\<close>.
\<close>

section \<open>Nodes\<close>

record 'a ec_value =
  Leader :: 'a
  Next :: "'a option"
  leader_bit :: bool

record 'a eq_classes =
  Elems :: "'a list"
  Node :: "'a \<Rightarrow> 'a ec_value"

definition ECValue :: "'a \<Rightarrow> 'a ec_value" where
  "ECValue Elt = \<lparr>Leader = Elt, Next = None, leader_bit = True\<rparr>"

definition isLeader :: "'a eq_classes \<Rightarrow> 'a \<Rightarrow> bool" where
  "isLeader EC N = leader_bit (Node EC N)"

definition getNext :: "'a eq_classes \<Rightarrow> 'a \<Rightarrow> 'a option" where
  "getNext EC N = Next (Node EC N)"

definition set_node :: "'a \<Rightarrow> 'a ec_value \<Rightarrow> 'a eq_classes \<Rightarrow> 'a eq_classes" where
  "set_node N v EC = EC\<lparr>Node := (Node EC)(N := v)\<rparr>"

text \<open>The leader of a node, and the classes with the path to it compressed.\<close>

partial_function (option) getLeader :: "'a eq_classes \<Rightarrow> 'a \<Rightarrow> ('a \<times> 'a eq_classes) option" where
  "getLeader EC N =
     (if isLeader EC N then Some (N, EC)
      else if isLeader EC (Leader (Node EC N)) then Some (Leader (Node EC N), EC)
      else Option.bind (getLeader EC (Leader (Node EC N))) (\<lambda>(L, EC).
        Some (L, set_node N ((Node EC N)\<lparr>Leader := L\<rparr>) EC)))"

definition getEndOfList :: "'a eq_classes \<Rightarrow> 'a \<Rightarrow> stop + 'a" where
  "getEndOfList EC N = (if isLeader EC N then Inr (Leader (Node EC N)) else Inl Abort)"

definition setNext :: "'a \<Rightarrow> 'a \<Rightarrow> 'a eq_classes \<Rightarrow> stop + 'a eq_classes" where
  "setNext N NewNext EC =
     (if getNext EC N \<noteq> None then Inl Abort
      else Inr (set_node N ((Node EC N)\<lparr>Next := Some NewNext\<rparr>) EC))"

section \<open>Inspection\<close>

definition ec_empty :: "'a eq_classes \<Rightarrow> bool" where
  "ec_empty EC \<longleftrightarrow> Elems EC = []"

definition member_begin :: "'a eq_classes \<Rightarrow> 'a \<Rightarrow> 'a option" where
  "member_begin EC I = (if isLeader EC I then Some I else None)"

definition member_next :: "'a eq_classes \<Rightarrow> 'a option \<Rightarrow> stop + 'a option" where
  "member_next EC It = (case It of None \<Rightarrow> Inl Abort | Some N \<Rightarrow> Inr (getNext EC N))"

definition findValue :: "'a eq_classes \<Rightarrow> 'a \<Rightarrow> 'a option" where
  "findValue EC V = (if V \<in> set (Elems EC) then Some V else None)"

definition getNumClasses :: "'a eq_classes \<Rightarrow> u32" where
  "getNumClasses EC = foldl (\<lambda>NC I. if isLeader EC I then NC + 1 else NC) 0 (Elems EC)"

section \<open>Changes\<close>

text \<open>Insertion leaves a node that is there as it is.\<close>

definition insert_value :: "'a::linorder \<Rightarrow> 'a eq_classes \<Rightarrow> 'a \<times> 'a eq_classes" where
  "insert_value Data EC =
     (if Data \<in> set (Elems EC) then (Data, EC)
      else (Data, set_node Data (ECValue Data) (EC\<lparr>Elems := insort Data (Elems EC)\<rparr>)))"

definition findLeader_at :: "'a eq_classes \<Rightarrow> 'a option \<Rightarrow> ('a option \<times> 'a eq_classes) option" where
  "findLeader_at EC I =
     (case I of None \<Rightarrow> Some (None, EC)
      | Some N \<Rightarrow> map_option (\<lambda>(L, EC). (Some L, EC)) (getLeader EC N))"

definition findLeader :: "'a eq_classes \<Rightarrow> 'a \<Rightarrow> ('a option \<times> 'a eq_classes) option" where
  "findLeader EC V = findLeader_at EC (findValue EC V)"

definition getLeaderValue :: "'a eq_classes \<Rightarrow> 'a \<Rightarrow> (stop + 'a \<times> 'a eq_classes) option" where
  "getLeaderValue EC V =
     Option.bind (findLeader EC V) (\<lambda>(MI, EC).
     Some (case MI of None \<Rightarrow> Inl Abort | Some L \<Rightarrow> Inr (L, EC)))"

definition getOrInsertLeaderValue :: "'a::linorder eq_classes \<Rightarrow> 'a \<Rightarrow> (stop + 'a \<times> 'a eq_classes) option" where
  "getOrInsertLeaderValue EC V =
     (let (I, EC) = insert_value V EC in
      Option.bind (findLeader_at EC (Some I)) (\<lambda>(MI, EC).
      Some (case MI of None \<Rightarrow> Inl Abort | Some L \<Rightarrow> Inr (L, EC))))"

text \<open>The union of two classes given by their leaders.\<close>

definition union_leaders :: "'a option \<Rightarrow> 'a option \<Rightarrow> 'a eq_classes \<Rightarrow> stop + 'a option \<times> 'a eq_classes" where
  "union_leaders L1 L2 EC =
     (case (L1, L2) of
        (Some L1LV, Some L2LV) \<Rightarrow>
          if L1LV = L2LV then Inr (L1, EC)
          else
            then_do (getEndOfList EC L1LV) (\<lambda>e.
            then_do (setNext e L2LV EC) (\<lambda>EC.
            then_do (getEndOfList EC L2LV) (\<lambda>e.
              let EC = set_node L1LV ((Node EC L1LV)\<lparr>Leader := e\<rparr>) EC;
                  EC = set_node L2LV ((Node EC L2LV)\<lparr>leader_bit := False\<rparr>) EC;
                  EC = set_node L2LV ((Node EC L2LV)\<lparr>Leader := L1LV\<rparr>) EC
              in Inr (L1, EC))))
      | _ \<Rightarrow> Inl Abort)"

text \<open>The arguments of the inner call are evaluated from left to right.\<close>

definition unionSets :: "'a::linorder \<Rightarrow> 'a \<Rightarrow> 'a eq_classes \<Rightarrow> (stop + 'a option \<times> 'a eq_classes) option" where
  "unionSets V1 V2 EC =
     (let (V1I, EC) = insert_value V1 EC; (V2I, EC) = insert_value V2 EC in
      Option.bind (findLeader_at EC (Some V1I)) (\<lambda>(L1, EC).
      Option.bind (findLeader_at EC (Some V2I)) (\<lambda>(L2, EC).
      Some (union_leaders L1 L2 EC))))"

definition isEquivalent :: "'a eq_classes \<Rightarrow> 'a \<Rightarrow> 'a \<Rightarrow> (bool \<times> 'a eq_classes) option" where
  "isEquivalent EC V1 V2 =
     (if V1 = V2 then Some (True, EC)
      else
        Option.bind (findLeader EC V1) (\<lambda>(It, EC).
        if It \<noteq> None then Option.bind (findLeader EC V2) (\<lambda>(It2, EC). Some (It = It2, EC))
        else Some (False, EC)))"

section \<open>Copying\<close>

text \<open>
  \<open>operator=\<close>: the members of each class of \<open>RHS\<close> after its leader are joined to the leader, one by
  one.  Neither loop changes \<open>RHS\<close>, unless it is the object assigned to, which is empty by then.
\<close>

partial_function (option) assign_members ::
  "'a::linorder eq_classes \<Rightarrow> 'a option \<Rightarrow> 'a option \<Rightarrow> 'a eq_classes \<Rightarrow> (stop + 'a eq_classes) option" where
  "assign_members RHS LeaderIt MI EC =
     (case MI of
        None \<Rightarrow> Some (Inr EC)
      | Some N \<Rightarrow>
          (let (I, EC) = insert_value N EC in
           case union_leaders LeaderIt (member_begin EC I) EC of
             Inl e \<Rightarrow> Some (Inl e)
           | Inr (_, EC) \<Rightarrow> assign_members RHS LeaderIt (getNext RHS N) EC))"

fun assign_loop :: "'a::linorder eq_classes \<Rightarrow> 'a list \<Rightarrow> 'a eq_classes \<Rightarrow> (stop + 'a eq_classes) option" where
  "assign_loop RHS [] EC = Some (Inr EC)"
| "assign_loop RHS (I # Is) EC =
     (if isLeader RHS I then
        let (J, EC) = insert_value I EC in
        run_then (assign_members RHS (member_begin EC J) (getNext RHS I) EC) (assign_loop RHS Is)
      else assign_loop RHS Is EC)"

definition assign :: "'a::linorder eq_classes \<Rightarrow> 'a eq_classes \<Rightarrow> (stop + 'a eq_classes) option" where
  "assign RHS EC = assign_loop RHS (Elems RHS) (EC\<lparr>Elems := []\<rparr>)"

definition assign_self :: "'a::linorder eq_classes \<Rightarrow> (stop + 'a eq_classes) option" where
  "assign_self EC = (let EC = EC\<lparr>Elems := []\<rparr> in assign_loop EC (Elems EC) EC)"

end
