(* ===== verification/LL_EC_Lemmas.thy ===== *)
theory LL_EC_Lemmas imports LL_EquivClasses begin

text \<open>
  The representation of \<open>ADT/EquivalenceClasses.h\<close>: every class is a list of nodes linked through
  \<open>Next\<close>, whose first node is the leader and knows the last, and whose other nodes lead backwards.
\<close>

section \<open>Chains\<close>

definition ec_chain :: "'a eq_classes \<Rightarrow> 'a list \<Rightarrow> bool" where
  "ec_chain EC c \<longleftrightarrow> c \<noteq> [] \<and> distinct c \<and> Leader (Node EC (hd c)) = last c \<and>
     (\<forall>i < length c. leader_bit (Node EC (c ! i)) = (i = 0) \<and>
        Next (Node EC (c ! i)) = (if Suc i < length c then Some (c ! Suc i) else None) \<and>
        (0 < i \<longrightarrow> (\<exists>j < i. Leader (Node EC (c ! i)) = c ! j)))"

lemma ec_chainD:
  assumes "ec_chain EC c"
  shows "c \<noteq> []" "distinct c" "Leader (Node EC (hd c)) = last c"
    "i < length c \<Longrightarrow> isLeader EC (c ! i) \<longleftrightarrow> i = 0"
    "i < length c \<Longrightarrow> getNext EC (c ! i) = (if Suc i < length c then Some (c ! Suc i) else None)"
    "0 < i \<Longrightarrow> i < length c \<Longrightarrow> \<exists>j < i. Leader (Node EC (c ! i)) = c ! j"
  using assms unfolding ec_chain_def isLeader_def getNext_def by blast+

lemma ec_chainI:
  assumes "c \<noteq> []" "distinct c" "Leader (Node EC (hd c)) = last c"
    "\<And>i. i < length c \<Longrightarrow> isLeader EC (c ! i) \<longleftrightarrow> i = 0"
    "\<And>i. i < length c \<Longrightarrow> getNext EC (c ! i) = (if Suc i < length c then Some (c ! Suc i) else None)"
    "\<And>i. 0 < i \<Longrightarrow> i < length c \<Longrightarrow> \<exists>j < i. Leader (Node EC (c ! i)) = c ! j"
  shows "ec_chain EC c"
  using assms unfolding ec_chain_def isLeader_def getNext_def by blast

lemma ec_chain_cong: "(\<And>x. x \<in> set c \<Longrightarrow> Node EC' x = Node EC x) \<Longrightarrow> ec_chain EC c \<Longrightarrow> ec_chain EC' c"
  unfolding ec_chain_def by (simp add: nth_mem)

lemma ec_chain_singleton: "Node EC x = ECValue x \<Longrightarrow> ec_chain EC [x]"
  by (simp add: ec_chain_def ECValue_def)

lemma ec_chain_hd: "ec_chain EC c \<Longrightarrow> isLeader EC (hd c)"
  using ec_chainD(1) [of EC c] ec_chainD(4) [of EC c 0] by (simp add: hd_conv_nth)

lemma ec_chain_leader: "ec_chain EC c \<Longrightarrow> x \<in> set c \<Longrightarrow> isLeader EC x \<longleftrightarrow> x = hd c"
  using ec_chainD(1,2,4) [of EC c] by (auto simp: in_set_conv_nth hd_conv_nth nth_eq_iff_index_eq)

lemma Node_set_node [simp]:
  "Node (set_node N v EC) x = (if x = N then v else Node EC x)" "Elems (set_node N v EC) = Elems EC"
  by (simp_all add: set_node_def)

lemma set_Leader [simp]:
  "isLeader (set_node N ((Node EC N)\<lparr>Leader := L\<rparr>) EC) x = isLeader EC x"
  "getNext (set_node N ((Node EC N)\<lparr>Leader := L\<rparr>) EC) x = getNext EC x"
  by (simp_all add: isLeader_def getNext_def)

text \<open>Path compression: a node may lead to the first at once.\<close>

lemma ec_chain_compress:
  assumes c: "ec_chain EC c" and i: "0 < i" "i < length c"
  shows "ec_chain (set_node (c ! i) ((Node EC (c ! i))\<lparr>Leader := hd c\<rparr>) EC) c"
proof -
  note d = ec_chainD(1,2) [OF c]
  have ne: "c ! i \<noteq> hd c" using i d by (simp add: hd_conv_nth nth_eq_iff_index_eq)
  have "\<exists>j < k. Leader (Node (set_node (c ! i) ((Node EC (c ! i))\<lparr>Leader := hd c\<rparr>) EC) (c ! k)) = c ! j"
    if "0 < k" "k < length c" for k
  proof (cases "k = i")
    case True
    then show ?thesis using that d by (intro exI [of _ 0]) (simp add: hd_conv_nth)
  next
    case False
    then show ?thesis using ec_chainD(6) [OF c that] that d i by (simp add: nth_eq_iff_index_eq)
  qed
  then show ?thesis
    using ec_chainD(3-5) [OF c] ne d by (intro ec_chainI) (simp_all only: set_Leader, simp_all)
qed

lemma getLeader_ec_chain:
  assumes "ec_chain EC c" "i < length c"
  shows "\<exists>EC'. getLeader EC (c ! i) = Some (hd c, EC') \<and> ec_chain EC' c \<and> Elems EC' = Elems EC \<and>
    (\<forall>x. x \<notin> set c \<longrightarrow> Node EC' x = Node EC x)"
  using assms(2)
proof (induction i rule: less_induct)
  case (less i)
  note c = assms(1)
  show ?case
  proof (cases "i = 0")
    case True
    then show ?thesis
      using ec_chain_hd [OF c] ec_chainD(1) [OF c] c by (subst getLeader.simps) (simp add: hd_conv_nth)
  next
    case False
    then obtain j where j: "j < i" "Leader (Node EC (c ! i)) = c ! j" using ec_chainD(6) [OF c _ less.prems] by blast
    have ni: "\<not> isLeader EC (c ! i)" using ec_chainD(4) [OF c less.prems] False by simp
    show ?thesis
    proof (cases "j = 0")
      case True
      then have "getLeader EC (c ! i) = Some (hd c, EC)"
        using ni j ec_chain_hd [OF c] ec_chainD(1) [OF c] by (subst getLeader.simps) (simp add: hd_conv_nth)
      then show ?thesis using c by simp
    next
      case False
      have jl: "j < length c" using j(1) less.prems by simp
      have nj: "\<not> isLeader EC (c ! j)" using ec_chainD(4) [OF c jl] False by simp
      obtain EC1 where EC1: "getLeader EC (c ! j) = Some (hd c, EC1)" "ec_chain EC1 c" "Elems EC1 = Elems EC"
        "\<forall>x. x \<notin> set c \<longrightarrow> Node EC1 x = Node EC x" using less.IH [OF j(1) jl] by blast
      have "getLeader EC (c ! i) = Some (hd c, set_node (c ! i) ((Node EC1 (c ! i))\<lparr>Leader := hd c\<rparr>) EC1)"
        using ni nj j(2) by (subst getLeader.simps) (simp add: EC1(1))
      moreover have "0 < i" using j(1) by simp
      ultimately show ?thesis
        using ec_chain_compress [OF EC1(2) _ less.prems] EC1(3,4) nth_mem [OF less.prems] by auto
    qed
  qed
qed

section \<open>The representation\<close>

definition represents :: "'a::linorder eq_classes \<Rightarrow> 'a list set \<Rightarrow> bool" where
  "represents EC C \<longleftrightarrow> sorted (Elems EC) \<and> distinct (Elems EC) \<and> (\<Union>c \<in> C. set c) = set (Elems EC) \<and>
     (\<forall>c \<in> C. ec_chain EC c) \<and> (\<forall>c \<in> C. \<forall>d \<in> C. c \<noteq> d \<longrightarrow> set c \<inter> set d = {})"

lemma representsD:
  assumes "represents EC C"
  shows "sorted (Elems EC)" "distinct (Elems EC)" "(\<Union>c \<in> C. set c) = set (Elems EC)"
    "c \<in> C \<Longrightarrow> ec_chain EC c" "c \<in> C \<Longrightarrow> d \<in> C \<Longrightarrow> x \<in> set c \<Longrightarrow> x \<in> set d \<Longrightarrow> c = d"
  using assms unfolding represents_def by blast+

lemma class_of:
  assumes "represents EC C" "x \<in> set (Elems EC)"
  obtains c where "c \<in> C" "x \<in> set c"
  using assms representsD(3) by blast

lemma represents_other:
  assumes R: "represents EC C" and c: "c \<in> C" "ec_chain EC' c" and E: "Elems EC' = Elems EC"
    and same: "\<And>x. x \<notin> set c \<Longrightarrow> Node EC' x = Node EC x"
  shows "represents EC' C"
proof -
  have "ec_chain EC' d" if "d \<in> C" for d
  proof (cases "d = c")
    case False
    then show ?thesis using representsD(4,5) [OF R] that c(1) same by (intro ec_chain_cong [of d EC' EC]) blast+
  qed (simp add: c(2))
  then show ?thesis using R unfolding represents_def E by blast
qed

lemma getLeader_spec:
  assumes R: "represents EC C" and c: "c \<in> C" "x \<in> set c"
  shows "\<exists>EC'. getLeader EC x = Some (hd c, EC') \<and> represents EC' C \<and> Elems EC' = Elems EC"
proof -
  obtain i where i: "i < length c" "x = c ! i" using c(2) by (metis in_set_conv_nth)
  then show ?thesis
    using getLeader_ec_chain [OF representsD(4) [OF R c(1)] i(1)] represents_other [OF R c(1)] by metis
qed

lemma insert_value_spec:
  assumes R: "represents EC C"
  shows "fst (insert_value v EC) = v"
    "represents (snd (insert_value v EC)) (if v \<in> set (Elems EC) then C else insert [v] C)"
    "set (Elems (snd (insert_value v EC))) = insert v (set (Elems EC))"
proof -
  show "fst (insert_value v EC) = v" by (simp add: insert_value_def)
  show "set (Elems (snd (insert_value v EC))) = insert v (set (Elems EC))"
    by (auto simp: insert_value_def set_insort_key)
  show "represents (snd (insert_value v EC)) (if v \<in> set (Elems EC) then C else insert [v] C)"
  proof (cases "v \<in> set (Elems EC)")
    case True
    then show ?thesis using R by (simp add: insert_value_def)
  next
    case False
    let ?EC = "set_node v (ECValue v) (EC\<lparr>Elems := insort v (Elems EC)\<rparr>)"
    have out: "v \<notin> set c" if "c \<in> C" for c using that False representsD(3) [OF R] by blast
    have "ec_chain ?EC c" if "c \<in> C" for c
      using out [OF that] representsD(4) [OF R that] by (intro ec_chain_cong [of c ?EC EC]) (auto simp: set_node_def)
    moreover have "ec_chain ?EC [v]" by (intro ec_chain_singleton) simp
    moreover have "(\<Union>c \<in> insert [v] C. set c) = set (Elems ?EC)"
      using representsD(3) [OF R] by (simp add: set_insort_key)
    moreover have "sorted (Elems ?EC)" "distinct (Elems ?EC)"
      using representsD(1,2) [OF R] False by (simp_all add: sorted_insort distinct_insort)
    ultimately have "represents ?EC (insert [v] C)"
      using R out unfolding represents_def by auto
    then show ?thesis using False by (simp add: insert_value_def)
  qed
qed

section \<open>Union\<close>

text \<open>What the pointers must be for two chains to be one.\<close>

lemma ec_chain_joined:
  assumes c: "ec_chain EC c" "ec_chain EC d" and disj: "set c \<inter> set d = {}"
    and bit: "\<And>x. isLeader E x \<longleftrightarrow> x \<noteq> hd d \<and> isLeader EC x"
    and nxt: "\<And>x. getNext E x = (if x = last c then Some (hd d) else getNext EC x)"
    and lead: "\<And>x. Leader (Node E x) = (if x = hd d then hd c else if x = hd c then last d else Leader (Node EC x))"
  shows "ec_chain E (c @ d)"
proof -
  note ne = ec_chainD(1) [OF c(1)] ec_chainD(1) [OF c(2)]
  note di = ec_chainD(2) [OF c(1)] ec_chainD(2) [OF c(2)]
  have hd0: "hd c = c ! 0" "hd d = d ! 0" "last c = c ! (length c - 1)" using ne by (simp_all add: hd_conv_nth last_conv_nth)
  have h: "hd c \<in> set c" "hd d \<in> set d" "last c \<in> set c" using ne by simp_all
  have apart: "x \<in> set c \<Longrightarrow> y \<in> set d \<Longrightarrow> x \<noteq> y" for x y using disj by (metis disjoint_iff)
  show ?thesis
  proof (rule ec_chainI)
    show "c @ d \<noteq> []" using ne by simp
    show "distinct (c @ d)" using di disj by simp
    show "Leader (Node E (hd (c @ d))) = last (c @ d)" using ne apart [OF h(1,2)] by (simp add: lead)
  next
    fix i
    assume i: "i < length (c @ d)"
    consider (left) "i < length c" "(c @ d) ! i = c ! i" "c ! i \<in> set c"
      | (right) k where "i = length c + k" "k < length d" "(c @ d) ! i = d ! k" "d ! k \<in> set d"
    proof (cases "i < length c")
      case True
      then show ?thesis using left nth_mem [OF True] by (simp add: nth_append)
    next
      case False
      then have "i = length c + (i - length c)" "i - length c < length d" using i by simp_all
      then show ?thesis using right [of "i - length c"] nth_mem False by (simp add: nth_append)
    qed
    note parts = this
    show "isLeader E ((c @ d) ! i) \<longleftrightarrow> i = 0"
    proof (cases rule: parts)
      case left
      show ?thesis unfolding left(2) bit using ec_chainD(4) [OF c(1) left(1)] apart [OF left(3) h(2)] by blast
    next
      case (right k)
      have "d ! k = hd d \<longleftrightarrow> k = 0" unfolding hd0 using right(2) ne(2) di(2) by (simp add: nth_eq_iff_index_eq)
      then show ?thesis unfolding right(3) bit using ec_chainD(4) [OF c(2) right(2)] right(1) ne(1) by auto
    qed
    show "getNext E ((c @ d) ! i) = (if Suc i < length (c @ d) then Some ((c @ d) ! Suc i) else None)"
    proof (cases rule: parts)
      case left
      have "c ! i = last c \<longleftrightarrow> i = length c - 1" unfolding hd0 using left(1) ne(1) di(1) by (simp add: nth_eq_iff_index_eq)
      then show ?thesis
        unfolding left(2) nxt using ec_chainD(5) [OF c(1) left(1)] left(1) ne hd0(2) by (auto simp: nth_append)
    next
      case (right k)
      show ?thesis
        unfolding right(3) nxt using ec_chainD(5) [OF c(2) right(2)] apart [OF h(3) right(4)] right(1,2) by (auto simp: nth_append)
    qed
    show "\<exists>j < i. Leader (Node E ((c @ d) ! i)) = (c @ d) ! j" if i0: "0 < i"
    proof (cases rule: parts)
      case left
      obtain j where j: "j < i" "Leader (Node EC (c ! i)) = c ! j" using ec_chainD(6) [OF c(1) i0 left(1)] by blast
      have "c ! i \<noteq> hd c" unfolding hd0 using left(1) ne(1) di(1) i0 by (simp add: nth_eq_iff_index_eq)
      then have "Leader (Node E (c ! i)) = c ! j" unfolding lead using apart [OF left(3) h(2)] j(2) by simp
      then show ?thesis unfolding left(2) using j(1) left(1) by (intro exI [of _ j]) (simp add: nth_append)
    next
      case (right k)
      show ?thesis
      proof (cases "k = 0")
        case True
        then have "Leader (Node E (d ! k)) = (c @ d) ! 0" using ne by (simp add: lead hd0 nth_append)
        then show ?thesis unfolding right(3) using i0 by blast
      next
        case False
        then obtain j where j: "j < k" "Leader (Node EC (d ! k)) = d ! j" using ec_chainD(6) [OF c(2) _ right(2)] by blast
        have "d ! k \<noteq> hd d" unfolding hd0 using right(2) ne(2) di(2) False by (simp add: nth_eq_iff_index_eq)
        then have "Leader (Node E (d ! k)) = d ! j" unfolding lead using apart [OF h(1) right(4)] j(2) by simp
        then show ?thesis unfolding right(3) using j(1) right(1) by (intro exI [of _ "length c + j"]) simp
      qed
    qed
  qed
qed

lemma ec_chain_append:
  assumes c: "ec_chain EC c" "ec_chain EC d" and disj: "set c \<inter> set d = {}"
  shows "\<exists>EC'. union_leaders (Some (hd c)) (Some (hd d)) EC = Inr (Some (hd c), EC') \<and> ec_chain EC' (c @ d) \<and>
    Elems EC' = Elems EC \<and> (\<forall>x. x \<notin> set c \<union> set d \<longrightarrow> Node EC' x = Node EC x)"
proof -
  note ne = ec_chainD(1) [OF c(1)] ec_chainD(1) [OF c(2)]
  have h: "hd c \<in> set c" "hd d \<in> set d" "last c \<in> set c" using ne by simp_all
  have neq: "hd c \<noteq> hd d" "last c \<noteq> hd d" using h disj by (metis disjoint_iff)+
  let ?E1 = "set_node (last c) ((Node EC (last c))\<lparr>Next := Some (hd d)\<rparr>) EC"
  let ?E2 = "set_node (hd c) ((Node ?E1 (hd c))\<lparr>Leader := last d\<rparr>) ?E1"
  let ?E3 = "set_node (hd d) ((Node ?E2 (hd d))\<lparr>leader_bit := False\<rparr>) ?E2"
  let ?E = "set_node (hd d) ((Node ?E3 (hd d))\<lparr>Leader := hd c\<rparr>) ?E3"
  have nl: "getNext EC (last c) = None"
    using ec_chainD(5) [OF c(1), of "length c - 1"] ne(1) by (simp add: last_conv_nth)
  have l: "getEndOfList EC (hd c) = Inr (last c)" "getEndOfList ?E1 (hd d) = Inr (last d)"
    using ec_chain_hd [OF c(1)] ec_chain_hd [OF c(2)] ec_chainD(3) [OF c(1)] ec_chainD(3) [OF c(2)] neq
    by (simp_all add: getEndOfList_def isLeader_def)
  have u: "union_leaders (Some (hd c)) (Some (hd d)) EC = Inr (Some (hd c), ?E)"
    using neq(1) l nl by (simp add: union_leaders_def setNext_def Let_def)
  have "ec_chain ?E (c @ d)"
    by (rule ec_chain_joined [OF c disj]) (use neq in \<open>simp_all add: isLeader_def getNext_def\<close>)
  moreover have "\<forall>x. x \<notin> set c \<union> set d \<longrightarrow> Node ?E x = Node EC x" using h by auto
  ultimately show ?thesis using u by simp
qed

lemma union_leaders_spec:
  assumes R: "represents EC C" and c: "c \<in> C" "d \<in> C" "c \<noteq> d"
  shows "\<exists>EC'. union_leaders (Some (hd c)) (Some (hd d)) EC = Inr (Some (hd c), EC') \<and>
    represents EC' (insert (c @ d) (C - {c, d})) \<and> Elems EC' = Elems EC"
proof -
  have disj: "set c \<inter> set d = {}" using representsD(5) [OF R c(1,2)] c(3) by blast
  obtain EC' where U: "union_leaders (Some (hd c)) (Some (hd d)) EC = Inr (Some (hd c), EC')" "ec_chain EC' (c @ d)"
    "Elems EC' = Elems EC" "\<forall>x. x \<notin> set c \<union> set d \<longrightarrow> Node EC' x = Node EC x"
    using ec_chain_append [OF representsD(4) [OF R c(1)] representsD(4) [OF R c(2)] disj] by blast
  have apart: "set e \<inter> (set c \<union> set d) = {}" if "e \<in> C - {c, d}" for e
    using that representsD(5) [OF R _ c(1)] representsD(5) [OF R _ c(2)] by blast
  have other: "ec_chain EC' e" if "e \<in> C - {c, d}" for e
    using apart [OF that] U(4) representsD(4) [OF R] that by (intro ec_chain_cong [of e EC' EC]) blast+
  have "(\<Union>e \<in> insert (c @ d) (C - {c, d}). set e) = set (Elems EC)"
    using representsD(3) [OF R] c by auto
  then have "represents EC' (insert (c @ d) (C - {c, d}))"
    using R U(2) other apart unfolding represents_def U(3) by (auto simp: Int_Un_distrib Int_commute)
  then show ?thesis using U by blast
qed

end
