(* ===== verification/LL_EC_Props.thy ===== *)
theory LL_EC_Props imports LL_EC_Lemmas begin

text \<open>
  Properties of \<open>ADT/EquivalenceClasses.h\<close>: the operations refine those of an equivalence relation
  on a finite set; members, number of classes, copies.
\<close>

section \<open>The relation\<close>

text \<open>Well-formed classes, and when two elements of theirs are equivalent: they have one leader.\<close>

definition classes_ok :: "'a::linorder eq_classes \<Rightarrow> bool" where
  "classes_ok EC \<longleftrightarrow> (\<exists>C. represents EC C)"

definition leader_of :: "'a eq_classes \<Rightarrow> 'a \<Rightarrow> 'a option" where
  "leader_of EC x = map_option fst (getLeader EC x)"

definition related :: "'a eq_classes \<Rightarrow> 'a \<Rightarrow> 'a \<Rightarrow> bool" where
  "related EC a b \<longleftrightarrow> a \<in> set (Elems EC) \<and> b \<in> set (Elems EC) \<and> leader_of EC a = leader_of EC b"

lemma leader_of_class: "represents EC C \<Longrightarrow> c \<in> C \<Longrightarrow> x \<in> set c \<Longrightarrow> leader_of EC x = Some (hd c)"
  using getLeader_spec [of EC C c x] by (auto simp: leader_of_def)

lemma class_in: "represents EC C \<Longrightarrow> c \<in> C \<Longrightarrow> x \<in> set c \<Longrightarrow> x \<in> set (Elems EC)"
  using representsD(3) by blast

lemma class_hd: "represents EC C \<Longrightarrow> c \<in> C \<Longrightarrow> hd c \<in> set c"
  using ec_chainD(1) [OF representsD(4)] hd_in_set by metis

lemma hd_eq:
  assumes R: "represents EC C" and c: "c \<in> C" "d \<in> C" "hd c = hd d"
  shows "c = d"
  using representsD(5) [OF R c(1,2)] class_hd [OF R c(1)] class_hd [OF R c(2)] c(3) by metis

lemma related_iff:
  assumes R: "represents EC C"
  shows "related EC a b \<longleftrightarrow> (\<exists>c \<in> C. a \<in> set c \<and> b \<in> set c)"
proof
  assume ab: "related EC a b"
  obtain c where c: "c \<in> C" "a \<in> set c" using ab class_of [OF R] unfolding related_def by blast
  obtain d where d: "d \<in> C" "b \<in> set d" using ab class_of [OF R] unfolding related_def by blast
  have "hd c = hd d" using ab leader_of_class [OF R c] leader_of_class [OF R d] by (simp add: related_def)
  then have "c = d" by (rule hd_eq [OF R c(1) d(1)])
  then show "\<exists>c \<in> C. a \<in> set c \<and> b \<in> set c" using c d by blast
next
  assume "\<exists>c \<in> C. a \<in> set c \<and> b \<in> set c"
  then obtain c where c: "c \<in> C" "a \<in> set c" "b \<in> set c" by blast
  then show "related EC a b"
    using leader_of_class [OF R c(1)] class_in [OF R c(1)] by (simp add: related_def)
qed

lemma related_cong: "represents EC C \<Longrightarrow> represents EC' C \<Longrightarrow> related EC' a b = related EC a b"
  by (simp add: related_iff)

section \<open>Operations\<close>

lemma findLeader_spec:
  assumes R: "represents EC C" and x: "x \<in> set (Elems EC)"
  obtains c EC' where "c \<in> C" "x \<in> set c" "findLeader EC x = Some (Some (hd c), EC')"
    "findLeader_at EC (Some x) = Some (Some (hd c), EC')" "represents EC' C" "Elems EC' = Elems EC"
proof -
  obtain c where c: "c \<in> C" "x \<in> set c" using class_of [OF R x] .
  from getLeader_spec [OF R c] show ?thesis
    using that [OF c] x by (auto simp: findLeader_def findLeader_at_def findValue_def)
qed

lemma findLeader_absent: "x \<notin> set (Elems EC) \<Longrightarrow> findLeader EC x = Some (None, EC)"
  by (simp add: findLeader_def findLeader_at_def findValue_def)

text \<open>The classes after the elements of a union are inserted.\<close>

definition with_singleton :: "'a \<Rightarrow> 'a set \<Rightarrow> 'a list set \<Rightarrow> 'a list set" where
  "with_singleton v E C = (if v \<in> E then C else insert [v] C)"

lemma insert_value_pair: "\<exists>EC'. insert_value v EC = (v, EC')"
  by (simp add: insert_value_def)

lemma insert_related:
  assumes R: "represents EC C"
  shows "represents (snd (insert_value v EC)) (with_singleton v (set (Elems EC)) C)"
    "related (snd (insert_value v EC)) a b \<longleftrightarrow> related EC a b \<or> a = v \<and> b = v"
proof -
  show I: "represents (snd (insert_value v EC)) (with_singleton v (set (Elems EC)) C)"
    unfolding with_singleton_def by (rule insert_value_spec(2) [OF R])
  show "related (snd (insert_value v EC)) a b \<longleftrightarrow> related EC a b \<or> a = v \<and> b = v"
  proof (cases "v \<in> set (Elems EC)")
    case True
    then show ?thesis by (auto simp: insert_value_def related_def)
  next
    case False
    then show ?thesis unfolding related_iff [OF I] related_iff [OF R] by (auto simp: with_singleton_def)
  qed
qed

text \<open>The relation that joins the classes of two elements, which it adds if they are not there.\<close>

definition with_both :: "'a eq_classes \<Rightarrow> 'a \<Rightarrow> 'a \<Rightarrow> 'a \<Rightarrow> 'a \<Rightarrow> bool" where
  "with_both EC V1 V2 a b \<longleftrightarrow> related EC a b \<or> a = b \<and> b \<in> {V1, V2}"

definition joined :: "'a eq_classes \<Rightarrow> 'a \<Rightarrow> 'a \<Rightarrow> 'a \<Rightarrow> 'a \<Rightarrow> bool" where
  "joined EC V1 V2 a b \<longleftrightarrow> with_both EC V1 V2 a b \<or>
     with_both EC V1 V2 a V1 \<and> with_both EC V1 V2 V2 b \<or> with_both EC V1 V2 a V2 \<and> with_both EC V1 V2 V1 b"

lemma union_related:
  assumes R: "represents EC C" and c: "c \<in> C" "V1 \<in> set c" and d: "d \<in> C" "V2 \<in> set d" and ne: "c \<noteq> d"
    and R': "represents EC' (insert (c @ d) (C - {c, d}))"
  shows "related EC' a b \<longleftrightarrow>
    related EC a b \<or> related EC a V1 \<and> related EC V2 b \<or> related EC a V2 \<and> related EC V1 b"
proof -
  have v1: "related EC x V1 \<longleftrightarrow> x \<in> set c" "related EC V1 x \<longleftrightarrow> x \<in> set c" for x
    using c representsD(5) [OF R c(1)] by (auto simp: related_iff [OF R])
  have v2: "related EC x V2 \<longleftrightarrow> x \<in> set d" "related EC V2 x \<longleftrightarrow> x \<in> set d" for x
    using d representsD(5) [OF R d(1)] by (auto simp: related_iff [OF R])
  have "related EC' a b \<longleftrightarrow> a \<in> set c \<union> set d \<and> b \<in> set c \<union> set d \<or> (\<exists>e \<in> C - {c, d}. a \<in> set e \<and> b \<in> set e)"
    by (simp add: related_iff [OF R'])
  also have "\<dots> \<longleftrightarrow> related EC a b \<or> a \<in> set c \<and> b \<in> set d \<or> a \<in> set d \<and> b \<in> set c"
    unfolding related_iff [OF R] using c(1) d(1) by blast
  finally show ?thesis by (simp only: v1 v2)
qed

lemma unionSets_spec:
  assumes R: "represents EC C"
  shows "\<exists>l EC'. unionSets V1 V2 EC = Some (Inr (Some l, EC')) \<and> classes_ok EC' \<and> leader_of EC' V1 = Some l \<and>
    set (Elems EC') = {V1, V2} \<union> set (Elems EC) \<and> (\<forall>a b. related EC' a b \<longleftrightarrow> joined EC V1 V2 a b)"
proof -
  obtain E1 where i1: "insert_value V1 EC = (V1, E1)" using insert_value_pair by blast
  obtain E2 where i2: "insert_value V2 E1 = (V2, E2)" using insert_value_pair by blast
  note I1 = insert_related [OF R, of V1, unfolded i1 snd_conv]
  note I2 = insert_related [OF I1(1), of V2, unfolded i2 snd_conv]
  obtain C2 where R2: "represents E2 C2" using I2(1) by blast
  have both: "related E2 a b \<longleftrightarrow> with_both EC V1 V2 a b" for a b
    unfolding I2(2) I1(2) with_both_def by auto
  have E2_set: "set (Elems E2) = {V1, V2} \<union> set (Elems EC)"
    using insert_value_spec(3) [OF R, of V1] insert_value_spec(3) [OF I1(1), of V2] by (auto simp: i1 i2)
  have V1: "V1 \<in> set (Elems E2)" using E2_set by simp
  obtain c E3 where c: "c \<in> C2" "V1 \<in> set c" "findLeader_at E2 (Some V1) = Some (Some (hd c), E3)"
    "represents E3 C2" "Elems E3 = Elems E2"
    by (rule findLeader_spec [OF R2 V1], rule that)
  have V2: "V2 \<in> set (Elems E3)" using E2_set c(5) by simp
  obtain d E4 where d: "d \<in> C2" "V2 \<in> set d" "findLeader_at E3 (Some V2) = Some (Some (hd d), E4)"
    "represents E4 C2" "Elems E4 = Elems E3"
    by (rule findLeader_spec [OF c(4) V2], rule that)
  have u: "unionSets V1 V2 EC = Some (union_leaders (Some (hd c)) (Some (hd d)) E4)"
    by (simp add: unionSets_def Let_def i1 i2 c(3) d(3))
  have both4: "related E4 a b \<longleftrightarrow> with_both EC V1 V2 a b" for a b
    using related_cong [OF R2 d(4)] both by simp
  show ?thesis
  proof (cases "c = d")
    case True
    then have "unionSets V1 V2 EC = Some (Inr (Some (hd c), E4))" by (simp add: u union_leaders_def)
    moreover have "related E4 x V1 \<longleftrightarrow> related E4 x V2" "related E4 V1 x \<longleftrightarrow> related E4 V2 x" for x
      using c d True representsD(5) [OF d(4) c(1)] unfolding related_iff [OF d(4)] by blast+
    then have "with_both EC V1 V2 a b \<longleftrightarrow> joined EC V1 V2 a b" for a b
      unfolding joined_def both4 [symmetric] using c d(4)
      by (auto simp: related_def)
    ultimately show ?thesis
      using both4 d(4,5) c(5) E2_set leader_of_class [OF d(4) c(1,2)] by (auto simp: classes_ok_def)
  next
    case False
    obtain E5 where E5: "union_leaders (Some (hd c)) (Some (hd d)) E4 = Inr (Some (hd c), E5)"
      "represents E5 (insert (c @ d) (C2 - {c, d}))" "Elems E5 = Elems E4"
      using union_leaders_spec [OF d(4) c(1) d(1) False] by blast
    have "leader_of E5 V1 = Some (hd c)"
      using leader_of_class [OF E5(2), of "c @ d" V1] c(2) by (cases c) auto
    moreover have "related E5 a b \<longleftrightarrow> joined EC V1 V2 a b" for a b
      unfolding union_related [OF d(4) c(1,2) d(1,2) False E5(2)] both4 joined_def ..
    ultimately show ?thesis using E5 u d(5) c(5) E2_set by (auto simp: classes_ok_def)
  qed
qed

lemma isEquivalent_spec:
  assumes R: "represents EC C"
  shows "\<exists>EC'. isEquivalent EC a b = Some (a = b \<or> related EC a b, EC') \<and> represents EC' C \<and> Elems EC' = Elems EC"
proof (cases "a = b \<or> a \<notin> set (Elems EC)")
  case True
  then show ?thesis using R findLeader_absent [of a EC] by (auto simp: isEquivalent_def related_def)
next
  case False
  then have a: "a \<in> set (Elems EC)" by blast
  obtain c E1 where c: "c \<in> C" "a \<in> set c" "findLeader EC a = Some (Some (hd c), E1)"
    "represents E1 C" "Elems E1 = Elems EC"
    by (rule findLeader_spec [OF R a], rule that)
  show ?thesis
  proof (cases "b \<in> set (Elems EC)")
    case True
    then have b: "b \<in> set (Elems E1)" using c(5) by simp
    obtain d E2 where d: "d \<in> C" "b \<in> set d" "findLeader E1 b = Some (Some (hd d), E2)"
      "represents E2 C" "Elems E2 = Elems E1"
      by (rule findLeader_spec [OF c(4) b], rule that)
    have "hd c = hd d \<longleftrightarrow> related EC a b"
      using hd_eq [OF R c(1) d(1)] c d representsD(5) [OF R c(1)] representsD(5) [OF R d(1)]
      unfolding related_iff [OF R] by metis
    then show ?thesis using False c d by (simp add: isEquivalent_def)
  next
    case no: False
    then have "findLeader E1 b = Some (None, E1)" using c(5) findLeader_absent by metis
    then show ?thesis using False no c by (simp add: isEquivalent_def related_def)
  qed
qed

lemma getOrInsertLeaderValue_spec:
  assumes R: "represents EC C"
  shows "\<exists>l EC'. getOrInsertLeaderValue EC v = Some (Inr (l, EC')) \<and> classes_ok EC' \<and> leader_of EC' v = Some l \<and>
    (\<forall>a b. related EC' a b \<longleftrightarrow> related EC a b \<or> a = v \<and> b = v)"
proof -
  obtain E1 where i: "insert_value v EC = (v, E1)" using insert_value_pair by blast
  note I = insert_related [OF R, of v, unfolded i snd_conv]
  have v: "v \<in> set (Elems E1)" using insert_value_spec(3) [OF R, of v] by (simp add: i)
  obtain c E2 where c: "c \<in> with_singleton v (set (Elems EC)) C" "v \<in> set c"
    "findLeader_at E1 (Some v) = Some (Some (hd c), E2)" "represents E2 (with_singleton v (set (Elems EC)) C)"
    by (rule findLeader_spec [OF I(1) v], rule that)
  have "getOrInsertLeaderValue EC v = Some (Inr (hd c, E2))"
    by (simp add: getOrInsertLeaderValue_def i c(3))
  then show ?thesis
    using leader_of_class [OF c(4,1,2)] related_cong [OF I(1) c(4)] I(2) c(4) by (auto simp: classes_ok_def)
qed

section \<open>Members, counts and copies\<close>

text \<open>The elements the loop over the members of a class comes to.\<close>

partial_function (option) members :: "'a eq_classes \<Rightarrow> 'a option \<Rightarrow> 'a list option" where
  "members EC MI =
     (case MI of None \<Rightarrow> Some []
      | Some N \<Rightarrow> Option.bind (members EC (getNext EC N)) (\<lambda>r. Some (N # r)))"

lemma members_ec_chain:
  assumes c: "ec_chain EC c"
  shows "i \<le> length c \<Longrightarrow> members EC (if i < length c then Some (c ! i) else None) = Some (drop i c)"
proof (induction "length c - i" arbitrary: i)
  case 0
  then show ?case by (subst members.simps) simp
next
  case (Suc n)
  then have i: "i < length c" by simp
  have "members EC (getNext EC (c ! i)) = Some (drop (Suc i) c)"
    using Suc.hyps(1) [of "Suc i"] Suc.hyps(2) i ec_chainD(5) [OF c i] by simp
  then show ?case using i by (subst members.simps) (simp add: Cons_nth_drop_Suc)
qed

lemma members_class: "represents EC C \<Longrightarrow> c \<in> C \<Longrightarrow> members EC (member_begin EC (hd c)) = Some c"
  using members_ec_chain [OF representsD(4), of EC C c 0] ec_chain_hd [OF representsD(4), of EC C c] ec_chainD(1) [OF representsD(4), of EC C c]
  by (simp add: member_begin_def hd_conv_nth)

lemma leader_iff:
  assumes R: "represents EC C" and x: "x \<in> set (Elems EC)"
  shows "isLeader EC x \<longleftrightarrow> (\<exists>c \<in> C. hd c = x)"
proof -
  obtain c where c: "c \<in> C" "x \<in> set c" by (rule class_of [OF R x])
  have "isLeader EC x \<longleftrightarrow> x = hd c" using ec_chain_leader representsD(4) [OF R c(1)] c(2) by metis
  moreover have "d = c" if "d \<in> C" "hd d = x" for d
    using representsD(5) [OF R that(1) c(1)] class_hd [OF R that(1)] that(2) c(2) by metis
  ultimately show ?thesis using c(1) by metis
qed

lemma count_foldl:
  "foldl (\<lambda>NC I. if P I then NC + 1 else NC) (of_nat n :: u32) xs = of_nat (n + length (filter P xs))"
proof (induction xs arbitrary: n)
  case (Cons x xs)
  show ?case using Cons.IH [of n] Cons.IH [of "Suc n"] by (simp add: add.commute)
qed simp

lemma getNumClasses_spec:
  assumes R: "represents EC C"
  shows "getNumClasses EC = of_nat (card C)"
proof -
  have "filter (isLeader EC) (Elems EC) = filter (\<lambda>x. \<exists>c \<in> C. hd c = x) (Elems EC)"
    using leader_iff [OF R] by (intro filter_cong refl)
  moreover have "distinct (filter (\<lambda>x. \<exists>c \<in> C. hd c = x) (Elems EC))" using representsD(2) [OF R] by simp
  moreover have "set (filter (\<lambda>x. \<exists>c \<in> C. hd c = x) (Elems EC)) = hd ` C"
    using class_in [OF R] class_hd [OF R] by auto
  ultimately have "length (filter (isLeader EC) (Elems EC)) = card (hd ` C)" by (metis distinct_card)
  also have "\<dots> = card C" using hd_eq [OF R] by (intro card_image inj_onI)
  finally show ?thesis using count_foldl [of "isLeader EC" 0 "Elems EC"] by (simp add: getNumClasses_def)
qed

text \<open>The quotient has one element for each class.\<close>

lemma quotient_card:
  assumes R: "represents EC C"
  shows "card {{b. related EC a b} | a. a \<in> set (Elems EC)} = card C"
proof -
  have cls: "{b. related EC a b} = set c" if "c \<in> C" "a \<in> set c" for a c
    using that representsD(5) [OF R] unfolding related_iff [OF R] by blast
  have fwd: "{b. related EC a b} \<in> set ` C" if a: "a \<in> set (Elems EC)" for a
  proof -
    obtain c where c: "c \<in> C" "a \<in> set c" by (rule class_of [OF R a])
    show ?thesis unfolding cls [OF c] using c(1) by (rule imageI)
  qed
  have bwd: "\<exists>a. set c = {b. related EC a b} \<and> a \<in> set (Elems EC)" if c: "c \<in> C" for c
    using cls [OF c class_hd [OF R c]] class_in [OF R c class_hd [OF R c]] by metis
  have "{{b. related EC a b} | a. a \<in> set (Elems EC)} = set ` C"
    using fwd bwd by auto
  moreover have "inj_on set C"
    using representsD(5) [OF R] class_hd [OF R] by (intro inj_onI) metis
  ultimately show ?thesis by (simp add: card_image)
qed

text \<open>Copying the rest of a class to its leader.\<close>

lemma assign_members_spec:
  assumes R: "represents RHS C" "c \<in> C"
  shows "0 < i \<Longrightarrow> i \<le> length c \<Longrightarrow> represents EC (insert (take i c) D) \<Longrightarrow> (\<And>e. e \<in> D \<Longrightarrow> set e \<inter> set c = {}) \<Longrightarrow>
    \<exists>EC'. assign_members RHS (Some (hd c)) (if i < length c then Some (c ! i) else None) EC = Some (Inr EC') \<and>
      represents EC' (insert c D)"
proof (induction "length c - i" arbitrary: i EC)
  case 0
  then show ?case by (subst assign_members.simps) simp
next
  case (Suc n)
  note ch = representsD(4) [OF R]
  have i: "i < length c" using Suc.hyps(2) by simp
  let ?N = "c ! i" and ?t = "take i c"
  have ne: "?t \<noteq> []" "hd ?t = hd c" using Suc.prems(1) i by (auto simp: hd_take)
  have Nt: "?N \<notin> set ?t" using ec_chainD(2) [OF ch] i by (auto simp: in_set_conv_nth nth_eq_iff_index_eq)
  have ND: "?N \<notin> set e" if "e \<in> D" for e using Suc.prems(4) [OF that] nth_mem [OF i] by (metis disjoint_iff)
  have out: "?N \<notin> set (Elems EC)" using representsD(3) [OF Suc.prems(3)] Nt ND by auto
  obtain E1 where ins: "insert_value ?N EC = (?N, E1)" using insert_value_pair by blast
  have R1: "represents E1 (insert [?N] (insert ?t D))"
    using insert_value_spec(2) [OF Suc.prems(3), of ?N] out by (simp add: ins)
  have b: "member_begin E1 ?N = Some (hd [?N])"
    using ec_chain_hd [OF representsD(4) [OF R1, of "[?N]"]] by (simp add: member_begin_def)
  have neq: "?t \<noteq> [?N]" using Nt by (cases ?t) auto
  obtain E2 where U: "union_leaders (Some (hd c)) (Some (hd [?N])) E1 = Inr (Some (hd c), E2)"
    "represents E2 (insert (?t @ [?N]) (insert [?N] (insert ?t D) - {?t, [?N]}))"
    using union_leaders_spec [OF R1 _ _ neq] ne(2) by auto
  have "hd ?t \<in> set ?t" "hd ?t \<in> set c"
    using hd_in_set [OF ne(1)] in_set_takeD [of "hd ?t" i c] by blast+
  then have "?t \<notin> D" using Suc.prems(4) [of ?t] by (metis disjoint_iff)
  moreover have "[?N] \<notin> D" using ND [of "[?N]"] by auto
  ultimately have "insert [?N] (insert ?t D) - {?t, [?N]} = D" by blast
  then have R2: "represents E2 (insert (take (Suc i) c) D)" using U(2) i by (simp add: take_Suc_conv_app_nth)
  have "assign_members RHS (Some (hd c)) (Some ?N) EC =
      assign_members RHS (Some (hd c)) (if Suc i < length c then Some (c ! Suc i) else None) E2"
    using U(1) by (subst assign_members.simps) (simp add: ins b ec_chainD(5) [OF ch i] del: list.sel)
  then show ?case
    using Suc.hyps(1) [OF _ _ _ R2 Suc.prems(4)] Suc.hyps(2) i by simp
qed

lemma assign_loop_spec:
  assumes R: "represents RHS C"
  shows "set Is \<subseteq> set (Elems RHS) \<Longrightarrow> distinct Is \<Longrightarrow> D \<subseteq> C \<Longrightarrow> (\<And>c. c \<in> D \<Longrightarrow> hd c \<notin> set Is) \<Longrightarrow> represents EC D \<Longrightarrow>
    \<exists>EC'. assign_loop RHS Is EC = Some (Inr EC') \<and> represents EC' (D \<union> {c \<in> C. hd c \<in> set Is})"
proof (induction Is arbitrary: D EC)
  case (Cons I Is)
  have I: "I \<in> set (Elems RHS)" using Cons.prems(1) by simp
  show ?case
  proof (cases "isLeader RHS I")
    case False
    then have none: "hd c \<noteq> I" if "c \<in> C" for c using that leader_iff [OF R I] by blast
    have sub: "set Is \<subseteq> set (Elems RHS)" "distinct Is" using Cons.prems(1,2) by simp_all
    have later: "hd c \<notin> set Is" if "c \<in> D" for c using Cons.prems(4) [OF that] by simp
    obtain EC' where EC': "assign_loop RHS Is EC = Some (Inr EC')" "represents EC' (D \<union> {c \<in> C. hd c \<in> set Is})"
      using Cons.IH [OF sub Cons.prems(3) later Cons.prems(5)] by blast
    have "{c \<in> C. hd c \<in> set (I # Is)} = {c \<in> C. hd c \<in> set Is}" using none by auto
    then show ?thesis using EC' False by simp
  next
    case True
    then obtain c where c: "c \<in> C" "hd c = I" using leader_iff [OF R I] by blast
    note ch = representsD(4) [OF R c(1)]
    have cD: "c \<notin> D" using Cons.prems(4) c(2) by auto
    have apart: "set e \<inter> set c = {}" if "e \<in> D" for e
      using that cD Cons.prems(3) representsD(5) [OF R _ c(1)] by (metis disjoint_iff subsetD)
    have hc: "hd c \<in> set c" by (rule class_hd [OF R c(1)])
    have out: "I \<notin> set (Elems EC)"
      using representsD(3) [OF Cons.prems(5)] apart hc c(2) by auto
    obtain E1 where ins: "insert_value I EC = (I, E1)" using insert_value_pair by blast
    have t: "take (Suc 0) c = [I]" using ec_chainD(1) [OF ch] c(2) by (cases c) simp_all
    have R1: "represents E1 (insert (take 1 c) D)"
      using insert_value_spec(2) [OF Cons.prems(5), of I] out by (simp add: ins t)
    have l1: "(0 :: nat) < 1" "1 \<le> length c" using ec_chainD(1) [OF ch] by (simp_all add: Suc_le_eq)
    obtain E2 where E2: "assign_members RHS (Some (hd c)) (if 1 < length c then Some (c ! 1) else None) E1 = Some (Inr E2)"
      "represents E2 (insert c D)"
      using assign_members_spec [OF R c(1) l1 R1 apart] by blast
    have nx: "getNext RHS I = (if 1 < length c then Some (c ! 1) else None)"
      using ec_chainD(5) [OF ch, of 0] l1 c(2) ec_chainD(1) [OF ch] by (simp add: hd_conv_nth)
    have b: "member_begin E1 I = Some (hd c)"
      using ec_chain_hd [OF representsD(4) [OF R1, of "[I]"]] by (simp add: member_begin_def t c(2))
    have sub: "set Is \<subseteq> set (Elems RHS)" "distinct Is" using Cons.prems(1,2) by simp_all
    have D2: "insert c D \<subseteq> C" using Cons.prems(3) c(1) by simp
    have later: "hd e \<notin> set Is" if "e \<in> insert c D" for e
      using that Cons.prems(2,4) c(2) by auto
    obtain EC' where EC': "assign_loop RHS Is E2 = Some (Inr EC')"
      "represents EC' (insert c D \<union> {c \<in> C. hd c \<in> set Is})"
      using Cons.IH [OF sub D2 later E2(2)] by blast
    have only: "e = c" if "e \<in> C" "hd e = I" for e using hd_eq [OF R that(1) c(1)] that(2) c(2) by simp
    have "insert c D \<union> {c \<in> C. hd c \<in> set Is} = D \<union> {c \<in> C. hd c \<in> set (I # Is)}"
      using c only unfolding set_simps by blast
    moreover have "assign_loop RHS (I # Is) EC = Some (Inr EC')"
      using True E2(1) EC'(1) by (simp add: ins b nx)
    ultimately show ?thesis using EC'(2) by metis
  qed
qed simp

lemma represents_nothing: "Elems EC = [] \<Longrightarrow> represents EC {}"
  by (simp add: represents_def)

lemma assign_spec:
  assumes R: "represents RHS C"
  shows "\<exists>EC'. assign RHS EC = Some (Inr EC') \<and> represents EC' C \<and> Elems EC' = Elems RHS"
proof -
  have "\<exists>EC'. assign_loop RHS (Elems RHS) (EC\<lparr>Elems := []\<rparr>) = Some (Inr EC') \<and>
      represents EC' ({} \<union> {c \<in> C. hd c \<in> set (Elems RHS)})"
    using representsD(2) [OF R] by (intro assign_loop_spec [OF R] represents_nothing) simp_all
  moreover have "{c \<in> C. hd c \<in> set (Elems RHS)} = C" using class_in [OF R _ class_hd [OF R]] by blast
  ultimately obtain EC' where E: "assign RHS EC = Some (Inr EC')" "represents EC' C" by (auto simp: assign_def)
  have "set (Elems EC') = set (Elems RHS)" using representsD(3) [OF E(2)] representsD(3) [OF R] by simp
  then have "Elems EC' = Elems RHS"
    using representsD(1,2) [OF E(2)] representsD(1,2) [OF R] sorted_distinct_set_unique by metis
  then show ?thesis using E by blast
qed

text \<open>Assigning classes to themselves removes every element: they are cleared before they are read.\<close>

lemma assign_self_clears: "assign_self EC = Some (Inr (EC\<lparr>Elems := []\<rparr>))"
  by (simp add: assign_self_def)

section \<open>Properties\<close>

text \<open>
  C38. Classes that are well formed stand for an equivalence relation on their elements.
  \<open>unionSets\<close> adds its two elements if they are not there and joins their classes, changes nothing
  else, and returns the leader of the first; \<open>isEquivalent\<close> says whether its arguments are equal or
  related; \<open>getOrInsertLeaderValue\<close> adds its argument if it is not there and returns its leader.
  Every search for a leader ends, and the compression of paths does not change the relation.
\<close>

theorem EquivalenceClasses_refines_relation:
  assumes "classes_ok EC"
  shows "equivp (\<lambda>a b. a = b \<or> related EC a b) \<and>
    (\<exists>l EC'. unionSets V1 V2 EC = Some (Inr (Some l, EC')) \<and> classes_ok EC' \<and> leader_of EC' V1 = Some l \<and>
      set (Elems EC') = {V1, V2} \<union> set (Elems EC) \<and> (\<forall>a b. related EC' a b \<longleftrightarrow> joined EC V1 V2 a b)) \<and>
    (\<exists>EC'. isEquivalent EC V1 V2 = Some (V1 = V2 \<or> related EC V1 V2, EC') \<and> classes_ok EC' \<and>
      Elems EC' = Elems EC \<and> related EC' = related EC) \<and>
    (\<exists>l EC'. getOrInsertLeaderValue EC V1 = Some (Inr (l, EC')) \<and> classes_ok EC' \<and> leader_of EC' V1 = Some l \<and>
      (\<forall>a b. related EC' a b \<longleftrightarrow> related EC a b \<or> a = V1 \<and> b = V1))"
proof -
  obtain C where R: "represents EC C" using assms unfolding classes_ok_def by blast
  have "equivp (\<lambda>a b. a = b \<or> related EC a b)"
    by (intro equivpI reflpI sympI transpI) (auto simp: related_def)
  moreover obtain EC' where E: "isEquivalent EC V1 V2 = Some (V1 = V2 \<or> related EC V1 V2, EC')" "represents EC' C"
    "Elems EC' = Elems EC"
    using isEquivalent_spec [OF R] by metis
  moreover have "related EC' = related EC" using related_cong [OF R E(2)] by (intro ext)
  moreover have "classes_ok EC'" using E(2) by (auto simp: classes_ok_def)
  ultimately show ?thesis
    using unionSets_spec [OF R, of V1 V2] getOrInsertLeaderValue_spec [OF R, of V1] by (intro conjI) blast+
qed

text \<open>The example of the header: the classes of 1, 2, 4 and 5.\<close>

lemma EquivalenceClasses_refines_relation_witness:
  "\<exists>l l' EC EC' :: nat eq_classes. unionSets 1 2 \<lparr>Elems = [], Node = ECValue\<rparr> = Some (Inr (Some l, EC)) \<and>
    unionSets 5 1 EC = Some (Inr (Some l', EC')) \<and> set (Elems EC') = {1, 2, 5} \<and> related EC' 5 2 \<and> \<not> related EC 5 2 \<and>
    (\<exists>EC''. isEquivalent EC' 5 2 = Some (True, EC''))"
proof -
  let ?E0 = "\<lparr>Elems = [], Node = ECValue\<rparr> :: nat eq_classes"
  have ok: "classes_ok ?E0" unfolding classes_ok_def by (intro exI [of _ "{}"] represents_nothing) simp
  have none: "\<not> related ?E0 a b" for a b by (simp add: related_def)
  obtain l EC where EC: "unionSets 1 2 ?E0 = Some (Inr (Some l, EC))" "classes_ok EC"
    "set (Elems EC) = {1, 2} \<union> set (Elems ?E0)" "\<forall>a b. related EC a b \<longleftrightarrow> joined ?E0 1 2 a b"
    using EquivalenceClasses_refines_relation [OF ok, of 1 2] by blast
  have E1: "related EC a b \<longleftrightarrow> a \<in> {1, 2} \<and> b \<in> {1, 2}" for a b
    using EC(4) none by (auto simp: joined_def with_both_def)
  obtain l' EC' where EC': "unionSets 5 1 EC = Some (Inr (Some l', EC'))" "classes_ok EC'"
    "set (Elems EC') = {5, 1} \<union> set (Elems EC)" "\<forall>a b. related EC' a b \<longleftrightarrow> joined EC 5 1 a b"
    using EquivalenceClasses_refines_relation [OF EC(2), of 5 1] by blast
  have r: "related EC' 5 2" using EC'(4) by (simp add: joined_def with_both_def E1)
  moreover have "\<exists>EC''. isEquivalent EC' 5 2 = Some (True, EC'')"
    using EquivalenceClasses_refines_relation [OF EC'(2), of 5 2] r by auto
  moreover have "\<not> related EC 5 2" by (simp add: E1)
  moreover have "set (Elems EC') = {1, 2, 5}" using EC(3) EC'(3) by auto
  ultimately show ?thesis using EC(1) EC'(1) by blast
qed

text \<open>
  The loop over the members of a class, begun at its leader, comes to each element of the class
  once, the leader first; the number of classes is that of the relation; an assignment gives the
  elements and the relation of the right side, whatever was there before.
\<close>

theorem EquivalenceClasses_members_and_copies:
  assumes "classes_ok EC" "x \<in> set (Elems EC)"
  shows "(\<exists>l c. leader_of EC x = Some l \<and> members EC (member_begin EC l) = Some c \<and> distinct c \<and> hd c = l \<and>
      set c = {y. related EC x y}) \<and>
    getNumClasses EC = of_nat (card {{b. related EC a b} | a. a \<in> set (Elems EC)}) \<and>
    (\<exists>EC'. assign EC old = Some (Inr EC') \<and> classes_ok EC' \<and> Elems EC' = Elems EC \<and> related EC' = related EC)"
proof -
  obtain C where R: "represents EC C" using assms(1) unfolding classes_ok_def by blast
  obtain c where c: "c \<in> C" "x \<in> set c" by (rule class_of [OF R assms(2)])
  have "set c = {y. related EC x y}" using c representsD(5) [OF R c(1)] by (auto simp: related_iff [OF R])
  moreover have "distinct c" by (rule ec_chainD(2) [OF representsD(4) [OF R c(1)]])
  ultimately have "\<exists>l c. leader_of EC x = Some l \<and> members EC (member_begin EC l) = Some c \<and> distinct c \<and> hd c = l \<and>
      set c = {y. related EC x y}"
    using leader_of_class [OF R c] members_class [OF R c(1)] by blast
  moreover have "getNumClasses EC = of_nat (card {{b. related EC a b} | a. a \<in> set (Elems EC)})"
    by (simp only: getNumClasses_spec [OF R] quotient_card [OF R])
  moreover obtain EC' where E: "assign EC old = Some (Inr EC')" "represents EC' C" "Elems EC' = Elems EC"
    using assign_spec [OF R] by blast
  moreover have "related EC' = related EC" using related_cong [OF R E(2)] by (intro ext)
  moreover have "classes_ok EC'" using E(2) by (auto simp: classes_ok_def)
  ultimately show ?thesis by blast
qed

lemma EquivalenceClasses_members_and_copies_witness:
  "\<exists>EC EC' :: nat eq_classes. insert_value 7 \<lparr>Elems = [], Node = ECValue\<rparr> = (7, EC) \<and> getNumClasses EC = 1 \<and>
    members EC (member_begin EC 7) = Some [7] \<and>
    assign EC \<lparr>Elems = [3], Node = ECValue\<rparr> = Some (Inr EC') \<and> Elems EC' = [7]"
proof -
  let ?E0 = "\<lparr>Elems = [], Node = ECValue\<rparr> :: nat eq_classes"
  have R0: "represents ?E0 {}" by (intro represents_nothing) simp
  obtain EC where EC: "insert_value 7 ?E0 = (7, EC)" using insert_value_pair by blast
  have E: "Elems EC = [7]" using EC by (auto simp: insert_value_def)
  have R: "represents EC {[7]}" using insert_value_spec(2) [OF R0, of 7] by (simp add: EC)
  then have ok: "classes_ok EC" by (auto simp: classes_ok_def)
  have x: "7 \<in> set (Elems EC)" by (simp add: E)
  have r: "related EC a b \<longleftrightarrow> a = 7 \<and> b = 7" for a b by (simp add: related_iff [OF R])
  note P = EquivalenceClasses_members_and_copies [OF ok x, of "\<lparr>Elems = [3], Node = ECValue\<rparr>"]
  obtain l c where c: "leader_of EC 7 = Some l" "members EC (member_begin EC l) = Some c" "distinct c" "hd c = l"
    "set c = {y. related EC 7 y}" using P by blast
  have "set c = {7}" using c(5) by (auto simp: r)
  then have c7: "c = [7]" using c(3) by (cases c) (auto simp: subset_singleton_iff)
  have "{{b. related EC a b} | a. a \<in> set (Elems EC)} = {{7}}" by (auto simp: r E)
  then have n: "getNumClasses EC = 1" using P by simp
  obtain EC' where "assign EC \<lparr>Elems = [3], Node = ECValue\<rparr> = Some (Inr EC')" "Elems EC' = Elems EC" using P by blast
  then show ?thesis using EC n c(2,4) c7 E by auto
qed

end
