(* ===== verification/LL_StringRef.thy ===== *)
theory LL_StringRef imports PT_Memory "HOL-Library.Sublist" begin

text \<open>
  \<open>StringRef\<close> of \<open>ADT/StringRef.h\<close>, the strings the pass compares names with: a pointer into the
  memory of \<open>PT_Memory\<close> and a length.  A character is a byte; a read of an unmapped byte faults.
  The members that are only declared in the header, whose code is in the LLVM library, are the
  fields of the record \<open>string_lib\<close>.
\<close>

record string_ref =
  Data :: addr
  Length :: u64

definition sr_npos :: u64 where "sr_npos = NOT 0"

definition null_ref :: string_ref where "null_ref = \<lparr>Data = 0, Length = 0\<rparr>"

section \<open>What is used of the C library\<close>

text \<open>Only the sign of the result of \<open>memcmp\<close> is specified.\<close>

fun memcmp :: "memory \<Rightarrow> addr \<Rightarrow> addr \<Rightarrow> nat \<Rightarrow> stop + int" where
  "memcmp m L R 0 = Inr 0"
| "memcmp m L R (Suc n) =
     (case (m L, m R) of
        (Some a, Some b) \<Rightarrow> if a = b then memcmp m (L + 1) (R + 1) n else Inr (uint a - uint b)
      | _ \<Rightarrow> Inl Segv)"

fun memchr :: "memory \<Rightarrow> addr \<Rightarrow> byte \<Rightarrow> nat \<Rightarrow> stop + addr option" where
  "memchr m P C 0 = Inr None"
| "memchr m P C (Suc n) =
     (case m P of None \<Rightarrow> Inl Segv | Some b \<Rightarrow> if b = C then Inr (Some P) else memchr m (P + 1) C n)"

partial_function (option) strlen :: "memory \<Rightarrow> addr \<Rightarrow> u64 \<Rightarrow> (stop + u64) option" where
  "strlen m P n =
     (case m P of None \<Rightarrow> Some (Inl Segv) | Some b \<Rightarrow> if b = 0 then Some (Inr n) else strlen m (P + 1) (n + 1))"

fun std_copy :: "memory \<Rightarrow> addr \<Rightarrow> addr \<Rightarrow> nat \<Rightarrow> stop + memory" where
  "std_copy m P Q 0 = Inr m"
| "std_copy m P Q (Suc n) =
     (case (m P, m Q) of
        (Some b, Some _) \<Rightarrow> std_copy (m(Q \<mapsto> b)) (P + 1) (Q + 1) n
      | _ \<Rightarrow> Inl Segv)"

section \<open>Construction and access\<close>

definition StringRef_new :: "memory \<Rightarrow> addr \<Rightarrow> (stop + string_ref) option" where
  "StringRef_new m Str =
     (if Str \<noteq> 0 then run_then (strlen m Str 0) (\<lambda>n. Some (Inr \<lparr>Data = Str, Length = n\<rparr>))
      else Some (Inr null_ref))"

text \<open>\<open>lit\<close> is the address of the literal \<open>""\<close>.\<close>

definition withNullAsEmpty :: "addr \<Rightarrow> memory \<Rightarrow> addr \<Rightarrow> (stop + string_ref) option" where
  "withNullAsEmpty lit m data = StringRef_new m (if data \<noteq> 0 then data else lit)"

definition read_at :: "memory \<Rightarrow> string_ref \<Rightarrow> u64 \<Rightarrow> stop + byte" where
  "read_at m S Index = (case m (Data S + Index) of None \<Rightarrow> Inl Segv | Some b \<Rightarrow> Inr b)"

definition front_char :: "memory \<Rightarrow> string_ref \<Rightarrow> stop + byte" where
  "front_char m S = (if Length S = 0 then Inl Abort else read_at m S 0)"

definition back_char :: "memory \<Rightarrow> string_ref \<Rightarrow> stop + byte" where
  "back_char m S = (if Length S = 0 then Inl Abort else read_at m S (Length S - 1))"

definition char_at :: "memory \<Rightarrow> string_ref \<Rightarrow> u64 \<Rightarrow> stop + byte" where
  "char_at m S Index = (if \<not> Index < Length S then Inl Abort else read_at m S Index)"

definition str :: "memory \<Rightarrow> string_ref \<Rightarrow> stop + byte list" where
  "str m S =
     (if Data S = 0 then Inr []
      else case load_bytes m (Data S) (unat (Length S)) of None \<Rightarrow> Inl Segv | Some bs \<Rightarrow> Inr bs)"

text \<open>\<open>Allocate\<close> is the allocator of the caller.\<close>

definition copy_string ::
  "(u64 \<Rightarrow> memory \<Rightarrow> addr \<times> memory) \<Rightarrow> memory \<Rightarrow> string_ref \<Rightarrow> stop + string_ref \<times> memory" where
  "copy_string Allocate m S =
     (if Length S = 0 then Inr (null_ref, m)
      else
        let (P, m) = Allocate (Length S) m in
        then_do (std_copy m (Data S) P (unat (Length S))) (\<lambda>m. Inr (\<lparr>Data = P, Length = Length S\<rparr>, m)))"

section \<open>Comparison\<close>

definition compareMemory :: "memory \<Rightarrow> addr \<Rightarrow> addr \<Rightarrow> u64 \<Rightarrow> stop + int" where
  "compareMemory m Lhs Rhs n = (if n = 0 then Inr 0 else memcmp m Lhs Rhs (unat n))"

definition equals :: "memory \<Rightarrow> string_ref \<Rightarrow> string_ref \<Rightarrow> stop + bool" where
  "equals m S RHS =
     (if Length S = Length RHS then
        then_do (compareMemory m (Data S) (Data RHS) (Length RHS)) (\<lambda>r. Inr (r = 0))
      else Inr False)"

definition compare :: "memory \<Rightarrow> string_ref \<Rightarrow> string_ref \<Rightarrow> stop + int" where
  "compare m S RHS =
     then_do (compareMemory m (Data S) (Data RHS) (min (Length S) (Length RHS))) (\<lambda>Res.
     if Res \<noteq> 0 then Inr (if Res < 0 then - 1 else 1)
     else if Length S = Length RHS then Inr 0
     else Inr (if Length S < Length RHS then - 1 else 1))"

definition sr_eq :: "memory \<Rightarrow> string_ref \<Rightarrow> string_ref \<Rightarrow> stop + bool" where
  "sr_eq m LHS RHS = equals m LHS RHS"

definition sr_ne :: "memory \<Rightarrow> string_ref \<Rightarrow> string_ref \<Rightarrow> stop + bool" where
  "sr_ne m LHS RHS = then_do (sr_eq m LHS RHS) (\<lambda>b. Inr (\<not> b))"

definition sr_less :: "memory \<Rightarrow> string_ref \<Rightarrow> string_ref \<Rightarrow> stop + bool" where
  "sr_less m LHS RHS = then_do (compare m LHS RHS) (\<lambda>c. Inr (c = - 1))"

definition sr_le :: "memory \<Rightarrow> string_ref \<Rightarrow> string_ref \<Rightarrow> stop + bool" where
  "sr_le m LHS RHS = then_do (compare m LHS RHS) (\<lambda>c. Inr (c \<noteq> 1))"

definition sr_gr :: "memory \<Rightarrow> string_ref \<Rightarrow> string_ref \<Rightarrow> stop + bool" where
  "sr_gr m LHS RHS = then_do (compare m LHS RHS) (\<lambda>c. Inr (c = 1))"

definition sr_ge :: "memory \<Rightarrow> string_ref \<Rightarrow> string_ref \<Rightarrow> stop + bool" where
  "sr_ge m LHS RHS = then_do (compare m LHS RHS) (\<lambda>c. Inr (c \<noteq> - 1))"

definition startswith :: "memory \<Rightarrow> string_ref \<Rightarrow> string_ref \<Rightarrow> stop + bool" where
  "startswith m S Pre =
     (if Length S \<ge> Length Pre then
        then_do (compareMemory m (Data S) (Data Pre) (Length Pre)) (\<lambda>r. Inr (r = 0))
      else Inr False)"

definition endswith :: "memory \<Rightarrow> string_ref \<Rightarrow> string_ref \<Rightarrow> stop + bool" where
  "endswith m S Suf =
     (if Length S \<ge> Length Suf then
        then_do (compareMemory m (Data S + Length S - Length Suf) (Data Suf) (Length Suf)) (\<lambda>r. Inr (r = 0))
      else Inr False)"

section \<open>Substrings\<close>

definition substr :: "u64 \<Rightarrow> u64 \<Rightarrow> string_ref \<Rightarrow> string_ref" where
  "substr Start N S =
     (let Start = min Start (Length S) in \<lparr>Data = Data S + Start, Length = min N (Length S - Start)\<rparr>)"

definition drop_front :: "u64 \<Rightarrow> string_ref \<Rightarrow> stop + string_ref" where
  "drop_front N S = (if \<not> Length S \<ge> N then Inl Abort else Inr (substr N sr_npos S))"

definition drop_back :: "u64 \<Rightarrow> string_ref \<Rightarrow> stop + string_ref" where
  "drop_back N S = (if \<not> Length S \<ge> N then Inl Abort else Inr (substr 0 (Length S - N) S))"

definition take_front :: "u64 \<Rightarrow> string_ref \<Rightarrow> stop + string_ref" where
  "take_front N S = (if N \<ge> Length S then Inr S else drop_back (Length S - N) S)"

definition take_back :: "u64 \<Rightarrow> string_ref \<Rightarrow> stop + string_ref" where
  "take_back N S = (if N \<ge> Length S then Inr S else drop_front (Length S - N) S)"

definition slice :: "u64 \<Rightarrow> u64 \<Rightarrow> string_ref \<Rightarrow> string_ref" where
  "slice Start End S =
     (let Start = min Start (Length S);
          End = min (max Start End) (Length S)
      in \<lparr>Data = Data S + Start, Length = End - Start\<rparr>)"

text \<open>The string after the call, and whether the prefix was there.\<close>

definition consume_front :: "memory \<Rightarrow> string_ref \<Rightarrow> string_ref \<Rightarrow> stop + bool \<times> string_ref" where
  "consume_front m Pre S =
     then_do (startswith m S Pre) (\<lambda>b.
     if \<not> b then Inr (False, S) else then_do (drop_front (Length Pre) S) (\<lambda>S. Inr (True, S)))"

definition consume_back :: "memory \<Rightarrow> string_ref \<Rightarrow> string_ref \<Rightarrow> stop + bool \<times> string_ref" where
  "consume_back m Suf S =
     then_do (endswith m S Suf) (\<lambda>b.
     if \<not> b then Inr (False, S) else then_do (drop_back (Length Suf) S) (\<lambda>S. Inr (True, S)))"

section \<open>Searching\<close>

definition find_char :: "memory \<Rightarrow> byte \<Rightarrow> u64 \<Rightarrow> string_ref \<Rightarrow> stop + u64" where
  "find_char m C From S =
     (let FindBegin = min From (Length S) in
      if FindBegin < Length S then
        then_do (memchr m (Data S + FindBegin) C (unat (Length S - FindBegin))) (\<lambda>r.
        case r of Some P \<Rightarrow> Inr (P - Data S) | None \<Rightarrow> Inr sr_npos)
      else Inr sr_npos)"

text \<open>\<open>n\<close> is the size of the whole string.\<close>

function find_if_loop :: "memory \<Rightarrow> (byte \<Rightarrow> bool) \<Rightarrow> u64 \<Rightarrow> string_ref \<Rightarrow> stop + u64" where
  "find_if_loop m F n S =
     (if Length S = 0 then Inr sr_npos
      else case front_char m S of
          Inl e \<Rightarrow> Inl e
        | Inr c \<Rightarrow>
            if F c then Inr (n - Length S)
            else case drop_front 1 S of Inl e \<Rightarrow> Inl e | Inr S' \<Rightarrow> find_if_loop m F n S')"
  by pat_completeness auto
termination
  by (relation "measure (\<lambda>(m, F, n, S). unat (Length S))")
    (auto simp: drop_front_def substr_def Let_def sr_npos_def word_le_nat_alt word_less_nat_alt min_def
      unat_minus_one unat_gt_0 simp flip: word_neq_0_conv split: if_splits)

declare find_if_loop.simps [simp del]

definition find_if :: "memory \<Rightarrow> (byte \<Rightarrow> bool) \<Rightarrow> u64 \<Rightarrow> string_ref \<Rightarrow> stop + u64" where
  "find_if m F From S = then_do (drop_front From S) (find_if_loop m F (Length S))"

definition find_if_not :: "memory \<Rightarrow> (byte \<Rightarrow> bool) \<Rightarrow> u64 \<Rightarrow> string_ref \<Rightarrow> stop + u64" where
  "find_if_not m F From S = find_if m (\<lambda>c. \<not> F c) From S"

fun rfind_loop :: "memory \<Rightarrow> byte \<Rightarrow> string_ref \<Rightarrow> nat \<Rightarrow> stop + u64" where
  "rfind_loop m C S 0 = Inr sr_npos"
| "rfind_loop m C S (Suc i) =
     then_do (read_at m S (of_nat i)) (\<lambda>b. if b = C then Inr (of_nat i) else rfind_loop m C S i)"

definition rfind_char :: "memory \<Rightarrow> byte \<Rightarrow> u64 \<Rightarrow> string_ref \<Rightarrow> stop + u64" where
  "rfind_char m C From S = rfind_loop m C S (unat (min From (Length S)))"

definition find_first_of :: "memory \<Rightarrow> byte \<Rightarrow> u64 \<Rightarrow> string_ref \<Rightarrow> stop + u64" where
  "find_first_of m C From S = find_char m C From S"

definition find_last_of :: "memory \<Rightarrow> byte \<Rightarrow> u64 \<Rightarrow> string_ref \<Rightarrow> stop + u64" where
  "find_last_of m C From S = rfind_char m C From S"

definition contains_char :: "memory \<Rightarrow> byte \<Rightarrow> string_ref \<Rightarrow> stop + bool" where
  "contains_char m C S = then_do (find_first_of m C 0 S) (\<lambda>i. Inr (i \<noteq> sr_npos))"

text \<open>The loop from \<open>i\<close> on, with \<open>n\<close> characters to come.\<close>

fun count_loop :: "memory \<Rightarrow> byte \<Rightarrow> string_ref \<Rightarrow> u64 \<Rightarrow> u64 \<Rightarrow> nat \<Rightarrow> stop + u64" where
  "count_loop m C S i Count 0 = Inr Count"
| "count_loop m C S i Count (Suc n) =
     then_do (read_at m S i) (\<lambda>b. count_loop m C S (i + 1) (if b = C then Count + 1 else Count) n)"

definition count_char :: "memory \<Rightarrow> byte \<Rightarrow> string_ref \<Rightarrow> stop + u64" where
  "count_char m C S = count_loop m C S 0 0 (unat (Length S))"

definition take_while :: "memory \<Rightarrow> (byte \<Rightarrow> bool) \<Rightarrow> string_ref \<Rightarrow> stop + string_ref" where
  "take_while m F S = then_do (find_if_not m F 0 S) (\<lambda>i. Inr (substr 0 i S))"

definition take_until :: "memory \<Rightarrow> (byte \<Rightarrow> bool) \<Rightarrow> string_ref \<Rightarrow> stop + string_ref" where
  "take_until m F S = then_do (find_if m F 0 S) (\<lambda>i. Inr (substr 0 i S))"

definition drop_while :: "memory \<Rightarrow> (byte \<Rightarrow> bool) \<Rightarrow> string_ref \<Rightarrow> stop + string_ref" where
  "drop_while m F S = then_do (find_if_not m F 0 S) (\<lambda>i. Inr (substr i sr_npos S))"

definition drop_until :: "memory \<Rightarrow> (byte \<Rightarrow> bool) \<Rightarrow> string_ref \<Rightarrow> stop + string_ref" where
  "drop_until m F S = then_do (find_if m F 0 S) (\<lambda>i. Inr (substr i sr_npos S))"

section \<open>Splitting\<close>

definition split_char :: "memory \<Rightarrow> byte \<Rightarrow> string_ref \<Rightarrow> stop + string_ref \<times> string_ref" where
  "split_char m Separator S =
     then_do (find_char m Separator 0 S) (\<lambda>Idx.
     if Idx = sr_npos then Inr (S, null_ref)
     else Inr (slice 0 Idx S, slice (Idx + 1) sr_npos S))"

definition rsplit_char :: "memory \<Rightarrow> byte \<Rightarrow> string_ref \<Rightarrow> stop + string_ref \<times> string_ref" where
  "rsplit_char m Separator S =
     then_do (rfind_char m Separator sr_npos S) (\<lambda>Idx.
     if Idx = sr_npos then Inr (S, null_ref)
     else Inr (slice 0 Idx S, slice (Idx + 1) sr_npos S))"

section \<open>Over the LLVM library\<close>

text \<open>
  Searches that are declared in the header only: a string from a position on, the first and the
  last character that is not one, or not among some.
\<close>

record string_lib =
  L_find :: "memory \<Rightarrow> string_ref \<Rightarrow> u64 \<Rightarrow> string_ref \<Rightarrow> stop + u64"
  L_first_not :: "memory \<Rightarrow> byte \<Rightarrow> u64 \<Rightarrow> string_ref \<Rightarrow> stop + u64"
  L_first_not_of :: "memory \<Rightarrow> string_ref \<Rightarrow> u64 \<Rightarrow> string_ref \<Rightarrow> stop + u64"
  L_last_not :: "memory \<Rightarrow> byte \<Rightarrow> u64 \<Rightarrow> string_ref \<Rightarrow> stop + u64"
  L_last_not_of :: "memory \<Rightarrow> string_ref \<Rightarrow> u64 \<Rightarrow> string_ref \<Rightarrow> stop + u64"

definition contains_string :: "string_lib \<Rightarrow> memory \<Rightarrow> string_ref \<Rightarrow> string_ref \<Rightarrow> stop + bool" where
  "contains_string L m Other S = then_do (L_find L m Other 0 S) (\<lambda>i. Inr (i \<noteq> sr_npos))"

definition split_string ::
  "string_lib \<Rightarrow> memory \<Rightarrow> string_ref \<Rightarrow> string_ref \<Rightarrow> stop + string_ref \<times> string_ref" where
  "split_string L m Separator S =
     then_do (L_find L m Separator 0 S) (\<lambda>Idx.
     if Idx = sr_npos then Inr (S, null_ref)
     else Inr (slice 0 Idx S, slice (Idx + Length Separator) sr_npos S))"

definition ltrim_char :: "string_lib \<Rightarrow> memory \<Rightarrow> byte \<Rightarrow> string_ref \<Rightarrow> stop + string_ref" where
  "ltrim_char L m C S = then_do (L_first_not L m C 0 S) (\<lambda>i. drop_front (min (Length S) i) S)"

definition ltrim :: "string_lib \<Rightarrow> memory \<Rightarrow> string_ref \<Rightarrow> string_ref \<Rightarrow> stop + string_ref" where
  "ltrim L m Chars S = then_do (L_first_not_of L m Chars 0 S) (\<lambda>i. drop_front (min (Length S) i) S)"

definition rtrim_char :: "string_lib \<Rightarrow> memory \<Rightarrow> byte \<Rightarrow> string_ref \<Rightarrow> stop + string_ref" where
  "rtrim_char L m C S =
     then_do (L_last_not L m C sr_npos S) (\<lambda>i. drop_back (Length S - min (Length S) (i + 1)) S)"

definition rtrim :: "string_lib \<Rightarrow> memory \<Rightarrow> string_ref \<Rightarrow> string_ref \<Rightarrow> stop + string_ref" where
  "rtrim L m Chars S =
     then_do (L_last_not_of L m Chars sr_npos S) (\<lambda>i. drop_back (Length S - min (Length S) (i + 1)) S)"

definition trim_char :: "string_lib \<Rightarrow> memory \<Rightarrow> byte \<Rightarrow> string_ref \<Rightarrow> stop + string_ref" where
  "trim_char L m C S = then_do (ltrim_char L m C S) (rtrim_char L m C)"

definition trim :: "string_lib \<Rightarrow> memory \<Rightarrow> string_ref \<Rightarrow> string_ref \<Rightarrow> stop + string_ref" where
  "trim L m Chars S = then_do (ltrim L m Chars S) (rtrim L m Chars)"

section \<open>Integers of a type\<close>

text \<open>
  The conversions to 64 bits are in the LLVM library, with \<open>None\<close> for their errors; a value that
  does not fit in the type asked for is an error as well.  (The type \<open>bool\<close> converts otherwise.)
\<close>

definition getAsInteger_unsigned ::
  "(string_ref \<Rightarrow> u32 \<Rightarrow> u64 option) \<Rightarrow> u32 \<Rightarrow> string_ref \<Rightarrow> 'a::len word option" where
  "getAsInteger_unsigned getAsUnsignedInteger Radix S =
     (case getAsUnsignedInteger S Radix of
        None \<Rightarrow> None
      | Some ULLVal \<Rightarrow> if (ucast (ucast ULLVal :: 'a word) :: u64) \<noteq> ULLVal then None else Some (ucast ULLVal))"

definition getAsInteger_signed ::
  "(string_ref \<Rightarrow> u32 \<Rightarrow> u64 option) \<Rightarrow> u32 \<Rightarrow> string_ref \<Rightarrow> 'a::len word option" where
  "getAsInteger_signed getAsSignedInteger Radix S =
     (case getAsSignedInteger S Radix of
        None \<Rightarrow> None
      | Some LLVal \<Rightarrow> if (scast (ucast LLVal :: 'a word) :: u64) \<noteq> LLVal then None else Some (ucast LLVal))"

text \<open>These also give the string back, less what was read.\<close>

definition consumeInteger_unsigned ::
  "(string_ref \<Rightarrow> u32 \<Rightarrow> string_ref \<times> u64 option) \<Rightarrow> u32 \<Rightarrow> string_ref \<Rightarrow> string_ref \<times> 'a::len word option" where
  "consumeInteger_unsigned consumeUnsignedInteger Radix S =
     (case consumeUnsignedInteger S Radix of
        (S, None) \<Rightarrow> (S, None)
      | (S, Some ULLVal) \<Rightarrow>
          if (ucast (ucast ULLVal :: 'a word) :: u64) \<noteq> ULLVal then (S, None) else (S, Some (ucast ULLVal)))"

definition consumeInteger_signed ::
  "(string_ref \<Rightarrow> u32 \<Rightarrow> string_ref \<times> u64 option) \<Rightarrow> u32 \<Rightarrow> string_ref \<Rightarrow> string_ref \<times> 'a::len word option" where
  "consumeInteger_signed consumeSignedInteger Radix S =
     (case consumeSignedInteger S Radix of
        (S, None) \<Rightarrow> (S, None)
      | (S, Some LLVal) \<Rightarrow>
          if (scast (ucast LLVal :: 'a word) :: u64) \<noteq> LLVal then (S, None) else (S, Some (ucast LLVal)))"

end
