(* ===== verification/LL_SR_Props.thy ===== *)
theory LL_SR_Props imports LL_StringRef begin

text \<open>
  \<open>StringRef\<close> of \<open>ADT/StringRef.h\<close> refined to lists of bytes: what each member reads and returns is
  what the function of lists of that name gives on the bytes in view.
\<close>

section \<open>The bytes in view\<close>

definition view :: "memory \<Rightarrow> string_ref \<Rightarrow> byte list \<Rightarrow> bool" where
  "view m S xs \<longleftrightarrow> load_bytes m (Data S) (unat (Length S)) = Some xs"

lemma view_iff: "view m S xs \<longleftrightarrow> length xs = unat (Length S) \<and> (\<forall>i < length xs. m (Data S + of_nat i) = Some (xs ! i))"
  by (auto simp: view_def load_bytes_eq_Some)

lemma view_length: "view m S xs \<Longrightarrow> unat (Length S) = length xs"
  by (simp add: view_iff)

lemma view_size: "view m S xs \<Longrightarrow> length xs < 2 ^ 64"
  using unat64_bound [of "Length S"] by (simp add: view_iff)

lemma unat_of_nat_64: "n < 2 ^ 64 \<Longrightarrow> unat (of_nat n :: u64) = n"
  by (simp add: unat_of_nat take_bit_nat_eq_self)

lemma unat_min: "unat (min a b :: u64) = min (unat a) (unat b)" "unat (max a b :: u64) = max (unat a) (unat b)"
  by (auto simp: min_def max_def word_le_nat_alt)

lemma unat_npos [simp]: "unat sr_npos = 2 ^ 64 - 1"
  by (simp add: sr_npos_def unsigned_minus_1_eq_mask mask_eq_exp_minus_1)

lemma unat_le_npos: "unat (w :: u64) \<le> 2 ^ 64 - 1"
  using unat64_bound [of w] by simp

lemma view_npos: "view m S xs \<Longrightarrow> length xs \<le> unat sr_npos"
  using view_size [of m S xs] by simp

lemma view_null [simp]: "view m null_ref xs \<longleftrightarrow> xs = []"
  by (auto simp: view_iff null_ref_def)

lemma view_read: "view m S xs \<Longrightarrow> unat i < length xs \<Longrightarrow> read_at m S i = Inr (xs ! unat i)"
proof -
  assume "view m S xs" "unat i < length xs"
  then have "m (Data S + of_nat (unat i)) = Some (xs ! unat i)" by (simp only: view_iff)
  then show ?thesis by (simp add: read_at_def)
qed

lemma view_part:
  assumes "view m S xs" "unat a + unat n \<le> length xs"
  shows "view m \<lparr>Data = Data S + a, Length = n\<rparr> (take (unat n) (drop (unat a) xs))"
proof -
  have "m (Data S + a + of_nat i) = Some (xs ! (unat a + i))" if "i < unat n" for i
  proof -
    have "m (Data S + of_nat (unat a + i)) = Some (xs ! (unat a + i))"
      using assms that by (simp only: view_iff)
    then show ?thesis by (simp add: add.assoc)
  qed
  then show ?thesis using assms by (simp add: view_iff)
qed

section \<open>Substrings\<close>

lemma view_substr: "view m S xs \<Longrightarrow> view m (substr Start N S) (take (unat N) (drop (unat Start) xs))"
proof -
  assume v: "view m S xs"
  let ?a = "min Start (Length S)" and ?n = "min N (Length S - min Start (Length S))"
  have d: "unat (Length S - ?a) = length xs - min (unat Start) (length xs)"
    by (subst unat_diff_small) (simp_all add: unat_min view_length [OF v] word_le_nat_alt)
  have u: "unat ?a = min (unat Start) (length xs)" "unat ?n = min (unat N) (length xs - min (unat Start) (length xs))"
    by (simp_all add: unat_min view_length [OF v] d)
  have "view m \<lparr>Data = Data S + ?a, Length = ?n\<rparr> (take (unat ?n) (drop (unat ?a) xs))"
    by (rule view_part [OF v]) (simp add: u)
  moreover have "take (unat ?n) (drop (unat ?a) xs) = take (unat N) (drop (unat Start) xs)"
    unfolding u by (cases "unat Start \<le> length xs") (simp_all add: min_def)
  ultimately show ?thesis by (simp add: substr_def Let_def)
qed

lemma view_slice: "view m S xs \<Longrightarrow> view m (slice Start End S) (drop (unat Start) (take (unat End) xs))"
proof -
  assume v: "view m S xs"
  let ?a = "min Start (Length S)" and ?e = "min (max (min Start (Length S)) End) (Length S)"
  have u: "unat ?a = min (unat Start) (length xs)" "unat ?e = min (max (min (unat Start) (length xs)) (unat End)) (length xs)"
    by (simp_all add: unat_min view_length [OF v])
  have d: "unat (?e - ?a) = unat ?e - unat ?a"
    by (rule unat_diff_small) (simp add: word_le_nat_alt u)
  have "view m \<lparr>Data = Data S + ?a, Length = ?e - ?a\<rparr> (take (unat (?e - ?a)) (drop (unat ?a) xs))"
    by (rule view_part [OF v]) (simp add: d u)
  moreover have "take (unat (?e - ?a)) (drop (unat ?a) xs) = drop (unat Start) (take (unat End) xs)"
    unfolding d u by (cases "unat Start \<le> length xs"; cases "unat End \<le> length xs"; cases "unat Start \<le> unat End")
      (simp_all add: drop_take min_def max_def)
  ultimately show ?thesis by (simp add: slice_def Let_def)
qed

lemma drop_front_spec:
  assumes "view m S xs" "unat N \<le> length xs"
  shows "\<exists>S'. drop_front N S = Inr S' \<and> view m S' (drop (unat N) xs)"
proof -
  have "view m (substr N sr_npos S) (drop (unat N) xs)"
    using view_substr [OF assms(1), of N sr_npos] view_npos [OF assms(1)] by simp
  then show ?thesis using assms by (simp add: drop_front_def word_le_nat_alt view_length)
qed

lemma drop_back_spec:
  assumes "view m S xs" "unat N \<le> length xs"
  shows "\<exists>S'. drop_back N S = Inr S' \<and> view m S' (take (length xs - unat N) xs)"
proof -
  have u: "unat (Length S - N) = length xs - unat N"
    using assms by (subst unat_diff_small) (simp_all add: word_le_nat_alt view_length)
  have "view m (substr 0 (Length S - N) S) (take (length xs - unat N) xs)"
    using view_substr [OF assms(1), of 0 "Length S - N"] by (simp add: u)
  then show ?thesis using assms by (simp add: drop_back_def word_le_nat_alt view_length)
qed

lemma take_front_spec: "view m S xs \<Longrightarrow> \<exists>S'. take_front N S = Inr S' \<and> view m S' (take (unat N) xs)"
proof (cases "N \<ge> Length S")
  case False
  assume v: "view m S xs"
  then have n: "unat N < length xs" using False by (simp add: word_le_nat_alt view_length)
  then have "unat (Length S - N) = length xs - unat N"
    using v by (subst unat_diff_small) (simp_all add: word_le_nat_alt view_length)
  then show ?thesis using drop_back_spec [OF v, of "Length S - N"] n False by (simp add: take_front_def)
qed (auto simp: take_front_def word_le_nat_alt view_length)

lemma take_back_spec: "view m S xs \<Longrightarrow> \<exists>S'. take_back N S = Inr S' \<and> view m S' (drop (length xs - unat N) xs)"
proof (cases "N \<ge> Length S")
  case False
  assume v: "view m S xs"
  then have n: "unat N < length xs" using False by (simp add: word_le_nat_alt view_length)
  then have "unat (Length S - N) = length xs - unat N"
    using v by (subst unat_diff_small) (simp_all add: word_le_nat_alt view_length)
  then show ?thesis using drop_front_spec [OF v, of "Length S - N"] n False by (simp add: take_back_def)
qed (auto simp: take_back_def word_le_nat_alt view_length)

section \<open>Comparison\<close>

text \<open>The lexicographic order, of bytes as unsigned numbers.\<close>

abbreviation lex_less :: "byte list \<Rightarrow> byte list \<Rightarrow> bool" where
  "lex_less \<equiv> ord_class.lexordp"

lemma view_load:
  assumes "view m S xs" "unat a + k \<le> length xs"
  shows "load_bytes m (Data S + a) k = Some (take k (drop (unat a) xs))"
proof -
  have k: "unat (of_nat k :: u64) = k" using assms view_size [OF assms(1)] by (intro unat_of_nat_64) simp
  then show ?thesis using view_part [OF assms(1), of a "of_nat k"] assms(2) by (simp add: view_def)
qed

lemma memcmp_spec:
  "load_bytes m L n = Some xs \<Longrightarrow> load_bytes m R n = Some ys \<Longrightarrow>
    \<exists>r. memcmp m L R n = Inr r \<and> (r = 0 \<longleftrightarrow> xs = ys) \<and> (r < 0 \<longleftrightarrow> lex_less xs ys)"
proof (induction n arbitrary: L R xs ys)
  case (Suc n)
  then obtain a b xs' ys' where ab: "m L = Some a" "m R = Some b" "xs = a # xs'" "ys = b # ys'"
    "load_bytes m (L + 1) n = Some xs'" "load_bytes m (R + 1) n = Some ys'"
    by (auto split: option.splits)
  show ?case
  proof (cases "a = b")
    case True
    then show ?thesis using Suc.IH [OF ab(5,6)] by (simp add: ab(1-4))
  next
    case False
    have "uint a - uint b < 0 \<longleftrightarrow> a < b" "\<not> uint a < uint b \<Longrightarrow> b < a" using False by (auto simp: word_less_def word_uint_eq_iff)
    then show ?thesis using False by (auto simp: ab(1-4) word_uint_eq_iff)
  qed
qed simp

lemma compareMemory_spec:
  assumes "view m S xs" "view m T ys" "unat a + unat n \<le> length xs" "unat n \<le> length ys"
  shows "\<exists>r. compareMemory m (Data S + a) (Data T) n = Inr r \<and>
    (r = 0 \<longleftrightarrow> take (unat n) (drop (unat a) xs) = take (unat n) ys) \<and>
    (r < 0 \<longleftrightarrow> lex_less (take (unat n) (drop (unat a) xs)) (take (unat n) ys))"
  using memcmp_spec [OF view_load [OF assms(1,3)] view_load [OF assms(2), of 0 "unat n", simplified, OF assms(4)]]
  by (auto simp: compareMemory_def)

lemma lexordp_take:
  "lex_less xs ys \<longleftrightarrow>
    (let k = min (length xs) (length ys) in
     lex_less (take k xs) (take k ys) \<or> take k xs = take k ys \<and> length xs < length ys)" for xs :: "byte list"
  by (induction xs ys rule: list_induct2') (auto simp: Let_def)

lemma equals_spec:
  assumes "view m S xs" "view m T ys"
  shows "equals m S T = Inr (xs = ys)"
proof (cases "Length S = Length T")
  case True
  then have l: "length xs = length ys" "unat (Length T) = length ys" using assms by (simp_all add: view_iff)
  then show ?thesis using compareMemory_spec [OF assms, of 0 "Length T"] True by (auto simp: equals_def)
next
  case False
  then have "length xs \<noteq> length ys" using assms by (simp add: view_iff word_unat_eq_iff)
  then show ?thesis using False by (auto simp: equals_def)
qed

lemma compare_spec:
  assumes v: "view m S xs" "view m T ys"
  shows "compare m S T = Inr (if xs = ys then 0 else if lex_less xs ys then - 1 else 1)"
proof -
  let ?k = "min (length xs) (length ys)"
  have k: "unat (min (Length S) (Length T)) = ?k" by (simp add: unat_min view_length [OF v(1)] view_length [OF v(2)])
  obtain r where r: "compareMemory m (Data S) (Data T) (min (Length S) (Length T)) = Inr r"
    "r = 0 \<longleftrightarrow> take ?k xs = take ?k ys" "r < 0 \<longleftrightarrow> lex_less (take ?k xs) (take ?k ys)"
    using compareMemory_spec [OF v, of 0 "min (Length S) (Length T)"] by (auto simp: k)
  have l: "Length S = Length T \<longleftrightarrow> length xs = length ys" "Length S < Length T \<longleftrightarrow> length xs < length ys"
    using v by (simp_all add: view_iff word_unat_eq_iff word_less_nat_alt)
  have "lex_less xs ys \<longleftrightarrow> r < 0 \<or> r = 0 \<and> length xs < length ys"
    unfolding lexordp_take [of xs ys] Let_def r(2,3) ..
  moreover have "xs = ys \<longleftrightarrow> r = 0 \<and> length xs = length ys" unfolding r(2) by auto
  ultimately show ?thesis by (auto simp: compare_def r(1) l)
qed

lemma startswith_spec:
  assumes "view m S xs" "view m T ys"
  shows "startswith m S T = Inr (prefix ys xs)"
proof (cases "Length T \<le> Length S")
  case True
  then have l: "length ys \<le> length xs" "unat (Length T) = length ys" using assms by (simp_all add: view_iff word_le_nat_alt)
  then have "take (length ys) xs = ys \<longleftrightarrow> prefix ys xs" by (auto simp: prefix_def) (metis append_take_drop_id)
  then show ?thesis using compareMemory_spec [OF assms, of 0 "Length T"] True l by (auto simp: startswith_def)
next
  case False
  then have "\<not> prefix ys xs" using assms by (auto simp: view_iff word_le_nat_alt dest: prefix_length_le)
  then show ?thesis using False by (auto simp: startswith_def)
qed

lemma endswith_spec:
  assumes "view m S xs" "view m T ys"
  shows "endswith m S T = Inr (suffix ys xs)"
proof (cases "Length T \<le> Length S")
  case True
  then have l: "length ys \<le> length xs" "unat (Length T) = length ys" "unat (Length S - Length T) = length xs - length ys"
    using assms by (simp_all add: view_iff word_le_nat_alt unat_diff_small)
  then have "drop (length xs - length ys) xs = ys \<longleftrightarrow> suffix ys xs" by (auto simp: suffix_def) (metis append_take_drop_id)
  then show ?thesis
    using compareMemory_spec [OF assms, of "Length S - Length T" "Length T"] True l by (auto simp: endswith_def add_diff_eq)
next
  case False
  then have "\<not> suffix ys xs" using assms by (auto simp: view_iff word_le_nat_alt dest: suffix_length_le)
  then show ?thesis using False by (auto simp: endswith_def)
qed

text \<open>The operators.\<close>

lemma lexordp_byte: "\<not> lex_less xs xs" "lex_less xs ys \<Longrightarrow> xs \<noteq> ys" "lex_less ys xs \<longleftrightarrow> \<not> lex_less xs ys \<and> xs \<noteq> ys" for xs ys :: "byte list"
  using lexordp_linear [of xs ys] lexordp_antisym [of xs ys] by (auto simp: lexordp_irreflexive')

lemma operators_spec:
  assumes v: "view m S xs" "view m T ys"
  shows "sr_eq m S T = Inr (xs = ys)" "sr_ne m S T = Inr (xs \<noteq> ys)"
    "sr_less m S T = Inr (lex_less xs ys)" "sr_le m S T = Inr (lex_less xs ys \<or> xs = ys)"
    "sr_gr m S T = Inr (lex_less ys xs)" "sr_ge m S T = Inr (lex_less ys xs \<or> xs = ys)"
  using lexordp_byte(2,3) [of xs ys]
  by (auto simp: sr_eq_def sr_ne_def sr_less_def sr_le_def sr_gr_def sr_ge_def equals_spec [OF v] compare_spec [OF v])

lemma consume_spec:
  assumes v: "view m S xs" "view m T ys"
  shows "\<exists>S'. consume_front m T S = Inr (prefix ys xs, S') \<and> view m S' (if prefix ys xs then drop (length ys) xs else xs)"
    "\<exists>S'. consume_back m T S = Inr (suffix ys xs, S') \<and> view m S' (if suffix ys xs then take (length xs - length ys) xs else xs)"
proof -
  have l: "unat (Length T) = length ys" by (rule view_length [OF v(2)])
  show "\<exists>S'. consume_front m T S = Inr (prefix ys xs, S') \<and> view m S' (if prefix ys xs then drop (length ys) xs else xs)"
    using drop_front_spec [OF v(1), of "Length T"] v(1) prefix_length_le [of ys xs]
    by (cases "prefix ys xs") (auto simp: consume_front_def startswith_spec [OF v] l)
  show "\<exists>S'. consume_back m T S = Inr (suffix ys xs, S') \<and> view m S' (if suffix ys xs then take (length xs - length ys) xs else xs)"
    using drop_back_spec [OF v(1), of "Length T"] v(1) suffix_length_le [of ys xs]
    by (cases "suffix ys xs") (auto simp: consume_back_def endswith_spec [OF v] l)
qed

end
