(* ===== verification/LL_SR_Search.thy ===== *)
theory LL_SR_Search imports LL_SR_Props begin

text \<open>
  Searching, splitting and trimming of \<open>ADT/StringRef.h\<close> on the bytes in view.  What the searches of
  the LLVM library must do is the locale \<open>string_library\<close>.
\<close>

section \<open>Positions\<close>

text \<open>The first position from \<open>a\<close> on, and the last one before \<open>a\<close>, of a byte that satisfies \<open>P\<close>.\<close>

definition first_pos :: "(byte \<Rightarrow> bool) \<Rightarrow> nat \<Rightarrow> byte list \<Rightarrow> u64" where
  "first_pos P a xs =
     (let i = a + length (takeWhile (\<lambda>b. \<not> P b) (drop a xs)) in if i < length xs then of_nat i else sr_npos)"

definition last_pos :: "(byte \<Rightarrow> bool) \<Rightarrow> nat \<Rightarrow> byte list \<Rightarrow> u64" where
  "last_pos P a xs = of_nat (length (dropWhile (\<lambda>b. \<not> P b) (rev (take a xs)))) - 1"

lemma npos_minus: "sr_npos = - 1"
  by (simp add: sr_npos_def)

lemma of_nat_npos: "n < 2 ^ 64 - 1 \<Longrightarrow> (of_nat n :: u64) \<noteq> sr_npos"
proof
  assume n: "n < 2 ^ 64 - 1" and "(of_nat n :: u64) = sr_npos"
  then have "unat (of_nat n :: u64) = 2 ^ 64 - 1" by simp
  moreover have "unat (of_nat n :: u64) = n" using n by (intro unat_of_nat_64) simp
  ultimately show False using n by simp
qed

lemma takeWhile_full: "length (takeWhile P xs) = length xs \<longleftrightarrow> takeWhile P xs = xs"
  by (metis takeWhile_eq_take take_all_iff order_refl)

lemma first_pos_split:
  assumes "length xs < 2 ^ 64"
  shows "first_pos P 0 xs = sr_npos \<longleftrightarrow> (\<forall>b \<in> set xs. \<not> P b)"
    "take (unat (first_pos P 0 xs)) xs = takeWhile (\<lambda>b. \<not> P b) xs"
    "drop (unat (first_pos P 0 xs)) xs = dropWhile (\<lambda>b. \<not> P b) xs"
proof -
  let ?i = "length (takeWhile (\<lambda>b. \<not> P b) xs)"
  have le: "?i \<le> length xs" by (rule length_takeWhile_le)
  have tw: "?i = length xs \<longleftrightarrow> (\<forall>b \<in> set xs. \<not> P b)" unfolding takeWhile_full takeWhile_eq_all_conv ..
  have "(first_pos P 0 xs = sr_npos \<longleftrightarrow> ?i = length xs) \<and> take (unat (first_pos P 0 xs)) xs = take ?i xs \<and>
      drop (unat (first_pos P 0 xs)) xs = drop ?i xs"
  proof (cases "?i < length xs")
    case True
    then have "?i < 2 ^ 64 - 1" "?i < 2 ^ 64" using assms by simp_all
    then show ?thesis using True of_nat_npos [of ?i] unat_of_nat_64 [of ?i] by (simp add: first_pos_def)
  next
    case False
    then have "?i = length xs" using le by simp
    then show ?thesis using assms by (simp add: first_pos_def)
  qed
  then show "first_pos P 0 xs = sr_npos \<longleftrightarrow> (\<forall>b \<in> set xs. \<not> P b)"
    "take (unat (first_pos P 0 xs)) xs = takeWhile (\<lambda>b. \<not> P b) xs"
    "drop (unat (first_pos P 0 xs)) xs = dropWhile (\<lambda>b. \<not> P b) xs"
    using tw by (simp_all flip: takeWhile_eq_take dropWhile_eq_drop)
qed

lemma last_pos_split:
  assumes "length xs < 2 ^ 64" "length xs \<le> a"
  shows "unat (last_pos P a xs + 1) = length (dropWhile (\<lambda>b. \<not> P b) (rev xs))"
    "last_pos P a xs = sr_npos \<longleftrightarrow> (\<forall>b \<in> set xs. \<not> P b)"
proof -
  let ?k = "length (dropWhile (\<lambda>b. \<not> P b) (rev xs))"
  have k: "?k < 2 ^ 64" using length_dropWhile_le [of "\<lambda>b. \<not> P b" "rev xs"] assms(1) by simp
  have p: "last_pos P a xs + 1 = of_nat ?k" using assms(2) by (simp add: last_pos_def)
  then show u: "unat (last_pos P a xs + 1) = ?k" using k by (simp only: unat_of_nat_64)
  have "last_pos P a xs = sr_npos \<longleftrightarrow> last_pos P a xs + 1 = 0" by (simp add: npos_minus eq_neg_iff_add_eq_0)
  also have "\<dots> \<longleftrightarrow> ?k = 0" using u unat_eq_0 by metis
  finally show "last_pos P a xs = sr_npos \<longleftrightarrow> (\<forall>b \<in> set xs. \<not> P b)" by (simp add: dropWhile_eq_Nil_conv)
qed

section \<open>Searches\<close>

lemma memchr_spec:
  "load_bytes m P n = Some xs \<Longrightarrow>
    memchr m P C n = Inr (let i = length (takeWhile (\<lambda>b. b \<noteq> C) xs) in if i < n then Some (P + of_nat i) else None)"
proof (induction n arbitrary: P xs)
  case (Suc n)
  then obtain b bs where b: "m P = Some b" "xs = b # bs" "load_bytes m (P + 1) n = Some bs"
    by (auto split: option.splits)
  then show ?case using Suc.IH [OF b(3)] by (simp add: Let_def add.assoc)
qed simp

lemma find_char_spec:
  assumes v: "view m S xs"
  shows "find_char m C From S = Inr (first_pos (\<lambda>b. b = C) (unat From) xs)"
proof (cases "unat From < length xs")
  case True
  then have lt: "From < Length S" using view_length [OF v] by (simp add: word_less_nat_alt)
  then have mn: "min From (Length S) = From" by simp
  have d: "unat (Length S - From) = length xs - unat From"
    using lt view_length [OF v] by (subst unat_diff_small) simp_all
  have l: "load_bytes m (Data S + From) (unat (Length S - From)) = Some (drop (unat From) xs)"
    unfolding d using view_load [OF v, of From "length xs - unat From"] True by simp
  let ?i = "length (takeWhile (\<lambda>b. b \<noteq> C) (drop (unat From) xs))"
  have "?i < length xs - unat From \<longleftrightarrow> unat From + ?i < length xs" using True by linarith
  then show ?thesis
    using lt by (simp add: find_char_def mn memchr_spec [OF l, unfolded d] first_pos_def Let_def d)
next
  case False
  then have "\<not> min From (Length S) < Length S" using view_length [OF v] by (simp add: word_less_nat_alt min_def word_le_nat_alt)
  then show ?thesis using False by (simp add: find_char_def first_pos_def)
qed

lemma front_char_spec: "view m S (x # xs) \<Longrightarrow> front_char m S = Inr x"
  using view_read [of m S "x # xs" 0] view_length [of m S "x # xs"] by (auto simp: front_char_def)

lemma find_if_loop_spec:
  "view m S xs \<Longrightarrow> find_if_loop m F n S =
    Inr (let i = length (takeWhile (\<lambda>b. \<not> F b) xs) in if i < length xs then n - Length S + of_nat i else sr_npos)"
proof (induction xs arbitrary: S)
  case Nil
  then show ?case using view_length [OF Nil] by (subst find_if_loop.simps) (simp add: unat_eq_0)
next
  case (Cons x xs)
  have l: "unat (Length S) = Suc (length xs)" using view_length [OF Cons.prems] by simp
  then have nz: "Length S \<noteq> 0" by auto
  obtain S' where S': "drop_front 1 S = Inr S'" "view m S' xs"
    using drop_front_spec [OF Cons.prems, of 1] by auto
  have "unat (Length S') = unat (Length S - 1)" using view_length [OF S'(2)] l nz by (simp add: unat_minus_one)
  then have "Length S' = Length S - 1" by (simp only: word_unat_eq_iff)
  then show ?case
    using Cons.IH [OF S'(2)] nz
    by (subst find_if_loop.simps) (simp add: front_char_spec [OF Cons.prems] S'(1) Let_def diff_diff_eq2 diff_add_eq)
qed

lemma find_if_spec:
  assumes v: "view m S xs" and f: "unat From \<le> length xs"
  shows "find_if m F From S = Inr (first_pos F (unat From) xs)"
proof -
  obtain S' where S': "drop_front From S = Inr S'" "view m S' (drop (unat From) xs)"
    using drop_front_spec [OF v f] by blast
  have "unat (Length S') = unat (Length S - From)"
    using view_length [OF S'(2)] view_length [OF v] f by (subst unat_diff_small) (simp_all add: word_le_nat_alt)
  then have "Length S' = Length S - From" by (simp only: word_unat_eq_iff)
  then show ?thesis
    using f by (auto simp: find_if_def S'(1) find_if_loop_spec [OF S'(2)] first_pos_def Let_def)
qed

text \<open>A start beyond the end, which \<open>find\<close> of a character allows, is a failed assertion here.\<close>

lemma find_if_beyond: "Length S < From \<Longrightarrow> find_if m F From S = Inl Abort"
  by (simp add: find_if_def drop_front_def not_le)

lemma rfind_loop_spec:
  "view m S xs \<Longrightarrow> k \<le> length xs \<Longrightarrow> rfind_loop m C S k = Inr (last_pos (\<lambda>b. b = C) k xs)"
proof (induction k)
  case 0
  then show ?case by (simp add: last_pos_def npos_minus)
next
  case (Suc k)
  then have k: "k < length xs" "unat (of_nat k :: u64) = k" using view_size [OF Suc.prems(1)] by (simp_all add: unat_of_nat_64)
  have t: "rev (take (Suc k) xs) = xs ! k # rev (take k xs)" using k(1) by (simp add: take_Suc_conv_app_nth)
  show ?case
    using Suc.IH [OF Suc.prems(1)] k
    by (simp add: view_read [OF Suc.prems(1)] last_pos_def t)
qed

lemma rfind_char_spec:
  assumes "view m S xs"
  shows "rfind_char m C From S = Inr (last_pos (\<lambda>b. b = C) (unat From) xs)"
proof -
  have u: "unat (min From (Length S)) = min (unat From) (length xs)" by (simp only: unat_min view_length [OF assms])
  have "rfind_loop m C S (min (unat From) (length xs)) = Inr (last_pos (\<lambda>b. b = C) (min (unat From) (length xs)) xs)"
    by (rule rfind_loop_spec [OF assms]) simp
  moreover have "take (min (unat From) (length xs)) xs = take (unat From) xs" by (simp add: min_def)
  ultimately show ?thesis by (simp only: rfind_char_def u last_pos_def)
qed

lemma contains_char_spec: "view m S xs \<Longrightarrow> contains_char m C S = Inr (C \<in> set xs)"
  using first_pos_split(1) [OF view_size, of m S xs "\<lambda>b. b = C"]
  by (auto simp: contains_char_def find_first_of_def find_char_spec)

lemma count_loop_spec:
  "view m S xs \<Longrightarrow> i + n = length xs \<Longrightarrow>
    count_loop m C S (of_nat i) c n = Inr (c + of_nat (count_list (drop i xs) C))"
proof (induction n arbitrary: i c)
  case (Suc n)
  then have i: "i < length xs" "unat (of_nat i :: u64) = i" using view_size [OF Suc.prems(1)] by (simp_all add: unat_of_nat_64)
  have "of_nat i + 1 = (of_nat (Suc i) :: u64)" by simp
  then show ?case
    using Suc.IH [OF Suc.prems(1), of "Suc i"] Suc.prems(2) i
    by (simp only: count_loop.simps view_read [OF Suc.prems(1)] then_do_Inr) (simp flip: Cons_nth_drop_Suc)
qed simp

lemma count_char_spec: "view m S xs \<Longrightarrow> count_char m C S = Inr (of_nat (count_list xs C))"
  using count_loop_spec [of m S xs 0 "length xs" C 0] by (simp add: count_char_def view_length)

section \<open>Parts of a string\<close>

lemma whiles_spec:
  assumes v: "view m S xs"
  shows "\<exists>S'. take_while m F S = Inr S' \<and> view m S' (takeWhile F xs)"
    "\<exists>S'. take_until m F S = Inr S' \<and> view m S' (takeWhile (\<lambda>b. \<not> F b) xs)"
    "\<exists>S'. drop_while m F S = Inr S' \<and> view m S' (dropWhile F xs)"
    "\<exists>S'. drop_until m F S = Inr S' \<and> view m S' (dropWhile (\<lambda>b. \<not> F b) xs)"
proof -
  have f: "find_if m G 0 S = Inr (first_pos G 0 xs)" for G using find_if_spec [OF v, of 0] by simp
  note P = first_pos_split(2,3) [OF view_size [OF v]]
  have t: "view m (substr 0 (first_pos G 0 xs) S) (takeWhile (\<lambda>b. \<not> G b) xs)" for G
    using view_substr [OF v, of 0 "first_pos G 0 xs"] by (simp add: P(1))
  have d: "view m (substr (first_pos G 0 xs) sr_npos S) (dropWhile (\<lambda>b. \<not> G b) xs)" for G
  proof -
    have "length (dropWhile (\<lambda>b. \<not> G b) xs) \<le> unat sr_npos"
      using length_dropWhile_le view_npos [OF v] by (rule order_trans)
    then show ?thesis using view_substr [OF v, of "first_pos G 0 xs" sr_npos] unfolding P(2) by (simp only: take_all)
  qed
  show "\<exists>S'. take_while m F S = Inr S' \<and> view m S' (takeWhile F xs)"
    using t [of "\<lambda>b. \<not> F b"] by (simp add: take_while_def find_if_not_def f)
  show "\<exists>S'. take_until m F S = Inr S' \<and> view m S' (takeWhile (\<lambda>b. \<not> F b) xs)"
    using t [of F] by (simp add: take_until_def f)
  show "\<exists>S'. drop_while m F S = Inr S' \<and> view m S' (dropWhile F xs)"
    using d [of "\<lambda>b. \<not> F b"] by (simp add: drop_while_def find_if_not_def f)
  show "\<exists>S'. drop_until m F S = Inr S' \<and> view m S' (dropWhile (\<lambda>b. \<not> F b) xs)"
    using d [of F] by (simp add: drop_until_def f)
qed

end
