(* ===== verification/LL_SR_Split.thy ===== *)
theory LL_SR_Split imports LL_SR_Search begin

text \<open>
  Splitting and trimming of \<open>ADT/StringRef.h\<close>, the conversions to the integers of a type, and the
  properties of strings.
\<close>

section \<open>Splitting at a character\<close>

lemma dropWhile_split: "C \<in> set xs \<Longrightarrow> xs = takeWhile (\<lambda>b. b \<noteq> C) xs @ C # tl (dropWhile (\<lambda>b. b \<noteq> C) xs)"
  by (induction xs) auto

lemma split_at:
  assumes v: "view m S xs" and i: "i < length xs" "i < 2 ^ 64 - 1"
  shows "view m (slice 0 (of_nat i) S) (take i xs)" "view m (slice (of_nat i + 1) sr_npos S) (drop (Suc i) xs)"
proof -
  have u: "unat (of_nat i :: u64) = i" using i(2) by (intro unat_of_nat_64) simp
  have "unat (of_nat (Suc i) :: u64) = Suc i" using i(2) by (intro unat_of_nat_64) simp
  then have s: "unat (of_nat i + 1 :: u64) = Suc i" by (simp add: add.commute)
  show "view m (slice 0 (of_nat i) S) (take i xs)" using view_slice [OF v, of 0 "of_nat i"] by (simp add: u)
  show "view m (slice (of_nat i + 1) sr_npos S) (drop (Suc i) xs)"
    using view_slice [OF v, of "of_nat i + 1" sr_npos] view_npos [OF v] by (simp only: s take_all)
qed

lemma split_char_spec:
  assumes v: "view m S xs"
  shows "\<exists>A B a b. split_char m C S = Inr (A, B) \<and> view m A a \<and> view m B b \<and> C \<notin> set a \<and>
    (if C \<in> set xs then xs = a @ C # b else A = S \<and> a = xs \<and> b = [])"
proof (cases "C \<in> set xs")
  case False
  then have "first_pos (\<lambda>b. b = C) 0 xs = sr_npos" using first_pos_split(1) [OF view_size [OF v]] by blast
  then have "split_char m C S = Inr (S, null_ref)" by (simp add: split_char_def find_char_spec [OF v])
  then show ?thesis using v False by (intro exI [of _ S] exI [of _ null_ref] exI [of _ xs] exI [of _ "[]"]) simp
next
  case True
  let ?i = "length (takeWhile (\<lambda>b. b \<noteq> C) xs)"
  have "length xs = ?i + Suc (length (tl (dropWhile (\<lambda>b. b \<noteq> C) xs)))"
    using arg_cong [OF dropWhile_split [OF True], of length] by simp
  then have i: "?i < length xs" "?i < 2 ^ 64 - 1" using view_size [OF v] by simp_all
  have "first_pos (\<lambda>b. b = C) 0 xs = of_nat ?i" using i(1) by (simp add: first_pos_def)
  then have s: "split_char m C S = Inr (slice 0 (of_nat ?i) S, slice (of_nat ?i + 1) sr_npos S)"
    using of_nat_npos [OF i(2)] by (simp add: split_char_def find_char_spec [OF v])
  have "drop (Suc ?i) xs = tl (dropWhile (\<lambda>b. b \<noteq> C) xs)" by (simp add: drop_Suc drop_tl dropWhile_eq_drop)
  moreover have "take ?i xs = takeWhile (\<lambda>b. b \<noteq> C) xs" by (simp flip: takeWhile_eq_take)
  moreover have "C \<notin> set (takeWhile (\<lambda>b. b \<noteq> C) xs)" by (auto dest: set_takeWhileD)
  ultimately show ?thesis using s split_at [OF v i] dropWhile_split [OF True] True by (simp only: if_True) metis
qed

lemma rsplit_char_spec:
  assumes v: "view m S xs"
  shows "\<exists>A B a b. rsplit_char m C S = Inr (A, B) \<and> view m A a \<and> view m B b \<and> C \<notin> set b \<and>
    (if C \<in> set xs then xs = a @ C # b else A = S \<and> a = xs \<and> b = [])"
proof (cases "C \<in> set xs")
  case False
  then have "last_pos (\<lambda>b. b = C) (unat sr_npos) xs = sr_npos"
    using last_pos_split(2) [OF view_size [OF v] view_npos [OF v]] by blast
  then have "rsplit_char m C S = Inr (S, null_ref)" by (simp add: rsplit_char_def rfind_char_spec [OF v])
  then show ?thesis using v False by (intro exI [of _ S] exI [of _ null_ref] exI [of _ xs] exI [of _ "[]"]) simp
next
  case True
  then obtain a b where ab: "xs = a @ C # b" "C \<notin> set b" by (meson split_list_last)
  then have i: "length a < length xs" "length a < 2 ^ 64 - 1" using view_size [OF v] by simp_all
  have "dropWhile (\<lambda>x. x \<noteq> C) (rev xs) = C # rev a" using ab by (simp add: dropWhile_append)
  then have "last_pos (\<lambda>b. b = C) (unat sr_npos) xs = of_nat (length a)"
    using view_npos [OF v] by (simp add: last_pos_def)
  then have s: "rsplit_char m C S = Inr (slice 0 (of_nat (length a)) S, slice (of_nat (length a) + 1) sr_npos S)"
    using of_nat_npos [OF i(2)] by (simp add: rsplit_char_def rfind_char_spec [OF v])
  have "take (length a) xs = a" "drop (Suc (length a)) xs = b" by (simp_all add: ab(1))
  then show ?thesis using s split_at [OF v i] ab True by metis
qed

section \<open>Over the LLVM library\<close>

text \<open>What the searches of the library are documented to return.\<close>

locale string_library =
  fixes L :: string_lib
  assumes find_law: "view m S xs \<Longrightarrow> view m T ys \<Longrightarrow> L_find L m T From S =
      Inr (case List.find (\<lambda>i. i + length ys \<le> length xs \<and> take (length ys) (drop i xs) = ys) [unat From..<Suc (length xs)] of
             None \<Rightarrow> sr_npos | Some i \<Rightarrow> of_nat i)"
    and first_not_law: "view m S xs \<Longrightarrow> L_first_not L m C From S = Inr (first_pos (\<lambda>b. b \<noteq> C) (unat From) xs)"
    and first_not_of_law: "view m S xs \<Longrightarrow> view m T ys \<Longrightarrow>
      L_first_not_of L m T From S = Inr (first_pos (\<lambda>b. b \<notin> set ys) (unat From) xs)"
    and last_not_law: "view m S xs \<Longrightarrow> L_last_not L m C From S = Inr (last_pos (\<lambda>b. b \<noteq> C) (unat From) xs)"
    and last_not_of_law: "view m S xs \<Longrightarrow> view m T ys \<Longrightarrow>
      L_last_not_of L m T From S = Inr (last_pos (\<lambda>b. b \<notin> set ys) (unat From) xs)"

lemma drop_front_first:
  assumes v: "view m S xs"
  shows "\<exists>S'. drop_front (min (Length S) (first_pos P 0 xs)) S = Inr S' \<and> view m S' (dropWhile (\<lambda>b. \<not> P b) xs)"
proof -
  have u: "unat (min (Length S) (first_pos P 0 xs)) = min (length xs) (unat (first_pos P 0 xs))"
    by (simp only: unat_min view_length [OF v])
  have d: "drop (min (length xs) (unat (first_pos P 0 xs))) xs = dropWhile (\<lambda>b. \<not> P b) xs"
    using first_pos_split(3) [OF view_size [OF v], of P] by (cases "length xs \<le> unat (first_pos P 0 xs)") (simp_all add: min_def)
  show ?thesis using drop_front_spec [OF v, of "min (Length S) (first_pos P 0 xs)"] by (simp only: u d min.cobounded1 simp_thms)
qed

lemma drop_back_last:
  assumes v: "view m S xs"
  shows "\<exists>S'. drop_back (Length S - min (Length S) (last_pos P (unat sr_npos) xs + 1)) S = Inr S' \<and>
    view m S' (rev (dropWhile (\<lambda>b. \<not> P b) (rev xs)))"
proof -
  let ?k = "length (dropWhile (\<lambda>b. \<not> P b) (rev xs))" and ?w = "min (Length S) (last_pos P (unat sr_npos) xs + 1)"
  have k: "?k \<le> length xs" using length_dropWhile_le [of "\<lambda>b. \<not> P b" "rev xs"] by simp
  have w: "unat ?w = ?k"
    unfolding unat_min view_length [OF v] last_pos_split(1) [OF view_size [OF v] view_npos [OF v]] using k by simp
  have d: "unat (Length S - ?w) = length xs - ?k"
    unfolding unat_diff_small [OF min.cobounded1] by (simp only: w view_length [OF v])
  have "rev (take ?k xs) = drop (length xs - ?k) (rev xs)" by (simp add: rev_take)
  also have "\<dots> = dropWhile (\<lambda>b. \<not> P b) (rev xs)"
    by (metis append_eq_conv_conj length_append length_rev diff_add_inverse2 takeWhile_dropWhile_id)
  finally have "take ?k xs = rev (dropWhile (\<lambda>b. \<not> P b) (rev xs))" by (simp add: rev_swap)
  then show ?thesis using drop_back_spec [OF v, of "Length S - ?w", unfolded d] k by simp
qed

context string_library
begin

lemma find_first:
  assumes v: "view m S xs" "view m T ys"
  shows "\<exists>i. L_find L m T 0 S = Inr i \<and>
    (if sublist ys xs then unat i + length ys \<le> length xs \<and> take (length ys) (drop (unat i) xs) = ys \<and> i \<noteq> sr_npos \<and>
       (\<forall>p s. xs = p @ ys @ s \<longrightarrow> unat i \<le> length p)
     else i = sr_npos)"
proof -
  let ?P = "\<lambda>i. i + length ys \<le> length xs \<and> take (length ys) (drop i xs) = ys"
  have at: "?P (length p)" "length p < Suc (length xs)" if "xs = p @ ys @ s" for p s using that by simp_all
  note F = find_law [OF v, of 0]
  show ?thesis
  proof (cases "List.find ?P [0..<Suc (length xs)]")
    case None
    then have no: "\<not> ?P i" if "i < Suc (length xs)" for i using that by (auto simp: find_None_iff)
    have "\<not> sublist ys xs"
    proof
      assume "sublist ys xs"
      then obtain p s where "xs = p @ ys @ s" by (auto simp: sublist_def)
      then show False using at no by blast
    qed
    then show ?thesis using F None by simp
  next
    case (Some i)
    then have i: "i < Suc (length xs)" "?P i" "\<forall>j < i. \<not> ?P j" by (auto simp: find_Some_iff simp del: upt_Suc)
    have "xs = take i xs @ ys @ drop (length ys) (drop i xs)" using i(2) by (metis append_take_drop_id)
    then have sub: "sublist ys xs" unfolding sublist_def by blast
    have first: "i \<le> length p" if "xs = p @ ys @ s" for p s using at(1) [OF that] i(3) by (meson not_le)
    have "ys = [] \<Longrightarrow> i = 0" using first [of "[]" xs] by simp
    then have "i < 2 ^ 64 - 1" using i(2) view_size [OF v(1)] by (cases "ys = []") (auto simp: neq_Nil_conv)
    then have "unat (of_nat i :: u64) = i" "(of_nat i :: u64) \<noteq> sr_npos"
      by (intro unat_of_nat_64, simp, rule of_nat_npos)
    then show ?thesis using F Some i(2) first sub by (auto simp del: upt_Suc)
  qed
qed

lemma contains_string_spec: "view m S xs \<Longrightarrow> view m T ys \<Longrightarrow> contains_string L m T S = Inr (sublist ys xs)"
  using find_first [of m S xs T ys] by (auto simp: contains_string_def split: if_splits)

lemma split_string_spec:
  assumes v: "view m S xs" "view m T ys"
  shows "\<exists>A B a b. split_string L m T S = Inr (A, B) \<and> view m A a \<and> view m B b \<and>
    (if sublist ys xs then xs = a @ ys @ b \<and> (\<forall>p s. xs = p @ ys @ s \<longrightarrow> length a \<le> length p)
     else A = S \<and> a = xs \<and> b = [])"
proof -
  obtain i where i: "L_find L m T 0 S = Inr i"
    "if sublist ys xs then unat i + length ys \<le> length xs \<and> take (length ys) (drop (unat i) xs) = ys \<and> i \<noteq> sr_npos \<and>
       (\<forall>p s. xs = p @ ys @ s \<longrightarrow> unat i \<le> length p)
     else i = sr_npos"
    using find_first [OF v] by blast
  show ?thesis
  proof (cases "sublist ys xs")
    case False
    then have "split_string L m T S = Inr (S, null_ref)" using i by (simp add: split_string_def)
    then show ?thesis using v(1) False by (intro exI [of _ S] exI [of _ null_ref] exI [of _ xs] exI [of _ "[]"]) simp
  next
    case True
    then have at: "unat i + length ys \<le> length xs" "take (length ys) (drop (unat i) xs) = ys" "i \<noteq> sr_npos"
      "\<forall>p s. xs = p @ ys @ s \<longrightarrow> unat i \<le> length p" using i(2) by simp_all
    have "unat (i + Length T) = unat i + length ys"
      using at(1) view_size [OF v(1)] view_length [OF v(2)] by (subst unat_add_small) simp_all
    then have "view m (slice (i + Length T) sr_npos S) (drop (unat i + length ys) xs)"
      using view_slice [OF v(1), of "i + Length T" sr_npos] view_npos [OF v(1)] by (simp only: take_all)
    moreover have "view m (slice 0 i S) (take (unat i) xs)" using view_slice [OF v(1), of 0 i] by simp
    moreover have "split_string L m T S = Inr (slice 0 i S, slice (i + Length T) sr_npos S)"
      using i(1) at(3) by (simp add: split_string_def)
    moreover have "xs = take (unat i) xs @ ys @ drop (unat i + length ys) xs"
      using at(2) by (metis append_take_drop_id drop_drop add.commute)
    moreover have "length (take (unat i) xs) = unat i" using at(1) by simp
    ultimately show ?thesis using True at(4) by metis
  qed
qed

lemma ltrim_spec:
  assumes "view m S xs"
  shows "\<exists>S'. ltrim_char L m C S = Inr S' \<and> view m S' (dropWhile (\<lambda>b. b = C) xs)"
    "view m T ys \<Longrightarrow> \<exists>S'. ltrim L m T S = Inr S' \<and> view m S' (dropWhile (\<lambda>b. b \<in> set ys) xs)"
  using drop_front_first [OF assms, of "\<lambda>b. b \<noteq> C"] drop_front_first [OF assms, of "\<lambda>b. b \<notin> set ys"]
  by (simp_all add: ltrim_char_def ltrim_def first_not_law [OF assms] first_not_of_law [OF assms])

lemma rtrim_spec:
  assumes "view m S xs"
  shows "\<exists>S'. rtrim_char L m C S = Inr S' \<and> view m S' (rev (dropWhile (\<lambda>b. b = C) (rev xs)))"
    "view m T ys \<Longrightarrow> \<exists>S'. rtrim L m T S = Inr S' \<and> view m S' (rev (dropWhile (\<lambda>b. b \<in> set ys) (rev xs)))"
  using drop_back_last [OF assms, of "\<lambda>b. b \<noteq> C"] drop_back_last [OF assms, of "\<lambda>b. b \<notin> set ys"]
  by (simp_all only: rtrim_char_def rtrim_def last_not_law [OF assms] last_not_of_law [OF assms] then_do_Inr simp_thms)

lemma trim_spec:
  assumes "view m S xs"
  shows "\<exists>S'. trim_char L m C S = Inr S' \<and>
      view m S' (rev (dropWhile (\<lambda>b. b = C) (rev (dropWhile (\<lambda>b. b = C) xs))))"
    "view m T ys \<Longrightarrow> \<exists>S'. trim L m T S = Inr S' \<and>
      view m S' (rev (dropWhile (\<lambda>b. b \<in> set ys) (rev (dropWhile (\<lambda>b. b \<in> set ys) xs))))"
  using ltrim_spec [OF assms] rtrim_spec unfolding trim_char_def trim_def
  by (metis then_do_Inr)+

end

end
