(* ===== verification/LL_SR_Final.thy ===== *)
theory LL_SR_Final imports LL_SR_Split begin

text \<open>
  A string library, literals, copies and integers of \<open>ADT/StringRef.h\<close>, and the properties.
\<close>

section \<open>A library\<close>

text \<open>The searches written out on the bytes in view.\<close>

definition on_bytes :: "memory \<Rightarrow> string_ref \<Rightarrow> (byte list \<Rightarrow> stop + u64) \<Rightarrow> stop + u64" where
  "on_bytes m S f = (case load_bytes m (Data S) (unat (Length S)) of None \<Rightarrow> Inl Segv | Some xs \<Rightarrow> f xs)"

lemma on_bytes_view [simp]: "view m S xs \<Longrightarrow> on_bytes m S f = f xs"
  by (simp add: view_def on_bytes_def)

definition naive_string_lib :: string_lib where
  "naive_string_lib =
     \<lparr>L_find = \<lambda>m T From S. on_bytes m S (\<lambda>xs. on_bytes m T (\<lambda>ys.
        Inr (case List.find (\<lambda>i. i + length ys \<le> length xs \<and> take (length ys) (drop i xs) = ys) [unat From..<Suc (length xs)] of
               None \<Rightarrow> sr_npos | Some i \<Rightarrow> of_nat i))),
      L_first_not = \<lambda>m C From S. on_bytes m S (\<lambda>xs. Inr (first_pos (\<lambda>b. b \<noteq> C) (unat From) xs)),
      L_first_not_of = \<lambda>m T From S. on_bytes m S (\<lambda>xs. on_bytes m T (\<lambda>ys. Inr (first_pos (\<lambda>b. b \<notin> set ys) (unat From) xs))),
      L_last_not = \<lambda>m C From S. on_bytes m S (\<lambda>xs. Inr (last_pos (\<lambda>b. b \<noteq> C) (unat From) xs)),
      L_last_not_of = \<lambda>m T From S. on_bytes m S (\<lambda>xs. on_bytes m T (\<lambda>ys. Inr (last_pos (\<lambda>b. b \<notin> set ys) (unat From) xs)))\<rparr>"

interpretation naive_strings: string_library naive_string_lib
  by unfold_locales (simp_all add: naive_string_lib_def)

section \<open>Literals and copies\<close>

lemma strlen_spec:
  "load_bytes m P (Suc (length zs)) = Some (zs @ [0]) \<Longrightarrow> 0 \<notin> set zs \<Longrightarrow> strlen m P n = Some (Inr (n + of_nat (length zs)))"
proof (induction zs arbitrary: P n)
  case Nil
  then show ?case by (subst strlen.simps) (auto split: option.splits)
next
  case (Cons z zs)
  then have z: "m P = Some z" "load_bytes m (P + 1) (Suc (length zs)) = Some (zs @ [0])"
    by (auto simp del: load_bytes.simps(2) simp add: load_bytes.simps(2) [of m P] split: option.splits)
  then show ?case using Cons.IH [OF z(2)] Cons.prems(2) by (subst strlen.simps) (simp add: add.assoc)
qed

lemma StringRef_new_spec:
  assumes "load_bytes m P (Suc (length zs)) = Some (zs @ [0])" "0 \<notin> set zs" "P \<noteq> 0" "length zs < 2 ^ 64"
  shows "\<exists>Z. StringRef_new m P = Some (Inr Z) \<and> view m Z zs"
proof -
  have "m (P + of_nat i) = Some (zs ! i)" if "i < length zs" for i
  proof -
    have "m (P + of_nat i) = Some ((zs @ [0]) ! i)" using assms(1) that unfolding load_bytes_eq_Some by simp
    then show ?thesis using that by (simp add: nth_append)
  qed
  then have "view m \<lparr>Data = P, Length = of_nat (length zs)\<rparr> zs" using assms(4) by (simp add: view_iff unat_of_nat_64)
  then show ?thesis using assms(3) by (simp add: StringRef_new_def strlen_spec [OF assms(1,2)])
qed

lemma str_spec: "view m S xs \<Longrightarrow> Data S \<noteq> 0 \<or> xs = [] \<Longrightarrow> str m S = Inr xs"
  by (auto simp: str_def view_def)

lemma std_copy_spec:
  assumes "load_bytes m P n = Some xs" "\<forall>i < n. m (Q + of_nat i) \<noteq> None" "region P n \<inter> region Q n = {}" "n \<le> 2 ^ 64"
  shows "std_copy m P Q n = Inr (store_bytes m Q xs)"
  using assms
proof (induction n arbitrary: m P Q xs)
  case (Suc n)
  have inR: "a + of_nat i \<in> region a (Suc n)" if "i < Suc n" for a i
    using that Suc.prems(4) by (simp add: region_def unat_of_nat_64)
  from Suc.prems(1) obtain b bs where b: "m P = Some b" "xs = b # bs" "load_bytes m (P + 1) n = Some bs"
    by (auto split: option.splits)
  have q: "m Q \<noteq> None" using spec [OF Suc.prems(2), of 0] by simp
  have ne: "P + of_nat i \<noteq> Q" if "i < Suc n" for i
    using inR [OF that, of P] inR [of 0 Q] Suc.prems(3) by auto
  have l: "load_bytes (m(Q \<mapsto> b)) (P + 1) n = Some bs"
    using b(3) ne [of "Suc _"] by (auto simp: load_bytes_eq_Some add.assoc)
  have d: "\<forall>i < n. (m(Q \<mapsto> b)) (Q + 1 + of_nat i) \<noteq> None"
  proof (intro allI impI)
    fix i assume "i < n"
    then have "m (Q + of_nat (Suc i)) \<noteq> None" using spec [OF Suc.prems(2), of "Suc i"] by simp
    then show "(m(Q \<mapsto> b)) (Q + 1 + of_nat i) \<noteq> None" by (simp add: add.assoc)
  qed
  have sub: "region (a + 1) n \<subseteq> region a (Suc n)" for a
  proof
    fix c assume "c \<in> region (a + 1) n"
    then have u: "unat (c - (a + 1)) < n" by (simp add: region_def)
    then have "a + of_nat (Suc (unat (c - (a + 1)))) \<in> region a (Suc n)" by (intro inR) simp
    then show "c \<in> region a (Suc n)" by simp
  qed
  have "std_copy (m(Q \<mapsto> b)) (P + 1) (Q + 1) n = Inr (store_bytes (m(Q \<mapsto> b)) (Q + 1) bs)"
  proof (rule Suc.IH [OF l d])
    show "region (P + 1) n \<inter> region (Q + 1) n = {}" using Suc.prems(3) sub by blast
    show "n \<le> 2 ^ 64" using Suc.prems(4) by simp
  qed
  then show ?case using q by (auto simp: b(1,2))
qed simp

text \<open>A copy has the bytes of the string, in memory the allocator gave that the string is not in.\<close>

lemma copy_string_spec:
  assumes v: "view m' S xs" and A: "Allocate (Length S) m = (P, m')"
    and q: "\<forall>i < length xs. m' (P + of_nat i) \<noteq> None" "region (Data S) (length xs) \<inter> region P (length xs) = {}"
    and ne: "xs \<noteq> []"
  shows "\<exists>S' m''. copy_string Allocate m S = Inr (S', m'') \<and> view m'' S' xs"
proof -
  have l: "unat (Length S) = length xs" "length xs < 2 ^ 64" using view_length [OF v] view_size [OF v] by simp_all
  have c: "std_copy m' (Data S) P (length xs) = Inr (store_bytes m' P xs)"
    using v l q by (intro std_copy_spec) (simp_all add: view_def)
  have "view (store_bytes m' P xs) \<lparr>Data = P, Length = Length S\<rparr> xs"
    using l by (simp add: view_iff store_bytes_apply unat_of_nat_64)
  moreover have "Length S \<noteq> 0" using l(1) ne by auto
  ultimately show ?thesis using c by (simp add: copy_string_def A l(1))
qed

section \<open>Integers of a type\<close>

lemma ucast_fits:
  "LENGTH('a::len) \<le> 64 \<Longrightarrow> (ucast (ucast (v :: u64) :: 'a word) :: u64) = v \<longleftrightarrow> unat v < 2 ^ LENGTH('a)"
proof -
  assume "LENGTH('a) \<le> 64"
  then have "unat (ucast (ucast v :: 'a word) :: u64) = take_bit LENGTH('a) (unat v)"
    by (simp add: unsigned_ucast_eq unsigned_take_bit_eq)
  then show ?thesis by (simp add: word_unat_eq_iff take_bit_nat_eq_self_iff)
qed

lemma scast_fits:
  assumes "LENGTH('a::len) \<le> 64"
  shows "(scast (ucast (v :: u64) :: 'a word) :: u64) = v \<longleftrightarrow> - (2 ^ (LENGTH('a) - 1)) \<le> sint v \<and> sint v < 2 ^ (LENGTH('a) - 1)"
proof -
  have "sint (scast (ucast v :: 'a word) :: u64) = signed_take_bit (LENGTH('a) - 1) (sint v)"
  proof -
    have "sint (scast w :: u64) = signed_take_bit 63 (sint w)" for w :: "'a word" by (simp add: signed_scast_eq)
    moreover have "sint (ucast v :: 'a word) = signed_take_bit (LENGTH('a) - 1) (uint v)" by (simp add: signed_ucast_eq)
    moreover have "min 63 (LENGTH('a) - 1) = LENGTH('a) - 1" "min (LENGTH('a) - 1) 63 = LENGTH('a) - 1" using assms by simp_all
    ultimately show ?thesis by (simp only: sint_uint [of v] signed_take_bit_signed_take_bit len_num1 len_bit0) simp
  qed
  moreover have "x = v \<longleftrightarrow> sint x = sint v" for x :: u64 by (rule word_eq_iff_signed)
  ultimately show ?thesis by (simp only: signed_take_bit_int_eq_self_iff)
qed

text \<open>The conversion gives the values that fit, and an error for the others.\<close>

lemma getAsInteger_spec:
  assumes "LENGTH('a::len) \<le> 64"
  shows "(getAsInteger_unsigned gu R S :: 'a word option) =
      (case gu S R of Some v \<Rightarrow> if unat v < 2 ^ LENGTH('a) then Some (ucast v) else None | None \<Rightarrow> None)"
    "(getAsInteger_signed gs R S :: 'a word option) =
      (case gs S R of Some v \<Rightarrow> if - (2 ^ (LENGTH('a) - 1)) \<le> sint v \<and> sint v < 2 ^ (LENGTH('a) - 1) then Some (ucast v) else None
       | None \<Rightarrow> None)"
  using ucast_fits [OF assms] scast_fits [OF assms]
  by (auto simp: getAsInteger_unsigned_def getAsInteger_signed_def split: option.splits)

text \<open>A value that does not fit is an error, after which its digits are gone from the string.\<close>

lemma consumeInteger_spec:
  assumes "LENGTH('a::len) \<le> 64"
  shows "(consumeInteger_unsigned cu R S :: string_ref \<times> 'a word option) =
      (case cu S R of (S', Some v) \<Rightarrow> (S', if unat v < 2 ^ LENGTH('a) then Some (ucast v) else None) | (S', None) \<Rightarrow> (S', None))"
    "(consumeInteger_signed cs R S :: string_ref \<times> 'a word option) =
      (case cs S R of
         (S', Some v) \<Rightarrow> (S', if - (2 ^ (LENGTH('a) - 1)) \<le> sint v \<and> sint v < 2 ^ (LENGTH('a) - 1) then Some (ucast v) else None)
       | (S', None) \<Rightarrow> (S', None))"
  using ucast_fits [OF assms] scast_fits [OF assms]
  by (auto simp: consumeInteger_unsigned_def consumeInteger_signed_def split: option.splits prod.splits)

section \<open>Positions, spelled out\<close>

lemma first_pos_meaning:
  assumes "length xs < 2 ^ 64" "i = first_pos P a xs"
  shows "if i = sr_npos then \<forall>j. a \<le> j \<and> j < length xs \<longrightarrow> \<not> P (xs ! j)
    else a \<le> unat i \<and> unat i < length xs \<and> P (xs ! unat i) \<and> (\<forall>j. a \<le> j \<and> j < unat i \<longrightarrow> \<not> P (xs ! j))"
proof -
  let ?k = "length (takeWhile (\<lambda>b. \<not> P b) (drop a xs))"
  have before: "\<not> P (xs ! j)" if "a \<le> j" "j < a + ?k" "j < length xs" for j
  proof -
    have "drop a xs ! (j - a) \<in> set (takeWhile (\<lambda>b. \<not> P b) (drop a xs))"
      using that takeWhile_nth [of "j - a" "\<lambda>b. \<not> P b" "drop a xs"] by (metis less_diff_conv2 nth_mem add.commute)
    then have "\<not> P (drop a xs ! (j - a))" by (auto dest: set_takeWhileD)
    then show ?thesis using that by simp
  qed
  show ?thesis
  proof (cases "a + ?k < length xs")
    case True
    then have i: "i = of_nat (a + ?k)" "i \<noteq> sr_npos" "unat i = a + ?k"
      using assms of_nat_npos [of "a + ?k"] unat_of_nat_64 [of "a + ?k"] by (simp_all add: first_pos_def Let_def)
    have "P (drop a xs ! ?k)" using nth_length_takeWhile [of "\<lambda>b. \<not> P b" "drop a xs"] True by simp
    then show ?thesis using i before True by simp
  next
    case False
    then have "i = sr_npos" using assms(2) by (simp add: first_pos_def Let_def)
    then show ?thesis using before False by simp
  qed
qed

lemma last_pos_meaning:
  assumes "length xs < 2 ^ 64" "i = last_pos P a xs"
  shows "if i = sr_npos then \<forall>j. j < a \<and> j < length xs \<longrightarrow> \<not> P (xs ! j)
    else unat i < a \<and> unat i < length xs \<and> P (xs ! unat i) \<and> (\<forall>j. unat i < j \<and> j < a \<and> j < length xs \<longrightarrow> \<not> P (xs ! j))"
proof -
  let ?ys = "take a xs"
  have ys: "length ?ys < 2 ^ 64" using assms(1) by simp
  have i: "i = last_pos P (length ?ys) ?ys" by (simp only: assms(2) last_pos_def take_all order_refl)
  note S = last_pos_split [OF ys order_refl, of P, folded i]
  show ?thesis
  proof (cases "i = sr_npos")
    case True
    then have "\<not> P (?ys ! j)" if "j < length ?ys" for j using S(2) that nth_mem by blast
    then show ?thesis using True by simp
  next
    case False
    then obtain b where "b \<in> set ?ys" "P b" using S(2) by blast
    then obtain us b vs where u: "?ys = us @ b # vs" "P b" "\<forall>c \<in> set vs. \<not> P c"
      using split_list_last_prop [of ?ys P] by blast
    have "dropWhile (\<lambda>b. \<not> P b) (rev ?ys) = b # rev us" unfolding u(1) using u(2,3) by (simp add: dropWhile_append)
    then have "unat (i + 1) = Suc (length us)" using S(1) by simp
    then have len: "unat i = length us" using False
      by (metis diff_Suc_1 add_diff_cancel unat_minus_one unat_0 Zero_not_Suc)
    have at: "xs ! j = (us @ b # vs) ! j" if "j < length (us @ b # vs)" for j
      using that unfolding u(1) [symmetric] by simp
    have l: "length (us @ b # vs) = min (length xs) a" using arg_cong [OF u(1), of length] by simp
    have "unat i < min (length xs) a" unfolding l [symmetric] len by simp
    moreover have "P (xs ! unat i)" using at [of "unat i"] u(2) len by simp
    moreover have "\<not> P (xs ! j)" if "unat i < j" "j < min (length xs) a" for j
    proof -
      have "xs ! j = vs ! (j - Suc (length us))" using at [of j] that l len by (simp add: nth_append nth_Cons')
      moreover have "j - Suc (length us) < length vs" using that unfolding l [symmetric] len by simp
      ultimately show ?thesis using u(3) by simp
    qed
    ultimately show ?thesis using False by simp
  qed
qed

section \<open>Properties\<close>

text \<open>The comparison \<open>F.getName() == "..."\<close> of the pass: equality of the name with the literal.\<close>

lemma name_is_literal:
  assumes "view m S xs" "load_bytes m P (Suc (length zs)) = Some (zs @ [0])" "0 \<notin> set zs" "P \<noteq> 0" "length zs < 2 ^ 64"
  shows "\<exists>Z. StringRef_new m P = Some (Inr Z) \<and> sr_eq m S Z = Inr (xs = zs)"
  using StringRef_new_spec [OF assms(2-5)] operators_spec(1) [OF assms(1)] by blast

text \<open>
  C39. A \<open>StringRef\<close> behaves as the list of the bytes it points to: \<open>equals\<close> and \<open>compare\<close> decide
  equality and the lexicographic order, \<open>startswith\<close> and \<open>endswith\<close> find prefixes and suffixes, the
  searches give the first position from a start on and the last one before a bound, or \<open>sr_npos\<close> when
  there is none, \<open>count\<close> counts, and the parts a call returns have the bytes they should, whatever
  positions and lengths are asked for.  No call reads a byte that is not in view.
\<close>

theorem StringRef_refines_list:
  assumes "view m S xs" "view m T ys"
  shows "equals m S T = Inr (xs = ys) \<and>
    compare m S T = Inr (if xs = ys then 0 else if lex_less xs ys then - 1 else 1) \<and>
    startswith m S T = Inr (prefix ys xs) \<and> endswith m S T = Inr (suffix ys xs) \<and>
    (\<exists>i. find_char m C From S = Inr i \<and>
      (if i = sr_npos then \<forall>j. unat From \<le> j \<and> j < length xs \<longrightarrow> xs ! j \<noteq> C
       else unat From \<le> unat i \<and> unat i < length xs \<and> xs ! unat i = C \<and>
         (\<forall>j. unat From \<le> j \<and> j < unat i \<longrightarrow> xs ! j \<noteq> C))) \<and>
    (\<exists>i. rfind_char m C From S = Inr i \<and>
      (if i = sr_npos then \<forall>j. j < unat From \<and> j < length xs \<longrightarrow> xs ! j \<noteq> C
       else unat i < unat From \<and> unat i < length xs \<and> xs ! unat i = C \<and>
         (\<forall>j. unat i < j \<and> j < unat From \<and> j < length xs \<longrightarrow> xs ! j \<noteq> C))) \<and>
    count_char m C S = Inr (of_nat (count_list xs C)) \<and>
    view m (substr From N S) (take (unat N) (drop (unat From) xs)) \<and>
    view m (slice From N S) (drop (unat From) (take (unat N) xs)) \<and>
    (\<exists>S'. take_while m F S = Inr S' \<and> view m S' (takeWhile F xs)) \<and>
    (\<exists>S'. drop_while m F S = Inr S' \<and> view m S' (dropWhile F xs)) \<and>
    (\<exists>S'. consume_front m T S = Inr (prefix ys xs, S') \<and> view m S' (if prefix ys xs then drop (length ys) xs else xs))"
proof (intro conjI)
  show "\<exists>i. find_char m C From S = Inr i \<and>
      (if i = sr_npos then \<forall>j. unat From \<le> j \<and> j < length xs \<longrightarrow> xs ! j \<noteq> C
       else unat From \<le> unat i \<and> unat i < length xs \<and> xs ! unat i = C \<and>
         (\<forall>j. unat From \<le> j \<and> j < unat i \<longrightarrow> xs ! j \<noteq> C))"
    unfolding find_char_spec [OF assms(1)] sum.inject
    by (rule exI, rule conjI [OF refl], rule first_pos_meaning [OF view_size [OF assms(1)] refl])
  show "\<exists>i. rfind_char m C From S = Inr i \<and>
      (if i = sr_npos then \<forall>j. j < unat From \<and> j < length xs \<longrightarrow> xs ! j \<noteq> C
       else unat i < unat From \<and> unat i < length xs \<and> xs ! unat i = C \<and>
         (\<forall>j. unat i < j \<and> j < unat From \<and> j < length xs \<longrightarrow> xs ! j \<noteq> C))"
    unfolding rfind_char_spec [OF assms(1)] sum.inject
    by (rule exI, rule conjI [OF refl], rule last_pos_meaning [OF view_size [OF assms(1)] refl])
qed (rule equals_spec [OF assms] compare_spec [OF assms] startswith_spec [OF assms] endswith_spec [OF assms]
    count_char_spec [OF assms(1)] view_substr [OF assms(1)] view_slice [OF assms(1)] whiles_spec(1,3) [OF assms(1)]
    consume_spec(1) [OF assms])+

text \<open>The string \<open>a.b.c\<close> and the string \<open>a.\<close>, the first bytes of the same memory.\<close>

definition sample_text :: memory where
  "sample_text = [4096 \<mapsto> 97, 4097 \<mapsto> 46, 4098 \<mapsto> 98, 4099 \<mapsto> 46, 4100 \<mapsto> 99]"

lemma load_bytes_numeral:
  "load_bytes m a (numeral k) =
    (case m a of None \<Rightarrow> None | Some b \<Rightarrow> map_option (Cons b) (load_bytes m (a + 1) (pred_numeral k)))"
  by (simp add: numeral_eq_Suc)

lemma sample_views:
  "view sample_text \<lparr>Data = 4096, Length = 5\<rparr> [97, 46, 98, 46, 99]" "view sample_text \<lparr>Data = 4096, Length = 2\<rparr> [97, 46]"
  "view sample_text \<lparr>Data = 4097, Length = 1\<rparr> [46]"
  by (simp_all add: view_def sample_text_def load_bytes_numeral)

lemma StringRef_refines_list_witness:
  "equals sample_text \<lparr>Data = 4096, Length = 5\<rparr> \<lparr>Data = 4096, Length = 2\<rparr> = Inr False \<and>
   compare sample_text \<lparr>Data = 4096, Length = 5\<rparr> \<lparr>Data = 4096, Length = 2\<rparr> = Inr 1 \<and>
   startswith sample_text \<lparr>Data = 4096, Length = 5\<rparr> \<lparr>Data = 4096, Length = 2\<rparr> = Inr True \<and>
   endswith sample_text \<lparr>Data = 4096, Length = 5\<rparr> \<lparr>Data = 4096, Length = 2\<rparr> = Inr False \<and>
   count_char sample_text 46 \<lparr>Data = 4096, Length = 5\<rparr> = Inr 2"
  using StringRef_refines_list [OF sample_views(1,2), where C = 46 and From = 0 and N = 0 and F = "\<lambda>b. True"]
  by (auto simp: suffix_def)

text \<open>
  C40. Splitting at the first occurrence of a character, at the last one, or at the first occurrence of
  a string gives two parts that, with the separator between them, are the string again; without an
  occurrence it gives the string itself and an empty one.  Trimming takes the characters away at
  both ends and nothing else.
\<close>

theorem StringRef_splits_roundtrip:
  assumes "string_library L" "view m S xs" "view m T ys"
  shows "(\<exists>A B a b. split_char m C S = Inr (A, B) \<and> view m A a \<and> view m B b \<and> C \<notin> set a \<and>
      (if C \<in> set xs then xs = a @ C # b else A = S \<and> a = xs \<and> b = [])) \<and>
    (\<exists>A B a b. rsplit_char m C S = Inr (A, B) \<and> view m A a \<and> view m B b \<and> C \<notin> set b \<and>
      (if C \<in> set xs then xs = a @ C # b else A = S \<and> a = xs \<and> b = [])) \<and>
    (\<exists>A B a b. split_string L m T S = Inr (A, B) \<and> view m A a \<and> view m B b \<and>
      (if sublist ys xs then xs = a @ ys @ b \<and> (\<forall>p s. xs = p @ ys @ s \<longrightarrow> length a \<le> length p)
       else A = S \<and> a = xs \<and> b = [])) \<and>
    (\<exists>A a l r. trim L m T S = Inr A \<and> view m A a \<and> xs = l @ a @ r \<and> set l \<subseteq> set ys \<and> set r \<subseteq> set ys \<and>
      (a \<noteq> [] \<longrightarrow> hd a \<notin> set ys \<and> last a \<notin> set ys))"
proof (intro conjI)
  let ?P = "\<lambda>b. b \<in> set ys"
  let ?d = "dropWhile ?P xs"
  let ?a = "rev (dropWhile ?P (rev ?d))" and ?l = "takeWhile ?P xs" and ?r = "rev (takeWhile ?P (rev ?d))"
  obtain A where A: "trim L m T S = Inr A" "view m A ?a" using string_library.trim_spec(2) [OF assms] by blast
  have d: "?d = ?a @ ?r" unfolding rev_append [symmetric] takeWhile_dropWhile_id by simp
  have x: "xs = ?l @ ?a @ ?r" unfolding d [symmetric] by simp
  have s: "set ?l \<subseteq> set ys" "set ?r \<subseteq> set ys" by (auto dest: set_takeWhileD)
  have "hd ?a \<notin> set ys \<and> last ?a \<notin> set ys" if "?a \<noteq> []"
  proof
    have "hd ?d = hd ?a" using d that by (metis hd_append2)
    moreover have "?d \<noteq> []" using that by (metis dropWhile.simps(1) rev.simps(1))
    ultimately show "hd ?a \<notin> set ys" using hd_dropWhile [of ?P xs] by auto
    show "last ?a \<notin> set ys" using that hd_dropWhile [of ?P "rev ?d"] by (simp add: last_rev)
  qed
  then show "\<exists>A a l r. trim L m T S = Inr A \<and> view m A a \<and> xs = l @ a @ r \<and> set l \<subseteq> set ys \<and> set r \<subseteq> set ys \<and>
      (a \<noteq> [] \<longrightarrow> hd a \<notin> set ys \<and> last a \<notin> set ys)"
    using A x s by blast
qed (rule split_char_spec [OF assms(2)] rsplit_char_spec [OF assms(2)] string_library.split_string_spec [OF assms])+

lemma StringRef_splits_roundtrip_witness:
  "\<exists>A B D E. split_char sample_text 46 \<lparr>Data = 4096, Length = 5\<rparr> = Inr (A, B) \<and> view sample_text A [97] \<and>
     view sample_text B [98, 46, 99] \<and>
     rsplit_char sample_text 46 \<lparr>Data = 4096, Length = 5\<rparr> = Inr (D, E) \<and> view sample_text E [99]"
proof -
  note R = StringRef_splits_roundtrip [OF naive_strings.string_library_axioms sample_views(1,3), where C = 46]
  obtain A B a b where A: "split_char sample_text 46 \<lparr>Data = 4096, Length = 5\<rparr> = Inr (A, B)" "view sample_text A a"
    "view sample_text B b" "46 \<notin> set a" "[97, 46, 98, 46, 99] = a @ 46 # b"
    using R by auto
  obtain D E d e where D: "rsplit_char sample_text 46 \<lparr>Data = 4096, Length = 5\<rparr> = Inr (D, E)" "view sample_text D d"
    "view sample_text E e" "46 \<notin> set e" "[97, 46, 98, 46, 99] = d @ 46 # e"
    using R by auto
  have "a = [97] \<and> b = [98, 46, 99]" using A(4,5) by (auto simp: Cons_eq_append_conv)
  moreover have "e = [99]" using D(4,5) by (auto simp: Cons_eq_append_conv)
  ultimately show ?thesis using A(1-3) D(1,3) by blast
qed

end
