(* ===== verification/Spec2Isabelle.thy ===== *)
theory Spec2Isabelle imports PT_Runtime_Props PT_Toy PT_Utils PT_Backtrace PT_Pass_Props LL_UseSort LL_BV_Props LL_LEB_Lemmas LL_EditDistance LL_ImutProps LL_SDM_Props LL_EC_Props LL_SR_Final begin

text \<open>
  PTAuth: a verification development of its runtime library, its LLVM pass, the small programs
  beside them, and the data structures and arithmetic of the LLVM headers the pass is built on.

  \<^bold>\<open>The program.\<close>  PTAuth protects heap objects of C programs on AArch64 against use after free,
  double free and invalid free.  A compiler pass (\<open>pass/instrument/ptauthpass.cpp\<close>,
  \<open>passutils.cpp\<close>) replaces the calls of \<open>malloc\<close>, \<open>calloc\<close>, \<open>realloc\<close> and \<open>free\<close> by
  functions of a runtime library (\<open>ptauth-rtlib.c\<close>) and puts a check of that library in front
  of the uses of pointers.  The library keeps an 8-byte identifier in front of each object and a
  signature, computed from address and identifier (\<open>pacinst.c\<close>), in the top bits of the pointer;
  a check recomputes the signature, and for a pointer into the middle of an object searches
  memory backwards for the header.  \<open>config.h\<close> selects the variants.

  \<^bold>\<open>The runtime library.\<close>
  \<open>PT_Prelude\<close>: machine types, the ways a C function stops the process, sequencing, facts on words.
  \<open>PT_Config\<close>: the flags of \<open>config.h\<close> as a record, the masks.
  \<open>PT_Pacinst\<close>: \<open>pacinst.c\<close> (\<open>xpac\<close>, \<open>pacga\<close>, \<open>pacia\<close>, \<open>autia\<close>); what signing,
  stripping and authenticating do to the bits.
  \<open>PT_Memory\<close>: memory as a partial map from addresses to bytes, words little-endian; the laws of
  loads and stores are the locale \<open>word_memory\<close>, interpreted as \<open>ram\<close>.
  \<open>PT_Libc\<close>: the process state (a record) and the C library (a record of functions); what is
  documented of the allocator is the locale \<open>allocator\<close>.
  \<open>PT_Heap\<close>: a first-fit allocator, the interpretation \<open>ff\<close> of that locale.
  \<open>PT_Alloc\<close>: \<open>initMD\<close> and the four allocation functions, and their specifications inside the
  locale.
  \<open>PT_Checks\<close>: \<open>backward_search\<close> (its loop a partial function), \<open>validatePointer\<close> and the
  checks; the search as a scan of the aligned words of a window.
  \<open>PT_Sample\<close>, \<open>PT_Runtime_Props\<close>: a process to run on; the properties.

  \<^bold>\<open>The pass.\<close>
  \<open>LL_Uses\<close>: the linked use lists of \<open>llvm/IR/Use.h\<close> and \<open>Value.h\<close> on an explicit heap of
  nodes, refined to lists.
  \<open>LL_UseSort\<close>: \<open>sortUseList\<close>, the merge sort that links those nodes anew, with its 32 slots and the
  assertion on them; first refined to a merge sort of lists, then sorted and stable.
  \<open>PT_IR\<close>: values with operands and use lists, functions, blocks and instructions; the functions
  of the LLVM library the pass calls are a parameter with the laws of the locale \<open>llvm\<close>,
  interpreted in \<open>PT_SampleIR\<close>.
  \<open>PT_Replace\<close>, \<open>PT_Rename\<close>: \<open>replaceFuncionWith\<close>, its loop a partial function; what becomes of the
  instructions and of their operands.
  \<open>PT_Pass\<close>: every handler of \<open>passutils.cpp\<close>.
  \<open>PT_Driver\<close>: \<open>optimizer\<close> and \<open>runOnModule\<close>, with the walk over functions, blocks and
  instructions while they change.
  \<open>PT_Growth\<close>, \<open>PT_Module\<close>: the relation \<open>grows\<close> that every handler keeps (what is new in a block,
  and how each operand leads back to the old one), and the run over a module.
  \<open>PT_SampleModule\<close>, \<open>PT_Pass_Props\<close>: modules to run on; the properties.

  \<^bold>\<open>The programs beside them.\<close>
  \<open>PT_Format\<close>: \<open>printf\<close> conversions, \<open>fgets\<close>, \<open>strtok\<close>, \<open>strtoul\<close>.
  \<open>PT_Toy\<close>: \<open>Test/toyexample.c\<close>, over the functions it is linked with, with the checks where the
  pass puts them, and what becomes of its double and invalid free under the runtime library.
  \<open>PT_Utils\<close>: \<open>checkPointstoHeap\<close> of \<open>utils.c\<close>.
  \<open>PT_Backtrace\<close>: the stack walks of \<open>backtrace/backtrace.c\<close> over libunwind as a parameter, and
  the lines they print, also when they do not end well.

  \<^bold>\<open>The LLVM headers\<close> (under \<open>pass/instrument/llvm\<close>).
  \<open>LL_Math\<close>, \<open>LL_Math_Lemmas\<close>: \<open>Support/MathExtras.h\<close>, \<open>Support/SwapByteOrder.h\<close>.
  \<open>LL_LEB128\<close>, \<open>LL_LEB_Lemmas\<close>: \<open>Support/LEB128.h\<close>, encoders to a stream and to a buffer, the
  decoders with their error messages.
  \<open>LL_EditDistance\<close>: \<open>ADT/edit_distance.h\<close> with its \<open>unsigned\<close> row and indices, against the
  recursive definition of the distance.
  \<open>LL_BitVector\<close>, \<open>LL_BV_Lemmas\<close>, \<open>LL_BV_Sets\<close>, \<open>LL_BV_Ops\<close>, \<open>LL_BV_Pairs\<close>,
  \<open>LL_BV_Queries\<close>, \<open>LL_BV_Props\<close>: \<open>ADT/BitVector.h\<close>, refined to lists of booleans; the iterator
  over set bits is proved for the locale \<open>searchable_bits\<close>, interpreted as \<open>bv\<close>.
  \<open>LL_ImutAVL\<close>, \<open>LL_ImutAVL_Lemmas\<close>, \<open>LL_ImutIter\<close>, \<open>LL_ImutSet\<close>, \<open>LL_ImutProps\<close>:
  \<open>ADT/ImmutableSet.h\<close> and \<open>ADT/ImmutableMap.h\<close>, trees with their rebalancing, iterators,
  comparisons and the cache of canonical trees; what a trait class must promise is the locale
  \<open>ordered_info\<close> and its extension \<open>comparable_info\<close>, interpreted for both trait classes.
  \<open>LL_DenseMap\<close>, \<open>LL_DM_Probe\<close>, \<open>LL_DM_Table\<close>, \<open>LL_DM_Ops\<close>, \<open>LL_DM_Map\<close>, \<open>LL_DM_Find\<close>,
  \<open>LL_DM_Sizes\<close>, \<open>LL_DM_Props\<close>: \<open>ADT/DenseMap.h\<close> with the keys of \<open>ADT/DenseMapInfo.h\<close>: quadratic
  probing comes to every bucket, so that a table with an empty one answers every lookup; the
  operations refine those of a finite function.  What a key type must promise is the locale
  \<open>dense_laws\<close>, interpreted for every key type modelled; what \<open>DenseMapBase\<close> asks of the \<open>grow\<close> and
  the \<open>shrink_and_clear\<close> of its derived classes are the locales \<open>dense_growth\<close> and \<open>dense_shrink\<close>, which
  extend it.  \<open>LL_SmallDenseMap\<close>, \<open>LL_SDM_Props\<close>: \<open>SmallDenseMap\<close>, whose buckets are inside the object while
  there are few, as the other derived class.
  \<open>LL_EquivClasses\<close>, \<open>LL_EC_Lemmas\<close>, \<open>LL_EC_Props\<close>: \<open>ADT/EquivalenceClasses.h\<close>, union and find
  with path compression, refined to an equivalence relation through lists of linked nodes.

  \<open>LL_StringRef\<close>, \<open>LL_SR_Props\<close>, \<open>LL_SR_Search\<close>, \<open>LL_SR_Split\<close>, \<open>LL_SR_Final\<close>: \<open>ADT/StringRef.h\<close>, the
  strings the pass compares the names of functions with, on the memory of \<open>PT_Memory\<close>, refined to
  lists of bytes; what the searches declared there do is the locale \<open>string_library\<close>, interpreted
  by searches written out on the bytes.

  \<^bold>\<open>Conventions.\<close>  A definition has the name of the function it models where that is possible.  A
  result is a sum: \<open>Inl\<close> the reason the process stopped (\<open>exit\<close>, \<open>abort\<close> or a failed assertion,
  an access to unmapped memory, an operation C leaves undefined), \<open>Inr\<close> the value.  Loops that
  may not end are partial functions with values in \<open>option\<close>, and their termination is a property
  (\<open>validatePointer_returns\<close>, \<open>run_functions_terminates\<close>, \<open>sortUseList_stable\<close>,
  \<open>ComputeEditDistance_correct\<close>) or fails in one (\<open>replaceFuncionWith_diverges\<close>); all other loops are total
  functions.  No fuel is used but in the iterator over the set bits of a \<open>BitVector\<close>, where
  \<open>Size + 1\<close> rounds are shown to be enough.  Integers have their width: 64-bit words for
  pointers, \<open>unsigned long\<close> and \<open>uint64_t\<close>, 32-bit words for \<open>unsigned\<close>, and integers with the
  overflow written out for \<open>int\<close>.

  \<^bold>\<open>Bounds in the statements.\<close>  A pointer is in user space (below \<open>2 ^ 48\<close>) and a block is 16-byte
  aligned, as the allocator promises.  A search window is the 1023 bytes of the shipped threshold.
  \<open>BitVector\<close> sizes are at most \<open>2 ^ 31\<close> bits, where \<open>int\<close> results are exact.  LEB128 padding is
  at most ten bytes.  Edit distances are of sequences, not both empty, of together fewer than
  \<open>2 ^ 32 - 1\<close> elements; what happens beyond is proved beside.  A use list of more than \<open>2 ^ 32\<close>
  uses fails the assertion of \<open>sortUseList\<close>.  Immutable trees have
  fewer than \<open>2 ^ 64\<close> nodes, so that 28 bits hold a height.  A hash table that is inserted into has
  at most \<open>2 ^ 30\<close> buckets, so that the counts fit in \<open>unsigned\<close> after it grows.

  \<^bold>\<open>Not modelled.\<close>  The \<open>invoke\<close> instruction, which C programs do not have.  The other variants of \<open>config.h\<close> that do not compile or need the ARMv8.3
  instructions; messages the pass writes to \<open>errs()\<close>; pass registration; the dead code behind the
  return of \<open>instrumentStore\<close>; the members of \<open>StringRef\<close> that are
  only declared in its header; the conversions between floating point and integers of
  \<open>MathExtras.h\<close>; the reference counts and the recycling of nodes of \<open>ImmutableSet.h\<close>; the
  epochs, the reverse iteration and the lookup by other keys of \<open>DenseMap.h\<close>; the declarations of headers, makefiles and scripts; all other LLVM headers, most of which declare
  classes whose members are defined in the LLVM library, which is not part of the repository.
\<close>

end
